(* ===== verification/Prelude.thy ===== *)
theory Prelude
  imports Main "HOL-Library.Word"
begin

text \<open>
  Shared vocabulary of the development: the machine integers of the C code as words, byte-order
  conversions, list surgery (\<open>memcpy\<close> into a fixed array, cutting a stream into blocks), and three
  interfaces that several components instantiate: an event-driven machine with an invariant,
  an encoder with its decoder, and a keyed table.
\<close>

unbundle bit_operations_syntax

section \<open>Machine integers\<close>

type_synonym u8 = "8 word"
type_synonym u32 = "32 word"
type_synonym u64 = "64 word"

named_theorems list_surgery "lengths and elements of lists updated in place"
named_theorems byte_order "words against their bytes"

text \<open>Storing a 64-bit sum in a 32-bit variable adds the stored parts.\<close>

lemma ucast_u64_add: "(ucast (x + y :: u64) :: u32) = ucast x + ucast y"
proof (transfer, goal_cases)
  case (1 x y)
  have "take_bit 32 (take_bit 64 x + take_bit 64 y)
      = take_bit 32 (take_bit 32 (take_bit 64 x) + take_bit 32 (take_bit 64 y))"
    by (simp only: take_bit_add)
  also have "\<dots> = take_bit 32 (take_bit 32 x + take_bit 32 y)" by (simp del: take_bit_add)
  also have "\<dots> = take_bit 32 (x + y)" by (simp only: take_bit_add)
  finally show ?case by simp
qed

lemma ucast_u64_ucast [simp]: "(ucast (ucast (x :: u32) :: u64) :: u32) = x"
  by transfer (simp add: min_def)

lemma ucast_u64_of_nat: "(ucast (of_nat n :: u64) :: u32) = of_nat n"
  by transfer (simp add: min_def)

lemma unat_u32_u64 [simp]: "unat (ucast (x :: u32) :: u64) = unat x"
  by (simp add: unsigned_ucast_eq take_bit_nat_eq_self_iff order_less_le_trans [OF unsigned_less])

lemma unat_and_mask: "unat (x AND mask m) = unat x mod 2 ^ m" for x :: "'a :: len word"
  by (simp only: take_bit_eq_mask [symmetric] unsigned_take_bit_eq) (simp add: take_bit_eq_mod)

lemma unat_drop_bit: "unat (drop_bit n x) = unat x div 2 ^ n" for x :: "'a :: len word"
  by (simp only: unsigned_drop_bit_eq) (simp add: drop_bit_eq_div take_bit_nat_eq_self)

text \<open>A bit field read through a mask.\<close>

lemma and_field: "n AND push_bit k (mask m) = push_bit k (take_bit m (drop_bit k n))" for n :: nat
  by (rule bit_eqI) (auto simp: bit_simps)

section \<open>Lists as C arrays\<close>

text \<open>\<open>memcpy_at dst k src\<close> is \<open>memcpy(&dst[k], src, length src)\<close> on the array \<open>dst\<close>.\<close>

definition memcpy_at :: "'a list \<Rightarrow> nat \<Rightarrow> 'a list \<Rightarrow> 'a list" where
  "memcpy_at dst k src = take k dst @ src @ drop (k + length src) dst"

lemma length_memcpy_at [list_surgery, simp]:
  "k + length src \<le> length dst \<Longrightarrow> length (memcpy_at dst k src) = length dst"
  by (simp add: memcpy_at_def)

lemma take_memcpy_at [list_surgery]:
  "k + length src \<le> length dst \<Longrightarrow> take (k + length src) (memcpy_at dst k src) = take k dst @ src"
  by (simp add: memcpy_at_def)

lemma memcpy_at_all [list_surgery]:
  "k + length src = length dst \<Longrightarrow> memcpy_at dst k src = take k dst @ src"
  by (simp add: memcpy_at_def)

text \<open>The full blocks of \<open>n\<close> elements a list starts with, and what is left over.\<close>

function full_blocks :: "nat \<Rightarrow> 'a list \<Rightarrow> 'a list list" where
  "full_blocks n xs =
     (if n = 0 \<or> length xs < n then [] else take n xs # full_blocks n (drop n xs))"
  by pat_completeness auto
termination
  by (relation "measure (\<lambda>(n, xs). length xs)") auto

declare full_blocks.simps [simp del]

definition left_over :: "nat \<Rightarrow> 'a list \<Rightarrow> 'a list" where
  "left_over n xs = drop (length xs div n * n) xs"

lemma full_blocks_short: "length xs < n \<Longrightarrow> full_blocks n xs = []"
  by (simp add: full_blocks.simps)

lemma full_blocks_step:
  "0 < n \<Longrightarrow> length b = n \<Longrightarrow> full_blocks n (b @ xs) = b # full_blocks n xs"
  by (subst full_blocks.simps) simp

lemma full_blocks_append:
  assumes "0 < n" and "n dvd length xs"
  shows "full_blocks n (xs @ ys) = full_blocks n xs @ full_blocks n ys"
  using assms
proof (induction n xs rule: full_blocks.induct)
  case (1 n xs)
  show ?case
  proof (cases "length xs < n")
    case True
    with "1.prems" have "xs = []" by (auto dest: nat_dvd_not_less)
    with "1.prems" show ?thesis by (simp add: full_blocks.simps [of n "[]"])
  next
    case False
    then have split: "xs = take n xs @ drop n xs" and len: "length (take n xs) = n" by simp_all
    have "n dvd length (drop n xs)" using "1.prems" False by (simp add: dvd_diff_nat)
    with "1.IH" "1.prems" False
    have ih: "full_blocks n (drop n xs @ ys) = full_blocks n (drop n xs) @ full_blocks n ys" by simp
    have "full_blocks n (xs @ ys) = take n xs # full_blocks n (drop n xs @ ys)"
      using full_blocks_step [OF "1.prems"(1) len, of "drop n xs @ ys"] split
      by (metis append.assoc)
    also have "\<dots> = full_blocks n xs @ full_blocks n ys"
      using full_blocks_step [OF "1.prems"(1) len, of "drop n xs"] ih by simp
    finally show ?thesis .
  qed
qed

lemma full_blocks_length: "b \<in> set (full_blocks n xs) \<Longrightarrow> length b = n"
proof (induction n xs rule: full_blocks.induct)
  case (1 n xs)
  then show ?case by (subst (asm) full_blocks.simps) (auto split: if_splits)
qed

lemma length_left_over [simp]: "length (left_over n xs) = length xs mod n"
  by (simp add: left_over_def minus_div_mult_eq_mod)

lemma left_over_append:
  "n dvd length xs \<Longrightarrow> left_over n (xs @ ys) = left_over n ys"
  by (cases "n = 0") (auto simp: left_over_def add_mult_distrib elim!: dvdE)

lemma left_over_short: "length xs < n \<Longrightarrow> left_over n xs = xs"
  by (simp add: left_over_def)

lemma take_left_over: "take (length xs div n * n) xs @ left_over n xs = xs"
  by (simp add: left_over_def)

lemma full_blocks_left_over: "full_blocks n (left_over n xs) = []"
  by (cases "n = 0") (simp_all add: full_blocks.simps)

lemma full_blocks_split:
  assumes "0 < n"
  shows "full_blocks n (xs @ ys) = full_blocks n xs @ full_blocks n (left_over n xs @ ys)"
proof -
  define q where "q = take (length xs div n * n) xs"
  have q: "n dvd length q" and xs: "xs = q @ left_over n xs"
    by (simp_all add: q_def take_left_over min_absorb2)
  have "full_blocks n xs = full_blocks n q"
    using full_blocks_append [OF assms q, of "left_over n xs"] full_blocks_left_over [of n xs] xs
    by simp
  moreover have "full_blocks n (xs @ ys) = full_blocks n q @ full_blocks n (left_over n xs @ ys)"
    using full_blocks_append [OF assms q, of "left_over n xs @ ys"] xs by (metis append.assoc)
  ultimately show ?thesis by simp
qed

lemma left_over_split: "left_over n (xs @ ys) = left_over n (left_over n xs @ ys)"
proof -
  define q where "q = take (length xs div n * n) xs"
  have "n dvd length q" and "xs = q @ left_over n xs"
    by (simp_all add: q_def take_left_over min_absorb2)
  then show ?thesis using left_over_append [of n q "left_over n xs @ ys"] by (metis append.assoc)
qed

section \<open>Decimal numbers\<close>

text \<open>\<open>%d\<close> of \<open>printf\<close> and of \<open>lua_pushfstring\<close> on a number that is not negative.\<close>

fun show_nat :: "nat \<Rightarrow> string" where
  "show_nat n = (if n < 10 then [char_of (48 + n)] else show_nat (n div 10) @ [char_of (48 + n mod 10)])"

declare show_nat.simps [simp del]

section \<open>Byte order\<close>

text \<open>Four bytes as a 32-bit word, most significant first (\<open>be32\<close>) and least first (\<open>le32\<close>).\<close>

definition be32 :: "u8 \<Rightarrow> u8 \<Rightarrow> u8 \<Rightarrow> u8 \<Rightarrow> u32" where
  "be32 b0 b1 b2 b3 =
     push_bit 24 (ucast b0) OR push_bit 16 (ucast b1) OR push_bit 8 (ucast b2) OR ucast b3"

definition le32 :: "u8 \<Rightarrow> u8 \<Rightarrow> u8 \<Rightarrow> u8 \<Rightarrow> u32" where
  "le32 b0 b1 b2 b3 = be32 b3 b2 b1 b0"

text \<open>\<open>byte_at s w\<close> is the byte of \<open>w\<close> that starts at bit \<open>s\<close>: \<open>(w >> s) & 255\<close>.\<close>

definition byte_at :: "nat \<Rightarrow> u32 \<Rightarrow> u8" where
  "byte_at s w = ucast (drop_bit s w AND 255)"

fun words_with :: "(u8 \<Rightarrow> u8 \<Rightarrow> u8 \<Rightarrow> u8 \<Rightarrow> u32) \<Rightarrow> u8 list \<Rightarrow> u32 list" where
  "words_with f (b0 # b1 # b2 # b3 # bs) = f b0 b1 b2 b3 # words_with f bs"
| "words_with f bs = []"

definition le_bytes :: "u32 \<Rightarrow> u8 list" where
  "le_bytes w = [byte_at 0 w, byte_at 8 w, byte_at 16 w, byte_at 24 w]"

definition be_bytes :: "u32 \<Rightarrow> u8 list" where
  "be_bytes w = [byte_at 24 w, byte_at 16 w, byte_at 8 w, byte_at 0 w]"

lemma length_words_with [simp]: "length (words_with f bs) = length bs div 4"
  by (induction f bs rule: words_with.induct) auto

lemma length_le_bytes [simp]: "length (le_bytes w) = 4"
  and length_be_bytes [simp]: "length (be_bytes w) = 4"
  by (simp_all add: le_bytes_def be_bytes_def)

lemma byte_mask: "(255 :: 'a :: len word) = mask 8"
  by (simp add: mask_eq_exp_minus_1)

lemma bit_byte_at [byte_order]: "bit (byte_at s w) n \<longleftrightarrow> n < 8 \<and> bit w (s + n)"
  using bit_imp_le_length [of w "s + n"] unfolding byte_at_def byte_mask
  by (auto simp: bit_simps)

lemma bit_be32 [byte_order]:
  "bit (be32 b0 b1 b2 b3) n \<longleftrightarrow>
     (if n < 8 then bit b3 n else if n < 16 then bit b2 (n - 8)
      else if n < 24 then bit b1 (n - 16) else n < 32 \<and> bit b0 (n - 24))"
  by (auto simp: be32_def bit_simps dest: bit_imp_le_length)

lemma be32_bytes [simp, byte_order]:
  "be32 (byte_at 24 w) (byte_at 16 w) (byte_at 8 w) (byte_at 0 w) = w"
  by (rule bit_word_eqI) (auto simp: bit_be32 bit_byte_at)

lemma le32_bytes [simp, byte_order]:
  "le32 (byte_at 0 w) (byte_at 8 w) (byte_at 16 w) (byte_at 24 w) = w"
  by (simp add: le32_def)

lemma byte_at_be32 [simp, byte_order]:
  "byte_at 0 (be32 b0 b1 b2 b3) = b3" "byte_at 8 (be32 b0 b1 b2 b3) = b2"
  "byte_at 16 (be32 b0 b1 b2 b3) = b1" "byte_at 24 (be32 b0 b1 b2 b3) = b0"
  by (rule bit_word_eqI; auto simp: bit_be32 bit_byte_at)+

lemma words_with_le_bytes [simp]: "words_with le32 (concat (map le_bytes ws)) = ws"
  by (induction ws) (simp_all add: le_bytes_def)

lemma words_with_be_bytes [simp]: "words_with be32 (concat (map be_bytes ws)) = ws"
  by (induction ws) (simp_all add: be_bytes_def)

text \<open>Bytes of a word given by its value.\<close>

lemma byte_at_div: "byte_at s w = of_nat (unat w div 2 ^ s)"
proof -
  have "unat w < 2 ^ LENGTH(32)" by (rule unsigned_less)
  then have w: "unat w mod 2 ^ 32 = unat w" by simp
  have "byte_at s w = ucast (take_bit 8 (drop_bit s w))"
    unfolding byte_at_def byte_mask take_bit_eq_mask by simp
  also have "\<dots> = (of_nat (unat (take_bit 8 (drop_bit s w))) :: u8)"
    by (simp only: of_nat_unat)
  also have "unat (take_bit 8 (drop_bit s w)) = unat w div 2 ^ s mod 256"
    by (simp only: unsigned_take_bit_eq unsigned_drop_bit_eq) (simp add: take_bit_eq_mod drop_bit_eq_div w [simplified])
  finally show ?thesis by (simp add: word_of_nat_eq_iff take_bit_eq_mod)
qed

lemma be_bytes_sum:
  assumes "a < 256" "b < 256" "c < 256" "d < 256"
  shows "be_bytes (of_nat a * 0x1000000 + of_nat b * 0x10000 + of_nat c * 0x100 + of_nat d)
       = [of_nat a, of_nat b, of_nat c, of_nat d]"
proof -
  define n where "n = a * 0x1000000 + b * 0x10000 + c * 0x100 + d"
  have w: "of_nat a * 0x1000000 + of_nat b * 0x10000 + of_nat c * 0x100 + of_nat d = (of_nat n :: u32)"
    by (simp add: n_def)
  have "n < 2 ^ 32" using assms by (simp add: n_def)
  then have n: "unat (of_nat n :: u32) = n" by (simp add: unat_of_nat)
  have divs: "n div 2 ^ 24 = a" "n div 2 ^ 16 = a * 256 + b" "n div 2 ^ 8 = (a * 256 + b) * 256 + c"
    "n div 2 ^ 0 = ((a * 256 + b) * 256 + c) * 256 + d"
    using assms by (simp_all add: n_def)
  have u8: "(of_nat (k * 256 + x) :: u8) = of_nat x" for k x
    by (simp add: word_of_nat_eq_iff take_bit_eq_mod del: of_nat_add of_nat_mult)
  show ?thesis
    unfolding w be_bytes_def byte_at_div n divs u8 ..
qed

section \<open>Interfaces\<close>

text \<open>
  An object fed piece by piece. \<open>holds m c\<close> says that \<open>c\<close> is what the object is after it was
  given \<open>m\<close>; a piece is \<open>fit\<close> when the object takes it correctly.
\<close>

locale stream_object =
  fixes feed :: "'c \<Rightarrow> 'a list \<Rightarrow> 'c"
    and holds :: "'a list \<Rightarrow> 'c \<Rightarrow> bool"
    and fit :: "'a list \<Rightarrow> bool"
  assumes feed_holds: "holds m c \<Longrightarrow> fit piece \<Longrightarrow> holds (m @ piece) (feed c piece)"
begin

lemma feed_all:
  "holds m c \<Longrightarrow> list_all fit pieces \<Longrightarrow> holds (m @ concat pieces) (fold (\<lambda>p c. feed c p) pieces c)"
proof (induction pieces arbitrary: m c)
  case (Cons p pieces)
  then show ?case using Cons.IH [OF feed_holds [of m c p]] by simp
qed simp

end

text \<open>
  A code that writes each element as \<open>width\<close> symbols: a whole sequence can be read back by cutting
  it into blocks, so two sequences with the same text are equal.
\<close>

locale fixed_width_code =
  fixes enc :: "'a \<Rightarrow> 'b list"
    and dec :: "'b list \<Rightarrow> 'a"
    and width :: nat
  assumes width_pos: "0 < width"
    and length_enc: "length (enc x) = width"
    and dec_enc: "dec (enc x) = x"
begin

lemma length_encoded: "length (concat (map enc xs)) = width * length xs"
  by (induction xs) (simp_all add: length_enc)

lemma decode_encoded: "map dec (full_blocks width (concat (map enc xs))) = xs"
proof (induction xs)
  case Nil
  show ?case using width_pos by (simp add: full_blocks_short)
next
  case (Cons x xs)
  then show ?case
    using full_blocks_step [OF width_pos length_enc, of x "concat (map enc xs)"] by (simp add: dec_enc)
qed

lemma encoded_inj: "concat (map enc xs) = concat (map enc ys) \<Longrightarrow> xs = ys"
  by (metis decode_encoded)

end

text \<open>
  A machine that takes labelled steps, with an invariant of its states and a condition its labels
  have to meet. \<open>reaches\<close> relates a state to those some steps later.
\<close>

inductive reaches :: "('s \<Rightarrow> 'o \<Rightarrow> 's \<Rightarrow> bool) \<Rightarrow> 's \<Rightarrow> 's \<Rightarrow> bool" for step where
  reaches_refl: "reaches step s s"
| reaches_step: "reaches step s s1 \<Longrightarrow> step s1 out s2 \<Longrightarrow> reaches step s s2"

locale machine =
  fixes step :: "'s \<Rightarrow> 'o \<Rightarrow> 's \<Rightarrow> bool"
    and inv :: "'s \<Rightarrow> bool"
    and good :: "'s \<Rightarrow> 'o \<Rightarrow> bool"
  assumes inv_step: "inv s \<Longrightarrow> step s out s1 \<Longrightarrow> inv s1"
    and good_step: "inv s \<Longrightarrow> step s out s1 \<Longrightarrow> good s out"
begin

lemma inv_reached: "reaches step s s1 \<Longrightarrow> inv s \<Longrightarrow> inv s1"
  by (induction rule: reaches.induct) (auto intro: inv_step)

lemma good_reached: "reaches step s s1 \<Longrightarrow> inv s \<Longrightarrow> step s1 out s2 \<Longrightarrow> good s1 out"
  by (blast intro: good_step inv_reached)

end

text \<open>
  A table with keys: what a lookup returns after an insertion or a removal, and that both keep the
  table well formed.
\<close>

locale keyed_table =
  fixes lookup :: "'t \<Rightarrow> 'k \<Rightarrow> 'v option"
    and put :: "'k \<Rightarrow> 'v \<Rightarrow> 't \<Rightarrow> 't"
    and del :: "'k \<Rightarrow> 't \<Rightarrow> 't"
    and wf :: "'t \<Rightarrow> bool"
  assumes lookup_put: "wf t \<Longrightarrow> lookup (put k v t) k1 = (if k1 = k then Some v else lookup t k1)"
    and lookup_del: "wf t \<Longrightarrow> lookup (del k t) k1 = (if k1 = k then None else lookup t k1)"
    and wf_put: "wf t \<Longrightarrow> wf (put k v t)"
    and wf_del: "wf t \<Longrightarrow> wf (del k t)"
begin

lemma put_del_absent: "wf t \<Longrightarrow> lookup t k = None \<Longrightarrow> lookup (del k (put k v t)) = lookup t"
  by (simp add: fun_eq_iff lookup_del lookup_put wf_put)

lemma put_put: "wf t \<Longrightarrow> lookup (put k v2 (put k v1 t)) = lookup (put k v2 t)"
  by (simp add: fun_eq_iff lookup_put wf_put)

lemma put_put_del: "wf t \<Longrightarrow> lookup (del k (put k v2 (put k v1 t))) k = None"
  by (simp add: lookup_del wf_put)

lemma wf_dels: "wf t \<Longrightarrow> wf (fold del ks t)"
  by (induction ks arbitrary: t) (simp_all add: wf_del)

lemma lookup_dels: "wf t \<Longrightarrow> lookup (fold del ks t) k = (if k \<in> set ks then None else lookup t k)"
  by (induction ks arbitrary: t) (simp_all add: wf_del lookup_del)

end

end
