(* ===== verification/Sha1.thy ===== *)
theory Sha1
  imports Prelude
begin

text \<open>
  The SHA-1 of \<open>sha1/sha1.c\<close> and its Lua binding \<open>sha1/sha1_lua.c\<close>, as built by
  \<open>sha1/build.lua\<close>: \<open>WORDS_BIGENDIAN\<close> and \<open>SHA1HANDSOFF\<close> are not defined, so the block is
  expanded in place over the caller's bytes (\<open>block = (CHAR64LONG16*)buffer\<close>) on a little-endian
  machine, and \<open>size_t\<close> is 64 bits wide.
  An array is a list of its elements. Every function that writes through a pointer returns the
  written array, so \<open>SHA1_Transform\<close> returns the clobbered block and \<open>SHA1_Update\<close> the
  caller's data as it is afterwards.
\<close>

section \<open>Contexts and round macros\<close>

record sha1_ctx =
  ctx_state :: "u32 list"
  ctx_count :: "u32 list"
  ctx_buffer :: "u8 list"

type_synonym sha1_vars = "u32 \<times> u32 \<times> u32 \<times> u32 \<times> u32"

definition rol :: "u32 \<Rightarrow> nat \<Rightarrow> u32" where
  "rol v bits = push_bit bits v OR drop_bit (32 - bits) v"

text \<open>\<open>blk0(i)\<close> and \<open>blk(i)\<close> are assignments used as values: the value and the array after.\<close>

definition blk0 :: "u32 list \<Rightarrow> nat \<Rightarrow> u32 \<times> u32 list" where
  "blk0 l i =
     (let x = (rol (l ! i) 24 AND 0xFF00FF00) OR (rol (l ! i) 8 AND 0x00FF00FF)
      in (x, l[i := x]))"

definition blk :: "u32 list \<Rightarrow> nat \<Rightarrow> u32 \<times> u32 list" where
  "blk l i =
     (let x = rol (l ! ((i + 13) mod 16) XOR l ! ((i + 8) mod 16)
                   XOR l ! ((i + 2) mod 16) XOR l ! (i mod 16)) 1
      in (x, l[i mod 16 := x]))"

definition R0 :: "nat \<Rightarrow> sha1_vars \<times> u32 list \<Rightarrow> sha1_vars \<times> u32 list" where
  "R0 i s = (case s of ((v, w, x, y, z), l) \<Rightarrow>
     let (b, l') = blk0 l i
     in ((v, rol w 30, x, y, z + (((w AND (x XOR y)) XOR y) + b + 0x5A827999 + rol v 5)), l'))"

definition R1 :: "nat \<Rightarrow> sha1_vars \<times> u32 list \<Rightarrow> sha1_vars \<times> u32 list" where
  "R1 i s = (case s of ((v, w, x, y, z), l) \<Rightarrow>
     let (b, l') = blk l i
     in ((v, rol w 30, x, y, z + (((w AND (x XOR y)) XOR y) + b + 0x5A827999 + rol v 5)), l'))"

definition R2 :: "nat \<Rightarrow> sha1_vars \<times> u32 list \<Rightarrow> sha1_vars \<times> u32 list" where
  "R2 i s = (case s of ((v, w, x, y, z), l) \<Rightarrow>
     let (b, l') = blk l i
     in ((v, rol w 30, x, y, z + ((w XOR x XOR y) + b + 0x6ED9EBA1 + rol v 5)), l'))"

definition R3 :: "nat \<Rightarrow> sha1_vars \<times> u32 list \<Rightarrow> sha1_vars \<times> u32 list" where
  "R3 i s = (case s of ((v, w, x, y, z), l) \<Rightarrow>
     let (b, l') = blk l i
     in ((v, rol w 30, x, y,
          z + ((((w OR x) AND y) OR (w AND x)) + b + 0x8F1BBCDC + rol v 5)), l'))"

definition R4 :: "nat \<Rightarrow> sha1_vars \<times> u32 list \<Rightarrow> sha1_vars \<times> u32 list" where
  "R4 i s = (case s of ((v, w, x, y, z), l) \<Rightarrow>
     let (b, l') = blk l i
     in ((v, rol w 30, x, y, z + ((w XOR x XOR y) + b + 0xCA62C1D6 + rol v 5)), l'))"

text \<open>
  The 80 unrolled calls. Each call names its variables rotated by one against the call before,
  \<open>R(v,w,x,y,z,i); R(z,v,w,x,y,i+1);\<close>, so the tuple is rotated after each call; after 80 calls
  it is in the order \<open>a, b, c, d, e\<close> again.
\<close>

definition sha1_macro :: "nat \<Rightarrow> sha1_vars \<times> u32 list \<Rightarrow> sha1_vars \<times> u32 list" where
  "sha1_macro i = (if i < 16 then R0 i else if i < 20 then R1 i else if i < 40 then R2 i
                   else if i < 60 then R3 i else R4 i)"

definition rotate_args :: "sha1_vars \<times> u32 list \<Rightarrow> sha1_vars \<times> u32 list" where
  "rotate_args s = (case s of ((v, w, x, y, z), l) \<Rightarrow> ((z, v, w, x, y), l))"

definition sha1_calls :: "nat \<Rightarrow> sha1_vars \<times> u32 list \<Rightarrow> sha1_vars \<times> u32 list" where
  "sha1_calls n s = fold (\<lambda>i s. rotate_args (sha1_macro i s)) [0..<n] s"

definition SHA1_Transform :: "u32 list \<Rightarrow> u8 list \<Rightarrow> u32 list \<times> u8 list" where
  "SHA1_Transform state buffer =
     (let ((a, b, c, d, e), l) =
            sha1_calls 80 ((state ! 0, state ! 1, state ! 2, state ! 3, state ! 4),
                           words_with le32 buffer)
      in ([state ! 0 + a, state ! 1 + b, state ! 2 + c, state ! 3 + d, state ! 4 + e],
          concat (map le_bytes l)))"

section \<open>Init, Update, Final\<close>

definition SHA1_Init :: "sha1_ctx \<Rightarrow> sha1_ctx" where
  "SHA1_Init context = context\<lparr>
     ctx_state := [0x67452301, 0xEFCDAB89, 0x98BADCFE, 0x10325476, 0xC3D2E1F0],
     ctx_count := [0, 0]\<rparr>"

text \<open>
  The bit counter. \<open>len << 3\<close> has the 64 bits of \<open>size_t\<close>, \<open>count[0]\<close> has 32: the sum is
  truncated when it is stored, and the carry test compares the stored word, widened, with the
  64-bit product.
\<close>

definition SHA1_count :: "u32 list \<Rightarrow> u64 \<Rightarrow> u32 list" where
  "SHA1_count count len =
     (let bits = push_bit 3 len;
          c0 = ucast (ucast (count ! 0) + bits :: u64);
          c1 = (if (ucast (c0 :: u32) :: u64) < bits then count ! 1 + 1 else count ! 1)
      in [c0, ucast (ucast c1 + drop_bit 29 len :: u64)])"

lemma length_blk [simp]: "length (snd (blk0 l i)) = length l" "length (snd (blk l i)) = length l"
  by (simp_all add: blk0_def blk_def Let_def)

lemma length_sha1_macro [simp]: "length (snd (sha1_macro i s)) = length (snd s)"
  by (auto simp: sha1_macro_def R0_def R1_def R2_def R3_def R4_def blk0_def blk_def Let_def
      split: prod.splits)

lemma length_rotate_args [simp]: "length (snd (rotate_args s)) = length (snd s)"
  by (simp add: rotate_args_def split: prod.splits)

lemma sha1_calls_0 [simp]: "sha1_calls 0 s = s"
  by (simp add: sha1_calls_def)

lemma sha1_calls_Suc: "sha1_calls (Suc n) s = rotate_args (sha1_macro n (sha1_calls n s))"
  by (simp add: sha1_calls_def)

lemma length_sha1_calls [simp]: "length (snd (sha1_calls n s)) = length (snd s)"
  by (induction n) (simp_all add: sha1_calls_Suc)

lemma length_transform:
  "length (snd (SHA1_Transform state buffer)) = 4 * (length buffer div 4)"
  "length (fst (SHA1_Transform state buffer)) = 5"
proof -
  let ?s = "((state ! 0, state ! 1, state ! 2, state ! 3, state ! 4), words_with le32 buffer)"
  have words: "length (concat (map le_bytes ws)) = 4 * length ws" for ws
    by (induction ws) simp_all
  obtain a b c d e l where s: "sha1_calls 80 ?s = ((a, b, c, d, e), l)"
    by (metis prod.exhaust)
  from length_sha1_calls [of 80 ?s] have "length l = length buffer div 4" unfolding s by simp
  with s words show "length (snd (SHA1_Transform state buffer)) = 4 * (length buffer div 4)"
    unfolding SHA1_Transform_def Let_def by simp
  show "length (fst (SHA1_Transform state buffer)) = 5"
    by (simp add: SHA1_Transform_def split: prod.splits)
qed

text \<open>\<open>for ( ; i + 63 < len; i += 64) SHA1_Transform(context->state, data + i);\<close>
  \<open>data\<close> is a C object, so it has fewer than \<open>2 ^ 63\<close> bytes and no index wraps.\<close>

function SHA1_blocks :: "u32 list \<Rightarrow> u8 list \<Rightarrow> nat \<Rightarrow> u32 list \<times> u8 list \<times> nat" where
  "SHA1_blocks state data i =
     (if i + 63 < length data then
        (let (state', block) = SHA1_Transform state (take 64 (drop i data))
         in SHA1_blocks state' (take i data @ block @ drop (i + 64) data) (i + 64))
      else (state, data, i))"
  by pat_completeness auto
termination
  by (relation "measure (\<lambda>(state, data, i). length data - i)")
    (auto dest!: arg_cong [where f = "\<lambda>p. length (snd p)"] simp: length_transform)

declare SHA1_blocks.simps [simp del]

definition SHA1_Update :: "sha1_ctx \<Rightarrow> u8 list \<Rightarrow> sha1_ctx \<times> u8 list" where
  "SHA1_Update context data =
     (let len = length data;
          j = unat (drop_bit 3 (ctx_count context ! 0) AND 63);
          context1 = context\<lparr>ctx_count := SHA1_count (ctx_count context) (of_nat len)\<rparr>
      in if j + len > 63 then
           (let buffer1 = memcpy_at (ctx_buffer context1) j (take (64 - j) data);
                (state1, buffer2) = SHA1_Transform (ctx_state context1) buffer1;
                (state2, data2, i) = SHA1_blocks state1 data (64 - j)
            in (context1\<lparr>ctx_state := state2,
                          ctx_buffer := memcpy_at buffer2 0 (drop i data2)\<rparr>, data2))
         else (context1\<lparr>ctx_buffer := memcpy_at (ctx_buffer context1) j data\<rparr>, data))"

text \<open>The loop over whole blocks neither moves nor resizes the caller's array.\<close>

lemma ctx_count_Update [simp]:
  "ctx_count (fst (SHA1_Update context data)) = SHA1_count (ctx_count context) (of_nat (length data))"
  by (simp add: SHA1_Update_def Let_def split: prod.splits)

text \<open>
  The padding loop of \<open>SHA1_Final\<close>: \<open>while ((count[0] & 504) != 448) SHA1_Update(context, "\0", 1);\<close>
  Each turn adds 8 to \<open>count[0]\<close>; \<open>pad_left\<close> is the number of turns left.
\<close>

definition pad_left :: "u32 \<Rightarrow> nat" where
  "pad_left c = (let b = unat c div 8 mod 64 in if b \<le> 56 then 56 - b else 120 - b)"

lemma count_byte: "SHA1_count count 1 ! 0 = count ! 0 + 8"
  by (simp add: SHA1_count_def Let_def ucast_u64_add)

lemma unat_and_504: "unat (c AND 504) = 8 * (unat c div 8 mod 64)" for c :: u32
proof -
  have "(504 :: nat) = push_bit 3 (mask 6)" by (simp add: mask_eq_exp_minus_1 push_bit_eq_mult)
  then have "unat c AND 504 = 8 * (unat c div 8 mod 64)"
    by (simp only: and_field) (simp add: push_bit_eq_mult take_bit_eq_mod drop_bit_eq_div)
  then show ?thesis by (simp add: unsigned_and_eq)
qed

lemma mask_504: "c AND 504 = (448 :: u32) \<longleftrightarrow> unat c div 8 mod 64 = 56"
  by (simp add: word_unat_eq_iff unat_and_504)

lemma unat_plus_8: "unat (c + 8 :: u32) div 8 mod 64 = (unat c div 8 mod 64 + 1) mod 64"
proof -
  have fields: "n mod 512 div 8 = n div 8 mod 64" for n :: nat
    using mod_mult2_eq [of n 8 64] by simp
  have "unat (c + 8) mod 512 = (unat c + 8) mod 512"
    unfolding unat_word_ariths by (simp add: mod_mod_cancel)
  then have "unat (c + 8) mod 512 div 8 = (unat c + 8) mod 512 div 8" by (rule arg_cong)
  moreover have "(unat c + 8) div 8 = unat c div 8 + 1" by simp
  ultimately show ?thesis unfolding fields by (simp add: mod_simps)
qed

lemma pad_left_step:
  assumes "c AND 504 \<noteq> 448"
  shows "Suc (pad_left (c + 8)) = pad_left c"
proof -
  define b where "b = unat c div 8 mod 64"
  with assms have "b \<noteq> 56" "b < 64" by (simp_all add: mask_504)
  then have "Suc (if (b + 1) mod 64 \<le> 56 then 56 - (b + 1) mod 64 else 120 - (b + 1) mod 64)
      = (if b \<le> 56 then 56 - b else 120 - b)"
    by (cases "b = 63") auto
  then show ?thesis unfolding pad_left_def Let_def unat_plus_8 b_def .
qed

function SHA1_pad :: "sha1_ctx \<Rightarrow> sha1_ctx" where
  "SHA1_pad context =
     (if ctx_count context ! 0 AND 504 \<noteq> 448 then SHA1_pad (fst (SHA1_Update context [0]))
      else context)"
  by pat_completeness auto
termination
  by (relation "measure (\<lambda>context. pad_left (ctx_count context ! 0))")
    (auto simp: count_byte less_eq_Suc_le pad_left_step)

declare SHA1_pad.simps [simp del]

text \<open>
  \<open>SHA1_Final\<close> returns the wiped context and the digest. \<open>finalcount\<close> is the bit count,
  most significant byte first, read before the padding is added to it.
\<close>

definition finalcount :: "u32 list \<Rightarrow> u8 list" where
  "finalcount count = map (\<lambda>i. byte_at ((3 - i mod 4) * 8) (count ! (if 4 \<le> i then 0 else 1))) [0..<8]"

definition digest_bytes :: "u32 list \<Rightarrow> u8 list" where
  "digest_bytes state = map (\<lambda>i. byte_at ((3 - i mod 4) * 8) (state ! (i div 4))) [0..<20]"

definition SHA1_Final :: "sha1_ctx \<Rightarrow> sha1_ctx \<times> u8 list" where
  "SHA1_Final context =
     (let count8 = finalcount (ctx_count context);
          context1 = SHA1_pad (fst (SHA1_Update context [0x80]));
          context2 = fst (SHA1_Update context1 count8)
      in (\<lparr>ctx_state = replicate 5 0, ctx_count = replicate 2 0, ctx_buffer = replicate 64 0\<rparr>,
          digest_bytes (ctx_state context2)))"

section \<open>The Lua binding\<close>

text \<open>\<open>sprintf(c, "%02x", digest[i])\<close> for each byte; the terminating NUL is not part of the list.\<close>

definition hex_digit :: "nat \<Rightarrow> char" where
  "hex_digit n = ''0123456789abcdef'' ! n"

definition hex2 :: "u8 \<Rightarrow> string" where
  "hex2 b = [hex_digit (unat b div 16), hex_digit (unat b mod 16)]"

definition digest_to_string :: "u8 list \<Rightarrow> string" where
  "digest_to_string digest = concat (map hex2 digest)"

text \<open>
  \<open>sha1.digest(str)\<close>: the string it returns, and the bytes of \<open>str\<close> after the call.
  \<open>ctx\<close> is the uninitialised context on the C stack.
\<close>

definition sha1_digest :: "sha1_ctx \<Rightarrow> u8 list \<Rightarrow> string \<times> u8 list" where
  "sha1_digest ctx input =
     (let (ctx1, input1) = SHA1_Update (SHA1_Init ctx) input;
          (ctx2, digest) = SHA1_Final ctx1
      in (digest_to_string digest, input1))"

end
