(* ===== verification/Sha1Spec.thy ===== *)
theory Sha1Spec
  imports Sha1
begin

text \<open>
  The standard's SHA-1 (FIPS 180), stated without the tricks of the C code: a message schedule
  of 80 words, big-endian words, a rotated five-word chain, and padding of the whole message.
  The lemmas show that one call of \<open>SHA1_Transform\<close> computes the standard's compression function
  and say exactly what it leaves in the caller's block.
\<close>

section \<open>The standard\<close>

function schedule :: "u32 list \<Rightarrow> nat \<Rightarrow> u32" where
  "schedule m t =
     (if t < 16 then m ! t
      else word_rotl 1 (schedule m (t - 3) XOR schedule m (t - 8)
                        XOR schedule m (t - 14) XOR schedule m (t - 16)))"
  by pat_completeness auto
termination
  by (relation "measure snd") auto

declare schedule.simps [simp del]

definition fips_f :: "nat \<Rightarrow> u32 \<Rightarrow> u32 \<Rightarrow> u32 \<Rightarrow> u32" where
  "fips_f t b c d =
     (if t < 20 then (b AND c) OR (NOT b AND d)
      else if t < 40 then b XOR c XOR d
      else if t < 60 then (b AND c) OR (b AND d) OR (c AND d)
      else b XOR c XOR d)"

definition fips_K :: "nat \<Rightarrow> u32" where
  "fips_K t = (if t < 20 then 0x5A827999 else if t < 40 then 0x6ED9EBA1
               else if t < 60 then 0x8F1BBCDC else 0xCA62C1D6)"

definition fips_step :: "u32 list \<Rightarrow> nat \<Rightarrow> sha1_vars \<Rightarrow> sha1_vars" where
  "fips_step m t s = (case s of (a, b, c, d, e) \<Rightarrow>
     (word_rotl 5 a + fips_f t b c d + e + fips_K t + schedule m t, a, word_rotl 30 b, c, d))"

definition fips_steps :: "u32 list \<Rightarrow> nat \<Rightarrow> sha1_vars \<Rightarrow> sha1_vars" where
  "fips_steps m n s = fold (fips_step m) [0..<n] s"

definition fips_compress :: "u8 list \<Rightarrow> u32 list \<Rightarrow> u32 list" where
  "fips_compress block h =
     (let (a, b, c, d, e) =
            fips_steps (words_with be32 block) 80 (h ! 0, h ! 1, h ! 2, h ! 3, h ! 4)
      in [h ! 0 + a, h ! 1 + b, h ! 2 + c, h ! 3 + d, h ! 4 + e])"

definition fips_H0 :: "u32 list" where
  "fips_H0 = [0x67452301, 0xEFCDAB89, 0x98BADCFE, 0x10325476, 0xC3D2E1F0]"

definition bit_length :: "u8 list \<Rightarrow> u8 list" where
  "bit_length m = (let n = 8 * length m in be_bytes (of_nat (n div 2 ^ 32)) @ be_bytes (of_nat n))"

definition fips_pad :: "u8 list \<Rightarrow> u8 list" where
  "fips_pad m = m @ [0x80] @ replicate (nat ((55 - int (length m)) mod 64)) 0 @ bit_length m"

definition fips_sha1 :: "u8 list \<Rightarrow> u8 list" where
  "fips_sha1 m = concat (map be_bytes (fold fips_compress (full_blocks 64 (fips_pad m)) fips_H0))"

section \<open>The round macros against the standard\<close>

lemma rol_eq_rotl:
  assumes "n < 32"
  shows "rol v n = word_rotl n v"
proof (rule bit_word_eqI)
  fix i assume "i < LENGTH(32)"
  with assms have i: "i < 32" and wrap: "(i + (32 - n mod 32)) mod 32 = (if i < n then i + (32 - n) else i - n)"
    by (simp_all add: mod_if)
  then show "bit (rol v n) i = bit (word_rotl n v) i"
    using bit_imp_le_length [of v "i + (32 - n)"] assms
    by (auto simp: rol_def bit_simps bit_word_rotl_iff add.commute [of "32 - n"])
qed

lemma choose_eq: "((w AND (x XOR y)) XOR y) = (w AND x) OR (NOT w AND y)" for w x y :: u32
  by (rule bit_word_eqI) (auto simp: bit_simps)

lemma majority_eq: "(((w OR x) AND y) OR (w AND x)) = (w AND x) OR (w AND y) OR (x AND y)"
  for w x y :: u32
  by (rule bit_word_eqI) (auto simp: bit_simps)

lemma swap_masks: "(0xFF00FF00 :: u32) = be32 255 0 255 0" "(0x00FF00FF :: u32) = be32 0 255 0 255"
  by (simp_all add: be32_def)

lemma bit_255 [simp]: "bit (255 :: int) n \<longleftrightarrow> n < 8"
proof -
  have "(255 :: int) = mask 8" by (simp add: mask_eq_exp_minus_1)
  then show ?thesis by (simp only: bit_mask_iff) simp
qed

lemma blk0_swap: "fst (blk0 l i) = (rol (l ! i) 24 AND 0xFF00FF00) OR (rol (l ! i) 8 AND 0x00FF00FF)"
  by (simp add: blk0_def Let_def)

lemma byte_swap:
  "(rol (le32 a b c d) 24 AND 0xFF00FF00) OR (rol (le32 a b c d) 8 AND 0x00FF00FF) = be32 a b c d"
  unfolding swap_masks le32_def
  by (rule bit_word_eqI) (auto simp: rol_def bit_simps bit_be32)

section \<open>One block\<close>

text \<open>
  What the sixteen words hold after \<open>n\<close> calls: slot \<open>t mod 16\<close> is schedule word \<open>t\<close> for the
  last sixteen \<open>t\<close>, and the slots not reached yet still hold the block as loaded.
\<close>

definition slots_ok :: "u8 list \<Rightarrow> nat \<Rightarrow> u32 list \<Rightarrow> bool" where
  "slots_ok block n l \<longleftrightarrow> length l = 16 \<and>
     (\<forall>t < n. n \<le> t + 16 \<longrightarrow> l ! (t mod 16) = schedule (words_with be32 block) t) \<and>
     (\<forall>t < 16. n \<le> t \<longrightarrow> l ! t = words_with le32 block ! t)"

lemma slots_ok_0: "length block = 64 \<Longrightarrow> slots_ok block 0 (words_with le32 block)"
  by (simp add: slots_ok_def)

lemma words_with_nth:
  "4 * t + 3 < length bs \<Longrightarrow>
     words_with f bs ! t = f (bs ! (4 * t)) (bs ! (4 * t + 1)) (bs ! (4 * t + 2)) (bs ! (4 * t + 3))"
proof (induction f bs arbitrary: t rule: words_with.induct)
  case (1 f b0 b1 b2 b3 bs)
  then show ?case by (cases t) (simp_all add: numeral_3_eq_3)
qed auto

lemma slot_distinct:
  assumes "t < n" and "n < t + 16"
  shows "t mod 16 \<noteq> n mod (16 :: nat)"
proof
  assume "t mod 16 = n mod 16"
  then have "16 dvd n - t" using mod_eq_dvd_iff_nat [of t n 16] assms by simp
  moreover have "0 < n - t" "n - t < 16" using assms by auto
  ultimately show False using nat_dvd_not_less by blast
qed

lemma slots_ok_store:
  assumes ok: "slots_ok block n l" and x: "x = schedule (words_with be32 block) n"
  shows "slots_ok block (Suc n) (l[n mod 16 := x])"
proof -
  have len: "length l = 16" using ok by (simp add: slots_ok_def)
  have "l[n mod 16 := x] ! (t mod 16) = schedule (words_with be32 block) t"
    if "t < Suc n" "Suc n \<le> t + 16" for t
    using that ok x len slot_distinct [of t n]
    by (cases "t = n") (auto simp: slots_ok_def)
  moreover have "l[n mod 16 := x] ! t = words_with le32 block ! t" if "t < 16" "Suc n \<le> t" for t
    using that ok by (simp add: slots_ok_def)
  ultimately show ?thesis using len by (simp add: slots_ok_def)
qed

lemma blk0_schedule:
  assumes "slots_ok block n l" "n < 16" "length block = 64"
  shows "blk0 l n = (schedule (words_with be32 block) n, l[n := schedule (words_with be32 block) n])"
proof -
  have n: "4 * n + 3 < length block" using assms by simp
  have "l ! n = words_with le32 block ! n" using assms by (simp add: slots_ok_def)
  then have "fst (blk0 l n) = words_with be32 block ! n"
    using n by (simp add: blk0_swap words_with_nth byte_swap)
  then show ?thesis
    using assms(2) by (simp add: blk0_def Let_def schedule.simps [of _ n])
qed

lemma slot_wrap: "k \<le> 16 \<Longrightarrow> 16 \<le> n \<Longrightarrow> (n + (16 - k)) mod 16 = (n - k) mod (16 :: nat)"
  by (metis diff_add_assoc diff_add_assoc2 le_trans mod_add_self2)

lemmas slot_of_older = slot_wrap [of 3, simplified] slot_wrap [of 8, simplified]
  slot_wrap [of 14, simplified] 

lemma blk_schedule:
  assumes ok: "slots_ok block n l" and n: "16 \<le> n"
  shows "blk l n = (schedule (words_with be32 block) n,
                    l[n mod 16 := schedule (words_with be32 block) n])"
proof -
  have older: "l ! ((n - k) mod 16) = schedule (words_with be32 block) (n - k)"
    if "0 < k" "k \<le> 16" for k
    using ok n that by (simp add: slots_ok_def)
  have "rol (l ! ((n + 13) mod 16) XOR l ! ((n + 8) mod 16) XOR l ! ((n + 2) mod 16) XOR l ! (n mod 16)) 1
      = schedule (words_with be32 block) n"
    using n older [of 16] by (simp add: slot_of_older older rol_eq_rotl schedule.simps [of _ n] le_mod_geq)
  then show ?thesis by (simp only: blk_def Let_def)
qed

lemma sha1_macro_step:
  assumes ok: "slots_ok block n l" and n: "n < 80" and len: "length block = 64"
  shows "rotate_args (sha1_macro n (vs, l)) =
     (fips_step (words_with be32 block) n vs, l[n mod 16 := schedule (words_with be32 block) n])"
proof (cases vs)
  case (fields v w x y z)
  note first = blk0_schedule [OF ok _ len] and later = blk_schedule [OF ok]
  consider "n < 16" | "16 \<le> n" "n < 20" | "20 \<le> n" "n < 40" | "40 \<le> n" "n < 60" | "60 \<le> n"
    by linarith
  then show ?thesis
    by cases (simp_all add: fields first later sha1_macro_def R0_def R1_def R2_def R3_def R4_def
        rotate_args_def fips_step_def fips_f_def fips_K_def rol_eq_rotl choose_eq majority_eq
        add_ac)
qed

lemma sha1_calls_fips:
  assumes "length block = 64" and "n \<le> 80"
  shows "\<exists>l. sha1_calls n (vs, words_with le32 block)
              = (fips_steps (words_with be32 block) n vs, l) \<and> slots_ok block n l"
  using assms(2)
proof (induction n)
  case 0
  show ?case using assms(1) by (simp add: slots_ok_0 fips_steps_def)
next
  case (Suc n)
  then obtain l where l: "sha1_calls n (vs, words_with le32 block)
      = (fips_steps (words_with be32 block) n vs, l)" "slots_ok block n l" by auto
  have "fips_steps (words_with be32 block) (Suc n) vs
      = fips_step (words_with be32 block) n (fips_steps (words_with be32 block) n vs)"
    by (simp add: fips_steps_def)
  then show ?case
    using sha1_macro_step [OF l(2) _ assms(1)] slots_ok_store [OF l(2) refl] Suc.prems l(1)
    by (simp add: sha1_calls_Suc)
qed

text \<open>What \<open>SHA1_Transform\<close> leaves in the block: schedule words 64 to 79, little-endian.\<close>

definition clobbered :: "u8 list \<Rightarrow> u8 list" where
  "clobbered block = concat (map (\<lambda>k. le_bytes (schedule (words_with be32 block) (64 + k))) [0..<16])"

lemma transform_fips:
  assumes "length block = 64"
  shows "SHA1_Transform h block = (fips_compress block h, clobbered block)"
proof -
  obtain l where l: "sha1_calls 80 ((h ! 0, h ! 1, h ! 2, h ! 3, h ! 4), words_with le32 block)
      = (fips_steps (words_with be32 block) 80 (h ! 0, h ! 1, h ! 2, h ! 3, h ! 4), l)"
    and ok: "slots_ok block 80 l"
    using sha1_calls_fips [OF assms order_refl] by blast
  have "l ! k = schedule (words_with be32 block) (64 + k)" if "k < 16" for k
  proof -
    have "(64 + k) mod 16 = k" using that by presburger
    moreover have "l ! ((64 + k) mod 16) = schedule (words_with be32 block) (64 + k)"
      using ok that by (simp add: slots_ok_def del: mod_add_self1)
    ultimately show ?thesis by simp
  qed
  moreover have "length l = 16" using ok by (simp add: slots_ok_def)
  ultimately have "l = map (\<lambda>k. schedule (words_with be32 block) (64 + k)) [0..<16]"
    by (intro nth_equalityI) auto
  then have "concat (map le_bytes l) = clobbered block"
    by (simp add: clobbered_def comp_def)
  with l show ?thesis
    unfolding SHA1_Transform_def fips_compress_def Let_def by (simp split: prod.splits)
qed

end
