(* ===== verification/Sha1Correct.thy ===== *)
theory Sha1Correct
  imports Sha1Spec
begin

text \<open>
  A context and the message it has absorbed; that \<open>SHA1_Update\<close> absorbs any piece shorter than
  \<open>2 ^ 29\<close> bytes, whatever pieces came before; that \<open>SHA1_Final\<close> ends with the standard's digest
  of everything absorbed; and what happens to the bit counter and to the caller's bytes beyond that.
\<close>

section \<open>The bit counter\<close>

definition count_of :: "nat \<Rightarrow> u32 list" where
  "count_of n = [of_nat (8 * n), of_nat (8 * n div 2 ^ 32)]"

lemma carry_iff:
  fixes a b c :: nat
  assumes "b < c"
  shows "(a + b) mod c < b \<longleftrightarrow> c \<le> a mod c + b"
proof -
  define r where "r = a mod c"
  have "r < c" using assms by (simp add: r_def)
  moreover have "(a + b) mod c = (r + b) mod c" by (simp add: r_def mod_simps)
  ultimately show ?thesis using assms unfolding r_def [symmetric] by (auto simp: mod_if)
qed

lemma div_carry:
  fixes a b c :: nat
  assumes "b < c"
  shows "(a + b) div c = a div c + (if c \<le> a mod c + b then 1 else 0)"
proof -
  define r where "r = a mod c"
  have "r < c" using assms by (simp add: r_def)
  then have "(r + b) div c = (if c \<le> r + b then 1 else 0)"
    using assms by (auto simp: div_if)
  then show ?thesis using assms by (simp add: div_add1_eq [of a b] r_def)
qed

lemma count_absorbs:
  assumes "k < 2 ^ 29"
  shows "SHA1_count (count_of n) (of_nat k) = count_of (n + k)"
proof -
  have bits: "push_bit 3 (of_nat k :: u64) = of_nat (8 * k)"
    by (simp add: push_bit_eq_mult)
  have small: "8 * k < 2 ^ 32" "k < 2 ^ 64" using assms by simp_all
  have high: "drop_bit 29 (of_nat k :: u64) = 0"
    using assms by (simp add: word_unat_eq_iff drop_bit_eq_div unat_div unat_of_nat)
  define c0 where "c0 = (of_nat (8 * (n + k)) :: u32)"
  have sum: "(ucast (ucast (of_nat (8 * n) :: u32) + of_nat (8 * k) :: u64) :: u32) = c0"
    unfolding ucast_u64_add ucast_u64_ucast ucast_u64_of_nat c0_def
    by (simp only: of_nat_add [symmetric] add_mult_distrib2)
  have "unat (of_nat (8 * k) :: u64) = 8 * k"
    using small by (simp add: unat_of_nat del: of_nat_mult)
  moreover have "unat (ucast c0 :: u64) = (8 * n + 8 * k) mod 2 ^ 32"
    by (simp add: c0_def unat_of_nat add_mult_distrib2 del: of_nat_mult of_nat_add)
  ultimately have carry: "(ucast c0 :: u64) < of_nat (8 * k) \<longleftrightarrow> 2 ^ 32 \<le> 8 * n mod 2 ^ 32 + 8 * k"
    by (simp only: word_less_nat_alt carry_iff [OF small(1)])
  have high_word: "(of_nat (8 * (n + k) div 2 ^ 32) :: u32)
      = (if 2 ^ 32 \<le> 8 * n mod 2 ^ 32 + 8 * k then of_nat (8 * n div 2 ^ 32) + 1
         else of_nat (8 * n div 2 ^ 32))"
    unfolding add_mult_distrib2 div_carry [OF small(1)] by simp
  show ?thesis
    unfolding SHA1_count_def count_of_def Let_def bits high high_word nth_Cons_0 nth_Cons_Suc
      One_nat_def sum carry
    by (simp only: c0_def add_0_right ucast_u64_ucast)
qed

section \<open>Absorbing a message\<close>

definition absorbed :: "u8 list \<Rightarrow> sha1_ctx \<Rightarrow> bool" where
  "absorbed m c \<longleftrightarrow>
     ctx_state c = fold fips_compress (full_blocks 64 m) fips_H0 \<and>
     ctx_count c = count_of (length m) \<and>
     length (ctx_buffer c) = 64 \<and>
     take (length m mod 64) (ctx_buffer c) = left_over 64 m"

lemma absorbed_init: "length (ctx_buffer c) = 64 \<Longrightarrow> absorbed [] (SHA1_Init c)"
  by (simp add: absorbed_def SHA1_Init_def count_of_def fips_H0_def full_blocks_short left_over_def)

lemma length_clobbered [simp]: "length block = 64 \<Longrightarrow> length (clobbered block) = 64"
  using length_transform(1) [of h block] transform_fips [of block h] by simp

text \<open>The loop over whole blocks compresses them in order and stops at the bytes left over.\<close>

lemma blocks_fips:
  "SHA1_blocks h data i = (h', data', i') \<Longrightarrow> i \<le> length data \<Longrightarrow>
     h' = fold fips_compress (full_blocks 64 (drop i data)) h \<and>
     drop i' data' = left_over 64 (drop i data) \<and>
     take i data @ concat (map clobbered (full_blocks 64 (drop i data)))
       @ left_over 64 (drop i data) = data'"
proof (induction h data i rule: SHA1_blocks.induct)
  case (1 h data i)
  show ?case
  proof (cases "i + 63 < length data")
    case False
    then have "length (drop i data) < 64" by simp
    then show ?thesis using "1.prems" False
      by (auto simp: SHA1_blocks.simps [of h] full_blocks_short left_over_short)
  next
    case True
    define b rest where "b = take 64 (drop i data)" and "rest = drop (i + 64) data"
    have b: "length b = 64" and split: "drop i data = b @ rest"
      using True append_take_drop_id [of 64 "drop i data"] by (simp_all add: b_def rest_def add.commute)
    define data1 where "data1 = take i data @ clobbered b @ rest"
    have pieces: "drop (i + 64) data1 = rest" "take (i + 64) data1 = take i data @ clobbered b"
      "i + 64 \<le> length data1"
      using True b by (simp_all add: data1_def)
    have run: "SHA1_blocks (fips_compress b h) data1 (i + 64) = (h', data', i')"
      using "1.prems"(1) True transform_fips [OF b, of h]
      by (simp add: SHA1_blocks.simps [of h] b_def data1_def rest_def)
    have "h' = fold fips_compress (full_blocks 64 rest) (fips_compress b h) \<and>
        drop i' data' = left_over 64 rest \<and>
        take (i + 64) data1 @ concat (map clobbered (full_blocks 64 rest)) @ left_over 64 rest = data'"
      using "1.IH" [OF True _ refl, of "fips_compress b h" "clobbered b"]
        transform_fips [OF b, of h] run pieces True b by (simp add: b_def data1_def rest_def)
    then show ?thesis
      using full_blocks_step [of 64 b rest] left_over_append [of 64 b rest] b split pieces by simp
  qed
qed

lemma count_index [simp]: "unat (drop_bit 3 (count_of n ! 0) AND 63) = n mod 64"
proof -
  have "(63 :: u32) = mask 6" by (simp add: mask_eq_exp_minus_1)
  then have "unat (drop_bit 3 (count_of n ! 0) AND 63) = unat (count_of n ! 0) div 8 mod 64"
    by (simp only: unat_and_mask) (simp add: drop_bit_eq_div unat_div)
  also have "\<dots> = 8 * n mod 2 ^ 32 div 8 mod 64"
    by (simp add: count_of_def unat_of_nat del: of_nat_mult)
  also have "8 * n mod 2 ^ 32 div 8 = n mod 2 ^ 29"
    using mod_mult_mult1 [of 8 n "2 ^ 29"] by simp
  also have "n mod 2 ^ 29 mod 64 = n mod 64"
    by (rule mod_mod_cancel) simp
  finally show ?thesis .
qed

lemma update_short:
  assumes "absorbed m c" and "length m mod 64 + length data \<le> 63" and "length data < 2 ^ 29"
  shows "absorbed (m @ data) (fst (SHA1_Update c data))"
proof -
  let ?j = "length m mod 64"
  have c: "ctx_state c = fold fips_compress (full_blocks 64 m) fips_H0"
    "ctx_count c = count_of (length m)" "length (ctx_buffer c) = 64"
    "take ?j (ctx_buffer c) = left_over 64 m"
    using assms(1) by (simp_all add: absorbed_def)
  have short: "length (left_over 64 m @ data) < 64" using assms(2) by simp
  have upd: "fst (SHA1_Update c data)
      = c\<lparr>ctx_count := count_of (length m + length data),
          ctx_buffer := memcpy_at (ctx_buffer c) ?j data\<rparr>"
    unfolding SHA1_Update_def Let_def c(2) count_index count_absorbs [OF assms(3)]
    using assms(2) by simp
  have "(length m + length data) mod 64 = (?j + length data) mod 64" by (simp only: mod_add_left_eq)
  also have "\<dots> = ?j + length data" using assms(2) by simp
  finally have "(length m + length data) mod 64 = ?j + length data" .
  then show ?thesis
    using c short assms(2)
    by (simp add: absorbed_def upd full_blocks_split [of 64 m] left_over_split [of 64 m]
        full_blocks_short left_over_short take_memcpy_at)
qed

lemma update_long:
  assumes "absorbed m c" and "63 < length m mod 64 + length data" and "length data < 2 ^ 29"
  shows "absorbed (m @ data) (fst (SHA1_Update c data))"
proof -
  let ?j = "length m mod 64" and ?first = "take (64 - length m mod 64) data"
    and ?rest = "drop (64 - length m mod 64) data"
  have c: "ctx_state c = fold fips_compress (full_blocks 64 m) fips_H0"
    "ctx_count c = count_of (length m)" "length (ctx_buffer c) = 64"
    "take ?j (ctx_buffer c) = left_over 64 m"
    using assms(1) by (simp_all add: absorbed_def)
  have j: "?j < 64" by simp
  have buf: "memcpy_at (ctx_buffer c) ?j ?first = left_over 64 m @ ?first"
    using memcpy_at_all [of ?j ?first "ctx_buffer c"] c(3,4) assms(2) j by simp
  have block: "length (left_over 64 m @ ?first) = 64" using assms(2) j by simp
  obtain h d i where loop:
    "SHA1_blocks (fips_compress (left_over 64 m @ ?first) (ctx_state c)) data (64 - ?j) = (h, d, i)"
    by (metis prod_cases3)
  have h: "h = fold fips_compress (full_blocks 64 ?rest) (fips_compress (left_over 64 m @ ?first) (ctx_state c))"
    and d: "drop i d = left_over 64 ?rest"
    using blocks_fips [OF loop] assms(2) j by auto
  have upd: "fst (SHA1_Update c data)
      = c\<lparr>ctx_state := h, ctx_count := count_of (length m + length data),
          ctx_buffer := memcpy_at (clobbered (left_over 64 m @ ?first)) 0 (left_over 64 ?rest)\<rparr>"
    unfolding SHA1_Update_def Let_def c(2) count_index count_absorbs [OF assms(3)]
    using assms(2) loop by (simp add: buf transform_fips [OF block] d)
  have "full_blocks 64 (left_over 64 m @ data) = (left_over 64 m @ ?first) # full_blocks 64 ?rest"
    using full_blocks_step [OF _ block, of ?rest] by simp
  then have "full_blocks 64 (m @ data) = full_blocks 64 m @ (left_over 64 m @ ?first) # full_blocks 64 ?rest"
    by (simp add: full_blocks_split [of 64 m])
  moreover have "left_over 64 (left_over 64 m @ data) = left_over 64 ?rest"
    using left_over_append [of 64 "left_over 64 m @ ?first" ?rest] block by simp
  then have left: "left_over 64 (m @ data) = left_over 64 ?rest"
    by (simp add: left_over_split [of 64 m])
  moreover have "(length m + length data) mod 64 = length (left_over 64 ?rest)"
    using arg_cong [OF left, of length] by simp
  ultimately show ?thesis
    using c(1) h length_clobbered [OF block]
    unfolding absorbed_def upd by (simp add: memcpy_at_def less_imp_le)
qed

lemma update_absorbs:
  "absorbed m c \<Longrightarrow> length data < 2 ^ 29 \<Longrightarrow> absorbed (m @ data) (fst (SHA1_Update c data))"
  by (cases "length m mod 64 + length data \<le> 63") (auto intro: update_short update_long)

interpretation sha1_stream: stream_object
  "\<lambda>c data. fst (SHA1_Update c data)" absorbed "\<lambda>data. length data < 2 ^ 29"
  by unfold_locales (rule update_absorbs)

section \<open>Padding and the digest\<close>

lemma mask_504_count: "count_of n ! 0 AND 504 = 448 \<longleftrightarrow> n mod 64 = 56"
proof -
  have "(63 :: u32) = mask 6" by (simp add: mask_eq_exp_minus_1)
  then have "unat (drop_bit 3 (count_of n ! 0) AND 63) = unat (count_of n ! 0) div 8 mod 64"
    by (simp only: unat_and_mask) (simp add: drop_bit_eq_div unat_div)
  then show ?thesis by (simp add: mask_504)
qed

text \<open>The number of zero bytes the loop still adds to a message of \<open>n\<close> bytes.\<close>

definition zeros_left :: "nat \<Rightarrow> nat" where
  "zeros_left n = (let r = n mod 64 in if r \<le> 56 then 56 - r else 120 - r)"

lemma zeros_left_0: "zeros_left n = 0 \<longleftrightarrow> n mod 64 = 56"
proof -
  have "n mod 64 < 64" by simp
  then show ?thesis unfolding zeros_left_def Let_def by auto
qed

lemma zeros_left_Suc:
  assumes "zeros_left n = Suc k"
  shows "zeros_left (Suc n) = k"
proof -
  define r where "r = n mod 64"
  have "Suc n mod 64 = (if r = 63 then 0 else Suc r)" by (simp add: r_def mod_Suc)
  moreover have "r < 64" by (simp add: r_def)
  ultimately show ?thesis
    using assms unfolding zeros_left_def Let_def r_def [symmetric] by (auto split: if_splits)
qed

lemma pad_absorbs:
  "absorbed m c \<Longrightarrow> absorbed (m @ replicate (zeros_left (length m)) 0) (SHA1_pad c)"
proof (induction "zeros_left (length m)" arbitrary: m c)
  case 0
  then have "SHA1_pad c = c"
    by (simp add: SHA1_pad.simps [of c] absorbed_def mask_504_count zeros_left_0 [symmetric])
  with 0 show ?case by simp
next
  case (Suc k)
  have "length m mod 64 \<noteq> 56" using Suc.hyps(2) zeros_left_0 [of "length m"] by simp
  then have run: "SHA1_pad c = SHA1_pad (fst (SHA1_Update c [0]))"
    using Suc.prems by (simp add: SHA1_pad.simps [of c] absorbed_def mask_504_count)
  have k: "k = zeros_left (length (m @ [0 :: u8]))"
    using zeros_left_Suc [OF Suc.hyps(2) [symmetric]] by simp
  have "absorbed (m @ [0]) (fst (SHA1_Update c [0]))" using Suc.prems by (simp add: update_absorbs)
  from Suc.hyps(1) [OF k this] show ?case
    using run k Suc.hyps(2) by (metis append.assoc append_Cons append_Nil replicate_Suc)
qed

lemma zeros_left_pad: "zeros_left (Suc n) = nat ((55 - int n) mod 64)"
proof -
  define q r where "q = Suc n div 64" and "r = Suc n mod 64"
  have "Suc n = 64 * q + r" by (simp add: q_def r_def)
  then have n: "int n = 64 * int q + int r - 1" by linarith
  have r: "r < 64" by (simp add: r_def)
  have "55 - int n = 56 - int r + 64 * (- int q)" using n by simp
  then have "(55 - int n) mod 64 = (56 - int r) mod 64" by (simp only: mod_mult_self2)
  also have "\<dots> = int (if r \<le> 56 then 56 - r else 120 - r)"
    using r mod_add_self2 [of "56 - int r" 64] mod_pos_pos_trivial [of "120 - int r" 64]
    by (auto simp: mod_pos_pos_trivial)
  finally show ?thesis unfolding zeros_left_def Let_def r_def [symmetric] by (simp only: nat_int)
qed

lemma finalcount_bit_length: "finalcount (count_of (length m)) = bit_length m"
  by (simp add: finalcount_def count_of_def bit_length_def be_bytes_def Let_def upt_rec
      del: of_nat_mult)

lemma length_compress: "length h = 5 \<Longrightarrow> length (fold fips_compress blocks h) = 5"
  by (induction blocks arbitrary: h) (auto simp: fips_compress_def split: prod.splits)

lemma digest_words:
  assumes "length h = 5"
  shows "digest_bytes h = concat (map be_bytes h)"
proof -
  obtain a b c d e where "h = [a, b, c, d, e]"
    using assms by (auto simp: length_Suc_conv numeral_eq_Suc)
  then show ?thesis by (simp add: digest_bytes_def be_bytes_def upt_rec)
qed

lemma final_fips:
  assumes "absorbed m c"
  shows "snd (SHA1_Final c) = fips_sha1 m"
proof -
  have one: "absorbed (m @ [0x80]) (fst (SHA1_Update c [0x80]))"
    using assms by (simp add: update_absorbs)
  let ?zeros = "replicate (zeros_left (Suc (length m))) 0"
  have padded: "absorbed (m @ [0x80] @ ?zeros) (SHA1_pad (fst (SHA1_Update c [0x80])))"
    using pad_absorbs [OF one] by simp
  let ?c2 = "fst (SHA1_Update (SHA1_pad (fst (SHA1_Update c [0x80]))) (bit_length m))"
  have "length (bit_length m) = 8" by (simp add: bit_length_def Let_def)
  then have "absorbed ((m @ [0x80] @ ?zeros) @ bit_length m) ?c2"
    by (intro update_absorbs [OF padded]) simp
  then have "absorbed (fips_pad m) ?c2"
    by (simp add: fips_pad_def zeros_left_pad)
  moreover have "length fips_H0 = 5" by (simp add: fips_H0_def)
  moreover have "finalcount (ctx_count c) = bit_length m"
    using assms by (simp add: absorbed_def finalcount_bit_length)
  ultimately show ?thesis
    using length_compress [of fips_H0 "full_blocks 64 (fips_pad m)"]
    by (simp add: SHA1_Final_def Let_def absorbed_def fips_sha1_def digest_words)
qed

section \<open>The caller's bytes\<close>

lemma update_data:
  assumes "absorbed m c" and "63 < length m mod 64 + length data" and "length data < 2 ^ 29"
  shows "snd (SHA1_Update c data) =
     take (64 - length m mod 64) data
     @ concat (map clobbered (full_blocks 64 (drop (64 - length m mod 64) data)))
     @ left_over 64 (drop (64 - length m mod 64) data)"
proof -
  let ?j = "length m mod 64"
  have c: "ctx_count c = count_of (length m)" using assms(1) by (simp add: absorbed_def)
  obtain h1 b1 where t: "SHA1_Transform (ctx_state c) (memcpy_at (ctx_buffer c) ?j (take (64 - ?j) data)) = (h1, b1)"
    by fastforce
  obtain h d i where loop: "SHA1_blocks h1 data (64 - ?j) = (h, d, i)" by (metis prod_cases3)
  have "64 - ?j \<le> length data" using assms(2) by linarith
  moreover have "snd (SHA1_Update c data) = d"
    unfolding SHA1_Update_def Let_def c count_index count_absorbs [OF assms(3)]
    using assms(2) t loop by simp
  ultimately show ?thesis using blocks_fips [OF loop] by simp
qed

text \<open>
  A block of sixteen equal words is expanded into words that are all ones or all zeros, so the
  schedule of such a block is a shift register over booleans.
\<close>

definition lfsr :: "bool list \<Rightarrow> bool list" where
  "lfsr s = tl s @ [((s ! 13 \<noteq> s ! 8) \<noteq> s ! 2) \<noteq> s ! 0]"

definition mask_word :: "bool \<Rightarrow> u32" where
  "mask_word b = (if b then -1 else 0)"

lemma rotl_ones: "word_rotl n (-1 :: u32) = -1"
  by (rule bit_word_eqI) (simp add: bit_word_rotl_iff)

lemma rotl_mask_word: "word_rotl 1 (mask_word a XOR mask_word b XOR mask_word c XOR mask_word d)
   = mask_word (((a \<noteq> b) \<noteq> c) \<noteq> d)"
  by (cases a; cases b; cases c; cases d) (simp_all add: mask_word_def rotl_ones del: One_nat_def)

lemma schedule_lfsr:
  assumes "m = map mask_word s" and "length s = 16"
  shows "length ((lfsr ^^ n) s) = 16 \<and> (\<forall>k < 16. schedule m (n + k) = mask_word ((lfsr ^^ n) s ! k))"
proof (induction n)
  case 0
  show ?case using assms by (simp add: schedule.simps)
next
  case (Suc n)
  define x where "x = (lfsr ^^ n) s"
  have x: "length x = 16" "\<And>k. k < 16 \<Longrightarrow> schedule m (n + k) = mask_word (x ! k)"
    using Suc by (simp_all add: x_def)
  have "schedule m (n + 16) = word_rotl 1 (schedule m (n + 13) XOR schedule m (n + 8) XOR schedule m (n + 2) XOR schedule m (n + 0))"
    by (subst schedule.simps) (simp add: numeral_eq_Suc)
  then have last: "schedule m (n + 16) = mask_word (((x ! 13 \<noteq> x ! 8) \<noteq> x ! 2) \<noteq> x ! 0)"
    using x(2) [of 13] x(2) [of 8] x(2) [of 2] x(2) [of 0] by (simp add: rotl_mask_word del: One_nat_def)
  have "schedule m (Suc n + k) = mask_word (lfsr x ! k)" if "k < 16" for k
  proof (cases "k = 15")
    case True
    then show ?thesis using last x(1) by (simp add: lfsr_def nth_append add.commute [of 16])
  next
    case False
    then show ?thesis using that x(2) [of "Suc k"] x(1) by (simp add: lfsr_def nth_append nth_tl)
  qed
  moreover have "length (lfsr x) = 16" using x(1) by (simp add: lfsr_def)
  ultimately show ?case by (simp add: x_def)
qed

lemma lfsr_iterate: "(lfsr ^^ Suc n) s = (lfsr ^^ n) (lfsr s)"
  by (simp add: funpow_swap1)

lemma lfsr_64: "(lfsr ^^ 64) (replicate 16 True) ! 0 = False"
  by (simp add: numeral_eq_Suc lfsr_iterate lfsr_def del: funpow.simps)

lemma ones_block: "words_with be32 (replicate 64 255) = map mask_word (replicate 16 True)"
proof -
  have "be32 255 255 255 255 = -1"
    by (rule bit_word_eqI) (auto simp: bit_be32)
  then show ?thesis by (simp add: numeral_eq_Suc mask_word_def)
qed

lemma clobbered_ones: "clobbered (replicate 64 255) ! 0 = 0"
proof -
  have "schedule (map mask_word (replicate 16 True)) (64 + 0) = 0"
    using schedule_lfsr [OF refl, of "replicate 16 True" 64] lfsr_64 unfolding mask_word_def
    by (metis length_replicate zero_less_numeral)
  then show ?thesis
    unfolding clobbered_def ones_block by (simp add: upt_rec le_bytes_def byte_at_def)
qed

section \<open>Hexadecimal\<close>

definition hex_value :: "char \<Rightarrow> nat" where
  "hex_value c = length (takeWhile (\<lambda>d. d \<noteq> c) ''0123456789abcdef'')"

definition unhex2 :: "string \<Rightarrow> u8" where
  "unhex2 s = of_nat (16 * hex_value (s ! 0) + hex_value (s ! 1))"

lemma hex_value_digit: "n < 16 \<Longrightarrow> hex_value (hex_digit n) = n"
proof -
  assume "n < 16"
  then have "n \<in> set [0..<16]" by simp
  then show ?thesis by (auto simp: hex_value_def hex_digit_def upt_rec)
qed

lemma unhex2_hex2: "unhex2 (hex2 b) = b"
proof -
  have "unat b < 2 ^ LENGTH(8)" by (rule unsigned_less)
  then have "unat b div 16 < 16" by simp
  then show ?thesis by (simp add: unhex2_def hex2_def hex_value_digit)
qed

interpretation hex: fixed_width_code hex2 unhex2 2
  by unfold_locales (simp_all add: unhex2_hex2, simp add: hex2_def)

interpretation be_code: fixed_width_code be_bytes "\<lambda>bs. be32 (bs ! 0) (bs ! 1) (bs ! 2) (bs ! 3)" 4
  by unfold_locales (simp_all add: be_bytes_def be32_bytes)

section \<open>Properties\<close>

lemma digest_absorbed:
  assumes "length (ctx_buffer ctx) = 64" and "length input < 2 ^ 29"
  shows "absorbed input (fst (SHA1_Update (SHA1_Init ctx) input))"
  using update_absorbs [OF absorbed_init [OF assms(1)] assms(2)] by simp

lemma sha1_digest_fields:
  "fst (sha1_digest ctx input) = digest_to_string (snd (SHA1_Final (fst (SHA1_Update (SHA1_Init ctx) input))))"
  "snd (sha1_digest ctx input) = snd (SHA1_Update (SHA1_Init ctx) input)"
  by (simp_all add: sha1_digest_def split: prod.splits)

text \<open>C2: \<open>sha1.digest\<close> returns, in hexadecimal, the standard's SHA-1 of the string it is given, for
  every string shorter than 2^29 bytes and whatever the uninitialised context held.\<close>

theorem sha1_digest_correct:
  assumes "length (ctx_buffer ctx) = 64" and "length input < 2 ^ 29"
  shows "fst (sha1_digest ctx input) = digest_to_string (fips_sha1 input)"
  using final_fips [OF digest_absorbed [OF assms]] by (simp add: sha1_digest_fields)

theorem sha1_digest_correct_witness:
  "fst (sha1_digest \<lparr>ctx_state = [], ctx_count = [], ctx_buffer = replicate 64 7\<rparr> [0x61, 0x62, 0x63])
     = digest_to_string (fips_sha1 [0x61, 0x62, 0x63])"
  by (rule sha1_digest_correct) simp_all

text \<open>C6: feeding a message to a context in pieces of any sizes below 2^29 bytes, empty ones
  included, gives the digest of the whole message.\<close>

theorem sha1_any_pieces:
  assumes "length (ctx_buffer ctx) = 64" and "list_all (\<lambda>p. length p < 2 ^ 29) pieces"
  shows "snd (SHA1_Final (fold (\<lambda>p c. fst (SHA1_Update c p)) pieces (SHA1_Init ctx)))
       = fips_sha1 (concat pieces)"
  using sha1_stream.feed_all [OF absorbed_init [OF assms(1)] assms(2)] by (simp add: final_fips)

theorem sha1_any_pieces_witness:
  "snd (SHA1_Final (fold (\<lambda>p c. fst (SHA1_Update c p)) [[1, 2], [], replicate 70 3]
          (SHA1_Init \<lparr>ctx_state = [], ctx_count = [], ctx_buffer = replicate 64 7\<rparr>)))
     = fips_sha1 (concat [[1, 2], [], replicate 70 3])"
  by (rule sha1_any_pieces) simp_all

text \<open>what \<open>sha1.digest\<close> leaves in the string it was given. Strings shorter than 128 bytes
  are left alone; in a longer one every whole block after the first is overwritten with the last
  sixteen words of its own message schedule.\<close>

theorem sha1_digest_input_after:
  assumes "length (ctx_buffer ctx) = 64" and "length input < 2 ^ 29"
  shows "snd (sha1_digest ctx input) =
    (if length input < 128 then input
     else take 64 input @ concat (map clobbered (full_blocks 64 (drop 64 input)))
          @ left_over 64 (drop 64 input))"
proof (cases "63 < length input")
  case True
  have "snd (sha1_digest ctx input) = take 64 input
      @ concat (map clobbered (full_blocks 64 (drop 64 input))) @ left_over 64 (drop 64 input)"
    using update_data [OF absorbed_init [OF assms(1)] _ assms(2)] True by (simp add: sha1_digest_fields)
  then show ?thesis by (simp add: full_blocks_short left_over_short)
next
  case False
  have "ctx_count (SHA1_Init ctx) = count_of 0" by (simp add: SHA1_Init_def count_of_def)
  then have "snd (SHA1_Update (SHA1_Init ctx) input) = input"
    using False by (simp add: SHA1_Update_def Let_def)
  with False show ?thesis by (simp add: sha1_digest_fields)
qed

theorem sha1_digest_input_after_witness:
  "snd (sha1_digest \<lparr>ctx_state = [], ctx_count = [], ctx_buffer = replicate 64 7\<rparr> (replicate 127 5))
     = replicate 127 5"
  by (subst sha1_digest_input_after) simp_all

text \<open>C11: \<open>sha1.digest\<close> can change the string it is given, which Lua treats as immutable: of 128
  bytes \<open>0xFF\<close>, byte 64 is 0 after the call.\<close>

theorem sha1_digest_corrupts_input:
  assumes "length (ctx_buffer ctx) = 64"
  shows "snd (sha1_digest ctx (replicate 128 0xFF)) ! 64 = 0"
proof -
  have "length (ctx_buffer (SHA1_Init ctx)) = 64" using assms by (simp add: SHA1_Init_def)
  have "full_blocks 64 (replicate 64 (0xFF :: u8)) = [replicate 64 0xFF]"
    using full_blocks_step [of 64 "replicate 64 (0xFF :: u8)" "[]"] by (simp add: full_blocks_short)
  moreover have "drop 64 (replicate 128 (0xFF :: u8)) = replicate 64 0xFF" by simp
  ultimately have "snd (SHA1_Update (SHA1_Init ctx) (replicate 128 0xFF))
      = replicate 64 0xFF @ clobbered (replicate 64 0xFF) @ left_over 64 (replicate 64 0xFF)"
    using update_data [OF absorbed_init [OF assms], of "replicate 128 0xFF"] by simp
  then show ?thesis using clobbered_ones by (simp add: sha1_digest_fields nth_append)
qed

theorem sha1_digest_corrupts_input_witness:
  "snd (sha1_digest \<lparr>ctx_state = [], ctx_count = [], ctx_buffer = replicate 64 7\<rparr> (replicate 128 0xFF)) ! 64
     \<noteq> (replicate 128 0xFF :: u8 list) ! 64"
  by (subst sha1_digest_corrupts_input) simp_all

text \<open>one call of \<open>SHA1_Update\<close> with 2^29 bytes or more leaves the high word of the bit
  counter one too large unless the low words carry: the carry test compares the 32-bit word with
  the untruncated 64-bit product.\<close>

theorem sha1_count_beyond:
  assumes "2 ^ 29 \<le> k" and "k < 2 ^ 61"
  shows "SHA1_count (count_of n) (of_nat k) =
    [of_nat (8 * (n + k)),
     of_nat (8 * (n + k) div 2 ^ 32) + (if 2 ^ 32 \<le> 8 * n mod 2 ^ 32 + 8 * k mod 2 ^ 32 then 0 else 1)]"
proof -
  have bits: "push_bit 3 (of_nat k :: u64) = of_nat (8 * k)" by (simp add: push_bit_eq_mult)
  have high: "drop_bit 29 (of_nat k :: u64) = of_nat (k div 2 ^ 29)"
    using assms(2) by (simp add: word_unat_eq_iff drop_bit_eq_div unat_div unat_of_nat)
  define c0 where "c0 = (of_nat (8 * (n + k)) :: u32)"
  have sum: "(ucast (ucast (of_nat (8 * n) :: u32) + of_nat (8 * k) :: u64) :: u32) = c0"
    unfolding ucast_u64_add ucast_u64_ucast ucast_u64_of_nat c0_def
    by (simp only: of_nat_add [symmetric] add_mult_distrib2)
  have "unat (of_nat (8 * k) :: u64) = 8 * k"
    using assms(2) by (simp add: unat_of_nat del: of_nat_mult)
  moreover have "unat (ucast c0 :: u64) < 2 ^ LENGTH(32)" by (simp only: unat_u32_u64 unsigned_less)
  ultimately have carry: "(ucast c0 :: u64) < of_nat (8 * k)"
    unfolding word_less_nat_alt using assms(1) by simp
  have "8 * (n + k) div 2 ^ 32 = 8 * n div 2 ^ 32 + k div 2 ^ 29
      + (8 * n mod 2 ^ 32 + 8 * k mod 2 ^ 32) div 2 ^ 32"
    unfolding add_mult_distrib2 div_add1_eq [of "8 * n"] by simp
  moreover have "(8 * n mod 2 ^ 32 + 8 * k mod 2 ^ 32) div 2 ^ 32
      = (if 2 ^ 32 \<le> 8 * n mod 2 ^ 32 + 8 * k mod 2 ^ 32 then 1 else 0 :: nat)"
    by (simp add: div_if)
  ultimately have high_word: "(of_nat (8 * (n + k) div 2 ^ 32) :: u32)
      = of_nat (8 * n div 2 ^ 32) + of_nat (k div 2 ^ 29)
        + (if 2 ^ 32 \<le> 8 * n mod 2 ^ 32 + 8 * k mod 2 ^ 32 then 1 else 0)"
    by (simp only: of_nat_add) simp
  show ?thesis
    unfolding SHA1_count_def count_of_def Let_def bits high nth_Cons_0 nth_Cons_Suc One_nat_def sum
    by (simp only: carry if_True ucast_u64_add ucast_u64_ucast ucast_u64_of_nat high_word)
      (simp add: c0_def)
qed

theorem sha1_count_beyond_witness:
  "SHA1_count (count_of 0) (of_nat (2 ^ 29)) = [0, 2] \<and> count_of (0 + 2 ^ 29) = [0, 1]"
  using sha1_count_beyond [of "2 ^ 29" 0] by (simp add: count_of_def)

text \<open>two strings get the same hexadecimal digest from \<open>sha1.digest\<close> exactly when their SHA-1 is
  the same, and the digest has forty characters.\<close>

theorem sha1_digest_text:
  assumes "length (ctx_buffer ctx) = 64" and "length a < 2 ^ 29" and "length b < 2 ^ 29"
  shows "(fst (sha1_digest ctx a) = fst (sha1_digest ctx b) \<longleftrightarrow> fips_sha1 a = fips_sha1 b)
       \<and> length (fst (sha1_digest ctx a)) = 40"
proof -
  have five: "length (fold fips_compress (full_blocks 64 (fips_pad a)) fips_H0) = 5"
    by (rule length_compress) (simp add: fips_H0_def)
  have "length (fips_sha1 a) = 20"
    unfolding fips_sha1_def be_code.length_encoded five by simp
  then show ?thesis
    using final_fips [OF digest_absorbed [OF assms(1,2)]] final_fips [OF digest_absorbed [OF assms(1,3)]]
      hex.length_encoded [of "fips_sha1 a"] hex.encoded_inj [of "fips_sha1 a" "fips_sha1 b"]
    by (auto simp: sha1_digest_fields digest_to_string_def)
qed

theorem sha1_digest_text_witness:
  "length (fst (sha1_digest \<lparr>ctx_state = [], ctx_count = [], ctx_buffer = replicate 64 7\<rparr> [1])) = 40"
  using sha1_digest_text [of "\<lparr>ctx_state = [], ctx_count = [], ctx_buffer = replicate 64 7\<rparr>" "[1]" "[2]"]
  by simp

end
