(* ===== verification/XpioUtil.thy ===== *)
theory XpioUtil
  imports Complex_Main Prelude
begin

text \<open>
  The utilities at the head of \<open>luau/xpio_c.c\<close>: file-status flags, the growing array of poll slots,
  numbers and addresses out of Lua strings, the socket option table, and the \<open>nil, error\<close> pair every
  operation reports failure with. Calls to the operating system are arguments: \<open>getfl\<close>, \<open>setfl\<close>
  stand for \<open>fcntl\<close>, \<open>strerror\<close> for the C library's messages, and whether \<open>malloc\<close> succeeds
  is a boolean. A C string is the list of its characters before the terminating NUL.
\<close>

section \<open>Values\<close>

datatype errno = EAGAIN | EWOULDBLOCK | EINTR | EINPROGRESS | EALREADY | EISCONN | EOTHER nat

text \<open>What the operations push for Lua; \<open>LObject\<close> is a userdata the module created.\<close>

datatype lua_value = LNil | LBool bool | LInteger int | LNumber rat | LString string | LObject nat

text \<open>An error thrown with \<open>luaL_error\<close>.\<close>

datatype lua_error = LuaError string

text \<open>A \<open>lua_Number\<close>: an IEEE double is a rational, an infinity or not a number.\<close>

datatype c_double = Finite rat | PosInf | NegInf | NaN

fun c_ge_0 :: "c_double \<Rightarrow> bool" where
  "c_ge_0 (Finite r) = (0 \<le> r)"
| "c_ge_0 PosInf = True"
| "c_ge_0 NegInf = False"
| "c_ge_0 NaN = False"

fun c_greater :: "c_double \<Rightarrow> rat \<Rightarrow> bool" where
  "c_greater (Finite r) b = (b < r)"
| "c_greater PosInf b = True"
| "c_greater NegInf b = False"
| "c_greater NaN b = False"

section \<open>File status flags\<close>

text \<open>
  \<open>getfl os fd\<close> is \<open>fcntl(fd, F_GETFL)\<close> and \<open>setfl os fd flags\<close> is \<open>fcntl(fd, F_SETFL, flags)\<close>
  with the operating system after it; \<open>-1\<close> is failure. \<open>O_NONBLOCK\<close> is the platform's flag bit.
\<close>

definition fcntl_mod_FL ::
  "('os \<Rightarrow> int \<Rightarrow> u32) \<Rightarrow> ('os \<Rightarrow> int \<Rightarrow> u32 \<Rightarrow> u32 \<times> 'os) \<Rightarrow> 'os \<Rightarrow> int \<Rightarrow> u32 \<Rightarrow> u32 \<Rightarrow> u32 \<times> 'os"
where
  "fcntl_mod_FL getfl setfl os fd flagsAdd flagsRemove =
     (let flags = getfl os fd
      in if flags \<noteq> -1 then setfl os fd ((flags AND NOT flagsRemove) OR flagsAdd) else (flags, os))"

definition setNonBlocking ::
  "u32 \<Rightarrow> ('os \<Rightarrow> int \<Rightarrow> u32) \<Rightarrow> ('os \<Rightarrow> int \<Rightarrow> u32 \<Rightarrow> u32 \<times> 'os) \<Rightarrow> 'os \<Rightarrow> int \<Rightarrow> bool \<Rightarrow> u32 \<times> 'os"
where
  "setNonBlocking O_NONBLOCK getfl setfl os fd bOn =
     (let flagsAdd = (if bOn then O_NONBLOCK else 0);
          flagsRemove = (if bOn then 0 else O_NONBLOCK)
      in fcntl_mod_FL getfl setfl os fd flagsAdd flagsRemove)"

text \<open>The return code and the boolean stored through \<open>pbOn\<close>.\<close>

definition getNonBlocking ::
  "u32 \<Rightarrow> ('os \<Rightarrow> int \<Rightarrow> u32) \<Rightarrow> 'os \<Rightarrow> int \<Rightarrow> int \<times> bool" where
  "getNonBlocking O_NONBLOCK getfl os fd =
     (let flags = getfl os fd
      in if flags = -1 then (-1, False) else (0, flags AND O_NONBLOCK \<noteq> 0))"

section \<open>Growing arrays\<close>

text \<open>
  \<open>growArray\<close>: the array after the call; its length is what \<open>*plen\<close> holds. \<open>zero\<close> is an element
  filled with zero bytes and \<open>malloc_ok\<close> whether the allocation succeeds.
\<close>

definition growArray :: "bool \<Rightarrow> 'a \<Rightarrow> 'a list \<Rightarrow> nat \<Rightarrow> 'a list" where
  "growArray malloc_ok zero ptr lenMin =
     (if lenMin < length ptr then ptr
      else if \<not> malloc_ok then ptr
      else ptr @ replicate (lenMin * 2 - length ptr) zero)"

lemma growArray_prefix: "take (length ptr) (growArray ok zero ptr n) = ptr"
  by (simp add: growArray_def)

lemma growArray_length: "ok \<Longrightarrow> n \<le> length (growArray ok zero ptr n)"
  by (simp add: growArray_def)

lemma growArray_fails: "growArray False zero ptr n = ptr"
  by (simp add: growArray_def)

section \<open>Numbers\<close>

definition UINT_MAX :: nat where
  "UINT_MAX = 2 ^ 32 - 1"

text \<open>\<open>lua_tointegerx\<close> gives the integer value when there is one; storing it in an \<open>int\<close> keeps 32 bits.\<close>

definition to_int :: "int \<Rightarrow> int" where
  "to_int n = sint (word_of_int n :: 32 word)"

definition tointegerDefault :: "int option \<Rightarrow> int \<Rightarrow> int" where
  "tointegerDefault value dflt = (case value of Some n \<Rightarrow> to_int n | None \<Rightarrow> dflt)"

text \<open>\<open>luaL_checknumber\<close> has already turned argument \<open>ndx\<close> into the number \<open>num\<close>.\<close>

fun checkUInt :: "nat \<Rightarrow> c_double \<Rightarrow> lua_error + u32" where
  "checkUInt ndx num =
     (if \<not> c_ge_0 num then Inl (LuaError (''xpio: invalid argument #'' @ show_nat ndx))
      else if c_greater num (of_nat UINT_MAX) then Inr (of_nat UINT_MAX)
      else (case num of Finite r \<Rightarrow> Inr (word_of_int \<lfloor>r\<rfloor>) | _ \<Rightarrow> Inr 0))"

definition isRetry :: "errno \<Rightarrow> bool" where
  "isRetry e \<longleftrightarrow> e = EAGAIN \<or> e = EWOULDBLOCK \<or> e = EINTR \<or> e = EINPROGRESS \<or> e = EALREADY"

definition isDigit :: "char \<Rightarrow> bool" where
  "isDigit ch \<longleftrightarrow> 48 \<le> (of_char ch :: nat) \<and> (of_char ch :: nat) \<le> 57"

text \<open>The digits at the front of a string as an \<open>unsigned\<close>, and the rest of the string.\<close>

fun scan_digits :: "string \<Rightarrow> u32 \<Rightarrow> u32 \<times> string" where
  "scan_digits [] n = (n, [])"
| "scan_digits (ch # psz) n =
     (if isDigit ch then scan_digits psz (n * 10 + (of_nat (of_char ch) - 48)) else (n, ch # psz))"

definition scanNum :: "string \<Rightarrow> u32 \<times> string" where
  "scanNum psz = scan_digits psz 0"

section \<open>Addresses\<close>

text \<open>The bytes of \<open>sin_addr\<close> and \<open>sin_port\<close> in memory, that is in network order.\<close>

record sockaddr_in =
  sin_family_inet :: bool
  sin_addr :: "u8 list"
  sin_port :: "u8 list"

definition htons :: "u32 \<Rightarrow> u8 list" where
  "htons port = [byte_at 8 port, byte_at 0 port]"

text \<open>\<open>if (*psz == '.') ++psz;\<close>\<close>

fun strip_dot :: "string \<Rightarrow> string" where
  "strip_dot [] = []"
| "strip_dot (d # rest) = (if d = CHR ''.'' then rest else d # rest)"

text \<open>
  The parsing loop: the index where it stopped, \<open>nums\<close> and the port; \<open>None\<close> where the code
  returns -1.
\<close>

lemma length_scan_digits: "length (snd (scan_digits psz n)) \<le> length psz"
  by (induction psz n rule: scan_digits.induct) auto

function addr_loop :: "nat \<Rightarrow> string \<Rightarrow> u32 list \<Rightarrow> (nat \<times> u32 list \<times> u32) option" where
  "addr_loop i psz nums =
     (case psz of
        [] \<Rightarrow> Some (i, nums, 0)
      | c # psz1 \<Rightarrow>
          if c = CHR '':'' then Some (i, nums, fst (scanNum psz1))
          else if 4 \<le> i then None
          else (let (n, psz2) = scanNum psz
                in addr_loop (Suc i) (strip_dot psz2) (nums[i := n])))"
  by pat_completeness auto
termination
  by (relation "measure (\<lambda>(i, psz, nums). 4 - i)") auto

declare addr_loop.simps [simp del]

definition addrFromString :: "string \<Rightarrow> sockaddr_in option" where
  "addrFromString psz =
     (case addr_loop 0 psz (replicate 4 0) of
        None \<Rightarrow> None
      | Some (i, nums, port) \<Rightarrow>
          let n0 = (if i > 1 then nums ! 0 * 0x1000000 else nums ! 0);
              n1 = (if i > 2 then nums ! 1 * 0x10000 else nums ! 1);
              n2 = (if i > 3 then nums ! 2 * 0x100 else nums ! 2)
          in Some \<lparr>sin_family_inet = True,
                   sin_addr = be_bytes (n0 + n1 + n2 + nums ! 3),
                   sin_port = htons port\<rparr>)"

text \<open>
  The error branch passes the address of \<open>sin_family\<close>, not its value, to \<open>%d\<close>; \<open>junk\<close> is
  what that prints.
\<close>

definition xpsocket_getXname :: "string \<Rightarrow> sockaddr_in \<Rightarrow> lua_value list" where
  "xpsocket_getXname junk psin =
     (if \<not> sin_family_inet psin then [LNil, LString (''xpio: unknown address family '' @ junk)]
      else (let pby = sin_addr psin; port = sin_port psin in
        [LString (show_nat (unat (pby ! 0)) @ ''.'' @ show_nat (unat (pby ! 1)) @ ''.'' @
                  show_nat (unat (pby ! 2)) @ ''.'' @ show_nat (unat (pby ! 3)) @ '':'' @
                  show_nat (256 * unat (port ! 0) + unat (port ! 1)))]))"

section \<open>Lemmas on numbers and addresses\<close>

lemma isDigit_digit: "d < 10 \<Longrightarrow> isDigit (char_of (48 + d :: nat))"
  by (simp add: isDigit_def)

lemma scan_show: "scan_digits (show_nat n @ rest) acc = scan_digits rest (acc * 10 ^ length (show_nat n) + of_nat n)"
proof (induction n arbitrary: rest acc rule: show_nat.induct)
  case (1 n)
  show ?case
  proof (cases "n < 10")
    case True
    then show ?thesis by (simp add: show_nat.simps [of n] isDigit_digit)
  next
    case False
    have d: "isDigit (char_of (48 + n mod 10))" by (rule isDigit_digit) simp
    have n: "(of_nat n :: u32) = of_nat (n div 10) * 10 + of_nat (n mod 10)"
      by (metis div_mult_mod_eq of_nat_add of_nat_mult of_nat_numeral)
    show ?thesis
      using False 1 [OF False, of "char_of (48 + n mod 10) # rest" acc] d
      by (subst (1 2) show_nat.simps) (simp add: n algebra_simps)
  qed
qed

definition no_digit :: "string \<Rightarrow> bool" where
  "no_digit rest \<longleftrightarrow> rest = [] \<or> \<not> isDigit (hd rest)"

lemma scanNum_show: "no_digit rest \<Longrightarrow> scanNum (show_nat n @ rest) = (of_nat n, rest)"
  unfolding scanNum_def scan_show by (cases rest) (auto simp: no_digit_def)

lemma show_nat_first: "\<exists>c cs. show_nat n = c # cs \<and> isDigit c"
proof (induction n rule: show_nat.induct)
  case (1 n)
  then show ?case by (cases "n < 10") (auto simp: show_nat.simps [of n] isDigit_digit)
qed

lemma addr_loop_number:
  assumes "i < 4" and "no_digit rest"
  shows "addr_loop i (show_nat n @ rest) nums = addr_loop (Suc i) (strip_dot rest) (nums[i := of_nat n])"
proof -
  obtain c cs where c: "show_nat n = c # cs" "isDigit c" using show_nat_first by blast
  then have "c \<noteq> CHR '':''" by (auto simp: isDigit_def)
  then show ?thesis
    using c(1) assms scanNum_show [OF assms(2), of n]
    by (subst addr_loop.simps) (cases rest; simp)
qed

lemma addr_loop_port: "addr_loop i (CHR '':'' # show_nat p) nums = Some (i, nums, of_nat p)"
  using scanNum_show [of "[]" p] by (subst addr_loop.simps) (simp add: no_digit_def)

section \<open>Properties\<close>

text \<open>C10: an IPv4 address with its port, in the notation the library prints, is parsed by
  \<open>addrFromString\<close> to the address that \<open>getsockname\<close> and \<open>getpeername\<close> print back unchanged.\<close>

theorem address_round_trip:
  assumes "a < 256" "b < 256" "c < 256" "d < 256" "p < 65536"
  shows "map_option (xpsocket_getXname junk)
      (addrFromString (show_nat a @ ''.'' @ show_nat b @ ''.'' @ show_nat c @ ''.'' @ show_nat d @ '':'' @ show_nat p))
    = Some [LString (show_nat a @ ''.'' @ show_nat b @ ''.'' @ show_nat c @ ''.'' @ show_nat d @ '':'' @ show_nat p)]"
proof -
  have dots: "no_digit (CHR ''.'' # s)" "no_digit (CHR '':'' # s)" for s
    by (simp_all add: no_digit_def isDigit_def)
  have "addr_loop 0 (show_nat a @ ''.'' @ show_nat b @ ''.'' @ show_nat c @ ''.'' @ show_nat d @ '':'' @ show_nat p)
      (replicate 4 0) = Some (4, [of_nat a, of_nat b, of_nat c, of_nat d], of_nat p)"
    by (simp add: addr_loop_number addr_loop_port dots numeral_eq_Suc)
  moreover have "htons (of_nat p) = [of_nat (p div 256), of_nat p]"
    using assms(5) by (simp add: htons_def byte_at_div unat_of_nat)
  ultimately show ?thesis
    using be_bytes_sum [OF assms(1-4)] assms
    by (simp add: addrFromString_def Let_def xpsocket_getXname_def unat_of_nat)
qed

theorem address_round_trip_witness:
  "map_option (xpsocket_getXname [])
      (addrFromString (show_nat 127 @ ''.'' @ show_nat 0 @ ''.'' @ show_nat 0 @ ''.'' @ show_nat 1 @ '':'' @ show_nat 8080))
    = Some [LString (show_nat 127 @ ''.'' @ show_nat 0 @ ''.'' @ show_nat 0 @ ''.'' @ show_nat 1 @ '':'' @ show_nat 8080)]"
  by (rule address_round_trip) simp_all

text \<open>\<open>checkUInt\<close> accepts exactly the numbers that are not negative and not NaN, and returns the
  number rounded down, or \<open>UINT_MAX\<close> when it is larger.\<close>

theorem checkUInt_saturates:
  "checkUInt ndx num =
     (case num of
        Finite r \<Rightarrow> if r < 0 then Inl (LuaError (''xpio: invalid argument #'' @ show_nat ndx))
                    else Inr (of_nat (min (nat \<lfloor>r\<rfloor>) UINT_MAX))
      | PosInf \<Rightarrow> Inr (of_nat UINT_MAX)
      | _ \<Rightarrow> Inl (LuaError (''xpio: invalid argument #'' @ show_nat ndx)))"
proof (cases num)
  case (Finite r)
  consider "r < 0" | "of_nat UINT_MAX < r" | "0 \<le> r" "r \<le> of_nat UINT_MAX" by linarith
  then show ?thesis
  proof cases
    case 2
    then have "0 < r" and "int UINT_MAX \<le> \<lfloor>r\<rfloor>"
      by (simp_all add: UINT_MAX_def le_floor_iff)
    moreover from this have "min (nat \<lfloor>r\<rfloor>) UINT_MAX = UINT_MAX" by linarith
    ultimately show ?thesis using Finite 2 by simp
  next
    case 3
    then have "0 \<le> \<lfloor>r\<rfloor>" and "\<lfloor>r\<rfloor> \<le> int UINT_MAX"
      by (simp_all add: UINT_MAX_def floor_le_iff)
    then show ?thesis using Finite 3 by (simp add: min_def not_less nat_le_iff)
  qed (simp add: Finite)
qed simp_all

text \<open>after \<open>setNonBlocking\<close> succeeds, \<open>getNonBlocking\<close> reports the mode that was set; and the
  call leaves every other status flag it passes to the system as it was. The hypotheses are the
  documented behaviour of \<open>fcntl\<close>: \<open>F_GETFL\<close> reports the non-blocking flag that a successful
  \<open>F_SETFL\<close> stored.\<close>

theorem nonblocking_set_then_get:
  assumes bit: "O_NONBLOCK \<noteq> 0" and open_fd: "getfl os fd \<noteq> -1"
    and fcntl: "\<And>flags r os'. setfl os fd flags = (r, os') \<Longrightarrow> r \<noteq> -1 \<Longrightarrow>
      getfl os' fd \<noteq> -1 \<and> getfl os' fd AND O_NONBLOCK = flags AND O_NONBLOCK"
    and set: "setNonBlocking O_NONBLOCK getfl setfl os fd bOn = (r, os')" "r \<noteq> -1"
  shows "getNonBlocking O_NONBLOCK getfl os' fd = (0, bOn)
       \<and> (\<exists>flags. setfl os fd flags = (r, os')
            \<and> flags AND NOT O_NONBLOCK = getfl os fd AND NOT O_NONBLOCK)"
proof -
  define flags where "flags = (if bOn then getfl os fd OR O_NONBLOCK
                               else getfl os fd AND NOT O_NONBLOCK)"
  have call: "setfl os fd flags = (r, os')"
    using set(1) open_fd by (auto simp: setNonBlocking_def fcntl_mod_FL_def flags_def Let_def
        split: if_splits)
  have "flags AND O_NONBLOCK = (if bOn then O_NONBLOCK else 0)"
    "flags AND NOT O_NONBLOCK = getfl os fd AND NOT O_NONBLOCK"
    by (auto simp: flags_def intro!: bit_word_eqI simp: bit_simps)
  then show ?thesis
    using fcntl [OF call set(2)] call bit by (auto simp: getNonBlocking_def Let_def)
qed

theorem nonblocking_set_then_get_witness:
  "getNonBlocking 0x800 (\<lambda>os fd. os) 0x802 3 = (0, True)"
proof -
  have "flags AND 0xFFFF \<noteq> (-1 :: u32)" for flags
  proof
    assume "flags AND 0xFFFF = (-1 :: u32)"
    then have "bit (flags AND 0xFFFF) 31 = bit (-1 :: u32) 31" by simp
    then show False by (simp add: bit_simps)
  qed
  then show ?thesis
    using nonblocking_set_then_get
      [of "0x800" "\<lambda>os fd. os" 2 3 "\<lambda>os fd flags. (0, flags AND 0xFFFF)" True 0 "0x802"]
    by (simp add: setNonBlocking_def fcntl_mod_FL_def and.assoc)
qed

end
