(* ===== verification/XpioProc.thy ===== *)
theory XpioProc
  imports XpioUtil
begin

text \<open>
  Child processes (\<open>XPProc\<close> in \<open>luau/xpio_c.c\<close>): the global list of process objects, reaping,
  killing, waiting, the \<open>SIGCHLD\<close> handler, and process creation. An object is named by its
  address, a natural number; \<open>proc_heap\<close> holds the fields of every object and \<open>gpHeadProc\<close> is
  the linked list in order. Answers of the operating system that a loop asks for one after the
  other are a list; a loop that wants an answer beyond its end yields \<open>None\<close>: it is still waiting.
\<close>

section \<open>Process objects\<close>

record XPProc =
  pid :: int
  status :: int

record proc_state =
  proc_heap :: "nat \<Rightarrow> XPProc"
  gpHeadProc :: "nat list"

text \<open>A signal sent by the code: \<open>Kill pid\<close> is \<open>kill(pid, SIGKILL)\<close>.\<close>

datatype kill_call = Kill int

definition set_proc :: "nat \<Rightarrow> XPProc \<Rightarrow> proc_state \<Rightarrow> proc_state" where
  "set_proc p v st = st\<lparr>proc_heap := (proc_heap st)(p := v)\<rparr>"

text \<open>\<open>xpproc_new\<close>: \<open>p\<close> is the address of the new userdata.\<close>

definition xpproc_new :: "nat \<Rightarrow> proc_state \<Rightarrow> proc_state" where
  "xpproc_new p st =
     set_proc p \<lparr>pid = 0, status = 0\<rparr> st\<lparr>gpHeadProc := p # gpHeadProc st\<rparr>"

definition xpproc_isExited :: "proc_state \<Rightarrow> nat \<Rightarrow> bool" where
  "xpproc_isExited st p \<longleftrightarrow> pid (proc_heap st p) = 0"

text \<open>\<open>SLL_DEQUEUE\<close>: unlink the first node with this address.\<close>

fun SLL_DEQUEUE :: "nat \<Rightarrow> nat list \<Rightarrow> nat list" where
  "SLL_DEQUEUE p [] = []"
| "SLL_DEQUEUE p (q # qs) = (if q = p then qs else q # SLL_DEQUEUE p qs)"

definition xpproc_dtor :: "nat \<Rightarrow> proc_state \<Rightarrow> proc_state \<times> kill_call list" where
  "xpproc_dtor p st =
     (let st1 = st\<lparr>gpHeadProc := SLL_DEQUEUE p (gpHeadProc st)\<rparr>
      in if pid (proc_heap st1 p) \<noteq> 0
         then (set_proc p ((proc_heap st1 p)\<lparr>pid := 0\<rparr>) st1, [Kill (pid (proc_heap st1 p))])
         else (st1, []))"

text \<open>\<open>killed\<close> is the answer of \<open>kill\<close>: \<open>None\<close> for success, else the error number.\<close>

definition xpproc_kill ::
  "(errno \<Rightarrow> string) \<Rightarrow> (int \<Rightarrow> errno option) \<Rightarrow> nat \<Rightarrow> proc_state \<Rightarrow> lua_value list \<times> kill_call list"
where
  "xpproc_kill strerror kill p st =
     (let n = pid (proc_heap st p)
      in if n \<le> 0 then ([LNil, LString ''process not running''], [])
         else (case kill n of
                 Some e \<Rightarrow> ([LNil, LString (strerror e)], [Kill n])
               | None \<Rightarrow> ([LBool True], [Kill n])))"

section \<open>Reaping\<close>

text \<open>
  \<open>read(sigchldPipe[0], buf, 32)\<close> answers with a count or fails (a negative count); the loop
  goes on while the buffer was filled. The result is \<open>bReceived\<close> and the answers not used.
\<close>

fun drain_pipe :: "int list \<Rightarrow> bool \<Rightarrow> (bool \<times> int list) option" where
  "drain_pipe [] bReceived = None"
| "drain_pipe (n # ns) bReceived =
     (let bReceived' = (if n > 0 then True else bReceived)
      in if n = 32 then drain_pipe ns bReceived' else Some (bReceived', ns))"

text \<open>An answer of \<open>waitpid(-1, &status, WNOHANG)\<close>.\<close>

datatype wait_answer = Exited int int | StillRunning | WaitFailed errno

text \<open>\<open>for (p = gpHeadProc; p; p = p->next) if (p->pid == pid) { ...; break; }\<close>\<close>

fun update_exited :: "int \<Rightarrow> int \<Rightarrow> nat list \<Rightarrow> proc_state \<Rightarrow> proc_state \<times> nat" where
  "update_exited n code [] st = (st, 0)"
| "update_exited n code (p # ps) st =
     (if pid (proc_heap st p) = n then (set_proc p \<lparr>pid = 0, status = code\<rparr> st, 1)
      else update_exited n code ps st)"

fun reap_children :: "wait_answer list \<Rightarrow> nat \<Rightarrow> proc_state \<Rightarrow> (proc_state \<times> nat) option" where
  "reap_children [] numUpdated st = None"
| "reap_children (Exited n code # ws) numUpdated st =
     (if n > 0 then
        (let (st1, k) = update_exited n code (gpHeadProc st) st
         in reap_children ws (numUpdated + k) st1)
      else Some (st, numUpdated))"
| "reap_children (StillRunning # ws) numUpdated st = Some (st, numUpdated)"
| "reap_children (WaitFailed e # ws) numUpdated st =
     (if e = EINTR then reap_children ws numUpdated st else Some (st, numUpdated))"

definition xpproc_reap :: "int list \<Rightarrow> wait_answer list \<Rightarrow> proc_state \<Rightarrow> (proc_state \<times> nat) option" where
  "xpproc_reap reads waits st =
     (case drain_pipe reads False of
        None \<Rightarrow> None
      | Some (bReceived, _) \<Rightarrow> if \<not> bReceived then Some (st, 0) else reap_children waits 0 st)"

section \<open>The result of a child\<close>

text \<open>The platform's macros that read a wait status.\<close>

record wait_macros =
  WIFEXITED :: "int \<Rightarrow> bool"
  WEXITSTATUS :: "int \<Rightarrow> int"
  WIFSIGNALED :: "int \<Rightarrow> bool"
  WSTOPSIG :: "int \<Rightarrow> int"

definition xpproc_try_wait :: "wait_macros \<Rightarrow> nat \<Rightarrow> proc_state \<Rightarrow> lua_value list" where
  "xpproc_try_wait m p st =
     (let me = proc_heap st p
      in if pid me > 0 then [LNil, LString ''retry'']
         else if WIFEXITED m (status me) then [LString ''exit'', LInteger (WEXITSTATUS m (status me))]
         else if WIFSIGNALED m (status me) then [LString ''signal'', LInteger (WSTOPSIG m (status me))]
         else [LNil, LString ''retry''])"

section \<open>The signal handler and its set-up\<close>

text \<open>
  \<open>handleSIGCHLD\<close>: answers of \<open>write\<close> (\<open>None\<close> for success); the number of calls and \<open>errno\<close>
  afterwards, which the handler restores.
\<close>

fun handler_writes :: "errno option list \<Rightarrow> nat option" where
  "handler_writes [] = None"
| "handler_writes (r # rs) = (if r = Some EINTR then map_option Suc (handler_writes rs) else Some 1)"

definition handleSIGCHLD :: "errno option list \<Rightarrow> errno \<Rightarrow> (nat \<times> errno) option" where
  "handleSIGCHLD writes oldErrno = map_option (\<lambda>n. (n, oldErrno)) (handler_writes writes)"

datatype init_result = AlreadyDone | PipeFailed | NonBlockFailed | SigactionFailed | Installed

text \<open>\<open>xpproc_init\<close>: the static \<open>initialized\<close> after the call and how far the call got.\<close>

definition xpproc_init :: "bool \<Rightarrow> bool \<Rightarrow> bool \<Rightarrow> bool \<Rightarrow> bool \<times> init_result" where
  "xpproc_init initialized pipe_ok nonblock_ok sigaction_ok =
     (True,
      if initialized then AlreadyDone
      else if \<not> pipe_ok then PipeFailed
      else if \<not> nonblock_ok then NonBlockFailed
      else if \<not> sigaction_ok then SigactionFailed
      else Installed)"

section \<open>Creating processes\<close>

text \<open>
  An entry of the action array: \<open>None\<close> when it is not a table, else the integers at its keys 1
  and 2, if they are integers. The result is \<open>(fdTo, fdFrom)\<close>.
\<close>

type_synonym fd_action = "(int option \<times> int option) option"

definition xpio_getAction :: "fd_action list \<Rightarrow> nat \<Rightarrow> (int \<times> int) option" where
  "xpio_getAction actions indx =
     (if indx = 0 \<or> length actions < indx then None
      else (case actions ! (indx - 1) of
              None \<Rightarrow> None
            | Some (to, frm) \<Rightarrow>
                let fdTo = tointegerDefault to (-1); fdFrom = tointegerDefault frm (-1)
                in if fdTo \<noteq> -1 then Some (fdTo, fdFrom) else None))"

datatype child_call = SigprocmaskEmpty | Dup2 int int | SetNonBlocking int bool | CloseFd int
  | Execve string "string option list" "string option list" | Exit int

function child_actions :: "fd_action list \<Rightarrow> nat \<Rightarrow> child_call list" where
  "child_actions actions ndx =
     (case xpio_getAction actions ndx of
        None \<Rightarrow> []
      | Some (fdTo, fdFrom) \<Rightarrow>
          (if fdFrom \<ge> 0 then
             (if fdFrom \<noteq> fdTo then [Dup2 fdFrom fdTo] else []) @ [SetNonBlocking fdTo False]
           else [CloseFd fdTo]) @ child_actions actions (ndx + 1))"
  by pat_completeness auto
termination
  by (relation "measure (\<lambda>(actions, ndx). length actions + 1 - ndx)")
    (auto simp: xpio_getAction_def split: if_splits)

declare child_actions.simps [simp del]

text \<open>
  \<open>readStringArray\<close>: the strings up to the first entry that is not one (\<open>strdup\<close> of it fails or
  is not reached), and the \<open>NULL\<close>s of \<open>calloc\<close> after them.
\<close>

definition readStringArray :: "string option list \<Rightarrow> string option list" where
  "readStringArray strs =
     (let ok = takeWhile (\<lambda>s. s \<noteq> None) strs
      in map (map_option (takeWhile (\<lambda>c. c \<noteq> CHR 0x00))) ok @ replicate (length strs + 1 - length ok) None)"

text \<open>\<open>_spawn\<close> in the child: \<open>sig_ok\<close> is whether \<open>sigprocmask\<close> succeeds; \<open>execve\<close> returned.\<close>

definition spawn_child ::
  "bool \<Rightarrow> string \<Rightarrow> string option list \<Rightarrow> string option list \<Rightarrow> fd_action list \<Rightarrow> child_call list" where
  "spawn_child sig_ok path args envs actions =
     (if \<not> sig_ok then [SigprocmaskEmpty, Exit 127]
      else [SigprocmaskEmpty] @ child_actions actions 1 @
           [Execve path (readStringArray args) (readStringArray envs), Exit 127])"

text \<open>
  \<open>_spawn\<close> in the parent: \<open>forked\<close> is what \<open>fork\<close> returned there, \<open>-1\<close> on failure, and \<open>p\<close> the
  address of the new object.
\<close>

definition spawn_parent :: "int \<Rightarrow> nat \<Rightarrow> proc_state \<Rightarrow> proc_state \<times> lua_value list" where
  "spawn_parent forked p st =
     (let st1 = xpproc_new p st
      in (set_proc p ((proc_heap st1 p)\<lparr>pid := forked\<rparr>) st1, [LObject p]))"

section \<open>What reaping does\<close>

text \<open>The exits the loop of \<open>xpproc_reap\<close> learns of from a sequence of answers.\<close>

fun reaped :: "wait_answer list \<Rightarrow> (int \<times> int) list option" where
  "reaped [] = None"
| "reaped (Exited n code # ws) = (if n > 0 then map_option ((#) (n, code)) (reaped ws) else Some [])"
| "reaped (StillRunning # ws) = Some []"
| "reaped (WaitFailed e # ws) = (if e = EINTR then reaped ws else Some [])"

definition report :: "(int \<times> int) list \<Rightarrow> XPProc \<Rightarrow> XPProc" where
  "report exits v =
     (case map_of exits (pid v) of None \<Rightarrow> v | Some code \<Rightarrow> \<lparr>pid = 0, status = code\<rparr>)"

definition report_all :: "(int \<times> int) list \<Rightarrow> proc_state \<Rightarrow> proc_state" where
  "report_all exits st = st\<lparr>proc_heap := \<lambda>p.
     if p \<in> set (gpHeadProc st) then report exits (proc_heap st p) else proc_heap st p\<rparr>"

text \<open>No two listed objects stand for the same running process.\<close>

definition distinct_pids :: "proc_state \<Rightarrow> bool" where
  "distinct_pids st \<longleftrightarrow> distinct (gpHeadProc st) \<and>
     (\<forall>p \<in> set (gpHeadProc st). \<forall>q \<in> set (gpHeadProc st).
        pid (proc_heap st p) = pid (proc_heap st q) \<longrightarrow> pid (proc_heap st p) \<noteq> 0 \<longrightarrow> p = q)"

lemma proc_state_eqI:
  "proc_heap a = proc_heap b \<Longrightarrow> gpHeadProc a = gpHeadProc b \<Longrightarrow> a = (b :: proc_state)"
  by simp

lemma update_exited_list [simp]: "gpHeadProc (fst (update_exited n code ps st)) = gpHeadProc st"
  by (induction ps) (auto simp: set_proc_def)

lemma update_exited_heap:
  assumes "n \<noteq> 0"
    and "\<forall>p \<in> set ps. \<forall>q \<in> set ps. pid (proc_heap st p) = n \<longrightarrow> pid (proc_heap st q) = n \<longrightarrow> p = q"
  shows "proc_heap (fst (update_exited n code ps st)) =
      (\<lambda>p. if p \<in> set ps \<and> pid (proc_heap st p) = n then \<lparr>pid = 0, status = code\<rparr> else proc_heap st p)"
  using assms(2) by (induction ps) (auto simp: set_proc_def fun_eq_iff)

lemma update_exited_count:
  assumes "distinct ps"
    and "\<forall>p \<in> set ps. \<forall>q \<in> set ps. pid (proc_heap st p) = n \<longrightarrow> pid (proc_heap st q) = n \<longrightarrow> p = q"
  shows "snd (update_exited n code ps st) = length (filter (\<lambda>p. pid (proc_heap st p) = n) ps)"
  using assms by (induction ps) (auto simp: filter_empty_conv)

lemma update_exited_report:
  assumes "distinct_pids st" and "n \<noteq> 0"
  shows "fst (update_exited n code (gpHeadProc st) st) = report_all [(n, code)] st"
  using assms update_exited_heap [of n "gpHeadProc st" st code]
  by (intro proc_state_eqI) (auto simp: report_all_def report_def distinct_pids_def fun_eq_iff)

lemma distinct_pids_report_all:
  assumes "distinct_pids st"
  shows "distinct_pids (report_all exits st)"
proof -
  have "pid (report exits v) = (if pid v \<in> fst ` set exits then 0 else pid v)" for v
    by (auto simp: report_def split: option.splits simp: map_of_eq_None_iff intro: rev_image_eqI dest: map_of_SomeD)
  then show ?thesis using assms by (simp add: distinct_pids_def report_all_def)
qed

text \<open>Reporting one exit after the others is reporting them together.\<close>

lemma report_all_Cons:
  assumes "0 \<notin> fst ` set exits"
  shows "report_all exits (report_all [(n, code)] st) = report_all ((n, code) # exits) st"
proof -
  from assms have "map_of exits 0 = None" by (simp add: map_of_eq_None_iff)
  then show ?thesis
    by (intro proc_state_eqI) (auto simp: report_all_def report_def fun_eq_iff split: option.splits)
qed

lemma report_all_Nil [simp]: "report_all [] st = st"
  by (intro proc_state_eqI) (auto simp: report_all_def report_def)

lemma reaped_positive: "reaped ws = Some exits \<Longrightarrow> n \<in> fst ` set exits \<Longrightarrow> 0 < n"
proof (induction ws arbitrary: exits rule: reaped.induct)
  case (2 m code ws)
  then show ?case by (fastforce split: if_splits intro: rev_image_eqI)
qed (auto split: if_splits)

definition reported :: "(int \<times> int) list \<Rightarrow> proc_state \<Rightarrow> nat list" where
  "reported exits st = filter (\<lambda>p. pid (proc_heap st p) \<in> fst ` set exits) (gpHeadProc st)"

lemma length_filter_disj:
  "(\<And>x. \<not> (P x \<and> Q x)) \<Longrightarrow>
   length (filter (\<lambda>x. P x \<or> Q x) xs) = length (filter P xs) + length (filter Q xs)"
  by (induction xs) auto

lemma reported_Cons:
  assumes "0 \<notin> fst ` set exits" "n \<notin> fst ` set exits" "distinct_pids st" "n \<noteq> 0"
  shows "length (reported ((n, code) # exits) st) =
    snd (update_exited n code (gpHeadProc st) st) + length (reported exits (report_all [(n, code)] st))"
proof -
  have "snd (update_exited n code (gpHeadProc st) st) =
      length (filter (\<lambda>p. pid (proc_heap st p) = n) (gpHeadProc st))"
    using assms by (intro update_exited_count) (auto simp: distinct_pids_def)
  moreover have "reported exits (report_all [(n, code)] st) =
      filter (\<lambda>p. pid (proc_heap st p) \<in> fst ` set exits) (gpHeadProc st)"
    unfolding reported_def report_all_def using assms
    by (auto simp: report_def intro: filter_cong)
  ultimately show ?thesis
    using length_filter_disj [of "\<lambda>p. pid (proc_heap st p) = n"
        "\<lambda>p. pid (proc_heap st p) \<in> fst ` set exits" "gpHeadProc st"] assms
    by (auto simp: reported_def)
qed

lemma reap_children_report:
  assumes "distinct_pids st" and "reaped ws = Some exits" and "distinct (map fst exits)"
  shows "reap_children ws k st = Some (report_all exits st, k + length (reported exits st))"
  using assms
proof (induction ws k st arbitrary: exits rule: reap_children.induct)
  case (2 n code ws k st)
  show ?case
  proof (cases "n > 0")
    case True
    with "2.prems" obtain es where es: "reaped ws = Some es" "exits = (n, code) # es" by auto
    with reaped_positive [OF es(1)] have pos: "0 \<notin> fst ` set es" by force
    with "2.prems" es True have ne: "n \<notin> fst ` set es" "n \<noteq> 0" "distinct (map fst es)" by auto
    note upd = update_exited_report [OF "2.prems"(1) ne(2), of code]
    obtain st1 m where m: "update_exited n code (gpHeadProc st) st = (st1, m)" by fastforce
    with upd have st1: "st1 = report_all [(n, code)] st" by simp
    have "reap_children ws (k + m) st1
        = Some (report_all es st1, (k + m) + length (reported es st1))"
      using "2.IH" [OF True m [symmetric] refl _ es(1) ne(3)] distinct_pids_report_all [OF "2.prems"(1)]
      by (simp add: st1)
    then show ?thesis
      using True m report_all_Cons [OF pos, of n code st] reported_Cons [OF pos ne(1) "2.prems"(1) ne(2), of code]
      by (simp add: es st1)
  next
    case False
    with "2.prems" show ?thesis by (auto simp: reported_def)
  qed
qed (auto simp: reported_def split: if_splits)

text \<open>The status macros of Linux: the low seven bits are the signal, the next byte the exit code.\<close>

definition linux_macros :: wait_macros where
  "linux_macros = \<lparr>
     WIFEXITED = (\<lambda>s. s mod 128 = 0),
     WEXITSTATUS = (\<lambda>s. s div 256 mod 256),
     WIFSIGNALED = (\<lambda>s. 0 < s mod 128 \<and> s mod 128 < 127),
     WSTOPSIG = (\<lambda>s. s div 256 mod 256)\<rparr>"

section \<open>Process objects and the children of the process\<close>

text \<open>
  The module together with the set of children the system keeps for it, running or not yet waited
  for. A step is an operation of the module that changes the list of objects or sends a signal; its
  label lists the signals. \<open>fork\<close> returns the number of a new child, \<open>waitpid\<close> numbers of children
  it forgets.
\<close>

definition proc_start :: "proc_state \<times> int set" where
  "proc_start = (\<lparr>proc_heap = \<lambda>_. \<lparr>pid = 0, status = 0\<rparr>, gpHeadProc = []\<rparr>, {})"

inductive proc_step :: "proc_state \<times> int set \<Rightarrow> kill_call list \<Rightarrow> proc_state \<times> int set \<Rightarrow> bool" where
  step_spawn: "0 < n \<Longrightarrow> n \<notin> kids \<Longrightarrow> p \<notin> set (gpHeadProc st) \<Longrightarrow>
    proc_step (st, kids) [] (fst (spawn_parent n p st), insert n kids)"
| step_dtor: "p \<in> set (gpHeadProc st) \<Longrightarrow> xpproc_dtor p st = (st1, kills) \<Longrightarrow>
    proc_step (st, kids) kills (st1, kids)"
| step_kill: "p \<in> set (gpHeadProc st) \<Longrightarrow> xpproc_kill strerror kill p st = (res, kills) \<Longrightarrow>
    proc_step (st, kids) kills (st, kids)"
| step_idle: "drain_pipe reads False = Some (False, rest) \<Longrightarrow> xpproc_reap reads ws st = Some (st1, k) \<Longrightarrow>
    proc_step (st, kids) [] (st1, kids)"
| step_reap: "drain_pipe reads False = Some (True, rest) \<Longrightarrow> reaped ws = Some exits \<Longrightarrow>
    distinct (map fst exits) \<Longrightarrow> fst ` set exits \<subseteq> kids \<Longrightarrow> xpproc_reap reads ws st = Some (st1, k) \<Longrightarrow>
    proc_step (st, kids) [] (st1, kids - fst ` set exits)"

inductive_cases proc_stepE: "proc_step s out s1"

definition proc_inv :: "proc_state \<times> int set \<Rightarrow> bool" where
  "proc_inv s \<longleftrightarrow> (case s of (st, kids) \<Rightarrow>
     distinct_pids st \<and> (\<forall>n \<in> kids. 0 < n) \<and>
     (\<forall>p \<in> set (gpHeadProc st). pid (proc_heap st p) = 0 \<or> pid (proc_heap st p) \<in> kids))"

definition kills_children :: "proc_state \<times> int set \<Rightarrow> kill_call list \<Rightarrow> bool" where
  "kills_children s out \<longleftrightarrow> (\<forall>n. Kill n \<in> set out \<longrightarrow> 0 < n \<and> n \<in> snd s)"

lemma SLL_DEQUEUE_remove1: "SLL_DEQUEUE p qs = remove1 p qs"
  by (induction qs) auto

lemma pid_report: "pid (report exits v) = (if pid v \<in> fst ` set exits then 0 else pid v)"
  by (auto simp: report_def map_of_eq_None_iff split: option.splits intro: rev_image_eqI dest: map_of_SomeD)

lemma reap_idle_state: "drain_pipe reads False = Some (False, rest) \<Longrightarrow> xpproc_reap reads ws st = Some (st, 0)"
  by (simp add: xpproc_reap_def)

lemma reap_report:
  "drain_pipe reads False = Some (True, rest) \<Longrightarrow> distinct_pids st \<Longrightarrow> reaped ws = Some exits \<Longrightarrow>
   distinct (map fst exits) \<Longrightarrow>
   xpproc_reap reads ws st = Some (report_all exits st, length (reported exits st))"
  by (simp add: xpproc_reap_def reap_children_report)

interpretation procs: machine proc_step proc_inv kills_children
proof unfold_locales
  fix s out s1
  assume inv: "proc_inv s" and step: "proc_step s out s1"
  from step inv show "proc_inv s1"
  proof (cases rule: proc_step.cases)
    case (step_spawn n kids p st)
    then show ?thesis using inv
      by (auto simp: proc_inv_def distinct_pids_def spawn_parent_def xpproc_new_def set_proc_def)
  next
    case (step_dtor p st st1 kids)
    then show ?thesis using inv
      by (auto simp: proc_inv_def distinct_pids_def xpproc_dtor_def set_proc_def SLL_DEQUEUE_remove1
          Let_def split: if_splits)
  next
    case (step_idle reads rest ws st st1 k kids)
    then show ?thesis using inv by (simp add: reap_idle_state)
  next
    case (step_reap reads rest ws exits kids st st1 k)
    with inv have "st1 = report_all exits st" by (simp add: proc_inv_def reap_report)
    with step_reap inv distinct_pids_report_all show ?thesis
      by (auto simp: proc_inv_def report_all_def pid_report)
  qed simp
  from step inv show "kills_children s out"
    by (cases rule: proc_step.cases)
      (auto simp: proc_inv_def kills_children_def xpproc_dtor_def xpproc_kill_def SLL_DEQUEUE_remove1
        Let_def split: if_splits option.splits)
qed

lemma proc_start_inv: "proc_inv proc_start"
  by (simp add: proc_inv_def proc_start_def distinct_pids_def)

text \<open>Creating a child action list: the calls each entry of the array stands for.\<close>

definition action_calls :: "int \<times> int \<Rightarrow> child_call list" where
  "action_calls a = (case a of (fdTo, fdFrom) \<Rightarrow>
     if fdFrom < 0 then [CloseFd fdTo]
     else if fdFrom = fdTo then [SetNonBlocking fdTo False]
     else [Dup2 fdFrom fdTo, SetNonBlocking fdTo False])"

definition action_pair :: "fd_action \<Rightarrow> (int \<times> int) option" where
  "action_pair a = (case a of
       Some (Some to, frm) \<Rightarrow>
         if to_int to = -1 then None
         else Some (to_int to, case frm of None \<Rightarrow> -1 | Some f \<Rightarrow> to_int f)
     | _ \<Rightarrow> None)"

lemma getAction_pair:
  "ndx < length actions \<Longrightarrow> xpio_getAction actions (Suc ndx) = action_pair (actions ! ndx)"
  by (auto simp: xpio_getAction_def action_pair_def tointegerDefault_def split: option.splits)

lemma child_actions_drop:
  "child_actions actions (Suc ndx) =
     concat (map (action_calls \<circ> the) (takeWhile (\<lambda>a. a \<noteq> None) (map action_pair (drop ndx actions))))"
proof (induction "length actions - ndx" arbitrary: ndx)
  case 0
  then show ?case by (subst child_actions.simps) (simp add: xpio_getAction_def)
next
  case (Suc n)
  then have ndx: "ndx < length actions" by simp
  then have split: "drop ndx actions = actions ! ndx # drop (Suc ndx) actions"
    by (simp add: Cons_nth_drop_Suc)
  have "child_actions actions (Suc (Suc ndx)) =
     concat (map (action_calls \<circ> the) (takeWhile (\<lambda>a. a \<noteq> None) (map action_pair (drop (Suc ndx) actions))))"
    using Suc by simp
  then show ?case unfolding split using ndx
    by (subst child_actions.simps) (auto simp: getAction_pair action_calls_def split: option.splits)
qed

section \<open>Properties\<close>

text \<open>C4: the module sends \<open>SIGKILL\<close> only to children of its own that have not been waited for:
  whatever process objects are created, killed, collected and reaped, in any order, as long as
  \<open>fork\<close> succeeds; a number the system may have given to another process is never used.\<close>

theorem only_own_children_killed:
  assumes "reaches proc_step proc_start (st, kids)" and "proc_step (st, kids) out s1" and "Kill n \<in> set out"
  shows "0 < n \<and> n \<in> kids"
  using procs.good_reached [OF assms(1) proc_start_inv assms(2)] assms(3) by (simp add: kills_children_def)

theorem only_own_children_killed_witness:
  "(0 :: int) < 7 \<and> (7 :: int) \<in> {7}"
proof -
  let ?st = "fst (spawn_parent 7 0 (fst proc_start))"
  have "reaches proc_step proc_start (?st, {7})"
    using reaches_step [where step = proc_step, OF reaches_refl
        step_spawn [of 7 "{}" 0 "fst proc_start"]]
    by (simp add: proc_start_def)
  moreover have "proc_step (?st, {7}) [Kill 7] (fst (xpproc_dtor 0 ?st), {7})"
    by (rule step_dtor [of 0])
      (simp_all add: proc_start_def spawn_parent_def xpproc_new_def set_proc_def xpproc_dtor_def Let_def)
  ultimately show ?thesis by (rule only_own_children_killed) simp
qed

text \<open>C7: one call of \<open>xpproc_reap\<close> after a signal handles every child the system reports, in one
  loop that also passes interrupted calls: each listed object whose process is among them becomes
  exited with the status reported for it, all other objects keep their fields, and the result is the
  number of objects changed.\<close>

theorem reap_handles_all:
  assumes "distinct_pids st" and "drain_pipe reads False = Some (True, rest)"
    and "reaped ws = Some exits" and "distinct (map fst exits)"
  shows "\<exists>st1. xpproc_reap reads ws st = Some (st1, length (reported exits st)) \<and>
     gpHeadProc st1 = gpHeadProc st \<and>
     (\<forall>p. proc_heap st1 p =
        (case map_of exits (pid (proc_heap st p)) of
           Some code \<Rightarrow> if p \<in> set (gpHeadProc st) then \<lparr>pid = 0, status = code\<rparr> else proc_heap st p
         | None \<Rightarrow> proc_heap st p))"
  using assms by (auto simp: reap_report report_all_def report_def split: option.splits)

definition two_procs :: proc_state where
  "two_procs = \<lparr>proc_heap = (\<lambda>p. if p = 1 then \<lparr>pid = 41, status = 0\<rparr> else \<lparr>pid = 42, status = 0\<rparr>),
     gpHeadProc = [2, 1]\<rparr>"

theorem reap_handles_all_witness:
  "\<exists>st1. xpproc_reap [1, -1] [WaitFailed EINTR, Exited 41 256, Exited 42 0, StillRunning] two_procs = Some (st1, 2) \<and>
     proc_heap st1 1 = \<lparr>pid = 0, status = 256\<rparr>"
proof -
  have "distinct_pids two_procs" by (simp add: distinct_pids_def two_procs_def)
  from reap_handles_all [OF this, of "[1, -1]" "[-1]" "[WaitFailed EINTR, Exited 41 256, Exited 42 0, StillRunning]"
      "[(41, 256), (42, 0)]"]
  obtain st1 where "xpproc_reap [1, -1] [WaitFailed EINTR, Exited 41 256, Exited 42 0, StillRunning] two_procs
      = Some (st1, length (reported [(41, 256), (42, 0)] two_procs))"
    and heap: "\<forall>p. proc_heap st1 p =
      (case map_of [(41, 256), (42, 0)] (pid (proc_heap two_procs p)) of
         Some code \<Rightarrow> if p \<in> set (gpHeadProc two_procs) then \<lparr>pid = 0, status = code\<rparr> else proc_heap two_procs p
       | None \<Rightarrow> proc_heap two_procs p)"
    by auto
  moreover have "length (reported [(41, 256), (42, 0)] two_procs) = 2"
    by (simp add: two_procs_def reported_def)
  moreover have "proc_heap st1 1 = \<lparr>pid = 0, status = 256\<rparr>"
    using heap by (simp add: two_procs_def)
  ultimately show ?thesis by metis
qed

text \<open>what \<open>process:wait\<close> delivers. While the child runs, \<open>try_wait\<close> asks for a retry; once a call
  of \<open>xpproc_reap\<close> has been told that it ended with exit code \<open>c\<close>, \<open>try_wait\<close> returns
  \<open>"exit", c\<close>; and it still asks for a retry when only others were reported.\<close>

theorem exit_code_delivered:
  assumes "distinct_pids st" and "p \<in> set (gpHeadProc st)" and "0 < pid (proc_heap st p)"
    and "drain_pipe reads False = Some (True, rest)"
    and "reaped ws = Some exits" and "distinct (map fst exits)"
    and "map_of exits (pid (proc_heap st p)) = map_option (\<lambda>c. 256 * c) code"
    and "\<forall>c. code = Some c \<longrightarrow> 0 \<le> c \<and> c < 256"
  shows "xpproc_try_wait linux_macros p st = [LNil, LString ''retry''] \<and>
    map_option (\<lambda>(st1, k). xpproc_try_wait linux_macros p st1) (xpproc_reap reads ws st) =
      Some (case code of None \<Rightarrow> [LNil, LString ''retry''] | Some c \<Rightarrow> [LString ''exit'', LInteger c])"
proof
  show "xpproc_try_wait linux_macros p st = [LNil, LString ''retry'']"
    using assms(3) by (simp add: xpproc_try_wait_def Let_def)
  have "xpproc_reap reads ws st = Some (report_all exits st, length (reported exits st))"
    using assms by (intro reap_report)
  then show "map_option (\<lambda>(st1, k). xpproc_try_wait linux_macros p st1) (xpproc_reap reads ws st) =
      Some (case code of None \<Rightarrow> [LNil, LString ''retry''] | Some c \<Rightarrow> [LString ''exit'', LInteger c])"
    using assms by (cases code)
      (auto simp: xpproc_try_wait_def Let_def report_all_def report_def linux_macros_def)
qed

theorem exit_code_delivered_witness:
  "xpproc_try_wait linux_macros 1 two_procs = [LNil, LString ''retry''] \<and>
   map_option (\<lambda>(st1, k). xpproc_try_wait linux_macros 1 st1) (xpproc_reap [1] [Exited 41 768, StillRunning] two_procs) =
     Some [LString ''exit'', LInteger 3]"
proof -
  have "distinct_pids two_procs" by (simp add: distinct_pids_def two_procs_def)
  from exit_code_delivered [OF this, of 1 "[1]" "[]" "[Exited 41 768, StillRunning]" "[(41, 768)]" "Some 3"]
  show ?thesis by (simp add: two_procs_def)
qed

text \<open>a child killed by a signal is reported with the wrong number: \<open>try_wait\<close> reads it with
  \<open>WSTOPSIG\<close>, so for every fatal signal the answer is \<open>"signal", 0\<close>, with or without a core dump.\<close>

theorem fatal_signal_reported_as_0:
  assumes "0 < sig" and "sig < 127" and "core = 0 \<or> core = 128"
    and "proc_heap st p = \<lparr>pid = 0, status = core + sig\<rparr>"
  shows "xpproc_try_wait linux_macros p st = [LString ''signal'', LInteger 0]"
  using assms by (auto simp: xpproc_try_wait_def Let_def linux_macros_def)

theorem fatal_signal_reported_as_0_witness:
  "xpproc_try_wait linux_macros 0 \<lparr>proc_heap = \<lambda>_. \<lparr>pid = 0, status = 0 + 9\<rparr>, gpHeadProc = [0]\<rparr>
     = [LString ''signal'', LInteger 0]"
  by (rule fatal_signal_reported_as_0 [of 9 0]) simp_all

text \<open>when \<open>fork\<close> fails, \<open>_spawn\<close> still returns a process object. Its \<open>try_wait\<close> reports that the
  program exited with code 0, no sequence of exits reaped later changes that, and collecting the
  object calls \<open>kill(-1, SIGKILL)\<close>, which signals every process the user may signal.\<close>

theorem failed_fork_object:
  "snd (spawn_parent (-1) p st) = [LObject p] \<and>
   xpproc_try_wait linux_macros p (fst (spawn_parent (-1) p st)) = [LString ''exit'', LInteger 0] \<and>
   snd (xpproc_dtor p (fst (spawn_parent (-1) p st))) = [Kill (-1)]"
  by (simp add: spawn_parent_def xpproc_new_def set_proc_def xpproc_try_wait_def linux_macros_def
      xpproc_dtor_def Let_def)

text \<open>the child executes the file actions in the order of the array, each entry as its own calls,
  up to the first entry that names no target descriptor, then \<open>execve\<close> with \<open>NULL\<close>-terminated
  argument and environment vectors; it ends in \<open>exit(127)\<close> when that returns.\<close>

theorem child_runs_actions:
  "spawn_child True path args envs actions =
     SigprocmaskEmpty #
     concat (map (action_calls \<circ> the) (takeWhile (\<lambda>a. a \<noteq> None) (map action_pair actions))) @
     [Execve path (readStringArray args) (readStringArray envs), Exit 127] \<and>
   last (readStringArray args) = None \<and> last (readStringArray envs) = None"
proof -
  have "last (readStringArray xs) = None" for xs
  proof -
    have "length (takeWhile (\<lambda>s. s \<noteq> None) xs) < length xs + 1"
      using length_takeWhile_le [of "\<lambda>s. s \<noteq> None" xs] by linarith
    then show ?thesis by (simp add: readStringArray_def Let_def last_append)
  qed
  then show ?thesis using child_actions_drop [of actions 0] by (simp add: spawn_child_def)
qed

end
