(* ===== verification/XpioQueue.thy ===== *)
theory XpioQueue
  imports XpioProc "HOL-Library.AList"
begin

text \<open>
  The task queue (\<open>XPQueue\<close> in \<open>luau/xpio_c.c\<close>). Tasks are Lua tables, named by a natural number,
  of which the code reads and writes three fields. A queue keeps three Lua tables, for readers,
  writers and child waiters. A Lua table is an association list: \<open>lua_next\<close> visits its entries in
  list order, and a theorem about any list covers any order Lua may use. Keys are file descriptors
  or, for child waiters, process objects. A thrown Lua error is \<open>Inl\<close>, with the fixed part of its
  message. The state an error leaves is not in the result: in the code, child waiters that
  \<open>xpqueue_wait\<close> had moved to its list of ready tasks before \<open>poll\<close> failed stay out of the queue.
\<close>

section \<open>State\<close>

datatype qmode = READ | WRITE | CHILD

datatype qkey = Fd int | Proc nat

record task =
  t_queue :: "nat option"
  t_dequeue :: "qmode option"
  t_dequeuedata :: "qkey option"

datatype pflag = POLLIN | POLLOUT | POLLERR | POLLHUP | POLLNVAL

record pollfd =
  pfd_fd :: int
  events :: "pflag set"
  revents :: "pflag set"

type_synonym waiters = "(qkey \<times> nat) list"

record xpqueue =
  readers :: waiters
  writers :: waiters
  children :: waiters
  pfds :: "pollfd list"

record xpio_state =
  tasks :: "nat \<Rightarrow> task"
  queues :: "nat \<Rightarrow> xpqueue"
  procs :: proc_state

definition zero_pfd :: pollfd where
  "zero_pfd = \<lparr>pfd_fd = 0, events = {}, revents = {}\<rparr>"

fun table_of :: "qmode \<Rightarrow> xpqueue \<Rightarrow> waiters" where
  "table_of READ q = readers q"
| "table_of WRITE q = writers q"
| "table_of CHILD q = children q"

fun set_table :: "qmode \<Rightarrow> waiters \<Rightarrow> xpqueue \<Rightarrow> xpqueue" where
  "set_table READ w q = q\<lparr>readers := w\<rparr>"
| "set_table WRITE w q = q\<lparr>writers := w\<rparr>"
| "set_table CHILD w q = q\<lparr>children := w\<rparr>"

definition upd_queue :: "nat \<Rightarrow> xpqueue \<Rightarrow> xpio_state \<Rightarrow> xpio_state" where
  "upd_queue qi q s = s\<lparr>queues := (queues s)(qi := q)\<rparr>"

definition upd_task :: "nat \<Rightarrow> task \<Rightarrow> xpio_state \<Rightarrow> xpio_state" where
  "upd_task t v s = s\<lparr>tasks := (tasks s)(t := v)\<rparr>"

definition upd_table :: "nat \<Rightarrow> qmode \<Rightarrow> waiters \<Rightarrow> xpio_state \<Rightarrow> xpio_state" where
  "upd_table qi m w s = upd_queue qi (set_table m w (queues s qi)) s"

text \<open>\<open>task._dequeue = nil\<close>\<close>

definition clear_dequeue :: "nat \<Rightarrow> xpio_state \<Rightarrow> xpio_state" where
  "clear_dequeue t s = upd_task t ((tasks s t)\<lparr>t_dequeue := None\<rparr>) s"

section \<open>Registering and removing tasks\<close>

text \<open>\<open>xpio.tqueue()\<close>: a fresh queue at \<open>qi\<close>.\<close>

definition xpio_tqueue :: "nat \<Rightarrow> xpio_state \<Rightarrow> xpio_state" where
  "xpio_tqueue qi s = upd_queue qi \<lparr>readers = [], writers = [], children = [], pfds = []\<rparr> s"

text \<open>\<open>xpqueue_tableFromTask\<close>: the queue of a task, or the error of the cast.\<close>

definition xpqueue_tableFromTask :: "nat \<Rightarrow> xpio_state \<Rightarrow> lua_error + nat" where
  "xpqueue_tableFromTask t s =
     (case t_queue (tasks s t) of
        None \<Rightarrow> Inl (LuaError ''XPQueue object expected'')
      | Some qi \<Rightarrow> Inr qi)"

definition xpqueue_dequeue :: "nat \<Rightarrow> qmode \<Rightarrow> xpio_state \<Rightarrow> lua_error + xpio_state" where
  "xpqueue_dequeue t mode s =
     (case xpqueue_tableFromTask t s of
        Inl e \<Rightarrow> Inl e
      | Inr qi \<Rightarrow>
          (case t_dequeuedata (tasks s t) of
             None \<Rightarrow> Inl (LuaError ''table index is nil'')
           | Some key \<Rightarrow>
               Inr (clear_dequeue t
                     (upd_table qi mode (AList.delete key (table_of mode (queues s qi))) s))))"

text \<open>\<open>task:_dequeue()\<close> runs the function the field holds, one of \<open>xpqueue_dequeueR/W/C\<close>.\<close>

definition call_dequeue :: "nat \<Rightarrow> xpio_state \<Rightarrow> lua_error + xpio_state" where
  "call_dequeue t s =
     (case t_dequeue (tasks s t) of
        None \<Rightarrow> Inl (LuaError ''attempt to call a nil value'')
      | Some mode \<Rightarrow> xpqueue_dequeue t mode s)"

definition xpqueue_enqueue :: "nat \<Rightarrow> qkey \<Rightarrow> qmode \<Rightarrow> xpio_state \<Rightarrow> lua_error + xpio_state" where
  "xpqueue_enqueue t key mode s =
     (if t_dequeue (tasks s t) \<noteq> None then Inl (LuaError ''xpio: task scheduled twice'')
      else (case xpqueue_tableFromTask t s of
              Inl e \<Rightarrow> Inl e
            | Inr qi \<Rightarrow>
                let s1 = upd_table qi mode (AList.update key t (table_of mode (queues s qi))) s
                in Inr (upd_task t ((tasks s1 t)\<lparr>t_dequeue := Some mode, t_dequeuedata := Some key\<rparr>) s1)))"

definition xpproc_when_wait :: "nat \<Rightarrow> nat \<Rightarrow> xpio_state \<Rightarrow> lua_error + xpio_state" where
  "xpproc_when_wait p t s = xpqueue_enqueue t (Proc p) CHILD s"

definition xpsocket_when_read :: "int \<Rightarrow> nat \<Rightarrow> xpio_state \<Rightarrow> lua_error + xpio_state" where
  "xpsocket_when_read fd t s = xpqueue_enqueue t (Fd fd) READ s"

definition xpsocket_when_write :: "int \<Rightarrow> nat \<Rightarrow> xpio_state \<Rightarrow> lua_error + xpio_state" where
  "xpsocket_when_write fd t s = xpqueue_enqueue t (Fd fd) WRITE s"

definition xpqueue_isEmpty :: "nat \<Rightarrow> xpio_state \<Rightarrow> bool" where
  "xpqueue_isEmpty qi s = list_all (\<lambda>m. table_of m (queues s qi) = []) [READ, WRITE, CHILD]"

definition xpqueue_dtor :: "nat \<Rightarrow> xpio_state \<Rightarrow> xpio_state" where
  "xpqueue_dtor qi s = upd_queue qi ((queues s qi)\<lparr>pfds := []\<rparr>) s"

section \<open>Waking tasks\<close>

definition ready_in :: "pollfd \<Rightarrow> bool" where
  "ready_in pfd \<longleftrightarrow> POLLIN \<in> events pfd \<and> revents pfd \<inter> {POLLIN, POLLERR, POLLHUP, POLLNVAL} \<noteq> {}"

definition ready_out :: "pollfd \<Rightarrow> bool" where
  "ready_out pfd \<longleftrightarrow> POLLOUT \<in> events pfd \<and> revents pfd \<inter> {POLLOUT, POLLERR, POLLHUP, POLLNVAL} \<noteq> {}"

text \<open>
  Move the task waiting for \<open>fd\<close> in one table to the ready list. Indexing a missing entry gives
  \<open>nil\<close>, and setting a field of it throws.
\<close>

definition wake_one :: "nat \<Rightarrow> qmode \<Rightarrow> int \<Rightarrow> nat list \<times> xpio_state \<Rightarrow> lua_error + nat list \<times> xpio_state" where
  "wake_one qi mode fd rs =
     (case rs of (ready, s) \<Rightarrow>
        (case map_of (table_of mode (queues s qi)) (Fd fd) of
           None \<Rightarrow> Inl (LuaError ''attempt to index a nil value'')
         | Some t \<Rightarrow>
             Inr (ready @ [t],
                  upd_table qi mode (AList.delete (Fd fd) (table_of mode (queues s qi)))
                    (clear_dequeue t s))))"

fun XPQueue_wakeSockets ::
  "nat \<Rightarrow> pollfd list \<Rightarrow> nat list \<times> xpio_state \<Rightarrow> lua_error + nat list \<times> xpio_state" where
  "XPQueue_wakeSockets qi [] rs = Inr rs"
| "XPQueue_wakeSockets qi (pfd # rest) rs =
     (case (if ready_in pfd then wake_one qi READ (pfd_fd pfd) rs else Inr rs) of
        Inl e \<Rightarrow> Inl e
      | Inr rs1 \<Rightarrow>
          (case (if ready_out pfd then wake_one qi WRITE (pfd_fd pfd) rs1 else Inr rs1) of
             Inl e \<Rightarrow> Inl e
           | Inr rs2 \<Rightarrow> XPQueue_wakeSockets qi rest rs2))"

text \<open>
  \<open>XPQueue_wakeChildWaiters\<close>: visit every waiter; the count is \<open>numWaiting\<close>. The code clears
  entries while it traverses, which leaves the rest of the traversal as it was.
\<close>

fun xpqueue_exited :: "xpio_state \<Rightarrow> qkey \<Rightarrow> bool" where
  "xpqueue_exited s (Proc p) = xpproc_isExited (procs s) p"
| "xpqueue_exited s (Fd fd) = False"

fun wake_children :: "nat \<Rightarrow> waiters \<Rightarrow> nat list \<times> xpio_state \<Rightarrow> nat \<Rightarrow> (nat list \<times> xpio_state) \<times> nat" where
  "wake_children qi [] rs numWaiting = (rs, numWaiting)"
| "wake_children qi ((key, t) # rest) rs numWaiting =
     (case rs of (ready, s) \<Rightarrow>
        if xpqueue_exited s key then
          wake_children qi rest
            (ready @ [t],
             upd_table qi CHILD (AList.delete key (children (queues s qi))) (clear_dequeue t s))
            numWaiting
        else wake_children qi rest rs (numWaiting + 1))"

definition XPQueue_wakeChildWaiters ::
  "nat \<Rightarrow> nat list \<times> xpio_state \<Rightarrow> (nat list \<times> xpio_state) \<times> nat" where
  "XPQueue_wakeChildWaiters qi rs = wake_children qi (children (queues (snd rs) qi)) rs 0"

section \<open>Waiting\<close>

definition XPQueue_ensureFDs :: "bool \<Rightarrow> pollfd list \<Rightarrow> nat \<Rightarrow> lua_error + pollfd list" where
  "XPQueue_ensureFDs malloc_ok ps ndx =
     (let ps1 = growArray malloc_ok zero_pfd ps (ndx + 1)
      in if length ps1 \<le> ndx then Inl (LuaError ''xpio: allocation failure'') else Inr ps1)"

text \<open>
  \<open>timeout\<close> of \<open>poll\<close> in milliseconds: \<open>None\<close> stands for \<open>nil\<close> or \<open>false\<close>, and the number given
  is the product with 1000.0 as the C compiler rounds it.
\<close>

definition INT_MAX :: int where
  "INT_MAX = 2 ^ 31 - 1"

fun c_less_0 :: "c_double \<Rightarrow> bool" where
  "c_less_0 (Finite r) = (r < 0)"
| "c_less_0 PosInf = False"
| "c_less_0 NegInf = True"
| "c_less_0 NaN = False"

fun poll_timeout :: "c_double option \<Rightarrow> int" where
  "poll_timeout None = -1"
| "poll_timeout (Some num) =
     (if c_less_0 num then 0
      else if c_greater num (of_int INT_MAX) then INT_MAX
      else (case num of Finite r \<Rightarrow> \<lfloor>r\<rfloor> | _ \<Rightarrow> - (2 ^ 31)))"

text \<open>
  The slots: \<open>slots\<close> maps a reader's descriptor to its index. Entries of the tables are visited in
  order; \<open>used\<close> is \<open>nfdsUsed\<close>.
\<close>

record slot_state =
  sl_pfds :: "pollfd list"
  sl_used :: nat
  sl_slots :: "(int \<times> nat) list"

definition alloc_slot :: "bool \<Rightarrow> int \<Rightarrow> pflag \<Rightarrow> slot_state \<Rightarrow> lua_error + slot_state" where
  "alloc_slot malloc_ok fd flag sl =
     (case XPQueue_ensureFDs malloc_ok (sl_pfds sl) (sl_used sl) of
        Inl e \<Rightarrow> Inl e
      | Inr ps \<Rightarrow>
          Inr (sl\<lparr>sl_pfds := ps[sl_used sl := (ps ! sl_used sl)\<lparr>pfd_fd := fd, events := {flag}\<rparr>],
                  sl_used := sl_used sl + 1\<rparr>))"

fun add_reader :: "bool \<Rightarrow> qkey \<times> nat \<Rightarrow> slot_state \<Rightarrow> lua_error + slot_state" where
  "add_reader malloc_ok (Fd fd, t) sl =
     (case alloc_slot malloc_ok fd POLLIN sl of
        Inl e \<Rightarrow> Inl e
      | Inr sl1 \<Rightarrow> Inr (sl1\<lparr>sl_slots := AList.update fd (sl_used sl) (sl_slots sl1)\<rparr>))"
| "add_reader malloc_ok (Proc p, t) sl = Inl (LuaError ''not a descriptor'')"

fun add_writer :: "bool \<Rightarrow> qkey \<times> nat \<Rightarrow> slot_state \<Rightarrow> lua_error + slot_state" where
  "add_writer malloc_ok (Fd fd, t) sl =
     (case map_of (sl_slots sl) fd of
        None \<Rightarrow> alloc_slot malloc_ok fd POLLOUT sl
      | Some ndxFD \<Rightarrow>
          (let e = sl_pfds sl ! ndxFD
           in Inr (sl\<lparr>sl_pfds := (sl_pfds sl)[ndxFD := e\<lparr>events := insert POLLOUT (events e)\<rparr>]\<rparr>)))"
| "add_writer malloc_ok (Proc p, t) sl = Inl (LuaError ''not a descriptor'')"

fun add_all :: "(qkey \<times> nat \<Rightarrow> slot_state \<Rightarrow> lua_error + slot_state) \<Rightarrow> waiters \<Rightarrow> slot_state \<Rightarrow> lua_error + slot_state" where
  "add_all f [] sl = Inr sl"
| "add_all f (e # es) sl = (case f e sl of Inl x \<Rightarrow> Inl x | Inr sl1 \<Rightarrow> add_all f es sl1)"

definition build_pfds :: "bool \<Rightarrow> xpqueue \<Rightarrow> lua_error + slot_state" where
  "build_pfds malloc_ok q =
     (case add_all (add_reader malloc_ok) (readers q)
             \<lparr>sl_pfds = pfds q, sl_used = 0, sl_slots = []\<rparr> of
        Inl e \<Rightarrow> Inl e
      | Inr sl \<Rightarrow> add_all (add_writer malloc_ok) (writers q) sl)"

text \<open>
  The system's side of one call of \<open>wait\<close>: whether memory is available, \<open>sigchldPipe[0]\<close>, the
  answers of \<open>poll\<close> (\<open>Inl\<close> an error, else the \<open>revents\<close> of each slot), and the answers
  \<open>xpproc_reap\<close> gets.
\<close>

record wait_env =
  malloc_ok :: bool
  sigPipe :: int
  poll_answers :: "(errno + (nat \<Rightarrow> pflag set)) list"
  reap_reads :: "int list"
  reap_waits :: "wait_answer list"

fun poll_loop :: "(errno + (nat \<Rightarrow> pflag set)) list \<Rightarrow> (errno + (nat \<Rightarrow> pflag set)) option" where
  "poll_loop [] = None"
| "poll_loop (Inl e # as) = (if e = EINTR then poll_loop as else Some (Inl e))"
| "poll_loop (Inr f # as) = Some (Inr f)"

definition set_revents :: "nat \<Rightarrow> (nat \<Rightarrow> pflag set) \<Rightarrow> pollfd list \<Rightarrow> pollfd list" where
  "set_revents n f ps = map (\<lambda>i. if i < n then (ps ! i)\<lparr>revents := f i\<rparr> else ps ! i) [0..<length ps]"

text \<open>What \<open>wait\<close> returns: \<open>nil\<close>, or the array of ready tasks, with the timeout given to \<open>poll\<close>.\<close>

datatype wait_result = NothingToWaitOn | Ready "nat list" int

text \<open>The last part: after \<open>poll\<close> answered.\<close>

definition wait_wake ::
  "wait_env \<Rightarrow> nat \<Rightarrow> bool \<Rightarrow> nat \<Rightarrow> int \<Rightarrow> nat list \<times> xpio_state \<Rightarrow> (lua_error + wait_result \<times> xpio_state) option"
where
  "wait_wake env qi waiting used timeout rs =
     (let ps = pfds (queues (snd rs) qi)
      in (case XPQueue_wakeSockets qi (take (used - (if waiting then 1 else 0)) ps) rs of
            Inl e \<Rightarrow> Some (Inl e)
          | Inr (ready, s) \<Rightarrow>
              if waiting \<and> revents (ps ! (used - 1)) \<inter> {POLLIN, POLLERR, POLLHUP, POLLNVAL} \<noteq> {} then
                (case xpproc_reap (reap_reads env) (reap_waits env) (procs s) of
                   None \<Rightarrow> None
                 | Some (ps1, n) \<Rightarrow>
                     (let s1 = s\<lparr>procs := ps1\<rparr>
                      in if n \<noteq> 0 then
                           (let ((ready2, s2), _) = XPQueue_wakeChildWaiters qi (ready, s1)
                            in Some (Inr (Ready ready2 timeout, s2)))
                         else Some (Inr (Ready ready timeout, s1))))
              else Some (Inr (Ready ready timeout, s))))"

definition xpqueue_wait ::
  "wait_env \<Rightarrow> nat \<Rightarrow> c_double option \<Rightarrow> xpio_state \<Rightarrow> (lua_error + wait_result \<times> xpio_state) option" where
  "xpqueue_wait env qi arg s =
     (case build_pfds (malloc_ok env) (queues s qi) of
        Inl e \<Rightarrow> Some (Inl e)
      | Inr sl \<Rightarrow>
          (let ((ready, s1), numChildWaiters) = XPQueue_wakeChildWaiters qi ([], s);
               timeout = (if ready \<noteq> [] then 0 else poll_timeout arg)
           in (case (if numChildWaiters \<noteq> 0 then alloc_slot (malloc_ok env) (sigPipe env) POLLIN sl else Inr sl) of
                 Inl e \<Rightarrow> Some (Inl e)
               | Inr sl1 \<Rightarrow>
                   if timeout = -1 \<and> sl_used sl1 = 0 then
                     Some (Inr (NothingToWaitOn, upd_queue qi ((queues s1 qi)\<lparr>pfds := sl_pfds sl1\<rparr>) s1))
                   else (case poll_loop (poll_answers env) of
                           None \<Rightarrow> None
                         | Some (Inl e) \<Rightarrow> Some (Inl (LuaError ''xpio: poll error''))
                         | Some (Inr f) \<Rightarrow>
                             wait_wake env qi (numChildWaiters \<noteq> 0) (sl_used sl1) timeout
                               (ready, upd_queue qi ((queues s1 qi)\<lparr>pfds := set_revents (sl_used sl1) f (sl_pfds sl1)\<rparr>) s1)))))"

end
