(* ===== verification/XpioQueueCorrect.thy ===== *)
theory XpioQueueCorrect
  imports XpioQueue
begin

text \<open>
  What the task queue promises. \<open>queue_inv\<close> ties the three tables to the fields of the tasks; every
  operation keeps it. Waking is described by the list of entries it retires: \<open>retire_all\<close> removes
  entries from their tables and clears \<open>_dequeue\<close> of their tasks, and the lemmas reduce the three
  waking loops to it. The properties of \<open>wait\<close> follow.
\<close>

section \<open>The invariant\<close>

fun key_ok :: "qmode \<Rightarrow> qkey \<Rightarrow> bool" where
  "key_ok CHILD (Proc p) = True"
| "key_ok CHILD (Fd fd) = False"
| "key_ok m (Proc p) = False"
| "key_ok m (Fd fd) = True"

type_synonym entry = "qmode \<times> qkey \<times> nat"

definition registered :: "nat \<Rightarrow> entry \<Rightarrow> xpio_state \<Rightarrow> bool" where
  "registered qi e s = (case e of (m, k, t) \<Rightarrow> (k, t) \<in> set (table_of m (queues s qi)))"

definition entry_ok :: "nat \<Rightarrow> entry \<Rightarrow> xpio_state \<Rightarrow> bool" where
  "entry_ok qi e s = (case e of (m, k, t) \<Rightarrow>
     key_ok m k \<and> t_queue (tasks s t) = Some qi \<and> t_dequeue (tasks s t) = Some m \<and>
     t_dequeuedata (tasks s t) = Some k)"

definition queue_inv :: "xpio_state \<Rightarrow> bool" where
  "queue_inv s \<longleftrightarrow>
     (\<forall>qi m. distinct (map fst (table_of m (queues s qi)))) \<and>
     (\<forall>qi e. registered qi e s \<longrightarrow> entry_ok qi e s)"

interpretation waiting: keyed_table map_of AList.update AList.delete "\<lambda>t. distinct (map fst t)"
  by unfold_locales (auto simp: update_conv' delete_conv' distinct_update distinct_delete)

lemma table_set_table [simp]: "table_of m (set_table m1 w q) = (if m = m1 then w else table_of m q)"
  by (cases m; cases m1) simp_all

lemma set_table_pfds [simp]: "pfds (set_table m w q) = pfds q"
  by (cases m) simp_all

lemma upd_table_simps [simp]:
  "tasks (upd_table qi m w s) = tasks s" "procs (upd_table qi m w s) = procs s"
  "queues (upd_table qi m w s) q = (if q = qi then set_table m w (queues s qi) else queues s q)"
  by (simp_all add: upd_table_def upd_queue_def)

lemma clear_dequeue_simps [simp]:
  "queues (clear_dequeue t s) = queues s" "procs (clear_dequeue t s) = procs s"
  "tasks (clear_dequeue t s) t1 = (if t1 = t then (tasks s t)\<lparr>t_dequeue := None\<rparr> else tasks s t1)"
  by (simp_all add: clear_dequeue_def upd_task_def)

lemma upd_simps [simp]:
  "queues (upd_task t v s) = queues s" "procs (upd_task t v s) = procs s"
  "tasks (upd_task t v s) t1 = (if t1 = t then v else tasks s t1)"
  "tasks (upd_queue qi q s) = tasks s" "procs (upd_queue qi q s) = procs s"
  "queues (upd_queue qi q s) qj = (if qj = qi then q else queues s qj)"
  by (simp_all add: upd_task_def upd_queue_def)

lemma registered_task:
  "queue_inv s \<Longrightarrow> registered qi e s \<Longrightarrow> registered qj e1 s \<Longrightarrow> snd (snd e) = snd (snd e1) \<Longrightarrow> qi = qj \<and> e = e1"
proof -
  assume "queue_inv s" "registered qi e s" "registered qj e1 s" and t: "snd (snd e) = snd (snd e1)"
  then have "entry_ok qi e s" "entry_ok qj e1 s" unfolding queue_inv_def by blast+
  with t show ?thesis by (auto simp: entry_ok_def split: prod.splits)
qed

lemma registered_key:
  "queue_inv s \<Longrightarrow> registered qi (m, k, t) s \<Longrightarrow> registered qi (m, k, t1) s \<Longrightarrow> t = t1"
  by (auto simp: queue_inv_def registered_def intro: eq_key_imp_eq_value)

text \<open>A task whose \<open>_dequeue\<close> is clear is in no table.\<close>

lemma unscheduled:
  "queue_inv s \<Longrightarrow> t_dequeue (tasks s t) = None \<Longrightarrow> \<not> registered qi (m, k, t) s"
  by (auto simp: queue_inv_def entry_ok_def)

section \<open>Retiring entries\<close>

fun retire :: "nat \<Rightarrow> entry \<Rightarrow> xpio_state \<Rightarrow> xpio_state" where
  "retire qi (m, k, t) s =
     upd_table qi m (AList.delete k (table_of m (queues s qi))) (clear_dequeue t s)"

definition retire_all :: "nat \<Rightarrow> entry list \<Rightarrow> xpio_state \<Rightarrow> xpio_state" where
  "retire_all qi es s = fold (retire qi) es s"

lemma retire_all_simps [simp]:
  "retire_all qi [] s = s" "retire_all qi (e # es) s = retire_all qi es (retire qi e s)"
  "retire_all qi (es @ fs) s = retire_all qi fs (retire_all qi es s)"
  by (simp_all add: retire_all_def)

lemma retire_procs [simp]: "procs (retire qi e s) = procs s"
  by (cases e) simp

lemma retire_all_procs [simp]: "procs (retire_all qi es s) = procs s"
  by (induction es arbitrary: s) simp_all

lemma retire_pfds [simp]: "pfds (queues (retire qi e s) qj) = pfds (queues s qj)"
  by (cases e) simp

lemma retire_all_pfds [simp]: "pfds (queues (retire_all qi es s) qj) = pfds (queues s qj)"
  by (induction es arbitrary: s) simp_all

lemma retire_table:
  "table_of m (queues (retire qi e s) qj) =
     (if qj = qi then filter (\<lambda>(k, t). (m, k) \<noteq> (fst e, fst (snd e))) (table_of m (queues s qi))
      else table_of m (queues s qj))"
  by (cases e) (auto simp: AList.delete_eq intro!: filter_cong)

definition keys_of :: "entry list \<Rightarrow> (qmode \<times> qkey) set" where
  "keys_of es = (\<lambda>(m, k, t). (m, k)) ` set es"

definition tasks_of :: "entry list \<Rightarrow> nat list" where
  "tasks_of es = map (\<lambda>(m, k, t). t) es"

lemma retire_all_table:
  "table_of m (queues (retire_all qi es s) qj) =
     (if qj = qi then filter (\<lambda>(k, t). (m, k) \<notin> keys_of es) (table_of m (queues s qi))
      else table_of m (queues s qj))"
proof (induction es arbitrary: s)
  case (Cons e es)
  show ?case
    by (cases e) (auto simp: Cons.IH retire_table keys_of_def simp del: retire.simps intro!: filter_cong)
qed (simp add: keys_of_def)

lemma retire_all_tasks:
  "tasks (retire_all qi es s) t =
     (if t \<in> set (tasks_of es) then (tasks s t)\<lparr>t_dequeue := None\<rparr> else tasks s t)"
proof (induction es arbitrary: s)
  case (Cons e es)
  show ?case by (cases e) (auto simp: Cons.IH tasks_of_def)
qed (simp add: tasks_of_def)

lemma queue_inv_retire_all:
  assumes inv: "queue_inv s" and es: "\<forall>e \<in> set es. registered qi e s"
  shows "queue_inv (retire_all qi es s)"
proof -
  have "entry_ok qj e (retire_all qi es s)" if reg: "registered qj e (retire_all qi es s)" for qj e
  proof -
    obtain m k t where e: "e = (m, k, t)" by (metis prod.exhaust)
    with reg have reg0: "registered qj e s" and new: "qj = qi \<longrightarrow> (m, k) \<notin> keys_of es"
      by (auto simp: registered_def retire_all_table split: if_splits)
    have "t \<notin> set (tasks_of es)"
    proof
      assume "t \<in> set (tasks_of es)"
      then obtain e1 where "e1 \<in> set es" "snd (snd e1) = t" by (auto simp: tasks_of_def)
      with es registered_task [OF inv reg0, of qi e1] e have "qj = qi" "e \<in> set es" by auto
      with new e show False by (force simp: keys_of_def)
    qed
    with reg0 inv e show ?thesis by (auto simp: queue_inv_def entry_ok_def retire_all_tasks)
  qed
  moreover have "distinct (map fst (table_of m (queues (retire_all qi es s) qj)))" for m qj
    using inv by (auto simp: queue_inv_def retire_all_table split_def distinct_map intro: inj_on_subset)
  ultimately show ?thesis by (simp add: queue_inv_def)
qed

section \<open>Waking\<close>

definition as_entries :: "qmode \<Rightarrow> waiters \<Rightarrow> entry list" where
  "as_entries m w = map (\<lambda>(k, t). (m, k, t)) w"

lemma set_as_entries: "(m1, k, t) \<in> set (as_entries m w) \<longleftrightarrow> m1 = m \<and> (k, t) \<in> set w"
  by (auto simp: as_entries_def)

lemma tasks_of_simps [simp]:
  "tasks_of [] = []" "tasks_of (es @ fs) = tasks_of es @ tasks_of fs"
  "tasks_of ((m, k, t) # es) = t # tasks_of es" "tasks_of (as_entries m w) = map snd w"
  by (auto simp: tasks_of_def as_entries_def)

lemma keys_of_simps [simp]:
  "keys_of [] = {}" "keys_of (es @ fs) = keys_of es \<union> keys_of fs"
  "keys_of ((m, k, t) # es) = insert (m, k) (keys_of es)"
  "(m1, k) \<in> keys_of (as_entries m w) \<longleftrightarrow> m1 = m \<and> k \<in> fst ` set w"
  by (force simp: keys_of_def as_entries_def)+

lemma in_tasks_of: "t \<in> set (tasks_of es) \<longleftrightarrow> (\<exists>m k. (m, k, t) \<in> set es)"
  by (force simp: tasks_of_def)

lemma distinct_tasks_of:
  assumes "queue_inv s" "\<forall>e \<in> set es. registered qi e s" "distinct es"
  shows "distinct (tasks_of es)"
  using assms registered_task [OF assms(1)]
  by (auto simp: tasks_of_def distinct_map intro!: inj_onI) blast+

lemma xpqueue_exited_cong: "procs s1 = procs s \<Longrightarrow> xpqueue_exited s1 = xpqueue_exited s"
proof -
  assume "procs s1 = procs s"
  then have "xpqueue_exited s1 k = xpqueue_exited s k" for k by (cases k) simp_all
  then show ?thesis ..
qed

definition exited_waiters :: "xpio_state \<Rightarrow> waiters \<Rightarrow> waiters" where
  "exited_waiters s w = filter (\<lambda>(k, t). xpqueue_exited s k) w"

lemma wake_children_retire:
  "wake_children qi w (ready, s) n =
     ((ready @ map snd (exited_waiters s w), retire_all qi (as_entries CHILD (exited_waiters s w)) s),
      n + length (filter (\<lambda>(k, t). \<not> xpqueue_exited s k) w))"
proof (induction w arbitrary: ready s n)
  case (Cons e w)
  obtain k t where e: "e = (k, t)" by fastforce
  show ?case
  proof (cases "xpqueue_exited s k")
    case True
    let ?s = "retire qi (CHILD, k, t) s"
    have "xpqueue_exited ?s = xpqueue_exited s" by (rule xpqueue_exited_cong) simp
    then have "exited_waiters ?s w = exited_waiters s w"
      and "filter (\<lambda>(k, t). \<not> xpqueue_exited ?s k) w = filter (\<lambda>(k, t). \<not> xpqueue_exited s k) w"
      by (simp_all add: exited_waiters_def)
    then show ?thesis using True Cons.IH [of "ready @ [t]" ?s n]
      by (simp add: e exited_waiters_def as_entries_def)
  next
    case False
    then show ?thesis using Cons.IH [of ready s "n + 1"] by (simp add: e exited_waiters_def)
  qed
qed (simp add: exited_waiters_def as_entries_def)

text \<open>The entries a slot wakes.\<close>

definition fired :: "xpqueue \<Rightarrow> pollfd \<Rightarrow> entry list" where
  "fired q pfd =
     (if ready_in pfd then [(READ, Fd (pfd_fd pfd), the (map_of (readers q) (Fd (pfd_fd pfd))))] else []) @
     (if ready_out pfd then [(WRITE, Fd (pfd_fd pfd), the (map_of (writers q) (Fd (pfd_fd pfd))))] else [])"

definition slot_ok :: "xpqueue \<Rightarrow> pollfd \<Rightarrow> bool" where
  "slot_ok q pfd \<longleftrightarrow>
     (POLLIN \<in> events pfd \<longleftrightarrow> map_of (readers q) (Fd (pfd_fd pfd)) \<noteq> None) \<and>
     (POLLOUT \<in> events pfd \<longleftrightarrow> map_of (writers q) (Fd (pfd_fd pfd)) \<noteq> None)"

lemma map_of_filter_keys: "map_of (filter (\<lambda>(k, t). P k) w) k = (if P k then map_of w k else None)"
  by (induction w) auto

lemma map_of_retire_all:
  "map_of (table_of m (queues (retire_all qi es s) qi)) k =
     (if (m, k) \<in> keys_of es then None else map_of (table_of m (queues s qi)) k)"
  by (simp add: retire_all_table map_of_filter_keys)

lemma wake_one_retire:
  "map_of (table_of m (queues s qi)) (Fd fd) = Some t \<Longrightarrow>
   wake_one qi m fd (ready, s) = Inr (ready @ [t], retire qi (m, Fd fd, t) s)"
  by (simp add: wake_one_def)

lemma other_fd_kept:
  assumes "pfd_fd p1 \<noteq> pfd_fd pfd"
  shows "map_of (table_of m (queues (retire_all qi (fired q pfd) s) qi)) (Fd (pfd_fd p1)) =
    map_of (table_of m (queues s qi)) (Fd (pfd_fd p1))"
  using assms by (simp add: map_of_retire_all) (simp add: fired_def)

lemma wake_slot:
  assumes "slot_ok (queues s qi) pfd"
  shows "XPQueue_wakeSockets qi (pfd # rest) (ready, s) =
    XPQueue_wakeSockets qi rest
      (ready @ tasks_of (fired (queues s qi) pfd), retire_all qi (fired (queues s qi) pfd) s)"
proof -
  let ?q = "queues s qi" and ?fd = "pfd_fd pfd"
  let ?in = "(READ, Fd ?fd, the (map_of (readers ?q) (Fd ?fd)))"
  have first: "(if ready_in pfd then wake_one qi READ ?fd (ready, s) else Inr (ready, s)) =
      Inr (ready @ (if ready_in pfd then [the (map_of (readers ?q) (Fd ?fd))] else []),
           retire_all qi (if ready_in pfd then [?in] else []) s)"
    using assms wake_one_retire [of READ s qi ?fd] by (auto simp: slot_ok_def ready_in_def)
  let ?s = "retire_all qi (if ready_in pfd then [?in] else []) s"
  have "map_of (table_of WRITE (queues ?s qi)) (Fd ?fd) = map_of (table_of WRITE ?q) (Fd ?fd)"
    unfolding map_of_retire_all by simp
  then have second: "(if ready_out pfd then wake_one qi WRITE ?fd (r, ?s) else Inr (r, ?s)) =
      Inr (r @ (if ready_out pfd then [the (map_of (writers ?q) (Fd ?fd))] else []),
           retire_all qi (fired ?q pfd) s)" for r
    using assms wake_one_retire [of WRITE ?s qi ?fd]
    by (auto simp: slot_ok_def ready_out_def fired_def simp del: retire.simps)
  show ?thesis unfolding XPQueue_wakeSockets.simps first second sum.case
    by (auto simp: fired_def)
qed

lemma slot_ok_kept:
  "slot_ok (queues s qi) p1 \<Longrightarrow> pfd_fd p1 \<noteq> pfd_fd pfd \<Longrightarrow>
   slot_ok (queues (retire_all qi (fired q pfd) s) qi) p1"
  using other_fd_kept [of p1 pfd READ qi q s] other_fd_kept [of p1 pfd WRITE qi q s]
  by (simp add: slot_ok_def)

lemma fired_kept:
  "pfd_fd p1 \<noteq> pfd_fd pfd \<Longrightarrow> fired (queues (retire_all qi (fired q pfd) s) qi) p1 = fired (queues s qi) p1"
  using other_fd_kept [of p1 pfd READ qi q s] other_fd_kept [of p1 pfd WRITE qi q s]
  by (simp add: fired_def)

lemma wakeSockets_retire:
  assumes "distinct (map pfd_fd ps)" and "\<forall>pfd \<in> set ps. slot_ok (queues s qi) pfd"
  shows "XPQueue_wakeSockets qi ps (ready, s) =
    Inr (ready @ tasks_of (concat (map (fired (queues s qi)) ps)),
         retire_all qi (concat (map (fired (queues s qi)) ps)) s)"
  using assms
proof (induction ps arbitrary: ready s)
  case (Cons pfd ps)
  let ?s = "retire_all qi (fired (queues s qi) pfd) s"
  from Cons.prems have other: "pfd_fd p1 \<noteq> pfd_fd pfd" if "p1 \<in> set ps" for p1
    using that by (auto intro: rev_image_eqI)
  have same: "map (fired (queues ?s qi)) ps = map (fired (queues s qi)) ps"
    using other fired_kept by (intro map_cong) auto
  have "\<forall>p1 \<in> set ps. slot_ok (queues ?s qi) p1" using Cons.prems other slot_ok_kept by auto
  with Cons.prems Cons.IH [of ?s] same show ?case by (simp add: wake_slot del: XPQueue_wakeSockets.simps)
qed simp

lemma set_fired:
  assumes "slot_ok q pfd"
  shows "e \<in> set (fired q pfd) \<longleftrightarrow>
    (\<exists>t. e = (READ, Fd (pfd_fd pfd), t) \<and> ready_in pfd \<and> map_of (readers q) (Fd (pfd_fd pfd)) = Some t) \<or>
    (\<exists>t. e = (WRITE, Fd (pfd_fd pfd), t) \<and> ready_out pfd \<and> map_of (writers q) (Fd (pfd_fd pfd)) = Some t)"
  using assms by (auto simp: fired_def slot_ok_def ready_in_def ready_out_def)

section \<open>The slots given to poll\<close>

definition slot_view :: "slot_state \<Rightarrow> (int \<times> pflag set) list" where
  "slot_view sl = map (\<lambda>p. (pfd_fd p, events p)) (take (sl_used sl) (sl_pfds sl))"

definition wanted :: "int set \<Rightarrow> int set \<Rightarrow> int \<Rightarrow> pflag set" where
  "wanted R W fd = (if fd \<in> R then {POLLIN} else {}) \<union> (if fd \<in> W then {POLLOUT} else {})"

text \<open>
  After the readers of descriptors \<open>R\<close> and the writers of \<open>W\<close>: one slot for each descriptor, with
  the events somebody waits for, and \<open>slots\<close> finds the slot of each reader.
\<close>

definition slots_inv :: "int set \<Rightarrow> int set \<Rightarrow> slot_state \<Rightarrow> bool" where
  "slots_inv R W sl \<longleftrightarrow>
     sl_used sl \<le> length (sl_pfds sl) \<and>
     distinct (map fst (slot_view sl)) \<and>
     set (slot_view sl) = (\<lambda>fd. (fd, wanted R W fd)) ` (R \<union> W) \<and>
     (\<forall>fd. map_of (sl_slots sl) fd = None \<longleftrightarrow> fd \<notin> R) \<and>
     (\<forall>fd i. map_of (sl_slots sl) fd = Some i \<longrightarrow> i < sl_used sl \<and> fst (slot_view sl ! i) = fd)"

lemma length_slot_view [simp]: "sl_used sl \<le> length (sl_pfds sl) \<Longrightarrow> length (slot_view sl) = sl_used sl"
  by (simp add: slot_view_def)

lemma ensureFDs_ok:
  "\<exists>ps1. XPQueue_ensureFDs True ps n = Inr ps1 \<and> n < length ps1 \<and> take (length ps) ps1 = ps \<and> length ps \<le> length ps1"
  using growArray_prefix [of ps True zero_pfd "n + 1"] growArray_length [of True "n + 1" zero_pfd ps]
  by (auto simp: XPQueue_ensureFDs_def Let_def growArray_def)

lemma alloc_slot_ok:
  assumes "sl_used sl \<le> length (sl_pfds sl)"
  shows "\<exists>sl1. alloc_slot True fd flag sl = Inr sl1 \<and> sl_used sl1 = sl_used sl + 1 \<and>
    sl_used sl1 \<le> length (sl_pfds sl1) \<and> slot_view sl1 = slot_view sl @ [(fd, {flag})] \<and>
    sl_slots sl1 = sl_slots sl"
proof -
  obtain ps1 where ps1: "XPQueue_ensureFDs True (sl_pfds sl) (sl_used sl) = Inr ps1" "sl_used sl < length ps1"
    "take (length (sl_pfds sl)) ps1 = sl_pfds sl"
    using ensureFDs_ok by blast
  then have "take (sl_used sl) ps1 = take (sl_used sl) (sl_pfds sl)"
    using assms by (metis min.absorb1 take_take)
  with ps1 show ?thesis by (simp add: alloc_slot_def slot_view_def take_Suc_conv_app_nth)
qed

lemma alloc_slot_inv:
  assumes inv: "slots_inv R W sl" and new: "fd \<notin> R \<union> W"
    and alloc: "alloc_slot True fd POLLOUT sl = Inr sl1"
  shows "slots_inv R (insert fd W) sl1"
proof -
  obtain sl2 where sl2: "alloc_slot True fd POLLOUT sl = Inr sl2" "sl_used sl2 = sl_used sl + 1"
    "sl_used sl2 \<le> length (sl_pfds sl2)" "slot_view sl2 = slot_view sl @ [(fd, {POLLOUT})]"
    "sl_slots sl2 = sl_slots sl"
    using alloc_slot_ok [of sl fd POLLOUT] inv by (auto simp: slots_inv_def)
  from alloc sl2(1) have [simp]: "sl1 = sl2" by simp
  have old: "wanted R (insert fd W) x = wanted R W x" if "x \<in> R \<union> W" for x
    using that new by (auto simp: wanted_def)
  have "(\<lambda>x. (x, wanted R (insert fd W) x)) ` (R \<union> insert fd W) =
      insert (fd, {POLLOUT}) ((\<lambda>x. (x, wanted R W x)) ` (R \<union> W))"
    using new old by (auto simp: wanted_def image_iff)
  moreover have "fd \<notin> fst ` set (slot_view sl)" using inv new by (auto simp: slots_inv_def image_iff)
  ultimately show ?thesis using inv sl2 by (fastforce simp: slots_inv_def nth_append)
qed

lemma add_reader_inv:
  assumes inv: "slots_inv R {} sl" and new: "fd \<notin> R"
  shows "\<exists>sl1. add_reader True (Fd fd, t) sl = Inr sl1 \<and> slots_inv (insert fd R) {} sl1"
proof -
  obtain sl2 where sl2: "alloc_slot True fd POLLIN sl = Inr sl2" "sl_used sl2 = sl_used sl + 1"
    "sl_used sl2 \<le> length (sl_pfds sl2)" "slot_view sl2 = slot_view sl @ [(fd, {POLLIN})]"
    "sl_slots sl2 = sl_slots sl"
    using alloc_slot_ok [of sl fd POLLIN] inv by (auto simp: slots_inv_def)
  let ?sl = "sl2\<lparr>sl_slots := AList.update fd (sl_used sl) (sl_slots sl2)\<rparr>"
  have view: "slot_view ?sl = slot_view sl @ [(fd, {POLLIN})]" using sl2 by (simp add: slot_view_def)
  have fds: "(\<lambda>x. (x, wanted (insert fd R) {} x)) ` insert fd R =
      insert (fd, {POLLIN}) ((\<lambda>x. (x, wanted R {} x)) ` R)"
    using new by (auto simp: wanted_def image_iff)
  have "fd \<notin> fst ` set (slot_view sl)" using inv new by (auto simp: slots_inv_def image_iff)
  moreover have "i < sl_used ?sl \<and> fst (slot_view ?sl ! i) = x"
    if "map_of (sl_slots ?sl) x = Some i" for x i
    using that inv sl2 unfolding view
    by (cases "x = fd") (fastforce simp: slots_inv_def update_conv' nth_append)+
  ultimately have "slots_inv (insert fd R) {} ?sl"
    using inv sl2 fds unfolding slots_inv_def view by (auto simp: update_conv')
  with sl2 show ?thesis by simp
qed

lemma image_change_one:
  "a \<in> A \<Longrightarrow> (\<And>x. x \<noteq> a \<Longrightarrow> g x = f x) \<Longrightarrow>
   insert (a, g a) ((\<lambda>x. (x, f x)) ` A - {(a, f a)}) = (\<lambda>x. (x, g x)) ` A"
  by (auto simp: image_iff) metis+

lemma add_writer_inv:
  assumes inv: "slots_inv R W sl" and new: "fd \<notin> W"
  shows "\<exists>sl1. add_writer True (Fd fd, t) sl = Inr sl1 \<and> slots_inv R (insert fd W) sl1"
proof (cases "map_of (sl_slots sl) fd")
  case None
  with inv have "fd \<notin> R" by (simp add: slots_inv_def)
  moreover obtain sl1 where "alloc_slot True fd POLLOUT sl = Inr sl1"
    using alloc_slot_ok [of sl fd POLLOUT] inv by (auto simp: slots_inv_def)
  ultimately show ?thesis using alloc_slot_inv [OF inv, of fd sl1] new None by simp
next
  case (Some i)
  have at: "i < sl_used sl \<and> fst (slot_view sl ! i) = fd" and used: "sl_used sl \<le> length (sl_pfds sl)"
    using inv Some unfolding slots_inv_def by blast+
  then have i: "i < sl_used sl" "fst (slot_view sl ! i) = fd" "i < length (sl_pfds sl)" by auto
  have R: "fd \<in> R" using inv Some unfolding slots_inv_def by (metis option.distinct(1))
  let ?e = "sl_pfds sl ! i"
  let ?sl = "sl\<lparr>sl_pfds := (sl_pfds sl)[i := ?e\<lparr>events := insert POLLOUT (events ?e)\<rparr>]\<rparr>"
  have ei: "slot_view sl ! i = (fd, events ?e)" using i by (simp add: slot_view_def)
  have view: "slot_view ?sl = (slot_view sl)[i := (fd, insert POLLOUT (events ?e))]"
    using i ei by (simp add: slot_view_def take_update_swap map_update)
  have len: "length (slot_view sl) = sl_used sl" using inv by (simp add: slots_inv_def)
  have fsts: "map fst (slot_view ?sl) = map fst (slot_view sl)"
    unfolding view using i ei len by (simp add: map_update list_update_same_conv)
  have same_fd: "fst (slot_view ?sl ! j) = fst (slot_view sl ! j)" if "j < sl_used sl" for j
    using fsts that len by (metis length_map nth_map)
  have "(fd, events ?e) \<in> set (slot_view sl)" using i(1) ei len by (metis nth_mem)
  with inv have ev: "events ?e = wanted R W fd" by (auto simp: slots_inv_def)
  have dist: "distinct (map fst (slot_view sl))" using inv by (simp add: slots_inv_def)
  have "distinct (slot_view sl)" using dist by (simp add: distinct_map)
  then have "set (slot_view ?sl) = insert (fd, insert POLLOUT (events ?e)) (set (slot_view sl) - {(fd, events ?e)})"
    unfolding view using i(1) len ei by (simp add: set_update_distinct)
  also have "\<dots> = insert (fd, wanted R (insert fd W) fd) ((\<lambda>x. (x, wanted R W x)) ` (R \<union> W) - {(fd, wanted R W fd)})"
    using inv R ev by (simp add: slots_inv_def wanted_def insert_commute)
  also have "\<dots> = (\<lambda>x. (x, wanted R (insert fd W) x)) ` (R \<union> W)"
    using R by (intro image_change_one) (auto simp: wanted_def)
  also have "R \<union> W = R \<union> insert fd W" using R by auto
  finally have "slots_inv R (insert fd W) ?sl"
    using inv dist fsts same_fd by (auto simp: slots_inv_def)
  with Some show ?thesis by (simp add: Let_def)
qed

definition fds_of :: "waiters \<Rightarrow> int set" where
  "fds_of w = {fd. Fd fd \<in> fst ` set w}"

lemma add_all_inv:
  assumes step: "\<And>R fd t sl. P R sl \<Longrightarrow> fd \<notin> R \<Longrightarrow> \<exists>sl1. f (Fd fd, t) sl = Inr sl1 \<and> P (insert fd R) sl1"
    and "P R sl" and "distinct (map fst w)" and "\<forall>(k, t) \<in> set w. \<exists>fd. k = Fd fd \<and> fd \<notin> R"
  shows "\<exists>sl1. add_all f w sl = Inr sl1 \<and> P (R \<union> fds_of w) sl1"
  using assms(2-)
proof (induction w arbitrary: R sl)
  case Nil
  then show ?case by (simp add: fds_of_def)
next
  case (Cons e w)
  then obtain fd t where e: "e = (Fd fd, t)" "fd \<notin> R" by (cases e) auto
  with step Cons.prems obtain sl1 where sl1: "f e sl = Inr sl1" "P (insert fd R) sl1" by blast
  have "fds_of (e # w) = insert fd (fds_of w)" by (auto simp: fds_of_def e)
  moreover have fresh: "\<exists>x. k = Fd x \<and> x \<notin> insert fd R" if "(k, t1) \<in> set w" for k t1
  proof -
    from that Cons.prems(3) obtain x where "k = Fd x" "x \<notin> R" by auto
    moreover from that have "k \<in> fst ` set w" by force
    ultimately show ?thesis using Cons.prems(2) e by auto
  qed
  moreover from fresh have "\<forall>(k, t1) \<in> set w. \<exists>x. k = Fd x \<and> x \<notin> insert fd R" by auto
  ultimately show ?case using Cons.IH [of "insert fd R" sl1] Cons.prems(2) sl1 by simp
qed

lemma build_pfds_inv:
  assumes "queue_inv s"
  shows "\<exists>sl. build_pfds True (queues s qi) = Inr sl \<and>
    slots_inv (fds_of (readers (queues s qi))) (fds_of (writers (queues s qi))) sl"
proof -
  let ?q = "queues s qi"
  have keys: "\<exists>fd. k = Fd fd" if "(k, t) \<in> set (table_of m ?q)" "m \<noteq> CHILD" for m k t
  proof -
    from that assms have "key_ok m k" by (fastforce simp: queue_inv_def registered_def entry_ok_def)
    with that(2) show ?thesis by (cases m; cases k) simp_all
  qed
  have dist: "distinct (map fst (readers ?q))" "distinct (map fst (writers ?q))"
    using assms by (auto simp: queue_inv_def dest: spec [of _ READ] spec [of _ WRITE])
      (metis table_of.simps)+
  have "slots_inv {} {} \<lparr>sl_pfds = pfds ?q, sl_used = 0, sl_slots = []\<rparr>"
    by (simp add: slots_inv_def slot_view_def)
  then obtain sl1 where sl1: "add_all (add_reader True) (readers ?q) \<lparr>sl_pfds = pfds ?q, sl_used = 0, sl_slots = []\<rparr> = Inr sl1"
    "slots_inv (fds_of (readers ?q)) {} sl1"
    using add_all_inv [where P = "\<lambda>R. slots_inv R {}" and f = "add_reader True" and R = "{}", OF add_reader_inv _ dist(1)]
      keys [of _ _ READ] by force
  obtain sl2 where "add_all (add_writer True) (writers ?q) sl1 = Inr sl2"
    "slots_inv (fds_of (readers ?q)) (fds_of (writers ?q)) sl2"
    using add_all_inv [where P = "slots_inv (fds_of (readers ?q))" and f = "add_writer True" and R = "{}",
        OF add_writer_inv sl1(2) dist(2)] keys [of _ _ WRITE] by force
  with sl1 show ?thesis by (simp add: build_pfds_def)
qed

section \<open>What wait returns\<close>

definition set_pfds :: "nat \<Rightarrow> pollfd list \<Rightarrow> xpio_state \<Rightarrow> xpio_state" where
  "set_pfds qi ps s = upd_queue qi ((queues s qi)\<lparr>pfds := ps\<rparr>) s"

lemma table_pfds [simp]: "table_of m (q\<lparr>pfds := ps\<rparr>) = table_of m q"
  by (cases m) simp_all

lemma set_table_swap: "set_table m w (q\<lparr>pfds := ps\<rparr>) = (set_table m w q)\<lparr>pfds := ps\<rparr>"
  by (cases m) simp_all

lemma set_pfds_simps [simp]:
  "tasks (set_pfds qi ps s) = tasks s" "procs (set_pfds qi ps s) = procs s"
  "table_of m (queues (set_pfds qi ps s) qj) = table_of m (queues s qj)"
  "pfds (queues (set_pfds qi ps s) qi) = ps"
  by (simp_all add: set_pfds_def)

lemma retire_set_pfds: "retire qi e (set_pfds qi ps s) = set_pfds qi ps (retire qi e s)"
  by (cases e) (simp add: set_pfds_def upd_table_def upd_queue_def clear_dequeue_def upd_task_def
      set_table_swap fun_upd_idem_iff)

lemma retire_all_set_pfds: "retire_all qi es (set_pfds qi ps s) = set_pfds qi ps (retire_all qi es s)"
  by (induction es arbitrary: s) (simp_all add: retire_set_pfds)

lemma retire_set_procs: "retire qi e (s\<lparr>procs := pr\<rparr>) = (retire qi e s)\<lparr>procs := pr\<rparr>"
  by (cases e) (simp add: upd_table_def upd_queue_def clear_dequeue_def upd_task_def)

lemma retire_all_set_procs: "retire_all qi es (s\<lparr>procs := pr\<rparr>) = (retire_all qi es s)\<lparr>procs := pr\<rparr>"
  by (induction es arbitrary: s) (simp_all add: retire_set_procs)

lemma same_procs: "procs s = pr \<Longrightarrow> s\<lparr>procs := pr\<rparr> = s"
  by auto

text \<open>Reaping never makes an exited process run again, and changes nothing when it counts nothing.\<close>

lemma update_exited_mono:
  "update_exited n code ps st = (st1, k) \<Longrightarrow>
   (k = 0 \<longrightarrow> st1 = st) \<and> (xpproc_isExited st p \<longrightarrow> xpproc_isExited st1 p)"
  by (induction ps) (auto simp: xpproc_isExited_def set_proc_def split: if_splits)

lemma reap_children_mono:
  "reap_children ws k st = Some (st1, n) \<Longrightarrow>
   k \<le> n \<and> (n = k \<longrightarrow> st1 = st) \<and> (xpproc_isExited st p \<longrightarrow> xpproc_isExited st1 p)"
proof (induction ws k st rule: reap_children.induct)
  case (2 m code ws k st)
  obtain st2 j where up: "update_exited m code (gpHeadProc st) st = (st2, j)" by fastforce
  show ?case
    using "2.prems" "2.IH" [OF _ up [symmetric] refl] update_exited_mono [OF up, of p] up
    by (auto split: if_splits)
qed (auto split: if_splits)

lemma reap_mono:
  "xpproc_reap reads ws st = Some (st1, n) \<Longrightarrow>
   (n = 0 \<longrightarrow> st1 = st) \<and> (xpproc_isExited st p \<longrightarrow> xpproc_isExited st1 p)"
  by (auto simp: xpproc_reap_def split: option.splits if_splits dest: reap_children_mono [where p = p])

definition exited_by :: "proc_state \<Rightarrow> qkey \<Rightarrow> bool" where
  "exited_by pr k = (case k of Proc p \<Rightarrow> xpproc_isExited pr p | Fd fd \<Rightarrow> False)"

lemma xpqueue_exited_by: "xpqueue_exited s k = exited_by (procs s) k"
  by (cases k) (simp_all add: exited_by_def)

definition first_exits :: "xpio_state \<Rightarrow> nat \<Rightarrow> entry list" where
  "first_exits s qi = as_entries CHILD (exited_waiters s (children (queues s qi)))"

definition late_exits :: "proc_state \<Rightarrow> xpio_state \<Rightarrow> nat \<Rightarrow> entry list" where
  "late_exits pr s qi = as_entries CHILD
     (filter (\<lambda>(k, t). \<not> exited_by (procs s) k \<and> exited_by pr k) (children (queues s qi)))"

lemma late_exits_none [simp]: "late_exits (procs s) s qi = []"
  by (simp add: late_exits_def as_entries_def)

lemma fired_modes: "(CHILD, k) \<notin> keys_of (concat (map (fired q) ps))"
  by (induction ps) (auto simp: fired_def)

lemma children_left:
  "children (queues (retire_all qi (first_exits s qi @ concat (map (fired q) ps)) s) qi) =
     filter (\<lambda>(k, t). \<not> exited_by (procs s) k) (children (queues s qi))"
proof -
  have "table_of CHILD (queues (retire_all qi (first_exits s qi @ concat (map (fired q) ps)) s) qi) =
      filter (\<lambda>(k, t). (CHILD, k) \<notin> keys_of (first_exits s qi @ concat (map (fired q) ps))) (children (queues s qi))"
    unfolding retire_all_table by simp
  also have "\<dots> = filter (\<lambda>(k, t). \<not> exited_by (procs s) k) (children (queues s qi))"
    by (rule filter_cong)
      (auto simp: fired_modes first_exits_def exited_waiters_def xpqueue_exited_by intro: rev_image_eqI)
  finally show ?thesis by simp
qed

text \<open>The slots after \<open>poll\<close>: those of \<open>build_pfds\<close> with the answers of the system.\<close>

definition polled :: "(nat \<Rightarrow> pflag set) \<Rightarrow> slot_state \<Rightarrow> pollfd list" where
  "polled f sl = map (\<lambda>i. \<lparr>pfd_fd = fst (slot_view sl ! i), events = snd (slot_view sl ! i), revents = f i\<rparr>) [0..<sl_used sl]"

lemma take_set_revents:
  assumes "sl_used sl \<le> n" "n \<le> length ps" "sl_used sl \<le> length (sl_pfds sl)"
    "map (\<lambda>p. (pfd_fd p, events p)) (take (sl_used sl) ps) = slot_view sl"
  shows "take (sl_used sl) (set_revents n f ps) = polled f sl"
proof (rule nth_equalityI)
  show "length (take (sl_used sl) (set_revents n f ps)) = length (polled f sl)"
    using assms by (simp add: set_revents_def polled_def)
  fix i assume "i < length (take (sl_used sl) (set_revents n f ps))"
  then have i: "i < sl_used sl" by simp
  with assms(1-3) have "map (\<lambda>p. (pfd_fd p, events p)) (take (sl_used sl) ps) ! i = (pfd_fd (ps ! i), events (ps ! i))"
    by simp
  then have "slot_view sl ! i = (pfd_fd (ps ! i), events (ps ! i))" by (simp only: assms(4))
  with i assms show "take (sl_used sl) (set_revents n f ps) ! i = polled f sl ! i"
    by (simp add: set_revents_def polled_def)
qed

lemma polled_slots_ok:
  assumes "slots_inv (fds_of (readers q)) (fds_of (writers q)) sl"
  shows "distinct (map pfd_fd (polled f sl))" and "\<forall>pfd \<in> set (polled f sl). slot_ok q pfd"
proof -
  have len: "length (slot_view sl) = sl_used sl" using assms by (simp add: slots_inv_def)
  have "map pfd_fd (polled f sl) = map fst (slot_view sl)"
    by (rule nth_equalityI) (simp_all add: polled_def len)
  with assms show "distinct (map pfd_fd (polled f sl))" by (simp add: slots_inv_def)
  have lookup: "map_of w (Fd fd) \<noteq> None \<longleftrightarrow> fd \<in> fds_of w" for w :: waiters and fd
    by (simp add: fds_of_def map_of_eq_None_iff)
  have view: "slot_view sl ! i \<in> (\<lambda>fd. (fd, wanted (fds_of (readers q)) (fds_of (writers q)) fd)) `
      (fds_of (readers q) \<union> fds_of (writers q))" if "i < sl_used sl" for i
    using assms that len unfolding slots_inv_def by (metis nth_mem)
  have "slot_ok q \<lparr>pfd_fd = fst (slot_view sl ! i), events = snd (slot_view sl ! i), revents = f i\<rparr>"
    if "i < sl_used sl" for i
    using view [OF that] by (auto simp: slot_ok_def lookup wanted_def simp del: not_None_eq split: if_splits)
  then show "\<forall>pfd \<in> set (polled f sl). slot_ok q pfd" by (auto simp: polled_def)
qed

lemma first_exits_other:
  "m \<noteq> CHILD \<Longrightarrow> table_of m (queues (retire_all qi (first_exits s qi) s) qi) = table_of m (queues s qi)"
  by (simp add: retire_all_table first_exits_def)

lemma first_exits_rw [simp]:
  "readers (queues (retire_all qi (first_exits s qi) s) qi) = readers (queues s qi)"
  "writers (queues (retire_all qi (first_exits s qi) s) qi) = writers (queues s qi)"
  using first_exits_other [of READ qi s] first_exits_other [of WRITE qi s] by simp_all

lemma set_pfds_rw [simp]:
  "readers (queues (set_pfds qi ps s) qi) = readers (queues s qi)"
  "writers (queues (set_pfds qi ps s) qi) = writers (queues s qi)"
  "children (queues (set_pfds qi ps s) qi) = children (queues s qi)"
  by (simp_all add: set_pfds_def)

text \<open>The entries woken by the answers to \<open>poll\<close>, and all that one call of \<open>wait\<close> wakes.\<close>

definition socket_entries :: "(nat \<Rightarrow> pflag set) \<Rightarrow> slot_state \<Rightarrow> xpqueue \<Rightarrow> entry list" where
  "socket_entries f sl q = concat (map (fired q) (polled f sl))"

definition woken :: "(nat \<Rightarrow> pflag set) \<Rightarrow> slot_state \<Rightarrow> proc_state \<Rightarrow> xpio_state \<Rightarrow> nat \<Rightarrow> entry list" where
  "woken f sl pr s qi =
     first_exits s qi @ socket_entries f sl (queues s qi) @ late_exits pr s qi"

lemma fired_cong: "readers q1 = readers q \<Longrightarrow> writers q1 = writers q \<Longrightarrow> fired q1 = fired q"
  by (simp add: fired_def fun_eq_iff)

lemma slot_ok_cong: "readers q1 = readers q \<Longrightarrow> writers q1 = writers q \<Longrightarrow> slot_ok q1 = slot_ok q"
  by (simp add: slot_ok_def fun_eq_iff)

lemma wake_late:
  assumes "s2 = (set_pfds qi ps (retire_all qi (first_exits s qi @ concat (map (fired q) pl)) s))\<lparr>procs := pr\<rparr>"
  shows "XPQueue_wakeChildWaiters qi (ready, s2) =
    ((ready @ tasks_of (late_exits pr s qi),
      (set_pfds qi ps (retire_all qi (first_exits s qi @ concat (map (fired q) pl) @ late_exits pr s qi) s))\<lparr>procs := pr\<rparr>),
     length (filter (\<lambda>(k, t). \<not> exited_by pr k \<and> \<not> exited_by (procs s) k) (children (queues s qi))))"
proof -
  have left: "children (queues s2 qi) = filter (\<lambda>(k, t). \<not> exited_by (procs s) k) (children (queues s qi))"
    using children_left [of qi s q pl] by (simp add: assms)
  have ex: "xpqueue_exited s2 k = exited_by pr k" for k by (simp add: xpqueue_exited_by assms)
  have late: "as_entries CHILD (exited_waiters s2 (children (queues s2 qi))) = late_exits pr s qi"
    unfolding left by (simp add: late_exits_def exited_waiters_def ex conj_commute split_def)
  have "map snd (exited_waiters s2 (children (queues s2 qi))) = tasks_of (late_exits pr s qi)"
    unfolding late [symmetric] by simp
  moreover have "filter (\<lambda>(k, t). \<not> xpqueue_exited s2 k) (children (queues s2 qi)) =
      filter (\<lambda>(k, t). \<not> exited_by pr k \<and> \<not> exited_by (procs s) k) (children (queues s qi))"
    unfolding left ex by (simp add: split_def conj_commute)
  ultimately show ?thesis
    unfolding XPQueue_wakeChildWaiters_def snd_conv wake_children_retire late
    by (simp add: assms retire_all_set_procs retire_all_set_pfds del: append_assoc)
qed

lemma wait_wake_result:
  assumes slots: "slots_inv (fds_of (readers (queues s qi))) (fds_of (writers (queues s qi))) sl"
    and taken: "take (used - (if waiting then 1 else 0)) ps = polled f sl"
    and sB: "sB = set_pfds qi ps (retire_all qi (first_exits s qi) s)"
    and res: "wait_wake env qi waiting used timeout (tasks_of (first_exits s qi), sB) = Some r"
  shows "\<exists>pr. r = Inr (Ready (tasks_of (woken f sl pr s qi)) timeout,
              (set_pfds qi ps (retire_all qi (woken f sl pr s qi) s))\<lparr>procs := pr\<rparr>) \<and>
     (\<forall>p. xpproc_isExited (procs s) p \<longrightarrow> xpproc_isExited pr p)"
proof -
  let ?q = "queues s qi" and ?E0 = "first_exits s qi" and ?E1 = "socket_entries f sl (queues s qi)"
  have same: "fired (queues sB qi) = fired ?q" "slot_ok (queues sB qi) = slot_ok ?q"
    by (rule fired_cong slot_ok_cong; simp add: sB)+
  let ?sC = "set_pfds qi ps (retire_all qi (?E0 @ ?E1) s)"
  have "XPQueue_wakeSockets qi (polled f sl) (tasks_of ?E0, sB) = Inr (tasks_of ?E0 @ tasks_of ?E1, retire_all qi ?E1 sB)"
    using wakeSockets_retire [of "polled f sl" sB qi "tasks_of ?E0", unfolded same] polled_slots_ok [OF slots, of f]
    by (simp add: socket_entries_def)
  then have wake: "XPQueue_wakeSockets qi (polled f sl) (tasks_of ?E0, sB) = Inr (tasks_of (?E0 @ ?E1), ?sC)"
    by (simp add: sB retire_all_set_pfds)
  have psB: "pfds (queues (snd (tasks_of ?E0, sB)) qi) = ps" by (simp add: sB)
  have quiet: ?thesis if "r = Inr (Ready (tasks_of (?E0 @ ?E1)) timeout, ?sC)"
    by (rule exI [of _ "procs s"]) (simp add: that woken_def)
  note after = res [unfolded wait_wake_def psB Let_def taken wake sum.case prod.case]
  show ?thesis
  proof (cases "waiting \<and> revents (ps ! (used - 1)) \<inter> {POLLIN, POLLERR, POLLHUP, POLLNVAL} \<noteq> {}")
    case False
    with after have "r = Inr (Ready (tasks_of (?E0 @ ?E1)) timeout, ?sC)" by (simp only: if_False) simp
    then show ?thesis by (rule quiet)
  next
    case True
    note after1 = after [unfolded if_P [OF True] set_pfds_simps retire_all_procs]
    from after1 obtain pr n where reap: "xpproc_reap (reap_reads env) (reap_waits env) (procs s) = Some (pr, n)"
      by (auto split: option.splits)
    have mono: "\<forall>p. xpproc_isExited (procs s) p \<longrightarrow> xpproc_isExited pr p" using reap_mono [OF reap] by blast
    show ?thesis
    proof (cases "n = 0")
      case True
      with reap_mono [OF reap] have pr: "pr = procs s" by blast
      with after1 reap True have "r = Inr (Ready (tasks_of (?E0 @ ?E1)) timeout, ?sC)"
        by (simp add: same_procs)
      then show ?thesis by (rule quiet)
    next
      case False
      have "r = Inr (Ready (tasks_of (woken f sl pr s qi)) timeout,
              (set_pfds qi ps (retire_all qi (woken f sl pr s qi) s))\<lparr>procs := pr\<rparr>)"
        using after1 reap False
          wake_late [OF refl, where qi = qi and ps = ps and s = s and q = ?q and pl = "polled f sl"
            and pr = pr and ready = "tasks_of (?E0 @ ?E1)", folded socket_entries_def]
        by (simp add: woken_def)
      with mono show ?thesis by blast
    qed
  qed
qed

lemma poll_timeout_forever: "poll_timeout arg = -1 \<longleftrightarrow> arg = None"
proof (cases arg)
  case (Some num)
  then show ?thesis by (cases num) (auto simp: INT_MAX_def floor_eq_iff)
qed simp

lemma no_slots:
  assumes "queue_inv s" "slots_inv (fds_of (readers (queues s qi))) (fds_of (writers (queues s qi))) sl"
  shows "sl_used sl = 0 \<longleftrightarrow> readers (queues s qi) = [] \<and> writers (queues s qi) = []"
proof -
  let ?q = "queues s qi"
  have fds: "fds_of (table_of m ?q) = {} \<longleftrightarrow> table_of m ?q = []" if "m \<noteq> CHILD" for m
  proof (cases "table_of m ?q")
    case (Cons e w)
    obtain k t where e: "e = (k, t)" by fastforce
    with Cons have "registered qi (m, k, t) s" by (simp add: registered_def)
    with assms(1) have "key_ok m k" by (auto simp: queue_inv_def entry_ok_def)
    with that obtain fd where "k = Fd fd" by (cases m; cases k) auto
    then show ?thesis by (auto simp: fds_of_def Cons e)
  qed (simp add: fds_of_def)
  have "sl_used sl = 0 \<longleftrightarrow> set (slot_view sl) = {}"
    using assms(2) by (auto simp: slots_inv_def slot_view_def)
  also have "\<dots> \<longleftrightarrow> fds_of (readers ?q) \<union> fds_of (writers ?q) = {}"
    using assms(2) unfolding slots_inv_def by simp
  finally show ?thesis using fds [of READ] fds [of WRITE] by simp
qed

lemma first_exits_nil: "first_exits s qi = [] \<longleftrightarrow> exited_waiters s (children (queues s qi)) = []"
  by (simp add: first_exits_def as_entries_def)

lemma no_waiters:
  "first_exits s qi = [] \<Longrightarrow>
   filter (\<lambda>(k, t). \<not> xpqueue_exited s k) (children (queues s qi)) = [] \<longleftrightarrow> children (queues s qi) = []"
  unfolding first_exits_nil exited_waiters_def
  by (cases "children (queues s qi)") (auto split: if_splits)

lemma sig_slot:
  assumes "slots_inv R W sl"
  shows "\<exists>sl1. (if waiting then alloc_slot True fd POLLIN sl else Inr sl) = Inr sl1 \<and>
    sl_used sl1 = sl_used sl + (if waiting then 1 else 0) \<and> sl_used sl1 \<le> length (sl_pfds sl1) \<and>
    map (\<lambda>p. (pfd_fd p, events p)) (take (sl_used sl) (sl_pfds sl1)) = slot_view sl"
proof (cases waiting)
  case True
  have used: "sl_used sl \<le> length (sl_pfds sl)" and len: "length (slot_view sl) = sl_used sl"
    using assms by (simp_all add: slots_inv_def)
  from alloc_slot_ok [OF used, of fd POLLIN] obtain sl1 where sl1: "alloc_slot True fd POLLIN sl = Inr sl1"
    "sl_used sl1 = sl_used sl + 1" "sl_used sl1 \<le> length (sl_pfds sl1)"
    "slot_view sl1 = slot_view sl @ [(fd, {POLLIN})]" by blast
  have "take (sl_used sl) (slot_view sl1) = slot_view sl" using sl1(4) len by simp
  then show ?thesis using True sl1 by (simp add: slot_view_def take_map)
next
  case False
  with assms show ?thesis by (simp add: slots_inv_def slot_view_def)
qed

definition wait_outcome :: "wait_env \<Rightarrow> nat \<Rightarrow> c_double option \<Rightarrow> xpio_state \<Rightarrow> slot_state \<Rightarrow> lua_error + wait_result \<times> xpio_state \<Rightarrow> bool" where
  "wait_outcome env qi arg s sl r \<longleftrightarrow>
     (if arg = None \<and> xpqueue_isEmpty qi s then \<exists>ps. r = Inr (NothingToWaitOn, set_pfds qi ps s)
      else (case poll_loop (poll_answers env) of
              None \<Rightarrow> False
            | Some (Inl e) \<Rightarrow> r = Inl (LuaError ''xpio: poll error'')
            | Some (Inr f) \<Rightarrow> \<exists>pr ps. (\<forall>p. xpproc_isExited (procs s) p \<longrightarrow> xpproc_isExited pr p) \<and>
                r = Inr (Ready (tasks_of (woken f sl pr s qi)) (if first_exits s qi = [] then poll_timeout arg else 0),
                         (set_pfds qi ps (retire_all qi (woken f sl pr s qi) s))\<lparr>procs := pr\<rparr>)))"

lemma wait_outcomes:
  assumes inv: "queue_inv s" and ok: "malloc_ok env" and r: "xpqueue_wait env qi arg s = Some r"
    and sl: "build_pfds True (queues s qi) = Inr sl"
  shows "wait_outcome env qi arg s sl r"
proof -
  let ?q = "queues s qi" and ?E0 = "first_exits s qi"
  let ?n = "length (filter (\<lambda>(k, t). \<not> xpqueue_exited s k) (children ?q))"
  let ?t = "if ?E0 = [] then poll_timeout arg else 0"
  have slots: "slots_inv (fds_of (readers ?q)) (fds_of (writers ?q)) sl"
    using build_pfds_inv [OF inv, of qi] sl by auto
  have first: "XPQueue_wakeChildWaiters qi ([], s) = ((tasks_of ?E0, retire_all qi ?E0 s), ?n)"
    by (simp add: XPQueue_wakeChildWaiters_def wake_children_retire first_exits_def)
  have t: "(if tasks_of ?E0 \<noteq> [] then 0 else poll_timeout arg) = ?t" by (simp add: tasks_of_def)
  obtain sl1 where sl1: "(if ?n \<noteq> 0 then alloc_slot True (sigPipe env) POLLIN sl else Inr sl) = Inr sl1"
    "sl_used sl1 = sl_used sl + (if ?n \<noteq> 0 then 1 else 0)" "sl_used sl1 \<le> length (sl_pfds sl1)"
    "map (\<lambda>p. (pfd_fd p, events p)) (take (sl_used sl) (sl_pfds sl1)) = slot_view sl"
    using sig_slot [OF slots, of "?n \<noteq> 0" "sigPipe env"] by blast
  note wait = r [unfolded xpqueue_wait_def ok [THEN eqTrueI] sl sum.case first Let_def prod.case t sl1(1)]
  have "?t = -1 \<and> sl_used sl1 = 0 \<longleftrightarrow> arg = None \<and> ?E0 = [] \<and> sl_used sl = 0 \<and> ?n = 0"
    by (auto simp: sl1(2) poll_timeout_forever)
  also have "\<dots> \<longleftrightarrow> arg = None \<and> xpqueue_isEmpty qi s"
    using no_slots [OF inv slots] no_waiters [of s qi]
    by (auto simp: xpqueue_isEmpty_def first_exits_nil exited_waiters_def)
  finally have idle: "?t = -1 \<and> sl_used sl1 = 0 \<longleftrightarrow> arg = None \<and> xpqueue_isEmpty qi s" .
  show ?thesis
  proof (cases "arg = None \<and> xpqueue_isEmpty qi s")
    case True
    then have "?E0 = []" by (simp add: xpqueue_isEmpty_def first_exits_nil exited_waiters_def)
    moreover have "sl_used sl1 = 0" using idle True by blast
    ultimately show ?thesis using wait True by (auto simp: wait_outcome_def set_pfds_def)
  next
    case False
    note wait1 = wait [unfolded if_not_P [OF False [folded idle]]]
    show ?thesis
    proof (cases "poll_loop (poll_answers env)")
      case None
      with wait1 show ?thesis by simp
    next
      case (Some a)
      show ?thesis
      proof (cases a)
        case (Inl e)
        with wait1 Some show ?thesis unfolding wait_outcome_def if_not_P [OF False] by simp
      next
        case (Inr f)
        let ?ps = "set_revents (sl_used sl1) f (sl_pfds sl1)"
        have "take (sl_used sl1 - (if ?n \<noteq> 0 then 1 else 0)) ?ps = polled f sl"
          using take_set_revents [of sl "sl_used sl1" "sl_pfds sl1" f] sl1 slots by (simp add: slots_inv_def)
        from wait_wake_result [OF slots this refl] have "\<exists>pr. r = Inr (Ready (tasks_of (woken f sl pr s qi)) ?t,
              (set_pfds qi ?ps (retire_all qi (woken f sl pr s qi) s))\<lparr>procs := pr\<rparr>) \<and>
            (\<forall>p. xpproc_isExited (procs s) p \<longrightarrow> xpproc_isExited pr p)"
          if "wait_wake env qi (?n \<noteq> 0) (sl_used sl1) ?t
            (tasks_of ?E0, set_pfds qi ?ps (retire_all qi ?E0 s)) = Some r"
          using that .
        moreover have "wait_wake env qi (?n \<noteq> 0) (sl_used sl1) ?t
            (tasks_of ?E0, set_pfds qi ?ps (retire_all qi ?E0 s)) = Some r"
          using wait1 Some Inr by (simp add: set_pfds_def)
        ultimately show ?thesis
          unfolding wait_outcome_def if_not_P [OF False] Some option.case Inr sum.case by blast
      qed
    qed
  qed
qed

section \<open>Which entries are woken\<close>

text \<open>\<open>poll\<close> reported, for the descriptor \<open>fd\<close>, the event \<open>flag\<close> or an error.\<close>

definition poll_reports :: "(nat \<Rightarrow> pflag set) \<Rightarrow> xpqueue \<Rightarrow> int \<Rightarrow> pflag \<Rightarrow> bool" where
  "poll_reports f q fd flag =
     (case build_pfds True q of
        Inl e \<Rightarrow> False
      | Inr sl \<Rightarrow> list_ex (\<lambda>i. pfd_fd (sl_pfds sl ! i) = fd \<and> f i \<inter> {flag, POLLERR, POLLHUP, POLLNVAL} \<noteq> {}) [0..<sl_used sl])"

fun happened :: "(nat \<Rightarrow> pflag set) \<Rightarrow> xpqueue \<Rightarrow> proc_state \<Rightarrow> qmode \<Rightarrow> qkey \<Rightarrow> bool" where
  "happened f q pr READ (Fd fd) = poll_reports f q fd POLLIN"
| "happened f q pr WRITE (Fd fd) = poll_reports f q fd POLLOUT"
| "happened f q pr CHILD (Proc p) = xpproc_isExited pr p"
| "happened f q pr m k = False"

lemma registered_map_of:
  "queue_inv s \<Longrightarrow> map_of (table_of m (queues s qi)) k = Some t \<longleftrightarrow> registered qi (m, k, t) s"
  by (auto simp: registered_def queue_inv_def)

lemma socket_entries_iff:
  assumes inv: "queue_inv s" and sl: "build_pfds True (queues s qi) = Inr sl"
  shows "e \<in> set (socket_entries f sl (queues s qi)) \<longleftrightarrow>
    (\<exists>m fd t. e = (m, Fd fd, t) \<and> m \<noteq> CHILD \<and> registered qi e s \<and> happened f (queues s qi) pr m (Fd fd))"
proof -
  let ?q = "queues s qi"
  have slots: "slots_inv (fds_of (readers ?q)) (fds_of (writers ?q)) sl"
    using build_pfds_inv [OF inv, of qi] sl by auto
  note ok = polled_slots_ok(2) [OF slots, of f]
  have look: "map_of (readers ?q) (Fd fd) = Some t \<longleftrightarrow> registered qi (READ, Fd fd, t) s"
    "map_of (writers ?q) (Fd fd) = Some t \<longleftrightarrow> registered qi (WRITE, Fd fd, t) s" for fd t
    using registered_map_of [OF inv, of READ qi] registered_map_of [OF inv, of WRITE qi] by simp_all
  have events: "POLLIN \<in> events pfd" if "pfd \<in> set (polled f sl)" "registered qi (READ, Fd (pfd_fd pfd), t) s" for pfd t
    using ok that by (auto simp: slot_ok_def look simp flip: look)
  have events2: "POLLOUT \<in> events pfd" if "pfd \<in> set (polled f sl)" "registered qi (WRITE, Fd (pfd_fd pfd), t) s" for pfd t
    using ok that by (auto simp: slot_ok_def look simp flip: look)
  have view: "slot_view sl ! i = (pfd_fd (sl_pfds sl ! i), events (sl_pfds sl ! i))" if "i < sl_used sl" for i
    using that slots by (simp add: slot_view_def slots_inv_def)
  have rep: "poll_reports f ?q fd flag \<longleftrightarrow>
      (\<exists>pfd \<in> set (polled f sl). pfd_fd pfd = fd \<and> revents pfd \<inter> {flag, POLLERR, POLLHUP, POLLNVAL} \<noteq> {})" for fd flag
    using view by (auto simp: poll_reports_def sl polled_def list_ex_iff)
  have "e \<in> set (socket_entries f sl ?q) \<longleftrightarrow>
      (\<exists>pfd t. pfd \<in> set (polled f sl) \<and> e = (READ, Fd (pfd_fd pfd), t) \<and> ready_in pfd \<and> registered qi e s) \<or>
      (\<exists>pfd t. pfd \<in> set (polled f sl) \<and> e = (WRITE, Fd (pfd_fd pfd), t) \<and> ready_out pfd \<and> registered qi e s)"
    using ok by (auto simp: socket_entries_def set_fired look)
  also have "\<dots> \<longleftrightarrow>
      (\<exists>fd t. e = (READ, Fd fd, t) \<and> registered qi e s \<and> poll_reports f ?q fd POLLIN) \<or>
      (\<exists>fd t. e = (WRITE, Fd fd, t) \<and> registered qi e s \<and> poll_reports f ?q fd POLLOUT)"
    unfolding rep ready_in_def ready_out_def using events events2 by blast
  also have "\<dots> \<longleftrightarrow> (\<exists>m fd t. e = (m, Fd fd, t) \<and> m \<noteq> CHILD \<and> registered qi e s \<and> happened f ?q pr m (Fd fd))"
    by (auto; metis happened.simps(1,2) qmode.exhaust)
  finally show ?thesis .
qed

lemma registered_child:
  "queue_inv s \<Longrightarrow> registered qi (CHILD, k, t) s \<Longrightarrow> \<exists>p. k = Proc p"
  by (cases k) (fastforce simp: queue_inv_def entry_ok_def)+

lemma woken_iff:
  assumes inv: "queue_inv s" and sl: "build_pfds True (queues s qi) = Inr sl"
    and mono: "\<forall>p. xpproc_isExited (procs s) p \<longrightarrow> xpproc_isExited pr p"
  shows "(m, k, t) \<in> set (woken f sl pr s qi) \<longleftrightarrow>
    registered qi (m, k, t) s \<and> happened f (queues s qi) pr m k"
proof -
  have exits: "exited_by (procs s) k \<Longrightarrow> exited_by pr k" for k
    using mono by (cases k) (auto simp: exited_by_def)
  have child: "happened f (queues s qi) pr CHILD k = exited_by pr k" for k
    by (cases k) (simp_all add: exited_by_def)
  have keys: "\<exists>fd. k = Fd fd" if "registered qi (m, k, t) s" "m \<noteq> CHILD" for m k t
    using that inv by (cases m; cases k) (fastforce simp: queue_inv_def entry_ok_def)+
  have "(m, k, t) \<in> set (woken f sl pr s qi) \<longleftrightarrow>
      (m = CHILD \<and> registered qi (m, k, t) s \<and> exited_by pr k) \<or> (m, k, t) \<in> set (socket_entries f sl (queues s qi))"
    using exits by (auto simp: woken_def first_exits_def late_exits_def set_as_entries exited_waiters_def
        xpqueue_exited_by registered_def)
  also have "\<dots> \<longleftrightarrow> registered qi (m, k, t) s \<and> happened f (queues s qi) pr m k"
    unfolding socket_entries_iff [OF inv sl, of _ f pr] using child by (cases "m = CHILD") (auto dest: keys)
  finally show ?thesis .
qed

lemma distinct_woken:
  assumes inv: "queue_inv s" and sl: "build_pfds True (queues s qi) = Inr sl"
  shows "distinct (woken f sl pr s qi)"
proof -
  let ?q = "queues s qi"
  have slots: "slots_inv (fds_of (readers ?q)) (fds_of (writers ?q)) sl"
    using build_pfds_inv [OF inv, of qi] sl by auto
  have sub: "fst (snd e) = Fd (pfd_fd pfd)" if "e \<in> set (fired ?q pfd)" for e pfd
    using that by (auto simp: fired_def split: if_splits)
  have one: "distinct (fired ?q pfd)" for pfd by (simp add: fired_def)
  have "distinct (concat (map (fired ?q) ps))" if "distinct (map pfd_fd ps)" for ps
    using that
  proof (induction ps)
    case (Cons pfd ps)
    have "set (fired ?q pfd) \<inter> set (concat (map (fired ?q) ps)) = {}"
    proof (rule equals0I)
      fix e assume "e \<in> set (fired ?q pfd) \<inter> set (concat (map (fired ?q) ps))"
      then obtain p1 where p1: "p1 \<in> set ps" "e \<in> set (fired ?q p1)" "e \<in> set (fired ?q pfd)" by auto
      with sub [of e p1] sub [of e pfd] have "pfd_fd p1 = pfd_fd pfd" by simp
      with p1(1) Cons.prems show False by (auto intro: rev_image_eqI)
    qed
    with Cons one show ?case by simp
  qed simp
  then have socks: "distinct (socket_entries f sl ?q)"
    using polled_slots_ok(1) [OF slots] by (simp add: socket_entries_def)
  have "distinct (children ?q)" using inv by (auto simp: queue_inv_def distinct_map dest: spec [of _ CHILD])
    (metis table_of.simps(3))
  then have kids: "distinct (as_entries CHILD (filter P (children ?q)))" for P
    by (auto simp: as_entries_def distinct_map intro: inj_onI)
  have "(CHILD, k, t) \<notin> set (socket_entries f sl ?q)" for k t
    unfolding socket_entries_iff [OF inv sl, of _ f pr] by simp
  then show ?thesis using socks kids
    by (auto simp: woken_def first_exits_def late_exits_def set_as_entries exited_waiters_def xpqueue_exited_by)
qed

section \<open>The queue as a machine\<close>

text \<open>
  A step is an operation on a queue that succeeds, the creation of a queue or of a task, or anything
  that changes process objects. Its label is the array of tasks \<open>wait\<close> returned.
\<close>

definition new_task :: "nat \<Rightarrow> nat \<Rightarrow> xpio_state \<Rightarrow> xpio_state" where
  "new_task t qi s = upd_task t \<lparr>t_queue = Some qi, t_dequeue = None, t_dequeuedata = None\<rparr> s"

inductive queue_step :: "xpio_state \<Rightarrow> nat list \<Rightarrow> xpio_state \<Rightarrow> bool" where
  q_new: "queue_step s [] (xpio_tqueue qi s)"
| q_task: "t_dequeue (tasks s t) = None \<Longrightarrow> queue_step s [] (new_task t qi s)"
| q_read: "xpsocket_when_read fd t s = Inr s1 \<Longrightarrow> queue_step s [] s1"
| q_write: "xpsocket_when_write fd t s = Inr s1 \<Longrightarrow> queue_step s [] s1"
| q_child: "xpproc_when_wait p t s = Inr s1 \<Longrightarrow> queue_step s [] s1"
| q_dequeue: "call_dequeue t s = Inr s1 \<Longrightarrow> queue_step s [] s1"
| q_dtor: "queue_step s [] (xpqueue_dtor qi s)"
| q_procs: "queue_step s [] (s\<lparr>procs := pr\<rparr>)"
| q_idle: "malloc_ok env \<Longrightarrow> xpqueue_wait env qi arg s = Some (Inr (NothingToWaitOn, s1)) \<Longrightarrow> queue_step s [] s1"
| q_wait: "malloc_ok env \<Longrightarrow> xpqueue_wait env qi arg s = Some (Inr (Ready ts t, s1)) \<Longrightarrow> queue_step s ts s1"

inductive_cases queue_stepE: "queue_step s ts s1"

definition xpio_start :: xpio_state where
  "xpio_start = \<lparr>tasks = \<lambda>_. \<lparr>t_queue = None, t_dequeue = None, t_dequeuedata = None\<rparr>,
     queues = \<lambda>_. \<lparr>readers = [], writers = [], children = [], pfds = []\<rparr>, procs = fst proc_start\<rparr>"

lemma table_start [simp]: "table_of m \<lparr>readers = [], writers = [], children = [], pfds = ps\<rparr> = []"
  by (cases m) simp_all

lemma queue_inv_start: "queue_inv xpio_start"
  by (simp add: queue_inv_def xpio_start_def registered_def)

lemma queue_invI:
  "(\<And>qi m. distinct (map fst (table_of m (queues s qi)))) \<Longrightarrow>
   (\<And>qi m k t. registered qi (m, k, t) s \<Longrightarrow> entry_ok qi (m, k, t) s) \<Longrightarrow> queue_inv s"
  by (simp add: queue_inv_def)

lemma queue_inv_same:
  "queue_inv s \<Longrightarrow> (\<And>m qi. table_of m (queues s1 qi) = table_of m (queues s qi)) \<Longrightarrow> tasks s1 = tasks s \<Longrightarrow> queue_inv s1"
  by (simp add: queue_inv_def registered_def entry_ok_def)

lemma enqueue_Inr:
  assumes "xpqueue_enqueue t k m s = Inr s1"
  obtains qi where "t_dequeue (tasks s t) = None" "t_queue (tasks s t) = Some qi"
    "s1 = upd_task t ((tasks s t)\<lparr>t_dequeue := Some m, t_dequeuedata := Some k\<rparr>)
            (upd_table qi m (AList.update k t (table_of m (queues s qi))) s)"
  using assms by (auto simp: xpqueue_enqueue_def xpqueue_tableFromTask_def Let_def split: if_splits option.splits)

lemma in_update:
  assumes "distinct (map fst w)"
  shows "(k1, t1) \<in> set (AList.update k t w) \<longleftrightarrow> (if k1 = k then t1 = t else (k1, t1) \<in> set w)"
  using map_of_eq_Some_iff [OF distinct_update [OF assms], of k t k1 t1] map_of_eq_Some_iff [OF assms, of k1 t1]
  by (auto simp: update_conv')

lemma queue_inv_enqueue:
  assumes inv: "queue_inv s" and ok: "key_ok m k" and enq: "xpqueue_enqueue t k m s = Inr s1"
  shows "queue_inv s1"
  using enq
proof (cases rule: enqueue_Inr)
  case (1 qi)
  have tables: "distinct (map fst (table_of m1 (queues s qj)))" for m1 qj using inv by (simp add: queue_inv_def)
  show ?thesis
  proof (rule queue_invI)
    show "distinct (map fst (table_of m1 (queues s1 qj)))" for qj m1
      using tables by (simp add: 1 distinct_update)
    fix qj m1 k1 t1
    assume reg: "registered qj (m1, k1, t1) s1"
    show "entry_ok qj (m1, k1, t1) s1"
    proof (cases "(qj, m1, k1, t1) = (qi, m, k, t)")
      case True
      with 1 ok show ?thesis by (simp add: entry_ok_def)
    next
      case False
      then have "registered qj (m1, k1, t1) s"
        using reg tables [of m qi] by (auto simp: 1 registered_def in_update split: if_splits)
      moreover from this have "t1 \<noteq> t" using unscheduled [OF inv 1(1)] by auto
      ultimately show ?thesis using inv by (auto simp: 1 queue_inv_def entry_ok_def)
    qed
  qed
qed

lemma dequeue_retire:
  assumes inv: "queue_inv s" and deq: "call_dequeue t s = Inr s1"
  shows "\<exists>qi m k. s1 = clear_dequeue t (upd_table qi m (AList.delete k (table_of m (queues s qi))) s) \<and>
    t_queue (tasks s t) = Some qi \<and> t_dequeue (tasks s t) = Some m \<and> t_dequeuedata (tasks s t) = Some k"
  using assms by (auto simp: call_dequeue_def xpqueue_dequeue_def xpqueue_tableFromTask_def split: option.splits)

lemma queue_inv_dequeue:
  assumes inv: "queue_inv s" and deq: "call_dequeue t s = Inr s1"
  shows "queue_inv s1"
proof -
  obtain qi m k where s1: "s1 = clear_dequeue t (upd_table qi m (AList.delete k (table_of m (queues s qi))) s)"
    and t: "t_queue (tasks s t) = Some qi" "t_dequeue (tasks s t) = Some m" "t_dequeuedata (tasks s t) = Some k"
    using dequeue_retire [OF assms] by blast
  show ?thesis
  proof (rule queue_invI)
    show "distinct (map fst (table_of m1 (queues s1 qj)))" for qj m1
      using inv by (simp add: s1 queue_inv_def distinct_delete)
    fix qj m1 k1 t1
    assume reg: "registered qj (m1, k1, t1) s1"
    then have reg0: "registered qj (m1, k1, t1) s" and ne: "(qj, m1, k1) \<noteq> (qi, m, k)"
      by (auto simp: s1 registered_def AList.delete_eq split: if_splits)
    then have "entry_ok qj (m1, k1, t1) s" using inv by (simp add: queue_inv_def)
    moreover from this t ne have "t1 \<noteq> t" by (auto simp: entry_ok_def)
    ultimately show "entry_ok qj (m1, k1, t1) s1" by (simp add: s1 entry_ok_def)
  qed
qed

lemma wait_ready:
  assumes inv: "queue_inv s" and ok: "malloc_ok env" and w: "xpqueue_wait env qi arg s = Some (Inr (Ready ts t, s1))"
  obtains sl f pr ps where "build_pfds True (queues s qi) = Inr sl" "poll_loop (poll_answers env) = Some (Inr f)"
    "\<forall>p. xpproc_isExited (procs s) p \<longrightarrow> xpproc_isExited pr p"
    "ts = tasks_of (woken f sl pr s qi)"
    "s1 = (set_pfds qi ps (retire_all qi (woken f sl pr s qi) s))\<lparr>procs := pr\<rparr>"
    "t = (if first_exits s qi = [] then poll_timeout arg else 0)"
    "\<forall>e \<in> set (woken f sl pr s qi). registered qi e s"
proof -
  obtain sl where sl: "build_pfds True (queues s qi) = Inr sl" using build_pfds_inv [OF inv, of qi] by blast
  from wait_outcomes [OF inv ok w sl] obtain f pr ps where *: "poll_loop (poll_answers env) = Some (Inr f)"
    "\<forall>p. xpproc_isExited (procs s) p \<longrightarrow> xpproc_isExited pr p"
    "ts = tasks_of (woken f sl pr s qi)"
    "s1 = (set_pfds qi ps (retire_all qi (woken f sl pr s qi) s))\<lparr>procs := pr\<rparr>"
    "t = (if first_exits s qi = [] then poll_timeout arg else 0)"
    by (auto simp: wait_outcome_def split: if_split_asm option.splits sum.splits)
  moreover have "\<forall>e \<in> set (woken f sl pr s qi). registered qi e s"
    using woken_iff [OF inv sl *(2)] by auto
  ultimately show thesis using that sl by blast
qed

lemma wait_idle_state:
  assumes inv: "queue_inv s" and ok: "malloc_ok env" and w: "xpqueue_wait env qi arg s = Some (Inr (NothingToWaitOn, s1))"
  shows "arg = None \<and> xpqueue_isEmpty qi s \<and> (\<exists>ps. s1 = set_pfds qi ps s)"
proof -
  obtain sl where sl: "build_pfds True (queues s qi) = Inr sl" using build_pfds_inv [OF inv, of qi] by blast
  from wait_outcomes [OF inv ok w sl] show ?thesis
    by (auto simp: wait_outcome_def split: if_split_asm option.splits sum.splits)
qed

definition all_scheduled :: "xpio_state \<Rightarrow> nat list \<Rightarrow> bool" where
  "all_scheduled s ts \<longleftrightarrow> distinct ts \<and> (\<forall>t \<in> set ts. \<exists>qi m k. registered qi (m, k, t) s)"

interpretation sched: machine queue_step queue_inv all_scheduled
proof unfold_locales
  fix s ts s1
  assume inv: "queue_inv s" and step: "queue_step s ts s1"
  from step show "queue_inv s1"
  proof (cases rule: queue_step.cases)
    case (q_new qi)
    then show ?thesis using inv
      by (auto simp: queue_inv_def xpio_tqueue_def registered_def entry_ok_def split: if_splits)
  next
    case (q_task t qi)
    then have "t1 \<noteq> t" if "registered qj (m, k, t1) s" for qj m k t1 using that unscheduled [OF inv] by auto
    then show ?thesis using inv q_task by (auto simp: queue_inv_def new_task_def registered_def entry_ok_def)
  next
    case (q_dequeue t)
    then show ?thesis using queue_inv_dequeue [OF inv] by simp
  next
    case (q_dtor qi)
    show ?thesis by (rule queue_inv_same [OF inv]) (auto simp: q_dtor xpqueue_dtor_def)
  next
    case (q_procs pr)
    show ?thesis by (rule queue_inv_same [OF inv]) (auto simp: q_procs)
  next
    case (q_idle env qi arg)
    then obtain ps where "s1 = set_pfds qi ps s" using wait_idle_state [OF inv] by blast
    then show ?thesis using queue_inv_same [OF inv] by simp
  next
    case (q_wait env qi arg t)
    obtain sl f pr ps where s1: "s1 = (set_pfds qi ps (retire_all qi (woken f sl pr s qi) s))\<lparr>procs := pr\<rparr>"
      and reg: "\<forall>e \<in> set (woken f sl pr s qi). registered qi e s"
      by (rule wait_ready [OF inv q_wait])
    show ?thesis by (rule queue_inv_same [OF queue_inv_retire_all [OF inv reg]]) (simp_all add: s1)
  next
    case (q_read fd t)
    with queue_inv_enqueue [OF inv, of READ "Fd fd"] show ?thesis by (simp add: xpsocket_when_read_def)
  next
    case (q_write fd t)
    with queue_inv_enqueue [OF inv, of WRITE "Fd fd"] show ?thesis by (simp add: xpsocket_when_write_def)
  next
    case (q_child p t)
    with queue_inv_enqueue [OF inv, of CHILD "Proc p"] show ?thesis by (simp add: xpproc_when_wait_def)
  qed
  from step show "all_scheduled s ts"
  proof (cases rule: queue_step.cases)
    case (q_wait env qi arg t)
    obtain sl f pr where
      *: "build_pfds True (queues s qi) = Inr sl" "ts = tasks_of (woken f sl pr s qi)"
        "\<forall>e \<in> set (woken f sl pr s qi). registered qi e s" by (rule wait_ready [OF inv q_wait])
    then show ?thesis using distinct_tasks_of [OF inv *(3) distinct_woken [OF inv *(1)]]
      by (auto simp: all_scheduled_def in_tasks_of) blast
  qed (simp_all add: all_scheduled_def)
qed

section \<open>Properties\<close>

text \<open>C1: the tasks \<open>wait\<close> returns are exactly those whose event happened, each once. A task waiting
  for a descriptor is returned if and only if \<open>poll\<close> reported its event or an error for that
  descriptor; a task waiting for a process if and only if the process is marked exited when
  \<open>wait\<close> returns, whether it exited earlier, was reaped for another queue, or was reaped in this
  call. No wakeup is lost and none is spurious.\<close>

theorem wait_returns_exactly_ready:
  assumes "queue_inv s" and "malloc_ok env"
    and "xpqueue_wait env qi arg s = Some (Inr (Ready ts timeout, s1))"
  shows "\<exists>f. poll_loop (poll_answers env) = Some (Inr f) \<and> distinct ts \<and>
    (\<forall>t. t \<in> set ts \<longleftrightarrow>
       (\<exists>m k. registered qi (m, k, t) s \<and> happened f (queues s qi) (procs s1) m k))"
proof -
  obtain sl f pr ps where sl: "build_pfds True (queues s qi) = Inr sl" and f: "poll_loop (poll_answers env) = Some (Inr f)"
    and mono: "\<forall>p. xpproc_isExited (procs s) p \<longrightarrow> xpproc_isExited pr p"
    and ts: "ts = tasks_of (woken f sl pr s qi)"
    and s1: "s1 = (set_pfds qi ps (retire_all qi (woken f sl pr s qi) s))\<lparr>procs := pr\<rparr>"
    and reg: "\<forall>e \<in> set (woken f sl pr s qi). registered qi e s"
    by (rule wait_ready [OF assms])
  have "t \<in> set ts \<longleftrightarrow> (\<exists>m k. registered qi (m, k, t) s \<and> happened f (queues s qi) (procs s1) m k)" for t
  proof -
    have "t \<in> set ts \<longleftrightarrow> (\<exists>m k. (m, k, t) \<in> set (woken f sl pr s qi))" by (simp add: ts in_tasks_of)
    moreover have "procs s1 = pr" by (simp add: s1)
    ultimately show ?thesis by (simp only: woken_iff [OF assms(1) sl mono])
  qed
  with f distinct_tasks_of [OF assms(1) reg distinct_woken [OF assms(1) sl]] show ?thesis
    unfolding ts by blast
qed

text \<open>C3: \<open>wait\<close> leaves the tasks it returns unscheduled (\<open>_dequeue\<close> is \<open>nil\<close> and no table of any
  queue holds them), so that each can be scheduled again; every other task keeps its fields and its
  registration, in this queue and in every other one.\<close>

theorem wait_unschedules_returned:
  assumes "queue_inv s" and "malloc_ok env"
    and "xpqueue_wait env qi arg s = Some (Inr (Ready ts timeout, s1))"
  shows "\<forall>t. (t \<in> set ts \<longrightarrow> t_dequeue (tasks s1 t) = None \<and> (\<forall>qj m k. \<not> registered qj (m, k, t) s1)) \<and>
     (t \<notin> set ts \<longrightarrow> tasks s1 t = tasks s t \<and>
        (\<forall>qj m k. registered qj (m, k, t) s1 \<longleftrightarrow> registered qj (m, k, t) s))"
proof -
  note inv = assms(1)
  obtain sl f pr ps where sl: "build_pfds True (queues s qi) = Inr sl"
    and mono: "\<forall>p. xpproc_isExited (procs s) p \<longrightarrow> xpproc_isExited pr p"
    and ts: "ts = tasks_of (woken f sl pr s qi)"
    and s1: "s1 = (set_pfds qi ps (retire_all qi (woken f sl pr s qi) s))\<lparr>procs := pr\<rparr>"
    and reg: "\<forall>e \<in> set (woken f sl pr s qi). registered qi e s"
    by (rule wait_ready [OF assms])
  let ?W = "woken f sl pr s qi"
  have key: "(m, k, t) \<in> set ?W" if "(m, k) \<in> keys_of ?W" "registered qi (m, k, t) s" for m k t
  proof -
    from that(1) obtain t1 where "(m, k, t1) \<in> set ?W" by (auto simp: keys_of_def)
    with reg registered_key [OF inv that(2)] show ?thesis by blast
  qed
  have in_keys: "(m, k) \<in> keys_of ?W" if "(m, k, t) \<in> set ?W" for m k t
    using that by (force simp: keys_of_def)
  have after: "registered qj (m, k, t) s1 \<longleftrightarrow> registered qj (m, k, t) s \<and> \<not> (qj = qi \<and> (m, k, t) \<in> set ?W)" for qj m k t
    using key [of m k t] in_keys [of m k t] by (auto simp: s1 registered_def retire_all_table split: if_splits)
  have mine: "qj = qi \<and> (m, k, t) \<in> set ?W" if "t \<in> set ts" "registered qj (m, k, t) s" for qj m k t
  proof -
    from that(1) obtain m1 k1 where e: "(m1, k1, t) \<in> set ?W" by (auto simp: ts in_tasks_of)
    with reg registered_task [OF inv that(2), of qi "(m1, k1, t)"] show ?thesis by auto
  qed
  have others: "\<not> (qj = qi \<and> (m, k, t) \<in> set ?W)" if "t \<notin> set ts" for qj m k t
    using that by (auto simp: ts in_tasks_of)
  have "tasks s1 t = (if t \<in> set ts then (tasks s t)\<lparr>t_dequeue := None\<rparr> else tasks s t)" for t
    by (simp add: s1 retire_all_tasks ts)
  then show ?thesis using after mine others by simp metis
qed

text \<open>\<open>wait\<close> fails only when \<open>poll\<close> itself does (never by indexing a table without an entry, in
  whatever combination descriptors are reported); and it returns \<open>nil\<close> exactly when the queue has
  no waiter and no timeout was given, without calling \<open>poll\<close>.\<close>

theorem wait_error_or_nil:
  assumes "queue_inv s" and "malloc_ok env"
  shows "(xpqueue_wait env qi arg s = Some (Inl e) \<longrightarrow>
            e = LuaError ''xpio: poll error'' \<and> (\<exists>n. poll_loop (poll_answers env) = Some (Inl n) \<and> n \<noteq> EINTR)) \<and>
     ((\<exists>s1. xpqueue_wait env qi arg s = Some (Inr (NothingToWaitOn, s1))) \<longleftrightarrow> arg = None \<and> xpqueue_isEmpty qi s)"
proof -
  obtain sl where sl: "build_pfds True (queues s qi) = Inr sl" using build_pfds_inv [OF assms(1), of qi] by blast
  have eintr: "n \<noteq> EINTR" if "poll_loop as = Some (Inl n)" for as n
    using that by (induction as rule: poll_loop.induct) (auto split: if_splits)
  have "e = LuaError ''xpio: poll error'' \<and> (\<exists>n. poll_loop (poll_answers env) = Some (Inl n) \<and> n \<noteq> EINTR)"
    if "xpqueue_wait env qi arg s = Some (Inl e)"
    using wait_outcomes [OF assms that sl] eintr
    by (auto simp: wait_outcome_def split: if_split_asm option.splits sum.splits)
  moreover have "\<exists>s1. xpqueue_wait env qi None s = Some (Inr (NothingToWaitOn, s1))" if "xpqueue_isEmpty qi s"
    using that by (simp add: xpqueue_isEmpty_def xpqueue_wait_def build_pfds_def XPQueue_wakeChildWaiters_def)
  ultimately show ?thesis using wait_idle_state [OF assms] by blast
qed

text \<open>A queue with a reader and a writer of descriptor 3 and a task that waits for a process.\<close>

definition demo :: xpio_state where
  "demo = \<lparr>tasks = (\<lambda>t. \<lparr>t_queue = Some 0,
        t_dequeue = (if t = 10 then Some READ else if t = 11 then Some WRITE else if t = 12 then Some CHILD else None),
        t_dequeuedata = (if t = 12 then Some (Proc 5) else Some (Fd 3))\<rparr>),
     queues = (\<lambda>q. if q = 0 then \<lparr>readers = [(Fd 3, 10)], writers = [(Fd 3, 11)], children = [(Proc 5, 12)], pfds = []\<rparr>
                   else \<lparr>readers = [], writers = [], children = [], pfds = []\<rparr>),
     procs = \<lparr>proc_heap = \<lambda>_. \<lparr>pid = 41, status = 0\<rparr>, gpHeadProc = [5]\<rparr>\<rparr>"

definition demo_env :: wait_env where
  "demo_env = \<lparr>malloc_ok = True, sigPipe = 7,
     poll_answers = [Inl EINTR, Inr (\<lambda>i. if i < 2 then {POLLIN} else {})],
     reap_reads = [1], reap_waits = [Exited 41 0, StillRunning]\<rparr>"

lemma demo_inv: "queue_inv demo"
proof (rule queue_invI)
  show "distinct (map fst (table_of m (queues demo qi)))" for qi m by (cases m) (simp_all add: demo_def)
  show "entry_ok qi (m, k, t) demo" if "registered qi (m, k, t) demo" for qi m k t
    using that by (cases m) (auto simp: demo_def registered_def entry_ok_def split: if_splits)
qed

lemma demo_wait: "\<exists>s1. xpqueue_wait demo_env 0 None demo = Some (Inr (Ready [10, 12] (-1), s1))"
  by (simp add: demo_def demo_env_def xpqueue_wait_def build_pfds_def alloc_slot_def XPQueue_ensureFDs_def
      growArray_def zero_pfd_def XPQueue_wakeChildWaiters_def xpproc_isExited_def wait_wake_def set_revents_def
      ready_in_def ready_out_def wake_one_def xpproc_reap_def upd_queue_def set_proc_def Let_def upd_table_def
      clear_dequeue_def upd_task_def numeral_eq_Suc)

theorem wait_returns_exactly_ready_witness:
  "\<exists>ts s1 f. xpqueue_wait demo_env 0 None demo = Some (Inr (Ready ts (-1), s1)) \<and> distinct ts \<and>
    (\<forall>t. t \<in> set ts \<longleftrightarrow>
       (\<exists>m k. registered 0 (m, k, t) demo \<and> happened f (queues demo 0) (procs s1) m k))"
proof -
  obtain s1 where w: "xpqueue_wait demo_env 0 None demo = Some (Inr (Ready [10, 12] (-1), s1))"
    using demo_wait by blast
  have "malloc_ok demo_env" by (simp add: demo_env_def)
  from wait_returns_exactly_ready [OF demo_inv this w] w show ?thesis by blast
qed

theorem wait_unschedules_returned_witness:
  "\<exists>s1. xpqueue_wait demo_env 0 None demo = Some (Inr (Ready [10, 12] (-1), s1)) \<and>
     t_dequeue (tasks s1 10) = None \<and> \<not> registered 0 (READ, Fd 3, 10) s1 \<and> registered 0 (WRITE, Fd 3, 11) s1"
proof -
  obtain s1 where w: "xpqueue_wait demo_env 0 None demo = Some (Inr (Ready [10, 12] (-1), s1))"
    using demo_wait by blast
  have "malloc_ok demo_env" by (simp add: demo_env_def)
  note after = wait_unschedules_returned [OF demo_inv this w]
  have "registered 0 (WRITE, Fd 3, 11) demo" by (simp add: registered_def demo_def)
  with w after [THEN spec, of 10] after [THEN spec, of 11] show ?thesis by simp
qed

theorem wait_error_or_nil_witness:
  "\<exists>s1. xpqueue_wait demo_env 1 None demo = Some (Inr (NothingToWaitOn, s1))"
proof -
  have "malloc_ok demo_env" by (simp add: demo_env_def)
  moreover have "xpqueue_isEmpty 1 demo" by (simp add: xpqueue_isEmpty_def demo_def)
  ultimately show ?thesis
    using wait_error_or_nil [OF demo_inv, of demo_env 1 None "LuaError []"] by blast
qed

text \<open>The answers that end the three loops of \<open>wait\<close>.\<close>

definition ends_poll :: "errno + (nat \<Rightarrow> pflag set) \<Rightarrow> bool" where
  "ends_poll a \<longleftrightarrow> a \<noteq> Inl EINTR"

definition ends_reaping :: "wait_answer \<Rightarrow> bool" where
  "ends_reaping w \<longleftrightarrow> (case w of Exited n code \<Rightarrow> n \<le> 0 | StillRunning \<Rightarrow> True | WaitFailed e \<Rightarrow> e \<noteq> EINTR)"

lemma poll_loop_returns: "\<exists>a \<in> set as. ends_poll a \<Longrightarrow> poll_loop as \<noteq> None"
  by (induction as rule: poll_loop.induct) (auto simp: ends_poll_def)

lemma drain_pipe_returns: "\<exists>n \<in> set ns. n \<noteq> 32 \<Longrightarrow> drain_pipe ns r \<noteq> None"
  by (induction ns r rule: drain_pipe.induct) (auto simp: Let_def)

lemma reaped_returns: "\<exists>w \<in> set ws. ends_reaping w \<Longrightarrow> reaped ws \<noteq> None"
  by (induction ws rule: reaped.induct) (auto simp: ends_reaping_def)

lemma reap_children_returns: "reaped ws \<noteq> None \<Longrightarrow> reap_children ws k st \<noteq> None"
  by (induction ws k st rule: reap_children.induct) (auto split: prod.splits if_splits)

text \<open>C9: \<open>wait\<close> returns (a value or an error) as soon as the system gives one answer that is not a request to
  try again to each of the three calls it repeats: for \<open>poll\<close> anything but an interrupted call, also an
  error, for \<open>read\<close> on the signal pipe anything but a full buffer, for \<open>waitpid\<close> anything but an exit or an
  interrupted call. Nothing else is waited for, and nothing else is retried.\<close>

theorem wait_returns:
  assumes "\<exists>a \<in> set (poll_answers env). a \<noteq> Inl EINTR"
    and "\<exists>n \<in> set (reap_reads env). n \<noteq> 32"
    and "\<exists>w \<in> set (reap_waits env). w = StillRunning \<or> (\<exists>e. w = WaitFailed e \<and> e \<noteq> EINTR) \<or> (\<exists>n code. w = Exited n code \<and> n \<le> 0)"
  shows "xpqueue_wait env qi arg s \<noteq> None"
proof -
  have poll: "poll_loop (poll_answers env) \<noteq> None"
    by (rule poll_loop_returns) (use assms(1) in \<open>simp add: ends_poll_def\<close>)
  have "\<exists>w \<in> set (reap_waits env). ends_reaping w"
    using assms(3) by (auto simp: ends_reaping_def intro: rev_bexI)
  then have "reap_children (reap_waits env) 0 st \<noteq> None" for st
    by (intro reap_children_returns reaped_returns)
  then have "\<exists>a. xpproc_reap (reap_reads env) (reap_waits env) st = Some a" for st
    using drain_pipe_returns [OF assms(2), of False] by (auto simp: xpproc_reap_def)
  then obtain R where R: "\<And>st. xpproc_reap (reap_reads env) (reap_waits env) st = Some (R st)" by metis
  have "wait_wake env qi w used t rs \<noteq> None" for w used t rs
    unfolding wait_wake_def Let_def R by (simp split: sum.split prod.split)
  with poll show ?thesis
    by (auto simp: xpqueue_wait_def Let_def split: sum.splits option.splits prod.splits if_splits)
qed

text \<open>Here \<open>poll\<close> fails at its first answer.\<close>

theorem wait_returns_witness:
  "xpqueue_wait (demo_env\<lparr>poll_answers := [Inl (EOTHER 9)]\<rparr>) 0 None demo \<noteq> None"
  by (rule wait_returns) (simp_all add: demo_env_def)

text \<open>the timeout \<open>wait\<close> gives to \<open>poll\<close>. No argument means to wait for ever, and only that does;
  a number of milliseconds that is not negative is truncated and limited to \<open>INT_MAX\<close>, a negative one
  means not to wait; and when a process somebody waits for has already exited, \<open>wait\<close> does not block
  whatever it was given.\<close>

theorem wait_timeout:
  assumes "queue_inv s" and "malloc_ok env"
    and "xpqueue_wait env qi arg s = Some (Inr (Ready ts timeout, s1))"
  shows "((\<exists>p t. registered qi (CHILD, Proc p, t) s \<and> xpproc_isExited (procs s) p) \<longrightarrow> timeout = 0) \<and>
     ((\<nexists>p t. registered qi (CHILD, Proc p, t) s \<and> xpproc_isExited (procs s) p) \<longrightarrow>
        (timeout = -1 \<longleftrightarrow> arg = None) \<and>
        (\<forall>r. arg = Some (Finite r) \<longrightarrow> timeout = (if r < 0 then 0 else min \<lfloor>r\<rfloor> INT_MAX)))"
proof -
  have t: "timeout = (if first_exits s qi = [] then poll_timeout arg else 0)"
    by (rule wait_ready [OF assms])
  have early: "first_exits s qi = [] \<longleftrightarrow> (\<nexists>p t. registered qi (CHILD, Proc p, t) s \<and> xpproc_isExited (procs s) p)"
  proof -
    have "first_exits s qi = [] \<longleftrightarrow> (\<forall>k t. registered qi (CHILD, k, t) s \<longrightarrow> \<not> exited_by (procs s) k)"
      by (auto simp: first_exits_nil exited_waiters_def filter_empty_conv registered_def xpqueue_exited_by)
    also have "\<dots> \<longleftrightarrow> (\<nexists>p t. registered qi (CHILD, Proc p, t) s \<and> xpproc_isExited (procs s) p)"
      by (metis exited_by_def qkey.exhaust qkey.simps(5) qkey.simps(6))
    finally show ?thesis .
  qed
  have "poll_timeout (Some (Finite r)) = (if r < 0 then 0 else min \<lfloor>r\<rfloor> INT_MAX)" for r
    by (auto simp: min_def INT_MAX_def not_less le_floor_iff floor_le_iff floor_less_iff) linarith+
  then show ?thesis using t early poll_timeout_forever by auto
qed

theorem wait_timeout_witness:
  "\<exists>ts s1. xpqueue_wait demo_env 0 None demo = Some (Inr (Ready ts (-1), s1)) \<and>
     (\<nexists>p t. registered 0 (CHILD, Proc p, t) demo \<and> xpproc_isExited (procs demo) p)"
proof -
  obtain s1 where w: "xpqueue_wait demo_env 0 None demo = Some (Inr (Ready [10, 12] (-1), s1))"
    using demo_wait by blast
  have "malloc_ok demo_env" by (simp add: demo_env_def)
  from wait_timeout [OF demo_inv this w] w show ?thesis by (auto intro: exI [of _ s1])
qed

text \<open>C8: scheduling a task. A task already scheduled is rejected with an error; a
  task without a queue is rejected; otherwise the task is entered in the table of its queue for that
  mode under that key, and its fields say so. Unscheduling it with its \<open>_dequeue\<close> then removes the
  entry again: if the key was free before, all tables are as they were.\<close>

theorem enqueue_then_dequeue:
  assumes "queue_inv s"
  shows "case xpqueue_enqueue t k m s of
      Inl e \<Rightarrow> e = (if t_dequeue (tasks s t) \<noteq> None then LuaError ''xpio: task scheduled twice''
                    else LuaError ''XPQueue object expected'') \<and>
               (t_dequeue (tasks s t) \<noteq> None \<or> t_queue (tasks s t) = None)
    | Inr s1 \<Rightarrow> \<exists>qi. t_queue (tasks s t) = Some qi \<and>
        map_of (table_of m (queues s1 qi)) k = Some t \<and>
        (\<exists>s2. call_dequeue t s1 = Inr s2 \<and> t_dequeue (tasks s2 t) = None \<and>
          (map_of (table_of m (queues s qi)) k = None \<longrightarrow>
            (\<forall>qj m1. map_of (table_of m1 (queues s2 qj)) = map_of (table_of m1 (queues s qj)))))"
proof (cases "xpqueue_enqueue t k m s")
  case (Inl e)
  then show ?thesis
    by (auto simp: xpqueue_enqueue_def xpqueue_tableFromTask_def Let_def split: if_splits option.splits)
next
  case (Inr s1)
  then show ?thesis
  proof (cases rule: enqueue_Inr)
    case (1 qi)
    let ?w = "table_of m (queues s qi)"
    have wf: "distinct (map fst ?w)" using assms by (simp add: queue_inv_def)
    have "call_dequeue t s1 = Inr (clear_dequeue t (upd_table qi m (AList.delete k (AList.update k t ?w)) s1))"
      by (simp add: 1 call_dequeue_def xpqueue_dequeue_def xpqueue_tableFromTask_def)
    then show ?thesis using 1 waiting.put_del_absent [OF wf, of k t] waiting.lookup_put [OF wf, of k t k]
      by (simp add: Inr)
  qed
qed

theorem enqueue_then_dequeue_witness:
  "case xpqueue_enqueue 13 (Fd 4) READ demo of Inl e \<Rightarrow> False
     | Inr s1 \<Rightarrow> map_of (table_of READ (queues s1 0)) (Fd 4) = Some 13"
  using enqueue_then_dequeue [OF demo_inv, where t = 13 and k = "Fd 4" and m = READ]
  by (auto simp: demo_def split: sum.splits)

text \<open>a second task that waits for the same descriptor in the same direction displaces the first
  without any error. The first stays marked as scheduled, but no table holds it, so no \<open>wait\<close> ever
  returns it; and when it is unscheduled, the entry of the second task is removed instead.\<close>

theorem second_reader_displaces_first:
  assumes "queue_inv s" and "t1 \<noteq> t2"
    and "t_queue (tasks s t1) = Some qi" and "t_dequeue (tasks s t1) = None"
    and "t_queue (tasks s t2) = Some qi" and "t_dequeue (tasks s t2) = None"
  shows "\<exists>s1 s2 s3. xpsocket_when_read fd t1 s = Inr s1 \<and> xpsocket_when_read fd t2 s1 = Inr s2 \<and>
     t_dequeue (tasks s2 t1) = Some READ \<and> (\<forall>qj m k. \<not> registered qj (m, k, t1) s2) \<and>
     registered qi (READ, Fd fd, t2) s2 \<and>
     call_dequeue t1 s2 = Inr s3 \<and> t_dequeue (tasks s3 t2) = Some READ \<and>
     (\<forall>qj m k. \<not> registered qj (m, k, t2) s3)"
proof -
  obtain s1 where s1: "xpqueue_enqueue t1 (Fd fd) READ s = Inr s1"
    using assms by (simp add: xpqueue_enqueue_def xpqueue_tableFromTask_def Let_def)
  have inv1: "queue_inv s1" using queue_inv_enqueue [OF assms(1) _ s1] by simp
  obtain s2 where s2: "xpqueue_enqueue t2 (Fd fd) READ s1 = Inr s2"
    using assms s1 by (auto simp: xpqueue_enqueue_def xpqueue_tableFromTask_def Let_def)
  have inv2: "queue_inv s2" using queue_inv_enqueue [OF inv1 _ s2] by simp
  have w: "distinct (map fst (readers (queues s qi)))"
    using assms(1) by (auto simp: queue_inv_def dest: spec [of _ READ]) (metis table_of.simps(1))
  note defs = xpqueue_enqueue_def xpqueue_tableFromTask_def Let_def
  have t1: "t_dequeue (tasks s2 t1) = Some READ" "t_dequeuedata (tasks s2 t1) = Some (Fd fd)"
    "t_queue (tasks s2 t1) = Some qi"
    using s1 s2 assms by (auto simp: defs)
  have t2: "t_dequeue (tasks s2 t2) = Some READ" using s1 s2 assms by (auto simp: defs)
  have rd: "readers (queues s2 qi) = AList.update (Fd fd) t2 (AList.update (Fd fd) t1 (readers (queues s qi)))"
    using s1 s2 assms by (auto simp: defs)
  have reg2: "registered qi (READ, Fd fd, t2) s2"
    using w by (simp add: registered_def rd in_update distinct_update)
  have gone: "\<not> registered qj (m, k, t1) s2" for qj m k
  proof
    assume r: "registered qj (m, k, t1) s2"
    then have "entry_ok qj (m, k, t1) s2" using inv2 by (simp add: queue_inv_def)
    with t1 have "qj = qi" "m = READ" "k = Fd fd" by (simp_all add: entry_ok_def)
    with r registered_key [OF inv2 reg2] assms(2) show False by blast
  qed
  obtain s3 where s3: "call_dequeue t1 s2 = Inr s3"
    using t1 by (simp add: call_dequeue_def xpqueue_dequeue_def xpqueue_tableFromTask_def)
  then have s3_def: "s3 = clear_dequeue t1 (upd_table qi READ (AList.delete (Fd fd) (table_of READ (queues s2 qi))) s2)"
    using t1 by (simp add: call_dequeue_def xpqueue_dequeue_def xpqueue_tableFromTask_def)
  have "\<not> registered qj (m, k, t2) s3" for qj m k
  proof
    assume r: "registered qj (m, k, t2) s3"
    then have "registered qj (m, k, t2) s2" and "\<not> (qj = qi \<and> m = READ \<and> k = Fd fd)"
      by (cases m; auto simp: s3_def registered_def AList.delete_eq split: if_splits)+
    with registered_task [OF inv2 _ reg2, of qj "(m, k, t2)"] show False by auto
  qed
  with s1 s2 t1 t2 gone reg2 s3 assms(2) show ?thesis
    by (auto simp: xpsocket_when_read_def s3_def intro!: exI)
qed

theorem second_reader_displaces_first_witness:
  "\<exists>s1 s2. xpsocket_when_read 4 13 demo = Inr s1 \<and> xpsocket_when_read 4 14 s1 = Inr s2 \<and>
     t_dequeue (tasks s2 13) = Some READ \<and> (\<forall>qj m k. \<not> registered qj (m, k, 13) s2)"
  using second_reader_displaces_first [OF demo_inv, of 13 14 0 4] by (auto simp: demo_def)

text \<open>C5: the invariant of the scheduler holds in every state a program can reach with the library's
  operations: entries and task fields agree (an entry for a task names the queue, the mode and the key
  the task records, so a task is in at most one table once), keys are unique, and whatever \<open>wait\<close>
  returns there is a list of distinct tasks that were scheduled.\<close>

theorem scheduler_invariant:
  assumes "reaches queue_step xpio_start s"
  shows "queue_inv s \<and> (queue_step s ts s1 \<longrightarrow> all_scheduled s ts)"
  using sched.inv_reached [OF assms queue_inv_start] sched.good_reached [OF assms queue_inv_start] by blast

theorem scheduler_invariant_witness:
  "queue_inv (new_task 3 0 (xpio_tqueue 0 xpio_start))"
proof -
  have "reaches queue_step xpio_start (xpio_tqueue 0 xpio_start)"
    by (rule reaches_step [where step = queue_step, OF reaches_refl q_new])
  then have "reaches queue_step xpio_start (new_task 3 0 (xpio_tqueue 0 xpio_start))"
    by (rule reaches_step [where step = queue_step, OF _ q_task]) (simp add: xpio_tqueue_def xpio_start_def)
  then show ?thesis using scheduler_invariant by blast
qed

end
