(* ===== verification/XpioSocket.thy ===== *)
theory XpioSocket
  imports XpioUtil
begin

text \<open>
  Socket objects (\<open>XPSocket\<close> in \<open>luau/xpio_c.c\<close>): who owns which descriptor, the "try" operations
  and their errors, socket options, and the remaining functions of the module (\<open>_nextfd\<close>, \<open>getenv\<close>).
  An object is named by its address; \<open>sock_s\<close> holds its field \<open>s\<close>. What a system call answers is
  an argument: \<open>Inl e\<close> when it fails with \<open>errno = e\<close>. The calls of \<open>close\<close> an operation makes are
  part of its result.
\<close>

section \<open>Failure results\<close>

text \<open>\<open>pushError(L, pszFmt)\<close>; no format in the code other than the default has a conversion in it.\<close>

definition pushError :: "(errno \<Rightarrow> string) \<Rightarrow> errno \<Rightarrow> string option \<Rightarrow> lua_value list" where
  "pushError strerror e pszFmt =
     [LNil, LString (case pszFmt of None \<Rightarrow> strerror e | Some fmt \<Rightarrow> fmt)]"

definition retry_or_error :: "(errno \<Rightarrow> string) \<Rightarrow> errno \<Rightarrow> lua_value list" where
  "retry_or_error strerror e = pushError strerror e (if isRetry e then Some ''retry'' else None)"

section \<open>Objects and descriptors\<close>

record sock_state =
  sock_objs :: "nat set"
  sock_s :: "nat \<Rightarrow> int"

datatype close_call = CloseCall int

definition set_s :: "nat \<Rightarrow> int \<Rightarrow> sock_state \<Rightarrow> sock_state" where
  "set_s p fd st = st\<lparr>sock_s := (sock_s st)(p := fd)\<rparr>"

definition xpsocket_new :: "nat \<Rightarrow> sock_state \<Rightarrow> sock_state" where
  "xpsocket_new p st = set_s p (-1) st\<lparr>sock_objs := insert p (sock_objs st)\<rparr>"

text \<open>The collector calls the destructor once and then frees the object.\<close>

definition xpsocket_dtor :: "nat \<Rightarrow> sock_state \<Rightarrow> sock_state \<times> close_call list" where
  "xpsocket_dtor p st =
     (let st1 = st\<lparr>sock_objs := sock_objs st - {p}\<rparr>
      in if sock_s st p \<noteq> 0 then (set_s p (-1) st1, [CloseCall (sock_s st p)]) else (st1, []))"

definition xpsocket_close ::
  "(errno \<Rightarrow> string) \<Rightarrow> errno \<Rightarrow> nat \<Rightarrow> sock_state \<Rightarrow> sock_state \<times> close_call list \<times> lua_value list" where
  "xpsocket_close strerror e p st =
     (if sock_s st p \<noteq> -1 then (set_s p (-1) st, [CloseCall (sock_s st p)], [LBool True])
      else (st, [], pushError strerror e (Some ''already closed'')))"

definition xpsocket_fileno :: "nat \<Rightarrow> sock_state \<Rightarrow> lua_value list" where
  "xpsocket_fileno p st = [LInteger (sock_s st p)]"

text \<open>\<open>accept\<close> and then \<open>setNonBlocking\<close>; \<open>ps\<close> is the address of the new object.\<close>

definition xpsocket_try_accept ::
  "(errno \<Rightarrow> string) \<Rightarrow> errno + int \<Rightarrow> errno option \<Rightarrow> nat \<Rightarrow> sock_state \<Rightarrow> sock_state \<times> close_call list \<times> lua_value list"
where
  "xpsocket_try_accept strerror accepted nonblock ps st =
     (let st1 = xpsocket_new ps st
      in (case accepted of
            Inl e \<Rightarrow> (st1, [], retry_or_error strerror e)
          | Inr fd \<Rightarrow>
              (case nonblock of
                 Some e \<Rightarrow> (st1, [CloseCall fd], pushError strerror e None)
               | None \<Rightarrow> (set_s ps fd st1, [], [LObject ps]))))"

definition xpio_socket ::
  "(errno \<Rightarrow> string) \<Rightarrow> string \<Rightarrow> (bool \<Rightarrow> errno + int) \<Rightarrow> errno option \<Rightarrow> nat \<Rightarrow> sock_state \<Rightarrow> sock_state \<times> lua_value list"
where
  "xpio_socket strerror typeName sys_socket nonblock me st =
     (let st1 = xpsocket_new me st
      in if typeName \<noteq> ''TCP'' \<and> typeName \<noteq> ''UDP''
         then (st1, [LNil, LString ''xpio: unsupported socket type''])
         else (case sys_socket (typeName = ''TCP'') of
                 Inl e \<Rightarrow> (st1, pushError strerror e None)
               | Inr fd \<Rightarrow>
                   (set_s me fd st1,
                    case nonblock of Some e \<Rightarrow> pushError strerror e None | None \<Rightarrow> [LObject me])))"

text \<open>\<open>pipe\<close> and \<open>socketpair\<close>: both descriptors, then \<open>setNonBlocking\<close> of each in turn.\<close>

definition xpio_pair ::
  "(errno \<Rightarrow> string) \<Rightarrow> errno + int \<times> int \<Rightarrow> errno option \<Rightarrow> errno option \<Rightarrow> nat \<Rightarrow> nat \<Rightarrow> sock_state \<Rightarrow> sock_state \<times> lua_value list"
where
  "xpio_pair strerror spOut nonblock0 nonblock1 psA psB st =
     (let st1 = xpsocket_new psB (xpsocket_new psA st)
      in (case spOut of
            Inl e \<Rightarrow> (st1, pushError strerror e None)
          | Inr (fdA, fdB) \<Rightarrow>
              (set_s psB fdB (set_s psA fdA st1),
               case nonblock0 of
                 Some e \<Rightarrow> pushError strerror e None
               | None \<Rightarrow> (case nonblock1 of
                            Some e \<Rightarrow> pushError strerror e None
                          | None \<Rightarrow> [LObject psA, LObject psB]))))"

definition xpio_fdopen ::
  "(errno \<Rightarrow> string) \<Rightarrow> c_double \<Rightarrow> (int \<Rightarrow> errno + int) \<Rightarrow> nat \<Rightarrow> sock_state \<Rightarrow> lua_error + sock_state \<times> lua_value list"
where
  "xpio_fdopen strerror arg dup ps st =
     (let st1 = xpsocket_new ps st
      in (case checkUInt 1 arg of
            Inl err \<Rightarrow> Inl err
          | Inr n \<Rightarrow>
              (case dup (sint n) of
                 Inl e \<Rightarrow> Inr (st1, pushError strerror e None)
               | Inr fd \<Rightarrow> Inr (set_s ps fd st1, [LObject ps]))))"

section \<open>Reading, writing, connecting\<close>

text \<open>\<open>read\<close> answers with the bytes it read, \<open>[]\<close> at the end of the stream.\<close>

definition xpsocket_try_read ::
  "(errno \<Rightarrow> string) \<Rightarrow> c_double \<Rightarrow> (nat \<Rightarrow> errno + string) \<Rightarrow> lua_error + lua_value list" where
  "xpsocket_try_read strerror arg sys_read =
     (case checkUInt 2 arg of
        Inl err \<Rightarrow> Inl err
      | Inr nbytes \<Rightarrow>
          Inr (if nbytes = 0 then [LInteger 0]
               else (case sys_read (unat nbytes) of
                       Inl e \<Rightarrow> retry_or_error strerror e
                     | Inr bytes \<Rightarrow> if bytes \<noteq> [] then [LString bytes] else [LNil])))"

definition xpsocket_try_write :: "(errno \<Rightarrow> string) \<Rightarrow> string \<Rightarrow> (string \<Rightarrow> errno + nat) \<Rightarrow> lua_value list" where
  "xpsocket_try_write strerror data sys_write =
     (case sys_write data of
        Inl e \<Rightarrow> retry_or_error strerror e
      | Inr n \<Rightarrow> [LInteger (int n)])"

datatype shut_how = SHUT_RD | SHUT_WR | SHUT_RDWR

definition xpsocket_shutdown :: "(errno \<Rightarrow> string) \<Rightarrow> string \<Rightarrow> (shut_how \<Rightarrow> errno option) \<Rightarrow> lua_value list" where
  "xpsocket_shutdown strerror flags sys_shutdown =
     (let shutr = CHR ''r'' \<in> set flags; shutw = CHR ''w'' \<in> set flags
      in if shutr \<or> shutw then
           (case sys_shutdown (if shutr \<and> shutw then SHUT_RDWR else if shutr then SHUT_RD else SHUT_WR) of
              Some e \<Rightarrow> pushError strerror e None
            | None \<Rightarrow> [LBool True])
         else [LBool True])"

text \<open>
  \<open>errno\<close> is not set by \<open>addrFromString\<close>; \<open>junk\<close> is what it happens to be, which the format does
  not print.
\<close>

definition xpsocket_bind ::
  "(errno \<Rightarrow> string) \<Rightarrow> errno \<Rightarrow> string \<Rightarrow> (sockaddr_in \<Rightarrow> errno option) \<Rightarrow> lua_value list" where
  "xpsocket_bind strerror junk addr sys_bind =
     (case addrFromString addr of
        None \<Rightarrow> pushError strerror junk (Some ''xpio: mal-formed address argument'')
      | Some psin \<Rightarrow>
          (case sys_bind psin of Some e \<Rightarrow> pushError strerror e None | None \<Rightarrow> [LBool True]))"

definition xpsocket_try_connect ::
  "(errno \<Rightarrow> string) \<Rightarrow> errno \<Rightarrow> string \<Rightarrow> (sockaddr_in \<Rightarrow> errno option) \<Rightarrow> lua_value list" where
  "xpsocket_try_connect strerror junk addr sys_connect =
     (case addrFromString addr of
        None \<Rightarrow> pushError strerror junk (Some ''xpio: mal-formed address'')
      | Some psin \<Rightarrow>
          (case sys_connect psin of
             Some e \<Rightarrow> if e \<noteq> EISCONN then retry_or_error strerror e else [LBool True]
           | None \<Rightarrow> [LBool True]))"

definition xpsocket_listen ::
  "(errno \<Rightarrow> string) \<Rightarrow> c_double option \<Rightarrow> (int \<Rightarrow> errno option) \<Rightarrow> lua_error + lua_value list" where
  "xpsocket_listen strerror arg sys_listen =
     (case (case arg of None \<Rightarrow> Inr 10 | Some num \<Rightarrow> checkUInt 2 num) of
        Inl err \<Rightarrow> Inl err
      | Inr backlog \<Rightarrow>
          Inr (case sys_listen (sint backlog) of
                 Some e \<Rightarrow> pushError strerror e None
               | None \<Rightarrow> [LBool True]))"

text \<open>\<open>getsockname\<close> and \<open>getpeername\<close> differ in the system call only.\<close>

definition xpsocket_getsockname :: "(errno \<Rightarrow> string) \<Rightarrow> string \<Rightarrow> errno + sockaddr_in \<Rightarrow> lua_value list" where
  "xpsocket_getsockname strerror junk answer =
     (case answer of Inl e \<Rightarrow> pushError strerror e None | Inr psin \<Rightarrow> xpsocket_getXname junk psin)"

definition xpsocket_getpeername :: "(errno \<Rightarrow> string) \<Rightarrow> string \<Rightarrow> errno + sockaddr_in \<Rightarrow> lua_value list" where
  "xpsocket_getpeername strerror junk answer =
     (case answer of Inl e \<Rightarrow> pushError strerror e None | Inr psin \<Rightarrow> xpsocket_getXname junk psin)"

section \<open>Socket options\<close>

datatype opt_type = SOCKOPT_BOOL | SOCKOPT_SIZE
datatype opt_category = SOCKOPT_SO | SOCKOPT_NB

text \<open>The level and name of an option are identified by its string.\<close>

record SockOpt =
  opt_str :: string
  opt_type :: opt_type
  opt_category :: opt_category

definition opts :: "SockOpt list" where
  "opts =
     [\<lparr>opt_str = ''TCP_NODELAY'', opt_type = SOCKOPT_BOOL, opt_category = SOCKOPT_SO\<rparr>,
      \<lparr>opt_str = ''SO_KEEPALIVE'', opt_type = SOCKOPT_BOOL, opt_category = SOCKOPT_SO\<rparr>,
      \<lparr>opt_str = ''SO_REUSEADDR'', opt_type = SOCKOPT_BOOL, opt_category = SOCKOPT_SO\<rparr>,
      \<lparr>opt_str = ''SO_RCVBUF'', opt_type = SOCKOPT_SIZE, opt_category = SOCKOPT_SO\<rparr>,
      \<lparr>opt_str = ''SO_SNDBUF'', opt_type = SOCKOPT_SIZE, opt_category = SOCKOPT_SO\<rparr>,
      \<lparr>opt_str = ''O_NONBLOCK'', opt_type = SOCKOPT_BOOL, opt_category = SOCKOPT_NB\<rparr>]"

definition findSockOpt :: "string \<Rightarrow> SockOpt option" where
  "findSockOpt psz = find (\<lambda>po. opt_str po = psz) opts"

text \<open>
  The system as the two operations see it, for one descriptor: \<open>so_get\<close>, \<open>so_set\<close> are
  \<open>getsockopt\<close>, \<open>setsockopt\<close> on the option of that name, \<open>so_getfl\<close>, \<open>so_setfl\<close> are \<open>fcntl\<close>, and
  \<open>so_errno\<close> is \<open>errno\<close> after a failed call.
\<close>

record 'os sock_os =
  so_get :: "'os \<Rightarrow> string \<Rightarrow> errno + int"
  so_set :: "'os \<Rightarrow> string \<Rightarrow> int \<Rightarrow> errno option \<times> 'os"
  so_getfl :: "'os \<Rightarrow> int \<Rightarrow> u32"
  so_setfl :: "'os \<Rightarrow> int \<Rightarrow> u32 \<Rightarrow> u32 \<times> 'os"
  so_NONBLOCK :: u32
  so_errno :: "'os \<Rightarrow> errno"

fun lua_toboolean :: "lua_value \<Rightarrow> bool" where
  "lua_toboolean LNil = False"
| "lua_toboolean (LBool b) = b"
| "lua_toboolean v = True"

definition xpsocket_getsockopt ::
  "'os sock_os \<Rightarrow> (errno \<Rightarrow> string) \<Rightarrow> int \<Rightarrow> string \<Rightarrow> 'os \<Rightarrow> lua_value list" where
  "xpsocket_getsockopt sys strerror fd psz os =
     (case findSockOpt psz of
        None \<Rightarrow> [LNil, LString ''xpio: unknown socket option'']
      | Some po \<Rightarrow>
          (case (case opt_category po of
                   SOCKOPT_SO \<Rightarrow> so_get sys os psz
                 | SOCKOPT_NB \<Rightarrow>
                     (let (err, bOn) = getNonBlocking (so_NONBLOCK sys) (so_getfl sys) os fd
                      in if err \<noteq> 0 then Inl (so_errno sys os) else Inr (if bOn then 1 else 0))) of
             Inl e \<Rightarrow> pushError strerror e None
           | Inr nOpt \<Rightarrow>
               (case opt_type po of
                  SOCKOPT_BOOL \<Rightarrow> [LBool (nOpt \<noteq> 0)]
                | SOCKOPT_SIZE \<Rightarrow> [LNumber (of_int nOpt)])))"

text \<open>\<open>num\<close> is argument 3 as a number, used for a size.\<close>

definition xpsocket_setsockopt ::
  "'os sock_os \<Rightarrow> (errno \<Rightarrow> string) \<Rightarrow> int \<Rightarrow> string \<Rightarrow> lua_value \<Rightarrow> c_double \<Rightarrow> 'os \<Rightarrow> lua_error + 'os \<times> lua_value list"
where
  "xpsocket_setsockopt sys strerror fd optName val num os =
     (case findSockOpt optName of
        None \<Rightarrow> Inr (os, [LNil, LString ''xpio: unknown socket option''])
      | Some po \<Rightarrow>
          (case (case opt_type po of
                   SOCKOPT_BOOL \<Rightarrow> Inr (if lua_toboolean val then 1 else 0)
                 | SOCKOPT_SIZE \<Rightarrow> map_sum id sint (checkUInt 3 num)) of
             Inl err \<Rightarrow> Inl err
           | Inr nOpt \<Rightarrow>
               (let (err, os1) =
                     (case opt_category po of
                        SOCKOPT_SO \<Rightarrow> so_set sys os optName nOpt
                      | SOCKOPT_NB \<Rightarrow>
                          (let (r, os1) = setNonBlocking (so_NONBLOCK sys) (so_getfl sys) (so_setfl sys) os fd (nOpt \<noteq> 0)
                           in (if r \<noteq> 0 then Some (so_errno sys os1) else None, os1)))
                in Inr (os1, case err of Some e \<Rightarrow> pushError strerror e None | None \<Rightarrow> [LBool True]))))"

section \<open>Descriptors that are open\<close>

text \<open>
  \<open>_nextfd\<close>: \<open>rlim_max\<close> and \<open>rlim_cur\<close> are the limits, stored in \<open>int\<close> variables after the
  subtraction; \<open>getfd fd\<close> is \<open>fcntl(fd, F_GETFD)\<close>: the flags, or nothing when \<open>fd\<close> is not open.
\<close>

definition nextfd_max :: "int \<Rightarrow> int \<Rightarrow> int" where
  "nextfd_max rlim_max rlim_cur =
     (let fdMax = to_int (rlim_max - 1) in if fdMax < 0 then to_int (rlim_cur - 1) else fdMax)"

function nextfd_loop :: "u32 \<Rightarrow> (int \<Rightarrow> u32 option) \<Rightarrow> int \<Rightarrow> int \<Rightarrow> lua_value list" where
  "nextfd_loop FD_CLOEXEC getfd fdMax fd =
     (if fd \<le> fdMax then
        (case getfd fd of
           Some flags \<Rightarrow> if flags AND FD_CLOEXEC = 0 then [LInteger fd]
                         else nextfd_loop FD_CLOEXEC getfd fdMax (fd + 1)
         | None \<Rightarrow> nextfd_loop FD_CLOEXEC getfd fdMax (fd + 1))
      else [LNil])"
  by pat_completeness auto
termination
  by (relation "measure (\<lambda>(c, g, fdMax, fd). nat (fdMax + 1 - fd))") auto

declare nextfd_loop.simps [simp del]

definition xpio_nextfd ::
  "u32 \<Rightarrow> (int \<times> int) option \<Rightarrow> (int \<Rightarrow> u32 option) \<Rightarrow> int option \<Rightarrow> lua_error + lua_value list" where
  "xpio_nextfd FD_CLOEXEC rlimit getfd arg =
     (case rlimit of
        None \<Rightarrow> Inl (LuaError ''xpio: getrlimit failed'')
      | Some (rlim_max, rlim_cur) \<Rightarrow>
          Inr (nextfd_loop FD_CLOEXEC getfd (nextfd_max rlim_max rlim_cur) (tointegerDefault arg (-1) + 1)))"

section \<open>The environment\<close>

text \<open>Each string of \<open>environ\<close> is cut at its first \<open>'='\<close>; strings without one are skipped.\<close>

definition env_entry :: "string \<Rightarrow> (string \<times> string) option" where
  "env_entry str =
     (case dropWhile (\<lambda>c. c \<noteq> CHR ''='') str of
        [] \<Rightarrow> None
      | eq # val \<Rightarrow> Some (takeWhile (\<lambda>c. c \<noteq> CHR ''='') str, val))"

fun xpio_getenv :: "string list \<Rightarrow> (string \<Rightarrow> string option) \<Rightarrow> (string \<Rightarrow> string option)" where
  "xpio_getenv [] tab = tab"
| "xpio_getenv (str # environ) tab =
     xpio_getenv environ (case env_entry str of None \<Rightarrow> tab | Some (name, val) \<Rightarrow> tab(name \<mapsto> val))"

section \<open>Who closes what\<close>

text \<open>
  The objects together with the descriptors that are open for them in the system. A call that
  creates a descriptor returns one that is not open. The label of a step has the object whose \<open>close\<close> or
  destructor runs, if any, the descriptors the system gave during it, and its calls of \<open>close\<close>.
\<close>

type_synonym sock_label = "nat option \<times> int set \<times> close_call list"

definition closed_by :: "close_call list \<Rightarrow> int set" where
  "closed_by calls = {fd. CloseCall fd \<in> set calls}"

inductive sock_step :: "sock_state \<times> int set \<Rightarrow> sock_label \<Rightarrow> sock_state \<times> int set \<Rightarrow> bool" where
  sk_socket: "me \<notin> sock_objs st \<Longrightarrow> xpio_socket strerror ty sys nb me st = (st1, res) \<Longrightarrow>
    given = {fd. ty \<in> {''TCP'', ''UDP''} \<and> sys (ty = ''TCP'') = Inr fd} \<Longrightarrow> \<forall>fd \<in> given. 0 \<le> fd \<and> fd \<notin> fds \<Longrightarrow>
    sock_step (st, fds) (None, given, []) (st1, fds \<union> given)"
| sk_accept: "ps \<notin> sock_objs st \<Longrightarrow> xpsocket_try_accept strerror acc nb ps st = (st1, calls, res) \<Longrightarrow>
    given = {fd. acc = Inr fd} \<Longrightarrow> \<forall>fd \<in> given. 0 \<le> fd \<and> fd \<notin> fds \<Longrightarrow>
    sock_step (st, fds) (None, given, calls) (st1, fds \<union> given - closed_by calls)"
| sk_pair: "psA \<notin> sock_objs st \<Longrightarrow> psB \<notin> sock_objs st \<Longrightarrow> psA \<noteq> psB \<Longrightarrow>
    xpio_pair strerror spOut nb0 nb1 psA psB st = (st1, res) \<Longrightarrow>
    given = {fd. \<exists>fdA fdB. spOut = Inr (fdA, fdB) \<and> fd \<in> {fdA, fdB}} \<Longrightarrow> \<forall>fd \<in> given. 0 \<le> fd \<and> fd \<notin> fds \<Longrightarrow>
    \<forall>fdA fdB. spOut = Inr (fdA, fdB) \<longrightarrow> fdA \<noteq> fdB \<Longrightarrow>
    sock_step (st, fds) (None, given, []) (st1, fds \<union> given)"
| sk_fdopen: "ps \<notin> sock_objs st \<Longrightarrow> xpio_fdopen strerror arg dup ps st = Inr (st1, res) \<Longrightarrow>
    given = {fd. \<exists>n. checkUInt 1 arg = Inr n \<and> dup (sint n) = Inr fd} \<Longrightarrow> \<forall>fd \<in> given. 0 \<le> fd \<and> fd \<notin> fds \<Longrightarrow>
    sock_step (st, fds) (None, given, []) (st1, fds \<union> given)"
| sk_close: "p \<in> sock_objs st \<Longrightarrow> xpsocket_close strerror e p st = (st1, calls, res) \<Longrightarrow>
    sock_step (st, fds) (Some p, {}, calls) (st1, fds - closed_by calls)"
| sk_dtor: "p \<in> sock_objs st \<Longrightarrow> xpsocket_dtor p st = (st1, calls) \<Longrightarrow>
    sock_step (st, fds) (Some p, {}, calls) (st1, fds - closed_by calls)"

definition sock_inv :: "sock_state \<times> int set \<Rightarrow> bool" where
  "sock_inv s \<longleftrightarrow> (case s of (st, fds) \<Rightarrow>
     (\<forall>fd \<in> fds. 0 \<le> fd) \<and>
     (\<forall>p \<in> sock_objs st. sock_s st p \<noteq> -1 \<longrightarrow> sock_s st p \<in> fds) \<and>
     (\<forall>p \<in> sock_objs st. \<forall>q \<in> sock_objs st. sock_s st p = sock_s st q \<longrightarrow> sock_s st p \<noteq> -1 \<longrightarrow> p = q))"

text \<open>
  What may be closed: a descriptor the system gave in the same step, or the open one that the object
  at hand, and no other, holds; and \<open>-1\<close>, which is no descriptor. Each at most once.
\<close>

definition holds_alone :: "sock_state \<Rightarrow> nat \<Rightarrow> int \<Rightarrow> bool" where
  "holds_alone st p fd \<longleftrightarrow> p \<in> sock_objs st \<and> sock_s st p = fd \<and> (\<forall>q \<in> sock_objs st. sock_s st q = fd \<longrightarrow> q = p)"

definition closes_own :: "sock_state \<times> int set \<Rightarrow> sock_label \<Rightarrow> bool" where
  "closes_own s label \<longleftrightarrow> (case s of (st, fds) \<Rightarrow> case label of (who, given, calls) \<Rightarrow>
     distinct calls \<and>
     (\<forall>fd \<in> closed_by calls. fd = -1 \<or> fd \<in> given \<or> fd \<in> fds \<and> (\<exists>p. who = Some p \<and> holds_alone st p fd)))"

definition sock_start :: "sock_state \<times> int set" where
  "sock_start = (\<lparr>sock_objs = {}, sock_s = \<lambda>_. -1\<rparr>, {})"

lemmas sock_defs = xpio_socket_def xpsocket_new_def set_s_def xpsocket_try_accept_def xpio_pair_def
  xpio_fdopen_def xpsocket_close_def xpsocket_dtor_def Let_def closed_by_def

text \<open>What the pieces of an operation do to the invariant.\<close>

lemma sock_inv_iff:
  "sock_inv (st, fds) \<longleftrightarrow> (\<forall>fd \<in> fds. 0 \<le> fd) \<and> (\<forall>p \<in> sock_objs st. sock_s st p \<noteq> -1 \<longrightarrow> sock_s st p \<in> fds) \<and>
     (\<forall>p \<in> sock_objs st. \<forall>q \<in> sock_objs st. sock_s st p = sock_s st q \<longrightarrow> sock_s st p \<noteq> -1 \<longrightarrow> p = q)"
  by (simp add: sock_inv_def)

lemma inv_new: "sock_inv (st, fds) \<Longrightarrow> p \<notin> sock_objs st \<Longrightarrow> sock_inv (xpsocket_new p st, fds)"
  by (auto simp: sock_inv_iff xpsocket_new_def set_s_def)

lemma inv_given: "sock_inv (st, fds) \<Longrightarrow> \<forall>fd \<in> given. 0 \<le> fd \<Longrightarrow> sock_inv (st, fds \<union> given)"
  by (auto simp: sock_inv_iff)

lemma inv_held:
  "sock_inv (st, fds) \<Longrightarrow> fd \<notin> fds \<Longrightarrow> 0 \<le> fd \<Longrightarrow> sock_inv (set_s p fd st, insert fd fds)"
  by (auto simp: sock_inv_iff set_s_def)

lemma inv_forget: "sock_inv (st, fds) \<Longrightarrow> p \<in> sock_objs st \<Longrightarrow> sock_inv (set_s p (-1) st, fds - {sock_s st p})"
  by (auto simp: sock_inv_iff set_s_def)

lemma inv_drop: "sock_inv (st, fds) \<Longrightarrow> sock_inv (st\<lparr>sock_objs := sock_objs st - {p}\<rparr>, fds)"
  by (auto simp: sock_inv_iff)

lemma closed_by_simps [simp]: "closed_by [] = {}" "closed_by [CloseCall fd] = {fd}"
  by (auto simp: closed_by_def)

lemma new_objs [simp]: "sock_objs (xpsocket_new p st) = insert p (sock_objs st)" "sock_objs (set_s p fd st) = sock_objs st"
  by (simp_all add: xpsocket_new_def set_s_def)

lemma sock_step_inv:
  assumes "sock_step s label s1" and "sock_inv s"
  shows "sock_inv s1"
  using assms(1)
proof (cases rule: sock_step.cases)
  case (sk_socket me st strerror ty sys nb st1 res given fds)
  then have new: "sock_inv (xpsocket_new me st, fds)" using assms(2) by (simp add: inv_new)
  show ?thesis
  proof (cases "ty \<in> {''TCP'', ''UDP''} \<and> (\<exists>fd. sys (ty = ''TCP'') = Inr fd)")
    case True
    then obtain fd where fd: "sys (ty = ''TCP'') = Inr fd" by blast
    with True sk_socket(6) have "given = {fd}" by auto
    moreover from True fd sk_socket(5) have "st1 = set_s me fd (xpsocket_new me st)"
      by (auto simp: xpio_socket_def Let_def)
    ultimately show ?thesis using sk_socket(3,7) inv_held [OF new, of fd me] by simp
  next
    case False
    with sk_socket(6) have "given = {}" by auto
    moreover from False sk_socket(5) have "st1 = xpsocket_new me st"
      by (auto simp: xpio_socket_def Let_def split: if_splits sum.splits)
    ultimately show ?thesis using sk_socket(3) new by simp
  qed
next
  case (sk_accept ps st strerror acc nb st1 calls res given fds)
  then have new: "sock_inv (xpsocket_new ps st, fds)" using assms(2) by (simp add: inv_new)
  show ?thesis
  proof (cases acc)
    case (Inl e)
    with sk_accept new show ?thesis by (auto simp: xpsocket_try_accept_def Let_def)
  next
    case (Inr fd)
    with sk_accept(6) have "given = {fd}" by auto
    with Inr sk_accept(3,5,7) new inv_held [OF new, of fd ps] show ?thesis
      by (cases nb) (auto simp: xpsocket_try_accept_def Let_def)
  qed
next
  case (sk_pair psA st psB strerror spOut nb0 nb1 st1 res given fds)
  then have new: "sock_inv (xpsocket_new psB (xpsocket_new psA st), fds)" using assms(2) by (simp add: inv_new)
  show ?thesis
  proof (cases spOut)
    case (Inl e)
    with sk_pair new show ?thesis by (auto simp: xpio_pair_def Let_def)
  next
    case (Inr pair)
    obtain fdA fdB where pair: "pair = (fdA, fdB)" by (cases pair)
    with Inr sk_pair(8) have "given = {fdA, fdB}" by auto
    moreover from pair Inr sk_pair(7) have "st1 = set_s psB fdB (set_s psA fdA (xpsocket_new psB (xpsocket_new psA st)))"
      by (simp add: xpio_pair_def Let_def)
    moreover have "fdA \<noteq> fdB" using sk_pair(10) Inr pair by blast
    ultimately show ?thesis
      using sk_pair(3,9) inv_held [OF inv_held [OF new, of fdA psA], of fdB psB] by (simp add: insert_commute)
  qed
next
  case (sk_fdopen ps st strerror arg dup st1 res given fds)
  then have new: "sock_inv (xpsocket_new ps st, fds)" using assms(2) by (simp add: inv_new)
  obtain n where n: "checkUInt 1 arg = Inr n"
    using sk_fdopen(5) by (auto simp: xpio_fdopen_def Let_def split: sum.splits)
  show ?thesis
  proof (cases "dup (sint n)")
    case (Inl e)
    with n sk_fdopen new show ?thesis by (auto simp: xpio_fdopen_def Let_def)
  next
    case (Inr fd)
    with n sk_fdopen(6) have "given = {fd}" by auto
    with n Inr sk_fdopen(3,5,7) inv_held [OF new, of fd ps] show ?thesis
      by (auto simp: xpio_fdopen_def Let_def)
  qed
next
  case (sk_close p st strerror e st1 calls res fds)
  with assms(2) inv_forget [of st fds p] show ?thesis
    by (auto simp: xpsocket_close_def split: if_splits)
next
  case (sk_dtor p st st1 calls fds)
  have inv: "sock_inv (st, fds)" using assms(2) sk_dtor(1) by simp
  show ?thesis
  proof (cases "sock_s st p = 0")
    case True
    then show ?thesis using sk_dtor(3,5) inv_drop [OF inv, of p] by (auto simp: xpsocket_dtor_def)
  next
    case False
    have "set_s p (-1) (st\<lparr>sock_objs := sock_objs st - {p}\<rparr>) =
        (set_s p (-1) st)\<lparr>sock_objs := sock_objs (set_s p (-1) st) - {p}\<rparr>"
      by (simp add: set_s_def)
    moreover have "sock_inv ((set_s p (-1) st)\<lparr>sock_objs := sock_objs (set_s p (-1) st) - {p}\<rparr>, fds - {sock_s st p})"
      by (rule inv_drop [OF inv_forget [OF inv sk_dtor(4)]])
    ultimately show ?thesis using False sk_dtor(3,5) by (auto simp: xpsocket_dtor_def)
  qed
qed

lemma held_alone:
  "sock_inv (st, fds) \<Longrightarrow> p \<in> sock_objs st \<Longrightarrow> sock_s st p \<noteq> -1 \<Longrightarrow>
     sock_s st p \<in> fds \<and> holds_alone st p (sock_s st p)"
  by (simp add: sock_inv_iff holds_alone_def)

lemma sock_step_closes:
  assumes "sock_step s label s1" and "sock_inv s"
  shows "closes_own s label"
  using assms(1)
proof (cases rule: sock_step.cases)
  case (sk_accept ps st strerror acc nb st1 calls res given fds)
  then show ?thesis
    by (auto simp: closes_own_def xpsocket_try_accept_def Let_def split: sum.splits option.splits)
next
  case (sk_close p st strerror e st1 calls res fds)
  with assms(2) held_alone [of st fds p] show ?thesis
    by (auto simp: closes_own_def xpsocket_close_def split: if_splits)
next
  case (sk_dtor p st st1 calls fds)
  with assms(2) held_alone [of st fds p] show ?thesis
    by (auto simp: closes_own_def xpsocket_dtor_def Let_def split: if_splits)
qed (auto simp: closes_own_def)

interpretation socks: machine sock_step sock_inv closes_own
  by unfold_locales (auto intro: sock_step_inv sock_step_closes)

text \<open>What was closed is open no more, and no object is left with it.\<close>

lemma closed_forgotten:
  assumes "sock_inv s" "sock_step s (who, given, calls) s1" "fd \<in> closed_by calls" "fd \<noteq> -1"
  shows "fd \<notin> snd s1 \<and> (\<forall>q \<in> sock_objs (fst s1). sock_s (fst s1) q \<noteq> fd)"
proof -
  have "fd \<notin> snd s1"
    using assms(2,3) by (cases rule: sock_step.cases) (auto simp: closed_by_def)
  moreover have "sock_inv s1" by (rule socks.inv_step [OF assms(1,2)])
  ultimately show ?thesis using assms(4) by (auto simp: sock_inv_def split: prod.splits)
qed

lemma sock_start_inv: "sock_inv sock_start"
  by (simp add: sock_inv_def sock_start_def)

section \<open>Properties\<close>

text \<open>C12: no operation on sockets closes a descriptor that is not its own. In every reachable state, whatever
  an operation closes, other than \<open>-1\<close>, which is no descriptor, is a descriptor the system gave it during
  the same call, or the open descriptor that the object at hand and no other object holds. It closes it
  once; afterwards it is not open, and no object holds it, so that it is not closed again.\<close>

theorem descriptors_closed_by_owner:
  assumes "reaches sock_step sock_start s" and "sock_step s (who, given, calls) s1"
    and "CloseCall fd \<in> set calls" and "fd \<noteq> -1"
  shows "(fd \<in> given \<or> fd \<in> snd s \<and> (\<exists>p \<in> sock_objs (fst s). who = Some p \<and> sock_s (fst s) p = fd \<and>
           (\<forall>q \<in> sock_objs (fst s). sock_s (fst s) q = fd \<longrightarrow> q = p))) \<and>
    distinct calls \<and> fd \<notin> snd s1 \<and> (\<forall>q \<in> sock_objs (fst s1). sock_s (fst s1) q \<noteq> fd)"
proof -
  have closed: "fd \<in> closed_by calls" using assms(3) by (simp add: closed_by_def)
  have "closes_own s (who, given, calls)" by (rule socks.good_reached [OF assms(1) sock_start_inv assms(2)])
  moreover note closed_forgotten [OF socks.inv_reached [OF assms(1) sock_start_inv] assms(2) closed assms(4)]
  ultimately show ?thesis using closed assms(4) by (fastforce simp: closes_own_def holds_alone_def split: prod.splits)
qed

text \<open>A socket is created with descriptor 3 and collected.\<close>

theorem descriptors_closed_by_owner_witness:
  "\<exists>s s1. reaches sock_step sock_start s \<and> sock_step s (Some 5, {}, [CloseCall 3]) s1 \<and> 3 \<in> snd s \<and> 3 \<notin> snd s1"
proof -
  let ?s = "(\<lparr>sock_objs = {5}, sock_s = (\<lambda>_. -1)(5 := 3)\<rparr>, {3})"
  let ?s1 = "(\<lparr>sock_objs = {}, sock_s = (\<lambda>_. -1)(5 := -1)\<rparr>, {3} - closed_by [CloseCall 3])"
  have "sock_step sock_start (None, {3}, []) ?s"
    unfolding sock_start_def
    using sk_socket [of 5 "\<lparr>sock_objs = {}, sock_s = \<lambda>_. -1\<rparr>" "\<lambda>_. []" "''TCP''" "\<lambda>_. Inr 3" None _ _ "{3}" "{}"]
    by (simp add: sock_defs)
  then have r: "reaches sock_step sock_start ?s" by (rule reaches_step [where step = sock_step, OF reaches_refl])
  have step: "sock_step ?s (Some 5, {}, [CloseCall 3]) ?s1"
    by (rule sk_dtor [of 5]) (simp_all add: sock_defs)
  from descriptors_closed_by_owner [OF r step, of 3] r step show ?thesis by fastforce
qed

text \<open>collecting a socket object closes its descriptor, except descriptor 0: the destructor tests
  \<open>if (me->s)\<close>, so a socket that got descriptor 0 (which the system gives out when standard input is
  closed) is collected without closing it, and a closed socket makes it call \<open>close(-1)\<close>.\<close>

theorem collecting_leaks_descriptor_0:
  "snd (xpsocket_dtor p st) = (if sock_s st p = 0 then [] else [CloseCall (sock_s st p)])"
  by (simp add: xpsocket_dtor_def Let_def)

text \<open>a boolean socket option reads back as it was set, for every option of the table, also the
  non-blocking mode that is kept with \<open>fcntl\<close>. The hypotheses are what the system documents: after a
  successful call an option is non-zero when and only when it was set to a non-zero value, and the
  flag \<open>F_SETFL\<close> stored is the one \<open>F_GETFL\<close> reports.\<close>

theorem bool_option_set_then_get:
  assumes "findSockOpt psz = Some po" and "opt_type po = SOCKOPT_BOOL"
    and "\<And>n os os1. so_set sys os psz n = (None, os1) \<Longrightarrow> \<exists>m. so_get sys os1 psz = Inr m \<and> (m \<noteq> 0 \<longleftrightarrow> n \<noteq> 0)"
    and "so_NONBLOCK sys \<noteq> 0" and "so_getfl sys os fd \<noteq> -1"
    and "\<And>flags os1. so_setfl sys os fd flags = (0, os1) \<Longrightarrow>
      so_getfl sys os1 fd \<noteq> -1 \<and> so_getfl sys os1 fd AND so_NONBLOCK sys = flags AND so_NONBLOCK sys"
    and "xpsocket_setsockopt sys strerror fd psz (LBool b) num os = Inr (os1, [LBool True])"
  shows "xpsocket_getsockopt sys strerror fd psz os1 = [LBool b]"
proof (cases "opt_category po")
  case SOCKOPT_SO
  with assms obtain err where "so_set sys os psz (if b then 1 else 0) = (err, os1)" "err = None"
    by (auto simp: xpsocket_setsockopt_def pushError_def Let_def split: prod.splits option.splits)
  with assms(3) obtain m where "so_get sys os1 psz = Inr m" "m \<noteq> 0 \<longleftrightarrow> b" by fastforce
  with assms SOCKOPT_SO show ?thesis by (simp add: xpsocket_getsockopt_def)
next
  case SOCKOPT_NB
  with assms have "setNonBlocking (so_NONBLOCK sys) (so_getfl sys) (so_setfl sys) os fd b = (0, os1)"
    by (auto simp: xpsocket_setsockopt_def pushError_def Let_def split: prod.splits option.splits if_splits)
  then have set: "so_setfl sys os fd (if b then so_getfl sys os fd OR so_NONBLOCK sys
      else so_getfl sys os fd AND NOT (so_NONBLOCK sys)) = (0, os1)"
    using assms(5) by (auto simp: setNonBlocking_def fcntl_mod_FL_def Let_def split: if_splits)
  have "(x OR y) AND y = y" "(x AND NOT y) AND y = 0" for x y :: u32
    by (auto intro!: bit_word_eqI simp: bit_simps)
  with assms(6) [OF set] assms SOCKOPT_NB show ?thesis
    by (auto simp: xpsocket_getsockopt_def getNonBlocking_def Let_def)
qed

text \<open>A system that stores options and flags.\<close>

definition store_os :: "((string \<Rightarrow> int) \<times> u32) sock_os" where
  "store_os = \<lparr>so_get = (\<lambda>os n. Inr (fst os n)), so_set = (\<lambda>os n v. (None, ((fst os)(n := v), snd os))),
     so_getfl = (\<lambda>os fd. snd os AND 0xFFFF), so_setfl = (\<lambda>os fd flags. (0, (fst os, flags))),
     so_NONBLOCK = 0x800, so_errno = (\<lambda>_. EOTHER 0)\<rparr>"

theorem bool_option_set_then_get_witness:
  "xpsocket_getsockopt store_os (\<lambda>_. []) 4 ''TCP_NODELAY'' ((\<lambda>_. 0)(''TCP_NODELAY'' := 1), 2) = [LBool True]"
proof (rule bool_option_set_then_get [where os = "(\<lambda>_. 0, 2)" and num = NaN])
  show "findSockOpt ''TCP_NODELAY'' = Some (opts ! 0)" by (simp add: findSockOpt_def opts_def)
  have "flags AND 0xFFFF \<noteq> (-1 :: u32)" for flags
  proof
    assume "flags AND 0xFFFF = (-1 :: u32)"
    then have "bit (flags AND 0xFFFF) 31 = bit (-1 :: u32) 31" by simp
    then show False by (simp add: bit_simps)
  qed
  note low = this
  then show "so_getfl store_os (\<lambda>_. 0, 2) 4 \<noteq> -1" by (simp add: store_os_def)
  fix flags :: u32 and os1 assume "so_setfl store_os (\<lambda>_. 0, 2) 4 flags = (0, os1)"
  then show "so_getfl store_os os1 4 \<noteq> -1 \<and>
      so_getfl store_os os1 4 AND so_NONBLOCK store_os = flags AND so_NONBLOCK store_os"
    using low by (auto simp: store_os_def and.assoc)
qed (auto simp: opts_def store_os_def xpsocket_setsockopt_def findSockOpt_def)

text \<open>\<open>_nextfd\<close> returns the least descriptor after the given one that is open and not
  close-on-exec, and \<open>nil\<close> exactly when there is none up to the limit; so calling it again with its
  own result visits each such descriptor once, in order.\<close>

theorem nextfd_is_least:
  "xpio_nextfd FD_CLOEXEC (Some (rlim_max, rlim_cur)) getfd arg =
     Inr (let prev = tointegerDefault arg (-1); top = nextfd_max rlim_max rlim_cur;
              inherited = (\<lambda>fd. \<exists>flags. getfd fd = Some flags \<and> flags AND FD_CLOEXEC = 0);
              found = {fd. prev < fd \<and> fd \<le> top \<and> inherited fd}
          in if found = {} then [LNil] else [LInteger (Min found)])"
proof -
  let ?ok = "\<lambda>fd. \<exists>flags. getfd fd = Some flags \<and> flags AND FD_CLOEXEC = 0"
  have "nextfd_loop FD_CLOEXEC getfd top fd =
      (if {x. fd \<le> x \<and> x \<le> top \<and> ?ok x} = {} then [LNil] else [LInteger (Min {x. fd \<le> x \<and> x \<le> top \<and> ?ok x})])"
    for top fd
  proof (induction FD_CLOEXEC getfd top fd rule: nextfd_loop.induct)
    case (1 FD_CLOEXEC getfd top fd)
    let ?ok = "\<lambda>fd. \<exists>flags. getfd fd = Some flags \<and> flags AND FD_CLOEXEC = 0"
    let ?S = "\<lambda>fd. {x. fd \<le> x \<and> x \<le> top \<and> ?ok x}"
    have fin: "finite (?S x)" for x by (rule finite_subset [of _ "{x..top}"]) auto
    show ?case
    proof (cases "fd \<le> top \<and> ?ok fd")
      case True
      then have "Min (?S fd) = fd" by (intro Min_eqI fin) auto
      moreover have "?S fd \<noteq> {}" using True by auto
      moreover have "nextfd_loop FD_CLOEXEC getfd top fd = [LInteger fd]"
        using True by (subst nextfd_loop.simps) auto
      ultimately show ?thesis by (simp only: if_False)
    next
      case False
      show ?thesis
      proof (cases "fd \<le> top")
        case True
        with False have "?S fd = ?S (fd + 1)" by (auto simp: order_le_less)
        moreover have "nextfd_loop FD_CLOEXEC getfd top fd = nextfd_loop FD_CLOEXEC getfd top (fd + 1)"
          using True False by (subst nextfd_loop.simps) (auto split: option.splits)
        moreover have "nextfd_loop FD_CLOEXEC getfd top (fd + 1) =
            (if ?S (fd + 1) = {} then [LNil] else [LInteger (Min (?S (fd + 1)))])"
          using True False "1.IH" by (cases "getfd fd") auto
        ultimately show ?thesis by (simp only:)
      next
        case F: False
        then have "?S fd = {}" by auto
        with F show ?thesis by (subst nextfd_loop.simps) simp
      qed
    qed
  qed
  then show ?thesis by (simp add: xpio_nextfd_def Let_def add1_zle_eq)
qed

lemma cut_at:
  "x \<notin> set n \<Longrightarrow> dropWhile (\<lambda>c. c \<noteq> x) (n @ x # v) = x # v"
  "x \<notin> set n \<Longrightarrow> takeWhile (\<lambda>c. c \<noteq> x) (n @ x # v) = n"
  "x \<notin> set n \<Longrightarrow> dropWhile (\<lambda>c. c \<noteq> x) n = []"
  by (induction n) auto

lemma env_entry_pair:
  assumes "CHR ''='' \<notin> set n"
  shows "env_entry (n @ ''='' @ v) = Some (n, v)"
  unfolding env_entry_def append_Cons append_Nil cut_at [OF assms] list.case ..

lemma env_entry_none:
  assumes "CHR ''='' \<notin> set str"
  shows "env_entry str = None"
  unfolding env_entry_def cut_at [OF assms] list.case ..

text \<open>the environment table holds exactly the variables of the process: from the strings
  \<open>name=value\<close> of distinct variables, whose names have no \<open>'='\<close> while values may, the table with
  those names and values is rebuilt; entries that are no such string are skipped.\<close>

theorem getenv_rebuilds_table:
  assumes "distinct (map fst vars)" and "\<forall>(n, v) \<in> set vars. CHR ''='' \<notin> set n"
    and "\<forall>str \<in> set junk. CHR ''='' \<notin> set str"
  shows "xpio_getenv (junk @ map (\<lambda>(n, v). n @ ''='' @ v) vars) Map.empty = map_of vars"
proof -
  from assms(3) have "xpio_getenv (junk @ ss) tab = xpio_getenv ss tab" for ss tab
    by (induction junk) (simp_all add: env_entry_none)
  moreover have "xpio_getenv (map (\<lambda>(n, v). n @ ''='' @ v) vars) tab = tab ++ map_of vars" for tab
    using assms(1,2)
  proof (induction vars arbitrary: tab)
    case (Cons e vars)
    obtain n v where e: "e = (n, v)" by fastforce
    with Cons.prems have "map_of vars n = None" by (simp add: map_of_eq_None_iff)
    then have "tab(n \<mapsto> v) ++ map_of vars = tab ++ (map_of vars)(n \<mapsto> v)"
      by (auto simp: fun_eq_iff map_add_def split: option.splits)
    moreover have "map_of (e # vars) = (map_of vars)(n \<mapsto> v)" by (simp add: e)
    moreover have "xpio_getenv (map (\<lambda>(n, v). n @ ''='' @ v) (e # vars)) tab = tab(n \<mapsto> v) ++ map_of vars"
      using Cons e env_entry_pair [of n v] by simp
    ultimately show ?case by (simp only:)
  qed simp
  ultimately show ?thesis by simp
qed

theorem getenv_rebuilds_table_witness:
  "xpio_getenv ([''junk''] @ map (\<lambda>(n, v). n @ ''='' @ v) [(''A'', ''1=2''), (''B'', [])]) Map.empty
     = map_of [(''A'', ''1=2''), (''B'', [])]"
  by (rule getenv_rebuilds_table) auto

end
