(* ===== verification/Xpfs.thy ===== *)
theory Xpfs
  imports XpioUtil
begin

text \<open>
  File-system functions (\<open>luau/xpfs.c\<close>, the branches for UNIX). A system call's answer is an
  argument: the error number when it fails. The result of \<open>stat\<close> is a table from field names to
  values. Modes are words with the permission bits POSIX fixes; the file-type bits are those of Linux.
\<close>

section \<open>chmod\<close>

definition S_IRWXU :: u32 where "S_IRWXU = 0x1C0"

definition mode_bit :: "char \<Rightarrow> u32" where
  "mode_bit ch = (if ch = CHR ''r'' then 0x100 else if ch = CHR ''w'' then 0x80
                  else if ch = CHR ''x'' then 0x40 else 0)"

text \<open>The loop over the flags; \<open>pm\<close> is the first character of the mode string.\<close>

fun chmod_loop :: "char \<Rightarrow> string \<Rightarrow> u32 \<Rightarrow> u32" where
  "chmod_loop pm [] MMM = MMM"
| "chmod_loop pm (ch # szmode) MMM =
     chmod_loop pm szmode (if pm = CHR ''-'' then MMM AND NOT (mode_bit ch) else MMM OR mode_bit ch)"

definition chmod_mode :: "string \<Rightarrow> u32 \<Rightarrow> u32" where
  "chmod_mode szmode st_mode =
     (let pm = (case szmode of [] \<Rightarrow> CHR 0x00 | c # _ \<Rightarrow> c)
      in if pm = CHR ''+'' \<or> pm = CHR ''-'' then chmod_loop pm (tl szmode) st_mode
         else chmod_loop pm szmode (st_mode AND NOT S_IRWXU))"

definition fs_result :: "(errno \<Rightarrow> string) \<Rightarrow> errno option \<Rightarrow> lua_value list" where
  "fs_result strerror err =
     (case err of None \<Rightarrow> [LBool True] | Some e \<Rightarrow> [LNil, LString (strerror e)])"

definition xpfs_chmod ::
  "(errno \<Rightarrow> string) \<Rightarrow> (string \<Rightarrow> errno + u32) \<Rightarrow> (string \<Rightarrow> u32 \<Rightarrow> errno option) \<Rightarrow> string \<Rightarrow> string \<Rightarrow> lua_value list"
where
  "xpfs_chmod strerror sys_stat sys_chmod filename szmode =
     (case sys_stat filename of
        Inl e \<Rightarrow> fs_result strerror (Some e)
      | Inr st_mode \<Rightarrow> fs_result strerror (sys_chmod filename (chmod_mode szmode st_mode)))"

section \<open>stat\<close>

record stat_info =
  st_mode :: u32
  st_size :: int
  st_mtime :: int
  st_atime :: int
  st_ctime :: int
  st_ino :: int
  st_dev :: int
  st_uid :: int
  st_gid :: int

text \<open>The permission loop: groups 2, 1, 0 take the low three bits of \<open>m\<close>, which is shifted after each.\<close>

definition store_group :: "nat \<Rightarrow> string \<times> u32 \<Rightarrow> string \<times> u32" where
  "store_group grp pm =
     (case pm of (perm, m) \<Rightarrow>
        (perm[grp * 3 + 0 := if m AND 4 \<noteq> 0 then CHR ''r'' else CHR ''-'',
              grp * 3 + 1 := if m AND 2 \<noteq> 0 then CHR ''w'' else CHR ''-'',
              grp * 3 + 2 := if m AND 1 \<noteq> 0 then CHR ''x'' else CHR ''-''],
         drop_bit 3 m))"

definition stat_perm :: "u32 \<Rightarrow> string" where
  "stat_perm mode = fst (fold store_group [2, 1, 0] (replicate 9 (CHR 0x00), mode))"

definition file_type :: "u32 \<Rightarrow> u32" where
  "file_type mode = mode AND 0xF000"

definition stat_kind :: "u32 \<Rightarrow> string" where
  "stat_kind mode =
     (if file_type mode = 0x8000 then ''f'' else if file_type mode = 0x4000 then ''d''
      else if file_type mode = 0xA000 then ''l'' else if file_type mode = 0x6000 then ''b''
      else if file_type mode = 0x2000 then ''c'' else if file_type mode = 0xC000 then ''s''
      else if file_type mode = 0x1000 then ''p'' else ''o'')"

type_synonym stat_table = "string \<Rightarrow> lua_value option"

definition set_if :: "char \<Rightarrow> char \<Rightarrow> string \<Rightarrow> lua_value \<Rightarrow> stat_table \<Rightarrow> stat_table" where
  "set_if ch letter field v tab = (if ch = CHR ''*'' \<or> ch = letter then tab(field \<mapsto> v) else tab)"

definition stat_char :: "stat_info \<Rightarrow> char \<Rightarrow> stat_table \<Rightarrow> stat_table" where
  "stat_char info ch tab =
     (let t1 = set_if ch (CHR ''p'') ''perm'' (LString (stat_perm (st_mode info))) tab;
          t2 = set_if ch (CHR ''k'') ''kind'' (LString (stat_kind (st_mode info))) t1;
          t3 = set_if ch (CHR ''s'') ''size'' (LNumber (of_int (st_size info))) t2;
          t4 = set_if ch (CHR ''t'') ''time'' (LNumber (max (of_int (st_mtime info)) (of_int (st_ctime info)))) t3;
          t5 = set_if ch (CHR ''m'') ''mtime'' (LNumber (of_int (st_mtime info))) t4;
          t6 = set_if ch (CHR ''a'') ''atime'' (LNumber (of_int (st_atime info))) t5;
          t7 = set_if ch (CHR ''c'') ''ctime'' (LNumber (of_int (st_ctime info))) t6;
          t8 = set_if ch (CHR ''i'') ''inode'' (LNumber (of_int (st_ino info))) t7;
          t9 = set_if ch (CHR ''d'') ''dev'' (LNumber (of_int (st_dev info))) t8;
          t10 = set_if ch (CHR ''u'') ''uid'' (LNumber (of_int (st_uid info))) t9
      in set_if ch (CHR ''g'') ''gid'' (LNumber (of_int (st_gid info))) t10)"

text \<open>\<open>do_stat\<close>: \<open>nil\<close> with the error message (\<open>Inl\<close>), or the table.\<close>

definition do_stat ::
  "(errno \<Rightarrow> string) \<Rightarrow> (string \<Rightarrow> errno + stat_info) \<Rightarrow> (string \<Rightarrow> errno + stat_info) \<Rightarrow> string \<Rightarrow> string \<Rightarrow> lua_value list + stat_table"
where
  "do_stat strerror sys_stat sys_lstat filename fmask =
     (case (if fmask \<noteq> [] \<and> hd fmask = CHR ''L'' then sys_lstat filename else sys_stat filename) of
        Inl e \<Rightarrow> Inl [LNil, LString (strerror e)]
      | Inr info \<Rightarrow> Inr (fold (stat_char info) fmask Map.empty))"

definition xpfs_stat ::
  "(errno \<Rightarrow> string) \<Rightarrow> (string \<Rightarrow> errno + stat_info) \<Rightarrow> (string \<Rightarrow> errno + stat_info) \<Rightarrow> string \<Rightarrow> string option \<Rightarrow> lua_value list + stat_table"
where
  "xpfs_stat strerror sys_stat sys_lstat filename fmask =
     do_stat strerror sys_stat sys_lstat filename (case fmask of None \<Rightarrow> ''*'' | Some s \<Rightarrow> s)"

section \<open>The other calls\<close>

definition xpfs_remove :: "(errno \<Rightarrow> string) \<Rightarrow> (string \<Rightarrow> errno option) \<Rightarrow> string \<Rightarrow> lua_value list" where
  "xpfs_remove strerror sys_remove filename = fs_result strerror (sys_remove filename)"

definition xpfs_mkdir :: "(errno \<Rightarrow> string) \<Rightarrow> (string \<Rightarrow> u32 \<Rightarrow> errno option) \<Rightarrow> string \<Rightarrow> lua_value list" where
  "xpfs_mkdir strerror sys_mkdir dirname = fs_result strerror (sys_mkdir dirname 0x1FF)"

definition xpfs_rmdir :: "(errno \<Rightarrow> string) \<Rightarrow> (string \<Rightarrow> errno option) \<Rightarrow> string \<Rightarrow> lua_value list" where
  "xpfs_rmdir strerror sys_rmdir dirname = fs_result strerror (sys_rmdir dirname)"

definition xpfs_chdir :: "(errno \<Rightarrow> string) \<Rightarrow> (string \<Rightarrow> errno option) \<Rightarrow> string \<Rightarrow> lua_value list" where
  "xpfs_chdir strerror sys_chdir dirname = fs_result strerror (sys_chdir dirname)"

definition xpfs_getcwd :: "(errno \<Rightarrow> string) \<Rightarrow> errno + string \<Rightarrow> lua_value list" where
  "xpfs_getcwd strerror cwd =
     (case cwd of Inl e \<Rightarrow> [LNil, LString (strerror e)] | Inr dir \<Rightarrow> [LString dir])"

definition xpfs_rename :: "(errno \<Rightarrow> string) \<Rightarrow> (string \<Rightarrow> string \<Rightarrow> errno option) \<Rightarrow> string \<Rightarrow> string \<Rightarrow> lua_value list" where
  "xpfs_rename strerror sys_rename src dst = fs_result strerror (sys_rename src dst)"

text \<open>The answers of \<open>readdir\<close> in order; \<open>None\<close> is \<open>NULL\<close>. The result is the array, from index 1.\<close>

fun read_entries :: "string option list \<Rightarrow> string list option" where
  "read_entries [] = None"
| "read_entries (None # as) = Some []"
| "read_entries (Some name # as) = map_option ((#) name) (read_entries as)"

definition xpfs_dir ::
  "(errno \<Rightarrow> string) \<Rightarrow> errno + string option list \<Rightarrow> (lua_value list + string list) option" where
  "xpfs_dir strerror opened =
     (case opened of
        Inl e \<Rightarrow> Some (Inl [LNil, LString (strerror e)])
      | Inr answers \<Rightarrow> map_option Inr (read_entries answers))"

section \<open>What the mode loop does\<close>

lemma bits_400: "bit (0x100 :: u32) i \<longleftrightarrow> i = 8" "bit (0x80 :: u32) i \<longleftrightarrow> i = 7" "bit (0x40 :: u32) i \<longleftrightarrow> i = 6"
proof -
  have "(0x100 :: u32) = push_bit 8 1" "(0x80 :: u32) = push_bit 7 1" "(0x40 :: u32) = push_bit 6 1" by simp_all
  then show "bit (0x100 :: u32) i \<longleftrightarrow> i = 8" "bit (0x80 :: u32) i \<longleftrightarrow> i = 7" "bit (0x40 :: u32) i \<longleftrightarrow> i = 6"
    by (auto simp only: bit_simps) auto
qed

lemma bit_mode_bit:
  "bit (mode_bit ch) i \<longleftrightarrow>
     (i = 8 \<and> ch = CHR ''r'') \<or> (i = 7 \<and> ch = CHR ''w'') \<or> (i = 6 \<and> ch = CHR ''x'')"
proof -
  consider "ch = CHR ''r''" "mode_bit ch = 0x100" | "ch = CHR ''w''" "mode_bit ch = 0x80"
    | "ch = CHR ''x''" "mode_bit ch = 0x40"
    | "ch \<noteq> CHR ''r''" "ch \<noteq> CHR ''w''" "ch \<noteq> CHR ''x''" "mode_bit ch = 0"
    by (auto simp: mode_bit_def)
  then show ?thesis by cases (simp_all only: bits_400 bit_0_eq bot_apply; simp)+
qed

lemma bit_chmod_loop:
  assumes "i < 32"
  shows "bit (chmod_loop pm flags MMM) i \<longleftrightarrow>
     (if pm = CHR ''-'' then bit MMM i \<and> \<not> (\<exists>ch \<in> set flags. bit (mode_bit ch) i)
      else bit MMM i \<or> (\<exists>ch \<in> set flags. bit (mode_bit ch) i))"
  using assms by (induction pm flags MMM rule: chmod_loop.induct) (auto simp: bit_simps)

lemma bit_S_IRWXU: "bit S_IRWXU i \<longleftrightarrow> i \<in> {6, 7, 8}"
proof -
  have eq: "S_IRWXU = push_bit 6 (mask 3)" by (simp add: S_IRWXU_def mask_eq_exp_minus_1)
  show ?thesis unfolding eq bit_push_bit_iff bit_mask_iff by (auto simp: bit_simps)
qed

text \<open>The user flags a mode string asks for, by the documentation.\<close>

definition user_flag :: "string \<Rightarrow> char \<Rightarrow> bool \<Rightarrow> bool" where
  "user_flag szmode c old =
     (if szmode \<noteq> [] \<and> hd szmode = CHR ''+'' then old \<or> c \<in> set (tl szmode)
      else if szmode \<noteq> [] \<and> hd szmode = CHR ''-'' then old \<and> c \<notin> set (tl szmode)
      else c \<in> set szmode)"

lemma bit_chmod_mode:
  assumes "i < 32"
  shows "bit (chmod_mode szmode old) i =
     (if i = 8 then user_flag szmode (CHR ''r'') (bit old 8)
      else if i = 7 then user_flag szmode (CHR ''w'') (bit old 7)
      else if i = 6 then user_flag szmode (CHR ''x'') (bit old 6)
      else bit old i)"
  using assms
  by (cases szmode)
    (auto simp: chmod_mode_def Let_def bit_chmod_loop bit_mode_bit user_flag_def bit_simps bit_S_IRWXU)

lemma stat_perm_nth:
  "stat_perm mode = map (\<lambda>i. if bit mode (8 - i) then ''rwxrwxrwx'' ! i else CHR ''-'') [0..<9]"
proof -
  have low: "m AND 4 \<noteq> 0 \<longleftrightarrow> bit m 2" "m AND 2 \<noteq> 0 \<longleftrightarrow> bit m 1" "m AND 1 \<noteq> 0 \<longleftrightarrow> bit m 0" for m :: u32
  proof -
    show "m AND 4 \<noteq> 0 \<longleftrightarrow> bit m 2" "m AND 2 \<noteq> 0 \<longleftrightarrow> bit m 1" "m AND 1 \<noteq> 0 \<longleftrightarrow> bit m 0"
      using and_exp_eq_0_iff_not_bit [of m 2] and_exp_eq_0_iff_not_bit [of m 1] and_exp_eq_0_iff_not_bit [of m 0]
      by simp_all
  qed
  show ?thesis
    by (simp add: stat_perm_def store_group_def low bit_drop_bit_eq numeral_eq_Suc upt_rec del: upt_Suc)
qed

section \<open>The fields of stat\<close>

text \<open>The fields the documentation lists, with the letter that asks for each.\<close>

definition stat_fields :: "stat_info \<Rightarrow> (string \<times> char \<times> lua_value) list" where
  "stat_fields info =
     [(''perm'', CHR ''p'', LString (stat_perm (st_mode info))), (''kind'', CHR ''k'', LString (stat_kind (st_mode info))),
      (''size'', CHR ''s'', LNumber (of_int (st_size info))),
      (''time'', CHR ''t'', LNumber (of_int (max (st_mtime info) (st_ctime info)))),
      (''mtime'', CHR ''m'', LNumber (of_int (st_mtime info))), (''atime'', CHR ''a'', LNumber (of_int (st_atime info))),
      (''ctime'', CHR ''c'', LNumber (of_int (st_ctime info))), (''inode'', CHR ''i'', LNumber (of_int (st_ino info))),
      (''dev'', CHR ''d'', LNumber (of_int (st_dev info))), (''uid'', CHR ''u'', LNumber (of_int (st_uid info))),
      (''gid'', CHR ''g'', LNumber (of_int (st_gid info)))]"

lemma set_if_at:
  "set_if ch letter field v tab g = (if g = field \<and> (ch = CHR ''*'' \<or> ch = letter) then Some v else tab g)"
  by (simp add: set_if_def)

lemma stat_char_at:
  "stat_char info ch tab g =
     (case map_of (stat_fields info) g of
        Some (letter, v) \<Rightarrow> if ch = CHR ''*'' \<or> ch = letter then Some v else tab g
      | None \<Rightarrow> tab g)"
proof (cases "map_of (stat_fields info) g")
  case None
  then have "g \<notin> fst ` set (stat_fields info)" by (simp add: map_of_eq_None_iff)
  with None show ?thesis by (simp add: stat_fields_def stat_char_def set_if_at Let_def)
next
  case (Some lv)
  then have "(g, lv) \<in> set (stat_fields info)" by (rule map_of_SomeD)
  then show ?thesis unfolding Some
    by (simp add: stat_fields_def; elim disjE; simp add: stat_char_def set_if_at Let_def of_int_max)
qed

lemma stat_loop_at:
  "fold (stat_char info) fmask tab g =
     (case map_of (stat_fields info) g of
        Some (letter, v) \<Rightarrow> if CHR ''*'' \<in> set fmask \<or> letter \<in> set fmask then Some v else tab g
      | None \<Rightarrow> tab g)"
  by (induction fmask arbitrary: tab) (auto simp: stat_char_at split: option.splits)

section \<open>Properties\<close>

text \<open>\<open>chmod\<close> changes the user's permission bits as the mode string says (\<open>+\<close> adds the flags, \<open>-\<close>
  removes them, a string without a sign replaces all three; other characters are ignored) and passes
  every other bit of the file's mode on unchanged; when \<open>stat\<close> fails nothing is changed.\<close>

theorem chmod_changes_user_bits:
  "(\<forall>e. sys_stat filename = Inl e \<longrightarrow>
      xpfs_chmod strerror sys_stat sys_chmod filename szmode = [LNil, LString (strerror e)]) \<and>
   (\<forall>old. sys_stat filename = Inr old \<longrightarrow>
      (\<exists>new. xpfs_chmod strerror sys_stat sys_chmod filename szmode = fs_result strerror (sys_chmod filename new) \<and>
         (\<forall>i < 32. bit new i =
            (if i = 8 then user_flag szmode (CHR ''r'') (bit old 8)
             else if i = 7 then user_flag szmode (CHR ''w'') (bit old 7)
             else if i = 6 then user_flag szmode (CHR ''x'') (bit old 6)
             else bit old i))))"
  using bit_chmod_mode by (fastforce simp: xpfs_chmod_def fs_result_def)

theorem chmod_changes_user_bits_witness:
  "\<exists>new. xpfs_chmod (\<lambda>_. []) (\<lambda>_. Inr 0x81A4) (\<lambda>_ m. if bit m 6 then None else Some EINTR) ''run.sh'' ''+x'' =
      fs_result (\<lambda>_. []) (if bit (new :: u32) 6 then None else Some EINTR) \<and> bit new 6"
proof -
  obtain new where new: "xpfs_chmod (\<lambda>_. []) (\<lambda>_. Inr 0x81A4) (\<lambda>_ m. if bit m 6 then None else Some EINTR) ''run.sh'' ''+x'' =
      fs_result (\<lambda>_. []) (if bit (new :: u32) 6 then None else Some EINTR)"
    and bits: "\<forall>i < 32. bit new i =
            (if i = 8 then user_flag ''+x'' (CHR ''r'') (bit (0x81A4 :: u32) 8)
             else if i = 7 then user_flag ''+x'' (CHR ''w'') (bit (0x81A4 :: u32) 7)
             else if i = 6 then user_flag ''+x'' (CHR ''x'') (bit (0x81A4 :: u32) 6)
             else bit (0x81A4 :: u32) i)"
    using chmod_changes_user_bits [where sys_stat = "\<lambda>_. Inr 0x81A4" and filename = "''run.sh''"
        and szmode = "''+x''" and strerror = "\<lambda>_. []" and sys_chmod = "\<lambda>_ m. if bit m 6 then None else Some EINTR"]
    by blast
  from bits [rule_format, of 6] have "bit new 6" by (simp add: user_flag_def)
  with new show ?thesis by blast
qed

text \<open>\<open>stat\<close> fills in exactly the documented fields whose first letter is in the mask, all of them
  for \<open>*\<close>, each with the value the system gave (\<open>time\<close> is the later of \<open>mtime\<close> and \<open>ctime\<close>); letters
  it does not know add nothing. A mask that begins with \<open>L\<close> asks about a link itself.\<close>

theorem stat_fields_exact:
  "do_stat strerror sys_stat sys_lstat filename fmask =
     (case (if fmask \<noteq> [] \<and> hd fmask = CHR ''L'' then sys_lstat else sys_stat) filename of
        Inl e \<Rightarrow> Inl [LNil, LString (strerror e)]
      | Inr info \<Rightarrow> Inr (\<lambda>field.
          case map_of (stat_fields info) field of
            Some (letter, v) \<Rightarrow> if CHR ''*'' \<in> set fmask \<or> letter \<in> set fmask then Some v else None
          | None \<Rightarrow> None))"
  by (auto simp: do_stat_def stat_loop_at fun_eq_iff split: sum.splits option.splits)

text \<open>the permission string \<open>stat\<close> reports after \<open>chmod\<close> with a mode without sign: the three user
  flags are those of the string, the other six are those of the old mode.\<close>

theorem perm_after_chmod:
  assumes "szmode = [] \<or> hd szmode \<notin> {CHR ''+'', CHR ''-''}"
  shows "stat_perm (chmod_mode szmode old) =
     [if CHR ''r'' \<in> set szmode then CHR ''r'' else CHR ''-'',
      if CHR ''w'' \<in> set szmode then CHR ''w'' else CHR ''-'',
      if CHR ''x'' \<in> set szmode then CHR ''x'' else CHR ''-''] @ drop 3 (stat_perm old)"
  using assms by (auto simp: stat_perm_nth bit_chmod_mode user_flag_def numeral_eq_Suc upt_rec simp del: upt_Suc)

theorem perm_after_chmod_witness:
  "stat_perm (chmod_mode ''rx'' 0) = ''r-x------''"
  using perm_after_chmod [of "''rx''" 0] by (simp add: stat_perm_nth numeral_eq_Suc upt_rec del: upt_Suc)

end
