(* ===== verification/LuaZio.thy ===== *)
theory LuaZio
  imports Prelude
begin

text \<open>
  Buffered input streams and memory sizes of the embedded interpreter (\<open>lzio.c\<close>, \<open>lmem.c\<close> under
  \<open>lua/lua-5.3.1/src\<close>). A stream holds the bytes of its buffer that are still unread and the pieces
  its reader function will hand out, in order; an empty piece, and the end of the list, stand for a
  reader that returns \<open>NULL\<close> or no bytes. \<open>contents\<close> is the abstraction: the bytes a client sees, in
  which the boundaries of the pieces do not show.
\<close>

section \<open>Streams\<close>

record zio =
  z_buf :: "u8 list"
  z_reader :: "u8 list list"

definition luaZ_init :: "u8 list list \<Rightarrow> zio" where
  "luaZ_init reader = \<lparr>z_buf = [], z_reader = reader\<rparr>"

text \<open>\<open>luaZ_fill\<close>: the first byte of the next piece, or \<open>None\<close> for \<open>EOZ\<close>.\<close>

definition luaZ_fill :: "zio \<Rightarrow> u8 option \<times> zio" where
  "luaZ_fill z =
     (case z_reader z of
        [] \<Rightarrow> (None, z)
      | [] # cs \<Rightarrow> (None, z\<lparr>z_reader := cs\<rparr>)
      | (c # buff) # cs \<Rightarrow> (Some c, z\<lparr>z_buf := buff, z_reader := cs\<rparr>))"

text \<open>
  \<open>zgetc\<close>: at the end of the stream the count \<open>n\<close> has wrapped around below zero and the stream may
  not be read again, so no stream is returned.
\<close>

definition zgetc :: "zio \<Rightarrow> (u8 \<times> zio) option" where
  "zgetc z =
     (case z_buf z of
        c # p \<Rightarrow> Some (c, z\<lparr>z_buf := p\<rparr>)
      | [] \<Rightarrow> (case luaZ_fill z of (None, _) \<Rightarrow> None | (Some c, z1) \<Rightarrow> Some (c, z1)))"

text \<open>
  \<open>luaZ_read\<close>: the bytes stored at \<open>b\<close>, the number of bytes missing, and the stream. The byte
  \<open>luaZ_fill\<close> took is put back before it is copied.
\<close>

function luaZ_read :: "zio \<Rightarrow> nat \<Rightarrow> u8 list \<times> nat \<times> zio" where
  "luaZ_read z n =
     (if n = 0 then ([], 0, z)
      else (case (if z_buf z = [] then luaZ_fill z else (Some (hd (z_buf z)), z\<lparr>z_buf := tl (z_buf z)\<rparr>)) of
              (None, z1) \<Rightarrow> ([], n, z1)
            | (Some c, z1) \<Rightarrow>
                (let p = c # z_buf z1; m = (if n \<le> length p then n else length p);
                     (b, missing, z2) = luaZ_read (z1\<lparr>z_buf := drop m p\<rparr>) (n - m)
                 in (take m p @ b, missing, z2))))"
  by pat_completeness auto
termination
  by (relation "measure snd") (auto simp: Let_def split: if_splits)

declare luaZ_read.simps [simp del]

definition contents :: "zio \<Rightarrow> u8 list" where
  "contents z = z_buf z @ concat (takeWhile (\<lambda>c. c \<noteq> []) (z_reader z))"

lemma contents_init: "[] \<notin> set pieces \<Longrightarrow> contents (luaZ_init pieces) = concat pieces"
proof -
  assume "[] \<notin> set pieces"
  then have "takeWhile (\<lambda>c. c \<noteq> []) pieces = pieces" by (auto simp: takeWhile_eq_all_conv)
  show ?thesis unfolding contents_def luaZ_init_def by (simp only: zio.simps append_Nil \<open>takeWhile _ _ = _\<close>)
qed

lemma luaZ_fill_contents:
  assumes "z_buf z = []"
  shows "case luaZ_fill z of
      (None, z1) \<Rightarrow> contents z = []
    | (Some c, z1) \<Rightarrow> contents z = c # contents z1"
  using assms by (auto simp: luaZ_fill_def contents_def split: list.splits)

lemma zgetc_contents:
  "case zgetc z of None \<Rightarrow> contents z = [] | Some (c, z1) \<Rightarrow> contents z = c # contents z1"
proof (cases "z_buf z")
  case Nil
  with luaZ_fill_contents [OF Nil] show ?thesis by (auto simp: zgetc_def split: option.splits prod.splits)
next
  case (Cons c p)
  then show ?thesis by (simp add: zgetc_def contents_def)
qed

lemma luaZ_read_spec:
  "fst (luaZ_read z n) = take n (contents z) \<and>
   fst (snd (luaZ_read z n)) = n - length (contents z) \<and>
   (n \<le> length (contents z) \<longrightarrow> contents (snd (snd (luaZ_read z n))) = drop n (contents z))"
proof (induction z n rule: luaZ_read.induct)
  case (1 z n)
  show ?case
  proof (cases "n = 0")
    case True
    then show ?thesis by (simp add: luaZ_read.simps)
  next
    case False
    obtain o1 z1 where next_byte: "(if z_buf z = [] then luaZ_fill z else (Some (hd (z_buf z)), z\<lparr>z_buf := tl (z_buf z)\<rparr>)) = (o1, z1)"
      by fastforce
    have got: "case o1 of None \<Rightarrow> contents z = [] | Some c \<Rightarrow> contents z = c # contents z1"
    proof (cases "z_buf z = []")
      case True
      with next_byte luaZ_fill_contents [OF True] show ?thesis by (auto split: option.splits)
    next
      case F: False
      with next_byte have "o1 = Some (hd (z_buf z))" "z1 = z\<lparr>z_buf := tl (z_buf z)\<rparr>" by auto
      with F show ?thesis by (cases "z_buf z") (simp_all add: contents_def)
    qed
    show ?thesis
    proof (cases o1)
      case None
      with False next_byte got show ?thesis by (subst (1 2 3) luaZ_read.simps) (simp add: luaZ_read.simps)
    next
      case (Some c)
      let ?p = "c # z_buf z1"
      let ?m = "if n \<le> length ?p then n else length ?p"
      let ?z = "z1\<lparr>z_buf := drop ?m ?p\<rparr>"
      have all: "contents z = take ?m ?p @ contents ?z"
        using got Some by (simp add: contents_def flip: append_assoc)
      have m: "length (take ?m ?p) = ?m" "?m \<le> n" by simp_all
      have read: "luaZ_read z n = (take ?m ?p @ fst (luaZ_read ?z (n - ?m)), snd (luaZ_read ?z (n - ?m)))"
        using False next_byte Some
        by (subst luaZ_read.simps) (simp add: Let_def split: prod.split)
      from "1.IH" [OF False next_byte [symmetric] Some refl refl]
      have ih: "fst (luaZ_read ?z (n - ?m)) = take (n - ?m) (contents ?z) \<and>
        fst (snd (luaZ_read ?z (n - ?m))) = n - ?m - length (contents ?z) \<and>
        (n - ?m \<le> length (contents ?z) \<longrightarrow>
           contents (snd (snd (luaZ_read ?z (n - ?m)))) = drop (n - ?m) (contents ?z))" .
      have len: "length (contents z) = ?m + length (contents ?z)" unfolding all length_append m ..
      have t: "take n (contents z) = take ?m ?p @ take (n - ?m) (contents ?z)"
        and d: "drop n (contents z) = drop (n - ?m) (contents ?z)"
        unfolding all take_append drop_append m using m by simp_all
      show ?thesis unfolding read t d len using ih by auto
    qed
  qed
qed

section \<open>Buffer sizes\<close>

text \<open>\<open>luaZ_openspace\<close> on the size of the buffer, and the growth of arrays by \<open>luaM_growaux_\<close>.\<close>

definition luaZ_openspace :: "nat \<Rightarrow> nat \<Rightarrow> nat" where
  "luaZ_openspace buffsize n = (if n > buffsize then (if n < 32 then 32 else n) else buffsize)"

definition luaM_growaux :: "nat \<Rightarrow> nat \<Rightarrow> string + nat" where
  "luaM_growaux sz limit =
     (if sz \<ge> limit div 2 then (if sz \<ge> limit then Inl ''too many'' else Inr limit)
      else Inr (if sz * 2 < 4 then 4 else sz * 2))"

section \<open>Properties\<close>

text \<open>C14: reading from a stream does not depend on how its reader cuts the input into pieces: the bytes
  read are the next ones of the concatenation, the count of missing bytes is what the input lacks, and
  when nothing is missing the stream goes on where the read ended.\<close>

theorem reading_ignores_pieces:
  assumes "[] \<notin> set pieces" and "n \<le> length (concat pieces)"
  shows "\<exists>z1. luaZ_read (luaZ_init pieces) n = (take n (concat pieces), 0, z1) \<and>
     (\<forall>m. \<exists>z2. luaZ_read z1 m = (take m (drop n (concat pieces)), m - (length (concat pieces) - n), z2))"
proof -
  let ?z = "luaZ_init pieces"
  obtain b miss z1 where r: "luaZ_read ?z n = (b, miss, z1)" by (metis prod.exhaust)
  with luaZ_read_spec [of ?z n] assms have 1: "b = take n (concat pieces)" "miss = 0" "contents z1 = drop n (concat pieces)"
    by (simp_all add: contents_init)
  have "\<exists>z2. luaZ_read z1 m = (take m (drop n (concat pieces)), m - (length (concat pieces) - n), z2)" for m
    using luaZ_read_spec [of z1 m] 1(3) by (metis length_drop prod.collapse)
  with r 1 show ?thesis by simp
qed

theorem reading_ignores_pieces_witness:
  "\<exists>z1. luaZ_read (luaZ_init [[1, 2], [3]]) 3 = ([1, 2, 3], 0, z1)"
  using reading_ignores_pieces [of "[[1, 2], [3]]" 3] by auto

text \<open>growing an array makes room for at least one more element and never passes the limit; only an
  array that is already at its limit cannot grow.\<close>

theorem growaux_makes_room:
  "case luaM_growaux sz limit of
     Inl e \<Rightarrow> limit \<le> sz
   | Inr newsize \<Rightarrow> sz < newsize \<and> (4 \<le> limit \<longrightarrow> newsize \<le> limit)"
  by (auto simp: luaM_growaux_def)

theorem growaux_makes_room_witness: "luaM_growaux 5 200 = Inr 10"
  using growaux_makes_room [of 5 200] by (simp add: luaM_growaux_def)

end
