(* ===== verification/LuaChunk.thy ===== *)
theory LuaChunk
  imports LuaZio "HOL-Library.Sublist"
begin

text \<open>
  Precompiled chunks of the embedded interpreter: saving a function (\<open>ldump.c\<close>), loading it
  (\<open>lundump.c\<close>) and the choice between a binary and a text chunk (\<open>f_parser\<close> in \<open>ldo.c\<close>), on a
  64-bit little-endian machine. A function prototype is a value; its strings are byte lists, \<open>None\<close>
  for \<open>NULL\<close> (two source strings with the same text are one object, as the parser makes them).
  Floats are their 64 bits. The writer is any function on its own state that returns a status.
  Memory is a predicate \<open>avail\<close> on block sizes; recursion over nested functions takes a bound, the
  number of nested calls the C stack has room for.
\<close>

section \<open>Function prototypes\<close>

datatype TConst = KNil | KBoolean u8 | KFlt u64 | KInt u64 | KStr "u8 list"

record Upvaldesc =
  uv_name :: "u8 list option"
  uv_instack :: u8
  uv_idx :: u8

record LocVar =
  lv_varname :: "u8 list option"
  lv_startpc :: u32
  lv_endpc :: u32

datatype Proto = Proto
  (p_source: "u8 list option") (p_linedefined: u32) (p_lastlinedefined: u32)
  (p_numparams: u8) (p_is_vararg: u8) (p_maxstacksize: u8)
  (p_code: "u32 list") (p_k: "TConst list") (p_upvalues: "Upvaldesc list") (p_p: "Proto list")
  (p_lineinfo: "u32 list") (p_locvars: "LocVar list")

lemma size_nested [termination_simp]: "q \<in> set (p_p f) \<Longrightarrow> size q < size f"
  by (cases f) (auto dest: size_list_estimation' [where f = size, OF _ order_refl] simp: less_Suc_eq_le trans_le_add1 trans_le_add2)

section \<open>Bytes of the basic types\<close>

definition le64_bytes :: "u64 \<Rightarrow> u8 list" where
  "le64_bytes w = map (\<lambda>i. ucast (drop_bit (8 * i) w)) [0..<8]"

fun le64 :: "u8 list \<Rightarrow> u64" where
  "le64 [] = 0"
| "le64 (b # bs) = ucast b OR push_bit 8 (le64 bs)"

lemma bit_le64:
  "bit (le64 bs) n \<longleftrightarrow> n < 64 \<and> n < 8 * length bs \<and> bit (bs ! (n div 8)) (n mod 8)"
proof (induction bs arbitrary: n)
  case (Cons b bs)
  show ?case
  proof (cases "n < 8")
    case True
    then show ?thesis by (auto simp: bit_simps dest: bit_imp_le_length)
  next
    case False
    then have "n = (n - 8) + 8" by simp
    then obtain k where k: "n = k + 8" by blast
    have "\<not> bit (ucast b :: u64) n" using False by (auto simp: bit_simps dest: bit_imp_le_length)
    moreover have "(k + 8) div 8 = Suc (k div 8)" by simp
    ultimately show ?thesis by (auto simp: k bit_simps Cons.IH)
  qed
qed simp

lemma length_le64_bytes [simp]: "length (le64_bytes w) = 8"
  by (simp add: le64_bytes_def)

lemma nth_le64_bytes: "i < 8 \<Longrightarrow> le64_bytes w ! i = ucast (drop_bit (8 * i) w)"
  unfolding le64_bytes_def by (subst nth_map) (simp_all del: upt_Suc)

lemma le64_le64_bytes [simp]: "le64 (le64_bytes w) = w"
proof (rule bit_word_eqI)
  fix n :: nat assume n: "n < LENGTH(64)"
  then have "n div 8 < 8" by (simp add: less_mult_imp_div_less)
  moreover have "8 * (n div 8) + n mod 8 = n" by simp
  moreover have "n mod 8 < LENGTH(8)" by simp
  ultimately show "bit (le64 (le64_bytes w)) n = bit w n"
    using n by (simp add: bit_le64 nth_le64_bytes bit_ucast_iff bit_drop_bit_eq)
qed

interpretation int_code: fixed_width_code le_bytes "\<lambda>bs. le32 (bs ! 0) (bs ! 1) (bs ! 2) (bs ! 3)" 4
  by unfold_locales (simp_all add: le_bytes_def)

interpretation long_code: fixed_width_code le64_bytes le64 8
  by unfold_locales simp_all

section \<open>Saving\<close>

type_synonym 'd writer = "'d \<Rightarrow> u8 list \<Rightarrow> int \<times> 'd"
type_synonym 'd dump = "int \<times> 'd \<Rightarrow> int \<times> 'd"

definition DumpBlock :: "'d writer \<Rightarrow> u8 list \<Rightarrow> 'd dump" where
  "DumpBlock w b D = (case D of (status, d) \<Rightarrow> if status = 0 then w d b else (status, d))"

definition DumpByte :: "'d writer \<Rightarrow> u8 \<Rightarrow> 'd dump" where
  "DumpByte w y = DumpBlock w [y]"

definition DumpInt :: "'d writer \<Rightarrow> u32 \<Rightarrow> 'd dump" where
  "DumpInt w x = DumpBlock w (le_bytes x)"

definition DumpNumber :: "'d writer \<Rightarrow> u64 \<Rightarrow> 'd dump" where
  "DumpNumber w x = DumpBlock w (le64_bytes x)"

definition DumpInteger :: "'d writer \<Rightarrow> u64 \<Rightarrow> 'd dump" where
  "DumpInteger w x = DumpBlock w (le64_bytes x)"

definition DumpString :: "'d writer \<Rightarrow> u8 list option \<Rightarrow> 'd dump" where
  "DumpString w s D =
     (case s of
        None \<Rightarrow> DumpByte w 0 D
      | Some str \<Rightarrow>
          (let sz = of_nat (length str) + 1 :: u64;
               D1 = (if sz < 0xFF then DumpByte w (ucast sz) D
                     else DumpBlock w (le64_bytes sz) (DumpByte w 0xFF D))
           in DumpBlock w str D1))"

definition DumpSize :: "'d writer \<Rightarrow> 'a list \<Rightarrow> 'd dump" where
  "DumpSize w xs = DumpInt w (of_nat (length xs))"

definition DumpCode :: "'d writer \<Rightarrow> Proto \<Rightarrow> 'd dump" where
  "DumpCode w f D = DumpBlock w (concat (map le_bytes (p_code f))) (DumpSize w (p_code f) D)"

definition const_tag :: "TConst \<Rightarrow> u8" where
  "const_tag c = (case c of KNil \<Rightarrow> 0 | KBoolean b \<Rightarrow> 1 | KFlt x \<Rightarrow> 3 | KInt x \<Rightarrow> 19
     | KStr s \<Rightarrow> if length s \<le> 40 then 4 else 20)"

definition DumpConstant :: "'d writer \<Rightarrow> TConst \<Rightarrow> 'd dump" where
  "DumpConstant w c D =
     (let D1 = DumpByte w (const_tag c) D
      in (case c of
            KNil \<Rightarrow> D1
          | KBoolean b \<Rightarrow> DumpByte w b D1
          | KFlt x \<Rightarrow> DumpNumber w x D1
          | KInt x \<Rightarrow> DumpInteger w x D1
          | KStr s \<Rightarrow> DumpString w (Some s) D1))"

definition DumpConstants :: "'d writer \<Rightarrow> Proto \<Rightarrow> 'd dump" where
  "DumpConstants w f D = fold (DumpConstant w) (p_k f) (DumpSize w (p_k f) D)"

definition DumpUpvalues :: "'d writer \<Rightarrow> Proto \<Rightarrow> 'd dump" where
  "DumpUpvalues w f D =
     fold (\<lambda>u D. DumpByte w (uv_idx u) (DumpByte w (uv_instack u) D)) (p_upvalues f) (DumpSize w (p_upvalues f) D)"

definition DumpDebug :: "'d writer \<Rightarrow> bool \<Rightarrow> Proto \<Rightarrow> 'd dump" where
  "DumpDebug w strip f D =
     (let lineinfo = (if strip then [] else p_lineinfo f);
          locvars = (if strip then [] else p_locvars f);
          upvalues = (if strip then [] else p_upvalues f);
          D1 = DumpBlock w (concat (map le_bytes lineinfo)) (DumpSize w lineinfo D);
          D2 = fold (\<lambda>v D. DumpInt w (lv_endpc v) (DumpInt w (lv_startpc v) (DumpString w (lv_varname v) D)))
                 locvars (DumpSize w locvars D1)
      in fold (\<lambda>u. DumpString w (uv_name u)) upvalues (DumpSize w upvalues D2))"

fun DumpFunction :: "'d writer \<Rightarrow> bool \<Rightarrow> Proto \<Rightarrow> u8 list option \<Rightarrow> 'd dump" where
  "DumpFunction w strip f psource D =
     (let D1 = DumpString w (if strip \<or> p_source f = psource then None else p_source f) D;
          D2 = DumpInt w (p_lastlinedefined f) (DumpInt w (p_linedefined f) D1);
          D3 = DumpByte w (p_maxstacksize f) (DumpByte w (p_is_vararg f) (DumpByte w (p_numparams f) D2));
          D4 = DumpUpvalues w f (DumpConstants w f (DumpCode w f D3));
          D5 = fold (\<lambda>q D. DumpFunction w strip q (p_source f) D) (p_p f) (DumpSize w (p_p f) D4)
      in DumpDebug w strip f D5)"

declare DumpFunction.simps [simp del]

definition LUA_SIGNATURE :: "u8 list" where
  "LUA_SIGNATURE = [0x1B, 0x4C, 0x75, 0x61]"

definition LUAC_DATA :: "u8 list" where
  "LUAC_DATA = [0x19, 0x93, 0x0D, 0x0A, 0x1A, 0x0A]"

text \<open>Version 5.3 is \<open>0x53\<close>; \<open>LUAC_NUM\<close> is the double \<open>370.5\<close>.\<close>

definition LUAC_VERSION :: u8 where "LUAC_VERSION = 0x53"
definition LUAC_INT :: u64 where "LUAC_INT = 0x5678"
definition LUAC_NUM :: u64 where "LUAC_NUM = 0x4077280000000000"

definition DumpHeader :: "'d writer \<Rightarrow> 'd dump" where
  "DumpHeader w D =
     (let D1 = DumpByte w 0 (DumpByte w LUAC_VERSION (DumpBlock w LUA_SIGNATURE D));
          D2 = DumpBlock w LUAC_DATA D1;
          D3 = fold (DumpByte w) [4, 8, 4, 8, 8] D2
      in DumpNumber w LUAC_NUM (DumpInteger w LUAC_INT D3))"

definition luaU_dump :: "'d writer \<Rightarrow> 'd \<Rightarrow> bool \<Rightarrow> Proto \<Rightarrow> int \<times> 'd" where
  "luaU_dump w d strip f =
     DumpFunction w strip f None (DumpByte w (of_nat (length (p_upvalues f))) (DumpHeader w (0, d)))"

section \<open>Loading\<close>

datatype load_error = SyntaxError string | MemoryError | StackOverflow | Undefined string

type_synonym 'a load = "zio \<Rightarrow> load_error + 'a \<times> zio"

definition returnL :: "'a \<Rightarrow> 'a load" where
  "returnL x z = Inr (x, z)"

definition failL :: "load_error \<Rightarrow> 'a load" where
  "failL e z = Inl e"

definition bindL :: "'a load \<Rightarrow> ('a \<Rightarrow> 'b load) \<Rightarrow> 'b load" where
  "bindL m f z = (case m z of Inl e \<Rightarrow> Inl e | Inr (x, z1) \<Rightarrow> f x z1)"

text \<open>\<open>error(S, why)\<close>: \<open>nm\<close> is \<open>S->name\<close>.\<close>

definition load_error_msg :: "string \<Rightarrow> string \<Rightarrow> load_error" where
  "load_error_msg nm why = SyntaxError (nm @ '': '' @ why @ '' precompiled chunk'')"

definition LoadBlock :: "string \<Rightarrow> nat \<Rightarrow> u8 list load" where
  "LoadBlock nm sz z =
     (case luaZ_read z sz of (b, missing, z1) \<Rightarrow>
        if missing \<noteq> 0 then Inl (load_error_msg nm ''truncated'') else Inr (b, z1))"

definition LoadByte :: "string \<Rightarrow> u8 load" where
  "LoadByte nm = bindL (LoadBlock nm 1) (\<lambda>b. returnL (b ! 0))"

definition LoadInt :: "string \<Rightarrow> u32 load" where
  "LoadInt nm = bindL (LoadBlock nm 4) (\<lambda>b. returnL (le32 (b ! 0) (b ! 1) (b ! 2) (b ! 3)))"

definition LoadNumber :: "string \<Rightarrow> u64 load" where
  "LoadNumber nm = bindL (LoadBlock nm 8) (\<lambda>b. returnL (le64 b))"

definition LoadInteger :: "string \<Rightarrow> u64 load" where
  "LoadInteger nm = bindL (LoadBlock nm 8) (\<lambda>b. returnL (le64 b))"

definition LoadString :: "(nat \<Rightarrow> bool) \<Rightarrow> string \<Rightarrow> u8 list option load" where
  "LoadString avail nm =
     bindL (LoadByte nm) (\<lambda>b.
     bindL (if b = 0xFF then LoadInteger nm else returnL (ucast b)) (\<lambda>sz.
       if sz = 0 then returnL None
       else if \<not> avail (unat (sz - 1)) then failL MemoryError
       else bindL (LoadBlock nm (unat (sz - 1))) (\<lambda>s. returnL (Some s))))"

text \<open>\<open>luaM_newvector\<close>: a negative count is a huge size, which no allocator has.\<close>

definition newvector :: "(nat \<Rightarrow> bool) \<Rightarrow> u32 \<Rightarrow> nat \<Rightarrow> nat load" where
  "newvector avail n esize =
     (if sint n < 0 then failL MemoryError
      else if n = 0 \<or> avail (nat (sint n) * esize) then returnL (nat (sint n))
      else failL MemoryError)"

fun load_times :: "nat \<Rightarrow> 'a load \<Rightarrow> 'a list load" where
  "load_times 0 m = returnL []"
| "load_times (Suc n) m = bindL m (\<lambda>x. bindL (load_times n m) (\<lambda>xs. returnL (x # xs)))"

definition LoadIntVector :: "(nat \<Rightarrow> bool) \<Rightarrow> string \<Rightarrow> u32 list load" where
  "LoadIntVector avail nm =
     bindL (LoadInt nm) (\<lambda>n. bindL (newvector avail n 4) (\<lambda>n.
       bindL (LoadBlock nm (4 * n)) (\<lambda>b.
         returnL (map (\<lambda>bs. le32 (bs ! 0) (bs ! 1) (bs ! 2) (bs ! 3)) (full_blocks 4 b)))))"

definition LoadCode :: "(nat \<Rightarrow> bool) \<Rightarrow> string \<Rightarrow> u32 list load" where
  "LoadCode avail nm = LoadIntVector avail nm"

definition LoadConstant :: "(nat \<Rightarrow> bool) \<Rightarrow> string \<Rightarrow> TConst load" where
  "LoadConstant avail nm =
     bindL (LoadByte nm) (\<lambda>t.
       if t = 0 then returnL KNil
       else if t = 1 then bindL (LoadByte nm) (\<lambda>b. returnL (KBoolean b))
       else if t = 3 then bindL (LoadNumber nm) (\<lambda>x. returnL (KFlt x))
       else if t = 19 then bindL (LoadInteger nm) (\<lambda>x. returnL (KInt x))
       else if t = 4 \<or> t = 20 then
         bindL (LoadString avail nm) (\<lambda>s.
           case s of None \<Rightarrow> failL (Undefined ''string constant is NULL'') | Some str \<Rightarrow> returnL (KStr str))
       else returnL KNil)"

definition LoadConstants :: "(nat \<Rightarrow> bool) \<Rightarrow> string \<Rightarrow> TConst list load" where
  "LoadConstants avail nm =
     bindL (LoadInt nm) (\<lambda>n. bindL (newvector avail n 16) (\<lambda>n. load_times n (LoadConstant avail nm)))"

definition LoadUpvalues :: "(nat \<Rightarrow> bool) \<Rightarrow> string \<Rightarrow> Upvaldesc list load" where
  "LoadUpvalues avail nm =
     bindL (LoadInt nm) (\<lambda>n. bindL (newvector avail n 16) (\<lambda>n.
       load_times n (bindL (LoadByte nm) (\<lambda>a. bindL (LoadByte nm) (\<lambda>b.
         returnL \<lparr>uv_name = None, uv_instack = a, uv_idx = b\<rparr>)))))"

definition LoadLocVar :: "(nat \<Rightarrow> bool) \<Rightarrow> string \<Rightarrow> LocVar load" where
  "LoadLocVar avail nm =
     bindL (LoadString avail nm) (\<lambda>s. bindL (LoadInt nm) (\<lambda>a. bindL (LoadInt nm) (\<lambda>b.
       returnL \<lparr>lv_varname = s, lv_startpc = a, lv_endpc = b\<rparr>)))"

text \<open>
  \<open>LoadDebug\<close> is given the upvalues read before and stores their names; a count larger than their
  number makes it write past the array.
\<close>

definition LoadDebug ::
  "(nat \<Rightarrow> bool) \<Rightarrow> string \<Rightarrow> Upvaldesc list \<Rightarrow> (u32 list \<times> LocVar list \<times> Upvaldesc list) load" where
  "LoadDebug avail nm ups =
     bindL (LoadIntVector avail nm) (\<lambda>lineinfo.
     bindL (bindL (LoadInt nm) (\<lambda>n. bindL (newvector avail n 16) (\<lambda>n. load_times n (LoadLocVar avail nm)))) (\<lambda>locvars.
     bindL (LoadInt nm) (\<lambda>n.
       if sint n > int (length ups) then failL (Undefined ''too many upvalue names'')
       else bindL (load_times (nat (sint n)) (LoadString avail nm)) (\<lambda>names.
         returnL (lineinfo, locvars,
           map (\<lambda>(nm1, u). u\<lparr>uv_name := nm1\<rparr>) (zip names ups) @ drop (length names) ups)))))"

fun LoadFunction :: "(nat \<Rightarrow> bool) \<Rightarrow> string \<Rightarrow> nat \<Rightarrow> u8 list option \<Rightarrow> Proto load" where
  "LoadFunction avail nm 0 psource = failL StackOverflow"
| "LoadFunction avail nm (Suc cstack) psource =
     bindL (LoadString avail nm) (\<lambda>s. let src = (if s = None then psource else s) in
     bindL (LoadInt nm) (\<lambda>ld. bindL (LoadInt nm) (\<lambda>lld.
     bindL (LoadByte nm) (\<lambda>np. bindL (LoadByte nm) (\<lambda>va. bindL (LoadByte nm) (\<lambda>ms.
     bindL (LoadCode avail nm) (\<lambda>code. bindL (LoadConstants avail nm) (\<lambda>k.
     bindL (LoadUpvalues avail nm) (\<lambda>ups.
     bindL (bindL (LoadInt nm) (\<lambda>n. bindL (newvector avail n 8) (\<lambda>n.
              load_times n (LoadFunction avail nm cstack src)))) (\<lambda>ps.
     bindL (LoadDebug avail nm ups) (\<lambda>(li, lv, ups1).
       returnL (Proto src ld lld np va ms code k ups1 ps li lv))))))))))))"

definition checkliteral :: "string \<Rightarrow> u8 list \<Rightarrow> string \<Rightarrow> unit load" where
  "checkliteral nm s msg =
     bindL (LoadBlock nm (length s)) (\<lambda>buff. if buff \<noteq> s then failL (load_error_msg nm msg) else returnL ())"

definition checkbyte :: "string \<Rightarrow> u8 \<Rightarrow> string \<Rightarrow> unit load" where
  "checkbyte nm v msg = bindL (LoadByte nm) (\<lambda>b. if b \<noteq> v then failL (load_error_msg nm msg) else returnL ())"

definition fchecksize :: "string \<Rightarrow> u8 \<Rightarrow> string \<Rightarrow> unit load" where
  "fchecksize nm sz tname = checkbyte nm sz (tname @ '' size mismatch in'')"

definition checkHeader :: "string \<Rightarrow> unit load" where
  "checkHeader nm =
     bindL (checkliteral nm (tl LUA_SIGNATURE) ''not a'') (\<lambda>_.
     bindL (checkbyte nm LUAC_VERSION ''version mismatch in'') (\<lambda>_.
     bindL (checkbyte nm 0 ''format mismatch in'') (\<lambda>_.
     bindL (checkliteral nm LUAC_DATA ''corrupted'') (\<lambda>_.
     bindL (fchecksize nm 4 ''int'') (\<lambda>_.
     bindL (fchecksize nm 8 ''size_t'') (\<lambda>_.
     bindL (fchecksize nm 4 ''Instruction'') (\<lambda>_.
     bindL (fchecksize nm 8 ''lua_Integer'') (\<lambda>_.
     bindL (fchecksize nm 8 ''lua_Number'') (\<lambda>_.
     bindL (LoadInteger nm) (\<lambda>i.
       if i \<noteq> LUAC_INT then failL (load_error_msg nm ''endianness mismatch in'')
       else bindL (LoadNumber nm) (\<lambda>x.
         if x \<noteq> LUAC_NUM then failL (load_error_msg nm ''float format mismatch in'') else returnL ())))))))))))"

definition chunk_name :: "string \<Rightarrow> string" where
  "chunk_name name =
     (if name \<noteq> [] \<and> (hd name = CHR ''@'' \<or> hd name = CHR ''='') then tl name
      else if name \<noteq> [] \<and> hd name = CHR 0x1B then ''binary string'' else name)"

text \<open>The closure: the number of upvalues it was allocated with, and its prototype.\<close>

definition luaU_undump :: "(nat \<Rightarrow> bool) \<Rightarrow> nat \<Rightarrow> string \<Rightarrow> (u8 \<times> Proto) load" where
  "luaU_undump avail cstack name =
     (let nm = chunk_name name
      in bindL (checkHeader nm) (\<lambda>_. bindL (LoadByte nm) (\<lambda>nupvalues.
           bindL (LoadFunction avail nm cstack None) (\<lambda>p. returnL (nupvalues, p)))))"

text \<open>
  \<open>f_parser\<close>: the first character decides; a text chunk is handed to the parser with that character.
\<close>

datatype loaded = BinaryChunk u8 Proto | TextChunk "u8 option"

definition checkmode :: "string option \<Rightarrow> string \<Rightarrow> load_error option" where
  "checkmode mode x =
     (case mode of
        Some m \<Rightarrow> if hd x \<notin> set m
                  then Some (SyntaxError (''attempt to load a '' @ x @ '' chunk (mode is '' @ [CHR 0x27] @ m @ [CHR 0x27] @ '')''))
                  else None
      | None \<Rightarrow> None)"

definition f_parser :: "(nat \<Rightarrow> bool) \<Rightarrow> nat \<Rightarrow> string option \<Rightarrow> string \<Rightarrow> zio \<Rightarrow> load_error + loaded" where
  "f_parser avail cstack mode name z =
     (case zgetc z of
        Some (c, z1) \<Rightarrow>
          if c = hd LUA_SIGNATURE then
            (case checkmode mode ''binary'' of
               Some e \<Rightarrow> Inl e
             | None \<Rightarrow> (case luaU_undump avail cstack name z1 of
                          Inl e \<Rightarrow> Inl e
                        | Inr ((n, p), _) \<Rightarrow> Inr (BinaryChunk n p)))
          else (case checkmode mode ''text'' of Some e \<Rightarrow> Inl e | None \<Rightarrow> Inr (TextChunk (Some c)))
      | None \<Rightarrow> (case checkmode mode ''text'' of Some e \<Rightarrow> Inl e | None \<Rightarrow> Inr (TextChunk None)))"

section \<open>Writing and reading one thing\<close>

text \<open>
  \<open>writes w g bs\<close>: the action \<open>g\<close> hands the bytes \<open>bs\<close> to the writer in some blocks.
  \<open>reads nm m bs x\<close>: from a stream that starts with \<open>bs\<close> the action \<open>m\<close> takes exactly \<open>bs\<close> and
  returns \<open>x\<close>, and a stream that ends inside \<open>bs\<close> is reported as truncated.
\<close>

definition writes :: "'d writer \<Rightarrow> 'd dump \<Rightarrow> u8 list \<Rightarrow> bool" where
  "writes w g bs \<longleftrightarrow> (\<exists>blocks. concat blocks = bs \<and> g = fold (DumpBlock w) blocks)"

definition reads :: "string \<Rightarrow> 'a load \<Rightarrow> u8 list \<Rightarrow> 'a \<Rightarrow> bool" where
  "reads nm m bs x \<longleftrightarrow>
     (\<forall>z left. contents z = bs @ left \<longrightarrow> (\<exists>z1. m z = Inr (x, z1) \<and> contents z1 = left)) \<and>
     (\<forall>z. strict_prefix (contents z) bs \<longrightarrow> m z = Inl (load_error_msg nm ''truncated''))"

named_theorems codec_rules "how dumped bytes compose and are read back"

lemma writes_block [codec_rules]: "writes w (DumpBlock w bs) bs"
  unfolding writes_def by (rule exI [of _ "[bs]"]) (auto simp: fun_eq_iff)

lemma writes_id: "writes w (\<lambda>D. D) []"
  unfolding writes_def by (rule exI [of _ "[]"]) (auto simp: fun_eq_iff)

lemma writes_comp: "writes w g bs \<Longrightarrow> writes w h cs \<Longrightarrow> writes w (\<lambda>D. h (g D)) (bs @ cs)"
proof -
  assume "writes w g bs" "writes w h cs"
  then obtain b c where "concat b = bs" "g = fold (DumpBlock w) b" "concat c = cs" "h = fold (DumpBlock w) c"
    by (auto simp: writes_def)
  then show ?thesis unfolding writes_def by (intro exI [of _ "b @ c"]) (simp add: comp_def)
qed

lemma writes_fold:
  "(\<And>x. x \<in> set xs \<Longrightarrow> writes w (g x) (enc x)) \<Longrightarrow> writes w (fold g xs) (concat (map enc xs))"
proof (induction xs)
  case Nil
  show ?case using writes_id by (simp add: id_def)
next
  case (Cons x xs)
  then have "writes w (\<lambda>D. fold g xs (g x D)) (enc x @ concat (map enc xs))"
    by (intro writes_comp) auto
  then show ?case by (simp add: comp_def)
qed

lemma reads_return: "reads nm (returnL x) [] x"
  by (simp add: reads_def returnL_def)

lemma reads_bind:
  assumes m: "reads nm m bs x" and f: "reads nm (f x) cs y"
  shows "reads nm (bindL m f) (bs @ cs) y"
  unfolding reads_def
proof (intro conjI allI impI)
  fix z left assume "contents z = (bs @ cs) @ left"
  then have "contents z = bs @ (cs @ left)" by simp
  with m obtain z1 where "m z = Inr (x, z1)" "contents z1 = cs @ left" unfolding reads_def by blast
  with f show "\<exists>z1. bindL m f z = Inr (y, z1) \<and> contents z1 = left" by (auto simp: reads_def bindL_def)
next
  fix z assume "strict_prefix (contents z) (bs @ cs)"
  then consider "strict_prefix (contents z) bs" | us where "contents z = bs @ us" "strict_prefix us cs"
    by (cases "contents z = bs") (fastforce simp: strict_prefix_def prefix_append)+
  then show "bindL m f z = Inl (load_error_msg nm ''truncated'')"
  proof cases
    case 1
    with m show ?thesis by (auto simp: reads_def bindL_def)
  next
    case 2
    with m obtain z1 where "m z = Inr (x, z1)" "contents z1 = us" unfolding reads_def by blast
    with 2 f show ?thesis by (auto simp: reads_def bindL_def)
  qed
qed

lemma reads_times:
  "(\<And>x. x \<in> set xs \<Longrightarrow> reads nm m (enc x) (seen x)) \<Longrightarrow>
   reads nm (load_times (length xs) m) (concat (map enc xs)) (map seen xs)"
proof (induction xs)
  case Nil
  show ?case by (simp add: reads_return)
next
  case (Cons x xs)
  have tail: "reads nm (bindL (load_times (length xs) m) (\<lambda>ys. returnL (seen x # ys)))
      (concat (map enc xs) @ []) (seen x # map seen xs)"
    by (rule reads_bind [where x = "map seen xs"], rule Cons.IH) (simp_all add: Cons.prems reads_return)
  have "reads nm (load_times (Suc (length xs)) m) (enc x @ (concat (map enc xs) @ [])) (seen x # map seen xs)"
    unfolding load_times.simps
    by (rule reads_bind [where x = "seen x"]) (use tail in \<open>simp_all add: Cons.prems\<close>)
  then show ?case by simp
qed

lemma reads_block: "reads nm (LoadBlock nm (length bs)) bs bs"
  unfolding reads_def
proof (intro conjI allI impI)
  fix z left assume "contents z = bs @ left"
  then show "\<exists>z1. LoadBlock nm (length bs) z = Inr (bs, z1) \<and> contents z1 = left"
    using luaZ_read_spec [of z "length bs"] by (auto simp: LoadBlock_def split: prod.split)
next
  fix z assume "strict_prefix (contents z) bs"
  then have "length (contents z) < length bs" by (rule prefix_length_less)
  then show "LoadBlock nm (length bs) z = Inl (load_error_msg nm ''truncated'')"
    using luaZ_read_spec [of z "length bs"] by (auto simp: LoadBlock_def split: prod.split)
qed

lemma reads_block_map: "length bs = n \<Longrightarrow> f bs = x \<Longrightarrow> reads nm (bindL (LoadBlock nm n) (\<lambda>b. returnL (f b))) bs x"
  using reads_bind [OF reads_block reads_return] by fastforce

section \<open>Things with a code\<close>

text \<open>
  A dumped vector is its length, as an \<open>int\<close>, and its elements. \<open>room\<close> says that the length fits and
  that the loader gets memory for the elements.
\<close>

definition enc_vector :: "('a \<Rightarrow> u8 list) \<Rightarrow> 'a list \<Rightarrow> u8 list" where
  "enc_vector enc xs = le_bytes (of_nat (length xs)) @ concat (map enc xs)"

definition room :: "(nat \<Rightarrow> bool) \<Rightarrow> nat \<Rightarrow> 'a list \<Rightarrow> bool" where
  "room avail esize xs \<longleftrightarrow> length xs < 2 ^ 31 \<and> (xs = [] \<or> avail (length xs * esize))"

lemma sint_of_nat_small: "n < 2 ^ 31 \<Longrightarrow> sint (of_nat n :: u32) = int n"
  by (simp add: signed_of_nat signed_take_bit_int_eq_self)

lemma reads_newvector: "room avail esize xs \<Longrightarrow> reads nm (newvector avail (of_nat (length xs)) esize) [] (length xs)"
  by (auto simp: room_def newvector_def sint_of_nat_small reads_return)

lemma reads_byte: "reads nm (LoadByte nm) [x] x"
  unfolding LoadByte_def by (rule reads_block_map) simp_all

lemma reads_int: "reads nm (LoadInt nm) (le_bytes x) x"
  unfolding LoadInt_def by (rule reads_block_map) (simp_all only: length_le_bytes int_code.dec_enc)

lemma reads_integer: "reads nm (LoadInteger nm) (le64_bytes x) x"
  unfolding LoadInteger_def by (rule reads_block_map) simp_all

lemma reads_number: "reads nm (LoadNumber nm) (le64_bytes x) x"
  unfolding LoadNumber_def by (rule reads_block_map) simp_all

lemma reads_bindI:
  "reads nm m bs x \<Longrightarrow> reads nm (f x) cs y \<Longrightarrow> ds = bs @ cs \<Longrightarrow> reads nm (bindL m f) ds y"
  by (simp only:) (rule reads_bind [where x = x and f = f])

lemma reads_sized:
  assumes "room avail esize xs" and "reads nm (body (length xs)) cs y"
  shows "reads nm (bindL (LoadInt nm) (\<lambda>n. bindL (newvector avail n esize) body)) (le_bytes (of_nat (length xs)) @ cs) y"
proof (rule reads_bind [OF reads_int])
  show "reads nm (bindL (newvector avail (of_nat (length xs)) esize) body) cs y"
    by (rule reads_bindI [where x = "length xs"], rule reads_newvector [OF assms(1)], rule assms(2)) simp
qed

locale codec =
  fixes w :: "'d writer" and nm :: string
    and dump :: "'a \<Rightarrow> 'd dump" and load :: "'b load"
    and enc :: "'a \<Rightarrow> u8 list" and seen :: "'a \<Rightarrow> 'b" and ok :: "'a \<Rightarrow> bool"
  assumes dump_enc: "writes w (dump x) (enc x)"
    and load_enc: "ok x \<Longrightarrow> reads nm load (enc x) (seen x)"
begin

lemma dump_vector: "writes w (\<lambda>D. fold dump xs (DumpSize w xs D)) (enc_vector enc xs)"
  unfolding enc_vector_def DumpSize_def DumpInt_def
  by (rule writes_comp [OF writes_block writes_fold]) (rule dump_enc)

lemma load_all:
  "list_all ok xs \<Longrightarrow> reads nm (load_times (length xs) load) (concat (map enc xs)) (map seen xs)"
  by (rule reads_times) (auto simp: list_all_iff intro: load_enc)

lemma load_vector:
  "list_all ok xs \<Longrightarrow> room avail esize xs \<Longrightarrow>
   reads nm (bindL (LoadInt nm) (\<lambda>n. bindL (newvector avail n esize) (\<lambda>n. load_times n load)))
     (enc_vector enc xs) (map seen xs)"
  unfolding enc_vector_def by (rule reads_sized) (simp_all add: load_all)

end

text \<open>Vectors of instructions and of line numbers are written and read as one block.\<close>

lemma writes_ints:
  "writes w (\<lambda>D. DumpBlock w (concat (map le_bytes xs)) (DumpSize w xs D)) (enc_vector le_bytes xs)"
  unfolding enc_vector_def DumpSize_def DumpInt_def by (rule writes_comp writes_block)+

lemma reads_ints: "room avail 4 xs \<Longrightarrow> reads nm (LoadIntVector avail nm) (enc_vector le_bytes xs) xs"
  unfolding enc_vector_def LoadIntVector_def
  by (rule reads_sized, assumption, rule reads_block_map)
    (simp_all only: int_code.length_encoded int_code.decode_encoded)

section \<open>The codes of the parts\<close>

definition enc_string :: "u8 list option \<Rightarrow> u8 list" where
  "enc_string s =
     (case s of
        None \<Rightarrow> [0]
      | Some str \<Rightarrow> (let sz = of_nat (length str) + 1 :: u64
                     in (if sz < 0xFF then [ucast sz] else 0xFF # le64_bytes sz) @ str))"

definition ok_string :: "(nat \<Rightarrow> bool) \<Rightarrow> u8 list option \<Rightarrow> bool" where
  "ok_string avail s \<longleftrightarrow> (case s of None \<Rightarrow> True | Some str \<Rightarrow> length str + 1 < 2 ^ 64 \<and> avail (length str))"

definition enc_const :: "TConst \<Rightarrow> u8 list" where
  "enc_const c = const_tag c # (case c of KNil \<Rightarrow> [] | KBoolean b \<Rightarrow> [b] | KFlt x \<Rightarrow> le64_bytes x
     | KInt x \<Rightarrow> le64_bytes x | KStr s \<Rightarrow> enc_string (Some s))"

definition ok_const :: "(nat \<Rightarrow> bool) \<Rightarrow> TConst \<Rightarrow> bool" where
  "ok_const avail c \<longleftrightarrow> (case c of KStr s \<Rightarrow> ok_string avail (Some s) | _ \<Rightarrow> True)"

definition enc_locvar :: "LocVar \<Rightarrow> u8 list" where
  "enc_locvar v = enc_string (lv_varname v) @ le_bytes (lv_startpc v) @ le_bytes (lv_endpc v)"

lemma writes_string: "writes w (DumpString w s) (enc_string s)"
proof (cases s)
  case None
  have "DumpString w s = DumpBlock w [0]" by (rule ext) (simp add: None DumpString_def DumpByte_def)
  then show ?thesis using writes_block [of w "[0]"] by (simp add: None enc_string_def)
next
  case (Some str)
  let ?sz = "of_nat (length str) + 1 :: u64"
  have short: "writes w (\<lambda>D. DumpBlock w str (DumpBlock w [ucast ?sz] D)) ([ucast ?sz] @ str)"
    and long: "writes w (\<lambda>D. DumpBlock w str (DumpBlock w (le64_bytes ?sz) (DumpBlock w [0xFF] D)))
       (([0xFF] @ le64_bytes ?sz) @ str)"
    by (rule writes_comp writes_block)+
  show ?thesis
  proof (cases "?sz < 0xFF")
    case True
    then have "DumpString w s = (\<lambda>D. DumpBlock w str (DumpBlock w [ucast ?sz] D))"
      by (simp add: fun_eq_iff Some DumpString_def DumpByte_def Let_def)
    with short True show ?thesis by (simp add: Some enc_string_def Let_def)
  next
    case False
    then have "DumpString w s = (\<lambda>D. DumpBlock w str (DumpBlock w (le64_bytes ?sz) (DumpBlock w [0xFF] D)))"
      by (simp add: fun_eq_iff Some DumpString_def DumpByte_def Let_def)
    with long False show ?thesis by (simp add: Some enc_string_def Let_def)
  qed
qed

lemma string_size:
  assumes "n + 1 < 2 ^ 64"
  shows "(of_nat n + 1 :: u64) \<noteq> 0" and "unat (of_nat n + 1 - 1 :: u64) = n"
    and "(of_nat n + 1 :: u64) < 0xFF \<Longrightarrow> ucast (of_nat n + 1 :: u64) \<noteq> (0xFF :: u8)"
    and "(of_nat n + 1 :: u64) < 0xFF \<Longrightarrow> ucast (ucast (of_nat n + 1 :: u64) :: u8) = (of_nat n + 1 :: u64)"
proof -
  define sz where "sz = (of_nat n + 1 :: u64)"
  have sz: "sz = of_nat (n + 1)" by (simp add: sz_def)
  have u: "unat sz = n + 1" unfolding sz using assms by (simp only: unat_of_nat) simp
  show "(of_nat n + 1 :: u64) \<noteq> 0" using u unfolding sz_def [symmetric] by (metis unsigned_0 Suc_eq_plus1 nat.distinct(1))
  show "unat (of_nat n + 1 - 1 :: u64) = n" using assms by (simp add: unat_of_nat)
  assume small: "(of_nat n + 1 :: u64) < 0xFF"
  then have "unat sz < 255" unfolding sz_def [symmetric] by (simp add: word_less_nat_alt)
  then have u8: "unat (ucast sz :: u8) = unat sz"
    unfolding unsigned_ucast_eq by (intro take_bit_nat_eq_self) simp
  with \<open>unat sz < 255\<close> show "ucast (of_nat n + 1 :: u64) \<noteq> (0xFF :: u8)"
    unfolding sz_def [symmetric] by auto
  have "take_bit LENGTH(64) (unat sz) = unat sz"
    using \<open>unat sz < 255\<close> by (intro take_bit_nat_eq_self) simp
  with u8 have "unat (ucast (ucast sz :: u8) :: u64) = unat sz"
    by (subst unsigned_ucast_eq) (simp only:)
  then show "ucast (ucast (of_nat n + 1 :: u64) :: u8) = (of_nat n + 1 :: u64)"
    unfolding sz_def [symmetric] by (rule unsigned_word_eqI)
qed

lemma reads_string: "ok_string avail s \<Longrightarrow> reads nm (LoadString avail nm) (enc_string s) s"
proof (cases s)
  case None
  then show ?thesis unfolding LoadString_def
    by (intro reads_bindI [where x = 0, OF reads_byte] reads_bindI [where x = 0 and bs = "[]"])
      (simp_all add: enc_string_def reads_return)
next
  case (Some str)
  assume "ok_string avail s"
  with Some have n: "length str + 1 < 2 ^ 64" and a: "avail (length str)" by (simp_all add: ok_string_def)
  let ?sz = "of_nat (length str) + 1 :: u64"
  note size = string_size [OF n]
  have body: "reads nm (if ?sz = 0 then returnL None
       else if \<not> avail (unat (?sz - 1)) then failL MemoryError
       else bindL (LoadBlock nm (unat (?sz - 1))) (\<lambda>s. returnL (Some s))) str s"
    unfolding Some using size(1) a reads_block_map [of str "length str" Some]
    by (simp only: size if_False not_True_eq_False simp_thms)
  show ?thesis
  proof (cases "?sz < 0xFF")
    case True
    then have e: "enc_string s = [ucast ?sz] @ [] @ str" by (simp add: enc_string_def Some Let_def)
    show ?thesis unfolding LoadString_def e
      by (rule reads_bind [OF reads_byte], rule reads_bind [where x = ?sz])
        (use size(3,4) [OF True] body reads_return in simp_all)
  next
    case False
    then have e: "enc_string s = [0xFF] @ le64_bytes ?sz @ str" by (simp add: enc_string_def Some Let_def)
    show ?thesis unfolding LoadString_def e
      by (rule reads_bind [OF reads_byte], rule reads_bind [where x = ?sz])
        (use body reads_integer in simp_all)
  qed
qed

lemma writes_const: "writes w (DumpConstant w c) (enc_const c)"
proof -
  have tail: "writes w (\<lambda>D. h (DumpBlock w [const_tag c] D)) ([const_tag c] @ bs)" if "writes w h bs" for h bs
    by (rule writes_comp [OF writes_block that])
  show ?thesis
  proof (cases c)
    case KNil
    then have "DumpConstant w c = DumpBlock w [const_tag c]"
      by (simp add: fun_eq_iff DumpConstant_def DumpByte_def)
    then show ?thesis using writes_block [of w "[const_tag c]"] by (simp add: enc_const_def KNil)
  next
    case (KStr s)
    then have "DumpConstant w c = (\<lambda>D. DumpString w (Some s) (DumpBlock w [const_tag c] D))"
      by (simp add: fun_eq_iff DumpConstant_def DumpByte_def)
    then show ?thesis using tail [OF writes_string] by (simp add: enc_const_def KStr)
  qed (use tail [OF writes_block] in \<open>simp_all add: enc_const_def DumpConstant_def [abs_def] DumpByte_def
         DumpNumber_def DumpInteger_def\<close>)
qed

lemma reads_const: "ok_const avail c \<Longrightarrow> reads nm (LoadConstant avail nm) (enc_const c) c"
proof -
  assume ok: "ok_const avail c"
  have tail: "reads nm (LoadConstant avail nm) (const_tag c # bs) c"
    if "reads nm (if const_tag c = 0 then returnL KNil
       else if const_tag c = 1 then bindL (LoadByte nm) (\<lambda>b. returnL (KBoolean b))
       else if const_tag c = 3 then bindL (LoadNumber nm) (\<lambda>x. returnL (KFlt x))
       else if const_tag c = 19 then bindL (LoadInteger nm) (\<lambda>x. returnL (KInt x))
       else if const_tag c = 4 \<or> const_tag c = 20 then
         bindL (LoadString avail nm) (\<lambda>s.
           case s of None \<Rightarrow> failL (Undefined ''string constant is NULL'') | Some str \<Rightarrow> returnL (KStr str))
       else returnL KNil) bs c" for bs
    unfolding LoadConstant_def by (rule reads_bindI, rule reads_byte, rule that) simp
  have last: "reads nm (bindL m (\<lambda>x. returnL (f x))) bs (f x)" if "reads nm m bs x" for m :: "'b load" and f bs x
    by (rule reads_bindI [OF that, where cs = "[]"]) (simp_all add: reads_return)
  show ?thesis
  proof (cases c)
    case KNil
    then show ?thesis using tail [of "[]"] by (simp add: enc_const_def const_tag_def reads_return)
  next
    case (KBoolean b)
    then show ?thesis using tail [of "[b]"] last [OF reads_byte, of KBoolean b]
      by (simp add: enc_const_def const_tag_def)
  next
    case (KFlt x)
    then show ?thesis using tail [of "le64_bytes x"] last [OF reads_number, of KFlt x]
      by (simp add: enc_const_def const_tag_def)
  next
    case (KInt x)
    then show ?thesis using tail [of "le64_bytes x"] last [OF reads_integer, of KInt x]
      by (simp add: enc_const_def const_tag_def)
  next
    case (KStr s)
    with ok have s: "reads nm (LoadString avail nm) (enc_string (Some s)) (Some s)"
      by (intro reads_string) (simp add: ok_const_def)
    have "reads nm (bindL (LoadString avail nm) (\<lambda>s. case s of
        None \<Rightarrow> failL (Undefined ''string constant is NULL'') | Some str \<Rightarrow> returnL (KStr str)))
      (enc_string (Some s)) (KStr s)"
      by (rule reads_bindI [OF s, where cs = "[]"]) (simp_all add: reads_return)
    then show ?thesis using tail [of "enc_string (Some s)"] KStr
      by (cases "length s \<le> 40") (simp_all add: enc_const_def const_tag_def)
  qed
qed

interpretation string_code: codec w nm "DumpString w" "LoadString avail nm" enc_string "\<lambda>s. s" "ok_string avail"
  for w nm avail
  by unfold_locales (rule writes_string reads_string, assumption?)+

interpretation const_code: codec w nm "DumpConstant w" "LoadConstant avail nm" enc_const "\<lambda>c. c" "ok_const avail"
  for w nm avail
  by unfold_locales (rule writes_const reads_const, assumption?)+

interpretation upvalue_code: codec w nm "\<lambda>u D. DumpByte w (uv_idx u) (DumpByte w (uv_instack u) D)"
    "bindL (LoadByte nm) (\<lambda>a. bindL (LoadByte nm) (\<lambda>b. returnL \<lparr>uv_name = None, uv_instack = a, uv_idx = b\<rparr>))"
    "\<lambda>u. [uv_instack u] @ [uv_idx u]" "\<lambda>u. u\<lparr>uv_name := None\<rparr>" "\<lambda>u. True"
  for w nm
proof unfold_locales
  fix u :: Upvaldesc
  show "writes w (\<lambda>D. DumpByte w (uv_idx u) (DumpByte w (uv_instack u) D)) ([uv_instack u] @ [uv_idx u])"
    unfolding DumpByte_def by (rule writes_comp writes_block)+
  show "reads nm (bindL (LoadByte nm) (\<lambda>a. bindL (LoadByte nm)
      (\<lambda>b. returnL \<lparr>uv_name = None, uv_instack = a, uv_idx = b\<rparr>)))
     ([uv_instack u] @ [uv_idx u]) (u\<lparr>uv_name := None\<rparr>)"
    by (rule reads_bind [OF reads_byte], rule reads_bindI [OF reads_byte, where cs = "[]"])
      (cases u, simp_all add: reads_return)
qed

interpretation locvar_code: codec w nm
    "\<lambda>v D. DumpInt w (lv_endpc v) (DumpInt w (lv_startpc v) (DumpString w (lv_varname v) D))"
    "LoadLocVar avail nm" enc_locvar "\<lambda>v. v" "\<lambda>v. ok_string avail (lv_varname v)"
  for w nm avail
proof unfold_locales
  fix v :: LocVar
  have "writes w (\<lambda>D. DumpInt w (lv_endpc v) (DumpInt w (lv_startpc v) (DumpString w (lv_varname v) D)))
      ((enc_string (lv_varname v) @ le_bytes (lv_startpc v)) @ le_bytes (lv_endpc v))"
    unfolding DumpInt_def by (rule writes_comp writes_block writes_string)+
  then show "writes w (\<lambda>D. DumpInt w (lv_endpc v) (DumpInt w (lv_startpc v) (DumpString w (lv_varname v) D)))
      (enc_locvar v)" by (simp add: enc_locvar_def)
  assume ok: "ok_string avail (lv_varname v)"
  show "reads nm (LoadLocVar avail nm) (enc_locvar v) v"
    unfolding LoadLocVar_def enc_locvar_def
    by (rule reads_bind [OF reads_string [OF ok]], rule reads_bind [OF reads_int],
        rule reads_bindI [OF reads_int, where cs = "[]"]) (cases v, simp_all add: reads_return)
qed

section \<open>The code of a function and of a chunk\<close>

definition kept :: "bool \<Rightarrow> 'a list \<Rightarrow> 'a list" where
  "kept strip xs = (if strip then [] else xs)"

definition enc_debug :: "bool \<Rightarrow> Proto \<Rightarrow> u8 list" where
  "enc_debug strip f =
     enc_vector le_bytes (kept strip (p_lineinfo f)) @ enc_vector enc_locvar (kept strip (p_locvars f)) @
     enc_vector (\<lambda>u. enc_string (uv_name u)) (kept strip (p_upvalues f))"

lemma enc_vector_cong [fundef_cong]:
  "xs = ys \<Longrightarrow> (\<And>x. x \<in> set ys \<Longrightarrow> f x = g x) \<Longrightarrow> enc_vector f xs = enc_vector g ys"
  by (simp add: enc_vector_def cong: map_cong)

fun enc_function :: "bool \<Rightarrow> u8 list option \<Rightarrow> Proto \<Rightarrow> u8 list" where
  "enc_function strip psource f =
     enc_string (if strip \<or> p_source f = psource then None else p_source f) @
     le_bytes (p_linedefined f) @ le_bytes (p_lastlinedefined f) @
     [p_numparams f] @ [p_is_vararg f] @ [p_maxstacksize f] @
     enc_vector le_bytes (p_code f) @ enc_vector enc_const (p_k f) @
     enc_vector (\<lambda>u. [uv_instack u] @ [uv_idx u]) (p_upvalues f) @
     enc_vector (enc_function strip (p_source f)) (p_p f) @ enc_debug strip f"

declare enc_function.simps [simp del]

text \<open>What loading makes of a function that was dumped: missing sources are the enclosing one's.\<close>

fun as_loaded :: "bool \<Rightarrow> u8 list option \<Rightarrow> Proto \<Rightarrow> Proto" where
  "as_loaded strip psource f =
     (let src = (if strip \<or> p_source f = None then psource else p_source f)
      in Proto src (p_linedefined f) (p_lastlinedefined f) (p_numparams f) (p_is_vararg f) (p_maxstacksize f)
           (p_code f) (p_k f)
           (if strip then map (\<lambda>u. u\<lparr>uv_name := None\<rparr>) (p_upvalues f) else p_upvalues f)
           (map (as_loaded strip src) (p_p f)) (kept strip (p_lineinfo f)) (kept strip (p_locvars f)))"

declare as_loaded.simps [simp del]

text \<open>
  Functions that can be loaded with a C stack of \<open>n\<close> nested calls: vectors have room and strings fit.
\<close>

fun loadable :: "(nat \<Rightarrow> bool) \<Rightarrow> nat \<Rightarrow> Proto \<Rightarrow> bool" where
  "loadable avail 0 f \<longleftrightarrow> False"
| "loadable avail (Suc n) f \<longleftrightarrow>
     ok_string avail (p_source f) \<and>
     room avail 4 (p_code f) \<and> room avail 16 (p_k f) \<and> list_all (ok_const avail) (p_k f) \<and>
     room avail 16 (p_upvalues f) \<and> room avail 8 (p_p f) \<and>
     room avail 4 (p_lineinfo f) \<and> room avail 16 (p_locvars f) \<and>
     list_all (\<lambda>v. ok_string avail (lv_varname v)) (p_locvars f) \<and>
     list_all (\<lambda>u. ok_string avail (uv_name u)) (p_upvalues f) \<and>
     list_all (loadable avail n) (p_p f)"

lemma room_kept: "room avail e xs \<Longrightarrow> room avail e (kept strip xs)"
  and list_all_kept: "list_all P xs \<Longrightarrow> list_all P (kept strip xs)"
  and length_kept: "length (kept strip xs) \<le> length xs"
  by (simp_all add: kept_def room_def)

lemma writes_debug: "writes w (DumpDebug w strip f) (enc_debug strip f)"
proof -
  have names: "writes w (\<lambda>D. fold (\<lambda>u. DumpString w (uv_name u)) us (DumpSize w us D))
      (enc_vector (\<lambda>u. enc_string (uv_name u)) us)" for us
    unfolding enc_vector_def DumpSize_def DumpInt_def
    by (rule writes_comp [OF writes_block writes_fold]) (rule writes_string)
  show ?thesis
    unfolding DumpDebug_def enc_debug_def Let_def kept_def [symmetric] append_assoc [symmetric]
    by (rule writes_comp writes_ints locvar_code.dump_vector names)+
qed

lemma renamed:
  "map (\<lambda>(nm1, u). u\<lparr>uv_name := nm1\<rparr>) (zip (map uv_name us) (map (\<lambda>u. u\<lparr>uv_name := None\<rparr>) us)) = us"
  for us :: "Upvaldesc list"
  by (induction us) simp_all

lemma reads_debug:
  assumes "room avail 4 (p_lineinfo f)" "room avail 16 (p_locvars f)" "room avail 16 (p_upvalues f)"
    and "list_all (\<lambda>v. ok_string avail (lv_varname v)) (p_locvars f)"
    and "list_all (\<lambda>u. ok_string avail (uv_name u)) (p_upvalues f)"
  shows "reads nm (LoadDebug avail nm (map (\<lambda>u. u\<lparr>uv_name := None\<rparr>) (p_upvalues f))) (enc_debug strip f)
    (kept strip (p_lineinfo f), kept strip (p_locvars f),
     if strip then map (\<lambda>u. u\<lparr>uv_name := None\<rparr>) (p_upvalues f) else p_upvalues f)"
proof -
  let ?bare = "map (\<lambda>u. u\<lparr>uv_name := None\<rparr>) (p_upvalues f)"
  let ?us = "kept strip (p_upvalues f)"
  let ?body = "\<lambda>n :: u32. if sint n > int (length ?bare) then failL (Undefined ''too many upvalue names'')
       else bindL (load_times (nat (sint n)) (LoadString avail nm)) (\<lambda>names.
         returnL (kept strip (p_lineinfo f), kept strip (p_locvars f),
           map (\<lambda>(nm1, u). u\<lparr>uv_name := nm1\<rparr>) (zip names ?bare) @ drop (length names) ?bare))"
  have n: "sint (of_nat (length ?us) :: u32) = int (length ?us)" "length ?us \<le> length ?bare"
    using room_kept [OF assms(3), of strip] by (auto simp: room_def kept_def intro!: sint_of_nat_small)
  then have few: "\<not> int (length ?us) > int (length ?bare)" by simp
  have names: "reads nm (load_times (length ?us) (LoadString avail nm))
      (concat (map (\<lambda>u. enc_string (uv_name u)) ?us)) (map uv_name ?us)"
    using list_all_kept [OF assms(5), of strip]
    by (intro reads_times) (auto simp: list_all_iff intro: reads_string)
  have "reads nm (bindL (LoadInt nm) ?body) (enc_vector (\<lambda>u. enc_string (uv_name u)) ?us)
    (kept strip (p_lineinfo f), kept strip (p_locvars f), if strip then ?bare else p_upvalues f)"
    unfolding enc_vector_def
  proof (rule reads_bind [OF reads_int])
    show "reads nm (?body (of_nat (length ?us))) (concat (map (\<lambda>u. enc_string (uv_name u)) ?us))
      (kept strip (p_lineinfo f), kept strip (p_locvars f), if strip then ?bare else p_upvalues f)"
      unfolding n(1) nat_int if_not_P [OF few]
      by (rule reads_bindI [OF names, where cs = "[]"]) (auto simp: kept_def renamed reads_return)
  qed
  then show ?thesis
    unfolding LoadDebug_def enc_debug_def
    by (intro reads_bind [OF reads_ints [OF room_kept [OF assms(1)]]]
          reads_bind [OF locvar_code.load_vector [OF list_all_kept [OF assms(4)] room_kept [OF assms(2)]]])
      (simp_all only: map_ident)
qed

lemma writes_function: "writes w (DumpFunction w strip f psource) (enc_function strip psource f)"
proof (induction strip psource f rule: enc_function.induct)
  case (1 strip psource f)
  have inner: "writes w (\<lambda>D. fold (\<lambda>q D. DumpFunction w strip q (p_source f) D) (p_p f) (DumpSize w (p_p f) D))
      (enc_vector (enc_function strip (p_source f)) (p_p f))"
    unfolding enc_vector_def DumpSize_def DumpInt_def
    by (rule writes_comp [OF writes_block writes_fold]) (rule 1)
  show ?case
    unfolding DumpFunction.simps [of w strip f psource, abs_def] enc_function.simps [of strip psource f] Let_def append_assoc [symmetric]
      DumpInt_def DumpByte_def DumpCode_def DumpConstants_def DumpUpvalues_def
    by (rule writes_string writes_comp [OF _ writes_debug] writes_comp [OF _ inner]
          writes_comp [OF _ upvalue_code.dump_vector [unfolded DumpByte_def]]
          writes_comp [OF _ const_code.dump_vector] writes_comp [OF _ writes_ints] writes_comp [OF _ writes_block])+
qed

lemma reads_function:
  "loadable avail n f \<Longrightarrow> strip \<or> psource0 = None \<or> psource0 = psource \<Longrightarrow>
   reads nm (LoadFunction avail nm n psource) (enc_function strip psource0 f) (as_loaded strip psource f)"
proof (induction n arbitrary: f psource psource0)
  case (Suc n)
  let ?s = "if strip \<or> p_source f = psource0 then None else p_source f"
  let ?src = "if strip \<or> p_source f = None then psource else p_source f"
  from Suc.prems(1) have ok: "ok_string avail ?s" "room avail 4 (p_code f)" "room avail 16 (p_k f)"
    "list_all (ok_const avail) (p_k f)" "room avail 16 (p_upvalues f)" "room avail 8 (p_p f)"
    "list_all (loadable avail n) (p_p f)" by (auto simp: ok_string_def)
  have src: "(if ?s = None then psource else ?s) = ?src" using Suc.prems(2) by auto
  have inner: "reads nm (bindL (LoadInt nm) (\<lambda>k. bindL (newvector avail k 8) (\<lambda>k. load_times k (LoadFunction avail nm n ?src))))
      (enc_vector (enc_function strip (p_source f)) (p_p f)) (map (as_loaded strip ?src) (p_p f))"
    unfolding enc_vector_def
    by (rule reads_sized [OF ok(6)], rule reads_times, rule Suc.IH)
      (use ok(7) in \<open>auto simp: list_all_iff\<close>)
  have ups: "list_all (\<lambda>u. True) (p_upvalues f)" by (simp add: list_all_iff)
  have debug: "reads nm (LoadDebug avail nm (map (\<lambda>u. u\<lparr>uv_name := None\<rparr>) (p_upvalues f))) (enc_debug strip f)
    (kept strip (p_lineinfo f), kept strip (p_locvars f),
     if strip then map (\<lambda>u. u\<lparr>uv_name := None\<rparr>) (p_upvalues f) else p_upvalues f)"
    by (rule reads_debug) (use Suc.prems(1) in simp_all)
  show ?case
    unfolding LoadFunction.simps enc_function.simps [of strip psource0 f] Let_def LoadCode_def LoadConstants_def LoadUpvalues_def
    apply (rule reads_bind [OF reads_string [OF ok(1)]])
    apply (unfold src)
    apply (rule reads_bind [OF reads_int], rule reads_bind [OF reads_int])
    apply (rule reads_bind [OF reads_byte], rule reads_bind [OF reads_byte], rule reads_bind [OF reads_byte])
    apply (rule reads_bind [OF reads_ints [OF ok(2)]])
    apply (rule reads_bind [OF const_code.load_vector [OF ok(4,3)]])
    apply (rule reads_bind [OF upvalue_code.load_vector [OF ups ok(5)]])
    apply (rule reads_bind [OF inner])
    apply (rule reads_bindI [OF debug, where cs = "[]"])
     apply (simp_all add: as_loaded.simps [of strip psource f] Let_def reads_return)
    done
qed simp

definition enc_header :: "u8 list" where
  "enc_header =
     LUA_SIGNATURE @ [LUAC_VERSION] @ [0] @ LUAC_DATA @ [4] @ [8] @ [4] @ [8] @ [8] @ le64_bytes LUAC_INT @ le64_bytes LUAC_NUM"

definition enc_chunk :: "bool \<Rightarrow> Proto \<Rightarrow> u8 list" where
  "enc_chunk strip f = enc_header @ [of_nat (length (p_upvalues f))] @ enc_function strip None f"

lemma writes_header: "writes w (DumpHeader w) enc_header"
  unfolding DumpHeader_def [abs_def] enc_header_def Let_def DumpByte_def DumpNumber_def DumpInteger_def
    append_assoc [symmetric] fold.simps comp_def id_apply
  by (rule writes_block writes_comp [OF _ writes_block])+

text \<open>What a writer is offered: the blocks in order, until it returns a status other than 0.\<close>

fun offer :: "'d writer \<Rightarrow> u8 list list \<Rightarrow> 'd \<Rightarrow> int \<times> 'd" where
  "offer w [] d = (0, d)"
| "offer w (b # bs) d = (case w d b of (status, d1) \<Rightarrow> if status \<noteq> 0 then (status, d1) else offer w bs d1)"

lemma dump_stopped: "status \<noteq> 0 \<Longrightarrow> fold (DumpBlock w) blocks (status, d) = (status, d)"
  by (induction blocks) (simp_all add: DumpBlock_def)

lemma dump_offer: "fold (DumpBlock w) blocks (0, d) = offer w blocks d"
  by (induction blocks arbitrary: d) (auto simp: DumpBlock_def dump_stopped split: prod.split)

lemma offer_all: "(\<And>d b. w d b = (0, d @ b)) \<Longrightarrow> offer w blocks d = (0, d @ concat blocks)"
  by (induction blocks arbitrary: d) simp_all

lemma reads_checkliteral: "reads nm (checkliteral nm s msg) s ()"
  unfolding checkliteral_def by (rule reads_bindI [OF reads_block, where cs = "[]"]) (simp_all add: reads_return)

lemma reads_checkbyte: "reads nm (checkbyte nm v msg) [v] ()"
  unfolding checkbyte_def by (rule reads_bindI [OF reads_byte, where cs = "[]"]) (simp_all add: reads_return)

lemma reads_header: "reads nm (checkHeader nm) (tl enc_header) ()"
proof -
  have e: "tl enc_header = tl LUA_SIGNATURE @ [LUAC_VERSION] @ [0] @ LUAC_DATA @ [4] @ [8] @ [4] @ [8] @ [8] @
      le64_bytes LUAC_INT @ le64_bytes LUAC_NUM @ []"
    by (simp add: enc_header_def LUA_SIGNATURE_def)
  show ?thesis unfolding checkHeader_def fchecksize_def e
    by (rule reads_bind [OF reads_checkliteral] reads_bind [OF reads_checkbyte])+
      (rule reads_bind [OF reads_integer], simp only: simp_thms if_False, rule reads_bind [OF reads_number],
       simp add: reads_return)
qed

lemma reads_chunk:
  assumes "loadable avail cstack f"
  shows "reads (chunk_name name) (luaU_undump avail cstack name) (tl (enc_chunk strip f))
     (of_nat (length (p_upvalues f)), as_loaded strip None f)"
proof -
  have e: "tl (enc_chunk strip f) = tl enc_header @ [of_nat (length (p_upvalues f))] @ enc_function strip None f @ []"
    by (simp add: enc_chunk_def enc_header_def LUA_SIGNATURE_def)
  have f: "reads nm (LoadFunction avail nm cstack None) (enc_function strip None f) (as_loaded strip None f)" for nm
    by (rule reads_function [OF assms]) simp
  show ?thesis unfolding luaU_undump_def Let_def e
    by (rule reads_bind [OF reads_header], rule reads_bind [OF reads_byte], rule reads_bind [OF f], rule reads_return)
qed

lemma chunk_first: "enc_chunk strip f = hd LUA_SIGNATURE # tl (enc_chunk strip f)"
  by (simp add: enc_chunk_def enc_header_def LUA_SIGNATURE_def)

lemma luaU_dump_offer: "\<exists>blocks. concat blocks = enc_chunk strip f \<and> (\<forall>d. luaU_dump w d strip f = offer w blocks d)"
proof -
  have "writes w (\<lambda>D. DumpFunction w strip f None (DumpByte w (of_nat (length (p_upvalues f))) (DumpHeader w D)))
      ((enc_header @ [of_nat (length (p_upvalues f))]) @ enc_function strip None f)"
    unfolding DumpByte_def by (rule writes_comp [OF writes_comp [OF writes_header writes_block] writes_function])
  then obtain blocks where b: "concat blocks = enc_chunk strip f"
    and "(\<lambda>D. DumpFunction w strip f None (DumpByte w (of_nat (length (p_upvalues f))) (DumpHeader w D)))
       = fold (DumpBlock w) blocks" by (auto simp: writes_def enc_chunk_def)
  then have "luaU_dump w d strip f = offer w blocks d" for d
    by (simp add: luaU_dump_def dump_offer [symmetric] fun_eq_iff)
  with b show ?thesis by blast
qed

text \<open>The functions the parser makes have a source when the enclosing one has.\<close>

fun sourced :: "Proto \<Rightarrow> bool" where
  "sourced f \<longleftrightarrow> list_all (\<lambda>q. (p_source q = None \<longrightarrow> p_source f = None) \<and> sourced q) (p_p f)"

declare sourced.simps [simp del]

lemma as_loaded_sourced:
  "sourced f \<Longrightarrow> p_source f = None \<longrightarrow> psource = None \<Longrightarrow> as_loaded False psource f = f"
proof (induction f arbitrary: psource rule: sourced.induct)
  case (1 f)
  have src: "(if False \<or> p_source f = None then psource else p_source f) = p_source f" using 1(3) by auto
  have "map (as_loaded False (p_source f)) (p_p f) = p_p f"
    by (rule map_idI, rule 1(1)) (use 1(2) in \<open>auto simp: sourced.simps [of f] list_all_iff\<close>)
  then show ?case by (subst as_loaded.simps) (simp only: src Let_def kept_def if_False Proto.collapse)
qed

section \<open>Properties\<close>

text \<open>C15: a function saved by \<open>luaU_dump\<close> is loaded back, however the reader cuts the chunk into pieces: with
  its debug information unless it was stripped, and equal to the saved one when every function has a
  source if its enclosing one has.\<close>

theorem dump_then_load:
  assumes "loadable avail cstack f" and "mode = None \<or> (\<exists>m. mode = Some m \<and> CHR ''b'' \<in> set m)"
    and "luaU_dump (\<lambda>d b. (0, d @ b)) [] strip f = (status, bytes)"
    and "concat pieces = bytes" and "[] \<notin> set pieces"
  shows "status = 0 \<and>
     f_parser avail cstack mode name (luaZ_init pieces) =
       Inr (BinaryChunk (of_nat (length (p_upvalues f))) (as_loaded strip None f)) \<and>
     (\<not> strip \<and> sourced f \<longrightarrow> as_loaded strip None f = f)"
proof -
  from luaU_dump_offer [of strip f "\<lambda>d b. (0, d @ b)"] assms(3)
  have s: "status = 0" and b: "bytes = enc_chunk strip f" by (auto simp: offer_all)
  let ?z = "luaZ_init pieces"
  have "contents ?z = hd LUA_SIGNATURE # tl (enc_chunk strip f)"
    using b assms(4,5) chunk_first by (simp add: contents_init)
  with zgetc_contents [of ?z] obtain z1 where z1: "zgetc ?z = Some (hd LUA_SIGNATURE, z1)"
    "contents z1 = tl (enc_chunk strip f) @ []" by (auto split: option.splits)
  from reads_chunk [OF assms(1), of name strip] z1(2) obtain z2 where
    "luaU_undump avail cstack name z1 = Inr ((of_nat (length (p_upvalues f)), as_loaded strip None f), z2)"
    unfolding reads_def by blast
  with s z1(1) assms(2) show ?thesis
    by (auto simp: f_parser_def checkmode_def as_loaded_sourced)
qed

definition sample :: Proto where
  "sample = Proto (Some [64, 102]) 0 3 0 1 2 [1, 2] [KStr [104, 105], KInt 7]
     [\<lparr>uv_name = Some [95], uv_instack = 1, uv_idx = 0\<rparr>]
     [Proto (Some [64, 102]) 1 2 1 0 2 [3] [KNil] [] [] [2] [\<lparr>lv_varname = Some [120], lv_startpc = 0, lv_endpc = 1\<rparr>]]
     [1, 3] []"

lemma sample_loadable: "loadable (\<lambda>n. n < 100) 2 sample"
  unfolding numeral_2_eq_2 by (simp add: sample_def room_def ok_string_def ok_const_def)

theorem dump_then_load_witness:
  "f_parser (\<lambda>n. n < 100) 2 (Some ''bt'') ''=f'' (luaZ_init [enc_chunk True sample]) =
     Inr (BinaryChunk 1 (as_loaded True None sample))"
proof -
  have d: "luaU_dump (\<lambda>d b. (0, d @ b)) [] True sample = (0, enc_chunk True sample)"
    using luaU_dump_offer [of True sample "\<lambda>d b. (0, d @ b)"] by (auto simp: offer_all)
  have n: "enc_chunk True sample \<noteq> []" using chunk_first [of True sample] by auto
  have m: "\<exists>m. Some ''bt'' = Some m \<and> CHR ''b'' \<in> set m" by simp
  from dump_then_load [OF sample_loadable disjI2 [OF m] d, of "[enc_chunk True sample]" "''=f''"] n
  show ?thesis by (simp add: sample_def)
qed

text \<open>C16: a chunk that ends too early, after its first byte, is rejected as truncated, never loaded.\<close>

theorem truncated_chunk_rejected:
  assumes "loadable avail cstack f" and "mode = None \<or> (\<exists>m. mode = Some m \<and> CHR ''b'' \<in> set m)"
    and "strict_prefix (contents z) (enc_chunk strip f)" and "contents z \<noteq> []"
  shows "f_parser avail cstack mode name z = Inl (load_error_msg (chunk_name name) ''truncated'')"
proof -
  have "enc_chunk strip f = hd LUA_SIGNATURE # tl (enc_chunk strip f)" by (rule chunk_first)
  with assms(3,4) obtain bs where bs: "contents z = hd LUA_SIGNATURE # bs" "strict_prefix bs (tl (enc_chunk strip f))"
    by (metis prefix_Cons strict_prefix_def list.sel(3))
  with zgetc_contents [of z] obtain z1 where z1: "zgetc z = Some (hd LUA_SIGNATURE, z1)" "contents z1 = bs"
    by (auto split: option.splits)
  with reads_chunk [OF assms(1), of name strip] bs(2) have
    "luaU_undump avail cstack name z1 = Inl (load_error_msg (chunk_name name) ''truncated'')"
    unfolding reads_def by blast
  with z1(1) assms(2) show ?thesis by (auto simp: f_parser_def checkmode_def)
qed

theorem truncated_chunk_rejected_witness:
  "f_parser (\<lambda>n. n < 100) 2 None ''@f'' (luaZ_init [[0x1B, 0x4C]]) = Inl (SyntaxError ''f: truncated precompiled chunk'')"
proof -
  have c: "contents (luaZ_init [[0x1B, 0x4C]]) = [0x1B, 0x4C]" by (simp add: contents_init)
  have "strict_prefix (contents (luaZ_init [[0x1B, 0x4C]])) (enc_chunk False sample)"
    unfolding c by (simp add: enc_chunk_def enc_header_def LUA_SIGNATURE_def strict_prefix_def)
  from truncated_chunk_rejected [OF sample_loadable disjI1 [OF refl] this, of "''@f''"]
  show ?thesis by (simp add: c load_error_msg_def chunk_name_def)
qed

text \<open>the writer is offered the bytes of the chunk in order until it returns a status other than 0; it is
  not called again after that, and that status and its state are the result.\<close>

theorem dump_stops_at_first_error:
  "\<exists>blocks. concat blocks = enc_chunk strip f \<and>
     (\<forall>d. case luaU_dump w d strip f of (status, d1) \<Rightarrow>
       (\<exists>n \<le> length blocks. d1 = fold (\<lambda>b d. snd (w d b)) (take n blocks) d \<and>
         (status = 0 \<and> n = length blocks \<or> status \<noteq> 0 \<and> 0 < n \<and>
          status = fst (w (fold (\<lambda>b d. snd (w d b)) (take (n - 1) blocks) d) (blocks ! (n - 1))))))"
proof -
  have offered: "case offer w blocks d of (status, d1) \<Rightarrow>
      (\<exists>n \<le> length blocks. d1 = fold (\<lambda>b d. snd (w d b)) (take n blocks) d \<and>
         (status = 0 \<and> n = length blocks \<or> status \<noteq> 0 \<and> 0 < n \<and>
          status = fst (w (fold (\<lambda>b d. snd (w d b)) (take (n - 1) blocks) d) (blocks ! (n - 1)))))" for blocks d
  proof (induction w blocks d rule: offer.induct)
    case (2 w b bs d)
    obtain s d1 where s: "w d b = (s, d1)" by fastforce
    show ?case
    proof (cases "s = 0")
      case False
      with s show ?thesis by (auto intro!: exI [of _ 1])
    next
      case True
      obtain st d2 where o: "offer w bs d1 = (st, d2)" by fastforce
      with "2.IH" [OF s [symmetric]] True obtain n where "n \<le> length bs"
        "d2 = fold (\<lambda>b d. snd (w d b)) (take n bs) d1"
        "st = 0 \<and> n = length bs \<or> st \<noteq> 0 \<and> 0 < n \<and>
          st = fst (w (fold (\<lambda>b d. snd (w d b)) (take (n - 1) bs) d1) (bs ! (n - 1)))" by auto
      with s o True show ?thesis by (auto intro!: exI [of _ "Suc n"] simp: nth_Cons' take_Cons')
    qed
  qed simp
  from luaU_dump_offer [of strip f w] obtain blocks where "concat blocks = enc_chunk strip f"
    and "\<forall>d. luaU_dump w d strip f = offer w blocks d" by blast
  with offered show ?thesis by (intro exI [of _ blocks]) simp
qed

text \<open>a mode without \<open>b\<close> keeps binary chunks out and a mode without \<open>t\<close> keeps text out; what is
  binary is decided by the first byte alone.\<close>

theorem mode_respected:
  assumes "f_parser avail cstack (Some m) name z = Inr r"
  shows "case r of
      BinaryChunk _ _ \<Rightarrow> CHR ''b'' \<in> set m \<and> (\<exists>bs. contents z = hd LUA_SIGNATURE # bs)
    | TextChunk c \<Rightarrow> CHR ''t'' \<in> set m \<and> c \<noteq> Some (hd LUA_SIGNATURE) \<and>
        (case c of None \<Rightarrow> contents z = [] | Some b \<Rightarrow> \<exists>bs. contents z = b # bs)"
  using assms zgetc_contents [of z]
  by (auto simp: f_parser_def checkmode_def split: option.splits prod.splits if_splits sum.splits)

theorem mode_respected_witness:
  "CHR ''t'' \<in> set ''t'' \<and> f_parser (\<lambda>_. True) 2 (Some ''t'') ''x'' (luaZ_init [[120]]) = Inr (TextChunk (Some 120))"
proof -
  have p: "f_parser (\<lambda>_. True) 2 (Some ''t'') ''x'' (luaZ_init [[120]]) = Inr (TextChunk (Some 120))"
    by (simp add: f_parser_def checkmode_def luaZ_init_def zgetc_def luaZ_fill_def LUA_SIGNATURE_def)
  from mode_respected [OF p] p show ?thesis by simp
qed

end
