(* ===== verification/LuaOpcodes.thy ===== *)
theory LuaOpcodes
  imports Prelude
begin

text \<open>
  Instructions of the virtual machine (\<open>lopcodes.h\<close>, \<open>lopcodes.c\<close> under \<open>lua/lua-5.3.1/src\<close>): the
  opcodes, the fields of the 32-bit instruction word and the table of instruction formats. Arguments
  are C \<open>int\<close>s that stay small, so they are integers here.
\<close>

section \<open>Opcodes\<close>

datatype OpCode =
  OP_MOVE | OP_LOADK | OP_LOADKX | OP_LOADBOOL | OP_LOADNIL | OP_GETUPVAL | OP_GETTABUP |
  OP_GETTABLE | OP_SETTABUP | OP_SETUPVAL | OP_SETTABLE | OP_NEWTABLE | OP_SELF | OP_ADD | OP_SUB |
  OP_MUL | OP_MOD | OP_POW | OP_DIV | OP_IDIV | OP_BAND | OP_BOR | OP_BXOR | OP_SHL | OP_SHR |
  OP_UNM | OP_BNOT | OP_NOT | OP_LEN | OP_CONCAT | OP_JMP | OP_EQ | OP_LT | OP_LE | OP_TEST |
  OP_TESTSET | OP_CALL | OP_TAILCALL | OP_RETURN | OP_FORLOOP | OP_FORPREP | OP_TFORCALL |
  OP_TFORLOOP | OP_SETLIST | OP_CLOSURE | OP_VARARG | OP_EXTRAARG

fun op_num :: "OpCode \<Rightarrow> nat" where
  "op_num OP_MOVE = 0"
| "op_num OP_LOADK = 1"
| "op_num OP_LOADKX = 2"
| "op_num OP_LOADBOOL = 3"
| "op_num OP_LOADNIL = 4"
| "op_num OP_GETUPVAL = 5"
| "op_num OP_GETTABUP = 6"
| "op_num OP_GETTABLE = 7"
| "op_num OP_SETTABUP = 8"
| "op_num OP_SETUPVAL = 9"
| "op_num OP_SETTABLE = 10"
| "op_num OP_NEWTABLE = 11"
| "op_num OP_SELF = 12"
| "op_num OP_ADD = 13"
| "op_num OP_SUB = 14"
| "op_num OP_MUL = 15"
| "op_num OP_MOD = 16"
| "op_num OP_POW = 17"
| "op_num OP_DIV = 18"
| "op_num OP_IDIV = 19"
| "op_num OP_BAND = 20"
| "op_num OP_BOR = 21"
| "op_num OP_BXOR = 22"
| "op_num OP_SHL = 23"
| "op_num OP_SHR = 24"
| "op_num OP_UNM = 25"
| "op_num OP_BNOT = 26"
| "op_num OP_NOT = 27"
| "op_num OP_LEN = 28"
| "op_num OP_CONCAT = 29"
| "op_num OP_JMP = 30"
| "op_num OP_EQ = 31"
| "op_num OP_LT = 32"
| "op_num OP_LE = 33"
| "op_num OP_TEST = 34"
| "op_num OP_TESTSET = 35"
| "op_num OP_CALL = 36"
| "op_num OP_TAILCALL = 37"
| "op_num OP_RETURN = 38"
| "op_num OP_FORLOOP = 39"
| "op_num OP_FORPREP = 40"
| "op_num OP_TFORCALL = 41"
| "op_num OP_TFORLOOP = 42"
| "op_num OP_SETLIST = 43"
| "op_num OP_CLOSURE = 44"
| "op_num OP_VARARG = 45"
| "op_num OP_EXTRAARG = 46"

definition all_ops :: "OpCode list" where
  "all_ops = [
    OP_MOVE, OP_LOADK, OP_LOADKX, OP_LOADBOOL, OP_LOADNIL, OP_GETUPVAL, OP_GETTABUP, OP_GETTABLE,
    OP_SETTABUP, OP_SETUPVAL, OP_SETTABLE, OP_NEWTABLE, OP_SELF, OP_ADD, OP_SUB, OP_MUL, OP_MOD,
    OP_POW, OP_DIV, OP_IDIV, OP_BAND, OP_BOR, OP_BXOR, OP_SHL, OP_SHR, OP_UNM, OP_BNOT, OP_NOT,
    OP_LEN, OP_CONCAT, OP_JMP, OP_EQ, OP_LT, OP_LE, OP_TEST, OP_TESTSET, OP_CALL, OP_TAILCALL,
    OP_RETURN, OP_FORLOOP, OP_FORPREP, OP_TFORCALL, OP_TFORLOOP, OP_SETLIST, OP_CLOSURE, OP_VARARG,
    OP_EXTRAARG]"

definition luaP_opnames :: "string list" where
  "luaP_opnames = [
    ''MOVE'', ''LOADK'', ''LOADKX'', ''LOADBOOL'', ''LOADNIL'', ''GETUPVAL'', ''GETTABUP'',
    ''GETTABLE'', ''SETTABUP'', ''SETUPVAL'', ''SETTABLE'', ''NEWTABLE'', ''SELF'', ''ADD'',
    ''SUB'', ''MUL'', ''MOD'', ''POW'', ''DIV'', ''IDIV'', ''BAND'', ''BOR'', ''BXOR'', ''SHL'',
    ''SHR'', ''UNM'', ''BNOT'', ''NOT'', ''LEN'', ''CONCAT'', ''JMP'', ''EQ'', ''LT'', ''LE'',
    ''TEST'', ''TESTSET'', ''CALL'', ''TAILCALL'', ''RETURN'', ''FORLOOP'', ''FORPREP'',
    ''TFORCALL'', ''TFORLOOP'', ''SETLIST'', ''CLOSURE'', ''VARARG'', ''EXTRAARG'']"

section \<open>Fields\<close>

definition SIZE_C :: nat where "SIZE_C = 9"
definition SIZE_B :: nat where "SIZE_B = 9"
definition SIZE_Bx :: nat where "SIZE_Bx = SIZE_C + SIZE_B"
definition SIZE_A :: nat where "SIZE_A = 8"
definition SIZE_Ax :: nat where "SIZE_Ax = SIZE_C + SIZE_B + SIZE_A"
definition SIZE_OP :: nat where "SIZE_OP = 6"
definition POS_OP :: nat where "POS_OP = 0"
definition POS_A :: nat where "POS_A = POS_OP + SIZE_OP"
definition POS_C :: nat where "POS_C = POS_A + SIZE_A"
definition POS_B :: nat where "POS_B = POS_C + SIZE_C"
definition POS_Bx :: nat where "POS_Bx = POS_C"
definition POS_Ax :: nat where "POS_Ax = POS_A"

lemmas field_sizes = SIZE_C_def SIZE_B_def SIZE_Bx_def SIZE_A_def SIZE_Ax_def SIZE_OP_def
  POS_OP_def POS_A_def POS_C_def POS_B_def POS_Bx_def POS_Ax_def

definition MAXARG_Bx :: int where "MAXARG_Bx = 2 ^ SIZE_Bx - 1"
definition MAXARG_sBx :: int where "MAXARG_sBx = MAXARG_Bx div 2"
definition MAXARG_Ax :: int where "MAXARG_Ax = 2 ^ SIZE_Ax - 1"
definition MAXARG_A :: int where "MAXARG_A = 2 ^ SIZE_A - 1"
definition MAXARG_B :: int where "MAXARG_B = 2 ^ SIZE_B - 1"
definition MAXARG_C :: int where "MAXARG_C = 2 ^ SIZE_C - 1"

lemma maxargs [simp]:
  "MAXARG_A = 255" "MAXARG_B = 511" "MAXARG_C = 511" "MAXARG_Bx = 262143" "MAXARG_sBx = 131071"
  "MAXARG_Ax = 67108863"
  by (simp_all add: MAXARG_A_def MAXARG_B_def MAXARG_C_def MAXARG_Bx_def MAXARG_sBx_def MAXARG_Ax_def field_sizes)

definition MASK1 :: "nat \<Rightarrow> nat \<Rightarrow> u32" where
  "MASK1 n p = push_bit p (NOT (push_bit n (NOT 0)))"

definition MASK0 :: "nat \<Rightarrow> nat \<Rightarrow> u32" where
  "MASK0 n p = NOT (MASK1 n p)"

definition getarg :: "u32 \<Rightarrow> nat \<Rightarrow> nat \<Rightarrow> int" where
  "getarg i pos sz = uint (drop_bit pos i AND MASK1 sz 0)"

definition setarg :: "u32 \<Rightarrow> int \<Rightarrow> nat \<Rightarrow> nat \<Rightarrow> u32" where
  "setarg i v pos sz = (i AND MASK0 sz pos) OR (push_bit pos (word_of_int v) AND MASK1 sz pos)"

text \<open>\<open>GET_OPCODE\<close>: \<open>None\<close> for the 17 numbers that are no opcode.\<close>

definition GET_OPCODE :: "u32 \<Rightarrow> OpCode option" where
  "GET_OPCODE i =
     (let n = nat (getarg i POS_OP SIZE_OP) in if n < length all_ops then Some (all_ops ! n) else None)"

definition SET_OPCODE :: "u32 \<Rightarrow> OpCode \<Rightarrow> u32" where
  "SET_OPCODE i o' = setarg i (int (op_num o')) POS_OP SIZE_OP"

definition GETARG_A :: "u32 \<Rightarrow> int" where "GETARG_A i = getarg i POS_A SIZE_A"
definition SETARG_A :: "u32 \<Rightarrow> int \<Rightarrow> u32" where "SETARG_A i v = setarg i v POS_A SIZE_A"
definition GETARG_B :: "u32 \<Rightarrow> int" where "GETARG_B i = getarg i POS_B SIZE_B"
definition SETARG_B :: "u32 \<Rightarrow> int \<Rightarrow> u32" where "SETARG_B i v = setarg i v POS_B SIZE_B"
definition GETARG_C :: "u32 \<Rightarrow> int" where "GETARG_C i = getarg i POS_C SIZE_C"
definition SETARG_C :: "u32 \<Rightarrow> int \<Rightarrow> u32" where "SETARG_C i v = setarg i v POS_C SIZE_C"
definition GETARG_Bx :: "u32 \<Rightarrow> int" where "GETARG_Bx i = getarg i POS_Bx SIZE_Bx"
definition SETARG_Bx :: "u32 \<Rightarrow> int \<Rightarrow> u32" where "SETARG_Bx i v = setarg i v POS_Bx SIZE_Bx"
definition GETARG_Ax :: "u32 \<Rightarrow> int" where "GETARG_Ax i = getarg i POS_Ax SIZE_Ax"
definition SETARG_Ax :: "u32 \<Rightarrow> int \<Rightarrow> u32" where "SETARG_Ax i v = setarg i v POS_Ax SIZE_Ax"
definition GETARG_sBx :: "u32 \<Rightarrow> int" where "GETARG_sBx i = GETARG_Bx i - MAXARG_sBx"
definition SETARG_sBx :: "u32 \<Rightarrow> int \<Rightarrow> u32" where "SETARG_sBx i b = SETARG_Bx i (b + MAXARG_sBx)"

definition CREATE_ABC :: "OpCode \<Rightarrow> int \<Rightarrow> int \<Rightarrow> int \<Rightarrow> u32" where
  "CREATE_ABC op a b c =
     push_bit POS_OP (of_nat (op_num op)) OR push_bit POS_A (word_of_int a) OR
     push_bit POS_B (word_of_int b) OR push_bit POS_C (word_of_int c)"

definition CREATE_ABx :: "OpCode \<Rightarrow> int \<Rightarrow> int \<Rightarrow> u32" where
  "CREATE_ABx op a bc =
     push_bit POS_OP (of_nat (op_num op)) OR push_bit POS_A (word_of_int a) OR push_bit POS_Bx (word_of_int bc)"

definition CREATE_Ax :: "OpCode \<Rightarrow> int \<Rightarrow> u32" where
  "CREATE_Ax op a = push_bit POS_OP (of_nat (op_num op)) OR push_bit POS_Ax (word_of_int a)"

text \<open>Operands that are a register or a constant.\<close>

definition BITRK :: int where "BITRK = 2 ^ (SIZE_B - 1)"
definition ISK :: "int \<Rightarrow> bool" where "ISK x \<longleftrightarrow> x AND BITRK \<noteq> 0"
definition INDEXK :: "int \<Rightarrow> int" where "INDEXK r = r AND NOT BITRK"
definition MAXINDEXRK :: int where "MAXINDEXRK = BITRK - 1"
definition RKASK :: "int \<Rightarrow> int" where "RKASK x = x OR BITRK"
definition NO_REG :: int where "NO_REG = MAXARG_A"

section \<open>Formats\<close>

datatype OpMode = iABC | iABx | iAsBx | iAx
datatype OpArgMask = OpArgN | OpArgU | OpArgR | OpArgK

definition mode_num :: "OpMode \<Rightarrow> u8" where
  "mode_num m = (case m of iABC \<Rightarrow> 0 | iABx \<Rightarrow> 1 | iAsBx \<Rightarrow> 2 | iAx \<Rightarrow> 3)"

definition arg_num :: "OpArgMask \<Rightarrow> u8" where
  "arg_num m = (case m of OpArgN \<Rightarrow> 0 | OpArgU \<Rightarrow> 1 | OpArgR \<Rightarrow> 2 | OpArgK \<Rightarrow> 3)"

definition opmode :: "u8 \<Rightarrow> u8 \<Rightarrow> OpArgMask \<Rightarrow> OpArgMask \<Rightarrow> OpMode \<Rightarrow> u8" where
  "opmode t a b c m =
     push_bit 7 t OR push_bit 6 a OR push_bit 4 (arg_num b) OR push_bit 2 (arg_num c) OR mode_num m"

definition luaP_opmodes :: "u8 list" where
  "luaP_opmodes = [
    opmode 0 1 OpArgR OpArgN iABC,
    opmode 0 1 OpArgK OpArgN iABx,
    opmode 0 1 OpArgN OpArgN iABx,
    opmode 0 1 OpArgU OpArgU iABC,
    opmode 0 1 OpArgU OpArgN iABC,
    opmode 0 1 OpArgU OpArgN iABC,
    opmode 0 1 OpArgU OpArgK iABC,
    opmode 0 1 OpArgR OpArgK iABC,
    opmode 0 0 OpArgK OpArgK iABC,
    opmode 0 0 OpArgU OpArgN iABC,
    opmode 0 0 OpArgK OpArgK iABC,
    opmode 0 1 OpArgU OpArgU iABC,
    opmode 0 1 OpArgR OpArgK iABC,
    opmode 0 1 OpArgK OpArgK iABC,
    opmode 0 1 OpArgK OpArgK iABC,
    opmode 0 1 OpArgK OpArgK iABC,
    opmode 0 1 OpArgK OpArgK iABC,
    opmode 0 1 OpArgK OpArgK iABC,
    opmode 0 1 OpArgK OpArgK iABC,
    opmode 0 1 OpArgK OpArgK iABC,
    opmode 0 1 OpArgK OpArgK iABC,
    opmode 0 1 OpArgK OpArgK iABC,
    opmode 0 1 OpArgK OpArgK iABC,
    opmode 0 1 OpArgK OpArgK iABC,
    opmode 0 1 OpArgK OpArgK iABC,
    opmode 0 1 OpArgR OpArgN iABC,
    opmode 0 1 OpArgR OpArgN iABC,
    opmode 0 1 OpArgR OpArgN iABC,
    opmode 0 1 OpArgR OpArgN iABC,
    opmode 0 1 OpArgR OpArgR iABC,
    opmode 0 0 OpArgR OpArgN iAsBx,
    opmode 1 0 OpArgK OpArgK iABC,
    opmode 1 0 OpArgK OpArgK iABC,
    opmode 1 0 OpArgK OpArgK iABC,
    opmode 1 0 OpArgN OpArgU iABC,
    opmode 1 1 OpArgR OpArgU iABC,
    opmode 0 1 OpArgU OpArgU iABC,
    opmode 0 1 OpArgU OpArgU iABC,
    opmode 0 0 OpArgU OpArgN iABC,
    opmode 0 1 OpArgR OpArgN iAsBx,
    opmode 0 1 OpArgR OpArgN iAsBx,
    opmode 0 0 OpArgN OpArgU iABC,
    opmode 0 1 OpArgR OpArgN iAsBx,
    opmode 0 0 OpArgU OpArgU iABC,
    opmode 0 1 OpArgU OpArgN iABx,
    opmode 0 1 OpArgU OpArgN iABC,
    opmode 0 0 OpArgU OpArgU iAx]"

definition op_props :: "OpCode \<Rightarrow> u8" where
  "op_props op = luaP_opmodes ! op_num op"

definition getOpMode :: "OpCode \<Rightarrow> OpMode" where
  "getOpMode op = [iABC, iABx, iAsBx, iAx] ! unat (op_props op AND 3)"

definition getBMode :: "OpCode \<Rightarrow> OpArgMask" where
  "getBMode op = [OpArgN, OpArgU, OpArgR, OpArgK] ! unat (drop_bit 4 (op_props op) AND 3)"

definition getCMode :: "OpCode \<Rightarrow> OpArgMask" where
  "getCMode op = [OpArgN, OpArgU, OpArgR, OpArgK] ! unat (drop_bit 2 (op_props op) AND 3)"

definition testAMode :: "OpCode \<Rightarrow> bool" where
  "testAMode op \<longleftrightarrow> op_props op AND push_bit 6 1 \<noteq> 0"

definition testTMode :: "OpCode \<Rightarrow> bool" where
  "testTMode op \<longleftrightarrow> op_props op AND push_bit 7 1 \<noteq> 0"

section \<open>Reading and writing fields\<close>

text \<open>A field of a word: what is written is read back, and reading does not see other fields.\<close>

locale word_field =
  fixes get :: "u32 \<Rightarrow> int" and put :: "u32 \<Rightarrow> int \<Rightarrow> u32" and limit :: int
  assumes get_put: "0 \<le> v \<Longrightarrow> v \<le> limit \<Longrightarrow> get (put i v) = v"
    and get_range: "0 \<le> get i \<and> get i \<le> limit"
    and put_get: "put i (get i) = i"
    and put_put: "put (put i v) w = put i w"
begin

lemma put_cong: "get i = get j \<Longrightarrow> put i v = put j v \<Longrightarrow> i = j"
  by (metis put_get put_put)

lemma put_same: "0 \<le> v \<Longrightarrow> v \<le> limit \<Longrightarrow> put i v = put i w \<Longrightarrow> 0 \<le> w \<Longrightarrow> w \<le> limit \<Longrightarrow> v = w"
  by (metis get_put)

end

lemma bit_MASK1: "bit (MASK1 n p) k \<longleftrightarrow> k < 32 \<and> p \<le> k \<and> k < p + n"
  unfolding MASK1_def by (auto simp: bit_simps)

lemma bit_and_mask1: "bit (w AND MASK1 n p) k \<longleftrightarrow> bit w k \<and> p \<le> k \<and> k < p + n"
  using bit_imp_le_length [of w k] by (auto simp: bit_MASK1 bit_simps)

lemma getarg_take: "getarg i pos sz = uint (take_bit sz (drop_bit pos i))"
proof -
  have "drop_bit pos i AND MASK1 sz 0 = take_bit sz (drop_bit pos i)"
    by (rule bit_word_eqI) (simp only: bit_and_mask1, auto simp: bit_simps)
  then show ?thesis by (simp only: getarg_def)
qed

lemma bit_setarg:
  "bit (setarg i v pos sz) k \<longleftrightarrow>
     (if pos \<le> k \<and> k < pos + sz then k < 32 \<and> bit v (k - pos) else bit i k)"
  using bit_imp_le_length [of i k]
  by (auto simp: setarg_def MASK0_def bit_MASK1 bit_simps)

lemma bit_getarg: "bit (getarg i pos sz) k \<longleftrightarrow> k < sz \<and> bit i (pos + k)"
  using bit_imp_le_length [of i "pos + k"] by (auto simp: getarg_take bit_simps)

lemma getarg_setarg:
  assumes "pos + sz \<le> 32" "0 \<le> v" "v < 2 ^ sz"
  shows "getarg (setarg i v pos sz) pos sz = v"
proof (rule bit_eqI)
  fix k
  have "take_bit sz v = v" using assms by (simp add: take_bit_int_eq_self)
  then have "bit v k \<longleftrightarrow> k < sz \<and> bit v k" by (metis bit_take_bit_iff)
  then show "bit (getarg (setarg i v pos sz) pos sz) k = bit v k"
    using assms(1) by (auto simp: bit_getarg bit_setarg)
qed

lemma getarg_setarg_other:
  "pos + sz \<le> pos1 \<or> pos1 + sz1 \<le> pos \<Longrightarrow> getarg (setarg i v pos sz) pos1 sz1 = getarg i pos1 sz1"
  by (rule bit_eqI) (auto simp: bit_getarg bit_setarg)

lemma setarg_getarg: "setarg i (getarg i pos sz) pos sz = i"
  by (rule bit_word_eqI) (auto simp: bit_getarg bit_setarg)

lemma setarg_setarg: "setarg (setarg i v pos sz) w pos sz = setarg i w pos sz"
  by (rule bit_word_eqI) (auto simp: bit_setarg)

lemma getarg_range: "0 \<le> getarg i pos sz \<and> getarg i pos sz < 2 ^ sz"
proof -
  have "take_bit sz (getarg i pos sz) = getarg i pos sz"
    by (rule bit_eqI) (auto simp: bit_getarg bit_simps)
  then show ?thesis by (metis take_bit_nonnegative take_bit_int_less_exp)
qed

lemma arg_field:
  "pos + sz \<le> 32 \<Longrightarrow> word_field (\<lambda>i. getarg i pos sz) (\<lambda>i v. setarg i v pos sz) (2 ^ sz - 1)"
  by unfold_locales (use getarg_range in \<open>auto simp: getarg_setarg setarg_getarg setarg_setarg intro: zle_diff1_eq [THEN iffD2]\<close>)

interpretation field_A: word_field GETARG_A SETARG_A MAXARG_A
  unfolding GETARG_A_def [abs_def] SETARG_A_def [abs_def] MAXARG_A_def by (rule arg_field) (simp add: field_sizes)

interpretation field_B: word_field GETARG_B SETARG_B MAXARG_B
  unfolding GETARG_B_def [abs_def] SETARG_B_def [abs_def] MAXARG_B_def by (rule arg_field) (simp add: field_sizes)

interpretation field_C: word_field GETARG_C SETARG_C MAXARG_C
  unfolding GETARG_C_def [abs_def] SETARG_C_def [abs_def] MAXARG_C_def by (rule arg_field) (simp add: field_sizes)

interpretation field_Bx: word_field GETARG_Bx SETARG_Bx MAXARG_Bx
  unfolding GETARG_Bx_def [abs_def] SETARG_Bx_def [abs_def] MAXARG_Bx_def by (rule arg_field) (simp add: field_sizes)

interpretation field_Ax: word_field GETARG_Ax SETARG_Ax MAXARG_Ax
  unfolding GETARG_Ax_def [abs_def] SETARG_Ax_def [abs_def] MAXARG_Ax_def by (rule arg_field) (simp add: field_sizes)

lemma op_all_ops: "op_num op < length all_ops \<and> all_ops ! op_num op = op"
  by (cases op) (simp_all add: all_ops_def)

lemma length_all_ops [simp]: "length all_ops = 47"
  by (simp add: all_ops_def)

lemma get_opcode_iff: "GET_OPCODE i = Some op \<longleftrightarrow> getarg i POS_OP SIZE_OP = int (op_num op)"
proof
  assume "getarg i POS_OP SIZE_OP = int (op_num op)"
  then show "GET_OPCODE i = Some op" using op_all_ops [of op] by (simp add: GET_OPCODE_def)
next
  assume a: "GET_OPCODE i = Some op"
  define n where "n = nat (getarg i POS_OP SIZE_OP)"
  with a have n: "n < 47" "all_ops ! n = op" by (auto simp: GET_OPCODE_def Let_def split: if_splits)
  have "op_num (all_ops ! k) = k" if "k < 47" for k
  proof -
    have "map op_num all_ops = [0..<47]" by (simp add: all_ops_def numeral_eq_Suc upt_rec del: upt_Suc)
    then show ?thesis using that by (metis length_all_ops nth_map nth_upt add_0)
  qed
  with n have "op_num op = n" by auto
  then show "getarg i POS_OP SIZE_OP = int (op_num op)" using getarg_range by (auto simp: n_def)
qed

text \<open>Writing one argument leaves the opcode and the other arguments.\<close>

lemma get_opcode_set [simp]:
  "GET_OPCODE (SETARG_A i v) = GET_OPCODE i" "GET_OPCODE (SETARG_B i v) = GET_OPCODE i"
  "GET_OPCODE (SETARG_C i v) = GET_OPCODE i" "GET_OPCODE (SETARG_Bx i v) = GET_OPCODE i"
  "GET_OPCODE (SETARG_sBx i v) = GET_OPCODE i"
  by (simp_all add: GET_OPCODE_def SETARG_sBx_def SETARG_A_def SETARG_B_def SETARG_C_def SETARG_Bx_def
      getarg_setarg_other field_sizes)

lemma getarg_set_other [simp]:
  "GETARG_A (SETARG_B i v) = GETARG_A i" "GETARG_A (SETARG_C i v) = GETARG_A i" "GETARG_A (SETARG_Bx i v) = GETARG_A i"
  "GETARG_A (SETARG_sBx i v) = GETARG_A i"
  "GETARG_B (SETARG_A i v) = GETARG_B i" "GETARG_B (SETARG_C i v) = GETARG_B i"
  "GETARG_C (SETARG_A i v) = GETARG_C i" "GETARG_C (SETARG_B i v) = GETARG_C i"
  "GETARG_Bx (SETARG_A i v) = GETARG_Bx i" "GETARG_sBx (SETARG_A i v) = GETARG_sBx i"
  by (simp_all add: GETARG_A_def GETARG_B_def GETARG_C_def GETARG_Bx_def GETARG_sBx_def SETARG_sBx_def
      SETARG_A_def SETARG_B_def SETARG_C_def SETARG_Bx_def getarg_setarg_other field_sizes)

lemma getarg_sBx_set: "abs b \<le> MAXARG_sBx \<Longrightarrow> GETARG_sBx (SETARG_sBx i b) = b"
  using field_Bx.get_put [of "b + MAXARG_sBx" i] by (auto simp: GETARG_sBx_def SETARG_sBx_def)

section \<open>Building instructions\<close>

lemma op_num_bound: "op_num op < 47"
  using op_all_ops [of op] by simp

lemma bit_arg: "0 \<le> v \<Longrightarrow> v < 2 ^ n \<Longrightarrow> bit v k \<Longrightarrow> k < n" for v :: int
  by (metis bit_take_bit_iff take_bit_int_eq_self)

lemma bit_op_num: "bit (op_num op) k \<Longrightarrow> k < 6"
proof -
  assume b: "bit (op_num op) k"
  have "take_bit 6 (op_num op) = op_num op" using op_num_bound [of op] by (simp add: take_bit_nat_eq_self)
  with b show ?thesis by (metis bit_take_bit_iff)
qed

lemma bit_CREATE_ABC:
  "bit (CREATE_ABC op a b c) k \<longleftrightarrow> k < 32 \<and>
     (bit (op_num op) k \<or> 6 \<le> k \<and> bit a (k - 6) \<or> 23 \<le> k \<and> bit b (k - 23) \<or> 14 \<le> k \<and> bit c (k - 14))"
  by (auto simp: CREATE_ABC_def field_sizes bit_simps)

lemma bit_CREATE_ABx:
  "bit (CREATE_ABx op a bc) k \<longleftrightarrow> k < 32 \<and>
     (bit (op_num op) k \<or> 6 \<le> k \<and> bit a (k - 6) \<or> 14 \<le> k \<and> bit bc (k - 14))"
  by (auto simp: CREATE_ABx_def field_sizes bit_simps)

lemma bit_CREATE_Ax:
  "bit (CREATE_Ax op a) k \<longleftrightarrow> k < 32 \<and> (bit (op_num op) k \<or> 6 \<le> k \<and> bit a (k - 6))"
  by (auto simp: CREATE_Ax_def field_sizes bit_simps)

lemma getarg_eqI:
  assumes "0 \<le> v" "v < 2 ^ sz" "\<And>k. k < sz \<Longrightarrow> bit i (pos + k) = bit v k"
  shows "getarg i pos sz = v"
  by (rule bit_eqI) (use assms bit_arg [OF assms(1,2)] in \<open>auto simp: bit_getarg\<close>)

lemma opcode_of_create:
  "\<lbrakk>\<And>k. k < 6 \<Longrightarrow> bit i k = bit (op_num op) k\<rbrakk> \<Longrightarrow> GET_OPCODE i = Some op"
  unfolding get_opcode_iff
  by (rule getarg_eqI) (use op_num_bound [of op] in \<open>auto simp: field_sizes bit_simps\<close>)

lemma create_ABC_args:
  assumes "0 \<le> a" "a \<le> MAXARG_A" "0 \<le> b" "b \<le> MAXARG_B" "0 \<le> c" "c \<le> MAXARG_C"
  shows "GET_OPCODE (CREATE_ABC op a b c) = Some op" "GETARG_A (CREATE_ABC op a b c) = a"
    "GETARG_B (CREATE_ABC op a b c) = b" "GETARG_C (CREATE_ABC op a b c) = c"
proof -
  have a: "bit a k \<Longrightarrow> k < 8" and b: "bit b k \<Longrightarrow> k < 9" and c: "bit c k \<Longrightarrow> k < 9" for k
    using bit_arg [of a 8 k] bit_arg [of b 9 k] bit_arg [of c 9 k] assms by auto
  note far = a b c bit_op_num
  show "GET_OPCODE (CREATE_ABC op a b c) = Some op"
    by (rule opcode_of_create) (auto simp: bit_CREATE_ABC)
  show "GETARG_A (CREATE_ABC op a b c) = a"
    unfolding GETARG_A_def
    by (rule getarg_eqI) (use assms in \<open>auto simp: field_sizes bit_CREATE_ABC dest: far\<close>)
  show "GETARG_B (CREATE_ABC op a b c) = b"
    unfolding GETARG_B_def
    by (rule getarg_eqI) (use assms in \<open>auto simp: field_sizes bit_CREATE_ABC dest: far\<close>)
  show "GETARG_C (CREATE_ABC op a b c) = c"
    unfolding GETARG_C_def
    by (rule getarg_eqI) (use assms in \<open>auto simp: field_sizes bit_CREATE_ABC dest: far\<close>)
qed

lemma create_ABx_args:
  assumes "0 \<le> a" "a \<le> MAXARG_A" "0 \<le> bc" "bc \<le> MAXARG_Bx"
  shows "GET_OPCODE (CREATE_ABx op a bc) = Some op" "GETARG_A (CREATE_ABx op a bc) = a"
    "GETARG_Bx (CREATE_ABx op a bc) = bc"
proof -
  have a: "bit a k \<Longrightarrow> k < 8" and bc: "bit bc k \<Longrightarrow> k < 18" for k
    using bit_arg [of a 8 k] bit_arg [of bc 18 k] assms by auto
  note far = a bc bit_op_num
  show "GET_OPCODE (CREATE_ABx op a bc) = Some op"
    by (rule opcode_of_create) (auto simp: bit_CREATE_ABx)
  show "GETARG_A (CREATE_ABx op a bc) = a"
    unfolding GETARG_A_def
    by (rule getarg_eqI) (use assms in \<open>auto simp: field_sizes bit_CREATE_ABx dest: far\<close>)
  show "GETARG_Bx (CREATE_ABx op a bc) = bc"
    unfolding GETARG_Bx_def
    by (rule getarg_eqI) (use assms in \<open>auto simp: field_sizes bit_CREATE_ABx dest: far\<close>)
qed

lemma create_Ax_args:
  assumes "0 \<le> a" "a \<le> MAXARG_Ax"
  shows "GET_OPCODE (CREATE_Ax op a) = Some op" "GETARG_Ax (CREATE_Ax op a) = a"
proof -
  note far = bit_op_num
  show "GET_OPCODE (CREATE_Ax op a) = Some op"
    by (rule opcode_of_create) (auto simp: bit_CREATE_Ax)
  show "GETARG_Ax (CREATE_Ax op a) = a"
    unfolding GETARG_Ax_def
    by (rule getarg_eqI) (use assms in \<open>auto simp: field_sizes bit_CREATE_Ax dest: far\<close>)
qed

text \<open>A register or constant index is told apart by one bit.\<close>

lemma bit_BITRK: "bit BITRK k \<longleftrightarrow> k = 8"
proof -
  have "BITRK = push_bit 8 1" by (simp add: BITRK_def field_sizes)
  show ?thesis unfolding \<open>BITRK = _\<close> bit_push_bit_iff bit_1_iff by auto
qed

lemma isk_iff: "ISK x \<longleftrightarrow> bit x 8"
proof -
  have "BITRK = 2 ^ 8" by (simp add: BITRK_def field_sizes)
  show ?thesis unfolding ISK_def \<open>BITRK = _\<close> and_exp_eq_0_iff_not_bit not_not ..
qed

lemma rk_constant:
  assumes "0 \<le> x" "x \<le> MAXINDEXRK"
  shows "\<not> ISK x \<and> ISK (RKASK x) \<and> INDEXK (RKASK x) = x \<and> 0 \<le> RKASK x \<and> RKASK x \<le> MAXARG_C"
proof -
  have x: "x < 2 ^ 8" using assms by (simp add: MAXINDEXRK_def BITRK_def field_sizes)
  note small = bit_arg [OF assms(1) x]
  have "INDEXK (RKASK x) = x"
    by (rule bit_eqI) (auto simp: INDEXK_def RKASK_def bit_simps bit_BITRK dest: small)
  moreover have "RKASK x < 2 ^ 9"
    using assms(1) x by (simp only: RKASK_def) (rule OR_upper, simp_all add: BITRK_def field_sizes)
  moreover have "0 \<le> RKASK x" using assms(1) by (simp add: RKASK_def BITRK_def)
  ultimately show ?thesis using small [of 8] by (auto simp: isk_iff RKASK_def bit_simps bit_BITRK)
qed

section \<open>Properties\<close>

text \<open>the arguments an instruction was built with are the ones the machine reads from it, in every
  format and for every opcode, when they are within the limits of their fields.\<close>

theorem instruction_round_trip:
  assumes "0 \<le> a" "a \<le> MAXARG_A" "0 \<le> b" "b \<le> MAXARG_B" "0 \<le> c" "c \<le> MAXARG_C"
    and "abs d \<le> MAXARG_sBx" "0 \<le> e" "e \<le> MAXARG_Ax"
  shows "GET_OPCODE (CREATE_ABC op a b c) = Some op \<and>
       (GETARG_A (CREATE_ABC op a b c), GETARG_B (CREATE_ABC op a b c), GETARG_C (CREATE_ABC op a b c)) = (a, b, c) \<and>
     GET_OPCODE (CREATE_ABx op a (d + MAXARG_sBx)) = Some op \<and>
       (GETARG_A (CREATE_ABx op a (d + MAXARG_sBx)), GETARG_sBx (CREATE_ABx op a (d + MAXARG_sBx))) = (a, d) \<and>
     GET_OPCODE (CREATE_Ax op e) = Some op \<and> GETARG_Ax (CREATE_Ax op e) = e"
proof -
  have "0 \<le> d + MAXARG_sBx" "d + MAXARG_sBx \<le> MAXARG_Bx" using assms(7) by auto
  then show ?thesis
    using create_ABC_args [OF assms(1-6)] create_ABx_args [OF assms(1,2)] create_Ax_args [OF assms(8,9)]
    by (simp add: GETARG_sBx_def)
qed

theorem instruction_round_trip_witness:
  "GETARG_B (CREATE_ABC OP_ADD 255 511 256) = 511 \<and> GETARG_sBx (CREATE_ABx OP_JMP 0 (- 1 + MAXARG_sBx)) = - 1"
  using instruction_round_trip [of 255 511 256 "- 1" 0 OP_ADD] instruction_round_trip [of 0 0 0 "- 1" 0 OP_JMP]
  by (simp del: maxargs(5)) simp

end
