(* ===== verification/LuaCode.thy ===== *)
theory LuaCode
  imports LuaOpcodes
begin

text \<open>
  Emitting instructions and patching jumps (\<open>lcode.c\<close> under \<open>lua/lua-5.3.1/src\<close>, up to the register
  bookkeeping). The code array is the list of the \<open>pc\<close> instructions emitted so far. Jumps to a
  position not known yet form a list threaded through the offsets of the jump instructions
  themselves, ended by the offset \<open>-1\<close>. Loops over such lists take a bound and return \<open>Loops\<close> when
  it is used up; the callers give the number of instructions, which no list without a cycle exceeds.
\<close>

section \<open>State\<close>

definition NO_JUMP :: int where "NO_JUMP = - 1"
definition MAXREGS :: int where "MAXREGS = 255"
definition MAX_INT :: nat where "MAX_INT = 2147483647"

datatype code_error = SyntaxError string | RunError string | Loops

record FuncState =
  fs_code :: "u32 list"
  fs_lineinfo :: "int list"
  fs_lasttarget :: int
  fs_jpc :: int
  fs_freereg :: int
  fs_nactvar :: int
  fs_maxstacksize :: int
  fs_lastline :: int

definition fs_pc :: "FuncState \<Rightarrow> int" where
  "fs_pc fs = int (length (fs_code fs))"

fun bindC :: "code_error + 'a \<Rightarrow> ('a \<Rightarrow> code_error + 'b) \<Rightarrow> code_error + 'b" where
  "bindC (Inl e) f = Inl e"
| "bindC (Inr x) f = f x"

lemma bindC_Inr_iff: "bindC m f = Inr y \<longleftrightarrow> (\<exists>x. m = Inr x \<and> f x = Inr y)"
  by (cases m) auto

section \<open>Jumps\<close>

definition fixjump :: "FuncState \<Rightarrow> int \<Rightarrow> int \<Rightarrow> code_error + FuncState" where
  "fixjump fs pc dest =
     (let offset = dest - (pc + 1)
      in if abs offset > MAXARG_sBx then Inl (SyntaxError ''control structure too long'')
         else Inr (fs\<lparr>fs_code := (fs_code fs)[nat pc := SETARG_sBx (fs_code fs ! nat pc) offset]\<rparr>))"

definition luaK_getlabel :: "FuncState \<Rightarrow> int \<times> FuncState" where
  "luaK_getlabel fs = (fs_pc fs, fs\<lparr>fs_lasttarget := fs_pc fs\<rparr>)"

definition getjump :: "u32 list \<Rightarrow> int \<Rightarrow> int" where
  "getjump code pc =
     (let offset = GETARG_sBx (code ! nat pc) in if offset = NO_JUMP then NO_JUMP else pc + 1 + offset)"

definition getjumpcontrol :: "u32 list \<Rightarrow> int \<Rightarrow> nat" where
  "getjumpcontrol code pc =
     (if pc \<ge> 1 \<and> (case GET_OPCODE (code ! nat (pc - 1)) of Some op \<Rightarrow> testTMode op | None \<Rightarrow> False)
      then nat (pc - 1) else nat pc)"

fun need_value :: "nat \<Rightarrow> u32 list \<Rightarrow> int \<Rightarrow> code_error + bool" where
  "need_value 0 code list = (if list = NO_JUMP then Inr False else Inl Loops)"
| "need_value (Suc n) code list =
     (if list = NO_JUMP then Inr False
      else if GET_OPCODE (code ! getjumpcontrol code list) \<noteq> Some OP_TESTSET then Inr True
      else need_value n code (getjump code list))"

definition patchtestreg :: "FuncState \<Rightarrow> int \<Rightarrow> int \<Rightarrow> bool \<times> FuncState" where
  "patchtestreg fs node reg =
     (let k = getjumpcontrol (fs_code fs) node; i = fs_code fs ! k
      in if GET_OPCODE i \<noteq> Some OP_TESTSET then (False, fs)
         else if reg \<noteq> NO_REG \<and> reg \<noteq> GETARG_B i
         then (True, fs\<lparr>fs_code := (fs_code fs)[k := SETARG_A i reg]\<rparr>)
         else (True, fs\<lparr>fs_code := (fs_code fs)[k := CREATE_ABC OP_TEST (GETARG_B i) 0 (GETARG_C i)]\<rparr>))"

fun removevalues :: "nat \<Rightarrow> FuncState \<Rightarrow> int \<Rightarrow> code_error + FuncState" where
  "removevalues 0 fs list = (if list = NO_JUMP then Inr fs else Inl Loops)"
| "removevalues (Suc n) fs list =
     (if list = NO_JUMP then Inr fs
      else (let fs1 = snd (patchtestreg fs list NO_REG) in removevalues n fs1 (getjump (fs_code fs1) list)))"

fun patchlistaux :: "nat \<Rightarrow> FuncState \<Rightarrow> int \<Rightarrow> int \<Rightarrow> int \<Rightarrow> int \<Rightarrow> code_error + FuncState" where
  "patchlistaux 0 fs list vtarget reg dtarget = (if list = NO_JUMP then Inr fs else Inl Loops)"
| "patchlistaux (Suc n) fs list vtarget reg dtarget =
     (if list = NO_JUMP then Inr fs
      else (let nxt = getjump (fs_code fs) list; (patched, fs1) = patchtestreg fs list reg
            in bindC (fixjump fs1 list (if patched then vtarget else dtarget))
                 (\<lambda>fs2. patchlistaux n fs2 nxt vtarget reg dtarget)))"

definition bound :: "FuncState \<Rightarrow> nat" where
  "bound fs = length (fs_code fs)"

definition dischargejpc :: "FuncState \<Rightarrow> code_error + FuncState" where
  "dischargejpc fs =
     bindC (patchlistaux (bound fs) fs (fs_jpc fs) (fs_pc fs) NO_REG (fs_pc fs)) (\<lambda>fs1. Inr (fs1\<lparr>fs_jpc := NO_JUMP\<rparr>))"

fun last_jump :: "nat \<Rightarrow> u32 list \<Rightarrow> int \<Rightarrow> code_error + int" where
  "last_jump 0 code list = Inl Loops"
| "last_jump (Suc n) code list =
     (let nxt = getjump code list in if nxt \<noteq> NO_JUMP then last_jump n code nxt else Inr list)"

text \<open>\<open>luaK_concat\<close> returns the new value of \<open>*l1\<close>.\<close>

definition luaK_concat :: "FuncState \<Rightarrow> int \<Rightarrow> int \<Rightarrow> code_error + int \<times> FuncState" where
  "luaK_concat fs l1 l2 =
     (if l2 = NO_JUMP then Inr (l1, fs)
      else if l1 = NO_JUMP then Inr (l2, fs)
      else bindC (last_jump (bound fs) (fs_code fs) l1)
             (\<lambda>list. bindC (fixjump fs list l2) (\<lambda>fs1. Inr (l1, fs1))))"

definition luaK_patchtohere :: "FuncState \<Rightarrow> int \<Rightarrow> code_error + FuncState" where
  "luaK_patchtohere fs list =
     (let (_, fs1) = luaK_getlabel fs
      in bindC (luaK_concat fs1 (fs_jpc fs1) list) (\<lambda>(l, fs2). Inr (fs2\<lparr>fs_jpc := l\<rparr>)))"

definition luaK_patchlist :: "FuncState \<Rightarrow> int \<Rightarrow> int \<Rightarrow> code_error + FuncState" where
  "luaK_patchlist fs list target =
     (if target = fs_pc fs then luaK_patchtohere fs list
      else patchlistaux (bound fs) fs list target NO_REG target)"

fun patchclose_loop :: "nat \<Rightarrow> FuncState \<Rightarrow> int \<Rightarrow> int \<Rightarrow> code_error + FuncState" where
  "patchclose_loop 0 fs list level = (if list = NO_JUMP then Inr fs else Inl Loops)"
| "patchclose_loop (Suc n) fs list level =
     (if list = NO_JUMP then Inr fs
      else (let nxt = getjump (fs_code fs) list
            in patchclose_loop n
                 (fs\<lparr>fs_code := (fs_code fs)[nat list := SETARG_A (fs_code fs ! nat list) level]\<rparr>) nxt level))"

definition luaK_patchclose :: "FuncState \<Rightarrow> int \<Rightarrow> int \<Rightarrow> code_error + FuncState" where
  "luaK_patchclose fs list level = patchclose_loop (bound fs) fs list (level + 1)"

section \<open>Emitting\<close>

definition luaK_code :: "FuncState \<Rightarrow> u32 \<Rightarrow> code_error + int \<times> FuncState" where
  "luaK_code fs i =
     bindC (dischargejpc fs) (\<lambda>fs1.
       if length (fs_code fs1) \<ge> MAX_INT then Inl (RunError ''too many opcodes (limit is 2147483647)'')
       else Inr (fs_pc fs1, fs1\<lparr>fs_code := fs_code fs1 @ [i], fs_lineinfo := fs_lineinfo fs1 @ [fs_lastline fs1]\<rparr>))"

definition luaK_codeABC :: "FuncState \<Rightarrow> OpCode \<Rightarrow> int \<Rightarrow> int \<Rightarrow> int \<Rightarrow> code_error + int \<times> FuncState" where
  "luaK_codeABC fs op a b c = luaK_code fs (CREATE_ABC op a b c)"

definition luaK_codeABx :: "FuncState \<Rightarrow> OpCode \<Rightarrow> int \<Rightarrow> int \<Rightarrow> code_error + int \<times> FuncState" where
  "luaK_codeABx fs op a bc = luaK_code fs (CREATE_ABx op a bc)"

definition luaK_codeAsBx :: "FuncState \<Rightarrow> OpCode \<Rightarrow> int \<Rightarrow> int \<Rightarrow> code_error + int \<times> FuncState" where
  "luaK_codeAsBx fs op a sbx = luaK_codeABx fs op a (sbx + MAXARG_sBx)"

definition codeextraarg :: "FuncState \<Rightarrow> int \<Rightarrow> code_error + int \<times> FuncState" where
  "codeextraarg fs a = luaK_code fs (CREATE_Ax OP_EXTRAARG a)"

definition luaK_codek :: "FuncState \<Rightarrow> int \<Rightarrow> int \<Rightarrow> code_error + int \<times> FuncState" where
  "luaK_codek fs reg k =
     (if k \<le> MAXARG_Bx then luaK_codeABx fs OP_LOADK reg k
      else bindC (luaK_codeABx fs OP_LOADKX reg 0) (\<lambda>(p, fs1). bindC (codeextraarg fs1 k) (\<lambda>(_, fs2). Inr (p, fs2))))"

definition luaK_jump :: "FuncState \<Rightarrow> code_error + int \<times> FuncState" where
  "luaK_jump fs =
     (let jpc = fs_jpc fs
      in bindC (luaK_codeAsBx (fs\<lparr>fs_jpc := NO_JUMP\<rparr>) OP_JMP 0 NO_JUMP) (\<lambda>(j, fs1). luaK_concat fs1 j jpc))"

definition luaK_ret :: "FuncState \<Rightarrow> int \<Rightarrow> int \<Rightarrow> code_error + int \<times> FuncState" where
  "luaK_ret fs first nret = luaK_codeABC fs OP_RETURN first (nret + 1) 0"

definition condjump :: "FuncState \<Rightarrow> OpCode \<Rightarrow> int \<Rightarrow> int \<Rightarrow> int \<Rightarrow> code_error + int \<times> FuncState" where
  "condjump fs op a b c = bindC (luaK_codeABC fs op a b c) (\<lambda>(_, fs1). luaK_jump fs1)"

text \<open>\<open>luaK_nil\<close> widens the instruction before, when that one sets registers to nil too.\<close>

definition luaK_nil :: "FuncState \<Rightarrow> int \<Rightarrow> int \<Rightarrow> code_error + FuncState" where
  "luaK_nil fs from' n =
     (let l = from' + n - 1;
          previous = fs_code fs ! nat (fs_pc fs - 1);
          pfrom = GETARG_A previous; pl = pfrom + GETARG_B previous
      in if fs_pc fs > fs_lasttarget fs \<and> GET_OPCODE previous = Some OP_LOADNIL \<and>
            (pfrom \<le> from' \<and> from' \<le> pl + 1 \<or> from' \<le> pfrom \<and> pfrom \<le> l + 1)
         then (let from1 = (if pfrom < from' then pfrom else from'); l1 = (if pl > l then pl else l)
               in Inr (fs\<lparr>fs_code := (fs_code fs)[nat (fs_pc fs - 1) := SETARG_B (SETARG_A previous from1) (l1 - from1)]\<rparr>))
         else bindC (luaK_codeABC fs OP_LOADNIL from' (n - 1) 0) (\<lambda>(_, fs1). Inr fs1))"

section \<open>Registers\<close>

definition luaK_checkstack :: "FuncState \<Rightarrow> int \<Rightarrow> code_error + FuncState" where
  "luaK_checkstack fs n =
     (let newstack = fs_freereg fs + n
      in if newstack > fs_maxstacksize fs
         then if newstack \<ge> MAXREGS then Inl (SyntaxError ''function or expression needs too many registers'')
              else Inr (fs\<lparr>fs_maxstacksize := newstack\<rparr>)
         else Inr fs)"

definition luaK_reserveregs :: "FuncState \<Rightarrow> int \<Rightarrow> code_error + FuncState" where
  "luaK_reserveregs fs n = bindC (luaK_checkstack fs n) (\<lambda>fs1. Inr (fs1\<lparr>fs_freereg := fs_freereg fs1 + n\<rparr>))"

definition freereg :: "FuncState \<Rightarrow> int \<Rightarrow> FuncState" where
  "freereg fs reg = (if \<not> ISK reg \<and> reg \<ge> fs_nactvar fs then fs\<lparr>fs_freereg := fs_freereg fs - 1\<rparr> else fs)"

section \<open>Jump lists\<close>

text \<open>\<open>jlist code l ps\<close>: the list with head \<open>l\<close> consists of the jumps at the positions \<open>ps\<close>.\<close>

definition jump_at :: "u32 list \<Rightarrow> nat \<Rightarrow> bool" where
  "jump_at code p \<longleftrightarrow> p < length code \<and> GET_OPCODE (code ! p) = Some OP_JMP"

fun jlist :: "u32 list \<Rightarrow> int \<Rightarrow> nat list \<Rightarrow> bool" where
  "jlist code l [] \<longleftrightarrow> l = NO_JUMP"
| "jlist code l (p # ps) \<longleftrightarrow> l = int p \<and> jump_at code p \<and> jlist code (getjump code (int p)) ps"

text \<open>Where a jump goes, and whether it is controlled by a test that stores a value.\<close>

definition dest :: "u32 list \<Rightarrow> nat \<Rightarrow> int" where
  "dest code p = int p + 1 + GETARG_sBx (code ! p)"

definition valued :: "u32 list \<Rightarrow> nat \<Rightarrow> bool" where
  "valued code p \<longleftrightarrow> 1 \<le> p \<and> GET_OPCODE (code ! (p - 1)) = Some OP_TESTSET"

lemma jlist_cong:
  "\<lbrakk>jlist code l ps; \<And>p. p \<in> set ps \<Longrightarrow> jump_at code1 p \<and> getjump code1 (int p) = getjump code (int p)\<rbrakk>
   \<Longrightarrow> jlist code1 l ps"
  by (induction ps arbitrary: l) auto

lemma jlist_jump_at: "jlist code l ps \<Longrightarrow> p \<in> set ps \<Longrightarrow> jump_at code p"
  by (induction ps arbitrary: l) auto

lemma jlist_unique: "jlist code l ps \<Longrightarrow> jlist code l qs \<Longrightarrow> ps = qs"
proof (induction ps arbitrary: l qs)
  case Nil
  then show ?case by (cases qs) (auto simp: NO_JUMP_def)
next
  case (Cons p ps)
  then show ?case by (cases qs) (auto simp: NO_JUMP_def)
qed

lemma jlist_suffix: "jlist code l (us @ p # vs) \<Longrightarrow> jlist code (int p) (p # vs)"
  by (induction us arbitrary: l) auto

lemma jlist_distinct: "jlist code l ps \<Longrightarrow> distinct ps"
proof (induction ps arbitrary: l)
  case (Cons p ps)
  have "p \<notin> set ps"
  proof
    assume "p \<in> set ps"
    then obtain us vs where ps: "ps = us @ p # vs" by (auto simp: in_set_conv_decomp)
    with Cons.prems have "jlist code (int p) (p # vs)" using jlist_suffix [of code l "p # us" p vs] by simp
    moreover from Cons.prems have "jlist code (int p) (p # ps)" by simp
    ultimately have "vs = ps" using jlist_unique by blast
    with ps show False by (metis append_Cons append_self_conv2 length_Cons length_append less_not_refl3 not_add_less2 lessI)
  qed
  with Cons show ?case by auto
qed simp

lemma jlist_length: "jlist code l ps \<Longrightarrow> length ps \<le> length code"
proof -
  assume j: "jlist code l ps"
  then have "set ps \<subseteq> {..<length code}" using jlist_jump_at by (auto simp: jump_at_def)
  then have "card (set ps) \<le> length code" using card_mono [of "{..<length code}" "set ps"] by simp
  with jlist_distinct [OF j] show ?thesis by (simp add: distinct_card)
qed

lemma getjump_update_other [simp]: "nat q \<noteq> k \<Longrightarrow> getjump (code[k := i]) q = getjump code q"
  by (simp add: getjump_def)

lemma last_jump_list: "jlist code l (ps @ [p]) \<Longrightarrow> length ps < n \<Longrightarrow> last_jump n code l = Inr (int p)"
proof (induction ps arbitrary: l n)
  case Nil
  then show ?case by (cases n) auto
next
  case (Cons q ps)
  then obtain m where m: "n = Suc m" by (cases n) auto
  from Cons.prems have "jlist code (getjump code (int q)) (ps @ [p])" by simp
  moreover from this have "getjump code (int q) \<noteq> NO_JUMP" by (cases ps) (auto simp: NO_JUMP_def)
  ultimately show ?case using Cons by (simp add: m Let_def)
qed

text \<open>Joining: the last jump of the first list is redirected to the head of the second.\<close>

lemma jlist_join:
  assumes "jlist code l (ps @ [p])" "jlist code l2 (q # qs)" "p \<notin> set (q # qs)"
    and "abs (l2 - (int p + 1)) \<le> MAXARG_sBx"
  shows "jlist (code[p := SETARG_sBx (code ! p) (l2 - (int p + 1))]) l (ps @ p # q # qs)"
proof -
  let ?code = "code[p := SETARG_sBx (code ! p) (l2 - (int p + 1))]"
  have p: "p < length code" "jump_at code p" using jlist_jump_at [OF assms(1)] by (auto simp: jump_at_def)
  have jumps: "jump_at ?code r = jump_at code r" for r
    using p by (cases "r = p") (auto simp: jump_at_def)
  have j2: "jlist ?code l2 (q # qs)"
  proof (rule jlist_cong [OF assms(2)])
    fix r assume r: "r \<in> set (q # qs)"
    then have "r \<noteq> p" using assms(3) by auto
    then show "jump_at ?code r \<and> getjump ?code (int r) = getjump code (int r)"
      using jlist_jump_at [OF assms(2) r] by (simp only: jumps) simp
  qed
  have g: "getjump ?code (int p) = l2"
    using p assms(2,3) getarg_sBx_set [OF assms(4)] by (auto simp: getjump_def NO_JUMP_def Let_def)
  have tail: "jlist ?code (int p) (p # q # qs)"
    using p(2) j2 by (simp only: jlist.simps(2) [of ?code "int p" p "q # qs"] jumps g simp_thms)
  have "p \<notin> set ps" using jlist_distinct [OF assms(1)] by simp
  with assms(1) tail show ?thesis
  proof (induction ps arbitrary: l)
    case (Cons r ps)
    then show ?case by (auto simp: jumps)
  qed simp
qed

section \<open>Patching a list\<close>

lemma testset_is_test [simp]: "testTMode OP_TESTSET"
  by (simp add: testTMode_def op_props_def luaP_opmodes_def opmode_def arg_num_def mode_num_def)

lemma control_of_jump:
  assumes "jump_at code p"
  shows "GET_OPCODE (code ! getjumpcontrol code (int p)) = Some OP_TESTSET \<longleftrightarrow> valued code p"
    and "valued code p \<Longrightarrow> getjumpcontrol code (int p) = p - 1"
  using assms by (auto simp: getjumpcontrol_def valued_def jump_at_def nat_diff_distrib split: option.splits)

definition patch_value :: "int \<Rightarrow> u32 \<Rightarrow> u32" where
  "patch_value reg i =
     (if reg \<noteq> NO_REG \<and> reg \<noteq> GETARG_B i then SETARG_A i reg else CREATE_ABC OP_TEST (GETARG_B i) 0 (GETARG_C i))"

text \<open>
  What patching does to the code, instruction by instruction: the jumps of the list get their target
  and the tests that store a value for one of them are turned.
\<close>

definition patch_instr :: "u32 list \<Rightarrow> nat set \<Rightarrow> int \<Rightarrow> int \<Rightarrow> int \<Rightarrow> nat \<Rightarrow> u32" where
  "patch_instr code P vtarget reg dtarget q =
     (if q \<in> P then SETARG_sBx (code ! q) ((if valued code q then vtarget else dtarget) - (int q + 1))
      else if Suc q \<in> P \<and> valued code (Suc q) then patch_value reg (code ! q) else code ! q)"

definition patched :: "u32 list \<Rightarrow> nat list \<Rightarrow> int \<Rightarrow> int \<Rightarrow> int \<Rightarrow> u32 list" where
  "patched code ps vtarget reg dtarget =
     map (patch_instr code (set ps) vtarget reg dtarget) [0..<length code]"

lemma length_patched [simp]: "length (patched code ps vt reg dt) = length code"
  by (simp add: patched_def)

lemma nth_patched: "q < length code \<Longrightarrow> patched code ps vt reg dt ! q = patch_instr code (set ps) vt reg dt q"
  by (simp add: patched_def)

lemma patched_Nil [simp]: "patched code [] vt reg dt = code"
  by (rule nth_equalityI) (simp_all add: nth_patched patch_instr_def)

lemma patchtestreg_jump:
  assumes "jump_at (fs_code fs) p"
  shows "patchtestreg fs (int p) reg =
     (valued (fs_code fs) p,
      if valued (fs_code fs) p
      then fs\<lparr>fs_code := (fs_code fs)[p - 1 := patch_value reg (fs_code fs ! (p - 1))]\<rparr> else fs)"
  using control_of_jump [OF assms]
  by (cases "valued (fs_code fs) p") (auto simp: patchtestreg_def Let_def patch_value_def)

lemma fixjump_ok:
  "abs (d - (int p + 1)) \<le> MAXARG_sBx \<Longrightarrow>
   fixjump fs (int p) d = Inr (fs\<lparr>fs_code := (fs_code fs)[p := SETARG_sBx (fs_code fs ! p) (d - (int p + 1))]\<rparr>)"
  by (simp add: fixjump_def Let_def del: maxargs)

lemma patched_Cons:
  fixes vt dt reg :: int
  assumes "jump_at code p" "p \<notin> set ps" "\<And>q. q \<in> set ps \<Longrightarrow> jump_at code q"
  defines "code1 \<equiv> (if valued code p then code[p - 1 := patch_value reg (code ! (p - 1))] else code)
     [p := SETARG_sBx (code ! p) ((if valued code p then vt else dt) - (int p + 1))]"
  shows "patched code1 ps vt reg dt = patched code (p # ps) vt reg dt"
    and "\<And>q. q \<in> set ps \<Longrightarrow> jump_at code1 q \<and> getjump code1 (int q) = getjump code (int q)"
    and "\<And>q. q \<in> set ps \<Longrightarrow> valued code1 q = valued code q"
proof -
  have p: "p < length code" "GET_OPCODE (code ! p) = Some OP_JMP" using assms(1) by (auto simp: jump_at_def)
  have len: "length code1 = length code" by (simp add: code1_def)
  have before: "p - 1 \<noteq> q" "Suc (p - 1) = p" if "valued code p" "q \<in> insert p (set ps)" for q
    using that assms(1,3) by (auto simp: valued_def jump_at_def)
  have same: "code1 ! q = code ! q" if "q \<noteq> p" "valued code p \<longrightarrow> q \<noteq> p - 1" for q
    using that by (auto simp: code1_def)
  have at_p: "code1 ! p = SETARG_sBx (code ! p) ((if valued code p then vt else dt) - (int p + 1))"
    using p by (simp add: code1_def)
  have at_before: "code1 ! (p - 1) = patch_value reg (code ! (p - 1))" if "valued code p"
    using that p before [OF that, of p] by (auto simp: code1_def)
  have in_ps: "code1 ! q = code ! q" if "q \<in> set ps" for q
    using that assms(2) before [of q] by (intro same) auto
  show "jump_at code1 q \<and> getjump code1 (int q) = getjump code (int q)" if "q \<in> set ps" for q
    using assms(3) [OF that] in_ps [OF that] len by (simp add: jump_at_def getjump_def)
  have val: "valued code1 q = valued code q" if "q \<noteq> p" for q
  proof (cases "q - 1 = p")
    case True
    then show ?thesis using p at_p by (auto simp: valued_def)
  next
    case False
    then have "code1 ! (q - 1) = code ! (q - 1)" if "1 \<le> q"
      using that \<open>q \<noteq> p\<close> by (intro same) (auto simp: valued_def)
    then show ?thesis by (auto simp: valued_def)
  qed
  then show "valued code1 q = valued code q" if "q \<in> set ps" for q
    using that assms(2) by (cases "q = p") auto
  show "patched code1 ps vt reg dt = patched code (p # ps) vt reg dt"
  proof (rule nth_equalityI)
    fix q assume "q < length (patched code1 ps vt reg dt)"
    then have q: "q < length code" by (simp add: len)
    have "patch_instr code1 (set ps) vt reg dt q = patch_instr code (set (p # ps)) vt reg dt q"
    proof (cases "q = p")
      case True
      have "\<not> valued code1 (Suc p)" using p at_p by (simp add: valued_def)
      with True assms(2) at_p show ?thesis by (simp add: patch_instr_def)
    next
      case q_p: False
      show ?thesis
      proof (cases "valued code p \<and> q = p - 1")
        case True
        then have "q \<notin> set ps" "Suc q = p" using before by auto
        with True assms(2) q_p at_before show ?thesis by (simp add: patch_instr_def)
      next
        case False
        then have "code1 ! q = code ! q" using q_p same by blast
        moreover have "Suc q = p \<Longrightarrow> \<not> valued code p" using False by auto
        moreover have "Suc q \<in> set ps \<Longrightarrow> valued code1 (Suc q) = valued code (Suc q)"
          using val [of "Suc q"] assms(2) by (cases "Suc q = p") auto
        moreover have "q \<in> set ps \<Longrightarrow> valued code1 q = valued code q" using val q_p by auto
        ultimately show ?thesis using q_p assms(2) by (auto simp: patch_instr_def)
      qed
    qed
    with q show "patched code1 ps vt reg dt ! q = patched code (p # ps) vt reg dt ! q"
      by (simp add: nth_patched len)
  qed (simp add: len)
qed

lemma patchlistaux_list:
  "\<lbrakk>jlist (fs_code fs) l ps; length ps \<le> n;
    \<And>p. p \<in> set ps \<Longrightarrow> abs ((if valued (fs_code fs) p then vt else dt) - (int p + 1)) \<le> MAXARG_sBx\<rbrakk>
   \<Longrightarrow> patchlistaux n fs l vt reg dt = Inr (fs\<lparr>fs_code := patched (fs_code fs) ps vt reg dt\<rparr>)"
proof (induction ps arbitrary: fs l n)
  case Nil
  then show ?case by (cases n) simp_all
next
  case (Cons p ps)
  let ?code = "fs_code fs"
  let ?code1 = "(if valued ?code p then ?code[p - 1 := patch_value reg (?code ! (p - 1))] else ?code)
     [p := SETARG_sBx (?code ! p) ((if valued ?code p then vt else dt) - (int p + 1))]"
  obtain m where m: "n = Suc m" "length ps \<le> m" using Cons.prems(2) by (cases n) auto
  have l: "l = int p" "jump_at ?code p" "jlist ?code (getjump ?code (int p)) ps" using Cons.prems(1) by auto
  have p: "p \<notin> set ps" using jlist_distinct [OF Cons.prems(1)] by simp
  note step = patched_Cons [OF l(2) p jlist_jump_at [OF l(3)], where vt = vt and reg = reg and dt = dt]
  have before: "valued ?code p \<Longrightarrow> p - 1 \<noteq> p" by (auto simp: valued_def)
  have off: "abs ((if valued ?code p then vt else dt) - (int p + 1)) \<le> MAXARG_sBx" using Cons.prems(3) by simp
  have "patchlistaux n fs l vt reg dt =
      patchlistaux m (fs\<lparr>fs_code := ?code1\<rparr>) (getjump ?code (int p)) vt reg dt"
    using off before
    by (auto simp: m l(1) patchtestreg_jump [OF l(2)] fixjump_ok NO_JUMP_def Let_def simp del: maxargs)
  also have "\<dots> = Inr (fs\<lparr>fs_code := patched ?code (p # ps) vt reg dt\<rparr>)"
  proof -
    have "jlist (fs_code (fs\<lparr>fs_code := ?code1\<rparr>)) (getjump ?code (int p)) ps"
      using l(3) by (rule jlist_cong) (use step(2) in simp)
    from Cons.IH [OF this m(2)] show ?thesis
      using step(1,3) Cons.prems(3) by simp
  qed
  finally show ?case .
qed

section \<open>The operations on lists\<close>

text \<open>Functions of at most \<open>MAXARG_sBx\<close> instructions: every offset fits, so nothing fails.\<close>

definition small :: "FuncState \<Rightarrow> bool" where
  "small fs \<longleftrightarrow> int (length (fs_code fs)) \<le> MAXARG_sBx"

lemma small_offset:
  "small fs \<Longrightarrow> p < length (fs_code fs) \<Longrightarrow> 0 \<le> d \<Longrightarrow> d \<le> fs_pc fs \<Longrightarrow> abs (d - (int p + 1)) \<le> MAXARG_sBx"
  by (simp add: small_def fs_pc_def del: maxargs)

lemma getarg_dest:
  "jump_at code p \<Longrightarrow> abs (d - (int p + 1)) \<le> MAXARG_sBx \<Longrightarrow> code1 ! p = SETARG_sBx (code ! p) (d - (int p + 1)) \<Longrightarrow>
   dest code1 p = d"
  by (simp add: dest_def getarg_sBx_set)

lemma concat_lists:
  assumes "jlist (fs_code fs) l1 ps" "jlist (fs_code fs) l2 qs" "set ps \<inter> set qs = {}" "small fs"
  shows "\<exists>l code1. luaK_concat fs l1 l2 = Inr (l, fs\<lparr>fs_code := code1\<rparr>) \<and> jlist code1 l (ps @ qs) \<and>
     length code1 = length (fs_code fs) \<and>
     (\<forall>q. code1 ! q \<noteq> fs_code fs ! q \<longrightarrow>
        q \<in> set ps \<and> jump_at (fs_code fs) q \<and> (\<exists>b. code1 ! q = SETARG_sBx (fs_code fs ! q) b))"
proof (cases qs)
  case Nil
  then show ?thesis using assms by (intro exI [of _ l1] exI [of _ "fs_code fs"]) (simp add: luaK_concat_def)
next
  case (Cons q qs')
  then have l2: "l2 = int q" "l2 \<noteq> NO_JUMP" using assms(2) by (auto simp: NO_JUMP_def)
  show ?thesis
  proof (cases ps rule: rev_cases)
    case Nil
    then show ?thesis using assms l2
      by (intro exI [of _ l2] exI [of _ "fs_code fs"]) (simp add: luaK_concat_def)
  next
    case (snoc us p)
    let ?code1 = "(fs_code fs)[p := SETARG_sBx (fs_code fs ! p) (l2 - (int p + 1))]"
    have l1: "l1 \<noteq> NO_JUMP" using assms(1) snoc by (cases us) (auto simp: NO_JUMP_def)
    have p: "jump_at (fs_code fs) p" "p \<notin> set (q # qs')"
      using jlist_jump_at [OF assms(1)] assms(3) snoc Cons by auto
    have "q < length (fs_code fs)" using jlist_jump_at [OF assms(2)] Cons by (simp add: jump_at_def)
    then have off: "abs (l2 - (int p + 1)) \<le> MAXARG_sBx"
      using small_offset [OF assms(4), of p l2] p l2 by (simp add: jump_at_def fs_pc_def del: maxargs)
    have "length us < bound fs" using jlist_length [OF assms(1)] snoc by (simp add: bound_def)
    then have "last_jump (bound fs) (fs_code fs) l1 = Inr (int p)"
      using last_jump_list assms(1) snoc by blast
    then have "luaK_concat fs l1 l2 = Inr (l1, fs\<lparr>fs_code := ?code1\<rparr>)"
      using l1 l2(2) fixjump_ok [OF off, of fs] by (simp add: luaK_concat_def)
    moreover have "jlist ?code1 l1 (ps @ qs)"
      using jlist_join [of "fs_code fs" l1 us p l2 q qs'] assms(1,2) snoc Cons p(2) off by simp
    moreover have "\<forall>r. ?code1 ! r \<noteq> fs_code fs ! r \<longrightarrow>
        r \<in> set ps \<and> jump_at (fs_code fs) r \<and> (\<exists>b. ?code1 ! r = SETARG_sBx (fs_code fs ! r) b)"
    proof (intro allI impI)
      fix r assume r: "?code1 ! r \<noteq> fs_code fs ! r"
      then have "r = p" by (metis nth_list_update_neq)
      with p(1) snoc show "r \<in> set ps \<and> jump_at (fs_code fs) r \<and> (\<exists>b. ?code1 ! r = SETARG_sBx (fs_code fs ! r) b)"
        by (auto simp: jump_at_def)
    qed
    ultimately show ?thesis by (intro exI [of _ l1] exI [of _ ?code1]) simp
  qed
qed

lemma patch_list:
  assumes "jlist (fs_code fs) l ps" "small fs" "0 \<le> vt" "vt \<le> fs_pc fs" "0 \<le> dt" "dt \<le> fs_pc fs"
  shows "patchlistaux (bound fs) fs l vt reg dt = Inr (fs\<lparr>fs_code := patched (fs_code fs) ps vt reg dt\<rparr>)"
proof (rule patchlistaux_list [OF assms(1)])
  show "length ps \<le> bound fs" using jlist_length [OF assms(1)] by (simp add: bound_def)
  fix p assume "p \<in> set ps"
  then have "p < length (fs_code fs)" using jlist_jump_at [OF assms(1)] by (simp add: jump_at_def)
  then show "abs ((if valued (fs_code fs) p then vt else dt) - (int p + 1)) \<le> MAXARG_sBx"
    using small_offset [OF assms(2)] assms(3-6) by simp
qed

lemma patched_dest:
  assumes "jlist (fs_code fs) l ps" "small fs" "0 \<le> t" "t \<le> fs_pc fs" "p \<in> set ps"
  shows "dest (patched (fs_code fs) ps t reg t) p = t"
proof -
  have p: "jump_at (fs_code fs) p" using jlist_jump_at assms(1,5) .
  show ?thesis
    by (rule getarg_dest [OF p small_offset [OF assms(2) _ assms(3,4)]])
      (use p assms(5) in \<open>simp_all add: jump_at_def nth_patched patch_instr_def\<close>)
qed

lemma code_list:
  assumes "jlist (fs_code fs) (fs_jpc fs) ps" "small fs"
  shows "luaK_code fs i = Inr (fs_pc fs,
     fs\<lparr>fs_code := patched (fs_code fs) ps (fs_pc fs) NO_REG (fs_pc fs) @ [i],
        fs_lineinfo := fs_lineinfo fs @ [fs_lastline fs], fs_jpc := NO_JUMP\<rparr>)"
  using patch_list [OF assms, of "fs_pc fs" "fs_pc fs" NO_REG] assms(2)
  by (simp add: luaK_code_def dischargejpc_def fs_pc_def small_def MAX_INT_def)

lemma patchtohere_list:
  assumes "jlist (fs_code fs) (fs_jpc fs) ps" "jlist (fs_code fs) l qs" "set ps \<inter> set qs = {}" "small fs"
  shows "\<exists>l1 code1. luaK_patchtohere fs l = Inr (fs\<lparr>fs_code := code1, fs_lasttarget := fs_pc fs, fs_jpc := l1\<rparr>) \<and>
     jlist code1 l1 (ps @ qs) \<and> length code1 = length (fs_code fs) \<and>
     (\<forall>q. code1 ! q \<noteq> fs_code fs ! q \<longrightarrow>
        q \<in> set ps \<and> jump_at (fs_code fs) q \<and> (\<exists>b. code1 ! q = SETARG_sBx (fs_code fs ! q) b))"
proof -
  let ?fs = "fs\<lparr>fs_lasttarget := fs_pc fs\<rparr>"
  from concat_lists [of ?fs "fs_jpc fs" ps l qs] assms obtain l1 code1 where
    "luaK_concat ?fs (fs_jpc fs) l = Inr (l1, ?fs\<lparr>fs_code := code1\<rparr>)" "jlist code1 l1 (ps @ qs)"
    "length code1 = length (fs_code fs)"
    "\<forall>q. code1 ! q \<noteq> fs_code fs ! q \<longrightarrow>
        q \<in> set ps \<and> jump_at (fs_code fs) q \<and> (\<exists>b. code1 ! q = SETARG_sBx (fs_code fs ! q) b)"
    by (auto simp: small_def)
  then show ?thesis
    by (intro exI [of _ l1] exI [of _ code1]) (simp add: luaK_patchtohere_def luaK_getlabel_def)
qed

lemma jlist_extend: "jlist code l ps \<Longrightarrow> jlist (code @ instrs) l ps"
  by (rule jlist_cong) (auto dest!: jlist_jump_at simp: jump_at_def getjump_def nth_append)

lemma jump_list:
  assumes "jlist (fs_code fs) (fs_jpc fs) ps" "int (length (fs_code fs)) < MAXARG_sBx"
  shows "\<exists>code1. luaK_jump fs = Inr (fs_pc fs, fs\<lparr>fs_code := code1,
       fs_lineinfo := fs_lineinfo fs @ [fs_lastline fs], fs_jpc := NO_JUMP\<rparr>) \<and>
     jlist code1 (fs_pc fs) (length (fs_code fs) # ps) \<and> length code1 = Suc (length (fs_code fs)) \<and>
     take (length (fs_code fs)) code1 = fs_code fs"
proof -
  let ?j = "CREATE_ABx OP_JMP 0 (NO_JUMP + MAXARG_sBx)"
  let ?fs = "fs\<lparr>fs_code := fs_code fs @ [?j], fs_lineinfo := fs_lineinfo fs @ [fs_lastline fs], fs_jpc := NO_JUMP\<rparr>"
  have j: "GET_OPCODE ?j = Some OP_JMP" "GETARG_sBx ?j = NO_JUMP"
    using create_ABx_args [of 0 "NO_JUMP + MAXARG_sBx" OP_JMP] by (simp_all add: NO_JUMP_def GETARG_sBx_def)
  have sm: "small fs" using assms(2) by (simp add: small_def)
  have none: "jlist (fs_code (fs\<lparr>fs_jpc := NO_JUMP\<rparr>)) (fs_jpc (fs\<lparr>fs_jpc := NO_JUMP\<rparr>)) []" by simp
  have code: "luaK_codeAsBx (fs\<lparr>fs_jpc := NO_JUMP\<rparr>) OP_JMP 0 NO_JUMP = Inr (fs_pc fs, ?fs)"
    using code_list [OF none, of ?j] sm
    by (simp add: luaK_codeAsBx_def luaK_codeABx_def fs_pc_def small_def del: maxargs)
  have new: "jlist (fs_code ?fs) (fs_pc fs) [length (fs_code fs)]"
    using j by (simp add: fs_pc_def jump_at_def getjump_def)
  have old: "jlist (fs_code ?fs) (fs_jpc fs) ps" using jlist_extend [OF assms(1)] by simp
  have disj: "set [length (fs_code fs)] \<inter> set ps = {}"
    using jlist_jump_at [OF assms(1)] by (auto simp: jump_at_def)
  have "small ?fs" using assms(2) by (simp add: small_def)
  from concat_lists [OF new old disj this] obtain l code1 where c: "luaK_concat ?fs (fs_pc fs) (fs_jpc fs) = Inr (l, ?fs\<lparr>fs_code := code1\<rparr>)"
    "jlist code1 l ([length (fs_code fs)] @ ps)" "length code1 = length (fs_code ?fs)"
    "\<forall>q. code1 ! q \<noteq> fs_code ?fs ! q \<longrightarrow> q \<in> set [length (fs_code fs)] \<and>
       jump_at (fs_code ?fs) q \<and> (\<exists>b. code1 ! q = SETARG_sBx (fs_code ?fs ! q) b)" by auto
  have "take (length (fs_code fs)) code1 = fs_code fs"
  proof (rule nth_equalityI)
    show "length (take (length (fs_code fs)) code1) = length (fs_code fs)" using c(3) by simp
    fix q assume "q < length (take (length (fs_code fs)) code1)"
    then have q: "q < length (fs_code fs)" by simp
    then have "code1 ! q = fs_code ?fs ! q" using c(4) by auto
    with q show "take (length (fs_code fs)) code1 ! q = fs_code fs ! q" by (simp add: nth_append)
  qed
  moreover have "l = fs_pc fs" using c(2) by (simp add: fs_pc_def)
  moreover have "luaK_jump fs = luaK_concat ?fs (fs_pc fs) (fs_jpc fs)" by (simp add: luaK_jump_def code del: maxargs)
  moreover have "length code1 = Suc (length (fs_code fs))" using c(3) by simp
  moreover have "jlist code1 l (length (fs_code fs) # ps)" using c(2) by simp
  ultimately show ?thesis using c(1) by (intro exI [of _ code1] conjI) (simp_all del: maxargs jlist.simps)
qed

section \<open>Well-formed code\<close>

text \<open>
  An instruction is well formed when its opcode exists and, in the three-argument format, the
  arguments its format does not use are 0 and a register argument is a register.
\<close>

definition wf_instr :: "u32 \<Rightarrow> bool" where
  "wf_instr i \<longleftrightarrow> (case GET_OPCODE i of
      None \<Rightarrow> False
    | Some op \<Rightarrow> getOpMode op = iABC \<longrightarrow>
        (getBMode op = OpArgN \<longrightarrow> GETARG_B i = 0) \<and> (getBMode op = OpArgR \<longrightarrow> GETARG_B i \<le> MAXARG_A) \<and>
        (getCMode op = OpArgN \<longrightarrow> GETARG_C i = 0))"

definition wf_args :: "OpCode \<Rightarrow> int \<Rightarrow> int \<Rightarrow> int \<Rightarrow> bool" where
  "wf_args op a b c \<longleftrightarrow> getOpMode op = iABC \<and> 0 \<le> a \<and> a \<le> MAXARG_A \<and> 0 \<le> b \<and> b \<le> MAXARG_B \<and> 0 \<le> c \<and> c \<le> MAXARG_C \<and>
     (getBMode op = OpArgN \<longrightarrow> b = 0) \<and> (getBMode op = OpArgR \<longrightarrow> b \<le> MAXARG_A) \<and> (getCMode op = OpArgN \<longrightarrow> c = 0)"

definition code_inv :: "FuncState \<Rightarrow> bool" where
  "code_inv fs \<longleftrightarrow> (\<forall>q < length (fs_code fs). wf_instr (fs_code fs ! q)) \<and> (\<exists>ps. jlist (fs_code fs) (fs_jpc fs) ps) \<and>
     length (fs_lineinfo fs) = length (fs_code fs)"

text \<open>One operation of the code generator, what it returned and the state after it.\<close>

definition run :: "FuncState \<Rightarrow> code_error + int \<times> FuncState \<Rightarrow> (code_error + int) \<times> FuncState" where
  "run fs r = (case r of Inl e \<Rightarrow> (Inl e, fs) | Inr (p, fs1) \<Rightarrow> (Inr p, fs1))"

inductive code_step :: "FuncState \<Rightarrow> code_error + int \<Rightarrow> FuncState \<Rightarrow> bool" where
  emit_ABC: "\<lbrakk>int (length (fs_code fs)) < MAXARG_sBx; wf_args op a b c; (out, fs1) = run fs (luaK_codeABC fs op a b c)\<rbrakk>
     \<Longrightarrow> code_step fs out fs1"
| emit_ABx: "\<lbrakk>int (length (fs_code fs)) < MAXARG_sBx; getOpMode op \<in> {iABx, iAsBx}; 0 \<le> a; a \<le> MAXARG_A;
      0 \<le> bc; bc \<le> MAXARG_Bx; (out, fs1) = run fs (luaK_codeABx fs op a bc)\<rbrakk> \<Longrightarrow> code_step fs out fs1"
| emit_jump: "\<lbrakk>int (length (fs_code fs)) < MAXARG_sBx; (out, fs1) = run fs (luaK_jump fs)\<rbrakk> \<Longrightarrow> code_step fs out fs1"
| join: "\<lbrakk>int (length (fs_code fs)) < MAXARG_sBx; jlist (fs_code fs) l1 ps; jlist (fs_code fs) l2 qs;
      jlist (fs_code fs) (fs_jpc fs) rs; set ps \<inter> set qs = {}; set ps \<inter> set rs = {};
      (out, fs1) = run fs (luaK_concat fs l1 l2)\<rbrakk> \<Longrightarrow> code_step fs out fs1"
| patch: "\<lbrakk>int (length (fs_code fs)) < MAXARG_sBx; jlist (fs_code fs) l ps; jlist (fs_code fs) (fs_jpc fs) rs;
      set ps \<inter> set rs = {}; 0 \<le> target; target \<le> fs_pc fs;
      (out, fs1) = run fs (bindC (luaK_patchlist fs l target) (\<lambda>fs1. Inr (target, fs1)))\<rbrakk> \<Longrightarrow> code_step fs out fs1"
| nils: "\<lbrakk>int (length (fs_code fs)) < MAXARG_sBx; 0 \<le> from'; 1 \<le> n; from' + n - 1 \<le> MAXARG_A; 0 \<le> fs_lasttarget fs;
      (out, fs1) = run fs (bindC (luaK_nil fs from' n) (\<lambda>fs1. Inr (from', fs1)))\<rbrakk> \<Longrightarrow> code_step fs out fs1"

lemma wf_instr_ABC: "wf_args op a b c \<Longrightarrow> wf_instr (CREATE_ABC op a b c)"
proof -
  assume w: "wf_args op a b c"
  then have "0 \<le> a" "a \<le> MAXARG_A" "0 \<le> b" "b \<le> MAXARG_B" "0 \<le> c" "c \<le> MAXARG_C" by (simp_all add: wf_args_def)
  from create_ABC_args [OF this, of op] w show ?thesis by (simp only: wf_instr_def wf_args_def option.case) blast
qed

lemma wf_instr_ABx:
  "getOpMode op \<in> {iABx, iAsBx} \<Longrightarrow> 0 \<le> a \<Longrightarrow> a \<le> MAXARG_A \<Longrightarrow> 0 \<le> bc \<Longrightarrow> bc \<le> MAXARG_Bx \<Longrightarrow> wf_instr (CREATE_ABx op a bc)"
  using create_ABx_args [of a bc op] by (auto simp: wf_instr_def)

lemma modes [simp]:
  "getOpMode OP_JMP = iAsBx" "getOpMode OP_TEST = iABC" "getBMode OP_TEST = OpArgN" "getCMode OP_TEST = OpArgU"
  "getOpMode OP_TESTSET = iABC" "getBMode OP_TESTSET = OpArgR" "getCMode OP_TESTSET = OpArgU"
  "getOpMode OP_LOADNIL = iABC" "getBMode OP_LOADNIL = OpArgU" "getCMode OP_LOADNIL = OpArgN"
  by (simp_all add: getOpMode_def getBMode_def getCMode_def op_props_def luaP_opmodes_def opmode_def
      arg_num_def mode_num_def)

lemma wf_jump: "GET_OPCODE i = Some OP_JMP \<Longrightarrow> wf_instr i"
  by (simp add: wf_instr_def)

lemma wf_patch_value: "wf_instr i \<Longrightarrow> GET_OPCODE i = Some OP_TESTSET \<Longrightarrow> wf_instr (patch_value reg i)"
  using field_B.get_range [of i] field_C.get_range [of i]
  by (auto simp: patch_value_def wf_instr_def [of i] wf_instr_def [of "SETARG_A i reg"]
      intro!: wf_instr_ABC simp: wf_args_def simp del: maxargs)

lemma wf_patched:
  assumes "jlist code l ps" "\<forall>q < length code. wf_instr (code ! q)" "q < length code"
  shows "wf_instr (patched code ps vt reg dt ! q)"
proof (cases "q \<in> set ps")
  case True
  then show ?thesis using jlist_jump_at [OF assms(1)] assms(3)
    by (intro wf_jump) (simp add: nth_patched patch_instr_def jump_at_def)
next
  case False
  then show ?thesis using assms by (auto simp: nth_patched patch_instr_def valued_def intro!: wf_patch_value)
qed

lemma inv_emitted:
  assumes "code_inv fs" "int (length (fs_code fs)) < MAXARG_sBx" "wf_instr i" "(out, fs1) = run fs (luaK_code fs i)"
  shows "code_inv fs1 \<and> \<not> isl out"
proof -
  from assms(1) obtain ps where ps: "jlist (fs_code fs) (fs_jpc fs) ps" by (auto simp: code_inv_def)
  have "small fs" using assms(2) by (simp add: small_def)
  from code_list [OF ps this, of i] assms(4)
  have o: "out = Inr (fs_pc fs)" and f: "fs1 = fs\<lparr>fs_code := patched (fs_code fs) ps (fs_pc fs) NO_REG (fs_pc fs) @ [i],
        fs_lineinfo := fs_lineinfo fs @ [fs_lastline fs], fs_jpc := NO_JUMP\<rparr>" by (simp_all add: run_def)
  have w: "wf_instr ((patched (fs_code fs) ps vt reg dt @ [i]) ! q)" if "q < Suc (length (fs_code fs))" for q vt reg dt
    using that wf_patched [OF ps] assms(1,3) by (cases "q = length (fs_code fs)") (auto simp: nth_append code_inv_def)
  show ?thesis unfolding code_inv_def o f using w assms(1) by (auto simp: code_inv_def intro: exI [of _ "[]"])
qed

lemma inv_changed:
  assumes "code_inv fs" "length code1 = length (fs_code fs)"
    and "\<And>q. q < length (fs_code fs) \<Longrightarrow> code1 ! q \<noteq> fs_code fs ! q \<Longrightarrow> wf_instr (code1 ! q)"
    and "jlist code1 l ps"
  shows "code_inv (fs\<lparr>fs_code := code1, fs_jpc := l\<rparr>)"
  using assms unfolding code_inv_def by simp metis

lemma jlist_unchanged:
  assumes "jlist code l ps" "length code1 = length code" "\<And>q. code1 ! q \<noteq> code ! q \<Longrightarrow> q \<notin> set ps"
  shows "jlist code1 l ps"
  using assms(1)
proof (rule jlist_cong)
  fix p assume p: "p \<in> set ps"
  then have "code1 ! p = code ! p" using assms(3) by blast
  then show "jump_at code1 p \<and> getjump code1 (int p) = getjump code (int p)"
    using jlist_jump_at [OF assms(1) p] assms(2) by (simp add: jump_at_def getjump_def)
qed

lemma patched_frame:
  assumes "jlist code l ps" "jlist code r rs" "set ps \<inter> set rs = {}"
  shows "jlist (patched code ps vt reg dt) r rs"
proof (rule jlist_unchanged [OF assms(2)])
  fix q assume ch: "patched code ps vt reg dt ! q \<noteq> code ! q"
  show "q \<notin> set rs"
  proof
    assume q: "q \<in> set rs"
    then have j: "jump_at code q" using jlist_jump_at [OF assms(2)] by blast
    then have "patched code ps vt reg dt ! q = code ! q"
      using q assms(3) by (auto simp: jump_at_def nth_patched patch_instr_def valued_def)
    with ch show False by simp
  qed
qed simp

lemma wf_sBx: "jump_at code q \<Longrightarrow> wf_instr (SETARG_sBx (code ! q) b)"
  by (rule wf_jump) (simp add: jump_at_def)

lemma inv_nil:
  assumes "code_inv fs" "int (length (fs_code fs)) < MAXARG_sBx" "0 \<le> from'" "1 \<le> n" "from' + n - 1 \<le> MAXARG_A"
    and "0 \<le> fs_lasttarget fs" and "(out, fs1) = run fs (bindC (luaK_nil fs from' n) (\<lambda>fs1. Inr (from', fs1)))"
  shows "code_inv fs1 \<and> \<not> isl out"
proof -
  let ?last = "nat (fs_pc fs - 1)"
  let ?prev = "fs_code fs ! ?last"
  from assms(1) obtain ps where ps: "jlist (fs_code fs) (fs_jpc fs) ps" by (auto simp: code_inv_def)
  show ?thesis
  proof (cases "\<exists>a b. fs_pc fs > fs_lasttarget fs \<and> GET_OPCODE ?prev = Some OP_LOADNIL \<and>
      luaK_nil fs from' n = Inr (fs\<lparr>fs_code := (fs_code fs)[?last := SETARG_B (SETARG_A ?prev a) b]\<rparr>)")
    case True
    then obtain a b where m: "fs_pc fs > fs_lasttarget fs" "GET_OPCODE ?prev = Some OP_LOADNIL"
      "luaK_nil fs from' n = Inr (fs\<lparr>fs_code := (fs_code fs)[?last := SETARG_B (SETARG_A ?prev a) b]\<rparr>)" by blast
    have l: "?last < length (fs_code fs)" using m(1) assms(6) by (auto simp: fs_pc_def)
    have "wf_instr ?prev" using assms(1) l by (simp add: code_inv_def)
    with m(2) have c: "GETARG_C ?prev = 0" by (simp add: wf_instr_def)
    let ?code1 = "(fs_code fs)[?last := SETARG_B (SETARG_A ?prev a) b]"
    have w: "wf_instr (SETARG_B (SETARG_A ?prev a) b)" using m(2) c by (simp add: wf_instr_def)
    have "jlist ?code1 (fs_jpc fs) ps"
    proof (rule jlist_unchanged [OF ps])
      fix q assume "?code1 ! q \<noteq> fs_code fs ! q"
      then have "q = ?last" by (metis nth_list_update_neq)
      with m(2) show "q \<notin> set ps" using jlist_jump_at [OF ps, of q] by (auto simp: jump_at_def)
    qed simp
    then have "code_inv (fs\<lparr>fs_code := ?code1, fs_jpc := fs_jpc fs\<rparr>)"
    proof (rule inv_changed [OF assms(1), rotated 2])
      fix q assume "?code1 ! q \<noteq> fs_code fs ! q"
      then have "q = ?last" by (metis nth_list_update_neq)
      with l w show "wf_instr (?code1 ! q)" by simp
    qed simp
    moreover have "fs1 = fs\<lparr>fs_code := ?code1, fs_jpc := fs_jpc fs\<rparr>" "out = Inr from'"
      using assms(7) m(3) by (simp_all add: run_def)
    ultimately show ?thesis by simp
  next
    case False
    then have e: "luaK_nil fs from' n = bindC (luaK_codeABC fs OP_LOADNIL from' (n - 1) 0) (\<lambda>(_, fs1). Inr fs1)"
      unfolding luaK_nil_def Let_def by (auto split: if_splits)
    have w: "wf_instr (CREATE_ABC OP_LOADNIL from' (n - 1) 0)"
      by (rule wf_instr_ABC) (use assms(3-5) in \<open>simp add: wf_args_def\<close>)
    obtain out2 fs2 where r: "run fs (luaK_code fs (CREATE_ABC OP_LOADNIL from' (n - 1) 0)) = (out2, fs2)" by fastforce
    from inv_emitted [OF assms(1,2) w r [symmetric]] have i: "code_inv fs2 \<and> \<not> isl out2" .
    with r obtain p where "luaK_code fs (CREATE_ABC OP_LOADNIL from' (n - 1) 0) = Inr (p, fs2)"
      by (auto simp: run_def split: sum.splits)
    with assms(7) e i show ?thesis by (simp add: run_def luaK_codeABC_def)
  qed
qed

interpretation codegen: machine code_step code_inv "\<lambda>fs out. \<not> isl out"
proof -
  have step: "code_inv fs1 \<and> \<not> isl out" if "code_step fs out fs1" "code_inv fs" for fs out fs1
    using that
  proof (cases rule: code_step.cases)
    case (emit_ABC op a b c)
    then show ?thesis
      using that inv_emitted [of fs "CREATE_ABC op a b c"] wf_instr_ABC by (simp add: luaK_codeABC_def del: maxargs)
  next
    case (emit_ABx op a bc)
    then show ?thesis
      using that inv_emitted [of fs "CREATE_ABx op a bc"] wf_instr_ABx by (simp add: luaK_codeABx_def del: maxargs)
  next
    case emit_jump
    from that(2) obtain ps where ps: "jlist (fs_code fs) (fs_jpc fs) ps" by (auto simp: code_inv_def)
    from jump_list [OF ps emit_jump(1)] obtain code1 where c: "luaK_jump fs = Inr (fs_pc fs, fs\<lparr>fs_code := code1,
       fs_lineinfo := fs_lineinfo fs @ [fs_lastline fs], fs_jpc := NO_JUMP\<rparr>)"
      "jlist code1 (fs_pc fs) (length (fs_code fs) # ps)" "length code1 = Suc (length (fs_code fs))"
      "take (length (fs_code fs)) code1 = fs_code fs" by blast
    have "wf_instr (code1 ! q)" if "q < length code1" for q
    proof (cases "q = length (fs_code fs)")
      case True
      then show ?thesis using c(2) by (intro wf_jump) (simp add: jump_at_def)
    next
      case False
      with that c(3,4) have "code1 ! q = fs_code fs ! q" "q < length (fs_code fs)"
        by (simp_all, metis less_SucE nth_take)
      then show ?thesis using \<open>code_inv fs\<close> by (simp add: code_inv_def)
    qed
    with c emit_jump(2) that(2) show ?thesis
      by (auto simp: run_def code_inv_def intro: exI [of _ "[]"])
  next
    case (join l1 ps l2 qs rs)
    from join(1) have "small fs" by (simp add: small_def)
    from concat_lists [OF join(2,3,5) this] obtain l code1 where c:
      "luaK_concat fs l1 l2 = Inr (l, fs\<lparr>fs_code := code1\<rparr>)" "length code1 = length (fs_code fs)"
      "\<forall>q. code1 ! q \<noteq> fs_code fs ! q \<longrightarrow>
        q \<in> set ps \<and> jump_at (fs_code fs) q \<and> (\<exists>b. code1 ! q = SETARG_sBx (fs_code fs ! q) b)" by blast
    have "jlist code1 (fs_jpc fs) rs" using jlist_unchanged [OF join(4) c(2)] c(3) join(6) by blast
    then have "code_inv (fs\<lparr>fs_code := code1, fs_jpc := fs_jpc fs\<rparr>)"
      by (rule inv_changed [OF that(2) c(2), rotated]) (use c(3) wf_sBx in metis)
    with c(1) join(7) show ?thesis by (simp add: run_def)
  next
    case (patch l ps rs target)
    from patch(1) have sm: "small fs" by (simp add: small_def)
    show ?thesis
    proof (cases "target = fs_pc fs")
      case False
      have p: "luaK_patchlist fs l target = Inr (fs\<lparr>fs_code := patched (fs_code fs) ps target NO_REG target\<rparr>)"
        using patch_list [OF patch(2) sm, of target target NO_REG] patch(5,6) False by (simp add: luaK_patchlist_def)
      have "code_inv (fs\<lparr>fs_code := patched (fs_code fs) ps target NO_REG target, fs_jpc := fs_jpc fs\<rparr>)"
        by (rule inv_changed [OF that(2) _ _ patched_frame [OF patch(2,3,4)]])
          (use that(2) wf_patched [OF patch(2)] in \<open>simp_all add: code_inv_def\<close>)
      with p patch(7) show ?thesis by (simp add: run_def)
    next
      case True
      from patch(4) have "set rs \<inter> set ps = {}" by blast
      from patchtohere_list [OF patch(3,2) this sm] obtain l1 code1 where c:
        "luaK_patchtohere fs l = Inr (fs\<lparr>fs_code := code1, fs_lasttarget := fs_pc fs, fs_jpc := l1\<rparr>)"
        "jlist code1 l1 (rs @ ps)" "length code1 = length (fs_code fs)"
        "\<forall>q. code1 ! q \<noteq> fs_code fs ! q \<longrightarrow>
          q \<in> set rs \<and> jump_at (fs_code fs) q \<and> (\<exists>b. code1 ! q = SETARG_sBx (fs_code fs ! q) b)" by blast
      have "code_inv (fs\<lparr>fs_code := code1, fs_jpc := l1\<rparr>)"
        by (rule inv_changed [OF that(2) c(3) _ c(2)]) (use c(4) wf_sBx in metis)
      with c(1) patch(7) True show ?thesis by (simp add: run_def luaK_patchlist_def code_inv_def)
    qed
  next
    case (nils from' n)
    then show ?thesis using that inv_nil [of fs from' n out fs1] by blast
  qed
  show "machine code_step code_inv (\<lambda>fs out. \<not> isl out)"
    by unfold_locales (use step in blast)+
qed

section \<open>Properties\<close>

text \<open>The state \<open>open_func\<close> starts with.\<close>

definition code_start :: "int \<Rightarrow> FuncState" where
  "code_start line = \<lparr>fs_code = [], fs_lineinfo = [], fs_lasttarget = 0, fs_jpc = NO_JUMP, fs_freereg = 0,
     fs_nactvar = 0, fs_maxstacksize = 2, fs_lastline = line\<rparr>"

lemma code_start_inv: "code_inv (code_start line)"
  by (auto simp: code_inv_def code_start_def intro: exI [of _ "[]"])

text \<open>C17: whatever sequence of emissions, joins and patches built it (in a function of fewer than
  \<open>MAXARG_sBx\<close> instructions), the code consists of well-formed instructions with a line each, the
  pending jumps form a list, and the next operation succeeds.\<close>

theorem code_stays_well_formed:
  assumes "reaches code_step (code_start line) fs"
  shows "(\<forall>i \<in> set (fs_code fs). wf_instr i) \<and> length (fs_lineinfo fs) = length (fs_code fs) \<and>
     (\<exists>ps. jlist (fs_code fs) (fs_jpc fs) ps) \<and> (\<forall>out fs1. code_step fs out fs1 \<longrightarrow> \<not> isl out)"
proof -
  have "code_inv fs" using codegen.inv_reached [OF assms code_start_inv] .
  moreover have "\<not> isl out" if "code_step fs out fs1" for out fs1
    using codegen.good_reached [OF assms code_start_inv that] .
  ultimately show ?thesis by (auto simp: code_inv_def in_set_conv_nth)
qed

theorem code_stays_well_formed_witness:
  "\<exists>fs. reaches code_step (code_start 1) fs \<and> fs_code fs = [CREATE_ABC OP_RETURN 0 1 0] \<and> wf_instr (CREATE_ABC OP_RETURN 0 1 0)"
proof -
  let ?fs = "(code_start 1)\<lparr>fs_code := [CREATE_ABC OP_RETURN 0 1 0], fs_lineinfo := [1]\<rparr>"
  have modes: "getOpMode OP_RETURN = iABC" "getBMode OP_RETURN = OpArgU"
    by (simp_all add: getOpMode_def getBMode_def op_props_def luaP_opmodes_def opmode_def arg_num_def mode_num_def)
  have none: "jlist (fs_code (code_start 1)) (fs_jpc (code_start 1)) []" by (simp add: code_start_def)
  have "code_step (code_start 1) (Inr 0) ?fs"
    by (rule code_step.emit_ABC [where op = OP_RETURN and a = 0 and b = 1 and c = 0])
      (use code_list [OF none, of "CREATE_ABC OP_RETURN 0 1 0"] in
        \<open>simp_all add: wf_args_def modes run_def luaK_codeABC_def small_def code_start_def fs_pc_def\<close>)
  then have r: "reaches code_step (code_start 1) ?fs"
    by (rule reaches_step [where step = code_step, OF reaches_refl])
  from code_stays_well_formed [OF r] r show ?thesis by (intro exI [of _ ?fs]) simp
qed

text \<open>C18: joining two jump lists appends one to the other, and no other list changes.\<close>

theorem joining_appends:
  assumes "jlist (fs_code fs) l1 ps" "jlist (fs_code fs) l2 qs" "set ps \<inter> set qs = {}"
    and "int (length (fs_code fs)) \<le> MAXARG_sBx"
  shows "\<exists>l fs1. luaK_concat fs l1 l2 = Inr (l, fs1) \<and> jlist (fs_code fs1) l (ps @ qs) \<and>
     (\<forall>r rs. jlist (fs_code fs) r rs \<and> set rs \<inter> set ps = {} \<longrightarrow> jlist (fs_code fs1) r rs)"
proof -
  from assms(4) have "small fs" by (simp add: small_def)
  from concat_lists [OF assms(1-3) this] obtain l code1 where c:
    "luaK_concat fs l1 l2 = Inr (l, fs\<lparr>fs_code := code1\<rparr>)" "jlist code1 l (ps @ qs)"
    "length code1 = length (fs_code fs)" "\<forall>q. code1 ! q \<noteq> fs_code fs ! q \<longrightarrow> q \<in> set ps" by blast
  have "jlist code1 r rs" if "jlist (fs_code fs) r rs" "set rs \<inter> set ps = {}" for r rs
    by (rule jlist_unchanged [OF that(1) c(3)]) (use c(4) that(2) in blast)
  with c(1,2) show ?thesis by auto
qed

theorem joining_appends_witness:
  "\<exists>l fs1. luaK_concat ((code_start 1)\<lparr>fs_code := [CREATE_ABx OP_JMP 0 131070, CREATE_ABx OP_JMP 0 131070]\<rparr>) 0 1 = Inr (l, fs1) \<and>
     jlist (fs_code fs1) l [0, 1]"
proof -
  let ?j = "CREATE_ABx OP_JMP 0 131070"
  let ?fs = "(code_start 1)\<lparr>fs_code := [?j, ?j]\<rparr>"
  have j: "GET_OPCODE ?j = Some OP_JMP" "GETARG_sBx ?j = NO_JUMP"
    using create_ABx_args [of 0 131070 OP_JMP] by (simp_all add: NO_JUMP_def GETARG_sBx_def)
  have l: "jlist (fs_code ?fs) 0 [0]" "jlist (fs_code ?fs) 1 [1]"
    using j by (simp_all add: jump_at_def getjump_def)
  have "set [0] \<inter> set [1 :: nat] = {}" "int (length (fs_code ?fs)) \<le> MAXARG_sBx" by simp_all
  from joining_appends [OF l this] show ?thesis by auto
qed

text \<open>C19: once the next instruction is emitted, every jump patched to "here" and every jump that was pending
  goes to that instruction; nothing is pending any more and all other jumps go where they went.\<close>

theorem jumps_land_here:
  assumes "jlist (fs_code fs) (fs_jpc fs) ps" "jlist (fs_code fs) l qs" "set ps \<inter> set qs = {}"
    and "int (length (fs_code fs)) \<le> MAXARG_sBx"
  shows "\<exists>fs1 fs2. luaK_patchtohere fs l = Inr fs1 \<and> luaK_codeABC fs1 op a b c = Inr (fs_pc fs, fs2) \<and>
     fs_code fs2 ! nat (fs_pc fs) = CREATE_ABC op a b c \<and> fs_jpc fs2 = NO_JUMP \<and>
     (\<forall>p \<in> set ps \<union> set qs. dest (fs_code fs2) p = fs_pc fs) \<and>
     (\<forall>p. jump_at (fs_code fs) p \<and> p \<notin> set ps \<union> set qs \<longrightarrow> dest (fs_code fs2) p = dest (fs_code fs) p)"
proof -
  from assms(4) have sm: "small fs" by (simp add: small_def)
  from patchtohere_list [OF assms(1-3) sm] obtain l1 code1 where c:
    "luaK_patchtohere fs l = Inr (fs\<lparr>fs_code := code1, fs_lasttarget := fs_pc fs, fs_jpc := l1\<rparr>)"
    "jlist code1 l1 (ps @ qs)" "length code1 = length (fs_code fs)"
    "\<forall>q. code1 ! q \<noteq> fs_code fs ! q \<longrightarrow>
        q \<in> set ps \<and> jump_at (fs_code fs) q \<and> (\<exists>b. code1 ! q = SETARG_sBx (fs_code fs ! q) b)" by blast
  let ?fs1 = "fs\<lparr>fs_code := code1, fs_lasttarget := fs_pc fs, fs_jpc := l1\<rparr>"
  let ?i = "CREATE_ABC op a b c"
  let ?code2 = "patched code1 (ps @ qs) (fs_pc fs) NO_REG (fs_pc fs)"
  have pc: "fs_pc ?fs1 = fs_pc fs" and sm1: "small ?fs1" using c(3) sm by (simp_all add: fs_pc_def small_def)
  have j1: "jlist (fs_code ?fs1) (fs_jpc ?fs1) (ps @ qs)" using c(2) by simp
  from code_list [OF j1 sm1, of ?i] have e: "luaK_codeABC ?fs1 op a b c = Inr (fs_pc fs,
     ?fs1\<lparr>fs_code := ?code2 @ [?i], fs_lineinfo := fs_lineinfo fs @ [fs_lastline fs], fs_jpc := NO_JUMP\<rparr>)"
    unfolding pc luaK_codeABC_def by simp
  have app: "dest (?code2 @ [?i]) p = dest ?code2 p" if "p < length (fs_code fs)" for p
    using that c(3) by (simp add: dest_def nth_append)
  have land: "dest (?code2 @ [?i]) p = fs_pc fs" if "p \<in> set ps \<union> set qs" for p
  proof -
    have "p < length (fs_code fs)" using jlist_jump_at [OF c(2), of p] that c(3) by (auto simp: jump_at_def)
    moreover have "dest ?code2 p = fs_pc fs"
      using patched_dest [OF j1 sm1, of "fs_pc fs" p NO_REG] that pc by (simp add: fs_pc_def)
    ultimately show ?thesis by (simp add: app)
  qed
  have same: "dest (?code2 @ [?i]) p = dest (fs_code fs) p"
    if j: "jump_at (fs_code fs) p" "p \<notin> set ps \<union> set qs" for p
  proof -
    have p: "p < length (fs_code fs)" "code1 ! p = fs_code fs ! p" using j c(4) by (auto simp: jump_at_def)
    then have "?code2 ! p = fs_code fs ! p"
      using j c(3) by (auto simp: nth_patched patch_instr_def valued_def jump_at_def)
    with p(1) show ?thesis by (simp add: app) (simp add: dest_def)
  qed
  have "(?code2 @ [?i]) ! nat (fs_pc fs) = ?i" using c(3) by (simp add: fs_pc_def nth_append)
  with c(1) e land same show ?thesis by auto
qed

theorem jumps_land_here_witness:
  "\<exists>fs1 fs2. luaK_patchtohere ((code_start 1)\<lparr>fs_code := [CREATE_ABx OP_JMP 0 131070, CREATE_ABC OP_RETURN 0 1 0]\<rparr>) 0 = Inr fs1 \<and>
     luaK_codeABC fs1 OP_RETURN 0 1 0 = Inr (2, fs2) \<and> dest (fs_code fs2) 0 = 2"
proof -
  let ?j = "CREATE_ABx OP_JMP 0 131070"
  let ?fs = "(code_start 1)\<lparr>fs_code := [?j, CREATE_ABC OP_RETURN 0 1 0]\<rparr>"
  have j: "GET_OPCODE ?j = Some OP_JMP" "GETARG_sBx ?j = NO_JUMP"
    using create_ABx_args [of 0 131070 OP_JMP] by (simp_all add: NO_JUMP_def GETARG_sBx_def)
  have l: "jlist (fs_code ?fs) (fs_jpc ?fs) []" "jlist (fs_code ?fs) 0 [0]"
    using j by (simp_all add: jump_at_def getjump_def code_start_def)
  have "set [] \<inter> set [0 :: nat] = {}" "int (length (fs_code ?fs)) \<le> MAXARG_sBx" "fs_pc ?fs = 2" by (simp_all add: fs_pc_def)
  from jumps_land_here [OF l this(1,2), of OP_RETURN 0 1 0] this(3) show ?thesis by auto
qed

end
