(* ===== verification/LuaArith.thy ===== *)
theory LuaArith
  imports Prelude "HOL-Library.Signed_Division"
begin

text \<open>
  Integers of the embedded interpreter (\<open>lobject.c\<close>, \<open>lvm.c\<close>, \<open>lctype.c\<close> under
  \<open>lua/lua-5.3.1/src\<close>): the arithmetic of 64-bit integers, the compact sizes of table
  constructors, logarithms, and the conversion of numerals. A \<open>lua_Integer\<close> is a 64-bit word read
  with \<open>sint\<close>, a \<open>lua_Unsigned\<close> the same word read with \<open>unat\<close>.
\<close>

section \<open>Character classes\<close>

text \<open>The table \<open>luai_ctype_\<close> as its runs of equal entries; entry 0 is for the end of the stream.\<close>

definition luai_ctype :: "u8 list" where
  "luai_ctype =
    replicate 10 0x00 @ replicate 5 0x08 @ replicate 18 0x00 @ replicate 1 0x0C @
    replicate 15 0x04 @ replicate 10 0x16 @ replicate 7 0x04 @ replicate 6 0x15 @
    replicate 20 0x05 @ replicate 4 0x04 @ replicate 1 0x05 @ replicate 1 0x04 @ replicate 6 0x15 @
    replicate 20 0x05 @ replicate 4 0x04 @ replicate 129 0x00"

definition testprop :: "char \<Rightarrow> nat \<Rightarrow> bool" where
  "testprop c b \<longleftrightarrow> bit (luai_ctype ! (of_char c + 1)) b"

definition lislalpha :: "char \<Rightarrow> bool" where "lislalpha c \<longleftrightarrow> testprop c 0"
definition lislalnum :: "char \<Rightarrow> bool" where "lislalnum c \<longleftrightarrow> testprop c 0 \<or> testprop c 1"
definition lisdigit :: "char \<Rightarrow> bool" where "lisdigit c \<longleftrightarrow> testprop c 1"
definition lisprint :: "char \<Rightarrow> bool" where "lisprint c \<longleftrightarrow> testprop c 2"
definition lisspace :: "char \<Rightarrow> bool" where "lisspace c \<longleftrightarrow> testprop c 3"
definition lisxdigit :: "char \<Rightarrow> bool" where "lisxdigit c \<longleftrightarrow> testprop c 4"

definition ltolower :: "nat \<Rightarrow> nat" where "ltolower c = c OR 32"

definition luaO_hexavalue :: "char \<Rightarrow> int" where
  "luaO_hexavalue c =
     (if lisdigit c then of_char c - 48 else int (ltolower (of_char c)) - 97 + 10)"

section \<open>Integer arithmetic\<close>

text \<open>The two errors: \<open>attempt to divide by zero\<close> and \<open>attempt to perform n%0\<close>.\<close>

datatype arith_error = DivideByZero | ModuloByZero

definition luaV_div :: "u64 \<Rightarrow> u64 \<Rightarrow> arith_error + u64" where
  "luaV_div m n =
     (if n + 1 \<le> 1 then
        if n = 0 then Inl DivideByZero else Inr (0 - m)
      else
        let q = word_of_int (sint m sdiv sint n)
        in Inr (if sint (m XOR n) < 0 \<and> sint m smod sint n \<noteq> 0 then q - 1 else q))"

definition luaV_mod :: "u64 \<Rightarrow> u64 \<Rightarrow> arith_error + u64" where
  "luaV_mod m n =
     (if n + 1 \<le> 1 then
        if n = 0 then Inl ModuloByZero else Inr 0
      else
        let r = word_of_int (sint m smod sint n)
        in Inr (if r \<noteq> 0 \<and> sint (m XOR n) < 0 then r + n else r))"

definition NBITS :: int where "NBITS = 64"

definition luaV_shiftl :: "u64 \<Rightarrow> u64 \<Rightarrow> u64" where
  "luaV_shiftl x y =
     (if sint y < 0 then if sint y \<le> - NBITS then 0 else drop_bit (nat (- sint y)) x
      else if sint y \<ge> NBITS then 0 else push_bit (nat (sint y)) x)"

datatype arith_op = LUA_OPADD | LUA_OPSUB | LUA_OPMUL | LUA_OPMOD | LUA_OPPOW | LUA_OPDIV | LUA_OPIDIV
  | LUA_OPBAND | LUA_OPBOR | LUA_OPBXOR | LUA_OPSHL | LUA_OPSHR | LUA_OPUNM | LUA_OPBNOT

definition intarith :: "arith_op \<Rightarrow> u64 \<Rightarrow> u64 \<Rightarrow> arith_error + u64" where
  "intarith op v1 v2 =
     (case op of
        LUA_OPADD \<Rightarrow> Inr (v1 + v2)
      | LUA_OPSUB \<Rightarrow> Inr (v1 - v2)
      | LUA_OPMUL \<Rightarrow> Inr (v1 * v2)
      | LUA_OPMOD \<Rightarrow> luaV_mod v1 v2
      | LUA_OPIDIV \<Rightarrow> luaV_div v1 v2
      | LUA_OPBAND \<Rightarrow> Inr (v1 AND v2)
      | LUA_OPBOR \<Rightarrow> Inr (v1 OR v2)
      | LUA_OPBXOR \<Rightarrow> Inr (v1 XOR v2)
      | LUA_OPSHL \<Rightarrow> Inr (luaV_shiftl v1 v2)
      | LUA_OPSHR \<Rightarrow> Inr (luaV_shiftl v1 (- v2))
      | LUA_OPUNM \<Rightarrow> Inr (0 - v1)
      | LUA_OPBNOT \<Rightarrow> Inr (NOT 0 XOR v1)
      | _ \<Rightarrow> Inr 0)"

section \<open>Compact sizes, logarithms\<close>

lemma unat_add_le: "unat (x + y) \<le> unat x + unat y" for x y :: u32
  by (simp add: unat_word_ariths)

text \<open>\<open>luaO_int2fb\<close>: rounds a size up to four significant bits and an exponent.\<close>

function fb_coarse :: "u32 \<Rightarrow> nat \<Rightarrow> u32 \<times> nat" where
  "fb_coarse x e = (if x \<ge> 128 then fb_coarse (drop_bit 4 (x + 0xF)) (e + 4) else (x, e))"
  by pat_completeness auto
termination
proof (relation "measure (\<lambda>(x, e). unat x)", goal_cases)
  case (2 x e)
  then have "128 \<le> unat x" by (simp add: word_le_nat_alt)
  moreover have "unat (drop_bit 4 (x + 0xF)) \<le> (unat x + 15) div 16"
    using unat_add_le [of x "0xF"] by (simp only: unat_drop_bit) (simp add: div_le_mono)
  ultimately show ?case by simp
qed simp

function fb_fine :: "u32 \<Rightarrow> nat \<Rightarrow> u32 \<times> nat" where
  "fb_fine x e = (if x \<ge> 16 then fb_fine (drop_bit 1 (x + 1)) (e + 1) else (x, e))"
  by pat_completeness auto
termination
proof (relation "measure (\<lambda>(x, e). unat x)", goal_cases)
  case (2 x e)
  then have "16 \<le> unat x" by (simp add: word_le_nat_alt)
  moreover have "unat (drop_bit 1 (x + 1)) \<le> (unat x + 1) div 2"
    using unat_add_le [of x 1] by (simp only: unat_drop_bit) (simp add: div_le_mono)
  ultimately show ?case by simp
qed simp

declare fb_coarse.simps [simp del] fb_fine.simps [simp del]

definition luaO_int2fb :: "u32 \<Rightarrow> int" where
  "luaO_int2fb x =
     (if x < 8 then uint x
      else (case (case fb_coarse x 0 of (x1, e1) \<Rightarrow> fb_fine x1 e1) of
              (x2, e) \<Rightarrow> push_bit 3 (int e + 1) OR (uint x2 - 8)))"

definition luaO_fb2int :: "int \<Rightarrow> int" where
  "luaO_fb2int x =
     (let e = drop_bit 3 x AND 0x1F in if e = 0 then x else push_bit (nat (e - 1)) ((x AND 7) + 8))"

text \<open>The table \<open>log_2\<close> as its runs of equal entries.\<close>

definition log_2 :: "nat list" where
  "log_2 = replicate 1 0 @ replicate 1 1 @ replicate 2 2 @ replicate 4 3 @ replicate 8 4 @ replicate 16 5 @ replicate 32 6 @ replicate 64 7 @ replicate 128 8"

function ceillog2_loop :: "u32 \<Rightarrow> nat \<Rightarrow> u32 \<times> nat" where
  "ceillog2_loop x l = (if x \<ge> 256 then ceillog2_loop (drop_bit 8 x) (l + 8) else (x, l))"
  by pat_completeness auto
termination
proof (relation "measure (\<lambda>(x, e). unat x)", goal_cases)
  case (2 x e)
  then have "256 \<le> unat x" by (simp add: word_le_nat_alt)
  then show ?case by (simp add: unat_drop_bit)
qed simp

declare ceillog2_loop.simps [simp del]

definition luaO_ceillog2 :: "u32 \<Rightarrow> nat" where
  "luaO_ceillog2 x = (case ceillog2_loop (x - 1) 0 of (x1, l) \<Rightarrow> l + log_2 ! unat x1)"

section \<open>Numerals\<close>

text \<open>A C string is a list of characters that ends at the list's end or at its first \<open>NUL\<close>.\<close>

definition peek :: "string \<Rightarrow> char" where
  "peek s = (case s of [] \<Rightarrow> CHR 0x00 | c # _ \<Rightarrow> c)"

fun skip_while :: "(char \<Rightarrow> bool) \<Rightarrow> string \<Rightarrow> string" where
  "skip_while P [] = []"
| "skip_while P (c # s) = (if P c then skip_while P s else c # s)"

definition isneg :: "string \<Rightarrow> bool \<times> string" where
  "isneg s = (if peek s = CHR ''-'' then (True, tl s) else if peek s = CHR ''+'' then (False, tl s) else (False, s))"

fun hex_digits :: "string \<Rightarrow> u64 \<Rightarrow> bool \<Rightarrow> u64 \<times> bool \<times> string" where
  "hex_digits [] a e = (a, e, [])"
| "hex_digits (c # s) a e =
     (if lisxdigit c then hex_digits s (a * 16 + word_of_int (luaO_hexavalue c)) False else (a, e, c # s))"

fun dec_digits :: "string \<Rightarrow> u64 \<Rightarrow> bool \<Rightarrow> u64 \<times> bool \<times> string" where
  "dec_digits [] a e = (a, e, [])"
| "dec_digits (c # s) a e =
     (if lisdigit c then dec_digits s (a * 10 + of_nat (of_char c) - 48) False else (a, e, c # s))"

text \<open>\<open>l_str2int\<close>: the integer and what follows the numeral, \<open>None\<close> for \<open>NULL\<close>.\<close>

definition l_str2int :: "string \<Rightarrow> (u64 \<times> string) option" where
  "l_str2int s =
     (case isneg (skip_while lisspace s) of
        (neg, s1) \<Rightarrow>
          (case (if peek s1 = CHR ''0'' \<and> (peek (tl s1) = CHR ''x'' \<or> peek (tl s1) = CHR ''X'')
                 then hex_digits (drop 2 s1) 0 True else dec_digits s1 0 True) of
             (a, none, s2) \<Rightarrow>
               (let s3 = skip_while lisspace s2
                in if none \<or> peek s3 \<noteq> CHR 0x00 then None else Some (if neg then 0 - a else a, s3))))"

section \<open>Division\<close>

lemma sint_neg_bit: "sint w < 0 \<longleftrightarrow> bit w 63" for w :: u64
  using bit_last_iff [of w] by simp

lemma xor_neg: "sint (m XOR n) < 0 \<longleftrightarrow> (sint m < 0) \<noteq> (sint n < 0)" for m n :: u64
  by (auto simp: sint_neg_bit bit_simps)

lemma floor_of_trunc:
  fixes a b :: int
  assumes "b \<noteq> 0"
  defines "fix' \<equiv> (a < 0) \<noteq> (b < 0) \<and> a smod b \<noteq> 0"
  shows "a div b = (if fix' then a sdiv b - 1 else a sdiv b)"
    and "a mod b = (if fix' then a smod b + b else a smod b)"
proof -
  have "a smod b = 0 \<longleftrightarrow> b dvd a"
    by (auto simp: signed_modulo_int_def mod_eq_0_iff_dvd sgn_0_0)
  moreover have "\<not> b dvd a \<Longrightarrow> a \<noteq> 0" by auto
  ultimately show "a div b = (if fix' then a sdiv b - 1 else a sdiv b)"
    and "a mod b = (if fix' then a smod b + b else a smod b)"
    using assms(1) unfolding fix'_def divide_int_eq_signed_divide_int modulo_int_eq_signed_modulo_int
    by (auto simp: sgn_if split: if_splits)
qed

lemma special_divisors: "n + 1 \<le> 1 \<longleftrightarrow> n = 0 \<or> n = - 1" for n :: u64
proof -
  have "x \<le> 1 \<longleftrightarrow> x = 0 \<or> x = 1" for x :: u64
    by (auto simp: word_le_nat_alt le_Suc_eq word_unat_eq_iff)
  then have "n + 1 \<le> 1 \<longleftrightarrow> n + 1 = 0 \<or> n + 1 = 1" .
  also have "n + 1 = 0 \<longleftrightarrow> n = - 1" by (simp add: eq_neg_iff_add_eq_0)
  finally show ?thesis by auto
qed

lemma sint_word_of_int_sint: "- (2 ^ 63) \<le> i \<Longrightarrow> i < 2 ^ 63 \<Longrightarrow> sint (word_of_int i :: u64) = i"
  by (simp add: signed_of_int signed_take_bit_int_eq_self)

lemma sint_bounds: "- (2 ^ 63) \<le> sint w" "sint w < 2 ^ 63" for w :: u64
  using sint_greater_eq [of w] sint_lt [of w] by simp_all

lemma quotient_range:
  fixes a b :: int
  assumes "b \<noteq> 0" "b \<noteq> - 1" "- (2 ^ 63) \<le> a" "a < 2 ^ 63"
  shows "- (2 ^ 63) \<le> a div b \<and> a div b < 2 ^ 63"
proof -
  have pos: "c \<le> c div d \<and> c div d \<le> 0" if "c < 0" "0 < d" for c d :: int
    using zdiv_mono2_neg [of c 1 d] that by (simp add: div_neg_pos_less0 order_less_imp_le)
  have nonneg: "0 \<le> c div d \<and> c div d \<le> c div e" if "0 \<le> c" "0 < e" "e \<le> d" for c d e :: int
    using zdiv_mono2 [of c e d] that by (simp add: pos_imp_zdiv_nonneg_iff)
  consider "0 < b" "a < 0" | "0 < b" "0 \<le> a" | "b < 0" "- a < 0" | "b < 0" "0 \<le> - a" using assms(1) by linarith
  then show ?thesis
  proof cases
    case 1
    with pos [of a b] assms(3) show ?thesis by simp
  next
    case 2
    with nonneg [of a 1 b] assms(4) show ?thesis by simp
  next
    case 3
    with pos [of "- a" "- b"] assms(4) show ?thesis by simp
  next
    case 4
    have "- a div 2 \<le> 2 ^ 63 div 2" using assms(3) by (intro zdiv_mono1) simp_all
    with 4 nonneg [of "- a" 2 "- b"] assms(2) show ?thesis by simp
  qed
qed

text \<open>C20: integer division rounds to minus infinity and the remainder has the sign of the divisor, for every
  divisor but 0; the quotient is exact except for the least integer divided by \<open>-1\<close>, which wraps.\<close>

theorem integer_division_floors:
  assumes "n \<noteq> 0"
  shows "\<exists>q r. luaV_div m n = Inr q \<and> luaV_mod m n = Inr r \<and>
     q = word_of_int (sint m div sint n) \<and> sint r = sint m mod sint n \<and>
     m = q * n + r \<and> (sint n \<noteq> - 1 \<or> sint m \<noteq> - (2 ^ 63) \<longrightarrow> sint q = sint m div sint n)"
proof (cases "n = - 1")
  case True
  have q: "0 - m = word_of_int (- sint m)" by simp
  have "sint (0 - m) = - sint m" if "sint m \<noteq> - (2 ^ 63)"
    using that sint_bounds [of m] unfolding q by (intro sint_word_of_int_sint) simp_all
  then show ?thesis using True by (simp add: luaV_div_def luaV_mod_def special_divisors)
next
  case False
  have sn: "sint n \<noteq> 0" "sint n \<noteq> - 1"
    using assms False by (metis signed_0 sint_word_of_int_sint signed_word_eqI, metis False signed_minus_1 signed_word_eqI)
  let ?c = "(sint m < 0) \<noteq> (sint n < 0) \<and> sint m smod sint n \<noteq> 0"
  note fl = floor_of_trunc [OF sn(1), of "sint m"]
  let ?r = "word_of_int (sint m smod sint n) :: u64"
  have abs_less: "\<bar>sint m smod sint n\<bar> < \<bar>sint n\<bar>" "\<bar>sint m mod sint n\<bar> < \<bar>sint n\<bar>"
    using sn(1) by (simp_all add: signed_modulo_int_def abs_mult abs_mod_less)
  then have range: "- (2 ^ 63) \<le> sint m smod sint n" "sint m smod sint n < 2 ^ 63"
    "- (2 ^ 63) \<le> sint m mod sint n" "sint m mod sint n < 2 ^ 63"
    using sint_bounds [of n] by linarith+
  then have r0: "?r \<noteq> 0 \<longleftrightarrow> sint m smod sint n \<noteq> 0"
    using sint_word_of_int_sint [of "sint m smod sint n"] by (metis signed_0 of_int_0)
  let ?q = "word_of_int (sint m div sint n) :: u64" and ?rr = "word_of_int (sint m mod sint n) :: u64"
  have q: "luaV_div m n = Inr ?q"
    using assms False fl(1) by (simp add: luaV_div_def special_divisors xor_neg Let_def)
  have r: "luaV_mod m n = Inr ?rr"
    using assms False fl(2) r0 by (simp add: luaV_mod_def special_divisors xor_neg Let_def)
  have "sint m = sint m div sint n * sint n + sint m mod sint n" by simp
  from arg_cong [OF this, of "word_of_int :: int \<Rightarrow> u64"]
  have "m = word_of_int (sint m div sint n * sint n + sint m mod sint n)" unfolding of_int_sint scast_id .
  then have m: "m = ?q * n + ?rr" by (simp only: of_int_add of_int_mult of_int_sint scast_id)
  have "- (2 ^ 63) \<le> sint m div sint n \<and> sint m div sint n < 2 ^ 63"
    using quotient_range [OF sn sint_bounds [of m]] .
  then have "sint ?q = sint m div sint n" by (simp add: sint_word_of_int_sint)
  with q r m range(3,4) show ?thesis by (simp add: sint_word_of_int_sint)
qed

theorem integer_division_floors_witness:
  "luaV_div (- 7) 2 = Inr (- 4) \<and> luaV_mod (- 7) 2 = Inr (word_of_int 1)"
proof -
  obtain q r where "luaV_div (- 7) 2 = Inr q" "luaV_mod (- 7) 2 = Inr r" "q = word_of_int (sint (- 7 :: u64) div sint (2 :: u64))"
    "sint r = sint (- 7 :: u64) mod sint (2 :: u64)"
    using integer_division_floors [of 2 "- 7"] by auto
  moreover from this(4) have "r = word_of_int 1" by (intro signed_word_eqI) simp
  ultimately show ?thesis by simp
qed

section \<open>Compact sizes\<close>

text \<open>The rounding loops divide and round up.\<close>

lemma unat_add_small: "unat x + unat y < 2 ^ 32 \<Longrightarrow> unat (x + y) = unat x + unat y" for x y :: u32
  by (simp add: unat_word_ariths)

definition ceil_by :: "nat \<Rightarrow> nat \<Rightarrow> nat \<Rightarrow> bool" where
  "ceil_by k x y \<longleftrightarrow> x \<le> y * 2 ^ k \<and> (y - 1) * 2 ^ k < x"

lemma ceil_by_trans: "ceil_by j x x1 \<Longrightarrow> ceil_by k x1 y \<Longrightarrow> ceil_by (k + j) x y"
proof -
  let ?d = "(2 :: nat) ^ j"
  assume a: "ceil_by j x x1" "ceil_by k x1 y"
  then have "x1 * ?d \<le> y * 2 ^ k * ?d" unfolding ceil_by_def by (intro mult_le_mono1) simp
  moreover have "(y - 1) * 2 ^ k \<le> x1 - 1" using a unfolding ceil_by_def by linarith
  then have "(y - 1) * 2 ^ k * ?d \<le> (x1 - 1) * ?d" by (rule mult_le_mono1)
  ultimately show ?thesis using a unfolding ceil_by_def power_add mult.assoc by linarith
qed

lemma ceil_by_div:
  assumes "x1 = (x + 2 ^ j - 1) div 2 ^ j" "0 < x1"
  shows "ceil_by j x x1"
proof -
  let ?d = "(2 :: nat) ^ j"
  have "x + ?d - 1 < (x1 + 1) * ?d" unfolding assms(1)
    using dividend_less_div_times [of ?d "x + ?d - 1"] by (simp add: algebra_simps)
  moreover have "x1 * ?d \<le> x + ?d - 1" unfolding assms(1) by simp
  moreover have "x1 * ?d = (x1 - 1) * ?d + ?d" using assms(2) by (cases x1) simp_all
  moreover have "0 < ?d" by simp
  ultimately show ?thesis unfolding ceil_by_def add_mult_distrib by linarith
qed

lemma fb_coarse_ceil:
  "fb_coarse x e = (y, e1) \<Longrightarrow> unat x + 15 < 2 ^ 32 \<Longrightarrow> 8 \<le> unat x \<Longrightarrow>
   e \<le> e1 \<and> 8 \<le> unat y \<and> unat y < 128 \<and> ceil_by (e1 - e) (unat x) (unat y)"
proof (induction x e rule: fb_coarse.induct)
  case (1 x e)
  show ?case
  proof (cases "x \<ge> 128")
    case False
    with 1 show ?thesis by (subst (asm) (2) fb_coarse.simps) (auto simp: word_le_nat_alt ceil_by_def)
  next
    case True
    let ?x1 = "drop_bit 4 (x + 0xF)"
    from True have big: "128 \<le> unat x" by (simp add: word_le_nat_alt)
    have x1: "unat ?x1 = (unat x + 2 ^ 4 - 1) div 2 ^ 4"
      using 1(3) by (simp only: unat_drop_bit unat_add_small) (simp add: unat_add_small)
    then have b: "unat ?x1 + 15 < 2 ^ 32" "8 \<le> unat ?x1" using big 1(3) by simp_all
    from 1(2) True have "fb_coarse ?x1 (e + 4) = (y, e1)" by (subst (asm) fb_coarse.simps) simp
    from 1(1) [OF True this b] have ih: "e + 4 \<le> e1 \<and> 8 \<le> unat y \<and> unat y < 128 \<and> ceil_by (e1 - (e + 4)) (unat ?x1) (unat y)" .
    then have "ceil_by (e1 - (e + 4) + 4) (unat x) (unat y)" using b(2) by (intro ceil_by_trans [OF ceil_by_div [OF x1]]) auto
    moreover have "e1 - (e + 4) + 4 = e1 - e" using ih by linarith
    ultimately show ?thesis using ih by simp
  qed
qed

lemma fb_fine_ceil:
  "fb_fine x e = (y, e1) \<Longrightarrow> unat x < 128 \<Longrightarrow> 8 \<le> unat x \<Longrightarrow>
   e \<le> e1 \<and> 8 \<le> unat y \<and> unat y < 16 \<and> ceil_by (e1 - e) (unat x) (unat y)"
proof (induction x e rule: fb_fine.induct)
  case (1 x e)
  show ?case
  proof (cases "x \<ge> 16")
    case False
    with 1 show ?thesis by (subst (asm) (2) fb_fine.simps) (auto simp: word_le_nat_alt ceil_by_def)
  next
    case True
    let ?x1 = "drop_bit 1 (x + 1)"
    from True have big: "16 \<le> unat x" by (simp add: word_le_nat_alt)
    have x1: "unat ?x1 = (unat x + 2 ^ 1 - 1) div 2 ^ 1"
      using 1(3) by (simp only: unat_drop_bit unat_add_small) (simp add: unat_add_small)
    then have b: "unat ?x1 < 128" "8 \<le> unat ?x1" using big 1(3) by simp_all
    from 1(2) True have "fb_fine ?x1 (e + 1) = (y, e1)" by (subst (asm) fb_fine.simps) simp
    from 1(1) [OF True this b] have ih: "e + 1 \<le> e1 \<and> 8 \<le> unat y \<and> unat y < 16 \<and> ceil_by (e1 - (e + 1)) (unat ?x1) (unat y)" .
    then have "ceil_by (e1 - (e + 1) + 1) (unat x) (unat y)" using b(2) by (intro ceil_by_trans [OF ceil_by_div [OF x1]]) auto
    moreover have "e1 - (e + 1) + 1 = e1 - e" using ih by linarith
    ultimately show ?thesis using ih by simp
  qed
qed


text \<open>the compact form of a table size fits into a byte and stands for a size that is not less and at
  most an eighth greater.\<close>

theorem int2fb_rounds_up:
  assumes "unat x \<le> 2 ^ 30"
  shows "int (unat x) \<le> luaO_fb2int (luaO_int2fb x) \<and>
     8 * (luaO_fb2int (luaO_int2fb x) - int (unat x)) \<le> luaO_fb2int (luaO_int2fb x) \<and>
     0 \<le> luaO_int2fb x \<and> luaO_int2fb x \<le> 255"
proof (cases "x < 8")
  case True
  then have x: "unat x < 8" by (simp add: word_less_nat_alt)
  then have "drop_bit 3 (uint x) = 0"  using True by (simp add: drop_bit_eq_div word_less_def)
  then have "luaO_fb2int (luaO_int2fb x) = uint x" using True by (simp add: luaO_fb2int_def luaO_int2fb_def)
  moreover have "uint x < 8" using True by (simp add: word_less_def)
  ultimately show ?thesis using True by (simp add: luaO_int2fb_def)
next
  case False
  then have x: "8 \<le> unat x" by (simp add: word_less_nat_alt)
  obtain x1 e1 where c: "fb_coarse x 0 = (x1, e1)" by fastforce
  with fb_coarse_ceil [OF c _ x] assms have c1: "8 \<le> unat x1" "unat x1 < 128" "ceil_by e1 (unat x) (unat x1)" by simp_all
  obtain x2 e where f: "fb_fine x1 e1 = (x2, e)" by fastforce
  with fb_fine_ceil [OF f] c1 have f1: "e1 \<le> e" "8 \<le> unat x2" "unat x2 < 16" "ceil_by (e - e1) (unat x1) (unat x2)" by simp_all
  have "e - e1 + e1 = e" using f1(1) by simp
  with ceil_by_trans [OF c1(3) f1(4)] have r: "unat x \<le> unat x2 * 2 ^ e" "(unat x2 - 1) * 2 ^ e < unat x"
    by (simp_all only: ceil_by_def)
  have seven: "7 * 2 ^ e \<le> (unat x2 - 1) * 2 ^ e" using f1(2) by (intro mult_le_mono1) simp
  have "(2 :: nat) ^ (e + 2) \<le> 7 * 2 ^ e" by (simp add: power_add)
  then have "(2 :: nat) ^ (e + 2) < 2 ^ 30" using r seven assms by linarith
  then have e: "e < 28" by (simp only: power_strict_increasing_iff)
  define b where "b = int (unat x2) - 8"
  have b: "0 \<le> b" "b < 8" unfolding b_def using f1 by linarith+
  have i: "luaO_int2fb x = push_bit 3 (int e + 1) OR b"
    using False c f by (simp add: luaO_int2fb_def b_def)
  have "drop_bit 3 (push_bit 3 (int e + 1) OR b) = int e + 1"
  proof -
    have "drop_bit 3 (push_bit 3 (int e + 1)) = int e + 1" "drop_bit 3 b = 0"
      using b by (simp_all add: drop_bit_eq_div push_bit_eq_mult)
    then show ?thesis by (simp only: drop_bit_or or.right_neutral)
  qed
  moreover have "(push_bit 3 (int e + 1) OR b) AND 7 = b"
  proof -
    have "(push_bit 3 (int e + 1) OR b) AND mask 3 = take_bit 3 b"
      by (simp only: take_bit_eq_mask [symmetric] take_bit_or take_bit_push_bit) simp
    then show ?thesis using b by (simp add: mask_eq_exp_minus_1 take_bit_int_eq_self)
  qed
  moreover have "(int e + 1) AND 0x1F = int e + 1"
  proof -
    have "(int e + 1) AND mask 5 = int e + 1"
      using e by (simp only: take_bit_eq_mask [symmetric]) (simp add: take_bit_int_eq_self)
    then show ?thesis by (simp add: mask_eq_exp_minus_1)
  qed
  ultimately have v: "luaO_fb2int (luaO_int2fb x) = int (unat x2) * 2 ^ e"
    by (simp add: luaO_fb2int_def i Let_def push_bit_eq_mult b_def)
  have "luaO_int2fb x < 2 ^ 8"
    unfolding i using b e by (intro OR_upper) (simp_all add: push_bit_eq_mult)
  moreover have "0 \<le> luaO_int2fb x" unfolding i using b by (simp add: push_bit_eq_mult)
  moreover have "int (unat x) \<le> int (unat x2) * 2 ^ e" using r(1) by (metis of_nat_le_iff of_nat_mult of_nat_numeral of_nat_power)
  moreover have "8 * (int (unat x2) * 2 ^ e - int (unat x)) \<le> int (unat x2) * 2 ^ e"
  proof -
    have "unat x2 * 2 ^ e = (unat x2 - 1) * 2 ^ e + 2 ^ e" using f1(2) by (cases "unat x2") simp_all
    with r seven have "8 * (unat x2 * 2 ^ e) \<le> unat x2 * 2 ^ e + 8 * unat x" by linarith
    then have "int (8 * (unat x2 * 2 ^ e)) \<le> int (unat x2 * 2 ^ e + 8 * unat x)" by (simp only: of_nat_le_iff)
    then show ?thesis by simp
  qed
  ultimately show ?thesis unfolding v by simp
qed

theorem int2fb_rounds_up_witness:
  "100 \<le> luaO_fb2int (luaO_int2fb 100) \<and> luaO_int2fb 100 \<le> 255"
  using int2fb_rounds_up [of 100] by simp

section \<open>Logarithms and numerals\<close>

lemma log_2_nth:
  assumes "k < 256"
  shows "k + 1 \<le> 2 ^ (log_2 ! k) \<and> (log_2 ! k \<noteq> 0 \<longrightarrow> 2 ^ (log_2 ! k - 1) < k + 1) \<and> (log_2 ! k = 0 \<longrightarrow> k = 0)"
proof -
  consider "k = 0" | "k = 1" | "2 \<le> k" "k < 4" | "4 \<le> k" "k < 8" | "8 \<le> k" "k < 16" | "16 \<le> k" "k < 32"
    | "32 \<le> k" "k < 64" | "64 \<le> k" "k < 128" | "128 \<le> k" "k < 256" using assms by linarith
  then show ?thesis
    by cases (simp_all add: log_2_def nth_append nth_Cons' less_diff_conv2 del: replicate.simps)
qed

lemma ceillog2_loop_div:
  "ceillog2_loop x l = (y, l1) \<Longrightarrow>
   l \<le> l1 \<and> unat y = unat x div 2 ^ (l1 - l) \<and> unat y < 256 \<and> (l < l1 \<longrightarrow> 0 < unat y)"
proof (induction x l rule: ceillog2_loop.induct)
  case (1 x l)
  show ?case
  proof (cases "x \<ge> 256")
    case False
    with 1 show ?thesis by (subst (asm) (2) ceillog2_loop.simps) (auto simp: word_le_nat_alt)
  next
    case True
    then have big: "256 \<le> unat x" by (simp add: word_le_nat_alt)
    from 1(2) True have "ceillog2_loop (drop_bit 8 x) (l + 8) = (y, l1)" by (subst (asm) ceillog2_loop.simps) simp
    from 1(1) [OF True this] have ih: "l + 8 \<le> l1" "unat y = unat x div 2 ^ 8 div 2 ^ (l1 - (l + 8))" "unat y < 256"
      "l + 8 < l1 \<longrightarrow> 0 < unat y" unfolding unat_drop_bit by blast+
    have "l1 - l = 8 + (l1 - (l + 8))" using ih(1) by simp
    then have "unat y = unat x div 2 ^ (l1 - l)" using ih(2) by (simp only: power_add div_mult2_eq)
    moreover have "0 < unat y" if "l1 = l + 8" using ih(2) that big by (simp add: div_greater_zero_iff)
    ultimately show ?thesis using ih by force
  qed
qed

text \<open>The logarithm is the least exponent whose power of two reaches the number.\<close>

theorem ceillog2_exact:
  assumes "x \<noteq> 0"
  shows "unat x \<le> 2 ^ luaO_ceillog2 x \<and> (luaO_ceillog2 x \<noteq> 0 \<longrightarrow> 2 ^ (luaO_ceillog2 x - 1) < unat x)"
proof -
  obtain y l where loop: "ceillog2_loop (x - 1) 0 = (y, l)" by fastforce
  let ?t = "log_2 ! unat y"
  have v: "luaO_ceillog2 x = l + ?t" by (simp add: luaO_ceillog2_def loop)
  have x: "unat (x - 1) + 1 = unat x" using assms by (simp add: unat_minus_one unat_eq_zero Suc_pred' unat_gt_0)
  note d = ceillog2_loop_div [OF loop]
  have lo: "unat y * 2 ^ l \<le> unat (x - 1)" and hi: "unat (x - 1) < (unat y + 1) * 2 ^ l"
    using d dividend_less_div_times [of "2 ^ l" "unat (x - 1)"] by (simp_all add: algebra_simps)
  from log_2_nth [of "unat y"] d have t: "unat y + 1 \<le> 2 ^ ?t" "?t \<noteq> 0 \<longrightarrow> 2 ^ (?t - 1) \<le> unat y"
    "?t = 0 \<longrightarrow> unat y = 0" by auto
  have "(unat y + 1) * 2 ^ l \<le> 2 ^ ?t * 2 ^ l" using t(1) by (rule mult_le_mono1)
  with hi x have "unat x \<le> 2 ^ (l + ?t)" by (simp add: power_add mult.commute)
  moreover have "2 ^ (l + ?t - 1) < unat x" if "l + ?t \<noteq> 0"
  proof (cases "?t = 0")
    case True
    with t(3) d that show ?thesis by auto
  next
    case False
    have "2 ^ (?t - 1) * 2 ^ l \<le> unat y * 2 ^ l" using t(2) False by (intro mult_le_mono1) simp
    moreover have "l + ?t - 1 = ?t - 1 + l" using False by simp
    ultimately show ?thesis using lo x by (simp only: power_add)
  qed
  ultimately show ?thesis by (simp add: v)
qed

theorem ceillog2_exact_witness: "luaO_ceillog2 5 = 3"
proof -
  let ?l = "luaO_ceillog2 5"
  have b: "5 \<le> (2 :: nat) ^ ?l" "?l \<noteq> 0 \<longrightarrow> 2 ^ (?l - 1) < (5 :: nat)" using ceillog2_exact [of 5] by simp_all
  have "\<not> ?l \<le> 2" using b(1) power_increasing [of ?l 2 "2 :: nat"] by auto
  moreover have "\<not> 4 \<le> ?l"
  proof
    assume l: "4 \<le> ?l"
    then have "(2 :: nat) ^ 3 \<le> 2 ^ (?l - 1)" by (intro power_increasing) linarith+
    with b(2) l show False by simp
  qed
  ultimately show ?thesis by linarith
qed

lemmas ctype_runs = luai_ctype_def nth_append nth_Cons' less_diff_conv2

lemma ctype_nth:
  assumes "k < 256"
  shows "luai_ctype ! (k + 1) = (if k < 9 then 0x00 else if k < 14 then 0x08 else if k < 32 then 0x00 else if k < 33 then 0x0C
     else if k < 48 then 0x04 else if k < 58 then 0x16 else if k < 65 then 0x04 else if k < 71 then
     0x15 else if k < 91 then 0x05 else if k < 95 then 0x04 else if k < 96 then 0x05 else if k < 97
     then 0x04 else if k < 103 then 0x15 else if k < 123 then 0x05 else if k < 127 then 0x04 else
     0x00)"
  using assms
  apply (cases "k < 9", simp add: ctype_runs del: replicate.simps)
  apply (cases "k < 14", simp add: ctype_runs del: replicate.simps)
  apply (cases "k < 32", simp add: ctype_runs del: replicate.simps)
  apply (cases "k < 33", simp add: ctype_runs del: replicate.simps)
  apply (cases "k < 48", simp add: ctype_runs del: replicate.simps)
  apply (cases "k < 58", simp add: ctype_runs del: replicate.simps)
  apply (cases "k < 65", simp add: ctype_runs del: replicate.simps)
  apply (cases "k < 71", simp add: ctype_runs del: replicate.simps)
  apply (cases "k < 91", simp add: ctype_runs del: replicate.simps)
  apply (cases "k < 95", simp add: ctype_runs del: replicate.simps)
  apply (cases "k < 96", simp add: ctype_runs del: replicate.simps)
  apply (cases "k < 97", simp add: ctype_runs del: replicate.simps)
  apply (cases "k < 103", simp add: ctype_runs del: replicate.simps)
  apply (cases "k < 123", simp add: ctype_runs del: replicate.simps)
  apply (cases "k < 127", simp add: ctype_runs del: replicate.simps)
  by (simp add: ctype_runs del: replicate.simps)

lemma of_char_small: "(of_char c :: nat) < 256"
  by simp

lemma ctype_digit: "lisdigit c \<longleftrightarrow> 48 \<le> (of_char c :: nat) \<and> (of_char c :: nat) \<le> 57"
  unfolding lisdigit_def testprop_def ctype_nth [OF of_char_small] by (auto simp: numeral_eq_Suc)

lemma ctype_space: "lisspace c \<longleftrightarrow> 9 \<le> (of_char c :: nat) \<and> (of_char c :: nat) \<le> 13 \<or> (of_char c :: nat) = 32"
  unfolding lisspace_def testprop_def ctype_nth [OF of_char_small] by (auto simp: numeral_eq_Suc)


lemma chars_apart:
  "lisdigit c \<Longrightarrow> \<not> lisspace c" "lisdigit c \<Longrightarrow> c \<noteq> CHR ''-'' \<and> c \<noteq> CHR ''+''"
  "lisdigit c \<or> lisspace c \<or> c = CHR 0x00 \<Longrightarrow> c \<noteq> CHR ''x'' \<and> c \<noteq> CHR ''X''"
  "\<not> lisspace (CHR ''-'')" "\<not> lisspace (CHR 0x00)"
  by (auto simp: ctype_digit ctype_space)

lemma digit_char: "d < 10 \<Longrightarrow> lisdigit (char_of (48 + d :: nat))"
  by (simp add: ctype_digit)

lemma digits_show: "list_all lisdigit (show_nat n)"
proof (induction n rule: show_nat.induct)
  case (1 n)
  then show ?case by (subst show_nat.simps) (simp add: digit_char)
qed

lemma show_nonempty: "\<exists>c cs. show_nat n = c # cs"
  by (subst show_nat.simps) (cases "show_nat (n div 10)", auto)

lemma dec_digits_show:
  "dec_digits (show_nat n @ rest) a e = dec_digits rest (a * 10 ^ length (show_nat n) + of_nat n) False"
proof (induction n arbitrary: rest a e rule: show_nat.induct)
  case (1 n)
  have last: "dec_digits (char_of (48 + n mod 10) # rest) b f = dec_digits rest (b * 10 + of_nat (n mod 10)) False" for b f rest
    using digit_char [of "n mod 10"] by (simp add: algebra_simps)
  show ?case
  proof (cases "n < 10")
    case True
    then show ?thesis using last [of rest a e] by (simp add: show_nat.simps [of n])
  next
    case False
    have n: "(of_nat n :: u64) = of_nat (n div 10) * 10 + of_nat (n mod 10)"
      by (metis div_mult_mod_eq of_nat_add of_nat_mult of_nat_numeral)
    show ?thesis
      using False 1 [OF False, of "char_of (48 + n mod 10) # rest" a e] last
      by (subst (1 2) show_nat.simps) (simp add: n algebra_simps del: dec_digits.simps)
  qed
qed

lemma skip_spaces: "list_all lisspace ws \<Longrightarrow> skip_while lisspace (ws @ s) = skip_while lisspace s"
  by (induction ws) simp_all

text \<open>\<open>lua_integer2str\<close>: \<open>sprintf\<close> with \<open>%lld\<close>.\<close>

definition lua_integer2str :: "u64 \<Rightarrow> string" where
  "lua_integer2str v =
     (if sint v < 0 then ''-'' @ show_nat (nat (- sint v)) else show_nat (nat (sint v)))"

lemma l_str2int_show:
  assumes "list_all lisspace post"
  shows "isneg s = (neg, show_nat n @ post) \<Longrightarrow> skip_while lisspace (pre @ s) = s \<Longrightarrow>
     l_str2int (pre @ s) = Some (if neg then 0 - of_nat n else of_nat n, [])"
proof -
  assume s: "isneg s = (neg, show_nat n @ post)" "skip_while lisspace (pre @ s) = s"
  obtain c cs where sn: "show_nat n = c # cs" using show_nonempty by blast
  with digits_show [of n] have cs: "list_all lisdigit cs" by simp
  have "peek (tl (show_nat n @ post)) \<noteq> CHR ''x'' \<and> peek (tl (show_nat n @ post)) \<noteq> CHR ''X''"
    by (rule chars_apart(3)) (use cs assms sn in \<open>cases cs; cases post; simp add: peek_def\<close>)
  moreover have "dec_digits (show_nat n @ post) 0 True = (of_nat n, False, post)"
    unfolding dec_digits_show using assms chars_apart(1) by (cases post) auto
  moreover have "skip_while lisspace post = []" using skip_spaces [OF assms, of "[]"] by simp
  ultimately show ?thesis
    by (simp add: l_str2int_def s peek_def [of "[]"])
qed

text \<open>the text of an integer reads back as the same integer, for all 64-bit integers and with any white
  space around.\<close>

theorem integer_text_round_trip:
  assumes "list_all lisspace pre" "list_all lisspace post"
  shows "l_str2int (pre @ lua_integer2str v @ post) = Some (v, [])"
proof -
  show ?thesis
  proof (cases "sint v < 0")
    case True
    let ?s = "''-'' @ show_nat (nat (- sint v)) @ post"
    have "isneg ?s = (True, show_nat (nat (- sint v)) @ post)" by (simp add: isneg_def peek_def)
    moreover have "skip_while lisspace (pre @ ?s) = ?s"
      unfolding skip_spaces [OF assms(1)] by (simp add: chars_apart)
    ultimately have "l_str2int (pre @ ?s) = Some (0 - of_nat (nat (- sint v)), [])"
      using l_str2int_show [OF assms(2)] by fastforce
    moreover have "0 - of_nat (nat (- sint v)) = v" using True by (simp add: of_nat_nat)
    ultimately show ?thesis using True by (simp add: lua_integer2str_def)
  next
    case False
    let ?s = "show_nat (nat (sint v)) @ post"
    obtain c cs where f: "show_nat (nat (sint v)) = c # cs" "lisdigit c"
      using show_nonempty [of "nat (sint v)"] digits_show [of "nat (sint v)"] by auto
    have "isneg ?s = (False, ?s)" using f chars_apart(2) by (auto simp: isneg_def peek_def)
    moreover have "skip_while lisspace (pre @ ?s) = ?s"
      unfolding skip_spaces [OF assms(1)] using f chars_apart(1) by simp
    ultimately have "l_str2int (pre @ ?s) = Some (of_nat (nat (sint v)), [])"
      using l_str2int_show [OF assms(2)] by fastforce
    moreover have "of_nat (nat (sint v)) = v" using False by (simp add: of_nat_nat)
    ultimately show ?thesis using False by (simp add: lua_integer2str_def)
  qed
qed

theorem integer_text_round_trip_witness: "l_str2int '' -42 '' = Some (- 42, [])"
proof -
  have "lua_integer2str (- 42) = ''-42''"
    by (simp add: lua_integer2str_def show_nat.simps char_of_def bit_0)
  with integer_text_round_trip [of "'' ''" "'' ''" "- 42"] show ?thesis by (simp add: ctype_space)
qed

end
