(* ===== verification/LuaBit.thy ===== *)
theory LuaBit
  imports LuaArith
begin

text \<open>
  The \<open>bit32\<close> library of the embedded interpreter (\<open>lbitlib.c\<close> under \<open>lua/lua-5.3.1/src\<close>): operations
  on the low 32 bits of 64-bit integers. Arguments are the 64-bit integers the interpreter read;
  shifts by an amount outside the width of the word, and overflow of the sum of two arguments, are
  undefined in C and an outcome of their own here. The conversion of a mask to \<open>int\<close> in \<open>replace\<close>
  and the shift of that \<open>int\<close> keep 32 bits and extend the sign, and the negation of an amount wraps, as
  the compilers do.
\<close>

section \<open>Definitions\<close>

datatype bit_error = ArgError nat string | LuaError string | UndefinedBehaviour

definition LUA_NBITS :: nat where "LUA_NBITS = 32"

definition ALLONES :: u64 where
  "ALLONES = NOT (push_bit 1 (push_bit (LUA_NBITS - 1) (NOT 0)))"

definition trim :: "u64 \<Rightarrow> u64" where
  "trim x = x AND ALLONES"

definition ones :: "nat \<Rightarrow> u64" where
  "ones n = NOT (push_bit (n - 1) (push_bit 1 ALLONES))"














definition fieldargs :: "nat \<Rightarrow> u64 \<Rightarrow> u64 \<Rightarrow> bit_error + nat \<times> nat" where
  "fieldargs farg f w =
     (if \<not> 0 \<le> sint f then Inl (ArgError farg ''field cannot be negative'')
      else if \<not> 0 < sint w then Inl (ArgError (farg + 1) ''width must be positive'')
      else if sint f + sint w \<ge> 2 ^ 63 then Inl UndefinedBehaviour
      else if sint (f + w) > int LUA_NBITS then Inl (LuaError ''trying to access non-existent bits'')
      else Inr (nat (sint f), nat (sint w)))"

definition b_extract :: "u64 \<Rightarrow> u64 \<Rightarrow> u64 \<Rightarrow> bit_error + u64" where
  "b_extract x f w =
     (let r = trim x
      in case fieldargs 2 f w of Inl e \<Rightarrow> Inl e | Inr (f1, w1) \<Rightarrow> Inr (drop_bit f1 r AND ones w1))"

definition b_replace :: "u64 \<Rightarrow> u64 \<Rightarrow> u64 \<Rightarrow> u64 \<Rightarrow> bit_error + u64" where
  "b_replace x v f w =
     (let r = trim x
      in case fieldargs 3 f w of
           Inl e \<Rightarrow> Inl e
         | Inr (f1, w1) \<Rightarrow>
             (let m = ucast (ones w1) :: u32;
                  v1 = v AND scast m
              in Inr ((r AND NOT (scast (push_bit f1 m))) OR push_bit f1 v1)))"

section \<open>Bits\<close>

lemma bit_ALLONES: "bit ALLONES n \<longleftrightarrow> n < 32"
  unfolding ALLONES_def LUA_NBITS_def bit_not_iff bit_push_bit_iff possible_bit_word by auto

lemma bit_trim: "bit (trim x) n \<longleftrightarrow> bit x n \<and> n < 32"
  by (auto simp: trim_def bit_and_iff bit_ALLONES)

lemma bit_ones: "1 \<le> n \<Longrightarrow> n \<le> 32 \<Longrightarrow> bit (ones n) k \<longleftrightarrow> k < n \<or> n + 32 \<le> k \<and> k < 64"
  unfolding ones_def bit_not_iff bit_push_bit_iff possible_bit_word bit_ALLONES by auto

lemma trim_ucast: "trim x = ucast (ucast x :: u32)"
  by (rule bit_word_eqI) (auto simp: bit_trim bit_simps)

lemma trim_bound: "unat (trim x) < 2 ^ 32"
proof -
  have "unat (trim x) = unat (ucast x :: u32)" by (simp add: trim_ucast)
  also have "\<dots> < 2 ^ LENGTH(32)" by (rule unsigned_less)
  finally show ?thesis by simp
qed











lemma fieldargs_ok:
  "fieldargs farg f w = Inr (f1, w1) \<Longrightarrow> 1 \<le> w1 \<and> f1 + w1 \<le> 32 \<and> sint f = int f1 \<and> sint w = int w1"
proof -
  assume a: "fieldargs farg f w = Inr (f1, w1)"
  then have s: "0 \<le> sint f" "0 < sint w" "sint f + sint w < 2 ^ 63" "sint (f + w) \<le> 32" "f1 = nat (sint f)" "w1 = nat (sint w)"
    by (auto simp: fieldargs_def LUA_NBITS_def split: if_splits)
  have "f + w = word_of_int (sint f + sint w)" by simp
  with s(1-3) have "sint (f + w) = sint f + sint w"
    by (metis sint_word_of_int_sint add_increasing add_nonneg_nonneg less_le neg_0_le_iff_le neg_le_0_iff_le order_trans zero_le_numeral zero_le_power)
  with s show ?thesis by auto
qed

lemma bit_replaced:
  assumes "fieldargs 3 f w = Inr (f1, w1)" "b_replace x v f w = Inr r"
  shows "bit r n \<longleftrightarrow> n < 64 \<and>
     (if f1 \<le> n \<and> (n < f1 + w1 \<or> w1 = 32) then bit v (n - f1) else n < 32 \<and> bit x n)"
proof -
  note ok = fieldargs_ok [OF assms(1)]
  then have w: "1 \<le> w1" "w1 \<le> 32" by simp_all
  let ?m = "ucast (ones w1) :: u32"
  have m: "bit ?m k \<longleftrightarrow> k < w1" for k using w by (auto simp: bit_simps bit_ones)
  have r: "r = (trim x AND NOT (scast (push_bit f1 ?m))) OR push_bit f1 (v AND scast ?m)"
    using assms by (simp add: b_replace_def Let_def)
  have sm: "bit (scast ?m :: u64) k \<longleftrightarrow> k < 64 \<and> (k < w1 \<or> w1 = 32)" for k
    using w by (auto simp: bit_signed_iff min_def m)
  have spm: "bit (scast (push_bit f1 ?m) :: u64) k \<longleftrightarrow> k < 64 \<and> f1 \<le> k \<and> (k < f1 + w1 \<or> f1 + w1 = 32)" for k
    using ok by (auto simp: bit_signed_iff min_def m bit_push_bit_iff)
  show ?thesis
    using ok unfolding r by (auto simp: bit_or_iff bit_and_iff bit_not_iff spm sm bit_trim bit_push_bit_iff)
qed

lemma bit_extracted:
  assumes "fieldargs 2 f w = Inr (f1, w1)" "b_extract x f w = Inr r"
  shows "bit r n \<longleftrightarrow> n < w1 \<and> bit x (f1 + n)"
proof -
  note ok = fieldargs_ok [OF assms(1)]
  have "r = drop_bit f1 (trim x) AND ones w1" using assms by (simp add: b_extract_def Let_def)
  then show ?thesis using ok by (auto simp: bit_and_iff bit_drop_bit_eq bit_trim bit_ones)
qed

lemma fieldargs_any: "fieldargs a f w = Inr p \<Longrightarrow> fieldargs b f w = Inr p"
  by (auto simp: fieldargs_def split: if_splits)













section \<open>Properties\<close>


text \<open>extracting a field that was replaced gives the low bits of the value put there; replacing changes no
  other bit and, for fields of fewer than 32 bits, nothing above the word.\<close>

theorem replaced_field:
  assumes "fieldargs 3 f w = Inr (f1, w1)"
  shows "\<exists>r. b_replace x v f w = Inr r \<and> b_extract r f w = Inr (take_bit w1 v) \<and>
     (\<forall>n < 32. n < f1 \<or> f1 + w1 \<le> n \<longrightarrow> bit r n = bit x n) \<and> (w1 < 32 \<longrightarrow> unat r < 2 ^ 32)"
proof -
  note ok = fieldargs_ok [OF assms]
  obtain r where r: "b_replace x v f w = Inr r" using assms by (auto simp: b_replace_def Let_def)
  note bits = bit_replaced [OF assms r]
  have a2: "fieldargs 2 f w = Inr (f1, w1)" by (rule fieldargs_any [OF assms])
  obtain e where e: "b_extract r f w = Inr e" using a2 by (auto simp: b_extract_def Let_def)
  have "e = take_bit w1 v"
    by (rule bit_word_eqI) (use ok bits bit_extracted [OF a2 e] in \<open>auto simp: bit_take_bit_iff\<close>)
  moreover have "unat r < 2 ^ 32" if "w1 < 32"
  proof -
    have "r = trim r" by (rule bit_word_eqI) (use that ok bits in \<open>auto simp: bit_trim\<close>)
    then show ?thesis using trim_bound [of r] by simp
  qed
  ultimately show ?thesis using r e bits ok by (intro exI [of _ r]) auto
qed

theorem replaced_field_witness:
  "\<exists>r. b_replace 0xFF 0 4 4 = Inr r \<and> b_extract r 4 4 = Inr 0"
proof -
  have "fieldargs 3 4 4 = Inr (4, 4)" by (simp add: fieldargs_def LUA_NBITS_def)
  from replaced_field [OF this, of "0xFF" 0] show ?thesis by auto
qed

text \<open>\<open>replace\<close> of the whole word returns the 64-bit value it was given, not its low 32 bits: the mask
  is an \<open>int\<close> and is \<open>-1\<close> for 32 bits.\<close>

theorem replace_whole_word_not_trimmed:
  "b_replace x v 0 32 = Inr v"
proof -
  have a: "fieldargs 3 0 32 = Inr (0, 32)" by (simp add: fieldargs_def LUA_NBITS_def)
  then obtain r where r: "b_replace x v 0 32 = Inr r" by (auto simp: b_replace_def Let_def)
  have "r = v" by (rule bit_word_eqI) (simp add: bit_replaced [OF a r])
  with r show ?thesis by simp
qed

end
