(* ===== verification/LuaUtf8.thy ===== *)
theory LuaUtf8
  imports Prelude
begin

text \<open>
  The \<open>utf8\<close> library of the embedded interpreter (\<open>lutf8lib.c\<close>) and the encoder it uses
  (\<open>luaO_utf8esc\<close> in \<open>lobject.c\<close>), under \<open>lua/lua-5.3.1/src\<close>. A string is its list of bytes; reading
  at its end gives the terminating zero. Positions are the integers the functions compute with;
  they stay between 0 and the length of the string plus one. Whether the stack has room for the
  results of \<open>codepoint\<close> is a parameter.
\<close>

section \<open>Encoding\<close>

text \<open>The bytes after the first, last one first, while they do not fit into the first.\<close>

function esc_loop :: "u64 \<Rightarrow> u32 \<Rightarrow> u8 list \<Rightarrow> u8 list" where
  "esc_loop x mfb buff =
     (let buff1 = (0x80 OR ucast (x AND 0x3F)) # buff; x1 = drop_bit 6 x; mfb1 = drop_bit 1 mfb
      in if x1 > ucast mfb1 then esc_loop x1 mfb1 buff1
         else ucast (push_bit 1 (NOT mfb1) OR ucast x1 :: u32) # buff1)"
  by pat_completeness auto
termination
proof (relation "measure (\<lambda>(x, mfb, buff). unat x)", goal_cases)
  case (2 x mfb buff b x1 m1)
  have "unat (drop_bit 6 x) = unat x div 64" by (simp add: unat_drop_bit)
  moreover have "unat (drop_bit 6 x) \<noteq> 0"
    using 2 by (auto simp: word_less_nat_alt)
  ultimately show ?case using 2 by simp
qed simp

declare esc_loop.simps [simp del]

definition luaO_utf8esc :: "u64 \<Rightarrow> u8 list" where
  "luaO_utf8esc x = (if x < 0x80 then [ucast x] else esc_loop x 0x3F [])"

section \<open>Decoding\<close>

definition MAXUNICODE :: u32 where "MAXUNICODE = 0x10FFFF"

definition byte_of :: "u8 list \<Rightarrow> nat \<Rightarrow> u8" where
  "byte_of s i = (if i < length s then s ! i else 0)"

definition iscont :: "u8 \<Rightarrow> bool" where
  "iscont p \<longleftrightarrow> p AND 0xC0 = 0x80"

text \<open>The continuation bytes: the shifted first byte, their number, and the bits they carry.\<close>

fun decode_loop :: "u32 \<Rightarrow> nat \<Rightarrow> u8 list \<Rightarrow> u32 \<Rightarrow> (u32 \<times> nat \<times> u32) option" where
  "decode_loop c count s res =
     (if c AND 0x40 = 0 then Some (c, count, res)
      else (case s of
              [] \<Rightarrow> None
            | cc # s1 \<Rightarrow>
                if \<not> iscont cc then None
                else decode_loop (push_bit 1 c) (Suc count) s1 (push_bit 6 res OR ucast (cc AND 0x3F))))"

declare decode_loop.simps [simp del]

definition limits :: "u32 list" where
  "limits = [0xFF, 0x7F, 0x7FF, 0xFFFF]"

text \<open>\<open>utf8_decode\<close>: the code point and the number of bytes it takes.\<close>

definition utf8_decode :: "u8 list \<Rightarrow> (u32 \<times> nat) option" where
  "utf8_decode s =
     (let c = ucast (byte_of s 0) :: u32
      in if c < 0x80 then Some (c, 1)
         else (case decode_loop c 0 (tl s) 0 of
                 None \<Rightarrow> None
               | Some (c1, count, res) \<Rightarrow>
                   (let res1 = res OR push_bit (count * 5) (c1 AND 0x7F)
                    in if count > 3 \<or> res1 > MAXUNICODE \<or> res1 \<le> limits ! count then None
                       else Some (res1, count + 1))))"

lemma utf8_decode_pos: "utf8_decode s = Some (v, n) \<Longrightarrow> 0 < n"
  by (auto simp: utf8_decode_def Let_def split: if_splits option.splits prod.splits)

section \<open>The library\<close>

datatype utf8_error = ArgError nat string | LuaError string

definition u_posrelat :: "int \<Rightarrow> nat \<Rightarrow> int" where
  "u_posrelat pos len = (if pos \<ge> 0 then pos else if - pos > int len then 0 else int len + pos + 1)"

datatype len_result = Count int | InvalidAt int

function utflen_loop :: "u8 list \<Rightarrow> int \<Rightarrow> int \<Rightarrow> int \<Rightarrow> len_result" where
  "utflen_loop s posi posj n =
     (if posi \<le> posj then
        (case utf8_decode (drop (nat posi) s) of
           None \<Rightarrow> InvalidAt (posi + 1)
         | Some (_, k) \<Rightarrow> utflen_loop s (posi + int k) posj (n + 1))
      else Count n)"
  by pat_completeness auto
termination
  by (relation "measure (\<lambda>(s, posi, posj, n). nat (posj + 1 - posi))") (auto dest!: utf8_decode_pos)

declare utflen_loop.simps [simp del]

definition utflen :: "u8 list \<Rightarrow> int option \<Rightarrow> int option \<Rightarrow> utf8_error + len_result" where
  "utflen s i j =
     (let len = length s;
          posi = u_posrelat (case i of None \<Rightarrow> 1 | Some i \<Rightarrow> i) len;
          posj = u_posrelat (case j of None \<Rightarrow> - 1 | Some j \<Rightarrow> j) len
      in if \<not> (1 \<le> posi \<and> posi - 1 \<le> int len) then Inl (ArgError 2 ''initial position out of string'')
         else if \<not> posj - 1 < int len then Inl (ArgError 3 ''final position out of string'')
         else Inr (utflen_loop s (posi - 1) (posj - 1) 0))"

function codepoint_loop :: "u8 list \<Rightarrow> int \<Rightarrow> int \<Rightarrow> utf8_error + u32 list" where
  "codepoint_loop s p se =
     (if p < se then
        (case utf8_decode (drop (nat p) s) of
           None \<Rightarrow> Inl (LuaError ''invalid UTF-8 code'')
         | Some (code, k) \<Rightarrow>
             (case codepoint_loop s (p + int k) se of Inl e \<Rightarrow> Inl e | Inr cs \<Rightarrow> Inr (code # cs)))
      else Inr [])"
  by pat_completeness auto
termination
  by (relation "measure (\<lambda>(s, p, se). nat (se - p))") (auto dest!: utf8_decode_pos)

declare codepoint_loop.simps [simp del]

definition codepoint :: "(int \<Rightarrow> bool) \<Rightarrow> u8 list \<Rightarrow> int option \<Rightarrow> int option \<Rightarrow> utf8_error + u32 list" where
  "codepoint stack_room s i j =
     (let len = length s;
          posi = u_posrelat (case i of None \<Rightarrow> 1 | Some i \<Rightarrow> i) len;
          pose = u_posrelat (case j of None \<Rightarrow> posi | Some j \<Rightarrow> j) len
      in if \<not> posi \<ge> 1 then Inl (ArgError 2 ''out of range'')
         else if \<not> pose \<le> int len then Inl (ArgError 3 ''out of range'')
         else if posi > pose then Inr []
         else if pose - posi \<ge> 2147483647 then Inl (LuaError ''string slice too long'')
         else if \<not> stack_room (pose - posi + 1) then Inl (LuaError ''stack overflow (string slice too long)'')
         else codepoint_loop s (posi - 1) pose)"

definition pushutfchar :: "nat \<Rightarrow> u64 \<Rightarrow> utf8_error + u8 list" where
  "pushutfchar arg code =
     (if \<not> (0 \<le> sint code \<and> sint code \<le> 0x10FFFF) then Inl (ArgError arg ''value out of range'')
      else Inr (luaO_utf8esc code))"

fun utfchar_from :: "nat \<Rightarrow> u64 list \<Rightarrow> utf8_error + u8 list" where
  "utfchar_from i [] = Inr []"
| "utfchar_from i (code # codes) =
     (case pushutfchar i code of
        Inl e \<Rightarrow> Inl e
      | Inr b \<Rightarrow> (case utfchar_from (Suc i) codes of Inl e \<Rightarrow> Inl e | Inr bs \<Rightarrow> Inr (b @ bs)))"

definition utfchar :: "u64 list \<Rightarrow> utf8_error + u8 list" where
  "utfchar codes = utfchar_from 1 codes"

text \<open>\<open>byteoffset\<close>: the three searches over continuation bytes.\<close>

fun to_start :: "u8 list \<Rightarrow> nat \<Rightarrow> nat" where
  "to_start s 0 = 0"
| "to_start s (Suc p) = (if iscont (byte_of s (Suc p)) then to_start s p else Suc p)"

fun back_chars :: "u8 list \<Rightarrow> nat \<Rightarrow> nat \<Rightarrow> nat \<times> nat" where
  "back_chars s 0 posi = (0, posi)"
| "back_chars s (Suc n) posi = (if posi > 0 then back_chars s n (to_start s (posi - 1)) else (Suc n, posi))"

lemma not_iscont_0: "\<not> iscont 0"
  by (simp add: iscont_def)

function next_start :: "u8 list \<Rightarrow> nat \<Rightarrow> nat" where
  "next_start s p = (if iscont (byte_of s p) then next_start s (p + 1) else p)"
  by pat_completeness auto
termination
  by (relation "measure (\<lambda>(s, p). length s - p)") (auto simp: byte_of_def not_iscont_0 split: if_splits)

declare next_start.simps [simp del]

fun forward_chars :: "u8 list \<Rightarrow> nat \<Rightarrow> nat \<Rightarrow> nat \<times> nat" where
  "forward_chars s 0 posi = (0, posi)"
| "forward_chars s (Suc n) posi =
     (if posi < length s then forward_chars s n (next_start s (posi + 1)) else (Suc n, posi))"

definition byteoffset :: "u8 list \<Rightarrow> int \<Rightarrow> int option \<Rightarrow> utf8_error + int option" where
  "byteoffset s n i =
     (let len = length s;
          posi = u_posrelat (case i of None \<Rightarrow> if n \<ge> 0 then 1 else int len + 1 | Some i \<Rightarrow> i) len
      in if \<not> (1 \<le> posi \<and> posi - 1 \<le> int len) then Inl (ArgError 3 ''position out of range'')
         else (let p = nat (posi - 1)
               in if n = 0 then Inr (Some (int (to_start s p) + 1))
                  else if iscont (byte_of s p) then Inl (LuaError ''initial position is a continuation byte'')
                  else (let (m, q) = (if n < 0 then back_chars s (nat (- n)) p else forward_chars s (nat (n - 1)) p)
                        in Inr (if m = 0 then Some (int q + 1) else None))))"

text \<open>One step of the iterator: \<open>None\<close> at the end, else the position and the code point.\<close>

definition iter_aux :: "u8 list \<Rightarrow> int \<Rightarrow> utf8_error + (int \<times> u32) option" where
  "iter_aux s i =
     (let n = (if i - 1 < 0 then 0
               else if i - 1 < int (length s) then next_start s (nat (i - 1) + 1) else nat (i - 1))
      in if n \<ge> length s then Inr None
         else (case utf8_decode (drop n s) of
                 None \<Rightarrow> Inl (LuaError ''invalid UTF-8 code'')
               | Some (code, k) \<Rightarrow>
                   if iscont (byte_of s (n + k)) then Inl (LuaError ''invalid UTF-8 code'')
                   else Inr (Some (int n + 1, code))))"

section \<open>Shapes\<close>

lemma low_bits:
  "(x :: 'a :: len word) AND 0x3F = take_bit 6 x" "(x :: 'a :: len word) AND 0x7F = take_bit 7 x"
  by (simp_all add: take_bit_eq_mask mask_eq_exp_minus_1)

lemma and_0x40: "(c :: u32) AND 0x40 = 0 \<longleftrightarrow> \<not> bit c 6"
  using and_exp_eq_0_iff_not_bit [of c 6] by simp

lemma bit_0xC0: "bit (0xC0 :: u8) n \<longleftrightarrow> n = 6 \<or> n = 7"
proof -
  have "(0xC0 :: u8) = push_bit 6 (mask 2)" by (simp add: mask_eq_exp_minus_1 push_bit_eq_mult)
  then show ?thesis by (simp only: bit_push_bit_iff bit_mask_iff possible_bit_word) auto
qed

lemma bit_0x80: "bit (0x80 :: u8) n \<longleftrightarrow> n = 7"
proof -
  have "(0x80 :: u8) = push_bit 7 1" by (simp add: push_bit_eq_mult)
  then show ?thesis by (simp only: bit_push_bit_iff bit_1_iff possible_bit_word) auto
qed

lemma bit_0xE0: "bit (0xE0 :: u8) n \<longleftrightarrow> n = 5 \<or> n = 6 \<or> n = 7"
proof -
  have "(0xE0 :: u8) = push_bit 5 (mask 3)" by (simp add: mask_eq_exp_minus_1 push_bit_eq_mult)
  then show ?thesis by (simp only: bit_push_bit_iff bit_mask_iff possible_bit_word) auto
qed

lemma bit_0xF0: "bit (0xF0 :: u8) n \<longleftrightarrow> 4 \<le> n \<and> n < 8"
proof -
  have "(0xF0 :: u8) = push_bit 4 (mask 4)" by (simp add: mask_eq_exp_minus_1 push_bit_eq_mult)
  then show ?thesis by (simp only: bit_push_bit_iff bit_mask_iff possible_bit_word) auto
qed

lemma iscont_bits: "iscont b \<longleftrightarrow> bit b 7 \<and> \<not> bit b 6"
proof
  assume "iscont b"
  then have "bit (b AND 0xC0) n = bit (0x80 :: u8) n" for n by (simp add: iscont_def)
  from this [of 6] this [of 7] show "bit b 7 \<and> \<not> bit b 6"
    by (simp only: bit_and_iff bit_0xC0 bit_0x80) simp
next
  assume "bit b 7 \<and> \<not> bit b 6"
  then have "b AND 0xC0 = 0x80" by (intro bit_word_eqI) (auto simp only: bit_and_iff bit_0xC0 bit_0x80)
  then show "iscont b" by (simp add: iscont_def)
qed

lemma ascii_bit: "(ucast b :: u32) < 0x80 \<longleftrightarrow> \<not> bit b 7" for b :: u8
proof -
  have "unat (ucast b :: u32) = unat b"
    by (simp add: unsigned_ucast_eq take_bit_nat_eq_self_iff order_less_le_trans [OF unsigned_less])
  then have "(ucast b :: u32) < 0x80 \<longleftrightarrow> unat b < 2 ^ 7" by (simp add: word_less_nat_alt)
  also have "\<dots> \<longleftrightarrow> \<not> bit b 7"
  proof
    assume "unat b < 2 ^ 7"
    then have "unat (take_bit 7 b) = unat b" by (simp only: unsigned_take_bit_eq take_bit_nat_eq_self)
    then have "take_bit 7 b = b" by (rule unsigned_word_eqI)
    then show "\<not> bit b 7" by (metis bit_take_bit_iff less_irrefl)
  next
    assume "\<not> bit b 7"
    then have "take_bit 7 b = b" by (intro bit_word_eqI) (auto simp: bit_take_bit_iff less_Suc_eq numeral_eq_Suc)
    then have "unat b = take_bit 7 (unat b)" by (metis unsigned_take_bit_eq)
    then show "unat b < 2 ^ 7" by (metis take_bit_nat_less_exp)
  qed
  finally show ?thesis .
qed

definition cont_bits :: "u8 \<Rightarrow> u32" where
  "cont_bits b = ucast (take_bit 6 b)"

lemma bit_cont_bits: "bit (cont_bits b) n \<longleftrightarrow> n < 6 \<and> bit b n"
  by (auto simp: cont_bits_def bit_simps)

lemma decode_loop_count: "decode_loop c count s res = Some (c1, count1, res1) \<Longrightarrow> count \<le> count1"
proof (induction c count s res rule: decode_loop.induct)
  case (1 c count s res)
  then show ?case by (subst (asm) (2) decode_loop.simps) (fastforce split: if_splits list.splits)
qed

definition checked :: "nat \<Rightarrow> u32 \<Rightarrow> (u32 \<times> nat) option" where
  "checked count v = (if v > MAXUNICODE \<or> v \<le> limits ! count then None else Some (v, count + 1))"

definition val2 :: "u8 \<Rightarrow> u8 \<Rightarrow> u32" where
  "val2 b0 b1 = cont_bits b1 OR push_bit 6 (ucast (take_bit 5 b0))"

definition val3 :: "u8 \<Rightarrow> u8 \<Rightarrow> u8 \<Rightarrow> u32" where
  "val3 b0 b1 b2 = (push_bit 6 (cont_bits b1) OR cont_bits b2) OR push_bit 12 (ucast (take_bit 4 b0))"

definition val4 :: "u8 \<Rightarrow> u8 \<Rightarrow> u8 \<Rightarrow> u8 \<Rightarrow> u32" where
  "val4 b0 b1 b2 b3 = (push_bit 6 (push_bit 6 (cont_bits b1) OR cont_bits b2) OR cont_bits b3) OR push_bit 18 (ucast (take_bit 3 b0))"

text \<open>Decoding, unrolled: the leading ones of the first byte count the bytes.\<close>

lemma bit_first: "bit (push_bit k (ucast b :: u32)) 6 \<longleftrightarrow> k \<le> 6 \<and> bit b (6 - k)" for b :: u8
  by (auto simp: bit_simps)

lemma loop_step:
  "decode_loop (push_bit k (ucast b0)) count s res =
     (if \<not> (k \<le> 6 \<and> bit b0 (6 - k)) then Some (push_bit k (ucast b0), count, res)
      else (case s of
              [] \<Rightarrow> None
            | cc # s1 \<Rightarrow> if \<not> iscont cc then None
                else decode_loop (push_bit (Suc k) (ucast b0)) (Suc count) s1 (push_bit 6 res OR cont_bits cc)))"
  for b0 :: u8
  by (subst decode_loop.simps) (simp add: and_0x40 bit_first low_bits cont_bits_def split: list.split)


lemma rest_bits:
  assumes "k \<le> 3" "\<not> bit b0 (6 - k)"
  shows "res OR push_bit (k * 5) (push_bit k (ucast (b0 :: u8)) AND 0x7F :: u32) = res OR push_bit (6 * k) (ucast (take_bit (6 - k) b0) :: u32)"
proof -
  have "push_bit (k * 5) (push_bit k (ucast b0) AND 0x7F :: u32) = push_bit (6 * k) (ucast (take_bit (6 - k) b0) :: u32)"
  proof (rule bit_word_eqI)
    fix n assume "n < LENGTH(32)"
    have e: "n - k * 5 - k = n - 6 * k" by simp
    have "k * 5 \<le> n \<and> n - k * 5 < 7 \<and> k \<le> n - k * 5 \<and> bit b0 (n - 6 * k) \<longleftrightarrow>
        6 * k \<le> n \<and> n - 6 * k < 6 - k \<and> bit b0 (n - 6 * k)"
      using assms by (cases "n - 6 * k = 6 - k") auto
    then show "bit (push_bit (k * 5) (push_bit k (ucast b0) AND 0x7F :: u32)) n =
        bit (push_bit (6 * k) (ucast (take_bit (6 - k) b0) :: u32)) n"
      using \<open>n < LENGTH(32)\<close> by (auto simp: low_bits bit_simps e)
  qed
  then show ?thesis by simp
qed

lemma decode_ascii: "\<not> bit b0 7 \<Longrightarrow> utf8_decode (b0 # s) = Some (ucast b0, 1)"
  by (simp add: utf8_decode_def byte_of_def ascii_bit)

lemma decode_multi:
  assumes "bit b0 7"
  shows "utf8_decode (b0 # s) =
     (if \<not> bit b0 6 then None
      else case s of [] \<Rightarrow> None | b1 # s1 \<Rightarrow>
        if \<not> iscont b1 then None
        else if \<not> bit b0 5 then checked 1 (val2 b0 b1)
        else case s1 of [] \<Rightarrow> None | b2 # s2 \<Rightarrow>
          if \<not> iscont b2 then None
          else if \<not> bit b0 4 then checked 2 (val3 b0 b1 b2)
          else case s2 of [] \<Rightarrow> None | b3 # s3 \<Rightarrow>
            if \<not> iscont b3 then None
            else if \<not> bit b0 3 then checked 3 (val4 b0 b1 b2 b3)
            else None)"
proof -
  define fin where "fin = (\<lambda>r :: (u32 \<times> nat \<times> u32) option. case r of None \<Rightarrow> None
     | Some (c1, count, res) \<Rightarrow> (let res1 = res OR push_bit (count * 5) (c1 AND 0x7F)
                    in if count > 3 \<or> res1 > MAXUNICODE \<or> res1 \<le> limits ! count then None
                       else Some (res1, count + 1)))"
  have d: "utf8_decode (b0 # s) = fin (decode_loop (push_bit 0 (ucast b0)) 0 s 0)"
    using assms by (simp add: utf8_decode_def byte_of_def ascii_bit fin_def)
  have fin_None: "fin None = None" by (simp add: fin_def)
  have end4: "fin (decode_loop c (Suc (Suc (Suc (Suc 0)))) s r) = None" for c s r
    using decode_loop_count [of c 4 s r] by (auto simp: fin_def numeral_eq_Suc split: option.split)
  have stop: "fin (Some (push_bit k (ucast b0), k, res)) = checked k (res OR push_bit (6 * k) (ucast (take_bit (6 - k) b0)))"
    if "k \<le> 3" "\<not> bit b0 (6 - k)" for k res
    using that(1) unfolding fin_def option.case prod.case rest_bits [OF that] checked_def Let_def by simp
  have c0: "checked 0 (ucast (take_bit 6 b0)) = None"
  proof -
    have "unat (ucast (take_bit 6 b0) :: u32) = unat (take_bit 6 b0)"
      by (simp add: unsigned_ucast_eq take_bit_nat_eq_self_iff order_less_le_trans [OF unsigned_less])
    also have "\<dots> < 2 ^ LENGTH(8)" by (rule unsigned_less)
    finally show ?thesis by (simp add: checked_def limits_def word_le_nat_alt)
  qed
  note L0 = loop_step [of 0 b0 0]
    and L1 = loop_step [of "Suc 0" b0 "Suc 0"]
    and L2 = loop_step [of "Suc (Suc 0)" b0 "Suc (Suc 0)"]
    and L3 = loop_step [of "Suc (Suc (Suc 0))" b0 "Suc (Suc (Suc 0))"]
  have S0: "\<not> bit b0 6 \<Longrightarrow> fin (Some (push_bit 0 (ucast b0), 0, 0)) = None" using stop [of 0 0] c0 by simp
  have S1: "\<not> bit b0 5 \<Longrightarrow> fin (Some (push_bit (Suc 0) (ucast b0), Suc 0, push_bit 6 0 OR cont_bits b1)) = checked 1 (val2 b0 b1)" for b1
    using stop [of "Suc 0" "push_bit 6 0 OR cont_bits b1"] by (simp only: val2_def) simp
  have S2: "\<not> bit b0 4 \<Longrightarrow> fin (Some (push_bit (Suc (Suc 0)) (ucast b0), Suc (Suc 0),
      push_bit 6 (push_bit 6 0 OR cont_bits b1) OR cont_bits b2)) = checked 2 (val3 b0 b1 b2)" for b1 b2
    using stop [of "Suc (Suc 0)" "push_bit 6 (push_bit 6 0 OR cont_bits b1) OR cont_bits b2"]
    by (simp only: val3_def) (simp add: numeral_2_eq_2)
  have S3: "\<not> bit b0 3 \<Longrightarrow> fin (Some (push_bit (Suc (Suc (Suc 0))) (ucast b0), Suc (Suc (Suc 0)),
      push_bit 6 (push_bit 6 (push_bit 6 0 OR cont_bits b1) OR cont_bits b2) OR cont_bits b3)) = checked 3 (val4 b0 b1 b2 b3)"
    for b1 b2 b3
    using stop [of "Suc (Suc (Suc 0))" "push_bit 6 (push_bit 6 (push_bit 6 0 OR cont_bits b1) OR cont_bits b2) OR cont_bits b3"]
    by (simp only: val4_def) (simp add: numeral_3_eq_3)
  have K: "6 - 0 = (6 :: nat)" "6 - Suc 0 = 5" "6 - Suc (Suc 0) = 4" "6 - Suc (Suc (Suc 0)) = 3" by simp_all
  show ?thesis
    unfolding d L0 L1 L2 L3 K if_distrib [of fin] list.case_distrib [of fin] fin_None end4
    using S0 S1 S2 S3 by (auto split: list.split)
qed

lemma unat_bits: "unat x < 2 ^ k \<longleftrightarrow> (\<forall>n. bit x n \<longrightarrow> n < k)" for x :: "'a :: len word"
proof
  assume "unat x < 2 ^ k"
  then have "unat (take_bit k x) = unat x" by (simp only: unsigned_take_bit_eq take_bit_nat_eq_self)
  then have "take_bit k x = x" by (rule unsigned_word_eqI)
  then show "\<forall>n. bit x n \<longrightarrow> n < k" by (metis bit_take_bit_iff)
next
  assume "\<forall>n. bit x n \<longrightarrow> n < k"
  then have "take_bit k x = x" by (intro bit_word_eqI) (auto simp: bit_take_bit_iff)
  then have "unat x = take_bit k (unat x)" by (metis unsigned_take_bit_eq)
  then show "unat x < 2 ^ k" by (metis take_bit_nat_less_exp)
qed

definition cont_byte :: "nat \<Rightarrow> u64 \<Rightarrow> u8" where
  "cont_byte k x = 0x80 OR ucast (take_bit 6 (drop_bit k x))"

lemma bit_cont_byte: "bit (cont_byte k x) n \<longleftrightarrow> n = 7 \<or> n < 6 \<and> bit x (k + n)"
  unfolding cont_byte_def bit_or_iff bit_0x80 by (auto simp: bit_simps)

lemma iscont_cont_byte: "iscont (cont_byte k x)"
  by (simp add: iscont_bits bit_cont_byte)

lemma cont_bits_cont_byte: "bit (cont_bits (cont_byte k x)) n \<longleftrightarrow> n < 6 \<and> bit x (k + n)"
  by (auto simp: bit_cont_bits bit_cont_byte)

lemma esc_loop_stop:
  "unat x div 64 \<le> unat mfb div 2 \<Longrightarrow>
   esc_loop x mfb buff = ucast (push_bit 1 (NOT (drop_bit 1 mfb)) OR ucast (drop_bit 6 x) :: u32) # cont_byte 0 x # buff"
  and esc_loop_go:
  "unat x div 64 > unat mfb div 2 \<Longrightarrow>
   esc_loop x mfb buff = esc_loop (drop_bit 6 x) (drop_bit 1 mfb) (cont_byte 0 x # buff)"
proof -
  have m: "unat (ucast (drop_bit 1 mfb) :: u64) = unat mfb div 2" by (simp add: unat_drop_bit)
  have c: "drop_bit 6 x > ucast (drop_bit 1 mfb) \<longleftrightarrow> unat x div 64 > unat mfb div 2"
    unfolding word_less_nat_alt m by (simp add: unat_drop_bit)
  show "unat x div 64 \<le> unat mfb div 2 \<Longrightarrow>
   esc_loop x mfb buff = ucast (push_bit 1 (NOT (drop_bit 1 mfb)) OR ucast (drop_bit 6 x) :: u32) # cont_byte 0 x # buff"
    using c by (subst esc_loop.simps) (simp add: low_bits cont_byte_def Let_def)
  show "unat x div 64 > unat mfb div 2 \<Longrightarrow>
   esc_loop x mfb buff = esc_loop (drop_bit 6 x) (drop_bit 1 mfb) (cont_byte 0 x # buff)"
    using c by (subst esc_loop.simps) (simp add: low_bits cont_byte_def Let_def)
qed

lemma cont_byte_drop: "cont_byte k (drop_bit j x) = cont_byte (j + k) x"
  by (simp add: cont_byte_def add.commute)

lemma esc_1: "unat x < 0x80 \<Longrightarrow> luaO_utf8esc x = [ucast x]"
  by (simp add: luaO_utf8esc_def word_less_nat_alt)

lemma first_byte:
  fixes y :: u64
  shows "(ucast (- 64 OR ucast y :: u32) :: u8) = 0xC0 OR ucast y" "(ucast (- 32 OR ucast y :: u32) :: u8) = 0xE0 OR ucast y"
    "(ucast (- 16 OR ucast y :: u32) :: u8) = 0xF0 OR ucast y"
proof -
  have "(ucast (a OR ucast y :: u32) :: u8) = ucast a OR ucast y" for a
    by (rule bit_word_eqI) (auto simp: bit_simps)
  moreover have c: "(ucast (- 64 :: u32) :: u8) = 0xC0" "(ucast (- 32 :: u32) :: u8) = 0xE0" "(ucast (- 16 :: u32) :: u8) = 0xF0"
    by (rule unsigned_word_eqI; simp)+
  ultimately show "(ucast (- 64 OR ucast y :: u32) :: u8) = 0xC0 OR ucast y" "(ucast (- 32 OR ucast y :: u32) :: u8) = 0xE0 OR ucast y"
    "(ucast (- 16 OR ucast y :: u32) :: u8) = 0xF0 OR ucast y"
    by (simp_all only:)
qed

lemma esc_2:
  assumes "0x80 \<le> unat x" "unat x < 0x800"
  shows "luaO_utf8esc x = [0xC0 OR ucast (drop_bit 6 x), cont_byte 0 x]"
proof -
  have e: "luaO_utf8esc x = esc_loop x 0x3F []" using assms by (simp add: luaO_utf8esc_def word_less_nat_alt)
  show ?thesis unfolding e using assms by (subst esc_loop_stop) (simp_all add: first_byte)
qed

lemma esc_3:
  assumes "0x800 \<le> unat x" "unat x < 0x10000"
  shows "luaO_utf8esc x = [0xE0 OR ucast (drop_bit 12 x), cont_byte 6 x, cont_byte 0 x]"
proof -
  have e: "luaO_utf8esc x = esc_loop x 0x3F []" using assms by (simp add: luaO_utf8esc_def word_less_nat_alt)
  have go: "esc_loop x 0x3F [] = esc_loop (drop_bit 6 x) 0x1F [cont_byte 0 x]"
    using assms by (subst esc_loop_go) simp_all
  have "unat (drop_bit 6 x) div 64 \<le> unat (0x1F :: u32) div 2" using assms by (simp add: unat_drop_bit)
  from esc_loop_stop [OF this] show ?thesis unfolding e go by (simp add: first_byte cont_byte_drop)
qed

lemma esc_4:
  assumes "0x10000 \<le> unat x" "unat x < 0x200000"
  shows "luaO_utf8esc x = [0xF0 OR ucast (drop_bit 18 x), cont_byte 12 x, cont_byte 6 x, cont_byte 0 x]"
proof -
  have e: "luaO_utf8esc x = esc_loop x 0x3F []" using assms by (simp add: luaO_utf8esc_def word_less_nat_alt)
  have go: "esc_loop x 0x3F [] = esc_loop (drop_bit 6 x) 0x1F [cont_byte 0 x]"
    using assms by (subst esc_loop_go) simp_all
  have "unat (drop_bit 6 x) div 64 > unat (0x1F :: u32) div 2" using assms by (simp add: unat_drop_bit)
  from esc_loop_go [OF this] have go2: "esc_loop (drop_bit 6 x) 0x1F [cont_byte 0 x] =
      esc_loop (drop_bit 12 x) 0xF [cont_byte 6 x, cont_byte 0 x]" by (simp add: cont_byte_drop)
  have "unat (drop_bit 12 x) div 64 \<le> unat (0xF :: u32) div 2" using assms by (simp add: unat_drop_bit)
  from esc_loop_stop [OF this] show ?thesis unfolding e go go2 by (simp add: first_byte cont_byte_drop)
qed

section \<open>Decoding inverts encoding\<close>

lemma unat_ucast_small: "unat x < 2 ^ 32 \<Longrightarrow> unat (ucast x :: u32) = unat x" for x :: u64
  by (simp add: unsigned_ucast_eq take_bit_nat_eq_self)

lemma checked_ok:
  "v = ucast (x :: u64) \<Longrightarrow> unat x \<le> 0x10FFFF \<Longrightarrow> unat (limits ! k) < unat x \<Longrightarrow> checked k v = Some (ucast x, k + 1)"
  by (simp add: checked_def MAXUNICODE_def word_less_nat_alt word_le_nat_alt unat_ucast_small)

lemma decode_esc:
  assumes "unat x \<le> 0x10FFFF"
  shows "utf8_decode (luaO_utf8esc x @ rest) = Some (ucast x, length (luaO_utf8esc x))"
proof -
  consider "unat x < 0x80" | "0x80 \<le> unat x" "unat x < 0x800" | "0x800 \<le> unat x" "unat x < 0x10000"
    | "0x10000 \<le> unat x" "unat x < 0x200000" using assms by linarith
  then show ?thesis
  proof cases
    case 1
    then have hi: "bit x n \<Longrightarrow> n < 7" for n using unat_bits [of x 7] by simp
    then have "\<not> bit (ucast x :: u8) 7" by (auto simp: bit_simps)
    moreover have "(ucast (ucast x :: u8) :: u32) = ucast x"
      by (rule bit_word_eqI) (auto simp: bit_simps dest: hi)
    ultimately show ?thesis by (simp add: esc_1 [OF 1] decode_ascii)
  next
    case 2
    then have hi: "bit x n \<Longrightarrow> n < 11" for n using unat_bits [of x 11] by simp
    let ?b0 = "0xC0 OR ucast (drop_bit 6 x) :: u8"
    have b0: "bit ?b0 n \<longleftrightarrow> n = 6 \<or> n = 7 \<or> n < 8 \<and> bit x (6 + n)" for n
      by (simp only: bit_or_iff bit_0xC0) (auto simp: bit_simps)
    have "val2 ?b0 (cont_byte 0 x) = ucast x"
      by (rule bit_word_eqI) (auto simp: val2_def bit_or_iff bit_push_bit_iff cont_bits_cont_byte bit_ucast_iff bit_take_bit_iff bit_drop_bit_eq b0 dest: hi)
    then have "checked 1 (val2 ?b0 (cont_byte 0 x)) = Some (ucast x, 1 + 1)"
      by (rule checked_ok) (use assms 2 in \<open>simp_all add: limits_def\<close>)
    moreover have "bit ?b0 7" "bit ?b0 6" "\<not> bit ?b0 5" using hi [of 11] by (auto simp: b0)
    ultimately show ?thesis by (simp add: esc_2 [OF 2] decode_multi iscont_cont_byte)
  next
    case 3
    then have hi: "bit x n \<Longrightarrow> n < 16" for n using unat_bits [of x 16] by simp
    let ?b0 = "0xE0 OR ucast (drop_bit 12 x) :: u8"
    have b0: "bit ?b0 n \<longleftrightarrow> n = 5 \<or> n = 6 \<or> n = 7 \<or> n < 8 \<and> bit x (12 + n)" for n
      by (simp only: bit_or_iff bit_0xE0) (auto simp: bit_simps)
    have "val3 ?b0 (cont_byte 6 x) (cont_byte 0 x) = ucast x"
      by (rule bit_word_eqI) (auto simp: val3_def bit_or_iff bit_push_bit_iff cont_bits_cont_byte bit_ucast_iff bit_take_bit_iff bit_drop_bit_eq b0 dest: hi)
    then have "checked 2 (val3 ?b0 (cont_byte 6 x) (cont_byte 0 x)) = Some (ucast x, 2 + 1)"
      by (rule checked_ok) (use assms 3 in \<open>simp_all add: limits_def\<close>)
    moreover have "bit ?b0 7" "bit ?b0 6" "bit ?b0 5" "\<not> bit ?b0 4" using hi [of 16] by (auto simp: b0)
    ultimately show ?thesis by (simp add: esc_3 [OF 3] decode_multi iscont_cont_byte)
  next
    case 4
    then have hi: "bit x n \<Longrightarrow> n < 21" for n using unat_bits [of x 21] by simp
    let ?b0 = "0xF0 OR ucast (drop_bit 18 x) :: u8"
    have b0: "bit ?b0 n \<longleftrightarrow> 4 \<le> n \<and> n < 8 \<or> n < 8 \<and> bit x (18 + n)" for n
      by (simp only: bit_or_iff bit_0xF0) (auto simp: bit_simps)
    have "bit (val4 ?b0 (cont_byte 12 x) (cont_byte 6 x) (cont_byte 0 x)) n = bit (ucast x :: u32) n" if "n < LENGTH(32)" for n
      using that by (cases "n < 12")
        (auto simp: val4_def bit_or_iff bit_push_bit_iff cont_bits_cont_byte bit_ucast_iff bit_take_bit_iff bit_drop_bit_eq b0 dest: hi)
    then have "val4 ?b0 (cont_byte 12 x) (cont_byte 6 x) (cont_byte 0 x) = ucast x" by (rule bit_word_eqI)
    then have "checked 3 (val4 ?b0 (cont_byte 12 x) (cont_byte 6 x) (cont_byte 0 x)) = Some (ucast x, 3 + 1)"
      by (rule checked_ok) (use assms 4 in \<open>simp_all add: limits_def\<close>)
    moreover have "bit ?b0 7" "bit ?b0 6" "bit ?b0 5" "bit ?b0 4" "\<not> bit ?b0 3" using hi [of 21] by (auto simp: b0)
    ultimately show ?thesis by (simp add: esc_4 [OF 4] decode_multi iscont_cont_byte)
  qed
qed

section \<open>Only canonical encodings are accepted\<close>

lemma ucast_up: "bit (ucast v :: u64) n \<longleftrightarrow> bit v n" for v :: u32
  by (auto simp: bit_simps dest: bit_imp_possible_bit)

lemma unat_up: "unat (ucast v :: u64) = unat v" for v :: u32
  by (simp add: unsigned_ucast_eq take_bit_nat_eq_self_iff order_less_le_trans [OF unsigned_less])

lemma cont_byte_eq:
  assumes "iscont b" "\<And>n. n < 6 \<Longrightarrow> bit x (k + n) = bit b n"
  shows "cont_byte k x = b"
proof (rule bit_word_eqI)
  fix n assume "n < LENGTH(8)"
  then consider "n < 6" | "n = 6" | "n = 7" by fastforce
  then show "bit (cont_byte k x) n = bit b n"
    using assms by cases (auto simp: bit_cont_byte iscont_bits)
qed

lemma checkedD: "checked k v = Some (w, n) \<Longrightarrow> w = v \<and> n = k + 1 \<and> v \<le> MAXUNICODE \<and> limits ! k < v"
  by (auto simp: checked_def split: if_splits)

lemma canonical_2:
  assumes "bit b0 7" "bit b0 6" "\<not> bit b0 5" "iscont b1" and l: "limits ! 1 < val2 b0 b1"
  shows "luaO_utf8esc (ucast (val2 b0 b1)) = [b0, b1]"
proof -
  define x :: u64 where "x = ucast (val2 b0 b1)"
  have bits: "bit x n \<longleftrightarrow> n < 6 \<and> bit b1 n \<or> 6 \<le> n \<and> n < 11 \<and> bit b0 (n - 6)" for n
    unfolding x_def ucast_up by (auto simp: val2_def bit_or_iff bit_push_bit_iff bit_cont_bits bit_ucast_iff bit_take_bit_iff)
  have "unat x < 2 ^ 11" unfolding unat_bits bits by auto
  moreover have "0x80 \<le> unat x" using l by (simp add: limits_def word_less_nat_alt unat_up x_def)
  ultimately have "luaO_utf8esc x = [0xC0 OR ucast (drop_bit 6 x), cont_byte 0 x]" by (intro esc_2) simp_all
  moreover have "cont_byte 0 x = b1" by (rule cont_byte_eq [OF assms(4)]) (simp add: bits)
  moreover have "(0xC0 OR ucast (drop_bit 6 x) :: u8) = b0"
  proof (rule bit_word_eqI)
    fix n assume "n < LENGTH(8)"
    then consider "n < 5" | "n = 5" | "n = 6" | "n = 7" by fastforce
    then show "bit (0xC0 OR ucast (drop_bit 6 x) :: u8) n = bit b0 n"
      unfolding bit_or_iff bit_0xC0 using assms by cases (simp_all add: bit_ucast_iff bit_drop_bit_eq bits)
  qed
  ultimately show ?thesis by (simp add: x_def)
qed

lemma canonical_3:
  assumes "bit b0 7" "bit b0 6" "bit b0 5" "\<not> bit b0 4" "iscont b1" "iscont b2" and l: "limits ! 2 < val3 b0 b1 b2"
  shows "luaO_utf8esc (ucast (val3 b0 b1 b2)) = [b0, b1, b2]"
proof -
  define x :: u64 where "x = ucast (val3 b0 b1 b2)"
  have bits: "bit x n \<longleftrightarrow> n < 6 \<and> bit b2 n \<or> 6 \<le> n \<and> n < 12 \<and> bit b1 (n - 6) \<or> 12 \<le> n \<and> n < 16 \<and> bit b0 (n - 12)" for n
    unfolding x_def ucast_up by (auto simp: val3_def bit_or_iff bit_push_bit_iff bit_cont_bits bit_ucast_iff bit_take_bit_iff)
  have "unat x < 2 ^ 16" unfolding unat_bits bits by auto
  moreover have "0x800 \<le> unat x" using l by (simp add: limits_def word_less_nat_alt unat_up x_def)
  ultimately have "luaO_utf8esc x = [0xE0 OR ucast (drop_bit 12 x), cont_byte 6 x, cont_byte 0 x]" by (intro esc_3) simp_all
  moreover have "cont_byte 0 x = b2" by (rule cont_byte_eq [OF assms(6)]) (simp add: bits)
  moreover have "cont_byte 6 x = b1" by (rule cont_byte_eq [OF assms(5)]) (simp add: bits)
  moreover have "(0xE0 OR ucast (drop_bit 12 x) :: u8) = b0"
  proof (rule bit_word_eqI)
    fix n assume "n < LENGTH(8)"
    then consider "n < 4" | "n = 4" | "n = 5" | "n = 6" | "n = 7" by fastforce
    then show "bit (0xE0 OR ucast (drop_bit 12 x) :: u8) n = bit b0 n"
      unfolding bit_or_iff bit_0xE0 using assms by cases (simp_all add: bit_ucast_iff bit_drop_bit_eq bits)
  qed
  ultimately show ?thesis by (simp add: x_def)
qed

lemma canonical_4:
  assumes "bit b0 7" "bit b0 6" "bit b0 5" "bit b0 4" "\<not> bit b0 3" "iscont b1" "iscont b2" "iscont b3"
    and l: "limits ! 3 < val4 b0 b1 b2 b3"
  shows "luaO_utf8esc (ucast (val4 b0 b1 b2 b3)) = [b0, b1, b2, b3]"
proof -
  define x :: u64 where "x = ucast (val4 b0 b1 b2 b3)"
  have bits: "bit x n \<longleftrightarrow> n < 6 \<and> bit b3 n \<or> 6 \<le> n \<and> n < 12 \<and> bit b2 (n - 6) \<or>
      12 \<le> n \<and> n < 18 \<and> bit b1 (n - 12) \<or> 18 \<le> n \<and> n < 21 \<and> bit b0 (n - 18)" for n
    unfolding x_def ucast_up by (auto simp: val4_def bit_or_iff bit_push_bit_iff bit_cont_bits bit_ucast_iff bit_take_bit_iff)
  have "unat x < 2 ^ 21" unfolding unat_bits bits by auto
  moreover have "0x10000 \<le> unat x" using l by (simp add: limits_def word_less_nat_alt unat_up x_def)
  ultimately have "luaO_utf8esc x = [0xF0 OR ucast (drop_bit 18 x), cont_byte 12 x, cont_byte 6 x, cont_byte 0 x]"
    by (intro esc_4) simp_all
  moreover have "cont_byte 0 x = b3" by (rule cont_byte_eq [OF assms(8)]) (simp add: bits)
  moreover have "cont_byte 6 x = b2" by (rule cont_byte_eq [OF assms(7)]) (simp add: bits)
  moreover have "cont_byte 12 x = b1" by (rule cont_byte_eq [OF assms(6)]) (simp add: bits)
  moreover have "(0xF0 OR ucast (drop_bit 18 x) :: u8) = b0"
  proof (rule bit_word_eqI)
    fix n assume "n < LENGTH(8)"
    then consider "n < 3" | "n = 3" | "n = 4" | "n = 5" | "n = 6" | "n = 7" by fastforce
    then show "bit (0xF0 OR ucast (drop_bit 18 x) :: u8) n = bit b0 n"
      unfolding bit_or_iff bit_0xF0 using assms by cases (simp_all add: bit_ucast_iff bit_drop_bit_eq bits)
  qed
  ultimately show ?thesis by (simp add: x_def)
qed

lemma canonical_1: "\<not> bit b 7 \<Longrightarrow> luaO_utf8esc (ucast (ucast b :: u32)) = [b]" for b :: u8
proof -
  assume b: "\<not> bit b 7"
  have "(ucast b :: u32) < 0x80" using b ascii_bit by blast
  then have "unat (ucast (ucast b :: u32) :: u64) < 0x80" unfolding unat_up by (simp add: word_less_nat_alt)
  then have "luaO_utf8esc (ucast (ucast b :: u32)) = [ucast (ucast (ucast b :: u32) :: u64)]" by (rule esc_1)
  moreover have "(ucast (ucast (ucast b :: u32) :: u64) :: u8) = b"
    by (rule bit_word_eqI) (auto simp: bit_simps)
  ultimately show ?thesis by simp
qed

lemma decode_canonical:
  assumes "utf8_decode (b0 # s) = Some (v, n)"
  shows "v \<le> MAXUNICODE \<and> n = length (luaO_utf8esc (ucast v)) \<and> (\<exists>rest. b0 # s = luaO_utf8esc (ucast v) @ rest)"
proof (cases "bit b0 7")
  case False
  then have "v = ucast b0" "n = 1" using assms by (simp_all add: decode_ascii)
  moreover have "ucast b0 \<le> MAXUNICODE"
    using False by (simp add: MAXUNICODE_def word_le_nat_alt ascii_bit [symmetric] word_less_nat_alt)
  ultimately show ?thesis using canonical_1 [OF False] by simp
next
  case True
  from assms [unfolded decode_multi [OF True]] True show ?thesis
    by (auto split: if_splits list.splits dest!: checkedD simp: canonical_2 canonical_3 canonical_4)
qed

text \<open>C22: Decoding accepts exactly the shortest encodings: a nonempty string is decoded to a code
  point and a length exactly when it begins with the encoding of that code point, of that length,
  and the code point is at most \<open>0x10FFFF\<close>. So overlong forms, stray continuation bytes and cut
  characters are all refused.\<close>
theorem decoded_exactly_when_encoded:
  assumes "s \<noteq> []"
  shows "utf8_decode s = Some (v, n) \<longleftrightarrow>
    v \<le> MAXUNICODE \<and> n = length (luaO_utf8esc (ucast v)) \<and> (\<exists>rest. s = luaO_utf8esc (ucast v) @ rest)"
proof
  assume "utf8_decode s = Some (v, n)"
  then show "v \<le> MAXUNICODE \<and> n = length (luaO_utf8esc (ucast v)) \<and> (\<exists>rest. s = luaO_utf8esc (ucast v) @ rest)"
    using assms decode_canonical by (cases s) auto
next
  assume "v \<le> MAXUNICODE \<and> n = length (luaO_utf8esc (ucast v)) \<and> (\<exists>rest. s = luaO_utf8esc (ucast v) @ rest)"
  moreover have "ucast (ucast v :: u64) = v" by (rule unsigned_word_eqI) (simp add: unat_up unat_ucast_small)
  ultimately show "utf8_decode s = Some (v, n)"
    using decode_esc [of "ucast v"] by (auto simp: unat_up MAXUNICODE_def word_le_nat_alt)
qed

theorem decoded_exactly_when_encoded_witness:
  "utf8_decode [0xE2, 0x82, 0xAC, 0x21] = Some (0x20AC, 3) \<and>
   utf8_decode [0xC0, 0x80] \<noteq> Some (0, 2)"
proof -
  have e: "luaO_utf8esc 0x20AC = [0xE2, 0x82, 0xAC]" "luaO_utf8esc 0 = [0]" by code_simp+
  show ?thesis
    using decoded_exactly_when_encoded [where s = "[0xE2, 0x82, 0xAC, 0x21]" and v = "0x20AC" and n = 3]
      decoded_exactly_when_encoded [where s = "[0xC0, 0x80]" and v = 0 and n = 2]
    by (simp add: e MAXUNICODE_def)
qed

section \<open>Strings of encoded characters\<close>

lemma utfchar_from_Inr:
  "utfchar_from i codes = Inr s \<Longrightarrow>
   s = concat (map luaO_utf8esc codes) \<and> (\<forall>x \<in> set codes. unat x \<le> 0x10FFFF)"
proof (induction i codes arbitrary: s rule: utfchar_from.induct)
  case (2 i code codes)
  have "0 \<le> sint code \<Longrightarrow> sint code \<le> 0x10FFFF \<Longrightarrow> unat code \<le> 0x10FFFF"
  proof -
    assume a: "0 \<le> sint code" "sint code \<le> 0x10FFFF"
    have "uint code = sint code" unfolding uint_sint [of code] using a by (intro take_bit_int_eq_self) simp_all
    then show "unat code \<le> 0x10FFFF" using a(2) by (simp add: unat_eq_nat_uint)
  qed
  with 2 show ?case by (auto simp: pushutfchar_def split: sum.splits if_splits)
qed simp

definition enc :: "u64 list \<Rightarrow> u8 list" where
  "enc codes = concat (map luaO_utf8esc codes)"

lemma enc_simps: "enc [] = []" "enc (c # cs) = luaO_utf8esc c @ enc cs" "enc (xs @ ys) = enc xs @ enc ys"
  by (simp_all add: enc_def)

lemma codepoint_loop_enc:
  assumes "\<forall>x \<in> set cs. unat x \<le> 0x10FFFF" "p = int (length pre)" "se = int (length (pre @ enc cs))"
  shows "codepoint_loop (pre @ enc cs) p se = Inr (map ucast cs)"
  using assms
proof (induction cs arbitrary: pre p)
  case Nil
  then show ?case by (subst codepoint_loop.simps) (simp add: enc_simps)
next
  case (Cons c cs)
  have d: "utf8_decode (luaO_utf8esc c @ enc cs) = Some (ucast c, length (luaO_utf8esc c))"
    using Cons.prems by (intro decode_esc) simp
  obtain L where L: "length (luaO_utf8esc c) = Suc L" using utf8_decode_pos [OF d] gr0_conv_Suc by blast
  have "codepoint_loop ((pre @ luaO_utf8esc c) @ enc cs) (p + int (length (luaO_utf8esc c))) se = Inr (map ucast cs)"
    using Cons.prems by (intro Cons.IH) (simp_all add: enc_simps)
  then show ?case
    using Cons.prems(2,3) by (subst codepoint_loop.simps) (simp add: enc_simps d L)
qed

lemma utflen_loop_enc:
  assumes "\<forall>x \<in> set cs. unat x \<le> 0x10FFFF" "p = int (length pre)" "q = int (length (pre @ enc cs)) - 1"
  shows "utflen_loop (pre @ enc cs) p q n = Count (n + int (length cs))"
  using assms
proof (induction cs arbitrary: pre p n)
  case Nil
  then show ?case by (subst utflen_loop.simps) (simp add: enc_simps)
next
  case (Cons c cs)
  have d: "utf8_decode (luaO_utf8esc c @ enc cs) = Some (ucast c, length (luaO_utf8esc c))"
    using Cons.prems by (intro decode_esc) simp
  obtain L where L: "length (luaO_utf8esc c) = Suc L" using utf8_decode_pos [OF d] gr0_conv_Suc by blast
  have "utflen_loop ((pre @ luaO_utf8esc c) @ enc cs) (p + int (length (luaO_utf8esc c))) q (n + 1) =
      Count ((n + 1) + int (length cs))"
    using Cons.prems by (intro Cons.IH) (simp_all add: enc_simps)
  then show ?case
    using Cons.prems(2,3) by (subst utflen_loop.simps) (simp add: enc_simps d L)
qed

text \<open>\<open>utf8.char\<close> and \<open>utf8.codepoint\<close> are inverse: the code points of the whole string that
  \<open>char\<close> built are the ones it was given, and \<open>utf8.len\<close> counts them, for every string of less than
  \<open>2^31\<close> bytes that the stack has room for.\<close>
theorem characters_round_trip:
  assumes "utfchar codes = Inr s" "length s < 2 ^ 31" "stack_room (int (length s))"
  shows "codepoint stack_room s (Some 1) (Some (- 1)) = Inr (map ucast codes) \<and>
    utflen s None None = Inr (Count (int (length codes)))"
proof -
  have s: "s = enc codes" and ok: "\<forall>x \<in> set codes. unat x \<le> 0x10FFFF"
    using utfchar_from_Inr assms(1) by (auto simp: utfchar_def enc_def)
  have "codepoint_loop s 0 (int (length s)) = Inr (map ucast codes)"
    using codepoint_loop_enc [OF ok, of 0 "[]"] by (simp add: s)
  moreover have "utflen_loop s 0 (int (length s) - 1) 0 = Count (int (length codes))"
    using utflen_loop_enc [OF ok, of 0 "[]"] by (simp add: s)
  moreover have "codes = [] \<longleftrightarrow> s = []"
    unfolding s by (cases codes) (use decode_esc utf8_decode_pos ok in \<open>fastforce simp: enc_simps\<close>)+
  ultimately show ?thesis using assms(2,3)
    by (cases s) (auto simp: codepoint_def utflen_def u_posrelat_def Let_def add.commute)
qed

theorem characters_round_trip_witness:
  "codepoint (\<lambda>n. n \<le> 1000000) [0x61, 0xC3, 0xA9] (Some 1) (Some (- 1)) = Inr [0x61, 0xE9] \<and>
   utflen [0x61, 0xC3, 0xA9] None None = Inr (Count 2)"
proof -
  have "utfchar [0x61, 0xE9] = Inr [0x61, 0xC3, 0xA9]" by code_simp
  from characters_round_trip [OF this, of "\<lambda>n. n \<le> 1000000"] show ?thesis by simp
qed

section \<open>Offsets of characters\<close>

lemma esc_shape:
  assumes "unat x \<le> 0x10FFFF"
  shows "\<exists>b bs. luaO_utf8esc x = b # bs \<and> \<not> iscont b \<and> (\<forall>c \<in> set bs. iscont c)"
proof -
  have first: "\<not> iscont (0xC0 OR a)" "\<not> iscont (0xE0 OR a)" "\<not> iscont (0xF0 OR a)" for a
    unfolding iscont_bits bit_or_iff bit_0xC0 bit_0xE0 bit_0xF0 by simp_all
  have ascii: "\<not> iscont (ucast x)" if "unat x < 0x80"
    using that unat_bits [of x 7] by (auto simp: iscont_bits bit_ucast_iff)
  consider "unat x < 0x80" | "0x80 \<le> unat x" "unat x < 0x800" | "0x800 \<le> unat x" "unat x < 0x10000"
    | "0x10000 \<le> unat x" "unat x < 0x200000" using assms by linarith
  then show ?thesis
    by cases (auto simp: esc_1 esc_2 esc_3 esc_4 first ascii iscont_cont_byte)
qed

lemma next_start_skips:
  "\<forall>c \<in> set bs. iscont c \<Longrightarrow> \<not> iscont (byte_of post 0) \<Longrightarrow>
   next_start (pre @ bs @ post) (length pre) = length pre + length bs"
proof (induction bs arbitrary: pre)
  case Nil
  then show ?case by (subst next_start.simps) (auto simp: byte_of_def nth_append split: if_splits)
next
  case (Cons b bs)
  have "next_start ((pre @ [b]) @ bs @ post) (length (pre @ [b])) = length (pre @ [b]) + length bs"
    using Cons.prems by (intro Cons.IH) simp_all
  then show ?case
    using Cons.prems(1) by (subst next_start.simps) (simp add: byte_of_def nth_append)
qed

lemma not_iscont_enc: "\<forall>x \<in> set cs. unat x \<le> 0x10FFFF \<Longrightarrow> \<not> iscont (byte_of (enc cs) 0)"
proof (cases cs)
  case (Cons c ds)
  assume "\<forall>x \<in> set cs. unat x \<le> 0x10FFFF"
  with Cons obtain b bs where "luaO_utf8esc c = b # bs" "\<not> iscont b" using esc_shape [of c] by auto
  then show ?thesis by (simp add: Cons enc_simps byte_of_def)
qed (simp add: enc_simps byte_of_def not_iscont_0)

lemma forward_chars_enc:
  "\<forall>x \<in> set cs. unat x \<le> 0x10FFFF \<Longrightarrow> k \<le> length cs \<Longrightarrow>
   forward_chars (pre @ enc cs) k (length pre) = (0, length pre + length (enc (take k cs)))"
proof (induction cs arbitrary: pre k)
  case Nil
  then show ?case by (simp add: enc_simps)
next
  case (Cons c cs)
  show ?case
  proof (cases k)
    case (Suc j)
    obtain b bs where e: "luaO_utf8esc c = b # bs" "\<forall>c \<in> set bs. iscont c"
      using esc_shape [of c] Cons.prems(1) by auto
    have "next_start ((pre @ [b]) @ bs @ enc cs) (length (pre @ [b])) = length (pre @ [b]) + length bs"
      using e(2) not_iscont_enc Cons.prems(1) by (intro next_start_skips) simp_all
    moreover have "forward_chars ((pre @ b # bs) @ enc cs) j (length (pre @ b # bs)) =
        (0, length (pre @ b # bs) + length (enc (take j cs)))"
      using Cons.prems Suc by (intro Cons.IH) simp_all
    ultimately show ?thesis by (simp add: Suc enc_simps e(1))
  qed (simp add: enc_simps)
qed

text \<open>\<open>utf8.offset(s, n)\<close> finds the position where the encoding of the \<open>n\<close>-th character starts: after
  the encodings of the first \<open>k\<close> characters comes position \<open>offset(s, k + 1)\<close>, the end of the
  string included.\<close>
theorem offset_of_character:
  assumes "utfchar codes = Inr s" "k \<le> length codes"
  shows "byteoffset s (int k + 1) None = Inr (Some (int (length (enc (take k codes))) + 1))"
proof -
  have s: "s = enc codes" and ok: "\<forall>x \<in> set codes. unat x \<le> 0x10FFFF"
    using utfchar_from_Inr assms(1) by (auto simp: utfchar_def enc_def)
  show ?thesis
    using forward_chars_enc [OF ok assms(2), of "[]"] not_iscont_enc [OF ok]
    by (simp add: byteoffset_def u_posrelat_def s Let_def)
qed

theorem offset_of_character_witness:
  "byteoffset [0x61, 0xC3, 0xA9, 0x62] 3 None = Inr (Some 4)"
proof -
  have c: "utfchar [0x61, 0xE9, 0x62] = Inr [0x61, 0xC3, 0xA9, 0x62]" by code_simp
  have l: "length (enc (take 2 [0x61, 0xE9, 0x62])) = 3" by code_simp
  show ?thesis using offset_of_character [OF c, of 2] unfolding l by simp
qed

end
