(* ===== verification/LuaString.thy ===== *)
theory LuaString
  imports Prelude "HOL-Library.Multiset"
begin

text \<open>
  Strings of the embedded interpreter (\<open>lstring.c\<close> and the string cases of \<open>lgc.c\<close> under
  \<open>lua/lua-5.3.1/src\<close>). Short strings are interned: the string table holds one object per text.
  An object is named by its address; a bucket of the table is the list of the objects chained in
  it. The address of a new object is an argument of the operations that create one (the allocator
  chooses it, and succeeds). The lemmas show that the table is a map from texts to objects that
  resizing leaves alone.
\<close>

section \<open>State\<close>

datatype string_tag = LUA_TSHRSTR | LUA_TLNGSTR

record tstring =
  ts_tag :: string_tag
  ts_marked :: u8
  ts_extra :: nat
  ts_hash :: u32
  ts_text :: "u8 list"

record strings =
  heap :: "nat \<Rightarrow> tstring option"
  strt :: "nat list list"
  nuse :: nat
  seed :: u32
  currentwhite :: u8
  memerrmsg :: nat
  strcache :: "nat list"

definition obj :: "strings \<Rightarrow> nat \<Rightarrow> tstring" where
  "obj g a = the (heap g a)"

definition set_obj :: "nat \<Rightarrow> tstring \<Rightarrow> strings \<Rightarrow> strings" where
  "set_obj a ts g = g\<lparr>heap := (heap g)(a \<mapsto> ts)\<rparr>"

section \<open>Colours\<close>

definition WHITEBITS :: u8 where "WHITEBITS = 3"

definition otherwhite :: "strings \<Rightarrow> u8" where
  "otherwhite g = currentwhite g XOR WHITEBITS"

definition isdead :: "strings \<Rightarrow> tstring \<Rightarrow> bool" where
  "isdead g v \<longleftrightarrow> (ts_marked v XOR WHITEBITS) AND otherwhite g = 0"

definition iswhite :: "tstring \<Rightarrow> bool" where
  "iswhite x \<longleftrightarrow> ts_marked x AND WHITEBITS \<noteq> 0"

definition changewhite :: "tstring \<Rightarrow> tstring" where
  "changewhite x = x\<lparr>ts_marked := ts_marked x XOR WHITEBITS\<rparr>"

definition luaC_white :: "strings \<Rightarrow> u8" where
  "luaC_white g = currentwhite g AND WHITEBITS"

section \<open>Hashing\<close>

function hash_loop :: "u8 list \<Rightarrow> nat \<Rightarrow> u32 \<Rightarrow> nat \<Rightarrow> u32" where
  "hash_loop str q h l1 =
     (if l1 \<ge> Suc q
      then hash_loop str q (h XOR (push_bit 5 h + drop_bit 2 h + ucast (str ! (l1 - 1)))) (l1 - Suc q)
      else h)"
  by pat_completeness auto
termination by (relation "measure (\<lambda>(str, q, h, l1). l1)") auto

declare hash_loop.simps [simp del]

definition LUAI_HASHLIMIT :: nat where "LUAI_HASHLIMIT = 5"

text \<open>The step is one more than the length shifted by the limit.\<close>

definition luaS_hash :: "u8 list \<Rightarrow> u32 \<Rightarrow> u32" where
  "luaS_hash str sd =
     (let l = length str in hash_loop str (drop_bit LUAI_HASHLIMIT l) (sd XOR of_nat l) l)"

definition lmod :: "u32 \<Rightarrow> nat \<Rightarrow> nat" where
  "lmod s sz = unat (s AND (of_nat sz - 1))"

definition luaS_eqlngstr :: "strings \<Rightarrow> nat \<Rightarrow> nat \<Rightarrow> bool" where
  "luaS_eqlngstr g a b \<longleftrightarrow> a = b \<or>
     length (ts_text (obj g a)) = length (ts_text (obj g b)) \<and> ts_text (obj g a) = ts_text (obj g b)"

section \<open>The string table\<close>

fun rehash_chain :: "strings \<Rightarrow> nat \<Rightarrow> nat list \<Rightarrow> nat list list \<Rightarrow> nat list list" where
  "rehash_chain g newsize [] hash = hash"
| "rehash_chain g newsize (p # hnext) hash =
     (let h = lmod (ts_hash (obj g p)) newsize
      in rehash_chain g newsize hnext (hash[h := p # hash ! h]))"

definition luaS_resize :: "nat \<Rightarrow> strings \<Rightarrow> strings" where
  "luaS_resize newsize g =
     (let size = length (strt g);
          grown = strt g @ replicate (newsize - size) [];
          rehashed = fold (\<lambda>i hash. rehash_chain g newsize (hash ! i) (hash[i := []])) [0..<size] grown
      in g\<lparr>strt := take newsize rehashed\<rparr>)"

definition createstrobj :: "nat \<Rightarrow> u8 list \<Rightarrow> string_tag \<Rightarrow> u32 \<Rightarrow> strings \<Rightarrow> strings" where
  "createstrobj a str tag h g =
     set_obj a \<lparr>ts_tag = tag, ts_marked = luaC_white g, ts_extra = 0, ts_hash = h, ts_text = str\<rparr> g"

fun unlink :: "nat \<Rightarrow> nat list \<Rightarrow> nat list" where
  "unlink ts [] = []"
| "unlink ts (p # ps) = (if p \<noteq> ts then p # unlink ts ps else ps)"

definition luaS_remove :: "nat \<Rightarrow> strings \<Rightarrow> strings" where
  "luaS_remove ts g =
     (let i = lmod (ts_hash (obj g ts)) (length (strt g))
      in g\<lparr>strt := (strt g)[i := unlink ts (strt g ! i)], nuse := nuse g - 1\<rparr>)"

definition MAX_INT :: nat where "MAX_INT = 2147483647"

definition internshrstr :: "nat \<Rightarrow> u8 list \<Rightarrow> strings \<Rightarrow> nat \<times> strings" where
  "internshrstr a str g =
     (let h = luaS_hash str (seed g)
      in case find (\<lambda>ts. length str = length (ts_text (obj g ts)) \<and> str = ts_text (obj g ts))
                (strt g ! lmod h (length (strt g))) of
           Some ts \<Rightarrow> (ts, if isdead g (obj g ts) then set_obj ts (changewhite (obj g ts)) g else g)
         | None \<Rightarrow>
             (let g1 = (if nuse g \<ge> length (strt g) \<and> length (strt g) \<le> MAX_INT div 2
                        then luaS_resize (length (strt g) * 2) g else g);
                  list = lmod h (length (strt g1));
                  g2 = createstrobj a str LUA_TSHRSTR h g1
              in (a, g2\<lparr>strt := (strt g2)[list := a # strt g2 ! list], nuse := nuse g2 + 1\<rparr>)))"

definition LUAI_MAXSHORTLEN :: nat where "LUAI_MAXSHORTLEN = 40"

definition MAX_SIZE :: nat where "MAX_SIZE = 2 ^ 63 - 1"

definition luaS_newlstr :: "nat \<Rightarrow> u8 list \<Rightarrow> strings \<Rightarrow> string + nat \<times> strings" where
  "luaS_newlstr a str g =
     (if length str \<le> LUAI_MAXSHORTLEN then Inr (internshrstr a str g)
      else if length str + 1 > MAX_SIZE - 24 then Inl ''memory allocation error: block too big''
      else Inr (a, createstrobj a str LUA_TLNGSTR (seed g) g))"

section \<open>The cache of C strings\<close>

definition STRCACHE_SIZE :: nat where "STRCACHE_SIZE = 127"

definition cstr :: "u8 list \<Rightarrow> u8 list" where
  "cstr s = takeWhile (\<lambda>b. b \<noteq> 0) s"

definition point2uint :: "u64 \<Rightarrow> u32" where
  "point2uint p = ucast (p AND 0xFFFFFFFF)"

text \<open>\<open>luaS_new\<close> on the C string \<open>str\<close> (without its terminating zero) stored at address \<open>p\<close>.\<close>

definition luaS_new :: "nat \<Rightarrow> u64 \<Rightarrow> u8 list \<Rightarrow> strings \<Rightarrow> string + nat \<times> strings" where
  "luaS_new a p str g =
     (let i = unat (point2uint p) mod STRCACHE_SIZE
      in if str = cstr (ts_text (obj g (strcache g ! i))) then Inr (strcache g ! i, g)
         else (case luaS_newlstr a str g of
                 Inl e \<Rightarrow> Inl e
               | Inr (s, g1) \<Rightarrow> Inr (s, g1\<lparr>strcache := (strcache g1)[i := s]\<rparr>)))"

definition luaS_clearcache :: "strings \<Rightarrow> strings" where
  "luaS_clearcache g =
     g\<lparr>strcache := map (\<lambda>s. if iswhite (obj g s) then memerrmsg g else s) (strcache g)\<rparr>"

definition MINSTRTABSIZE :: nat where "MINSTRTABSIZE = 128"

definition memerr_text :: "u8 list" where
  "memerr_text = map of_char ''not enough memory''"

text \<open>\<open>luaC_fix\<close> makes the message gray for ever.\<close>

definition fix_string :: "nat \<Rightarrow> strings \<Rightarrow> strings" where
  "fix_string a g = set_obj a ((obj g a)\<lparr>ts_marked := ts_marked (obj g a) AND NOT WHITEBITS\<rparr>) g"

definition luaS_init :: "nat \<Rightarrow> strings \<Rightarrow> strings" where
  "luaS_init a g =
     (let (m, g1) = internshrstr a memerr_text (luaS_resize MINSTRTABSIZE g);
          g2 = fix_string m (g1\<lparr>memerrmsg := m\<rparr>)
      in g2\<lparr>strcache := replicate STRCACHE_SIZE m\<rparr>)"

text \<open>The collector: freeing a string, shrinking the table after a cycle.\<close>

definition free_string :: "nat \<Rightarrow> strings \<Rightarrow> strings" where
  "free_string a g =
     (let g1 = (case ts_tag (obj g a) of LUA_TSHRSTR \<Rightarrow> luaS_remove a g | LUA_TLNGSTR \<Rightarrow> g)
      in g1\<lparr>heap := (heap g1)(a := None)\<rparr>)"

definition checkSizes :: "bool \<Rightarrow> strings \<Rightarrow> strings" where
  "checkSizes emergency g =
     (if \<not> emergency \<and> nuse g < length (strt g) div 4 then luaS_resize (length (strt g) div 2) g else g)"

section \<open>The table as a map\<close>

definition bucket_of :: "strings \<Rightarrow> u8 list \<Rightarrow> nat" where
  "bucket_of g str = lmod (luaS_hash str (seed g)) (length (strt g))"

text \<open>The object that stands for a text, when there is one.\<close>

definition interned :: "strings \<Rightarrow> u8 list \<Rightarrow> nat option" where
  "interned g str = find (\<lambda>ts. ts_text (obj g ts) = str) (strt g ! bucket_of g str)"

definition short_ok :: "strings \<Rightarrow> nat \<Rightarrow> bool" where
  "short_ok g a \<longleftrightarrow> heap g a \<noteq> None \<and> ts_tag (obj g a) = LUA_TSHRSTR \<and>
     length (ts_text (obj g a)) \<le> LUAI_MAXSHORTLEN \<and> ts_hash (obj g a) = luaS_hash (ts_text (obj g a)) (seed g)"

definition table_ok :: "strings \<Rightarrow> bool" where
  "table_ok g \<longleftrightarrow>
     (\<exists>k. 0 < k \<and> k \<le> 30 \<and> length (strt g) = 2 ^ k) \<and>
     distinct (concat (strt g)) \<and>
     (\<forall>i < length (strt g). \<forall>a \<in> set (strt g ! i). short_ok g a \<and> bucket_of g (ts_text (obj g a)) = i) \<and>
     inj_on (\<lambda>a. ts_text (obj g a)) (set (concat (strt g))) \<and>
     (\<forall>a ts. heap g a = Some ts \<longrightarrow> ts_tag ts = LUA_TSHRSTR \<longrightarrow> a \<in> set (concat (strt g))) \<and>
     nuse g = length (concat (strt g))"

lemma lmod_mod: "k \<le> 31 \<Longrightarrow> lmod h (2 ^ k) = unat h mod 2 ^ k"
proof -
  assume k: "k \<le> 31"
  have "of_nat (2 ^ k) - 1 = (mask k :: u32)" by (simp add: mask_eq_exp_minus_1)
  then have "lmod h (2 ^ k) = unat (take_bit k h)" by (simp add: lmod_def take_bit_eq_mask)
  also have "\<dots> = unat h mod 2 ^ k" unfolding unsigned_take_bit_eq by (simp add: take_bit_eq_mod)
  finally show ?thesis .
qed

lemma lmod_less: "k \<le> 31 \<Longrightarrow> lmod h (2 ^ k) < 2 ^ k"
  by (simp add: lmod_mod)

text \<open>Where the objects of a table with rehashed buckets are.\<close>

lemma rehash_chain_at:
  assumes "\<forall>p \<in> set ps. lmod (ts_hash (obj g p)) n < length hash"
  shows "length (rehash_chain g n ps hash) = length hash \<and>
    (j < length hash \<longrightarrow> rehash_chain g n ps hash ! j =
       rev (filter (\<lambda>p. lmod (ts_hash (obj g p)) n = j) ps) @ hash ! j)"
  using assms
proof (induction ps arbitrary: hash)
  case (Cons p ps)
  then show ?case
    using Cons.IH [of "hash[lmod (ts_hash (obj g p)) n := p # hash ! lmod (ts_hash (obj g p)) n]"]
    by (auto simp: Let_def nth_list_update)
qed simp


lemma concat_take_Suc: "i < length B \<Longrightarrow> concat (take (Suc i) B) = concat (take i B) @ B ! i"
  by (simp add: take_Suc_conv_app_nth)

lemma in_concat_take: "i \<le> length B \<Longrightarrow> p \<in> set (concat (take i B)) \<longleftrightarrow> (\<exists>j < i. p \<in> set (B ! j))"
  by (auto simp: nth_image [symmetric])

lemma rehashed_so_far:
  assumes keys: "\<And>i p. i < length B \<Longrightarrow> p \<in> set (B ! i) \<Longrightarrow>
      lmod (ts_hash (obj g p)) n < n \<and> (lmod (ts_hash (obj g p)) n \<le> i \<or> length B \<le> lmod (ts_hash (obj g p)) n)"
    and i: "i \<le> length B"
  defines "grown \<equiv> B @ replicate (n - length B) []"
  defines "H \<equiv> \<lambda>i. fold (\<lambda>i hash. rehash_chain g n (hash ! i) (hash[i := []])) [0..<i] grown"
  shows "length (H i) = max (length B) n \<and>
    (\<forall>j < max (length B) n. mset (H i ! j) =
       mset (filter (\<lambda>p. lmod (ts_hash (obj g p)) n = j) (concat (take i B))) +
       (if i \<le> j \<and> j < length B then mset (B ! j) else {#}))"
  using i
proof (induction i)
  case 0
  then show ?case by (auto simp: H_def grown_def nth_append)
next
  case (Suc i)
  define key where "key = (\<lambda>p. lmod (ts_hash (obj g p)) n)"
  have i: "i < length B" using Suc.prems by simp
  have len: "length (H i) = max (length B) n"
    and at: "j < max (length B) n \<Longrightarrow> mset (H i ! j) = mset (filter (\<lambda>p. key p = j) (concat (take i B))) +
       (if i \<le> j \<and> j < length B then mset (B ! j) else {#})" for j
    using Suc.IH i by (simp_all add: key_def)
  have none: "filter (\<lambda>p. key p = i) (concat (take i B)) = []"
    unfolding filter_empty_conv
  proof
    fix p assume "p \<in> set (concat (take i B))"
    then obtain j where "j < i" "p \<in> set (B ! j)" using i by (auto simp only: in_concat_take less_imp_le)
    then show "key p \<noteq> i" using keys [of j p] i by (auto simp: key_def)
  qed
  have old: "mset (H i ! i) = mset (B ! i)" using at [of i] i none by simp
  then have old_set: "set (H i ! i) = set (B ! i)" by (metis set_mset_mset)
  have step: "H (Suc i) = rehash_chain g n (H i ! i) ((H i)[i := []])" by (simp add: H_def)
  have fits: "\<forall>p \<in> set (H i ! i). lmod (ts_hash (obj g p)) n < length ((H i)[i := []])"
    using keys [OF i] old_set len by fastforce
  note chain = rehash_chain_at [OF fits]
  show ?case
  proof (intro conjI allI impI)
    show "length (H (Suc i)) = max (length B) n" using chain len by (simp add: step)
    fix j assume j: "j < max (length B) n"
    have "mset (H (Suc i) ! j) = filter_mset (\<lambda>p. key p = j) (mset (H i ! i)) + mset ((H i)[i := []] ! j)"
      using chain [of j] j len by (simp add: step key_def)
    also have "\<dots> = mset (filter (\<lambda>p. key p = j) (concat (take (Suc i) B))) +
        (if Suc i \<le> j \<and> j < length B then mset (B ! j) else {#})"
      using at [OF j] old i len j by (cases "j = i") (auto simp: concat_take_Suc none)
    finally show "mset (H (Suc i) ! j) =
        mset (filter (\<lambda>p. lmod (ts_hash (obj g p)) n = j) (concat (take (Suc i) B))) +
        (if Suc i \<le> j \<and> j < length B then mset (B ! j) else {#})" by (simp add: key_def)
  qed
qed

lemma mset_by_key: "(\<And>x. x \<in> set xs \<Longrightarrow> key x < n) \<Longrightarrow> mset (concat (map (\<lambda>j. filter (\<lambda>x. key x = j) xs) [0..<n])) = mset xs"
proof (induction n arbitrary: xs)
  case (Suc n)
  define ys where "ys = filter (\<lambda>x. key x < n) xs"
  have "map (\<lambda>j. filter (\<lambda>x. key x = j) xs) [0..<n] = map (\<lambda>j. filter (\<lambda>x. key x = j) ys) [0..<n]"
    unfolding ys_def by (intro map_cong refl) (auto intro!: filter_cong)
  moreover have "mset (concat (map (\<lambda>j. filter (\<lambda>x. key x = j) ys) [0..<n])) = mset ys"
    by (rule Suc.IH) (simp add: ys_def)
  ultimately have "mset (concat (map (\<lambda>j. filter (\<lambda>x. key x = j) xs) [0..<n])) = mset ys" by (simp only:)
  moreover have "filter (\<lambda>x. key x = n) xs = filter (\<lambda>x. \<not> key x < n) xs"
    using Suc.prems by (intro filter_cong refl) (force simp: less_Suc_eq)
  ultimately show ?case by (simp add: ys_def)
next
  case 0
  then show ?case by (cases xs) auto
qed

lemma mset_concat_cong:
  "length xs = length ys \<Longrightarrow> (\<And>j. j < length ys \<Longrightarrow> mset (xs ! j) = mset (ys ! j)) \<Longrightarrow> mset (concat xs) = mset (concat ys)"
  by (simp add: mset_concat) (metis (no_types, lifting) length_map nth_equalityI nth_map)

lemma obj_resize [simp]: "obj (luaS_resize n g) = obj g" "heap (luaS_resize n g) = heap g"
    "seed (luaS_resize n g) = seed g" "nuse (luaS_resize n g) = nuse g"
  by (simp_all add: fun_eq_iff obj_def luaS_resize_def Let_def)

lemma table_okD:
  assumes "table_ok g"
  obtains k where "0 < k" "k \<le> 30" "length (strt g) = 2 ^ k"
  using assms by (auto simp: table_ok_def)

lemma in_table: "table_ok g \<Longrightarrow> a \<in> set (concat (strt g)) \<Longrightarrow>
    short_ok g a \<and> bucket_of g (ts_text (obj g a)) < length (strt g) \<and>
    a \<in> set (strt g ! bucket_of g (ts_text (obj g a)))"
proof -
  assume ok: "table_ok g" and "a \<in> set (concat (strt g))"
  then obtain i where "i < length (strt g)" "a \<in> set (strt g ! i)" by (auto simp: in_set_conv_nth) (metis nth_mem)
  moreover from this have "short_ok g a" "bucket_of g (ts_text (obj g a)) = i" using ok by (simp_all add: table_ok_def)
  ultimately show "short_ok g a \<and> bucket_of g (ts_text (obj g a)) < length (strt g) \<and>
    a \<in> set (strt g ! bucket_of g (ts_text (obj g a)))" by simp
qed

lemma interned_iff:
  assumes ok: "table_ok g"
  shows "interned g str = Some a \<longleftrightarrow> a \<in> set (concat (strt g)) \<and> ts_text (obj g a) = str"
proof
  assume "interned g str = Some a"
  then have t: "ts_text (obj g a) = str" and a: "a \<in> set (strt g ! bucket_of g str)"
    by (auto simp: interned_def find_Some_iff)
  obtain k where "k \<le> 30" "length (strt g) = 2 ^ k" using table_okD [OF ok] .
  then have "bucket_of g str < length (strt g)" by (simp add: bucket_of_def lmod_less)
  then show "a \<in> set (concat (strt g)) \<and> ts_text (obj g a) = str" using a t by auto
next
  assume a: "a \<in> set (concat (strt g)) \<and> ts_text (obj g a) = str"
  then have "a \<in> set (strt g ! bucket_of g str)" using in_table [OF ok] by blast
  then obtain b where b: "interned g str = Some b"
    using a unfolding interned_def by (metis (mono_tags, lifting) find_None_iff2 not_Some_eq)
  then have t: "ts_text (obj g b) = str" and "b \<in> set (strt g ! bucket_of g str)"
    by (auto simp: interned_def find_Some_iff)
  moreover obtain k where "k \<le> 30" "length (strt g) = 2 ^ k" using table_okD [OF ok] .
  then have "bucket_of g str < length (strt g)" by (simp add: bucket_of_def lmod_less)
  ultimately have "b \<in> set (concat (strt g))" by auto
  then have "b = a" using ok a t by (auto simp: table_ok_def inj_on_def)
  then show "interned g str = Some a" using b by simp
qed

lemma resize_buckets:
  assumes ok: "table_ok g" and m: "0 < m" "m \<le> 30"
  shows "length (strt (luaS_resize (2 ^ m) g)) = 2 ^ m"
    and "\<And>j. j < 2 ^ m \<Longrightarrow> mset (strt (luaS_resize (2 ^ m) g) ! j) =
      mset (filter (\<lambda>p. lmod (ts_hash (obj g p)) (2 ^ m) = j) (concat (strt g)))"
    and "mset (concat (strt (luaS_resize (2 ^ m) g))) = mset (concat (strt g))"
proof -
  obtain k where k: "0 < k" "k \<le> 30" and len: "length (strt g) = 2 ^ k" using table_okD [OF ok] .
  define key where "key = (\<lambda>p. lmod (ts_hash (obj g p)) (2 ^ m))"
  have key: "key p < 2 ^ m" for p using m by (simp add: key_def lmod_less)
  have keys: "key p < 2 ^ m \<and> (key p \<le> i \<or> length (strt g) \<le> key p)"
    if "i < length (strt g)" "p \<in> set (strt g ! i)" for i p
  proof -
    have "lmod (ts_hash (obj g p)) (2 ^ k) = i"
      using ok that len unfolding table_ok_def short_ok_def bucket_of_def by metis
    then have i: "i = unat (ts_hash (obj g p)) mod 2 ^ k" using k by (simp add: lmod_mod)
    have kp: "key p = unat (ts_hash (obj g p)) mod 2 ^ m" using m by (simp add: key_def lmod_mod)
    show ?thesis
    proof (cases "m \<le> k")
      case True
      then have "i mod 2 ^ m = key p" unfolding i kp by (simp add: mod_mod_cancel le_imp_power_dvd)
      then have "key p \<le> i" by (metis mod_less_eq_dividend)
      then show ?thesis using key by blast
    next
      case False
      then have e: "key p mod 2 ^ k = i" unfolding i kp by (simp add: mod_mod_cancel le_imp_power_dvd)
      then show ?thesis using key len by (cases "key p < 2 ^ k") auto
    qed
  qed
  define H where "H = fold (\<lambda>i hash. rehash_chain g (2 ^ m) (hash ! i) (hash[i := []])) [0..<length (strt g)]
      (strt g @ replicate (2 ^ m - length (strt g)) [])"
  have H: "length H = max (length (strt g)) (2 ^ m)"
    "\<And>j. j < max (length (strt g)) (2 ^ m) \<Longrightarrow> mset (H ! j) = mset (filter (\<lambda>p. key p = j) (concat (strt g)))"
    using rehashed_so_far [of "strt g" g "2 ^ m" "length (strt g)"] keys
    unfolding H_def key_def by auto
  have st: "strt (luaS_resize (2 ^ m) g) = take (2 ^ m) H" by (simp add: luaS_resize_def Let_def H_def)
  show l: "length (strt (luaS_resize (2 ^ m) g)) = 2 ^ m" using H(1) by (simp add: st)
  show b: "mset (strt (luaS_resize (2 ^ m) g) ! j) =
      mset (filter (\<lambda>p. lmod (ts_hash (obj g p)) (2 ^ m) = j) (concat (strt g)))" if "j < 2 ^ m" for j
    using H(2) [of j] that by (simp add: st key_def)
  have "mset (concat (strt (luaS_resize (2 ^ m) g))) =
      mset (concat (map (\<lambda>j. filter (\<lambda>p. key p = j) (concat (strt g))) [0..<2 ^ m]))"
    using l b by (intro mset_concat_cong) (simp_all add: key_def)
  also have "\<dots> = mset (concat (strt g))" using key by (intro mset_by_key) simp
  finally show "mset (concat (strt (luaS_resize (2 ^ m) g))) = mset (concat (strt g))" .
qed

lemma short_ok_resize [simp]: "short_ok (luaS_resize n g) = short_ok g"
  by (simp add: short_ok_def fun_eq_iff)

lemma resize_ok:
  assumes ok: "table_ok g" and m: "0 < m" "m \<le> 30"
  shows "table_ok (luaS_resize (2 ^ m) g)" "interned (luaS_resize (2 ^ m) g) = interned g"
proof -
  note rb = resize_buckets [OF ok m]
  have sets: "set (concat (strt (luaS_resize (2 ^ m) g))) = set (concat (strt g))"
    using rb(3) by (metis set_mset_mset)
  have "a \<in> set (strt (luaS_resize (2 ^ m) g) ! i) \<Longrightarrow> i < 2 ^ m \<Longrightarrow>
      short_ok g a \<and> bucket_of (luaS_resize (2 ^ m) g) (ts_text (obj g a)) = i" for a i
  proof -
    assume a: "a \<in> set (strt (luaS_resize (2 ^ m) g) ! i)" "i < 2 ^ m"
    then have "a \<in> set (filter (\<lambda>p. lmod (ts_hash (obj g p)) (2 ^ m) = i) (concat (strt g)))"
      using rb(2) by (metis set_mset_mset)
    then have i: "lmod (ts_hash (obj g a)) (2 ^ m) = i" and t: "a \<in> set (concat (strt g))" by auto
    then have "short_ok g a" using in_table [OF ok] by blast
    then show ?thesis using i rb(1) by (simp add: bucket_of_def short_ok_def)
  qed
  moreover have "distinct (concat (strt (luaS_resize (2 ^ m) g)))"
    using rb(3) ok by (metis mset_eq_imp_distinct_iff table_ok_def)
  moreover have "length (concat (strt (luaS_resize (2 ^ m) g))) = length (concat (strt g))"
    using rb(3) by (rule mset_eq_length)
  ultimately show ok2: "table_ok (luaS_resize (2 ^ m) g)"
    using ok m rb(1) unfolding table_ok_def sets obj_resize short_ok_resize by auto
  show "interned (luaS_resize (2 ^ m) g) = interned g"
  proof
    fix str
    show "interned (luaS_resize (2 ^ m) g) str = interned g str"
      using interned_iff [OF ok] interned_iff [OF ok2] unfolding sets obj_resize
      by (metis not_Some_eq)
  qed
qed

section \<open>Creating and freeing strings\<close>

lemma unlink_remove1: "unlink a ps = remove1 a ps"
  by (induction ps) auto

lemma mset_concat_update:
  "i < length B \<Longrightarrow> mset (concat (B[i := xs])) + mset (B ! i) = mset (concat B) + mset xs"
proof (induction B arbitrary: i)
  case (Cons ys B)
  then show ?case by (cases i) (auto simp: add.commute add.left_commute)
qed simp

lemma obj_simps [simp]:
  "obj (g\<lparr>strt := x\<rparr>) = obj g" "obj (g\<lparr>nuse := n\<rparr>) = obj g" "obj (g\<lparr>strcache := c\<rparr>) = obj g"
  "obj (g\<lparr>memerrmsg := a\<rparr>) = obj g"
  "obj (set_obj a ts g) = (obj g)(a := ts)"
  by (simp_all add: obj_def set_obj_def fun_eq_iff)

lemma set_obj_simps [simp]:
  "strt (set_obj a ts g) = strt g" "nuse (set_obj a ts g) = nuse g" "seed (set_obj a ts g) = seed g"
  "heap (set_obj a ts g) = (heap g)(a \<mapsto> ts)" "strcache (set_obj a ts g) = strcache g"
  by (simp_all add: set_obj_def)

text \<open>Changes that leave the texts and the table alone.\<close>

definition same_strings :: "strings \<Rightarrow> strings \<Rightarrow> bool" where
  "same_strings g g1 \<longleftrightarrow> strt g1 = strt g \<and> nuse g1 = nuse g \<and> seed g1 = seed g \<and>
     (\<forall>a. (heap g1 a = None) = (heap g a = None)) \<and>
     (\<forall>a. heap g a \<noteq> None \<longrightarrow> ts_tag (obj g1 a) = ts_tag (obj g a) \<and> ts_hash (obj g1 a) = ts_hash (obj g a) \<and>
       ts_text (obj g1 a) = ts_text (obj g a))"

lemma find_cong: "xs = ys \<Longrightarrow> (\<And>x. x \<in> set ys \<Longrightarrow> P x = Q x) \<Longrightarrow> find P xs = find Q ys"
  by (induction ys arbitrary: xs) auto

lemma same_table:
  assumes same: "same_strings g g1" and ok: "table_ok g"
  shows "table_ok g1" "interned g1 = interned g"
proof -
  have t: "strt g1 = strt g" "nuse g1 = nuse g" "seed g1 = seed g" using same by (simp_all add: same_strings_def)
  have f: "ts_tag (obj g1 a) = ts_tag (obj g a)" "ts_hash (obj g1 a) = ts_hash (obj g a)" "ts_text (obj g1 a) = ts_text (obj g a)"
    "heap g1 a \<noteq> None" if "short_ok g a" for a
    using same that by (auto simp: same_strings_def short_ok_def)
  have s: "short_ok g1 a" if "short_ok g a" for a using f [OF that] that by (simp add: short_ok_def t)
  have b: "bucket_of g1 = bucket_of g" by (simp add: fun_eq_iff bucket_of_def t)
  have all: "short_ok g a" if "a \<in> set (concat (strt g))" for a using in_table [OF ok that] by blast
  have "inj_on (\<lambda>a. ts_text (obj g1 a)) (set (concat (strt g))) = inj_on (\<lambda>a. ts_text (obj g a)) (set (concat (strt g)))"
    by (rule inj_on_cong) (use f(3) all in blast)
  moreover have "a \<in> set (concat (strt g))" if "heap g1 a = Some ts" "ts_tag ts = LUA_TSHRSTR" for a ts
  proof -
    have "heap g a \<noteq> None" using same that(1) unfolding same_strings_def by (metis option.discI)
    then obtain ts0 where "heap g a = Some ts0" by blast
    moreover from this have "ts_tag ts0 = LUA_TSHRSTR" using same that by (auto simp: same_strings_def obj_def)
    ultimately show ?thesis using ok by (auto simp: table_ok_def)
  qed
  moreover have "short_ok g1 a \<and> bucket_of g1 (ts_text (obj g1 a)) = i" if "i < length (strt g)" "a \<in> set (strt g ! i)" for i a
    using ok that f s by (simp add: table_ok_def b)
  ultimately show "table_ok g1"
    using ok unfolding table_ok_def t by blast
  show "interned g1 = interned g"
  proof
    fix str
    obtain k where "k \<le> 30" "length (strt g) = 2 ^ k" using table_okD [OF ok] .
    then have "bucket_of g str < length (strt g)" by (simp add: bucket_of_def lmod_less)
    then have "set (strt g ! bucket_of g str) \<subseteq> set (concat (strt g))" using nth_mem by fastforce
    then show "interned g1 str = interned g str"
      unfolding interned_def b t by (intro find_cong refl) (simp only: f(3) [OF all] subset_iff)
  qed
qed

lemma bucket_less: "table_ok g \<Longrightarrow> bucket_of g str < length (strt g)"
  by (erule table_okD) (simp add: bucket_of_def lmod_less)

lemma insert_ok:
  assumes ok: "table_ok g" and fresh: "heap g a = None" and short: "length str \<le> LUAI_MAXSHORTLEN"
    and new: "interned g str = None" and m: "ts = \<lparr>ts_tag = LUA_TSHRSTR, ts_marked = w, ts_extra = 0, ts_hash = luaS_hash str (seed g), ts_text = str\<rparr>"
    and g1: "g1 = (set_obj a ts g)\<lparr>strt := (strt g)[bucket_of g str := a # strt g ! bucket_of g str], nuse := nuse g + 1\<rparr>"
  shows "table_ok g1" "interned g1 = (interned g)(str \<mapsto> a)"
proof -
  let ?i = "bucket_of g str"
  have i: "?i < length (strt g)" using bucket_less [OF ok] .
  have fields: "length (strt g1) = length (strt g)" "seed g1 = seed g" "nuse g1 = nuse g + 1" "obj g1 = (obj g)(a := ts)"
    "heap g1 = (heap g)(a \<mapsto> ts)" "strt g1 = (strt g)[?i := a # strt g ! ?i]"
    by (simp_all add: g1 obj_def fun_eq_iff)
  have ms: "mset (concat (strt g1)) = add_mset a (mset (concat (strt g)))"
    using mset_concat_update [OF i, of "a # strt g ! ?i"] by (simp add: fields)
  then have sets: "set (concat (strt g1)) = insert a (set (concat (strt g)))"
    by (metis set_mset_mset set_mset_add_mset_insert)
  have a: "a \<notin> set (concat (strt g))" using in_table [OF ok, of a] fresh unfolding short_ok_def by blast
  have b: "bucket_of g1 = bucket_of g" by (simp add: fun_eq_iff bucket_of_def fields)
  have none: "\<forall>b \<in> set (concat (strt g)). ts_text (obj g b) \<noteq> str" using interned_iff [OF ok, of str] new by auto
  have "short_ok g1 b \<and> bucket_of g1 (ts_text (obj g1 b)) = j" if j: "j < length (strt g)" "b \<in> set (strt g1 ! j)" for b j
  proof (cases "b = a")
    case True
    then have "j = ?i" using j a i by (auto simp: fields nth_list_update split: if_splits)
    then show ?thesis using True short by (simp add: b) (simp add: short_ok_def fields m)
  next
    case False
    then have "b \<in> set (strt g ! j)" using j i by (auto simp: fields nth_list_update split: if_splits)
    then have "short_ok g b" "bucket_of g (ts_text (obj g b)) = j" using ok j by (auto simp: table_ok_def)
    then show ?thesis using False by (simp add: b) (simp add: short_ok_def fields)
  qed
  moreover have "distinct (concat (strt g1))"
  proof -
    have "mset (concat (strt g1)) = mset (a # concat (strt g))" using ms by simp
    then show ?thesis using a ok by (metis distinct.simps(2) mset_eq_imp_distinct_iff table_ok_def)
  qed
  moreover have "length (concat (strt g1)) = Suc (length (concat (strt g)))"
    using ms by (metis size_add_mset size_mset)
  moreover have "inj_on (\<lambda>a. ts_text (obj g1 a)) (insert a (set (concat (strt g))))"
    using ok none a by (auto simp: fields m table_ok_def inj_on_def)
  ultimately show ok1: "table_ok g1"
    using ok unfolding table_ok_def sets unfolding fields(1,3,5) by (auto simp: m)
  show "interned g1 = (interned g)(str \<mapsto> a)"
  proof
    fix s
    have "interned g1 s = Some c \<longleftrightarrow> ((interned g)(str \<mapsto> a)) s = Some c" for c
      using interned_iff [OF ok1, of s c] interned_iff [OF ok, of s c] none a
      unfolding sets by (auto simp: fields m)
    then show "interned g1 s = ((interned g)(str \<mapsto> a)) s" by (metis not_Some_eq)
  qed
qed


lemma remove_ok:
  assumes ok: "table_ok g" and a: "heap g a \<noteq> None"
  shows "table_ok (free_string a g)"
    and "interned (free_string a g) =
      (if ts_tag (obj g a) = LUA_TSHRSTR then (interned g)(ts_text (obj g a) := None) else interned g)"
proof -
  let ?g1 = "free_string a g" and ?i = "bucket_of g (ts_text (obj g a))"
  have short: "a \<in> set (concat (strt g))" if "ts_tag (obj g a) = LUA_TSHRSTR"
    using a ok that by (auto simp: table_ok_def obj_def)
  have long: "a \<notin> set (concat (strt g))" if "ts_tag (obj g a) \<noteq> LUA_TSHRSTR"
    using in_table [OF ok, of a] that by (auto simp: short_ok_def)
  have h: "lmod (ts_hash (obj g a)) (length (strt g)) = ?i" if "ts_tag (obj g a) = LUA_TSHRSTR"
    using in_table [OF ok short [OF that]] by (simp add: short_ok_def bucket_of_def)
  have other: "obj ?g1 b = obj g b" if "b \<noteq> a" for b
    using that by (simp add: free_string_def luaS_remove_def obj_def Let_def split: string_tag.split)
  have fields: "seed ?g1 = seed g" "heap ?g1 = (heap g)(a := None)" "length (strt ?g1) = length (strt g)"
    by (auto simp: free_string_def luaS_remove_def Let_def split: string_tag.split)
  have b: "bucket_of ?g1 = bucket_of g" by (simp add: fun_eq_iff bucket_of_def fields)
  have i: "?i < length (strt g)" using bucket_less [OF ok] .
  have parts: "strt ?g1 = (if ts_tag (obj g a) = LUA_TSHRSTR then (strt g)[?i := remove1 a (strt g ! ?i)] else strt g)"
    "nuse ?g1 = (if ts_tag (obj g a) = LUA_TSHRSTR then nuse g - 1 else nuse g)"
    using h by (auto simp: free_string_def luaS_remove_def unlink_remove1 Let_def split: string_tag.split)
  have ms: "mset (concat (strt ?g1)) = mset (concat (strt g)) - {#a#}"
  proof (cases "ts_tag (obj g a) = LUA_TSHRSTR")
    case True
    then have "a \<in> set (strt g ! ?i)" using in_table [OF ok short] by blast
    then have "mset (strt g ! ?i) = add_mset a (mset (remove1 a (strt g ! ?i)))" by simp
    with mset_concat_update [OF i, of "remove1 a (strt g ! ?i)"]
    have "add_mset a (mset (concat ((strt g)[?i := remove1 a (strt g ! ?i)]))) = mset (concat (strt g))"
      by (simp del: mset_concat mset_remove1)
    from this [symmetric] show ?thesis using True by (simp del: mset_concat mset_remove1 add: parts)
  next
    case False
    then show ?thesis using long by (simp add: parts diff_single_trivial)
  qed
  have d: "distinct (concat (strt g))" using ok by (simp add: table_ok_def)
  then have "mset (concat (strt ?g1)) = mset (remove1 a (concat (strt g)))" using ms by simp
  then have d1: "distinct (concat (strt ?g1))" and sets: "set (concat (strt ?g1)) = set (concat (strt g)) - {a}"
    using mset_eq_imp_distinct_iff distinct_remove1 [OF d] mset_eq_setD set_remove1_eq [OF d, of a] by (blast, metis)
  have len: "nuse ?g1 = length (concat (strt ?g1))"
  proof -
    have "length (concat (strt ?g1)) = size (mset (concat (strt g)) - {#a#})" using ms by (metis size_mset)
    moreover have "nuse g = length (concat (strt g))" using ok by (simp add: table_ok_def)
    moreover have "a \<in># mset (concat (strt g)) \<longleftrightarrow> ts_tag (obj g a) = LUA_TSHRSTR"
      using short long by (metis set_mset_mset)
    ultimately show ?thesis
      by (simp del: mset_concat add: parts size_Diff_singleton diff_single_trivial)
  qed
  have "short_ok ?g1 b \<and> bucket_of ?g1 (ts_text (obj ?g1 b)) = j" if j: "j < length (strt g)" "b \<in> set (strt ?g1 ! j)" for b j
  proof -
    have "b \<in> set (concat (strt ?g1))" using j fields(3) by auto
    then have ba: "b \<noteq> a" using sets by blast
    have "b \<in> set (strt g ! j)" using j i by (auto simp: parts nth_list_update split: if_splits dest: set_remove1_subset [THEN subsetD])
    then have "short_ok g b" "bucket_of g (ts_text (obj g b)) = j" using ok j by (auto simp: table_ok_def)
    then show ?thesis using ba by (simp add: b other) (simp add: short_ok_def fields other)
  qed
  moreover have "inj_on (\<lambda>a. ts_text (obj ?g1 a)) (set (concat (strt g)) - {a})"
    using ok by (auto simp: other table_ok_def inj_on_def)
  ultimately show ok1: "table_ok ?g1"
    using ok d1 len unfolding table_ok_def sets unfolding fields by auto
  show "interned ?g1 =
      (if ts_tag (obj g a) = LUA_TSHRSTR then (interned g)(ts_text (obj g a) := None) else interned g)"
  proof
    fix s
    have "interned ?g1 s = Some c \<longleftrightarrow>
      (if ts_tag (obj g a) = LUA_TSHRSTR then (interned g)(ts_text (obj g a) := None) else interned g) s = Some c" for c
    proof -
      have e: "interned ?g1 s = Some c \<longleftrightarrow> c \<noteq> a \<and> interned g s = Some c"
        unfolding interned_iff [OF ok1] interned_iff [OF ok] sets using other [of c]
        by (cases "c = a") (simp_all del: set_concat)
      have l: "interned g s \<noteq> Some a" if "ts_tag (obj g a) \<noteq> LUA_TSHRSTR"
        using interned_iff [OF ok, of s a] long that by blast
      have t: "interned g (ts_text (obj g a)) = Some a" if "ts_tag (obj g a) = LUA_TSHRSTR"
        using interned_iff [OF ok] short that by blast
      have u: "interned g s \<noteq> Some a" if "s \<noteq> ts_text (obj g a)"
        using interned_iff [OF ok, of s a] that by blast
      show ?thesis
      proof (cases "ts_tag (obj g a) = LUA_TSHRSTR \<and> s = ts_text (obj g a)")
        case True
        then have "interned g s = Some a" using t by blast
        then show ?thesis unfolding e using True by auto
      next
        case False
        then have "interned g s \<noteq> Some a" using l u by blast
        then show ?thesis unfolding e using False by auto
      qed
    qed
    then show "interned ?g1 s =
      (if ts_tag (obj g a) = LUA_TSHRSTR then (interned g)(ts_text (obj g a) := None) else interned g) s"
      by (metis not_Some_eq)
  qed
qed

section \<open>The collector's view\<close>

definition BLACKBIT_mask :: u8 where "BLACKBIT_mask = 4"

definition maskcolors :: u8 where "maskcolors = NOT (BLACKBIT_mask OR WHITEBITS)"

text \<open>Marking a string, the flip of the white at the end of the marking, sweeping a string.\<close>

definition mark_string :: "nat \<Rightarrow> strings \<Rightarrow> strings" where
  "mark_string a g =
     set_obj a ((obj g a)\<lparr>ts_marked := (ts_marked (obj g a) AND NOT WHITEBITS) OR BLACKBIT_mask\<rparr>) g"

definition flip_white :: "strings \<Rightarrow> strings" where
  "flip_white g = (let g1 = luaS_clearcache g in g1\<lparr>currentwhite := otherwhite g1\<rparr>)"

definition sweep_string :: "nat \<Rightarrow> strings \<Rightarrow> strings" where
  "sweep_string a g =
     (if isdead g (obj g a) then free_string a g
      else set_obj a ((obj g a)\<lparr>ts_marked := (ts_marked (obj g a) AND maskcolors) OR luaC_white g\<rparr>) g)"

section \<open>Reachable string states\<close>

text \<open>A result: the text asked for, the object returned, what it is and whether it is dead.\<close>

type_synonym string_out = "(u8 list \<times> nat \<times> tstring \<times> bool) option"

definition result_of :: "u8 list \<Rightarrow> nat \<Rightarrow> strings \<Rightarrow> string_out" where
  "result_of str b g = Some (str, b, obj g b, isdead g (obj g b))"

definition strings_start :: "u32 \<Rightarrow> strings" where
  "strings_start sd = \<lparr>heap = Map.empty, strt = [], nuse = 0, seed = sd, currentwhite = 1, memerrmsg = 0, strcache = []\<rparr>"

text \<open>
  What the interpreter and its collector do with strings, in any order. The error message is not in
  the collector's lists.
\<close>

inductive string_step :: "strings \<Rightarrow> string_out \<Rightarrow> strings \<Rightarrow> bool" where
  do_newlstr: "heap g a = None \<Longrightarrow> luaS_newlstr a str g = Inr (b, g1) \<Longrightarrow> string_step g (result_of str b g1) g1"
| do_new: "heap g a = None \<Longrightarrow> 0 \<notin> set str \<Longrightarrow> luaS_new a p str g = Inr (b, g1) \<Longrightarrow> string_step g (result_of str b g1) g1"
| do_mark: "heap g a \<noteq> None \<Longrightarrow> string_step g None (mark_string a g)"
| do_flip: "string_step g None (flip_white g)"
| do_sweep: "heap g a \<noteq> None \<Longrightarrow> a \<noteq> memerrmsg g \<Longrightarrow> string_step g None (sweep_string a g)"
| do_sizes: "string_step g None (checkSizes emergency g)"

inductive_cases string_stepE: "string_step g out g1"

definition cached_ok :: "strings \<Rightarrow> nat \<Rightarrow> bool" where
  "cached_ok g s \<longleftrightarrow> heap g s \<noteq> None \<and> 0 \<notin> set (ts_text (obj g s)) \<and> \<not> isdead g (obj g s) \<and>
     (ts_tag (obj g s) = LUA_TLNGSTR \<longrightarrow> LUAI_MAXSHORTLEN < length (ts_text (obj g s)))"

definition strings_inv :: "strings \<Rightarrow> bool" where
  "strings_inv g \<longleftrightarrow> table_ok g \<and> currentwhite g \<in> {1, 2} \<and> length (strcache g) = STRCACHE_SIZE \<and>
     cached_ok g (memerrmsg g) \<and>
     ts_marked (obj g (memerrmsg g)) AND WHITEBITS = 0 \<and> (\<forall>s \<in> set (strcache g). cached_ok g s)"

text \<open>A result is right: an object with the text, not dead, and the one there was, if short.\<close>

fun good_string :: "strings \<Rightarrow> string_out \<Rightarrow> bool" where
  "good_string g None = True"
| "good_string g (Some (str, b, ts, dead)) \<longleftrightarrow> ts_text ts = str \<and> \<not> dead \<and>
     (\<forall>c. heap g c \<noteq> None \<longrightarrow> ts_tag (obj g c) = LUA_TSHRSTR \<longrightarrow> ts_text (obj g c) = str \<longrightarrow> c = b)"

lemma bit_WHITEBITS: "bit WHITEBITS n \<longleftrightarrow> n < 2"
proof -
  have e: "WHITEBITS = mask 2" by (simp add: WHITEBITS_def mask_eq_exp_minus_1)
  show ?thesis unfolding e bit_mask_iff possible_bit_word by auto
qed

lemma dead_bits:
  assumes "currentwhite g = 1 \<or> currentwhite g = 2"
  shows "isdead g x \<longleftrightarrow> bit (ts_marked x) (if currentwhite g = 1 then 1 else 0)"
proof -
  have "otherwhite g = 2 ^ (if currentwhite g = 1 then 1 else 0)"
    using assms by (auto simp: otherwhite_def WHITEBITS_def)
  then have "isdead g x \<longleftrightarrow> \<not> bit (ts_marked x XOR WHITEBITS) (if currentwhite g = 1 then 1 else 0)"
    unfolding isdead_def by (simp only: and_exp_eq_0_iff_not_bit)
  then show ?thesis by (auto simp: bit_xor_iff bit_WHITEBITS)
qed

lemma not_white_bits: "m AND WHITEBITS = 0 \<longleftrightarrow> \<not> bit m 0 \<and> \<not> bit m 1"
proof
  assume "m AND WHITEBITS = 0"
  then have "\<not> bit (m AND WHITEBITS) n" for n by simp
  from this [of 0] this [of 1] show "\<not> bit m 0 \<and> \<not> bit m 1" by (simp add: bit_and_iff bit_WHITEBITS)
next
  assume "\<not> bit m 0 \<and> \<not> bit m 1"
  then show "m AND WHITEBITS = 0"
    by (intro bit_word_eqI) (auto simp: bit_and_iff bit_WHITEBITS numeral_2_eq_2 less_Suc_eq)
qed

lemma luaC_white_bits:
  "currentwhite g = 1 \<or> currentwhite g = 2 \<Longrightarrow> bit (luaC_white g) n \<longleftrightarrow> n = (if currentwhite g = 1 then 0 else 1)"
proof -
  assume w: "currentwhite g = 1 \<or> currentwhite g = 2"
  have "bit (1 :: u8) n \<longleftrightarrow> n = 0" by (rule bit_1_iff)
  moreover have "bit (2 :: u8) n \<longleftrightarrow> n = 1" using bit_exp_iff [of 1 n, where ?'a = u8] by (auto simp: possible_bit_word)
  ultimately show ?thesis
    using w by (auto simp: luaC_white_def bit_and_iff bit_WHITEBITS)
qed

lemma bit_BLACK: "bit BLACKBIT_mask n \<longleftrightarrow> n = 2"
  using bit_exp_iff [of 2 n, where ?'a = u8] by (auto simp: possible_bit_word BLACKBIT_mask_def)

lemma not_dead_white: "currentwhite g = 1 \<or> currentwhite g = 2 \<Longrightarrow> ts_marked x = luaC_white g \<Longrightarrow> \<not> isdead g x"
  by (auto simp: dead_bits luaC_white_bits)

lemma not_dead_resurrected:
  "currentwhite g = 1 \<or> currentwhite g = 2 \<Longrightarrow> isdead g x \<Longrightarrow> \<not> isdead g (changewhite x)"
  by (auto simp: dead_bits changewhite_def bit_xor_iff bit_WHITEBITS)

lemma isdead_cong: "currentwhite g1 = currentwhite g \<Longrightarrow> isdead g1 = isdead g"
  by (simp add: fun_eq_iff isdead_def otherwhite_def)

section \<open>Interning\<close>

lemma same_set_obj:
  "heap g a \<noteq> None \<Longrightarrow> ts_tag ts = ts_tag (obj g a) \<Longrightarrow> ts_hash ts = ts_hash (obj g a) \<Longrightarrow> ts_text ts = ts_text (obj g a) \<Longrightarrow>
   same_strings g (set_obj a ts g)"
  by (simp add: same_strings_def)

lemma intern_new:
  assumes ok: "table_ok g" and fresh: "heap g a = None" and short: "length str \<le> LUAI_MAXSHORTLEN"
    and i: "internshrstr a str g = (b, g1)" and none: "interned g str = None"
  shows "b = a" "table_ok g1" "interned g1 = (interned g)(str \<mapsto> a)"
    "heap g1 = (heap g)(a \<mapsto> \<lparr>ts_tag = LUA_TSHRSTR, ts_marked = luaC_white g, ts_extra = 0, ts_hash = luaS_hash str (seed g), ts_text = str\<rparr>)"
    "currentwhite g1 = currentwhite g" "strcache g1 = strcache g" "memerrmsg g1 = memerrmsg g"
proof -
  obtain k where k: "0 < k" "k \<le> 30" "length (strt g) = 2 ^ k" using table_okD [OF ok] .
  define g0 where "g0 = (if nuse g \<ge> length (strt g) \<and> length (strt g) \<le> MAX_INT div 2
      then luaS_resize (length (strt g) * 2) g else g)"
  have ok0: "table_ok g0 \<and> interned g0 = interned g"
  proof (cases "nuse g \<ge> length (strt g) \<and> length (strt g) \<le> MAX_INT div 2")
    case True
    then have "(2 :: nat) ^ k < 2 ^ 30" using k by (simp add: MAX_INT_def)
    then have "k < 30" by (meson nat_power_less_imp_less zero_less_numeral)
    then show ?thesis using resize_ok [OF ok, of "Suc k"] True k by (simp add: g0_def mult.commute)
  next
    case False
    then have "g0 = g" unfolding g0_def by (simp only: if_False)
    then show ?thesis using ok by simp
  qed
  have f0: "heap g0 = heap g" "seed g0 = seed g" "currentwhite g0 = currentwhite g" "strcache g0 = strcache g" "memerrmsg g0 = memerrmsg g"
    "luaC_white g0 = luaC_white g"
    by (auto simp: g0_def luaS_resize_def Let_def luaC_white_def)
  have "find (\<lambda>ts. length str = length (ts_text (obj g ts)) \<and> str = ts_text (obj g ts))
      (strt g ! lmod (luaS_hash str (seed g)) (length (strt g))) = interned g str"
    unfolding interned_def bucket_of_def by (rule find_cong) auto
  then have "b = a" and g1: "g1 = (let g2 = createstrobj a str LUA_TSHRSTR (luaS_hash str (seed g)) g0
      in g2\<lparr>strt := (strt g2)[bucket_of g0 str := a # strt g2 ! bucket_of g0 str], nuse := nuse g2 + 1\<rparr>)"
    using i none by (auto simp: internshrstr_def Let_def g0_def [symmetric] bucket_of_def f0)
  then show "b = a" by simp
  have g1': "g1 = (set_obj a \<lparr>ts_tag = LUA_TSHRSTR, ts_marked = luaC_white g, ts_extra = 0, ts_hash = luaS_hash str (seed g0), ts_text = str\<rparr> g0)
      \<lparr>strt := (strt g0)[bucket_of g0 str := a # strt g0 ! bucket_of g0 str], nuse := nuse g0 + 1\<rparr>"
    by (simp add: g1 Let_def createstrobj_def f0)
  have "heap g0 a = None" "interned g0 str = None" "table_ok g0" using fresh none ok0 f0 by simp_all
  from insert_ok [OF this(3) this(1) short this(2) refl g1'] ok0
  show "table_ok g1" "interned g1 = (interned g)(str \<mapsto> a)" by simp_all
  show "heap g1 = (heap g)(a \<mapsto> \<lparr>ts_tag = LUA_TSHRSTR, ts_marked = luaC_white g, ts_extra = 0, ts_hash = luaS_hash str (seed g), ts_text = str\<rparr>)"
    "currentwhite g1 = currentwhite g" "strcache g1 = strcache g" "memerrmsg g1 = memerrmsg g"
    by (simp_all add: g1' f0 set_obj_def)
qed

lemma intern_found:
  assumes ok: "table_ok g" and i: "internshrstr a str g = (b, g1)" and some: "interned g str = Some c"
  shows "b = c" "g1 = (if isdead g (obj g c) then set_obj c (changewhite (obj g c)) g else g)"
    "table_ok g1" "interned g1 = interned g" "same_strings g g1"
proof -
  have "find (\<lambda>ts. length str = length (ts_text (obj g ts)) \<and> str = ts_text (obj g ts))
      (strt g ! lmod (luaS_hash str (seed g)) (length (strt g))) = interned g str"
    unfolding interned_def bucket_of_def by (rule find_cong) auto
  then show b: "b = c" and g1: "g1 = (if isdead g (obj g c) then set_obj c (changewhite (obj g c)) g else g)"
    using i some by (auto simp: internshrstr_def Let_def)
  have "c \<in> set (concat (strt g))" using interned_iff [OF ok] some by blast
  then have "heap g c \<noteq> None" using in_table [OF ok] by (simp add: short_ok_def)
  then show same: "same_strings g g1" unfolding g1 by (simp add: same_strings_def changewhite_def)
  show "table_ok g1" "interned g1 = interned g" using same_table [OF same ok] by simp_all
qed


section \<open>Every result is right\<close>

lemma strings_invD:
  assumes "strings_inv g"
  shows "table_ok g" "currentwhite g = 1 \<or> currentwhite g = 2" "length (strcache g) = STRCACHE_SIZE"
    "s \<in> set (strcache g) \<Longrightarrow> cached_ok g s" "cached_ok g (memerrmsg g)"
  using assms by (auto simp: strings_inv_def cached_ok_def dead_bits not_white_bits)

text \<open>What keeps the invariant: the table stays right, the cached objects stay.\<close>

lemma strings_inv_kept:
  assumes inv: "strings_inv g" and t: "table_ok g1" and f: "currentwhite g1 = currentwhite g" "memerrmsg g1 = memerrmsg g"
    and c: "set (strcache g1) \<subseteq> insert b (set (strcache g))" "length (strcache g1) = length (strcache g)"
    and b: "b \<in> set (strcache g1) \<Longrightarrow> cached_ok g1 b"
    and kept: "\<And>s. cached_ok g s \<Longrightarrow> cached_ok g1 s"
    and m: "ts_marked (obj g1 (memerrmsg g)) AND WHITEBITS = 0"
  shows "strings_inv g1"
proof -
  have "cached_ok g1 (memerrmsg g)" using kept strings_invD(5) [OF inv] .
  moreover have "\<forall>s \<in> set (strcache g1). cached_ok g1 s" using c(1) b kept strings_invD(4) [OF inv] by blast
  ultimately show ?thesis using inv t f c(2) m by (simp add: strings_inv_def cached_ok_def)
qed

lemma long_table:
  assumes ok: "table_ok g" and fresh: "heap g a = None" and tag: "ts_tag ts = LUA_TLNGSTR"
  shows "table_ok (set_obj a ts g)" "interned (set_obj a ts g) = interned g"
proof -
  let ?g1 = "set_obj a ts g"
  have a: "a \<notin> set (concat (strt g))" using in_table [OF ok, of a] fresh unfolding short_ok_def by blast
  have b: "bucket_of ?g1 = bucket_of g" by (simp add: fun_eq_iff bucket_of_def)
  have na: "c \<noteq> a" if "i < length (strt g)" "c \<in> set (strt g ! i)" for i c
    using a that by (metis UN_I nth_mem set_concat)
  have "short_ok ?g1 c \<and> bucket_of ?g1 (ts_text (obj ?g1 c)) = i" if "i < length (strt g)" "c \<in> set (strt g ! i)" for i c
    using na [OF that] ok that by (simp add: table_ok_def short_ok_def b)
  moreover have "inj_on (\<lambda>c. ts_text (obj ?g1 c)) (set (concat (strt g)))"
  proof -
    have "inj_on (\<lambda>c. ts_text (obj ?g1 c)) (set (concat (strt g))) = inj_on (\<lambda>c. ts_text (obj g c)) (set (concat (strt g)))"
      by (rule inj_on_cong) (use a in auto)
    then show ?thesis using ok by (simp add: table_ok_def)
  qed
  ultimately show ok1: "table_ok ?g1" using ok tag by (auto simp: table_ok_def)
  show "interned ?g1 = interned g"
  proof
    fix str
    have "c \<noteq> a" if "c \<in> set (strt g ! bucket_of g str)" for c
      using na [OF bucket_less [OF ok]] that by blast
    then show "interned ?g1 str = interned g str"
      unfolding interned_def b set_obj_simps by (intro find_cong refl) auto
  qed
qed

lemma newlstr_step:
  assumes inv: "strings_inv g" and fresh: "heap g a = None" and r: "luaS_newlstr a str g = Inr (b, g1)"
  shows "strings_inv g1" "good_string g (result_of str b g1)" "heap g1 b \<noteq> None"
    "strcache g1 = strcache g" "\<And>s. cached_ok g s \<Longrightarrow> cached_ok g1 s" "0 \<notin> set str \<Longrightarrow> cached_ok g1 b"
proof -
  note ok = strings_invD(1) [OF inv] and w = strings_invD(2) [OF inv]
  note kept = strings_inv_kept [OF inv, where b = b]
  consider (long) "\<not> length str \<le> LUAI_MAXSHORTLEN" "b = a" "g1 = createstrobj a str LUA_TLNGSTR (seed g) g"
    | (found) c where "length str \<le> LUAI_MAXSHORTLEN" "internshrstr a str g = (b, g1)" "interned g str = Some c"
    | (made) "length str \<le> LUAI_MAXSHORTLEN" "internshrstr a str g = (b, g1)" "interned g str = None"
    using r by (cases "interned g str") (auto simp: luaS_newlstr_def split: if_splits)
  then have "strings_inv g1 \<and> good_string g (result_of str b g1) \<and> heap g1 b \<noteq> None \<and>
    strcache g1 = strcache g \<and> (\<forall>s. cached_ok g s \<longrightarrow> cached_ok g1 s) \<and>
    (ts_tag (obj g1 b) = LUA_TLNGSTR \<longrightarrow> LUAI_MAXSHORTLEN < length str)"
  proof cases
    case long
    define ts where "ts = \<lparr>ts_tag = LUA_TLNGSTR, ts_marked = luaC_white g, ts_extra = 0, ts_hash = seed g, ts_text = str\<rparr>"
    have g1: "g1 = set_obj a ts g" by (simp add: long(3) createstrobj_def ts_def)
    have cw: "currentwhite g1 = currentwhite g" "memerrmsg g1 = memerrmsg g" by (simp_all add: g1 set_obj_def)
    have t: "table_ok g1" using long_table [OF ok fresh, of ts] by (simp add: g1 ts_def)
    have keep: "cached_ok g1 s" if "cached_ok g s" for s
      using that fresh unfolding cached_ok_def isdead_cong [OF cw(1)] by (auto simp: g1)
    have mem: "memerrmsg g \<noteq> a" using inv fresh by (auto simp: strings_inv_def cached_ok_def)
    have "strings_inv g1"
      by (rule kept) (use t cw keep inv mem in \<open>auto simp: g1 strings_inv_def\<close>)
    moreover have "\<not> isdead g1 (obj g1 a)"
      unfolding isdead_cong [OF cw(1)] by (rule not_dead_white [OF w]) (simp add: g1 ts_def)
    moreover have "length (ts_text (obj g c)) \<le> LUAI_MAXSHORTLEN" if "heap g c \<noteq> None" "ts_tag (obj g c) = LUA_TSHRSTR" for c
    proof -
      have "c \<in> set (concat (strt g))" using ok that by (auto simp: table_ok_def obj_def)
      then show ?thesis using in_table [OF ok] by (simp add: short_ok_def)
    qed
    ultimately show ?thesis using keep long(1,2) by (auto simp: result_of_def g1 ts_def)
  next
    case found
    note f = intern_found [OF ok found(2,3)]
    have cw: "currentwhite g1 = currentwhite g" "memerrmsg g1 = memerrmsg g" "strcache g1 = strcache g" by (simp_all add: f(2) set_obj_def)
    have c: "c \<in> set (concat (strt g))" "ts_text (obj g c) = str" using interned_iff [OF ok] found(3) by blast+
    then have hc: "heap g c \<noteq> None" "ts_tag (obj g c) = LUA_TSHRSTR" using in_table [OF ok] by (simp_all add: short_ok_def)
    have keep: "cached_ok g1 s" if "cached_ok g s" for s
      using that unfolding cached_ok_def isdead_cong [OF cw(1)] by (auto simp: f(2))
    have mem: "ts_marked (obj g1 (memerrmsg g)) AND WHITEBITS = 0"
      using inv strings_invD(5) [OF inv] by (auto simp: f(2) strings_inv_def cached_ok_def)
    have "strings_inv g1"
      by (rule kept) (use f(3) cw keep strings_invD(4) [OF inv] mem in auto)
    moreover have "\<not> isdead g1 (obj g1 c)"
      unfolding isdead_cong [OF cw(1)] using not_dead_resurrected [OF w] by (auto simp: f(2))
    moreover have "d = c" if "heap g d \<noteq> None" "ts_tag (obj g d) = LUA_TSHRSTR" "ts_text (obj g d) = str" for d
    proof -
      have "d \<in> set (concat (strt g))" using ok that by (auto simp: table_ok_def obj_def)
      then have "interned g str = Some d" using interned_iff [OF ok] that by blast
      then show ?thesis using found(3) by simp
    qed
    moreover have "ts_text (obj g1 c) = str" "ts_tag (obj g1 c) = LUA_TSHRSTR"
      using c(2) hc(2) by (simp_all add: f(2) changewhite_def)
    moreover have "heap g1 c \<noteq> None" using hc(1) by (simp add: f(2))
    ultimately show ?thesis using keep cw(3) unfolding f(1) result_of_def good_string.simps by auto
  next
    case made
    note f = intern_new [OF ok fresh made]
    have o: "obj g1 = (obj g)(a := \<lparr>ts_tag = LUA_TSHRSTR, ts_marked = luaC_white g, ts_extra = 0, ts_hash = luaS_hash str (seed g), ts_text = str\<rparr>)"
      using f(4) by (simp add: obj_def fun_eq_iff)
    have keep: "cached_ok g1 s" if "cached_ok g s" for s
      using that fresh unfolding cached_ok_def isdead_cong [OF f(5)] by (auto simp: f(4) o)
    have mem: "memerrmsg g \<noteq> a" using inv fresh by (auto simp: strings_inv_def cached_ok_def)
    have "strings_inv g1"
      by (rule kept) (use f(2,5,6,7) keep inv mem strings_invD(4) [OF inv] in \<open>auto simp: o strings_inv_def\<close>)
    moreover have "\<not> isdead g1 (obj g1 a)"
      unfolding isdead_cong [OF f(5)] by (rule not_dead_white [OF w]) (simp add: o)
    moreover have "ts_text (obj g d) \<noteq> str" if "heap g d \<noteq> None" "ts_tag (obj g d) = LUA_TSHRSTR" for d
    proof
      assume e: "ts_text (obj g d) = str"
      have "d \<in> set (concat (strt g))" using ok that by (auto simp: table_ok_def obj_def)
      then show False using interned_iff [OF ok, of str d] e made(3) by simp
    qed
    ultimately show ?thesis using keep f(1,4,6) by (auto simp: result_of_def o)
  qed
  then show "strings_inv g1" "good_string g (result_of str b g1)" "heap g1 b \<noteq> None"
    "strcache g1 = strcache g" "\<And>s. cached_ok g s \<Longrightarrow> cached_ok g1 s" "0 \<notin> set str \<Longrightarrow> cached_ok g1 b"
    by (auto simp: result_of_def cached_ok_def)
qed

lemma new_step:
  assumes inv: "strings_inv g" and fresh: "heap g a = None" and z: "0 \<notin> set str" and r: "luaS_new a p str g = Inr (b, g1)"
  shows "strings_inv g1" "good_string g (result_of str b g1)" "heap g1 b \<noteq> None"
proof -
  define i where "i = unat (point2uint p) mod STRCACHE_SIZE"
  have i: "i < length (strcache g)" using strings_invD(3) [OF inv] by (simp add: i_def STRCACHE_SIZE_def)
  have whole: "cstr (ts_text (obj g s)) = ts_text (obj g s)" if "cached_ok g s" for s
    using that by (simp add: cstr_def cached_ok_def takeWhile_eq_all_conv) metis
  note ok = strings_invD(1) [OF inv]
  have "strings_inv g1 \<and> good_string g (result_of str b g1) \<and> heap g1 b \<noteq> None"
  proof (cases "str = cstr (ts_text (obj g (strcache g ! i)))")
    case True
    then have b: "b = strcache g ! i" "g1 = g" using r by (auto simp: luaS_new_def i_def Let_def)
    then have c: "cached_ok g b" using strings_invD(4) [OF inv] i by simp
    have "d = b" if "heap g d \<noteq> None" "ts_tag (obj g d) = LUA_TSHRSTR" "ts_text (obj g d) = str" for d
    proof (rule ccontr)
      have d: "d \<in> set (concat (strt g))" using ok that by (auto simp: table_ok_def obj_def)
      then have "length (ts_text (obj g d)) \<le> LUAI_MAXSHORTLEN" using in_table [OF ok] by (simp add: short_ok_def)
      then have "ts_tag (obj g b) = LUA_TSHRSTR"
        using c that(3) True b whole [OF c] by (cases "ts_tag (obj g b)") (auto simp: cached_ok_def)
      then have "b \<in> set (concat (strt g))" using ok c by (auto simp: table_ok_def obj_def cached_ok_def)
      moreover assume "d \<noteq> b"
      ultimately show False using ok d that(3) True b whole [OF c] unfolding table_ok_def inj_on_def by metis
    qed
    then show "strings_inv g1 \<and> good_string g (result_of str b g1) \<and> heap g1 b \<noteq> None"
      using inv c True whole [OF c] by (auto simp: result_of_def b cached_ok_def)
  next
    case False
    then obtain g0 where r0: "luaS_newlstr a str g = Inr (b, g0)" and g1: "g1 = g0\<lparr>strcache := (strcache g0)[i := b]\<rparr>"
      using r by (auto simp: luaS_new_def i_def Let_def split: sum.splits)
    note s = newlstr_step [OF inv fresh r0]
    have dead: "isdead g1 = isdead g0" by (rule isdead_cong) (simp add: g1)
    have f: "obj g1 = obj g0" "heap g1 = heap g0" "memerrmsg g1 = memerrmsg g0" "strt g1 = strt g0" "nuse g1 = nuse g0"
      "seed g1 = seed g0"
      "currentwhite g1 = currentwhite g0" by (simp_all add: g1 obj_def fun_eq_iff)
    then have ck: "cached_ok g1 = cached_ok g0" by (simp add: cached_ok_def fun_eq_iff dead)
    have "same_strings g0 g1" using f by (simp add: same_strings_def)
    then have "table_ok g1" using same_table(1) strings_invD(1) [OF s(1)] by blast
    moreover have "cached_ok g0 b" using s(6) z by blast
    ultimately have "strings_inv g1"
      using s(1) set_update_subset_insert [of "strcache g0" i b] unfolding strings_inv_def ck f by (auto simp: g1)
    moreover have "result_of str b g1 = result_of str b g0" by (simp add: result_of_def f dead)
    ultimately show "strings_inv g1 \<and> good_string g (result_of str b g1) \<and> heap g1 b \<noteq> None"
      using s(2,3) f(2) by simp
  qed
  then show "strings_inv g1" "good_string g (result_of str b g1)" "heap g1 b \<noteq> None" by simp_all
qed

lemma recolour_inv:
  assumes inv: "strings_inv g" and a: "heap g a \<noteq> None"
    and live: "\<not> isdead g (obj g a) \<Longrightarrow> \<not> isdead g ((obj g a)\<lparr>ts_marked := m\<rparr>)"
    and fixed: "a = memerrmsg g \<Longrightarrow> m AND WHITEBITS = 0"
  shows "strings_inv (set_obj a ((obj g a)\<lparr>ts_marked := m\<rparr>) g)"
proof -
  let ?g1 = "set_obj a ((obj g a)\<lparr>ts_marked := m\<rparr>) g"
  have dead: "isdead ?g1 = isdead g" by (rule isdead_cong) (simp add: set_obj_def)
  have "table_ok ?g1" using same_table(1) [OF same_set_obj [OF a] strings_invD(1) [OF inv]] by simp
  moreover have "cached_ok ?g1 s" if "cached_ok g s" for s
    using that live by (auto simp: cached_ok_def dead)
  ultimately show ?thesis
    using inv fixed by (auto simp: strings_inv_def set_obj_def [of a _ g] obj_def)
qed

lemma mark_inv:
  assumes "strings_inv g" "heap g a \<noteq> None"
  shows "strings_inv (mark_string a g)"
  unfolding mark_string_def
proof (rule recolour_inv [OF assms])
  have b: "\<not> bit ((ts_marked (obj g a) AND NOT WHITEBITS) OR BLACKBIT_mask) 0"
    "\<not> bit ((ts_marked (obj g a) AND NOT WHITEBITS) OR BLACKBIT_mask) 1"
    by (simp_all add: bit_or_iff bit_and_iff bit_not_iff bit_WHITEBITS bit_BLACK)
  then show "\<not> isdead g ((obj g a)\<lparr>ts_marked := (ts_marked (obj g a) AND NOT WHITEBITS) OR BLACKBIT_mask\<rparr>)"
    using strings_invD(2) [OF assms(1)] by (auto simp: dead_bits)
  show "((ts_marked (obj g a) AND NOT WHITEBITS) OR BLACKBIT_mask) AND WHITEBITS = 0"
    using b by (simp add: not_white_bits)
qed

lemma flip_inv:
  assumes inv: "strings_inv g"
  shows "strings_inv (flip_white g)"
proof -
  let ?g1 = "flip_white g"
  have f: "heap ?g1 = heap g" "strt ?g1 = strt g" "nuse ?g1 = nuse g" "seed ?g1 = seed g" "memerrmsg ?g1 = memerrmsg g"
    "strcache ?g1 = map (\<lambda>s. if iswhite (obj g s) then memerrmsg g else s) (strcache g)"
    by (simp_all add: flip_white_def luaS_clearcache_def Let_def)
  then have o: "obj ?g1 = obj g" by (simp add: obj_def fun_eq_iff)
  have "otherwhite (luaS_clearcache g) = otherwhite g" by (simp add: otherwhite_def luaS_clearcache_def)
  then have cw: "currentwhite ?g1 = 1 \<or> currentwhite ?g1 = 2"
    using strings_invD(2) [OF inv] by (auto simp: flip_white_def Let_def otherwhite_def WHITEBITS_def)
  have "\<not> isdead ?g1 ts" if "\<not> iswhite ts" for ts
    using that unfolding dead_bits [OF cw] iswhite_def by (auto simp: not_white_bits)
  then have nonwhite: "cached_ok ?g1 s" if "cached_ok g s" "\<not> iswhite (obj g s)" for s
    using that by (simp add: cached_ok_def f o)
  have "cached_ok ?g1 (memerrmsg g)"
    by (rule nonwhite) (use inv in \<open>auto simp: strings_inv_def iswhite_def\<close>)
  moreover have "same_strings g ?g1" by (simp add: same_strings_def f o)
  then have "table_ok ?g1" using same_table(1) strings_invD(1) [OF inv] by blast
  ultimately show ?thesis
    using inv nonwhite cw by (auto simp: strings_inv_def f o)
qed

lemma cached_not_dead: "strings_inv g \<Longrightarrow> isdead g (obj g a) \<Longrightarrow> a \<notin> set (strcache g) \<and> a \<noteq> memerrmsg g"
  using strings_invD(4,5) by (auto simp: cached_ok_def)

lemma sweep_inv:
  assumes inv: "strings_inv g" and a: "heap g a \<noteq> None" "a \<noteq> memerrmsg g"
  shows "strings_inv (sweep_string a g)"
proof (cases "isdead g (obj g a)")
  case True
  let ?g1 = "free_string a g"
  have f: "currentwhite ?g1 = currentwhite g" "memerrmsg ?g1 = memerrmsg g" "strcache ?g1 = strcache g"
    "heap ?g1 = (heap g)(a := None)"
    by (auto simp: free_string_def luaS_remove_def Let_def split: string_tag.split)
  have dead: "isdead ?g1 = isdead g" by (rule isdead_cong) (rule f(1))
  have "table_ok ?g1" by (rule remove_ok [OF strings_invD(1) [OF inv] a(1)])
  moreover have "cached_ok ?g1 s" if "cached_ok g s" for s
    using that True by (auto simp: cached_ok_def dead f obj_def)
  ultimately have "strings_inv ?g1"
    using inv a(2) by (auto simp: strings_inv_def f obj_def)
  then show ?thesis by (simp add: sweep_string_def True)
next
  case False
  have "strings_inv (set_obj a ((obj g a)\<lparr>ts_marked := (ts_marked (obj g a) AND maskcolors) OR luaC_white g\<rparr>) g)"
  proof (rule recolour_inv [OF inv a(1)])
    show "\<not> isdead g ((obj g a)\<lparr>ts_marked := (ts_marked (obj g a) AND maskcolors) OR luaC_white g\<rparr>)"
      using strings_invD(2) [OF inv]
      by (auto simp: dead_bits luaC_white_bits bit_or_iff bit_and_iff maskcolors_def bit_not_iff bit_WHITEBITS bit_BLACK)
  qed (use a in simp)
  then show ?thesis by (simp add: sweep_string_def False)
qed

lemma sizes_inv:
  assumes inv: "strings_inv g"
  shows "strings_inv (checkSizes emergency g)"
proof (cases "\<not> emergency \<and> nuse g < length (strt g) div 4")
  case True
  obtain k where k: "0 < k" "k \<le> 30" "length (strt g) = 2 ^ k" using table_okD [OF strings_invD(1) [OF inv]] .
  then have "0 < (2 :: nat) ^ k div 4" using True by simp
  then have "k \<noteq> 1" by auto
  moreover obtain m where "k = Suc m" using k(1) gr0_conv_Suc by blast
  ultimately have m: "k = Suc m" "0 < m" by simp_all
  let ?g1 = "luaS_resize (2 ^ m) g"
  have f: "currentwhite ?g1 = currentwhite g" "memerrmsg ?g1 = memerrmsg g" "strcache ?g1 = strcache g"
    by (simp_all add: luaS_resize_def Let_def)
  have dead: "isdead ?g1 = isdead g" by (rule isdead_cong) (rule f(1))
  have "cached_ok ?g1 = cached_ok g" by (simp add: cached_ok_def fun_eq_iff dead)
  moreover have "table_ok ?g1" using resize_ok(1) [OF strings_invD(1) [OF inv], of m] m k by simp
  ultimately have "strings_inv ?g1" using inv by (simp add: strings_inv_def f)
  then show ?thesis using True k m by (simp add: checkSizes_def)
next
  case False
  then show ?thesis using inv unfolding checkSizes_def by (simp only: if_False)
qed

interpretation string_pool: machine string_step strings_inv good_string
proof
  fix g out g1
  assume inv: "strings_inv g" and step: "string_step g out g1"
  show "strings_inv g1" "good_string g out"
    using step by (cases; use inv in \<open>auto intro: newlstr_step new_step mark_inv flip_inv sweep_inv sizes_inv\<close>)+
qed

section \<open>The first state\<close>

lemma resize_empty: "strt (luaS_resize n (strings_start sd)) = replicate n []"
  by (simp add: luaS_resize_def strings_start_def Let_def)

lemma empty_table: "table_ok (luaS_resize MINSTRTABSIZE (strings_start sd))"
proof -
  let ?g = "luaS_resize MINSTRTABSIZE (strings_start sd)"
  have "strt ?g = replicate MINSTRTABSIZE []" by (rule resize_empty)
  moreover have "concat (replicate MINSTRTABSIZE []) = ([] :: nat list)" by simp
  moreover have "\<exists>k>0. k \<le> 30 \<and> MINSTRTABSIZE = 2 ^ k" by (rule exI [of _ 7]) (simp add: MINSTRTABSIZE_def)
  ultimately show ?thesis by (auto simp: table_ok_def strings_start_def)
qed

lemma strings_start_inv: "strings_inv (luaS_init a (strings_start sd))"
proof -
  let ?g0 = "luaS_resize MINSTRTABSIZE (strings_start sd)"
  obtain b g1 where i: "internshrstr a memerr_text ?g0 = (b, g1)" by fastforce
  have none: "interned ?g0 memerr_text = None"
    using interned_iff [OF empty_table, of _ memerr_text] resize_empty [of MINSTRTABSIZE sd] by (cases "interned ?g0 memerr_text") auto
  have t: "length memerr_text \<le> LUAI_MAXSHORTLEN" "0 \<notin> set memerr_text"
    by (code_simp, code_simp)
  have "heap ?g0 a = None" by (simp add: strings_start_def)
  note f = intern_new [OF empty_table this t(1) i none]
  define g2 where "g2 = fix_string a (g1\<lparr>memerrmsg := a\<rparr>)"
  have init: "luaS_init a (strings_start sd) = g2\<lparr>strcache := replicate STRCACHE_SIZE a\<rparr>"
    using i f(1) by (simp add: luaS_init_def Let_def g2_def)
  have o: "obj g2 a = (obj g1 a)\<lparr>ts_marked := ts_marked (obj g1 a) AND NOT WHITEBITS\<rparr>" by (simp add: g2_def fix_string_def)
  have ha: "heap g1 a \<noteq> None" using f(4) by simp
  have x: "obj g1 a = \<lparr>ts_tag = LUA_TSHRSTR, ts_marked = luaC_white ?g0, ts_extra = 0, ts_hash = luaS_hash memerr_text (seed ?g0), ts_text = memerr_text\<rparr>"
    using f(4) by (simp add: obj_def)
  let ?g = "g2\<lparr>strcache := replicate STRCACHE_SIZE a\<rparr>"
  have "same_strings g1 ?g" using ha by (auto simp: same_strings_def g2_def fix_string_def)
  then have table: "table_ok ?g" using same_table(1) f(2) by blast
  have cw: "currentwhite ?g = 1" using f(5) by (simp add: g2_def fix_string_def set_obj_def strings_start_def luaS_resize_def Let_def)
  have m: "ts_marked (obj ?g a) AND WHITEBITS = 0"
    by (simp add: o not_white_bits bit_and_iff bit_not_iff bit_WHITEBITS)
  then have "\<not> isdead ?g (obj ?g a)" using cw by (auto simp: dead_bits not_white_bits)
  then have "cached_ok ?g a" using ha t by (simp add: cached_ok_def o x) (simp add: g2_def fix_string_def)
  moreover have "memerrmsg ?g = a" by (simp add: g2_def fix_string_def set_obj_def)
  ultimately have "strings_inv ?g" using table cw m by (auto simp: strings_inv_def)
  then show ?thesis by (simp add: init)
qed

section \<open>Every operation on the map\<close>

text \<open>Interning on a map from texts to objects: the object there is for the text, or the new one.\<close>

definition intern_map :: "nat \<Rightarrow> u8 list \<Rightarrow> (u8 list \<rightharpoonup> nat) \<Rightarrow> nat \<times> (u8 list \<rightharpoonup> nat)" where
  "intern_map a str m = (case m str of Some c \<Rightarrow> (c, m) | None \<Rightarrow> (a, m(str \<mapsto> a)))"

lemma interned_objects:
  assumes ok: "table_ok g"
  shows "interned g str = Some b \<longleftrightarrow> (\<exists>ts. heap g b = Some ts \<and> ts_tag ts = LUA_TSHRSTR \<and> ts_text ts = str)"
proof
  assume "interned g str = Some b"
  then have b: "b \<in> set (concat (strt g))" "ts_text (obj g b) = str" using interned_iff [OF ok] by blast+
  then have "heap g b \<noteq> None" "ts_tag (obj g b) = LUA_TSHRSTR" using in_table [OF ok] by (simp_all add: short_ok_def)
  with b(2) show "\<exists>ts. heap g b = Some ts \<and> ts_tag ts = LUA_TSHRSTR \<and> ts_text ts = str" by (auto simp: obj_def)
next
  assume "\<exists>ts. heap g b = Some ts \<and> ts_tag ts = LUA_TSHRSTR \<and> ts_text ts = str"
  then show "interned g str = Some b" using ok unfolding interned_iff [OF ok] by (auto simp: table_ok_def obj_def)
qed

lemma newlstr_map:
  assumes ok: "table_ok g" and fresh: "heap g a = None" and r: "luaS_newlstr a str g = Inr (b, g1)"
  shows "if length str \<le> LUAI_MAXSHORTLEN then (b, interned g1) = intern_map a str (interned g)
    else b = a \<and> interned g1 = interned g"
proof (cases "length str \<le> LUAI_MAXSHORTLEN")
  case True
  then have i: "internshrstr a str g = (b, g1)" using r by (simp add: luaS_newlstr_def)
  show ?thesis
  proof (cases "interned g str")
    case None
    then show ?thesis using True intern_new(1,3) [OF ok fresh True i None] by (simp add: intern_map_def)
  next
    case (Some c)
    then show ?thesis using True intern_found(1,4) [OF ok i Some] by (simp add: intern_map_def)
  qed
next
  case False
  then show ?thesis using r long_table(2) [OF ok fresh] by (auto simp: luaS_newlstr_def createstrobj_def split: if_splits)
qed

lemma new_map:
  assumes inv: "strings_inv g" and fresh: "heap g a = None" and z: "0 \<notin> set str" and r: "luaS_new a p str g = Inr (b, g1)"
  shows "if length str \<le> LUAI_MAXSHORTLEN then (b, interned g1) = intern_map a str (interned g) else interned g1 = interned g"
proof -
  define i where "i = unat (point2uint p) mod STRCACHE_SIZE"
  have i: "i < length (strcache g)" using strings_invD(3) [OF inv] by (simp add: i_def STRCACHE_SIZE_def)
  note ok = strings_invD(1) [OF inv]
  show ?thesis
  proof (cases "str = cstr (ts_text (obj g (strcache g ! i)))")
    case True
    then have b: "b = strcache g ! i" "g1 = g" using r by (auto simp: luaS_new_def i_def Let_def)
    then have c: "cached_ok g b" using strings_invD(4) [OF inv] i by simp
    then have "cstr (ts_text (obj g b)) = ts_text (obj g b)"
      by (simp add: cstr_def cached_ok_def takeWhile_eq_all_conv) metis
    then have t: "ts_text (obj g b) = str" using True b by simp
    have "interned g str = Some b" if "length str \<le> LUAI_MAXSHORTLEN"
      using c t that unfolding interned_objects [OF ok] by (cases "ts_tag (obj g b)") (auto simp: cached_ok_def obj_def)
    then show ?thesis by (simp add: b intern_map_def)
  next
    case False
    then obtain g0 where r0: "luaS_newlstr a str g = Inr (b, g0)" and g1: "g1 = g0\<lparr>strcache := (strcache g0)[i := b]\<rparr>"
      using r by (auto simp: luaS_new_def i_def Let_def split: sum.splits)
    have "interned g1 = interned g0" by (simp add: fun_eq_iff interned_def bucket_of_def g1)
    with newlstr_map [OF ok fresh r0] show ?thesis by (auto split: if_splits)
  qed
qed

lemma mark_map: "table_ok g \<Longrightarrow> heap g a \<noteq> None \<Longrightarrow> interned (mark_string a g) = interned g"
  unfolding mark_string_def by (rule same_table(2) [OF same_set_obj]) simp_all

lemma flip_map: "interned (flip_white g) = interned g"
  by (simp add: fun_eq_iff interned_def bucket_of_def flip_white_def luaS_clearcache_def Let_def obj_def)

lemma sweep_map:
  assumes "table_ok g" "heap g a \<noteq> None"
  shows "interned (sweep_string a g) =
    (if isdead g (obj g a) \<and> ts_tag (obj g a) = LUA_TSHRSTR then (interned g)(ts_text (obj g a) := None) else interned g)"
proof (cases "isdead g (obj g a)")
  case True
  then show ?thesis using remove_ok(2) [OF assms] by (simp add: sweep_string_def)
next
  case False
  then show ?thesis using same_table(2) [OF same_set_obj [OF assms(2)] assms(1)] by (simp add: sweep_string_def)
qed

lemma sizes_map:
  assumes "table_ok g"
  shows "interned (checkSizes emergency g) = interned g"
proof (cases "\<not> emergency \<and> nuse g < length (strt g) div 4")
  case True
  obtain k where k: "0 < k" "k \<le> 30" "length (strt g) = 2 ^ k" using table_okD [OF assms] .
  then have "0 < (2 :: nat) ^ k div 4" using True by simp
  then have "k \<noteq> 1" by auto
  moreover obtain m where "k = Suc m" using k(1) gr0_conv_Suc by blast
  ultimately have m: "k = Suc m" "0 < m" by simp_all
  then show ?thesis using True k resize_ok(2) [OF assms, of m] by (simp add: checkSizes_def)
next
  case False
  then show ?thesis unfolding checkSizes_def by (simp only: if_False)
qed

text \<open>A pool in which two strings were created after the error message.\<close>

definition one_string :: strings where
  "one_string = snd (internshrstr 9 [0x61] (luaS_init 3 (strings_start 7)))"

definition two_strings :: strings where
  "two_strings = snd (internshrstr 11 [0x62] one_string)"

lemma newlstr_reached:
  "reaches string_step g0 g \<Longrightarrow> heap g a = None \<Longrightarrow> length str \<le> LUAI_MAXSHORTLEN \<Longrightarrow>
   reaches string_step g0 (snd (internshrstr a str g))"
  by (rule reaches_step [where step = string_step], assumption, rule do_newlstr [of g a str "fst (internshrstr a str g)"])
    (simp_all add: luaS_newlstr_def)

lemma two_strings_reached: "reaches string_step (luaS_init 3 (strings_start 7)) two_strings"
proof -
  have "heap (luaS_init 3 (strings_start 7)) 9 = None" "heap one_string 11 = None" by code_simp+
  then show ?thesis
    unfolding two_strings_def
    by (intro newlstr_reached) (simp_all add: one_string_def newlstr_reached reaches_refl LUAI_MAXSHORTLEN_def)
qed

lemma two_strings_heap:
  "heap two_strings 9 = Some (obj two_strings 9)" "heap two_strings 11 = Some (obj two_strings 11)"
  "ts_tag (obj two_strings 9) = LUA_TSHRSTR" "ts_tag (obj two_strings 11) = LUA_TSHRSTR"
  "ts_text (obj two_strings 9) = [0x61]" "heap two_strings 20 = None"
  by code_simp+

section \<open>Properties\<close>

text \<open>C23: the string table refines a finite map from texts to objects. In every state that any sequence of
  creations, marking, flips, sweeping and resizing leads to, the map holds exactly the short strings of the
  heap; and every operation does to the table what the operation on the map does: creating a short string
  (directly or through the cache of C strings) returns the object the map has, or adds the new one; creating a
  long string, marking, flipping and resizing change nothing; sweeping takes out exactly a dead short string.\<close>

theorem interning_refines_map:
  assumes "reaches string_step (luaS_init a0 (strings_start sd)) g"
  shows "(\<forall>str b. interned g str = Some b \<longleftrightarrow>
       (\<exists>ts. heap g b = Some ts \<and> ts_tag ts = LUA_TSHRSTR \<and> ts_text ts = str)) \<and>
     (\<forall>a str. heap g a = None \<longrightarrow> length str \<le> LUAI_MAXSHORTLEN \<longrightarrow>
       (\<exists>b g1. luaS_newlstr a str g = Inr (b, g1) \<and> (b, interned g1) = intern_map a str (interned g))) \<and>
     (\<forall>a str b g1. heap g a = None \<longrightarrow> LUAI_MAXSHORTLEN < length str \<longrightarrow> luaS_newlstr a str g = Inr (b, g1) \<longrightarrow>
       b = a \<and> interned g1 = interned g) \<and>
     (\<forall>a p str b g1. heap g a = None \<longrightarrow> 0 \<notin> set str \<longrightarrow> luaS_new a p str g = Inr (b, g1) \<longrightarrow>
       (if length str \<le> LUAI_MAXSHORTLEN then (b, interned g1) = intern_map a str (interned g) else interned g1 = interned g)) \<and>
     (\<forall>a. heap g a \<noteq> None \<longrightarrow> interned (mark_string a g) = interned g \<and>
       interned (sweep_string a g) = (if isdead g (obj g a) \<and> ts_tag (obj g a) = LUA_TSHRSTR
         then (interned g)(ts_text (obj g a) := None) else interned g)) \<and>
     interned (flip_white g) = interned g \<and> (\<forall>emergency. interned (checkSizes emergency g) = interned g)"
proof -
  have inv: "strings_inv g" by (rule string_pool.inv_reached [OF assms strings_start_inv])
  note ok = strings_invD(1) [OF inv]
  have short: "\<exists>b g1. luaS_newlstr a str g = Inr (b, g1) \<and> (b, interned g1) = intern_map a str (interned g)"
    if "heap g a = None" "length str \<le> LUAI_MAXSHORTLEN" for a str
  proof -
    note len = that(2)
    obtain b g1 where "luaS_newlstr a str g = Inr (b, g1)"
      using len by (cases "internshrstr a str g") (simp add: luaS_newlstr_def)
    with newlstr_map [OF ok that(1) this] that(2) show ?thesis by auto
  qed
  have long: "b = a \<and> interned g1 = interned g"
    if "heap g a = None" "LUAI_MAXSHORTLEN < length str" "luaS_newlstr a str g = Inr (b, g1)" for a str b g1
    using newlstr_map [OF ok that(1,3)] that(2) by simp
  show ?thesis
    by (intro conjI allI impI)
      (rule interned_objects [OF ok] short long [THEN conjunct1] long [THEN conjunct2] new_map [OF inv]
        mark_map [OF ok] sweep_map [OF ok] flip_map sizes_map [OF ok]; assumption)+
qed

text \<open>With \<open>"a"\<close> at address 9 and \<open>"b"\<close> at 11: asking for \<open>"a"\<close> again returns 9.\<close>

theorem interning_refines_map_witness:
  "\<exists>g1. luaS_newlstr 20 [0x61] two_strings = Inr (9, g1) \<and> interned g1 = interned two_strings \<and>
     interned two_strings [0x61] = Some 9"
proof -
  note law = interning_refines_map [OF two_strings_reached]
  have a: "interned two_strings [0x61] = Some 9"
    unfolding law [THEN conjunct1, rule_format] using two_strings_heap(1,3,5) by blast
  from law [THEN conjunct2, THEN conjunct1, rule_format, of 20 "[0x61]"] two_strings_heap(6)
  obtain b g1 where "luaS_newlstr 20 [0x61] two_strings = Inr (b, g1)"
    "(b, interned g1) = intern_map 20 [0x61] (interned two_strings)" by (auto simp: LUAI_MAXSHORTLEN_def)
  with a show ?thesis by (auto simp: intern_map_def)
qed

text \<open>C24: In every state that creating, marking, sweeping and resizing lead to, two short strings
  with the same text are the same object; so comparing addresses compares texts.\<close>
theorem short_strings_unique:
  assumes "reaches string_step (luaS_init a0 (strings_start sd)) g"
    and "heap g a = Some x" "heap g b = Some y" "ts_tag x = LUA_TSHRSTR" "ts_tag y = LUA_TSHRSTR"
  shows "ts_text x = ts_text y \<longleftrightarrow> a = b"
proof -
  have "table_ok g" using string_pool.inv_reached [OF assms(1) strings_start_inv] by (rule strings_invD)
  then have "a \<in> set (concat (strt g))" "b \<in> set (concat (strt g))"
    "inj_on (\<lambda>a. ts_text (obj g a)) (set (concat (strt g)))"
    using assms(2-5) by (auto simp: table_ok_def)
  from inj_on_eq_iff [OF this(3,1,2)] show ?thesis using assms(2,3) by (simp add: obj_def)
qed

text \<open>Two strings that were created one after the other: different objects, so different texts.\<close>

theorem short_strings_unique_witness:
  "\<exists>g x y. reaches string_step (luaS_init 3 (strings_start 7)) g \<and> heap g 9 = Some x \<and> heap g 11 = Some y \<and>
     ts_tag x = LUA_TSHRSTR \<and> ts_tag y = LUA_TSHRSTR \<and> ts_text x = [0x61] \<and> ts_text y \<noteq> [0x61]"
  using short_strings_unique [OF two_strings_reached two_strings_heap(1-4)] two_strings_reached two_strings_heap
  by (metis numeral_eq_iff semiring_norm(85,87,88,89,90,91))

text \<open>No creation of a string, interned, found in the cache of C strings or long, ever returns an
  object that the sweep would free: a dead string that is found again is resurrected. The result
  has the text asked for.\<close>
theorem no_dead_string_returned:
  assumes "reaches string_step (luaS_init a0 (strings_start sd)) g" "heap g a = None"
    and "luaS_newlstr a str g = Inr (b, g1) \<or> 0 \<notin> set str \<and> luaS_new a p str g = Inr (b, g1)"
  shows "heap g1 b \<noteq> None \<and> ts_text (obj g1 b) = str \<and> heap (sweep_string b g1) b \<noteq> None"
proof -
  note inv = string_pool.inv_reached [OF assms(1) strings_start_inv]
  have step: "string_step g (result_of str b g1) g1" using assms(2,3) by (auto intro: do_newlstr do_new)
  have "good_string g (result_of str b g1)" by (rule string_pool.good_step [OF inv step])
  moreover have "heap g1 b \<noteq> None" using assms(3) newlstr_step(3) [OF inv assms(2)] new_step(3) [OF inv assms(2)] by blast
  ultimately show ?thesis by (simp add: result_of_def sweep_string_def)
qed

theorem no_dead_string_returned_witness:
  "\<exists>b g1. luaS_newlstr 9 [0x61] (luaS_init 3 (strings_start 7)) = Inr (b, g1) \<and> heap (sweep_string b g1) b \<noteq> None"
proof -
  let ?g = "luaS_init 3 (strings_start 7)"
  obtain b g1 where r: "luaS_newlstr 9 [0x61] ?g = Inr (b, g1)"
    by (cases "internshrstr 9 [0x61] ?g") (simp add: luaS_newlstr_def LUAI_MAXSHORTLEN_def)
  have "heap ?g 9 = None" by code_simp
  from no_dead_string_returned [OF reaches_refl this disjI1 [OF r]] r show ?thesis by blast
qed

end
