(* ===== verification/LuaTable.thy ===== *)
theory LuaTable
  imports LuaString LuaArith
begin

text \<open>
  Tables of the embedded interpreter (\<open>ltable.c\<close> under \<open>lua/lua-5.3.1/src\<close>): an array part and a
  chained scatter table with Brent's variation. Values are of any type, \<open>None\<close> for \<open>nil\<close>. Nodes are
  named by their index, links are offsets as in the code. Floats are their 64 bits; what the code
  asks of them (\<open>floor\<close>, \<open>frexp\<close>) is computed exactly. Allocation succeeds. Following a chain takes
  the number of nodes as a bound on its steps, growing a table a bound on the depth of its
  recursion; \<open>NoReturn\<close> stands for exceeding either, and \<open>OutOfBounds\<close> for reading behind an array.
\<close>

section \<open>Keys\<close>

text \<open>Collectable keys carry an address; \<open>KObj\<close> carries the tag of the object as well.\<close>

datatype lua_key = KNil | KBool bool | KInt u64 | KFlt u64 | KLight nat | KLcf nat
  | KShr nat | KLng nat | KObj nat nat | KDead nat

definition flt_exp :: "u64 \<Rightarrow> nat" where "flt_exp b = unat (drop_bit 52 b AND 0x7FF)"

definition flt_man :: "u64 \<Rightarrow> nat" where "flt_man b = unat (b AND 0xFFFFFFFFFFFFF)"

definition flt_neg :: "u64 \<Rightarrow> bool" where "flt_neg b = bit b 63"

definition flt_finite :: "u64 \<Rightarrow> bool" where "flt_finite b \<longleftrightarrow> flt_exp b \<noteq> 2047"

definition flt_isnan :: "u64 \<Rightarrow> bool" where "flt_isnan b \<longleftrightarrow> flt_exp b = 2047 \<and> flt_man b \<noteq> 0"

text \<open>A finite float is \<open>signif * 2 ^ expo\<close>, up to its sign.\<close>

definition flt_signif :: "u64 \<Rightarrow> nat" where
  "flt_signif b = (if flt_exp b = 0 then flt_man b else 2 ^ 52 + flt_man b)"

definition flt_expo :: "u64 \<Rightarrow> int" where
  "flt_expo b = (if flt_exp b = 0 then - 1074 else int (flt_exp b) - 1075)"

definition flt_iszero :: "u64 \<Rightarrow> bool" where
  "flt_iszero b \<longleftrightarrow> flt_finite b \<and> flt_signif b = 0"

definition flt_eq :: "u64 \<Rightarrow> u64 \<Rightarrow> bool" where
  "flt_eq a b \<longleftrightarrow> \<not> flt_isnan a \<and> \<not> flt_isnan b \<and> (a = b \<or> flt_iszero a \<and> flt_iszero b)"

text \<open>\<open>luaV_tointeger\<close> with mode 0, on a float: the integer it is equal to.\<close>

definition flt_tointeger :: "u64 \<Rightarrow> u64 option" where
  "flt_tointeger b =
     (if \<not> flt_finite b then None
      else (let m = flt_signif b; e = flt_expo b
            in if e < 0 \<and> \<not> 2 ^ nat (- e) dvd m then None
               else (let v = int (if e < 0 then m div 2 ^ nat (- e) else m * 2 ^ nat e);
                         f = (if flt_neg b then - v else v)
                     in if - (2 ^ 63) \<le> f \<and> f < 2 ^ 63 then Some (word_of_int f) else None)))"

definition tointeger :: "lua_key \<Rightarrow> u64 option" where
  "tointeger k = (case k of KInt i \<Rightarrow> Some i | KFlt b \<Rightarrow> flt_tointeger b | _ \<Rightarrow> None)"

definition luaV_rawequalobj :: "strings \<Rightarrow> lua_key \<Rightarrow> lua_key \<Rightarrow> bool" where
  "luaV_rawequalobj g t1 t2 =
     (case (t1, t2) of
        (KNil, KNil) \<Rightarrow> True
      | (KInt a, KInt b) \<Rightarrow> a = b
      | (KFlt a, KFlt b) \<Rightarrow> flt_eq a b
      | (KInt _, KFlt _) \<Rightarrow> tointeger t1 \<noteq> None \<and> tointeger t1 = tointeger t2
      | (KFlt _, KInt _) \<Rightarrow> tointeger t1 \<noteq> None \<and> tointeger t1 = tointeger t2
      | (KBool a, KBool b) \<Rightarrow> a = b
      | (KLight a, KLight b) \<Rightarrow> a = b
      | (KLcf a, KLcf b) \<Rightarrow> a = b
      | (KShr a, KShr b) \<Rightarrow> a = b
      | (KLng a, KLng b) \<Rightarrow> luaS_eqlngstr g a b
      | (KObj k a, KObj l b) \<Rightarrow> k = l \<and> a = b
      | (KDead a, KDead b) \<Rightarrow> a = b
      | _ \<Rightarrow> False)"

section \<open>Tables\<close>

record 'v node =
  nd_val :: "'v option"
  nd_key :: lua_key
  nd_next :: int

record 'v table =
  tb_array :: "'v option list"
  tb_lsizenode :: nat
  tb_dummy :: bool
  tb_node :: "'v node list"
  tb_lastfree :: nat

definition sizearray :: "'v table \<Rightarrow> nat" where "sizearray t = length (tb_array t)"

definition sizenode :: "'v table \<Rightarrow> nat" where "sizenode t = 2 ^ tb_lsizenode t"

definition empty_node :: "'v node" where
  "empty_node = \<lparr>nd_val = None, nd_key = KNil, nd_next = 0\<rparr>"

datatype table_error = IndexNil | IndexNaN | TableOverflow | InvalidKey | NoReturn | OutOfBounds

fun bindT :: "table_error + 'a \<Rightarrow> ('a \<Rightarrow> table_error + 'b) \<Rightarrow> table_error + 'b" where
  "bindT (Inl e) f = Inl e"
| "bindT (Inr x) f = f x"

section \<open>Main positions\<close>

fun bitlen :: "nat \<Rightarrow> nat" where
  "bitlen m = (if m = 0 then 0 else Suc (bitlen (m div 2)))"

declare bitlen.simps [simp del]

text \<open>\<open>frexp\<close> gives \<open>signif / 2 ^ bitlen signif\<close>; the product with \<open>2 ^ 31\<close> is cut towards zero.\<close>

definition l_hashfloat :: "u64 \<Rightarrow> nat" where
  "l_hashfloat b =
     (if \<not> flt_finite b then 0
      else (let m = flt_signif b;
                i = (if m = 0 then 0 else flt_expo b + int (bitlen m));
                v = int (m * 2 ^ 31 div 2 ^ bitlen m);
                ni = (if flt_neg b then - v else v);
                u = word_of_int i + word_of_int ni :: u32
            in unat (if u \<le> 0x7FFFFFFF then u else NOT u)))"

definition hashpow2 :: "'v table \<Rightarrow> u32 \<Rightarrow> nat" where
  "hashpow2 t n = lmod n (sizenode t)"

definition hashint :: "'v table \<Rightarrow> u64 \<Rightarrow> nat" where
  "hashint t i = unat (i AND (of_nat (sizenode t) - 1))"

definition hashmod :: "'v table \<Rightarrow> nat \<Rightarrow> nat" where
  "hashmod t n = n mod ((sizenode t - 1) OR 1)"

definition hashpointer :: "'v table \<Rightarrow> nat \<Rightarrow> nat" where
  "hashpointer t p = hashmod t (unat (point2uint (of_nat p)))"

text \<open>The hash of a long string, computed when it is first needed and kept in the object.\<close>

definition lng_hash :: "strings \<Rightarrow> nat \<Rightarrow> u32" where
  "lng_hash g a =
     (let s = obj g a in if ts_extra s = 0 then luaS_hash (ts_text s) (ts_hash s) else ts_hash s)"

definition keep_hash :: "nat \<Rightarrow> strings \<Rightarrow> strings" where
  "keep_hash a g = set_obj a ((obj g a)\<lparr>ts_hash := lng_hash g a, ts_extra := 1\<rparr>) g"

text \<open>\<open>nil\<close> is never hashed.\<close>

definition mainposition :: "strings \<Rightarrow> 'v table \<Rightarrow> lua_key \<Rightarrow> nat" where
  "mainposition g t key =
     (case key of
        KInt i \<Rightarrow> hashint t i
      | KFlt b \<Rightarrow> hashmod t (l_hashfloat b)
      | KShr a \<Rightarrow> hashpow2 t (ts_hash (obj g a))
      | KLng a \<Rightarrow> hashpow2 t (lng_hash g a)
      | KBool b \<Rightarrow> hashpow2 t (if b then 1 else 0)
      | KLight p \<Rightarrow> hashpointer t p
      | KLcf p \<Rightarrow> hashpointer t p
      | KObj _ p \<Rightarrow> hashpointer t p
      | KDead p \<Rightarrow> hashpointer t p
      | KNil \<Rightarrow> 0)"

definition MAXABITS :: nat where "MAXABITS = 31"

definition MAXASIZE :: nat where "MAXASIZE = 2 ^ MAXABITS"

definition MAXHBITS :: nat where "MAXHBITS = MAXABITS - 1"

definition arrayindex :: "lua_key \<Rightarrow> nat" where
  "arrayindex key =
     (case key of KInt k \<Rightarrow> if 0 < sint k \<and> unat k \<le> MAXASIZE then unat k else 0 | _ \<Rightarrow> 0)"

section \<open>Searching\<close>

fun chain_find :: "nat \<Rightarrow> (lua_key \<Rightarrow> bool) \<Rightarrow> 'v node list \<Rightarrow> nat \<Rightarrow> table_error + nat option" where
  "chain_find 0 P ns n = Inl NoReturn"
| "chain_find (Suc fuel) P ns n =
     (if P (nd_key (ns ! n)) then Inr (Some n)
      else (let nx = nd_next (ns ! n)
            in if nx = 0 then Inr None else chain_find fuel P ns (nat (int n + nx))))"

datatype slot = InArray nat | InNode nat | NilObject

definition in_chain :: "'v table \<Rightarrow> (lua_key \<Rightarrow> bool) \<Rightarrow> nat \<Rightarrow> table_error + slot" where
  "in_chain t P n =
     bindT (chain_find (length (tb_node t)) P (tb_node t) n)
       (\<lambda>r. Inr (case r of Some i \<Rightarrow> InNode i | None \<Rightarrow> NilObject))"

definition luaH_getint :: "'v table \<Rightarrow> u64 \<Rightarrow> table_error + slot" where
  "luaH_getint t key =
     (if unat (key - 1) < sizearray t then Inr (InArray (unat (key - 1)))
      else in_chain t (\<lambda>k. k = KInt key) (hashint t key))"

definition luaH_getstr :: "strings \<Rightarrow> 'v table \<Rightarrow> nat \<Rightarrow> table_error + slot" where
  "luaH_getstr g t key = in_chain t (\<lambda>k. k = KShr key) (hashpow2 t (ts_hash (obj g key)))"

definition get_generic :: "strings \<Rightarrow> 'v table \<Rightarrow> lua_key \<Rightarrow> table_error + slot" where
  "get_generic g t key = in_chain t (\<lambda>k. luaV_rawequalobj g k key) (mainposition g t key)"

definition luaH_get :: "strings \<Rightarrow> 'v table \<Rightarrow> lua_key \<Rightarrow> table_error + slot" where
  "luaH_get g t key =
     (case key of
        KShr a \<Rightarrow> luaH_getstr g t a
      | KInt i \<Rightarrow> luaH_getint t i
      | KNil \<Rightarrow> Inr NilObject
      | KFlt b \<Rightarrow> (case flt_tointeger b of Some k \<Rightarrow> luaH_getint t k | None \<Rightarrow> get_generic g t key)
      | _ \<Rightarrow> get_generic g t key)"

definition slot_val :: "'v table \<Rightarrow> slot \<Rightarrow> 'v option" where
  "slot_val t s = (case s of InArray i \<Rightarrow> tb_array t ! i | InNode i \<Rightarrow> nd_val (tb_node t ! i) | NilObject \<Rightarrow> None)"

definition set_slot :: "slot \<Rightarrow> 'v option \<Rightarrow> 'v table \<Rightarrow> 'v table" where
  "set_slot s v t =
     (case s of
        InArray i \<Rightarrow> t\<lparr>tb_array := (tb_array t)[i := v]\<rparr>
      | InNode i \<Rightarrow> t\<lparr>tb_node := (tb_node t)[i := (tb_node t ! i)\<lparr>nd_val := v\<rparr>]\<rparr>
      | NilObject \<Rightarrow> t)"

section \<open>Inserting a key\<close>

fun free_search :: "'v node list \<Rightarrow> nat \<Rightarrow> nat option \<times> nat" where
  "free_search ns 0 = (None, 0)"
| "free_search ns (Suc l) = (if nd_key (ns ! l) = KNil then (Some l, l) else free_search ns l)"

definition getfreepos :: "'v table \<Rightarrow> nat option \<times> 'v table" where
  "getfreepos t = (case free_search (tb_node t) (tb_lastfree t) of (f, l) \<Rightarrow> (f, t\<lparr>tb_lastfree := l\<rparr>))"

fun find_previous :: "nat \<Rightarrow> 'v node list \<Rightarrow> nat \<Rightarrow> nat \<Rightarrow> table_error + nat" where
  "find_previous 0 ns othern mp = Inl NoReturn"
| "find_previous (Suc fuel) ns othern mp =
     (let n = nat (int othern + nd_next (ns ! othern))
      in if n \<noteq> mp then find_previous fuel ns n mp else Inr othern)"

text \<open>The colliding node at \<open>mp\<close> moves to the free node \<open>f\<close>; its predecessor is rechained.\<close>

definition move_node :: "nat \<Rightarrow> nat \<Rightarrow> nat \<Rightarrow> 'v node list \<Rightarrow> 'v node list" where
  "move_node prev mp f ns =
     (let ns1 = ns[prev := (ns ! prev)\<lparr>nd_next := int f - int prev\<rparr>];
          ns2 = ns1[f := ns1 ! mp];
          ns3 = (if nd_next (ns2 ! mp) \<noteq> 0
                 then (ns2[f := (ns2 ! f)\<lparr>nd_next := nd_next (ns2 ! f) + (int mp - int f)\<rparr>])
                        [mp := (ns2 ! mp)\<lparr>nd_next := 0\<rparr>]
                 else ns2)
      in ns3[mp := (ns3 ! mp)\<lparr>nd_val := None\<rparr>])"

text \<open>The free node \<open>f\<close> is chained behind \<open>mp\<close>.\<close>

definition chain_node :: "nat \<Rightarrow> nat \<Rightarrow> 'v node list \<Rightarrow> 'v node list" where
  "chain_node mp f ns =
     (let ns1 = (if nd_next (ns ! mp) \<noteq> 0
                 then ns[f := (ns ! f)\<lparr>nd_next := int mp + nd_next (ns ! mp) - int f\<rparr>] else ns)
      in ns1[mp := (ns1 ! mp)\<lparr>nd_next := int f - int mp\<rparr>])"

definition set_key :: "nat \<Rightarrow> lua_key \<Rightarrow> 'v node list \<Rightarrow> 'v node list" where
  "set_key mp key ns = ns[mp := (ns ! mp)\<lparr>nd_key := key\<rparr>]"

text \<open>The argument \<open>grow\<close> is what happens without a free node: rehash and insert again.\<close>

type_synonym 'v inserter = "'v table \<Rightarrow> lua_key \<Rightarrow> table_error + slot \<times> 'v table"

definition insert_key :: "'v inserter \<Rightarrow> strings \<Rightarrow> 'v inserter" where
  "insert_key grow g t key =
     (let mp = mainposition g t key
      in if nd_val (tb_node t ! mp) \<noteq> None \<or> tb_dummy t then
           (let (f, t1) = getfreepos t
            in case f of
                 None \<Rightarrow> grow t1 key
               | Some f \<Rightarrow>
                   (let othern = mainposition g t1 (nd_key (tb_node t1 ! mp))
                    in if othern \<noteq> mp then
                         bindT (find_previous (length (tb_node t1)) (tb_node t1) othern mp)
                           (\<lambda>prev. Inr (InNode mp, t1\<lparr>tb_node := set_key mp key (move_node prev mp f (tb_node t1))\<rparr>))
                       else Inr (InNode f, t1\<lparr>tb_node := set_key f key (chain_node mp f (tb_node t1))\<rparr>)))
         else Inr (InNode mp, t\<lparr>tb_node := set_key mp key (tb_node t)\<rparr>))"

definition luaH_newkey :: "'v inserter \<Rightarrow> strings \<Rightarrow> 'v inserter" where
  "luaH_newkey grow g t key =
     (case key of
        KNil \<Rightarrow> Inl IndexNil
      | KFlt b \<Rightarrow> (case flt_tointeger b of
                     Some k \<Rightarrow> insert_key grow g t (KInt k)
                   | None \<Rightarrow> if flt_isnan b then Inl IndexNaN else insert_key grow g t key)
      | _ \<Rightarrow> insert_key grow g t key)"

definition luaH_set :: "'v inserter \<Rightarrow> strings \<Rightarrow> 'v inserter" where
  "luaH_set grow g t key =
     bindT (luaH_get g t key) (\<lambda>p. if p \<noteq> NilObject then Inr (p, t) else luaH_newkey grow g t key)"

definition luaH_setint :: "'v inserter \<Rightarrow> strings \<Rightarrow> 'v table \<Rightarrow> u64 \<Rightarrow> 'v option \<Rightarrow> table_error + 'v table" where
  "luaH_setint grow g t key value =
     bindT (luaH_getint t key)
       (\<lambda>p. bindT (if p \<noteq> NilObject then Inr (p, t) else luaH_newkey grow g t (KInt key))
              (\<lambda>(cell, t1). Inr (set_slot cell value t1)))"

section \<open>Resizing\<close>

definition setarrayvector :: "nat \<Rightarrow> 'v table \<Rightarrow> 'v table" where
  "setarrayvector sz t = t\<lparr>tb_array := take sz (tb_array t) @ replicate (sz - sizearray t) None\<rparr>"

definition setnodevector :: "nat \<Rightarrow> 'v table \<Rightarrow> table_error + 'v table" where
  "setnodevector sz t =
     (if sz = 0 then Inr (t\<lparr>tb_node := [empty_node], tb_dummy := True, tb_lsizenode := 0, tb_lastfree := 0\<rparr>)
      else (let lsize = luaO_ceillog2 (of_nat sz)
            in if lsize > MAXHBITS then Inl TableOverflow
               else Inr (t\<lparr>tb_node := replicate (2 ^ lsize) empty_node, tb_dummy := False,
                           tb_lsizenode := lsize, tb_lastfree := 2 ^ lsize\<rparr>)))"

text \<open>Reinserting the vanishing slice of the array (from index \<open>i\<close>) and the old nodes, last first.\<close>

fun reinsert_slice :: "'v inserter \<Rightarrow> strings \<Rightarrow> nat \<Rightarrow> 'v option list \<Rightarrow> 'v table \<Rightarrow> table_error + 'v table" where
  "reinsert_slice grow g i [] t = Inr t"
| "reinsert_slice grow g i (v # vs) t =
     bindT (if v \<noteq> None then luaH_setint grow g t (of_nat (i + 1)) v else Inr t)
       (\<lambda>t1. reinsert_slice grow g (i + 1) vs t1)"

fun reinsert_nodes :: "'v inserter \<Rightarrow> strings \<Rightarrow> 'v node list \<Rightarrow> 'v table \<Rightarrow> table_error + 'v table" where
  "reinsert_nodes grow g [] t = Inr t"
| "reinsert_nodes grow g (old # ns) t =
     bindT (if nd_val old \<noteq> None
            then bindT (luaH_set grow g t (nd_key old)) (\<lambda>(cell, t1). Inr (set_slot cell (nd_val old) t1))
            else Inr t)
       (\<lambda>t1. reinsert_nodes grow g ns t1)"

definition luaH_resize :: "'v inserter \<Rightarrow> strings \<Rightarrow> 'v table \<Rightarrow> nat \<Rightarrow> nat \<Rightarrow> table_error + 'v table" where
  "luaH_resize grow g t nasize nhsize =
     (let oldasize = sizearray t;
          nold = tb_node t;
          t1 = (if nasize > oldasize then setarrayvector nasize t else t)
      in bindT (setnodevector nhsize t1)
           (\<lambda>t2. bindT (if nasize < oldasize
                        then reinsert_slice grow g nasize (drop nasize (tb_array t2))
                               (t2\<lparr>tb_array := take nasize (tb_array t2)\<rparr>)
                        else Inr t2)
                   (\<lambda>t3. reinsert_nodes grow g (rev nold) t3)))"

definition luaH_resizearray :: "'v inserter \<Rightarrow> strings \<Rightarrow> 'v table \<Rightarrow> nat \<Rightarrow> table_error + 'v table" where
  "luaH_resizearray grow g t nasize =
     (let nsize = (if tb_dummy t then 0 else sizenode t) in luaH_resize grow g t nasize nsize)"

section \<open>Counting keys\<close>

text \<open>
  The candidate \<open>twotoi\<close> is an unsigned 32-bit integer; once it has passed \<open>2 ^ 31\<close> it wraps to 0 and the
  loop goes on behind the end of \<open>nums\<close>.
\<close>

function computesizes_loop :: "nat list \<Rightarrow> nat \<Rightarrow> nat \<Rightarrow> u32 \<Rightarrow> nat \<Rightarrow> nat \<Rightarrow> nat \<Rightarrow> table_error + nat \<times> nat" where
  "computesizes_loop nums pna i twotoi a na optimal =
     (if pna > unat (twotoi div 2) then
        (if i \<ge> length nums then Inl OutOfBounds
         else if nums ! i > 0 then
           (let a1 = a + nums ! i
            in if a1 > unat (twotoi div 2)
               then computesizes_loop nums pna (i + 1) (twotoi * 2) a1 a1 (unat twotoi)
               else computesizes_loop nums pna (i + 1) (twotoi * 2) a1 na optimal)
         else computesizes_loop nums pna (i + 1) (twotoi * 2) a na optimal)
      else Inr (optimal, na))"
  by pat_completeness auto
termination by (relation "measure (\<lambda>(nums, pna, i, twotoi, a, na, optimal). length nums - i)") auto

declare computesizes_loop.simps [simp del]

definition computesizes :: "nat list \<Rightarrow> nat \<Rightarrow> table_error + nat \<times> nat" where
  "computesizes nums pna = computesizes_loop nums pna 0 1 0 0 0"

definition countint :: "lua_key \<Rightarrow> nat list \<Rightarrow> nat \<times> nat list" where
  "countint key nums =
     (let k = arrayindex key
      in if k \<noteq> 0 then (1, nums[luaO_ceillog2 (of_nat k) := nums ! luaO_ceillog2 (of_nat k) + 1]) else (0, nums))"

text \<open>The slices of the array part, from slice \<open>lg\<close> and index \<open>i\<close>.\<close>

definition count_slice :: "'v option list \<Rightarrow> nat \<Rightarrow> nat \<Rightarrow> nat" where
  "count_slice arr i lim = length (filter (\<lambda>j. arr ! (j - 1) \<noteq> None) [i..<Suc lim])"

function numusearray_loop :: "'v option list \<Rightarrow> nat \<Rightarrow> nat \<Rightarrow> nat list \<Rightarrow> nat \<Rightarrow> nat \<times> nat list" where
  "numusearray_loop arr lg i nums ause =
     (if lg > MAXABITS then (ause, nums)
      else if 2 ^ lg > length arr \<and> i > length arr then (ause, nums)
      else (let lim = min (2 ^ lg) (length arr);
                lc = count_slice arr i lim
            in numusearray_loop arr (lg + 1) (max i (lim + 1)) (nums[lg := nums ! lg + lc]) (ause + lc)))"
  by pat_completeness auto
termination by (relation "measure (\<lambda>(arr, lg, i, nums, ause). Suc MAXABITS - lg)") auto

declare numusearray_loop.simps [simp del]

definition numusearray :: "'v table \<Rightarrow> nat list \<Rightarrow> nat \<times> nat list" where
  "numusearray t nums = numusearray_loop (tb_array t) 0 1 nums 0"

fun numusehash_loop :: "'v node list \<Rightarrow> nat list \<Rightarrow> nat \<Rightarrow> nat \<Rightarrow> nat \<times> nat \<times> nat list" where
  "numusehash_loop [] nums ause totaluse = (totaluse, ause, nums)"
| "numusehash_loop (n # ns) nums ause totaluse =
     (if nd_val n \<noteq> None
      then (let (c, nums1) = countint (nd_key n) nums in numusehash_loop ns nums1 (ause + c) (totaluse + 1))
      else numusehash_loop ns nums ause totaluse)"

definition numusehash :: "'v table \<Rightarrow> nat list \<Rightarrow> nat \<Rightarrow> nat \<times> nat \<times> nat list" where
  "numusehash t nums pna =
     (case numusehash_loop (rev (tb_node t)) nums 0 0 of (totaluse, ause, nums1) \<Rightarrow> (totaluse, pna + ause, nums1))"

definition rehash :: "'v inserter \<Rightarrow> strings \<Rightarrow> 'v table \<Rightarrow> lua_key \<Rightarrow> table_error + 'v table" where
  "rehash grow g t ek =
     (let nums0 = replicate (MAXABITS + 1) 0;
          (na1, nums1) = numusearray t nums0;
          (htotal, na2, nums2) = numusehash t nums1 na1;
          (c, nums3) = countint ek nums2;
          na3 = na2 + c;
          totaluse = na1 + htotal + 1
      in bindT (computesizes nums3 na3)
           (\<lambda>(asize, na). luaH_resize grow g t asize (totaluse - na)))"

text \<open>What \<open>luaH_newkey\<close> does without a free node; the recursion is bounded by its depth.\<close>

fun grow_insert :: "nat \<Rightarrow> strings \<Rightarrow> 'v inserter" where
  "grow_insert 0 g t key = Inl NoReturn"
| "grow_insert (Suc depth) g t key =
     bindT (rehash (grow_insert depth g) g t key) (\<lambda>t1. luaH_set (grow_insert depth g) g t1 key)"

section \<open>Creation, traversal, length\<close>

definition luaH_new :: "'v table" where
  "luaH_new = \<lparr>tb_array = [], tb_lsizenode = 0, tb_dummy = True, tb_node = [empty_node], tb_lastfree = 0\<rparr>"

definition iscollectable :: "lua_key \<Rightarrow> bool" where
  "iscollectable key = (case key of KShr _ \<Rightarrow> True | KLng _ \<Rightarrow> True | KObj _ _ \<Rightarrow> True | _ \<Rightarrow> False)"

definition gcvalue :: "lua_key \<Rightarrow> nat" where
  "gcvalue key = (case key of KShr a \<Rightarrow> a | KLng a \<Rightarrow> a | KObj _ a \<Rightarrow> a | KDead a \<Rightarrow> a | _ \<Rightarrow> 0)"

definition same_or_dead :: "strings \<Rightarrow> lua_key \<Rightarrow> lua_key \<Rightarrow> bool" where
  "same_or_dead g key k \<longleftrightarrow> luaV_rawequalobj g k key \<or>
     (case k of KDead a \<Rightarrow> iscollectable key \<and> a = gcvalue key | _ \<Rightarrow> False)"

definition findindex :: "strings \<Rightarrow> 'v table \<Rightarrow> lua_key \<Rightarrow> table_error + nat" where
  "findindex g t key =
     (if key = KNil then Inr 0
      else (let i = arrayindex key
            in if i \<noteq> 0 \<and> i \<le> sizearray t then Inr i
               else bindT (chain_find (length (tb_node t)) (same_or_dead g key) (tb_node t) (mainposition g t key))
                      (\<lambda>r. case r of None \<Rightarrow> Inl InvalidKey | Some i \<Rightarrow> Inr (i + 1 + sizearray t))))"

definition luaH_next :: "strings \<Rightarrow> 'v table \<Rightarrow> lua_key \<Rightarrow> table_error + (lua_key \<times> 'v) option" where
  "luaH_next g t key =
     bindT (findindex g t key)
       (\<lambda>i. Inr (case find (\<lambda>j. tb_array t ! j \<noteq> None) [i..<sizearray t] of
                   Some j \<Rightarrow> Some (KInt (of_nat (j + 1)), the (tb_array t ! j))
                 | None \<Rightarrow>
                     (case find (\<lambda>j. nd_val (tb_node t ! j) \<noteq> None) [max i (sizearray t) - sizearray t..<sizenode t] of
                        Some j \<Rightarrow> Some (nd_key (tb_node t ! j), the (nd_val (tb_node t ! j)))
                      | None \<Rightarrow> None)))"

definition getint_val :: "'v table \<Rightarrow> nat \<Rightarrow> table_error + 'v option" where
  "getint_val t j = bindT (luaH_getint t (of_nat j)) (\<lambda>p. Inr (slot_val t p))"

text \<open>Linear search, for tables built with bad purposes; \<open>fuel\<close> bounds it.\<close>

fun linear_search :: "nat \<Rightarrow> 'v table \<Rightarrow> nat \<Rightarrow> table_error + nat" where
  "linear_search 0 t i = Inl NoReturn"
| "linear_search (Suc fuel) t i =
     bindT (getint_val t i) (\<lambda>v. if v \<noteq> None then linear_search fuel t (i + 1) else Inr (i - 1))"

function binary_search :: "(nat \<Rightarrow> table_error + 'v option) \<Rightarrow> nat \<Rightarrow> nat \<Rightarrow> table_error + nat" where
  "binary_search get i j =
     (if j - i > 1 then
        (let m = (i + j) div 2
         in bindT (get m) (\<lambda>v. if v = None then binary_search get i m else binary_search get m j))
      else Inr i)"
  by pat_completeness auto
termination by (relation "measure (\<lambda>(get, i, j). j - i)") auto

declare binary_search.simps [simp del]

function unbound_loop :: "'v table \<Rightarrow> nat \<Rightarrow> nat \<Rightarrow> table_error + nat" where
  "unbound_loop t i j =
     bindT (getint_val t j)
       (\<lambda>v. if v \<noteq> None then
              (if j > MAX_INT div 2 then linear_search (sizearray t + sizenode t + 2) t 1
               else if j = 0 then Inl NoReturn else unbound_loop t j (j * 2))
            else binary_search (getint_val t) i j)"
  by pat_completeness auto
termination by (relation "measure (\<lambda>(t, i, j). MAX_INT - j)") (auto simp: MAX_INT_def)

declare unbound_loop.simps [simp del]

text \<open>The counters are unsigned and do not wrap; they are returned as an \<open>int\<close>.\<close>

definition as_int :: "nat \<Rightarrow> int" where
  "as_int n = sint (of_nat n :: u32)"

definition unbound_search :: "'v table \<Rightarrow> nat \<Rightarrow> table_error + int" where
  "unbound_search t j = bindT (unbound_loop t j (j + 1)) (\<lambda>i. Inr (as_int i))"

definition luaH_getn :: "'v table \<Rightarrow> table_error + int" where
  "luaH_getn t =
     (let j = sizearray t
      in if j > 0 \<and> tb_array t ! (j - 1) = None
         then bindT (binary_search (\<lambda>m. Inr (tb_array t ! (m - 1))) 0 j) (\<lambda>i. Inr (as_int i))
         else if tb_dummy t then Inr (as_int j)
         else unbound_search t j)"

end
