(* ===== verification/LuaTableInv.thy ===== *)
theory LuaTableInv
  imports LuaTable
begin

text \<open>
  The invariant of tables: chains of nodes do not cross and do not loop, every key is reachable from
  its main position, and a node that keeps another one from its main position is in its own
  (Brent's variation). Searching returns on such a table and finds exactly the keys there are;
  inserting a key keeps the invariant.
\<close>

section \<open>Chains\<close>

definition link :: "'v node list \<Rightarrow> (nat \<times> nat) set" where
  "link ns = {(i, j). i < length ns \<and> nd_next (ns ! i) \<noteq> 0 \<and> int j = int i + nd_next (ns ! i)}"

definition chains_ok :: "'v node list \<Rightarrow> bool" where
  "chains_ok ns \<longleftrightarrow>
     (\<forall>i < length ns. nd_next (ns ! i) \<noteq> 0 \<longrightarrow> 0 \<le> int i + nd_next (ns ! i) \<and> int i + nd_next (ns ! i) < int (length ns)) \<and>
     (\<exists>r :: nat \<Rightarrow> nat. \<forall>(i, j) \<in> link ns. r j < r i) \<and>
     (\<forall>i j k. (i, k) \<in> link ns \<longrightarrow> (j, k) \<in> link ns \<longrightarrow> i = j) \<and>
     (\<forall>(i, j) \<in> link ns. nd_key (ns ! i) \<noteq> KNil \<and> nd_key (ns ! j) \<noteq> KNil)"

lemma link_functional: "(i, j) \<in> link ns \<Longrightarrow> (i, k) \<in> link ns \<Longrightarrow> j = k"
  by (auto simp: link_def)

lemma link_range: "chains_ok ns \<Longrightarrow> (i, j) \<in> link ns \<Longrightarrow> i < length ns \<and> j < length ns"
  unfolding chains_ok_def link_def by fastforce

lemma link_next: "chains_ok ns \<Longrightarrow> i < length ns \<Longrightarrow> nd_next (ns ! i) \<noteq> 0 \<Longrightarrow> (i, nat (int i + nd_next (ns ! i))) \<in> link ns"
  by (auto simp: chains_ok_def link_def)

lemma reach_range: "(i, j) \<in> (link ns)\<^sup>* \<Longrightarrow> chains_ok ns \<Longrightarrow> i < length ns \<Longrightarrow> j < length ns"
  by (induction rule: rtrancl_induct) (auto dest: link_range)

lemma reach_rank: "(i, j) \<in> (link ns)\<^sup>* \<Longrightarrow> \<forall>(i, j) \<in> link ns. r j < r i \<Longrightarrow> r j \<le> (r i :: nat)"
  by (induction rule: rtrancl_induct) (auto intro: less_imp_le order_trans)

lemma no_way_back: "chains_ok ns \<Longrightarrow> (i, j) \<in> link ns \<Longrightarrow> (j, i) \<notin> (link ns)\<^sup>*"
proof
  assume ok: "chains_ok ns" and l: "(i, j) \<in> link ns" and loop: "(j, i) \<in> (link ns)\<^sup>*"
  obtain r :: "nat \<Rightarrow> nat" where r: "\<forall>(i, j) \<in> link ns. r j < r i" using ok by (auto simp: chains_ok_def)
  from reach_rank [OF loop r] r l show False by auto
qed

lemma reach_step: "(i, j) \<in> link ns \<Longrightarrow> {q. (i, q) \<in> (link ns)\<^sup>*} = insert i {q. (j, q) \<in> (link ns)\<^sup>*}"
  by (rule set_eqI) (metis (no_types, lifting) converse_rtranclE converse_rtrancl_into_rtrancl insert_iff link_functional mem_Collect_eq rtrancl.rtrancl_refl)

lemma reach_end: "nd_next (ns ! i) = 0 \<Longrightarrow> (i, q) \<in> (link ns)\<^sup>* \<Longrightarrow> q = i"
  by (erule converse_rtranclE) (auto simp: link_def)

lemma finite_reach: "chains_ok ns \<Longrightarrow> n < length ns \<Longrightarrow> finite {q. (n, q) \<in> (link ns)\<^sup>*}"
  by (rule finite_subset [of _ "{..<length ns}"]) (auto dest: reach_range)

lemma chain_find_fuel:
  assumes ok: "chains_ok ns"
  shows "n < length ns \<Longrightarrow> card {q. (n, q) \<in> (link ns)\<^sup>*} \<le> fuel \<Longrightarrow>
    \<exists>r. chain_find fuel P ns n = Inr r \<and>
      (case r of Some p \<Rightarrow> (n, p) \<in> (link ns)\<^sup>* \<and> P (nd_key (ns ! p))
               | None \<Rightarrow> \<forall>q. (n, q) \<in> (link ns)\<^sup>* \<longrightarrow> \<not> P (nd_key (ns ! q)))"
proof (induction fuel arbitrary: n)
  case 0
  then have "{q. (n, q) \<in> (link ns)\<^sup>*} = {}" using finite_reach [OF ok] by simp
  then show ?case by blast
next
  case (Suc fuel)
  show ?case
  proof (cases "P (nd_key (ns ! n)) \<or> nd_next (ns ! n) = 0")
    case True
    then show ?thesis by (auto dest: reach_end)
  next
    case False
    define m where "m = nat (int n + nd_next (ns ! n))"
    have l: "(n, m) \<in> link ns" unfolding m_def using link_next [OF ok Suc.prems(1)] False by blast
    then have m: "m < length ns" using link_range [OF ok] by blast
    have "n \<notin> {q. (m, q) \<in> (link ns)\<^sup>*}" using no_way_back [OF ok l] by blast
    then have "card {q. (n, q) \<in> (link ns)\<^sup>*} = Suc (card {q. (m, q) \<in> (link ns)\<^sup>*})"
      unfolding reach_step [OF l] using finite_reach [OF ok m] by simp
    then have "card {q. (m, q) \<in> (link ns)\<^sup>*} \<le> fuel" using Suc.prems(2) by simp
    from Suc.IH [OF m this] obtain r where r: "chain_find fuel P ns m = Inr r"
      "case r of Some p \<Rightarrow> (m, p) \<in> (link ns)\<^sup>* \<and> P (nd_key (ns ! p))
               | None \<Rightarrow> \<forall>q. (m, q) \<in> (link ns)\<^sup>* \<longrightarrow> \<not> P (nd_key (ns ! q))" by blast
    have "chain_find (Suc fuel) P ns n = Inr r" using False r(1) by (simp add: m_def Let_def)
    moreover have "case r of Some p \<Rightarrow> (n, p) \<in> (link ns)\<^sup>* \<and> P (nd_key (ns ! p))
               | None \<Rightarrow> \<forall>q. (n, q) \<in> (link ns)\<^sup>* \<longrightarrow> \<not> P (nd_key (ns ! q))"
    proof -
      have "(n, q) \<in> (link ns)\<^sup>* \<longleftrightarrow> q = n \<or> (m, q) \<in> (link ns)\<^sup>*" for q using reach_step [OF l] by blast
      then show ?thesis using r(2) False by (cases r) auto
    qed
    ultimately show ?thesis by blast
  qed
qed

lemma chain_find_total:
  assumes "chains_ok ns" "n < length ns"
  obtains p where "chain_find (length ns) P ns n = Inr (Some p)" "(n, p) \<in> (link ns)\<^sup>*" "P (nd_key (ns ! p))" "p < length ns"
  | "chain_find (length ns) P ns n = Inr None" "\<And>q. (n, q) \<in> (link ns)\<^sup>* \<Longrightarrow> \<not> P (nd_key (ns ! q))"
proof -
  have "card {q. (n, q) \<in> (link ns)\<^sup>*} \<le> card {..<length ns}"
    by (rule card_mono) (use assms in \<open>auto dest: reach_range\<close>)
  then have "card {q. (n, q) \<in> (link ns)\<^sup>*} \<le> length ns" by simp
  from chain_find_fuel [OF assms this, of P] obtain r where r: "chain_find (length ns) P ns n = Inr r"
      "case r of Some p \<Rightarrow> (n, p) \<in> (link ns)\<^sup>* \<and> P (nd_key (ns ! p))
               | None \<Rightarrow> \<forall>q. (n, q) \<in> (link ns)\<^sup>* \<longrightarrow> \<not> P (nd_key (ns ! q))" by blast
  show ?thesis
  proof (cases r)
    case None
    then show ?thesis using r that(2) by simp
  next
    case (Some p)
    then show ?thesis using r that(1) reach_range assms by fastforce
  qed
qed

lemma find_previous_fuel:
  assumes ok: "chains_ok ns"
  shows "n < length ns \<Longrightarrow> card {q. (n, q) \<in> (link ns)\<^sup>*} \<le> fuel \<Longrightarrow> (n, mp) \<in> (link ns)\<^sup>+ \<Longrightarrow>
    \<exists>prev. find_previous fuel ns n mp = Inr prev \<and> (n, prev) \<in> (link ns)\<^sup>* \<and> (prev, mp) \<in> link ns"
proof (induction fuel arbitrary: n)
  case 0
  then have "{q. (n, q) \<in> (link ns)\<^sup>*} = {}" using finite_reach [OF ok] by simp
  then show ?case by blast
next
  case (Suc fuel)
  obtain m where l: "(n, m) \<in> link ns" and rest: "(m, mp) \<in> (link ns)\<^sup>*"
    using Suc.prems(3) by (metis tranclD)
  then have m: "m < length ns" and me: "nat (int n + nd_next (ns ! n)) = m"
    using link_range [OF ok l] l by (auto simp: link_def)
  show ?case
  proof (cases "m = mp")
    case True
    then have "find_previous (Suc fuel) ns n mp = Inr n" by (simp only: find_previous.simps Let_def me simp_thms if_False)
    then show ?thesis using l True by blast
  next
    case False
    have "n \<notin> {q. (m, q) \<in> (link ns)\<^sup>*}" using no_way_back [OF ok l] by blast
    then have "card {q. (n, q) \<in> (link ns)\<^sup>*} = Suc (card {q. (m, q) \<in> (link ns)\<^sup>*})"
      unfolding reach_step [OF l] using finite_reach [OF ok m] by simp
    then have "card {q. (m, q) \<in> (link ns)\<^sup>*} \<le> fuel" using Suc.prems(2) by simp
    moreover have "(m, mp) \<in> (link ns)\<^sup>+" using rest False by (metis rtranclD)
    ultimately obtain prev where "find_previous fuel ns m mp = Inr prev" "(m, prev) \<in> (link ns)\<^sup>*" "(prev, mp) \<in> link ns"
      using Suc.IH [OF m] by blast
    moreover have "find_previous (Suc fuel) ns n mp = find_previous fuel ns m mp"
      using False by (simp only: find_previous.simps Let_def me simp_thms if_True not_False_eq_True)
    ultimately show ?thesis using l by (metis converse_rtrancl_into_rtrancl)
  qed
qed

lemma find_previous_total:
  assumes "chains_ok ns" "n < length ns" "(n, mp) \<in> (link ns)\<^sup>*" "n \<noteq> mp"
  obtains prev where "find_previous (length ns) ns n mp = Inr prev" "(n, prev) \<in> (link ns)\<^sup>*" "(prev, mp) \<in> link ns"
proof -
  have "card {q. (n, q) \<in> (link ns)\<^sup>*} \<le> card {..<length ns}"
    by (rule card_mono) (use assms in \<open>auto dest: reach_range\<close>)
  then have "card {q. (n, q) \<in> (link ns)\<^sup>*} \<le> length ns" by simp
  moreover have "(n, mp) \<in> (link ns)\<^sup>+" using assms(3,4) by (metis rtranclD)
  ultimately show ?thesis using find_previous_fuel [OF assms(1,2)] that by blast
qed

section \<open>Three ways to place a key\<close>

definition proper :: "lua_key \<Rightarrow> bool" where
  "proper k \<longleftrightarrow> k \<noteq> KNil \<and> (\<forall>a. k \<noteq> KDead a)"

text \<open>
  The invariant of the nodes, over any equality of keys, any main positions and any condition on
  the keys that are stored.
\<close>

definition nodes_ok :: "(lua_key \<Rightarrow> lua_key \<Rightarrow> bool) \<Rightarrow> (lua_key \<Rightarrow> nat) \<Rightarrow> (lua_key \<Rightarrow> bool) \<Rightarrow> 'v node list \<Rightarrow> bool" where
  "nodes_ok eqk h good ns \<longleftrightarrow> chains_ok ns \<and>
     (\<forall>i < length ns. nd_key (ns ! i) = KNil \<longrightarrow> nd_next (ns ! i) = 0) \<and>
     (\<forall>i < length ns. \<not> proper (nd_key (ns ! i)) \<longrightarrow> nd_val (ns ! i) = None) \<and>
     (\<forall>i < length ns. proper (nd_key (ns ! i)) \<longrightarrow>
        good (nd_key (ns ! i)) \<and> h (nd_key (ns ! i)) < length ns \<and> (h (nd_key (ns ! i)), i) \<in> (link ns)\<^sup>* \<and>
        nd_key (ns ! h (nd_key (ns ! i))) \<noteq> KNil \<and>
        (proper (nd_key (ns ! h (nd_key (ns ! i)))) \<longrightarrow> h (nd_key (ns ! h (nd_key (ns ! i)))) = h (nd_key (ns ! i)))) \<and>
     (\<forall>i j. i < length ns \<longrightarrow> j < length ns \<longrightarrow> proper (nd_key (ns ! i)) \<longrightarrow> proper (nd_key (ns ! j)) \<longrightarrow>
        eqk (nd_key (ns ! i)) (nd_key (ns ! j)) \<longrightarrow> i = j)"

definition node_pairs :: "'v node list \<Rightarrow> (lua_key \<times> 'v) set" where
  "node_pairs ns = {(nd_key (ns ! i), v) | i v. i < length ns \<and> nd_val (ns ! i) = Some v}"

definition absent :: "(lua_key \<Rightarrow> lua_key \<Rightarrow> bool) \<Rightarrow> lua_key \<Rightarrow> 'v node list \<Rightarrow> bool" where
  "absent eqk k ns \<longleftrightarrow> (\<forall>i < length ns. proper (nd_key (ns ! i)) \<longrightarrow> \<not> eqk (nd_key (ns ! i)) k \<and> \<not> eqk k (nd_key (ns ! i)))"

lemma nodes_okD:
  assumes "nodes_ok eqk h good ns"
  shows "chains_ok ns"
    "i < length ns \<Longrightarrow> nd_key (ns ! i) = KNil \<Longrightarrow> nd_next (ns ! i) = 0"
    "i < length ns \<Longrightarrow> \<not> proper (nd_key (ns ! i)) \<Longrightarrow> nd_val (ns ! i) = None"
    "i < length ns \<Longrightarrow> proper (nd_key (ns ! i)) \<Longrightarrow> good (nd_key (ns ! i))"
    "i < length ns \<Longrightarrow> proper (nd_key (ns ! i)) \<Longrightarrow> h (nd_key (ns ! i)) < length ns"
    "i < length ns \<Longrightarrow> proper (nd_key (ns ! i)) \<Longrightarrow> (h (nd_key (ns ! i)), i) \<in> (link ns)\<^sup>*"
    "i < length ns \<Longrightarrow> proper (nd_key (ns ! i)) \<Longrightarrow> nd_key (ns ! h (nd_key (ns ! i))) \<noteq> KNil"
    "i < length ns \<Longrightarrow> proper (nd_key (ns ! i)) \<Longrightarrow> proper (nd_key (ns ! h (nd_key (ns ! i)))) \<Longrightarrow>
      h (nd_key (ns ! h (nd_key (ns ! i)))) = h (nd_key (ns ! i))"
    "i < length ns \<Longrightarrow> j < length ns \<Longrightarrow> proper (nd_key (ns ! i)) \<Longrightarrow> proper (nd_key (ns ! j)) \<Longrightarrow>
      eqk (nd_key (ns ! i)) (nd_key (ns ! j)) \<Longrightarrow> i = j"
  using assms unfolding nodes_ok_def by blast+

lemma chains_okE:
  assumes "chains_ok ns"
  obtains r :: "nat \<Rightarrow> nat" where "\<And>i j. (i, j) \<in> link ns \<Longrightarrow> r j < r i"
  using assms unfolding chains_ok_def by blast

lemma pairs_cong:
  assumes "length ns1 = length ns" "\<And>i. i < length ns \<Longrightarrow> nd_val (ns1 ! i) = nd_val (ns ! i)"
    and "\<And>i. i < length ns \<Longrightarrow> nd_val (ns ! i) \<noteq> None \<Longrightarrow> nd_key (ns1 ! i) = nd_key (ns ! i)"
  shows "node_pairs ns1 = node_pairs ns"
proof (rule set_eqI)
  fix p
  show "p \<in> node_pairs ns1 \<longleftrightarrow> p \<in> node_pairs ns"
    unfolding node_pairs_def mem_Collect_eq assms(1) by (metis assms(2,3) option.distinct(1))
qed

lemma length_set_key [simp]: "length (set_key i k ns) = length ns"
  by (simp add: set_key_def)

lemma nth_set_key: "i < length ns \<Longrightarrow> j < length ns \<Longrightarrow> set_key i k ns ! j = (if j = i then (ns ! i)\<lparr>nd_key := k\<rparr> else ns ! j)"
  by (simp add: set_key_def nth_list_update)

lemma link_set_key: "link (set_key i k ns) = link ns"
  unfolding link_def set_key_def by (cases "i < length ns") (auto simp: nth_list_update split: if_splits)

text \<open>Overwriting the key of a node without a value, in the key's main position.\<close>

lemma set_key_ok:
  assumes ok: "nodes_ok eqk h good ns" and mp: "mp < length ns" "h k = mp" "nd_val (ns ! mp) = None"
    and k: "proper k" "good k" "absent eqk k ns"
  shows "nodes_ok eqk h good (set_key mp k ns)" "node_pairs (set_key mp k ns) = node_pairs ns"
proof -
  let ?ns = "set_key mp k ns"
  note d = nodes_okD [OF ok]
  have at: "?ns ! j = (if j = mp then (ns ! mp)\<lparr>nd_key := k\<rparr> else ns ! j)" if "j < length ns" for j
    using nth_set_key [OF mp(1) that] .
  have nn: "k \<noteq> KNil" using k(1) by (simp add: proper_def)
  have "chains_ok ?ns"
    using d(1) link_range [OF d(1)] nn unfolding chains_ok_def link_set_key by (fastforce simp: at split: if_splits)
  moreover have "nd_key (?ns ! i) = KNil \<Longrightarrow> nd_next (?ns ! i) = 0" if "i < length ns" for i
    using d(2) that nn by (auto simp: at split: if_splits)
  moreover have "\<not> proper (nd_key (?ns ! i)) \<Longrightarrow> nd_val (?ns ! i) = None" if "i < length ns" for i
    using d(3) that k by (auto simp: at split: if_splits)
  moreover have "good (nd_key (?ns ! i)) \<and> h (nd_key (?ns ! i)) < length ns \<and> (h (nd_key (?ns ! i)), i) \<in> (link ns)\<^sup>* \<and>
        nd_key (?ns ! h (nd_key (?ns ! i))) \<noteq> KNil \<and>
        (proper (nd_key (?ns ! h (nd_key (?ns ! i)))) \<longrightarrow> h (nd_key (?ns ! h (nd_key (?ns ! i)))) = h (nd_key (?ns ! i)))"
    if "i < length ns" "proper (nd_key (?ns ! i))" for i
  proof (cases "i = mp")
    case True
    then show ?thesis using mp k nn by (simp add: at)
  next
    case False
    then have "proper (nd_key (ns ! i))" using that by (simp add: at)
    then show ?thesis using d(4-8) [OF that(1)] False mp nn that(1) by (auto simp: at)
  qed
  moreover have "i = j" if "i < length ns" "j < length ns" "proper (nd_key (?ns ! i))" "proper (nd_key (?ns ! j))"
      "eqk (nd_key (?ns ! i)) (nd_key (?ns ! j))" for i j
    using that d(9) [OF that(1,2)] k(3) by (auto simp: at absent_def split: if_splits)
  ultimately show "nodes_ok eqk h good ?ns"
    unfolding nodes_ok_def link_set_key length_set_key by blast
  show "node_pairs ?ns = node_pairs ns"
    by (rule pairs_cong) (use mp(1,3) in \<open>auto simp: at\<close>)
qed


text \<open>Chaining a free node behind a node in its main position.\<close>

lemma nth_chain_node:
  assumes "mp < length ns" "f < length ns" "f \<noteq> mp" "nd_next (ns ! f) = 0" "j < length ns"
  shows "set_key f k (chain_node mp f ns) ! j =
    (if j = mp then (ns ! mp)\<lparr>nd_next := int f - int mp\<rparr>
     else if j = f then (ns ! f)\<lparr>nd_next := (if nd_next (ns ! mp) \<noteq> 0 then int mp + nd_next (ns ! mp) - int f else 0), nd_key := k\<rparr>
     else ns ! j)"
  using assms by (auto simp: set_key_def chain_node_def Let_def nth_list_update)

lemma length_chain_node [simp]: "length (chain_node mp f ns) = length ns"
  by (simp add: chain_node_def Let_def)

lemma link_chain_node:
  assumes ok: "chains_ok ns" and mp: "mp < length ns" "f < length ns" "f \<noteq> mp" "nd_next (ns ! f) = 0" "nd_key (ns ! f) = KNil"
  shows "(i, j) \<in> link (set_key f k (chain_node mp f ns)) \<longleftrightarrow>
    i = mp \<and> j = f \<or> i = f \<and> (mp, j) \<in> link ns \<or> i \<noteq> mp \<and> i \<noteq> f \<and> (i, j) \<in> link ns"
proof -
  have "(mp, f) \<notin> link ns" using ok mp by (auto simp: chains_ok_def)
  then show ?thesis
    using mp by (auto simp: link_def nth_chain_node split: if_splits)
qed

lemma chain_node_chains:
  assumes ok: "chains_ok ns" and mp: "mp < length ns" "f < length ns" "f \<noteq> mp" "nd_next (ns ! f) = 0" "nd_key (ns ! f) = KNil"
    and k: "k \<noteq> KNil" "nd_key (ns ! mp) \<noteq> KNil"
  shows "chains_ok (set_key f k (chain_node mp f ns))"
    and "link ns \<subseteq> (link (set_key f k (chain_node mp f ns)))\<^sup>*"
proof -
  let ?ns = "set_key f k (chain_node mp f ns)"
  note at = nth_chain_node [OF mp(1-4)] and li = link_chain_node [OF ok mp, of _ _ k]
  obtain r where r: "\<And>i j. (i, j) \<in> link ns \<Longrightarrow> r j < (r i :: nat)" by (rule chains_okE [OF ok]) blast
  have notf: "(i, f) \<notin> link ns" "(f, i) \<notin> link ns" for i
    using ok mp by (auto simp: chains_ok_def link_def)
  have inj: "(i, q) \<in> link ns \<Longrightarrow> (j, q) \<in> link ns \<Longrightarrow> i = j" for i j q using ok unfolding chains_ok_def by blast
  have used: "(i, j) \<in> link ns \<Longrightarrow> nd_key (ns ! i) \<noteq> KNil \<and> nd_key (ns ! j) \<noteq> KNil" for i j
    using ok unfolding chains_ok_def by blast
  have range: "0 \<le> int i + nd_next (?ns ! i) \<and> int i + nd_next (?ns ! i) < int (length ns)"
    if "i < length ns" "nd_next (?ns ! i) \<noteq> 0" for i
  proof -
    have "0 \<le> int j + nd_next (ns ! j) \<and> int j + nd_next (ns ! j) < int (length ns)"
      if "j < length ns" "nd_next (ns ! j) \<noteq> 0" for j
      using ok that unfolding chains_ok_def by blast
    then show ?thesis using that mp by (auto simp: at split: if_splits)
  qed
  define r1 where "r1 = (\<lambda>x. if x = f then 2 * r mp else 2 * r x + 1)"
  have "r1 j < r1 i" if "(i, j) \<in> link ?ns" for i j
    using that notf r [of i j] r [of mp j] mp(3) unfolding li r1_def by auto
  then have rank: "\<exists>r :: nat \<Rightarrow> nat. \<forall>(i, j) \<in> link ?ns. r j < r i" by blast
  have "i = j" if "(i, q) \<in> link ?ns" "(j, q) \<in> link ?ns" for i j q
    using that notf inj unfolding li by metis
  moreover have "nd_key (?ns ! i) \<noteq> KNil \<and> nd_key (?ns ! j) \<noteq> KNil" if "(i, j) \<in> link ?ns" for i j
  proof -
    have "i < length ns \<and> j < length ns" using that link_range [OF ok] mp unfolding li by auto
    then show ?thesis using that used k unfolding li by (auto simp: at)
  qed
  ultimately show "chains_ok ?ns"
    unfolding chains_ok_def using range rank by auto
  show "link ns \<subseteq> (link ?ns)\<^sup>*"
  proof (rule subrelI)
    fix i j assume l: "(i, j) \<in> link ns"
    show "(i, j) \<in> (link ?ns)\<^sup>*"
    proof (cases "i = mp")
      case True
      then have "(mp, f) \<in> link ?ns" "(f, j) \<in> link ?ns" using l unfolding li by auto
      then show ?thesis using True by auto
    next
      case False
      then have "(i, j) \<in> link ?ns" using l notf unfolding li by auto
      then show ?thesis by blast
    qed
  qed
qed

lemma chain_node_ok:
  assumes ok: "nodes_ok eqk h good ns" and mp: "mp < length ns" "h k = mp" "proper (nd_key (ns ! mp))" "h (nd_key (ns ! mp)) = mp"
    and f: "f < length ns" "f \<noteq> mp" "nd_key (ns ! f) = KNil"
    and k: "proper k" "good k" "absent eqk k ns"
  shows "nodes_ok eqk h good (set_key f k (chain_node mp f ns))" "node_pairs (set_key f k (chain_node mp f ns)) = node_pairs ns"
proof -
  let ?ns = "set_key f k (chain_node mp f ns)"
  note d = nodes_okD [OF ok]
  have f0: "nd_next (ns ! f) = 0" "nd_val (ns ! f) = None" using d(2,3) [OF f(1)] f(3) by (simp_all add: proper_def)
  note at = nth_chain_node [OF mp(1) f(1,2) f0(1)]
  have nn: "k \<noteq> KNil" "nd_key (ns ! mp) \<noteq> KNil" using k(1) mp(3) by (simp_all add: proper_def)
  note c = chain_node_chains [OF d(1) mp(1) f(1,2) f0(1) f(3) nn]
  have reach: "(p, q) \<in> (link ns)\<^sup>* \<Longrightarrow> (p, q) \<in> (link ?ns)\<^sup>*" for p q using rtrancl_subset_rtrancl [OF c(2)] by blast
  have new: "(mp, f) \<in> (link ?ns)\<^sup>*"
    using link_chain_node [OF d(1) mp(1) f(1,2) f0(1) f(3), of mp f k] by blast
  have key: "nd_key (?ns ! i) = (if i = f then k else nd_key (ns ! i))" if "i < length ns" for i using that f(2) by (simp add: at)
  have val: "nd_val (?ns ! i) = nd_val (ns ! i)" if "i < length ns" for i using that by (simp add: at)
  have "good (nd_key (?ns ! i)) \<and> h (nd_key (?ns ! i)) < length ns \<and> (h (nd_key (?ns ! i)), i) \<in> (link ?ns)\<^sup>* \<and>
        nd_key (?ns ! h (nd_key (?ns ! i))) \<noteq> KNil \<and>
        (proper (nd_key (?ns ! h (nd_key (?ns ! i)))) \<longrightarrow> h (nd_key (?ns ! h (nd_key (?ns ! i)))) = h (nd_key (?ns ! i)))"
    if i: "i < length ns" "proper (nd_key (?ns ! i))" for i
  proof (cases "i = f")
    case True
    then show ?thesis using i mp f(2) k nn new by (simp add: key)
  next
    case False
    then have p: "proper (nd_key (ns ! i))" using i by (simp add: key)
    then have "h (nd_key (ns ! i)) \<noteq> f" using d(7) [OF i(1)] f(3) by auto
    then show ?thesis using d(4-8) [OF i(1) p] False i(1) reach by (simp add: key)
  qed
  moreover have "i = j" if "i < length ns" "j < length ns" "proper (nd_key (?ns ! i))" "proper (nd_key (?ns ! j))"
      "eqk (nd_key (?ns ! i)) (nd_key (?ns ! j))" for i j
    using that d(9) [OF that(1,2)] k(3) by (auto simp: key absent_def split: if_splits)
  moreover have "nd_key (?ns ! i) = KNil \<Longrightarrow> nd_next (?ns ! i) = 0" if "i < length ns" for i
    using d(2) [OF that] that nn by (auto simp: at split: if_splits)
  moreover have "\<not> proper (nd_key (?ns ! i)) \<Longrightarrow> nd_val (?ns ! i) = None" if "i < length ns" for i
    using d(3) [OF that] that k by (auto simp: key val split: if_splits)
  ultimately show "nodes_ok eqk h good ?ns" unfolding nodes_ok_def using c(1) by auto
  show "node_pairs ?ns = node_pairs ns"
    by (rule pairs_cong) (use f0(2) in \<open>auto simp: key val\<close>)
qed

text \<open>Moving a colliding node that is not in its main position.\<close>

lemma length_move_node [simp]: "length (move_node prev mp f ns) = length ns"
  by (simp add: move_node_def Let_def)

lemma nth_move_node:
  assumes "prev < length ns" "mp < length ns" "f < length ns" "f \<noteq> mp" "prev \<noteq> mp" "prev \<noteq> f" "j < length ns"
  shows "set_key mp k (move_node prev mp f ns) ! j =
    (if j = mp then (ns ! mp)\<lparr>nd_next := 0, nd_val := None, nd_key := k\<rparr>
     else if j = f then (ns ! mp)\<lparr>nd_next := (if nd_next (ns ! mp) \<noteq> 0 then nd_next (ns ! mp) + (int mp - int f) else 0)\<rparr>
     else if j = prev then (ns ! prev)\<lparr>nd_next := int f - int prev\<rparr>
     else ns ! j)"
  using assms by (auto simp: set_key_def move_node_def Let_def nth_list_update)

lemma in_node_pairs: "(a, v) \<in> node_pairs ns \<longleftrightarrow> (\<exists>i < length ns. nd_val (ns ! i) = Some v \<and> nd_key (ns ! i) = a)"
  by (auto simp: node_pairs_def)

lemma move_facts:
  assumes ok: "chains_ok ns" and p: "(prev, mp) \<in> link ns" and f: "f < length ns" "nd_key (ns ! f) = KNil"
  shows "prev < length ns" "mp < length ns" "f \<noteq> mp" "prev \<noteq> mp" "prev \<noteq> f" "(i, f) \<notin> link ns" "(f, i) \<notin> link ns"
    "(i, mp) \<in> link ns \<Longrightarrow> i = prev"
proof -
  have used: "(i, j) \<in> link ns \<Longrightarrow> nd_key (ns ! i) \<noteq> KNil \<and> nd_key (ns ! j) \<noteq> KNil" for i j
    using ok unfolding chains_ok_def by blast
  show "prev < length ns" "mp < length ns" using link_range [OF ok p] by blast+
  show "f \<noteq> mp" "prev \<noteq> f" "(i, f) \<notin> link ns" "(f, i) \<notin> link ns" using used p f(2) by blast+
  show "prev \<noteq> mp" using no_way_back [OF ok p] by blast
  show "(i, mp) \<in> link ns \<Longrightarrow> i = prev" using ok p unfolding chains_ok_def by blast
qed

lemma link_move_node:
  assumes ok: "chains_ok ns" and p: "(prev, mp) \<in> link ns" and f: "f < length ns" "nd_key (ns ! f) = KNil"
  shows "(i, j) \<in> link (set_key mp k (move_node prev mp f ns)) \<longleftrightarrow>
    i = prev \<and> j = f \<or> i = f \<and> (mp, j) \<in> link ns \<or> i \<noteq> mp \<and> i \<noteq> f \<and> i \<noteq> prev \<and> (i, j) \<in> link ns"
proof -
  note m = move_facts [OF ok p f]
  have notl: "(mp, f) \<notin> link ns" by (rule m)
  have at: "j < length ns \<Longrightarrow> set_key mp k (move_node prev mp f ns) ! j = 
    (if j = mp then (ns ! mp)\<lparr>nd_next := 0, nd_val := None, nd_key := k\<rparr>
     else if j = f then (ns ! mp)\<lparr>nd_next := (if nd_next (ns ! mp) \<noteq> 0 then nd_next (ns ! mp) + (int mp - int f) else 0)\<rparr>
     else if j = prev then (ns ! prev)\<lparr>nd_next := int f - int prev\<rparr>
     else ns ! j)" for j using nth_move_node [OF m(1,2) f(1) m(3,4,5)] .
  consider "i = mp" | "i = f" | "i = prev" | "i \<noteq> mp" "i \<noteq> f" "i \<noteq> prev" by blast
  then show ?thesis
  proof cases
    case 1
    then show ?thesis using m(2-4) by (simp add: link_def at)
  next
    case 2
    have "nd_next (ns ! mp) \<noteq> 0 \<Longrightarrow> nd_next (ns ! mp) + (int mp - int f) \<noteq> 0" using notl m(2) by (auto simp: link_def)
    then show ?thesis using 2 m(2-5) f by (simp add: link_def at add.commute)
  next
    case 3
    then show ?thesis using m(1-5) by (simp add: link_def at)
  next
    case 4
    then show ?thesis by (auto simp: link_def at)
  qed
qed

lemma move_node_chains:
  assumes ok: "chains_ok ns" and p: "(prev, mp) \<in> link ns" and f: "f < length ns" "nd_key (ns ! f) = KNil"
    and k: "k \<noteq> KNil"
  shows "chains_ok (set_key mp k (move_node prev mp f ns))"
    and "(i, j) \<in> (link ns)\<^sup>* \<Longrightarrow>
      (if i = mp then f else i, if j = mp then f else j) \<in> (link (set_key mp k (move_node prev mp f ns)))\<^sup>*"
proof -
  let ?ns = "set_key mp k (move_node prev mp f ns)"
  note m = move_facts [OF ok p f]
  note at = nth_move_node [OF m(1,2) f(1) m(3,4,5)] and li = link_move_node [OF ok p f, of _ _ k]
  obtain r where r: "\<And>i j. (i, j) \<in> link ns \<Longrightarrow> r j < (r i :: nat)" by (rule chains_okE [OF ok]) blast
  have inj: "(i, q) \<in> link ns \<Longrightarrow> (j, q) \<in> link ns \<Longrightarrow> i = j" for i j q using ok unfolding chains_ok_def by blast
  have used: "(i, j) \<in> link ns \<Longrightarrow> nd_key (ns ! i) \<noteq> KNil \<and> nd_key (ns ! j) \<noteq> KNil" for i j
    using ok unfolding chains_ok_def by blast
  have range: "0 \<le> int i + nd_next (?ns ! i) \<and> int i + nd_next (?ns ! i) < int (length ns)"
    if "i < length ns" "nd_next (?ns ! i) \<noteq> 0" for i
  proof -
    have "0 \<le> int j + nd_next (ns ! j) \<and> int j + nd_next (ns ! j) < int (length ns)"
      if "j < length ns" "nd_next (ns ! j) \<noteq> 0" for j
      using ok that unfolding chains_ok_def by blast
    from this [of i] this [of mp] show ?thesis using that m(1-5) f by (auto simp: at split: if_splits)
  qed
  define r1 where "r1 = (\<lambda>x. if x = f then r mp else r x)"
  have "r1 j < r1 i" if "(i, j) \<in> link ?ns" for i j
    using that m(5-7) r [of i j] r [of mp j] r [OF p] unfolding li r1_def by auto
  then have rank: "\<exists>r :: nat \<Rightarrow> nat. \<forall>(i, j) \<in> link ?ns. r j < r i" by blast
  have notmp: "(i, mp) \<notin> link ?ns" for i using m(3,4,8) no_way_back [OF ok, of mp mp] unfolding li by blast
  have "i = j" if "(i, q) \<in> link ?ns" "(j, q) \<in> link ?ns" for i j q
    using that m(6) inj unfolding li by metis
  moreover have "nd_key (?ns ! i) \<noteq> KNil \<and> nd_key (?ns ! j) \<noteq> KNil" if l: "(i, j) \<in> link ?ns" for i j
  proof -
    have "i < length ns \<and> j < length ns" using l link_range [OF ok] m(1,2) f unfolding li by auto
    then show ?thesis using l used [of i j] used [of mp j] used [OF p] k m(1-5) f unfolding li by (auto simp: at)
  qed
  ultimately show "chains_ok ?ns"
    unfolding chains_ok_def using range rank by auto
  have step_link: "(if i = mp then f else i, if j = mp then f else j) \<in> link ?ns" if l: "(i, j) \<in> link ns" for i j
  proof (cases "i = mp")
    case True
    then have "j \<noteq> mp" using no_way_back [OF ok l] by auto
    then show ?thesis using True l unfolding li by simp
  next
    case False
    have "i \<noteq> f" using l m(7) by blast
    moreover have "i = prev \<Longrightarrow> j = mp" using l link_functional [OF p] by blast
    moreover have "j = mp \<Longrightarrow> i = prev" using l m(8) by blast
    ultimately show ?thesis using False l unfolding li by auto
  qed
  show "(if i = mp then f else i, if j = mp then f else j) \<in> (link ?ns)\<^sup>*" if "(i, j) \<in> (link ns)\<^sup>*" for i j
    using that
  proof (induction rule: rtrancl_induct)
    case (step x y)
    show ?case by (rule rtrancl_into_rtrancl [OF step.IH \<open>(x, y) \<in> link ns\<close> [THEN step_link]])
  qed simp
qed

lemma move_node_ok:
  assumes ok: "nodes_ok eqk h good ns" and p: "(prev, mp) \<in> link ns"
    and mp: "h k = mp" "proper (nd_key (ns ! mp))" "h (nd_key (ns ! mp)) \<noteq> mp"
    and f: "f < length ns" "nd_key (ns ! f) = KNil"
    and k: "proper k" "good k" "absent eqk k ns"
  shows "nodes_ok eqk h good (set_key mp k (move_node prev mp f ns))"
    and "node_pairs (set_key mp k (move_node prev mp f ns)) = node_pairs ns"
proof -
  let ?ns = "set_key mp k (move_node prev mp f ns)"
  note d = nodes_okD [OF ok]
  note m = move_facts [OF d(1) p f]
  have f0: "nd_next (ns ! f) = 0" "nd_val (ns ! f) = None" using d(2,3) [OF f(1)] f(2) by (simp_all add: proper_def)
  note at = nth_move_node [OF m(1,2) f(1) m(3,4,5)]
  have nn: "k \<noteq> KNil" using k(1) by (simp add: proper_def)
  note c = move_node_chains [OF d(1) p f nn]
  have key: "nd_key (?ns ! i) = (if i = mp then k else if i = f then nd_key (ns ! mp) else nd_key (ns ! i))" if "i < length ns" for i
    using that by (simp add: at)
  have val: "nd_val (?ns ! i) = (if i = mp then None else if i = f then nd_val (ns ! mp) else nd_val (ns ! i))" if "i < length ns" for i
    using that by (simp add: at)
  have used: "nd_key (ns ! prev) \<noteq> KNil" using d(1) p unfolding chains_ok_def by blast
  txt \<open>No key has the main position that its owner takes back.\<close>
  have home: "h (nd_key (ns ! i)) \<noteq> mp \<and> h (nd_key (ns ! i)) \<noteq> f" if "i < length ns" "proper (nd_key (ns ! i))" for i
    using d(7,8) [OF that] mp f(2) by auto
  have old: "good (nd_key (ns ! i)) \<and> h (nd_key (ns ! i)) < length ns \<and>
      (h (nd_key (ns ! i)), if i = mp then f else i) \<in> (link ?ns)\<^sup>* \<and>
      nd_key (?ns ! h (nd_key (ns ! i))) \<noteq> KNil \<and>
      (proper (nd_key (?ns ! h (nd_key (ns ! i)))) \<longrightarrow> h (nd_key (?ns ! h (nd_key (ns ! i)))) = h (nd_key (ns ! i)))"
    if i: "i < length ns" "proper (nd_key (ns ! i))" for i
    using d(4,5,7,8) [OF i] c(2) [OF d(6) [OF i]] home [OF i] by (simp add: key)
  have "good (nd_key (?ns ! i)) \<and> h (nd_key (?ns ! i)) < length ns \<and> (h (nd_key (?ns ! i)), i) \<in> (link ?ns)\<^sup>* \<and>
        nd_key (?ns ! h (nd_key (?ns ! i))) \<noteq> KNil \<and>
        (proper (nd_key (?ns ! h (nd_key (?ns ! i)))) \<longrightarrow> h (nd_key (?ns ! h (nd_key (?ns ! i)))) = h (nd_key (?ns ! i)))"
    if i: "i < length ns" "proper (nd_key (?ns ! i))" for i
  proof -
    consider "i = mp" | "i \<noteq> mp" "i = f" | "i \<noteq> mp" "i \<noteq> f" by blast
    then show ?thesis
    proof cases
      case 1
      then show ?thesis using i mp k nn by (simp add: key)
    next
      case 2
      have kf: "nd_key (?ns ! f) = nd_key (ns ! mp)" using m(3) by (simp add: key f(1))
      show ?thesis using old [OF m(2) mp(2)] unfolding 2 kf by simp
    next
      case 3
      then have ki: "nd_key (?ns ! i) = nd_key (ns ! i)" using i(1) by (simp add: key)
      then have "proper (nd_key (ns ! i))" using i(2) by simp
      then show ?thesis using old [OF i(1)] 3 unfolding ki by simp
    qed
  qed
  moreover have "i = j" if ij: "i < length ns" "j < length ns" "proper (nd_key (?ns ! i))" "proper (nd_key (?ns ! j))"
      "eqk (nd_key (?ns ! i)) (nd_key (?ns ! j))" for i j
  proof (rule ccontr)
    assume ne: "i \<noteq> j"
    define b where "b = (\<lambda>i. if i = f then mp else i)"
    have b: "b i < length ns" "nd_key (?ns ! i) = (if i = mp then k else nd_key (ns ! b i))" if "i < length ns" for i
      using that m(2,3) by (auto simp: b_def key)
    show False
    proof (cases "i = mp \<or> j = mp")
      case True
      then show False using ij ne k(3) b by (auto simp: absent_def)
    next
      case False
      then have "b i = b j" using d(9) [OF b(1) [OF ij(1)] b(1) [OF ij(2)]] ij b(2) by simp
      then show False using ne False by (auto simp: b_def split: if_splits)
    qed
  qed
  moreover have "nd_key (?ns ! i) = KNil \<Longrightarrow> nd_next (?ns ! i) = 0" if "i < length ns" for i
    using d(2) [OF that] that nn mp(2) move_facts(7) [OF d(1) p f] used by (auto simp: at proper_def split: if_splits)
  moreover have "\<not> proper (nd_key (?ns ! i)) \<Longrightarrow> nd_val (?ns ! i) = None" if "i < length ns" for i
    using d(3) [OF that] that k mp(2) by (auto simp: key val split: if_splits)
  ultimately show "nodes_ok eqk h good ?ns" unfolding nodes_ok_def using c(1) by auto
  show "node_pairs ?ns = node_pairs ns"
  proof (rule set_eqI)
    fix q
    have "(\<exists>i < length ns. nd_val (?ns ! i) = Some v \<and> nd_key (?ns ! i) = a) \<longleftrightarrow>
        (\<exists>i < length ns. nd_val (ns ! i) = Some v \<and> nd_key (ns ! i) = a)" (is "?l = ?r") for a v
    proof
      assume ?l
      then obtain i where i: "i < length ns" "nd_val (?ns ! i) = Some v" "nd_key (?ns ! i) = a" by blast
      then show ?r using m(2) by (cases "i = mp"; cases "i = f") (auto simp: key val)
    next
      assume ?r
      then obtain i where i: "i < length ns" "nd_val (ns ! i) = Some v" "nd_key (ns ! i) = a" by blast
      then show ?l using m(3) f f0(2) by (cases "i = mp"; cases "i = f") (auto simp: key val intro: exI [of _ f] exI [of _ i])
    qed
    then show "q \<in> node_pairs ?ns \<longleftrightarrow> q \<in> node_pairs ns" by (cases q) (simp add: in_node_pairs)
  qed
qed

section \<open>Keys that are stored\<close>

definition long_hash_ok :: "strings \<Rightarrow> nat \<Rightarrow> bool" where
  "long_hash_ok g a \<longleftrightarrow> lng_hash g a = luaS_hash (ts_text (obj g a)) (seed g)"

definition normal_key :: "strings \<Rightarrow> lua_key \<Rightarrow> bool" where
  "normal_key g k \<longleftrightarrow> proper k \<and> (\<forall>b. k = KFlt b \<longrightarrow> flt_tointeger b = None \<and> \<not> flt_isnan b) \<and>
     (\<forall>a. k = KLng a \<longrightarrow> long_hash_ok g a)"

definition in_array :: "'v table \<Rightarrow> lua_key \<Rightarrow> bool" where
  "in_array t k \<longleftrightarrow> (\<exists>i. k = KInt i \<and> unat (i - 1) < sizearray t)"

lemma long_hash_new: "long_hash_ok (createstrobj a str LUA_TLNGSTR (seed g) g) a"
  by (simp add: long_hash_ok_def lng_hash_def createstrobj_def)

lemma long_hash_keep: "long_hash_ok g b \<Longrightarrow> long_hash_ok (keep_hash a g) b"
  by (cases "b = a") (auto simp: long_hash_ok_def keep_hash_def lng_hash_def Let_def split: if_splits)

lemma flt_zero_int: "flt_iszero b \<Longrightarrow> flt_tointeger b = Some 0"
  by (simp add: flt_iszero_def flt_tointeger_def Let_def)

lemma raw_refl: "normal_key g k \<Longrightarrow> luaV_rawequalobj g k k"
  by (cases k) (auto simp: normal_key_def luaV_rawequalobj_def flt_eq_def luaS_eqlngstr_def)

lemma raw_sym: "luaV_rawequalobj g k l \<Longrightarrow> luaV_rawequalobj g l k"
  by (cases k; cases l) (auto simp: luaV_rawequalobj_def flt_eq_def luaS_eqlngstr_def dest: sym)

lemma raw_cases:
  assumes "luaV_rawequalobj g k l" "normal_key g k" "normal_key g l"
  shows "k = l \<or> (\<exists>a b. k = KLng a \<and> l = KLng b \<and> ts_text (obj g a) = ts_text (obj g b))"
  using assms flt_zero_int
  by (cases k; cases l) (auto simp: luaV_rawequalobj_def normal_key_def flt_eq_def luaS_eqlngstr_def tointeger_def)

lemma raw_trans:
  "luaV_rawequalobj g k l \<Longrightarrow> luaV_rawequalobj g l m \<Longrightarrow> normal_key g k \<Longrightarrow> normal_key g l \<Longrightarrow> normal_key g m \<Longrightarrow>
   luaV_rawequalobj g k m"
  using raw_cases [of g k l] raw_cases [of g l m] by (auto simp: luaV_rawequalobj_def luaS_eqlngstr_def)

lemma raw_main:
  "luaV_rawequalobj g k l \<Longrightarrow> normal_key g k \<Longrightarrow> normal_key g l \<Longrightarrow> mainposition g t k = mainposition g t l"
  using raw_cases [of g k l] by (auto simp: mainposition_def normal_key_def long_hash_ok_def)

lemma raw_proper: "luaV_rawequalobj g k l \<Longrightarrow> normal_key g l \<Longrightarrow> proper k"
  by (cases k; cases l) (auto simp: luaV_rawequalobj_def normal_key_def proper_def)

lemma raw_KInt: "normal_key g k \<Longrightarrow> luaV_rawequalobj g k (KInt i) \<longleftrightarrow> k = KInt i"
  by (cases k) (auto simp: luaV_rawequalobj_def normal_key_def tointeger_def)

lemma raw_KShr: "luaV_rawequalobj g k (KShr a) \<longleftrightarrow> k = KShr a"
  by (cases k) (auto simp: luaV_rawequalobj_def)

section \<open>Main positions are nodes\<close>

lemma or_one_bound: "(2 ^ k - 1) OR 1 \<le> (2 :: nat) ^ k \<and> 0 < (2 ^ k - 1) OR (1 :: nat)"
proof -
  have e: "(2 ^ k - 1 :: nat) OR 1 = (2 ^ k - 1) + of_bool (even ((2 :: nat) ^ k - 1))" by (rule or_one_eq)
  have "k \<noteq> 0 \<Longrightarrow> (2 :: nat) ^ 1 \<le> 2 ^ k" by (intro power_increasing) auto
  then show ?thesis unfolding e by (cases "k = 0") auto
qed

lemma hashmod_less: "hashmod t n < sizenode t"
proof -
  have "n mod ((sizenode t - 1) OR 1) < (sizenode t - 1) OR 1"
    using or_one_bound [of "tb_lsizenode t"] by (simp add: sizenode_def)
  also have "\<dots> \<le> sizenode t" using or_one_bound [of "tb_lsizenode t"] by (simp add: sizenode_def)
  finally show ?thesis by (simp add: hashmod_def)
qed

lemma hashint_less: "tb_lsizenode t \<le> 30 \<Longrightarrow> hashint t i < sizenode t"
proof -
  assume k: "tb_lsizenode t \<le> 30"
  have "of_nat (sizenode t) - 1 = (mask (tb_lsizenode t) :: u64)" by (simp add: sizenode_def mask_eq_exp_minus_1)
  then have "hashint t i = unat (take_bit (tb_lsizenode t) i)" by (simp add: hashint_def take_bit_eq_mask)
  also have "\<dots> < 2 ^ tb_lsizenode t" unfolding unsigned_take_bit_eq by (simp add: take_bit_nat_less_exp)
  finally show ?thesis by (simp add: sizenode_def)
qed

lemma hashpow2_less: "tb_lsizenode t \<le> 30 \<Longrightarrow> hashpow2 t n < sizenode t"
  by (simp add: hashpow2_def sizenode_def lmod_less)

lemma mainposition_less: "tb_lsizenode t \<le> 30 \<Longrightarrow> mainposition g t k < sizenode t"
  by (cases k) (simp_all add: mainposition_def hashmod_less hashint_less hashpow2_less hashpointer_def, simp add: sizenode_def)

lemma mainposition_cong: "tb_lsizenode t1 = tb_lsizenode t \<Longrightarrow> mainposition g t1 = mainposition g t"
  by (auto simp: fun_eq_iff mainposition_def hashpow2_def hashint_def hashmod_def hashpointer_def sizenode_def split: lua_key.split)

section \<open>The invariant\<close>

definition tab_inv :: "strings \<Rightarrow> 'v table \<Rightarrow> bool" where
  "tab_inv g t \<longleftrightarrow> length (tb_node t) = sizenode t \<and> tb_lsizenode t \<le> 30 \<and> tb_lastfree t \<le> sizenode t \<and>
     sizearray t \<le> 2 ^ 31 \<and> (tb_dummy t \<longrightarrow> tb_node t = [empty_node] \<and> tb_lastfree t = 0) \<and>
     nodes_ok (luaV_rawequalobj g) (mainposition g t) (\<lambda>k. normal_key g k \<and> \<not> in_array t k) (tb_node t) \<and>
     (\<not> tb_dummy t \<longrightarrow> (\<forall>i. tb_lastfree t \<le> i \<longrightarrow> i < sizenode t \<longrightarrow> nd_key (tb_node t ! i) \<noteq> KNil))"

definition array_pairs :: "'v table \<Rightarrow> (lua_key \<times> 'v) set" where
  "array_pairs t = {(KInt (of_nat (i + 1)), v) | i v. i < sizearray t \<and> tb_array t ! i = Some v}"

definition entries :: "'v table \<Rightarrow> (lua_key \<times> 'v) set" where
  "entries t = array_pairs t \<union> node_pairs (tb_node t)"

lemma tab_invD:
  assumes "tab_inv g t"
  shows "length (tb_node t) = sizenode t" "tb_lsizenode t \<le> 30" "tb_lastfree t \<le> sizenode t" "sizearray t \<le> 2 ^ 31"
    "tb_dummy t \<Longrightarrow> tb_node t = [empty_node]" "tb_dummy t \<Longrightarrow> tb_lastfree t = 0"
    "nodes_ok (luaV_rawequalobj g) (mainposition g t) (\<lambda>k. normal_key g k \<and> \<not> in_array t k) (tb_node t)"
    "\<not> tb_dummy t \<Longrightarrow> tb_lastfree t \<le> i \<Longrightarrow> i < sizenode t \<Longrightarrow> nd_key (tb_node t ! i) \<noteq> KNil"
  using assms unfolding tab_inv_def by blast+

section \<open>Searching finds the keys there are\<close>

lemma in_chain_spec:
  assumes inv: "tab_inv g t" and k: "normal_key g k" and n: "n = mainposition g t k"
    and P: "\<And>l. proper l \<Longrightarrow> normal_key g l \<Longrightarrow> P l \<longleftrightarrow> luaV_rawequalobj g l k" "\<And>l. P l \<Longrightarrow> proper l"
  obtains i where "in_chain t P n = Inr (InNode i)" "i < sizenode t" "proper (nd_key (tb_node t ! i))"
      "luaV_rawequalobj g (nd_key (tb_node t ! i)) k"
  | "in_chain t P n = Inr NilObject" "absent (luaV_rawequalobj g) k (tb_node t)"
proof -
  note t = tab_invD [OF inv] and d = nodes_okD [OF tab_invD(7) [OF inv]]
  have n1: "n < length (tb_node t)" using mainposition_less [OF t(2)] t(1) n by simp
  from chain_find_total [OF d(1) n1, of P] show ?thesis
  proof cases
    case (1 p)
    then have "proper (nd_key (tb_node t ! p))" using P(2) by blast
    moreover from this have "luaV_rawequalobj g (nd_key (tb_node t ! p)) k" using P(1) 1 d(4) by blast
    ultimately show ?thesis using that(1) 1 t(1) by (simp add: in_chain_def)
  next
    case 2
    have "\<not> luaV_rawequalobj g (nd_key (tb_node t ! i)) k" if i: "i < length (tb_node t)" "proper (nd_key (tb_node t ! i))" for i
    proof
      assume e: "luaV_rawequalobj g (nd_key (tb_node t ! i)) k"
      then have "mainposition g t (nd_key (tb_node t ! i)) = n" using raw_main k d(4) [OF i] n by blast
      then have "(n, i) \<in> (link (tb_node t))\<^sup>*" using d(6) [OF i] by simp
      then show False using 2(2) P(1) d(4) [OF i] i(2) e by blast
    qed
    then have "absent (luaV_rawequalobj g) k (tb_node t)" unfolding absent_def using raw_sym by blast
    then show ?thesis using that(2) 2(1) by (simp add: in_chain_def)
  qed
qed

text \<open>Where \<open>luaH_get\<close> finds a stored key: in the array, in a node, or nowhere.\<close>

lemma luaH_get_spec:
  assumes inv: "tab_inv g t" and k: "normal_key g k"
  obtains (arr) i where "k = KInt i" "unat (i - 1) < sizearray t" "luaH_get g t k = Inr (InArray (unat (i - 1)))"
  | (nde) i where "\<not> in_array t k" "luaH_get g t k = Inr (InNode i)" "i < sizenode t" "proper (nd_key (tb_node t ! i))"
      "luaV_rawequalobj g (nd_key (tb_node t ! i)) k"
  | (none) "\<not> in_array t k" "luaH_get g t k = Inr NilObject" "absent (luaV_rawequalobj g) k (tb_node t)"
proof (cases "in_array t k")
  case True
  then obtain i where "k = KInt i" "unat (i - 1) < sizearray t" by (auto simp: in_array_def)
  then show ?thesis using arr by (simp add: luaH_get_def luaH_getint_def)
next
  case False
  define P where "P = (case k of KInt i \<Rightarrow> (\<lambda>l. l = KInt i) | KShr a \<Rightarrow> (\<lambda>l. l = KShr a) | _ \<Rightarrow> (\<lambda>l. luaV_rawequalobj g l k))"
  have get: "luaH_get g t k = in_chain t P (mainposition g t k)"
    using False k by (cases k) (auto simp: luaH_get_def luaH_getint_def luaH_getstr_def get_generic_def in_array_def P_def
      mainposition_def normal_key_def proper_def)
  have P1: "P l \<longleftrightarrow> luaV_rawequalobj g l k" if "normal_key g l" for l
    using that by (auto simp: P_def raw_KInt raw_KShr split: lua_key.split)
  have P2: "proper l" if "P l" for l
    using that raw_proper k by (auto simp: P_def proper_def split: lua_key.splits)
  show ?thesis
    by (rule in_chain_spec [OF inv k refl, of P]) (use P1 P2 False nde none get in auto)
qed

section \<open>Inserting\<close>

lemma free_search_spec:
  "free_search ns l = (r, l1) \<Longrightarrow>
   (case r of Some f \<Rightarrow> f < l \<and> l1 = f \<and> nd_key (ns ! f) = KNil \<and> (\<forall>i. f < i \<and> i < l \<longrightarrow> nd_key (ns ! i) \<noteq> KNil)
            | None \<Rightarrow> l1 = 0 \<and> (\<forall>i < l. nd_key (ns ! i) \<noteq> KNil))"
  by (induction ns l rule: free_search.induct) (auto split: if_splits option.splits simp: less_Suc_eq)

definition used_nodes :: "'v node list \<Rightarrow> nat set" where
  "used_nodes ns = {i. i < length ns \<and> nd_key (ns ! i) \<noteq> KNil}"

lemma finite_used [simp]: "finite (used_nodes ns)"
  by (simp add: used_nodes_def)

lemma card_insert_sub: "finite A \<Longrightarrow> B \<subseteq> insert x A \<Longrightarrow> card B \<le> Suc (card A)"
  using card_mono [of "insert x A" B] by (auto simp: card_insert_if split: if_splits)

text \<open>Replacing the nodes, with room above \<open>lastfree\<close> staying used.\<close>

lemma tab_inv_nodes:
  assumes inv: "tab_inv g t" and d: "\<not> tb_dummy t" and l: "length ns = sizenode t" "lf \<le> sizenode t"
    and ok: "nodes_ok (luaV_rawequalobj g) (mainposition g t) (\<lambda>k. normal_key g k \<and> \<not> in_array t k) ns"
    and top: "\<And>i. lf \<le> i \<Longrightarrow> i < sizenode t \<Longrightarrow> nd_key (ns ! i) \<noteq> KNil"
  shows "tab_inv g (t\<lparr>tb_node := ns, tb_lastfree := lf\<rparr>)"
proof -
  let ?t = "t\<lparr>tb_node := ns, tb_lastfree := lf\<rparr>"
  have "mainposition g ?t = mainposition g t" by (rule mainposition_cong) simp
  moreover have "in_array ?t = in_array t" by (simp add: fun_eq_iff in_array_def sizearray_def)
  moreover have "sizenode ?t = sizenode t" "sizearray ?t = sizearray t" by (simp_all add: sizenode_def sizearray_def)
  ultimately show ?thesis using inv d l ok top unfolding tab_inv_def by auto
qed

lemma set_key_used: "i < length ns \<Longrightarrow> used_nodes (set_key i k ns) \<subseteq> insert i (used_nodes ns)"
  by (auto simp: used_nodes_def nth_set_key split: if_splits)

text \<open>What inserting an absent key does when a node is to be had.\<close>

definition inserted :: "strings \<Rightarrow> lua_key \<Rightarrow> 'v table \<Rightarrow> nat \<Rightarrow> 'v table \<Rightarrow> bool" where
  "inserted g k t i t1 \<longleftrightarrow> tab_inv g t1 \<and> i < sizenode t1 \<and> nd_key (tb_node t1 ! i) = k \<and> nd_val (tb_node t1 ! i) = None \<and>
     node_pairs (tb_node t1) = node_pairs (tb_node t) \<and> tb_array t1 = tb_array t \<and> tb_lsizenode t1 = tb_lsizenode t \<and>
     tb_dummy t1 = tb_dummy t \<and> card (used_nodes (tb_node t1)) \<le> Suc (card (used_nodes (tb_node t)))"

lemma insert_key_spec:
  assumes inv: "tab_inv g t" and k: "normal_key g k" "\<not> in_array t k" "absent (luaV_rawequalobj g) k (tb_node t)"
  obtains (placed) i t1 where "insert_key grow g t k = Inr (InNode i, t1)" "inserted g k t i t1"
  | (full) "insert_key grow g t k = grow (t\<lparr>tb_lastfree := 0\<rparr>) k" "tab_inv g (t\<lparr>tb_lastfree := 0\<rparr>)"
      "tb_dummy t \<or> used_nodes (tb_node t) = {..<sizenode t}"
proof -
  let ?ns = "tb_node t" and ?good = "\<lambda>k. normal_key g k \<and> \<not> in_array t k"
  note t = tab_invD [OF inv] and d = nodes_okD [OF tab_invD(7) [OF inv]]
  define mp where "mp = mainposition g t k"
  have mp: "mp < length ?ns" using mainposition_less [OF t(2)] t(1) by (simp add: mp_def)
  have p: "proper k" using k(1) by (simp add: normal_key_def)
  obtain r lf where gf: "free_search ?ns (tb_lastfree t) = (r, lf)" by fastforce
  note fs = free_search_spec [OF gf]
  show ?thesis
  proof (cases "nd_val (?ns ! mp) \<noteq> None \<or> tb_dummy t")
    case False
    then have v: "nd_val (?ns ! mp) = None" and nd: "\<not> tb_dummy t" by simp_all
    define t1 where "t1 = t\<lparr>tb_node := set_key mp k ?ns\<rparr>"
    have at: "set_key mp k ?ns ! i = (if i = mp then (?ns ! mp)\<lparr>nd_key := k\<rparr> else ?ns ! i)" if "i < length ?ns" for i
      using nth_set_key [OF mp that] .
    note s = set_key_ok [OF t(7) mp _ v p _ k(3), folded mp_def]
    have nok: "nodes_ok (luaV_rawequalobj g) (mainposition g t) ?good (set_key mp k ?ns)"
      by (rule s) (use k in \<open>simp_all add: mp_def\<close>)
    have "tab_inv g (t\<lparr>tb_node := set_key mp k ?ns, tb_lastfree := tb_lastfree t\<rparr>)"
      by (rule tab_inv_nodes [OF inv nd _ _ nok]) (use t p nd in \<open>auto simp: at proper_def\<close>)
    then have "tab_inv g t1" by (simp add: t1_def)
    moreover have "node_pairs (set_key mp k ?ns) = node_pairs ?ns" by (rule s) (use k in \<open>simp_all add: mp_def\<close>)
    moreover have "card (used_nodes (set_key mp k ?ns)) \<le> Suc (card (used_nodes ?ns))"
      by (rule card_insert_sub [OF finite_used set_key_used [OF mp]])
    ultimately have "inserted g k t mp t1"
      using mp t(1) v at [OF mp] by (simp add: inserted_def t1_def sizenode_def)
    moreover have "insert_key grow g t k = Inr (InNode mp, t1)"
      using False by (simp add: insert_key_def mp_def [symmetric] Let_def t1_def)
    ultimately show ?thesis by (rule placed [rotated])
  next
    case True
    show ?thesis
    proof (cases r)
      case None
      then have e: "insert_key grow g t k = grow (t\<lparr>tb_lastfree := 0\<rparr>) k" and all: "i < tb_lastfree t \<Longrightarrow> nd_key (?ns ! i) \<noteq> KNil" for i
        using True gf fs by (simp_all add: insert_key_def mp_def [symmetric] Let_def getfreepos_def)
      have u: "used_nodes ?ns = {..<sizenode t}" if "\<not> tb_dummy t"
      proof -
        have "nd_key (?ns ! i) \<noteq> KNil" if "i < sizenode t" for i
          using all [of i] t(8) [OF \<open>\<not> tb_dummy t\<close>, of i] that by (cases "i < tb_lastfree t") simp_all
        then show ?thesis using t(1) by (auto simp: used_nodes_def)
      qed
      have "tab_inv g (t\<lparr>tb_lastfree := 0\<rparr>)"
      proof (cases "tb_dummy t")
        case True
        then have "t\<lparr>tb_lastfree := 0\<rparr> = t" using t(6) by (cases t) simp
        then show ?thesis using inv by simp
      next
        case False
        have "tab_inv g (t\<lparr>tb_node := ?ns, tb_lastfree := 0\<rparr>)"
          by (rule tab_inv_nodes [OF inv False t(1) _ t(7)]) (use u [OF False] t(1) in \<open>auto simp: used_nodes_def\<close>)
        then show ?thesis by simp
      qed
      then show ?thesis using full e u by blast
    next
      case (Some f)
      then have f: "f < tb_lastfree t" "lf = f" "nd_key (?ns ! f) = KNil" "\<And>i. f < i \<Longrightarrow> i < tb_lastfree t \<Longrightarrow> nd_key (?ns ! i) \<noteq> KNil"
        using fs by auto
      then have nd: "\<not> tb_dummy t" using t(6) by auto
      then have live: "nd_val (?ns ! mp) \<noteq> None" using True by simp
      have pm: "proper (nd_key (?ns ! mp))" by (rule ccontr) (use d(3) [OF mp] live in simp)
      have fl: "f < length ?ns" using f(1) t(1,3) by simp
      have fm: "f \<noteq> mp" using f(3) pm by (auto simp: proper_def)
      have above: "nd_key (?ns ! i) \<noteq> KNil" if "f < i" "i < sizenode t" for i
        using f(4) t(8) [OF nd] that by (cases "i < tb_lastfree t") auto
      have main: "mainposition g (t\<lparr>tb_lastfree := f\<rparr>) = mainposition g t" by (rule mainposition_cong) simp
      have h: "mainposition g t k = mp" by (simp add: mp_def)
      have finish: "inserted g k t i (t\<lparr>tb_lastfree := f, tb_node := ns1\<rparr>)"
        if len: "length ns1 = length ?ns" and ok: "nodes_ok (luaV_rawequalobj g) (mainposition g t) ?good ns1"
          and pairs: "node_pairs ns1 = node_pairs ?ns" and i: "i < length ?ns" "nd_key (ns1 ! i) = k" "nd_val (ns1 ! i) = None"
          and same: "\<And>j. j < length ?ns \<Longrightarrow> j \<noteq> f \<Longrightarrow> (nd_key (ns1 ! j) = KNil) = (nd_key (?ns ! j) = KNil)"
          and ff: "nd_key (ns1 ! f) \<noteq> KNil" for i ns1
      proof -
        have "tab_inv g (t\<lparr>tb_node := ns1, tb_lastfree := f\<rparr>)"
        proof (rule tab_inv_nodes [OF inv nd _ _ ok])
          show "length ns1 = sizenode t" "f \<le> sizenode t" using len t(1) fl by simp_all
          show "nd_key (ns1 ! j) \<noteq> KNil" if "f \<le> j" "j < sizenode t" for j
            using that same [of j] above [of j] ff t(1) by (cases "j = f") auto
        qed
        moreover have "used_nodes ns1 \<subseteq> insert f (used_nodes ?ns)" using same len by (auto simp: used_nodes_def)
        then have "card (used_nodes ns1) \<le> Suc (card (used_nodes ?ns))" by (rule card_insert_sub [OF finite_used])
        moreover have eq: "t\<lparr>tb_lastfree := f, tb_node := ns1\<rparr> = t\<lparr>tb_node := ns1, tb_lastfree := f\<rparr>" by (cases t) simp
        ultimately show ?thesis unfolding eq using pairs i t(1) by (simp add: inserted_def sizenode_def)
      qed
      show ?thesis
      proof (cases "mainposition g t (nd_key (?ns ! mp)) = mp")
        case True
        define ns1 where "ns1 = set_key f k (chain_node mp f ?ns)"
        note c = chain_node_ok [OF t(7) mp h pm True fl fm f(3) p _ k(3), folded ns1_def]
        have good: "normal_key g k \<and> \<not> in_array t k" using k by simp
        have f0: "nd_next (?ns ! f) = 0" "nd_val (?ns ! f) = None" using d(2,3) [OF fl] f(3) by (simp_all add: proper_def)
        note at = nth_chain_node [OF mp fl fm f0(1), of _ k, folded ns1_def]
        have "inserted g k t f (t\<lparr>tb_lastfree := f, tb_node := ns1\<rparr>)"
        proof (rule finish)
          show "length ns1 = length ?ns" by (simp add: ns1_def)
          show "nd_key (ns1 ! f) = k" "nd_val (ns1 ! f) = None" "nd_key (ns1 ! f) \<noteq> KNil"
            using fm fl f0 p by (simp_all add: at proper_def)
          show "(nd_key (ns1 ! j) = KNil) = (nd_key (?ns ! j) = KNil)" if "j < length ?ns" "j \<noteq> f" for j
            using that by (simp add: at)
        qed (use c [OF good] fl in simp_all)
        moreover have "insert_key grow g t k = Inr (InNode f, t\<lparr>tb_lastfree := f, tb_node := ns1\<rparr>)"
          using live True gf Some f(2) by (simp add: insert_key_def h main getfreepos_def Let_def ns1_def)
        ultimately show ?thesis by (rule placed [rotated])
      next
        case False
        let ?o = "mainposition g t (nd_key (?ns ! mp))"
        have o: "?o < length ?ns" "(?o, mp) \<in> (link ?ns)\<^sup>*" using d(5,6) [OF mp pm] by simp_all
        obtain prev where fp: "find_previous (length ?ns) ?ns ?o mp = Inr prev" and pl: "(prev, mp) \<in> link ?ns"
          by (rule find_previous_total [OF d(1) o False])
        define ns1 where "ns1 = set_key mp k (move_node prev mp f ?ns)"
        have good: "normal_key g k \<and> \<not> in_array t k" using k by simp
        note c = move_node_ok [OF t(7) pl h pm False fl f(3) p good k(3), folded ns1_def]
        note m = move_facts [OF d(1) pl fl f(3)]
        note at = nth_move_node [OF m(1,2) fl m(3,4,5), of _ k, folded ns1_def]
        have "inserted g k t mp (t\<lparr>tb_lastfree := f, tb_node := ns1\<rparr>)"
        proof (rule finish)
          show "length ns1 = length ?ns" by (simp add: ns1_def)
          show "nd_key (ns1 ! mp) = k" "nd_val (ns1 ! mp) = None" "nd_key (ns1 ! f) \<noteq> KNil"
            using m(2,3) mp fl pm by (simp_all add: at proper_def)
          show "(nd_key (ns1 ! j) = KNil) = (nd_key (?ns ! j) = KNil)" if "j < length ?ns" "j \<noteq> f" for j
            using that p pm m(1) by (auto simp: at proper_def)
        qed (use c mp in simp_all)
        moreover have "insert_key grow g t k = Inr (InNode mp, t\<lparr>tb_lastfree := f, tb_node := ns1\<rparr>)"
          using live False gf Some f(2) fp by (simp add: insert_key_def h main getfreepos_def Let_def ns1_def)
        ultimately show ?thesis by (rule placed [rotated])
      qed
    qed
  qed
qed

end
