(* ===== verification/LuaTableMap.thy ===== *)
theory LuaTableMap
  imports LuaTableInv
begin

text \<open>
  Tables as maps: what a lookup returns after a store, through insertion, rehashing and resizing.
\<close>

section \<open>The map of a table\<close>

definition tab_val :: "strings \<Rightarrow> 'v table \<Rightarrow> lua_key \<Rightarrow> 'v option" where
  "tab_val g t k = (case luaH_get g t k of Inl e \<Rightarrow> None | Inr s \<Rightarrow> slot_val t s)"

lemma node_normal:
  assumes "tab_inv g t" "i < sizenode t" "proper (nd_key (tb_node t ! i))"
  shows "normal_key g (nd_key (tb_node t ! i))" "\<not> in_array t (nd_key (tb_node t ! i))"
  using nodes_okD(4) [OF tab_invD(7) [OF assms(1)], of i] tab_invD(1) [OF assms(1)] assms(2,3) by auto

lemma live_proper: "tab_inv g t \<Longrightarrow> i < sizenode t \<Longrightarrow> nd_val (tb_node t ! i) = Some v \<Longrightarrow> proper (nd_key (tb_node t ! i))"
  using nodes_okD(3) [OF tab_invD(7), of g t i] tab_invD(1) [of g t] by fastforce

lemma array_index: "j < 2 ^ 31 \<Longrightarrow> of_nat (j + 1) = (i :: u64) \<longleftrightarrow> j = unat (i - 1)"
proof -
  assume j: "j < 2 ^ 31"
  have "of_nat (j + 1) = i \<longleftrightarrow> of_nat j = i - 1" by (auto simp: eq_diff_eq)
  also have "\<dots> \<longleftrightarrow> unat (of_nat j :: u64) = unat (i - 1)" by (auto intro: unsigned_word_eqI)
  also have "unat (of_nat j :: u64) = j" using j by (simp add: unat_of_nat)
  finally show ?thesis .
qed

lemma tab_val_entries:
  assumes inv: "tab_inv g t" and k: "normal_key g k"
  shows "tab_val g t k = Some v \<longleftrightarrow> (\<exists>l. luaV_rawequalobj g l k \<and> (l, v) \<in> entries t)"
proof -
  note t = tab_invD [OF inv]
  note d = nodes_okD [OF t(7)]
  have ints: "(l, v) \<in> array_pairs t \<longleftrightarrow> (\<exists>j < sizearray t. l = KInt (of_nat (j + 1)) \<and> tb_array t ! j = Some v)" for l
    unfolding array_pairs_def by blast
  have idx: "of_nat (j + 1) = i \<longleftrightarrow> j = unat (i - 1)" if "j < sizearray t" for j and i :: u64
    using array_index [of j i] that t(4) by simp
  have arrp: "(KInt i, v) \<in> array_pairs t \<longleftrightarrow> unat (i - 1) < sizearray t \<and> tb_array t ! unat (i - 1) = Some v" for i
  proof
    assume "(KInt i, v) \<in> array_pairs t"
    then obtain j where j: "j < sizearray t" "i = of_nat (j + 1)" "tb_array t ! j = Some v" unfolding ints by blast
    then show "unat (i - 1) < sizearray t \<and> tb_array t ! unat (i - 1) = Some v" using idx [OF j(1), of i] by metis
  next
    assume a: "unat (i - 1) < sizearray t \<and> tb_array t ! unat (i - 1) = Some v"
    then have "of_nat (unat (i - 1) + 1) = i" using idx by blast
    then show "(KInt i, v) \<in> array_pairs t" unfolding ints using a by metis
  qed
  have only_int: "in_array t l \<and> normal_key g l" if l: "(l, v) \<in> array_pairs t" for l
  proof -
    obtain i where i: "l = KInt i" using l unfolding ints by blast
    then show ?thesis using l arrp [of i] by (auto simp: in_array_def normal_key_def proper_def)
  qed
  have nodes: "(l, v) \<in> node_pairs (tb_node t) \<Longrightarrow> \<exists>j < sizenode t. nd_key (tb_node t ! j) = l \<and> nd_val (tb_node t ! j) = Some v \<and>
      proper l \<and> normal_key g l \<and> \<not> in_array t l" for l
    using live_proper [OF inv] node_normal [OF inv] t(1) by (fastforce simp: in_node_pairs)
  from inv k show ?thesis
  proof (cases rule: luaH_get_spec)
    case (arr i)
    have "luaV_rawequalobj g l k \<Longrightarrow> (l, v) \<in> entries t \<Longrightarrow> l = k" for l
      using only_int nodes raw_KInt [of g l i] arr(1) unfolding entries_def by blast
    moreover have "(k, v) \<notin> node_pairs (tb_node t)" using nodes arr by (auto simp: in_array_def)
    moreover have "tab_val g t k = Some v \<longleftrightarrow> (k, v) \<in> array_pairs t"
      using arr(2,3) arrp [of i] unfolding arr(1) by (simp add: tab_val_def slot_val_def)
    ultimately show ?thesis using raw_refl [OF k] unfolding entries_def by blast
  next
    case (nde i)
    have "l = nd_key (tb_node t ! i) \<and> nd_val (tb_node t ! i) = Some v"
      if l: "luaV_rawequalobj g l k" "(l, v) \<in> entries t" for l
    proof -
      have "(l, v) \<notin> array_pairs t"
      proof
        assume "(l, v) \<in> array_pairs t"
        then obtain j where j: "l = KInt j" "in_array t l" using only_int [of l] by (auto simp: in_array_def)
        then have "k = KInt j" using raw_KInt [OF k] raw_sym [OF l(1)] by simp
        then show False using j nde(1) by simp
      qed
      then obtain j where j: "j < sizenode t" "nd_key (tb_node t ! j) = l" "nd_val (tb_node t ! j) = Some v" "proper l" "normal_key g l"
        using l(2) nodes [of l] unfolding entries_def by blast
      have "luaV_rawequalobj g l (nd_key (tb_node t ! i))"
        using raw_trans [OF l(1) raw_sym [OF nde(5)] j(5) k node_normal(1) [OF inv nde(3,4)]] .
      then have "j = i" using d(9) [of j i] j nde t(1) by simp
      then show ?thesis using j by simp
    qed
    moreover have "tab_val g t k = nd_val (tb_node t ! i)" using nde(2) by (simp add: tab_val_def slot_val_def)
    moreover have "nd_val (tb_node t ! i) = Some v \<Longrightarrow> (nd_key (tb_node t ! i), v) \<in> entries t"
      using nde(3) t(1) unfolding entries_def by (auto simp: in_node_pairs)
    ultimately show ?thesis using nde(5) by metis
  next
    case none
    have "(l, v) \<notin> entries t" if l: "luaV_rawequalobj g l k" for l
    proof
      assume "(l, v) \<in> entries t"
      then consider "(l, v) \<in> array_pairs t" | "(l, v) \<in> node_pairs (tb_node t)" unfolding entries_def by blast
      then show False
      proof cases
        case 1
        then obtain j where j: "l = KInt j" "in_array t l" using only_int [of l] by (auto simp: in_array_def)
        then have "k = KInt j" using raw_KInt [OF k] raw_sym [OF l] by simp
        then show False using j none(1) by simp
      next
        case 2
        then show False using nodes [of l] none(3) l t(1) unfolding absent_def by metis
      qed
    qed
    then show ?thesis using none(2) by (auto simp: tab_val_def slot_val_def)
  qed
qed

section \<open>Storing\<close>

text \<open>A store: find or make the slot of a key and put the value there, as \<open>lua_rawset\<close> does.\<close>

definition raw_store :: "'v inserter \<Rightarrow> strings \<Rightarrow> 'v table \<Rightarrow> lua_key \<Rightarrow> 'v option \<Rightarrow> table_error + 'v table" where
  "raw_store grow g t k v = bindT (luaH_set grow g t k) (\<lambda>(cell, t1). Inr (set_slot cell v t1))"

lemma luaH_setint_store: "luaH_setint grow g t i v = raw_store grow g t (KInt i) v"
  by (cases "luaH_getint t i") (simp_all add: luaH_setint_def raw_store_def luaH_set_def luaH_get_def)

definition same_shape :: "'v table \<Rightarrow> 'v table \<Rightarrow> bool" where
  "same_shape t t1 \<longleftrightarrow> tb_lsizenode t1 = tb_lsizenode t \<and> tb_dummy t1 = tb_dummy t \<and> sizearray t1 = sizearray t"

lemma shape_in_array: "same_shape t t1 \<Longrightarrow> in_array t1 = in_array t"
  by (simp add: same_shape_def in_array_def fun_eq_iff)

lemma shape_main: "same_shape t t1 \<Longrightarrow> mainposition g t1 = mainposition g t"
  by (rule mainposition_cong) (simp add: same_shape_def)

lemma shape_sizenode: "same_shape t t1 \<Longrightarrow> sizenode t1 = sizenode t"
  by (simp add: same_shape_def sizenode_def)

lemma shape_trans: "same_shape t t1 \<Longrightarrow> same_shape t1 t2 \<Longrightarrow> same_shape t t2"
  by (simp add: same_shape_def)

lemma chain_find_cong:
  "(\<And>n. nd_key (ns1 ! n) = nd_key (ns ! n)) \<Longrightarrow> (\<And>n. nd_next (ns1 ! n) = nd_next (ns ! n)) \<Longrightarrow>
   chain_find fuel P ns1 n = chain_find fuel P ns n"
  by (induction fuel P ns n rule: chain_find.induct) (simp_all add: Let_def)

lemma link_cong:
  "length ns1 = length ns \<Longrightarrow> (\<And>n. nd_next (ns1 ! n) = nd_next (ns ! n)) \<Longrightarrow> link ns1 = link ns"
  by (auto simp: link_def)

lemma set_node_fields:
  "nd_key (tb_node (set_slot (InNode i) v t) ! n) = nd_key (tb_node t ! n)"
  "nd_next (tb_node (set_slot (InNode i) v t) ! n) = nd_next (tb_node t ! n)"
  "length (tb_node (set_slot (InNode i) v t)) = length (tb_node t)" "tb_array (set_slot (InNode i) v t) = tb_array t"
  "tb_lsizenode (set_slot (InNode i) v t) = tb_lsizenode t"
  "tb_dummy (set_slot (InNode i) v t) = tb_dummy t" "tb_lastfree (set_slot (InNode i) v t) = tb_lastfree t"
  "same_shape t (set_slot (InNode i) v t)"
  "nd_val (tb_node (set_slot (InNode i) v t) ! n) = (if n = i \<and> i < length (tb_node t) then v else nd_val (tb_node t ! n))"
proof -
  have at: "tb_node (set_slot (InNode i) v t) ! n =
      (if n = i \<and> i < length (tb_node t) then (tb_node t ! i)\<lparr>nd_val := v\<rparr> else tb_node t ! n)"
    by (cases "i < length (tb_node t)"; cases "n = i") (simp_all add: set_slot_def list_update_beyond)
  show "nd_key (tb_node (set_slot (InNode i) v t) ! n) = nd_key (tb_node t ! n)"
    "nd_next (tb_node (set_slot (InNode i) v t) ! n) = nd_next (tb_node t ! n)"
    "nd_val (tb_node (set_slot (InNode i) v t) ! n) = (if n = i \<and> i < length (tb_node t) then v else nd_val (tb_node t ! n))"
    unfolding at by auto
qed (simp_all add: set_slot_def same_shape_def sizearray_def)

lemma set_node_get: "luaH_get g (set_slot (InNode i) v t) k = luaH_get g t k"
proof -
  have c: "in_chain (set_slot (InNode i) v t) P n = in_chain t P n" for P n
    unfolding in_chain_def set_node_fields(3) by (subst chain_find_cong [OF set_node_fields(1,2)]) simp
  have s: "sizearray (set_slot (InNode i) v t) = sizearray t" "sizenode (set_slot (InNode i) v t) = sizenode t" using set_node_fields(8) [of t i v] by (simp_all add: same_shape_def sizenode_def)
  show ?thesis
    unfolding luaH_get_def luaH_getint_def luaH_getstr_def get_generic_def c s
      shape_main [OF set_node_fields(8)] hashint_def hashpow2_def ..
qed

lemma set_node_inv:
  assumes inv: "tab_inv g t" and i: "proper (nd_key (tb_node t ! i))" "i < sizenode t"
  shows "tab_inv g (set_slot (InNode i) v t)"
proof -
  note f = set_node_fields
  have l: "link (tb_node (set_slot (InNode i) v t)) = link (tb_node t)" by (rule link_cong) (simp_all only: f)
  have c: "chains_ok (tb_node (set_slot (InNode i) v t))" using tab_invD(7) [OF inv] unfolding nodes_ok_def chains_ok_def l f by blast
  have n: "\<forall>j < length (tb_node t). \<not> proper (nd_key (tb_node t ! j)) \<longrightarrow> nd_val (tb_node (set_slot (InNode i) v t) ! j) = None"
    using nodes_okD(3) [OF tab_invD(7) [OF inv]] i unfolding f(9) by auto
  have "nodes_ok (luaV_rawequalobj g) (mainposition g t) (\<lambda>k. normal_key g k \<and> \<not> in_array t k) (tb_node (set_slot (InNode i) v t))"
    using tab_invD(7) [OF inv] c n unfolding nodes_ok_def l f(1-3) by blast
  moreover have "tb_dummy t \<Longrightarrow> tb_node (set_slot (InNode i) v t) = [empty_node]"
  proof -
    assume d: "tb_dummy t"
    then have "nd_key (tb_node t ! i) = KNil"
      using tab_invD(1,5) [OF inv] i(2) by (cases i) (auto simp: empty_node_def)
    then show ?thesis using i by (simp add: proper_def)
  qed
  ultimately show ?thesis
    using inv unfolding tab_inv_def f(1,3,5,6,7) shape_main [OF f(8)] shape_in_array [OF f(8)] shape_sizenode [OF f(8)]
    using f(8) [of t i v] by (simp add: same_shape_def)
qed

lemma set_node_val:
  assumes inv: "tab_inv g t" and i: "proper (nd_key (tb_node t ! i))" "i < sizenode t" and k: "normal_key g k"
  shows "tab_val g (set_slot (InNode i) v t) k = (if luaV_rawequalobj g (nd_key (tb_node t ! i)) k then v else tab_val g t k)"
proof -
  note t = tab_invD [OF inv]
  have at: "slot_val (set_slot (InNode i) v t) s = (if s = InNode i then v else slot_val t s)" for s
    using i(2) t(1) by (cases s) (auto simp: slot_val_def set_node_fields)
  have "luaH_get g t k = Inr (InNode i) \<longleftrightarrow> luaV_rawequalobj g (nd_key (tb_node t ! i)) k"
    using inv k
  proof (cases rule: luaH_get_spec)
    case (arr j)
    have "\<not> luaV_rawequalobj g (nd_key (tb_node t ! i)) k"
      using node_normal [OF inv i(2,1)] raw_KInt [of g "nd_key (tb_node t ! i)" j] arr by (auto simp: in_array_def)
    then show ?thesis using arr by simp
  next
    case (nde j)
    have "j = i" if "luaV_rawequalobj g (nd_key (tb_node t ! i)) k"
    proof -
      have "luaV_rawequalobj g (nd_key (tb_node t ! j)) (nd_key (tb_node t ! i))"
        using raw_trans [OF nde(5) raw_sym [OF that]] node_normal [OF inv] i nde k by blast
      then show ?thesis using nodes_okD(9) [OF t(7)] nde i t(1) by simp
    qed
    then show ?thesis using nde by auto
  next
    case none
    then show ?thesis using i t(1) by (auto simp: absent_def)
  qed
  then show ?thesis unfolding tab_val_def set_node_get at by (auto split: sum.splits)
qed


lemma set_array_store:
  assumes inv: "tab_inv g t" and j: "j < sizearray t"
  shows "tab_inv g (set_slot (InArray j) v t)" "same_shape t (set_slot (InArray j) v t)"
    "tb_node (set_slot (InArray j) v t) = tb_node t"
    "normal_key g k \<Longrightarrow> tab_val g (set_slot (InArray j) v t) k =
      (if k = KInt (of_nat (j + 1)) then v else tab_val g t k)"
proof -
  let ?t1 = "set_slot (InArray j) v t"
  note t = tab_invD [OF inv]
  have f: "tb_node ?t1 = tb_node t" "tb_lsizenode ?t1 = tb_lsizenode t" "tb_dummy ?t1 = tb_dummy t" "tb_lastfree ?t1 = tb_lastfree t"
    "tb_array ?t1 = (tb_array t)[j := v]" "sizearray ?t1 = sizearray t" by (simp_all add: set_slot_def sizearray_def)
  show s: "same_shape t ?t1" by (simp add: same_shape_def f)
  show "tb_node ?t1 = tb_node t" by (rule f)
  show "tab_inv g ?t1"
    using inv unfolding tab_inv_def f shape_main [OF s] shape_in_array [OF s] shape_sizenode [OF s] .
  have get: "luaH_get g ?t1 k = luaH_get g t k"
    unfolding luaH_get_def luaH_getint_def luaH_getstr_def get_generic_def in_chain_def f
      shape_main [OF s] hashint_def hashpow2_def shape_sizenode [OF s] ..
  assume k: "normal_key g k"
  have at: "slot_val ?t1 s = (if s = InArray j then v else slot_val t s)" for s
    using j by (cases s) (auto simp: slot_val_def f sizearray_def)
  have "luaH_get g t k = Inr (InArray j) \<longleftrightarrow> k = KInt (of_nat (j + 1))"
    using inv k
  proof (cases rule: luaH_get_spec)
    case (arr i)
    then show ?thesis using array_index [of j i] j t(4) by auto
  next
    case (nde i)
    have "unat (of_nat (j + 1) - 1 :: u64) = j" using array_index [of j "of_nat (j + 1)"] j t(4) by simp
    then show ?thesis using nde(1,2) j by (auto simp: in_array_def)
  next
    case none
    have "unat (of_nat (j + 1) - 1 :: u64) = j" using array_index [of j "of_nat (j + 1)"] j t(4) by simp
    then show ?thesis using none(1,2) j by (auto simp: in_array_def)
  qed
  then show "tab_val g ?t1 k = (if k = KInt (of_nat (j + 1)) then v else tab_val g t k)"
    unfolding tab_val_def get at by (auto split: sum.splits)
qed

text \<open>A store that needs no growth: the map changes at the key and nowhere else.\<close>

definition stored :: "strings \<Rightarrow> 'v table \<Rightarrow> lua_key \<Rightarrow> 'v option \<Rightarrow> 'v table \<Rightarrow> bool" where
  "stored g t k v t1 \<longleftrightarrow> tab_inv g t1 \<and> same_shape t t1 \<and>
     (\<forall>l. normal_key g l \<longrightarrow> tab_val g t1 l = (if luaV_rawequalobj g k l then v else tab_val g t l)) \<and>
     card (used_nodes (tb_node t1)) \<le> card (used_nodes (tb_node t)) + (if in_array t k then 0 else 1)"

lemma used_set_node: "used_nodes (tb_node (set_slot (InNode i) v t)) = used_nodes (tb_node t)"
  by (simp add: used_nodes_def set_node_fields)

lemma newkey_normal: "normal_key g k \<Longrightarrow> luaH_newkey grow g t k = insert_key grow g t k"
  by (cases k) (auto simp: luaH_newkey_def normal_key_def proper_def)

lemma tab_val_inserted:
  assumes inv: "tab_inv g t" and ins: "inserted g k t i t1" and l: "normal_key g l"
  shows "tab_val g t1 l = tab_val g t l"
proof -
  have "entries t1 = entries t"
    using ins by (simp add: inserted_def entries_def array_pairs_def sizearray_def)
  then have "tab_val g t1 l = Some v \<longleftrightarrow> tab_val g t l = Some v" for v
    using tab_val_entries [OF inv l] tab_val_entries [of g t1 l v] ins l by (simp add: inserted_def)
  then show ?thesis by (metis not_Some_eq)
qed

lemma raw_store_spec:
  assumes inv: "tab_inv g t" and k: "normal_key g k"
  obtains (ok) t1 where "raw_store grow g t k v = Inr t1" "stored g t k v t1"
  | (full) "\<not> in_array t k" "absent (luaV_rawequalobj g) k (tb_node t)"
      "raw_store grow g t k v = bindT (grow (t\<lparr>tb_lastfree := 0\<rparr>) k) (\<lambda>(cell, t1). Inr (set_slot cell v t1))"
      "tab_inv g (t\<lparr>tb_lastfree := 0\<rparr>)" "tb_dummy t \<or> used_nodes (tb_node t) = {..<sizenode t}"
  using inv k
proof (cases rule: luaH_get_spec)
  case (arr i)
  let ?j = "unat (i - 1)"
  have "of_nat (?j + 1) = i" by simp
  then have "stored g t k v (set_slot (InArray ?j) v t)"
    using set_array_store [OF inv arr(2)] arr(1) raw_KInt raw_sym unfolding stored_def
    by (metis (no_types, lifting) le_add1)
  then show ?thesis using ok arr by (simp add: raw_store_def luaH_set_def)
next
  case (nde i)
  have "luaV_rawequalobj g (nd_key (tb_node t ! i)) l \<longleftrightarrow> luaV_rawequalobj g k l" if "normal_key g l" for l
    using raw_trans raw_sym nde(5) k that node_normal(1) [OF inv nde(3,4)] by blast
  then have "stored g t k v (set_slot (InNode i) v t)"
    using set_node_inv [OF inv nde(4,3)] set_node_val [OF inv nde(4,3)] set_node_fields(8)
    unfolding stored_def used_set_node by simp
  then show ?thesis using ok nde by (simp add: raw_store_def luaH_set_def)
next
  case none
  have set: "luaH_set grow g t k = insert_key grow g t k"
    using none(2) newkey_normal [OF k] by (simp add: luaH_set_def)
  from inv k none(1,3) show ?thesis
  proof (cases rule: insert_key_spec [where grow = grow])
    case (placed i t1)
    have i: "tab_inv g t1" "i < sizenode t1" "nd_key (tb_node t1 ! i) = k" "proper (nd_key (tb_node t1 ! i))"
      using placed(2) k by (simp_all add: inserted_def normal_key_def)
    have s: "same_shape t t1" using placed(2) by (simp add: inserted_def same_shape_def sizearray_def)
    have "stored g t k v (set_slot (InNode i) v t1)"
      using set_node_inv [OF i(1,4,2)] set_node_val [OF i(1,4,2)] shape_trans [OF s set_node_fields(8)] placed(2)
        tab_val_inserted [OF inv placed(2)] none(1) i(3)
      unfolding stored_def used_set_node by (simp add: inserted_def)
    then show ?thesis using ok placed(1) set by (simp add: raw_store_def)
  next
    case full
    then show ?thesis using that(2) none set by (simp add: raw_store_def)
  qed
qed

lemma raw_store_room:
  assumes inv: "tab_inv g t" and k: "normal_key g k"
    and room: "in_array t k \<or> \<not> tb_dummy t \<and> card (used_nodes (tb_node t)) < sizenode t"
  shows "\<exists>t1. raw_store grow g t k v = Inr t1 \<and> stored g t k v t1"
  using inv k
proof (cases rule: raw_store_spec [where grow = grow and v = v])
  case full
  then show ?thesis using room by auto
qed blast

section \<open>Reinserting\<close>

fun store_all :: "'v inserter \<Rightarrow> strings \<Rightarrow> (lua_key \<times> 'v) list \<Rightarrow> 'v table \<Rightarrow> table_error + 'v table" where
  "store_all grow g [] t = Inr t"
| "store_all grow g ((k, v) # ps) t = bindT (raw_store grow g t k (Some v)) (store_all grow g ps)"

fun slice_list :: "nat \<Rightarrow> 'v option list \<Rightarrow> (lua_key \<times> 'v) list" where
  "slice_list i [] = []"
| "slice_list i (v # vs) = (case v of None \<Rightarrow> [] | Some w \<Rightarrow> [(KInt (of_nat (i + 1)), w)]) @ slice_list (i + 1) vs"

fun node_list :: "'v node list \<Rightarrow> (lua_key \<times> 'v) list" where
  "node_list [] = []"
| "node_list (n # ns) = (case nd_val n of None \<Rightarrow> [] | Some w \<Rightarrow> [(nd_key n, w)]) @ node_list ns"

lemma bindT_assoc: "bindT (bindT m f) h = bindT m (\<lambda>x. bindT (f x) h)"
  by (cases m) simp_all

lemma bindT_cong: "(\<And>x. f x = h x) \<Longrightarrow> bindT m f = bindT m h"
  by (cases m) simp_all

lemma store_all_append: "store_all grow g (ps @ qs) t = bindT (store_all grow g ps t) (store_all grow g qs)"
proof (induction ps arbitrary: t)
  case (Cons p ps)
  obtain k v where p: "p = (k, v)" by fastforce
  show ?case unfolding p append_Cons store_all.simps bindT_assoc by (rule bindT_cong) (rule Cons.IH)
qed simp

lemma reinsert_slice_all: "reinsert_slice grow g i vs t = store_all grow g (slice_list i vs) t"
proof (induction vs arbitrary: i t)
  case (Cons v vs)
  show ?case
  proof (cases v)
    case (Some w)
    show ?thesis unfolding Some reinsert_slice.simps slice_list.simps option.case append.simps store_all.simps luaH_setint_store
      if_P [OF option.distinct(2)] by (rule bindT_cong) (rule Cons.IH)
  qed (simp add: Cons.IH)
qed simp

lemma reinsert_nodes_all: "reinsert_nodes grow g ns t = store_all grow g (node_list ns) t"
proof (induction ns arbitrary: t)
  case (Cons n ns)
  show ?case
  proof (cases "nd_val n")
    case (Some w)
    show ?thesis unfolding reinsert_nodes.simps node_list.simps Some option.case append.simps store_all.simps raw_store_def
      if_P [OF option.distinct(2)] by (rule bindT_cong) (rule Cons.IH)
  qed (simp add: Cons.IH)
qed simp

lemma set_slice_list: "(k, v) \<in> set (slice_list i vs) \<longleftrightarrow> (\<exists>j < length vs. k = KInt (of_nat (i + j + 1)) \<and> vs ! j = Some v)"
proof (induction i vs rule: slice_list.induct)
  case (2 i w vs)
  have "(\<exists>j < length (w # vs). k = KInt (of_nat (i + j + 1)) \<and> (w # vs) ! j = Some v) \<longleftrightarrow>
      k = KInt (of_nat (i + 1)) \<and> w = Some v \<or> (\<exists>j < length vs. k = KInt (of_nat ((i + 1) + j + 1)) \<and> vs ! j = Some v)"
    by (simp only: length_Cons Ex_less_Suc2 nth_Cons_0 nth_Cons_Suc) (simp add: add.assoc)
  then show ?case using 2 by (auto split: option.split simp del: of_nat_add of_nat_Suc)
qed simp

lemma set_node_list: "(k, v) \<in> set (node_list ns) \<longleftrightarrow> (\<exists>n \<in> set ns. nd_key n = k \<and> nd_val n = Some v)"
  by (induction ns) (auto split: option.split)

fun store_map :: "strings \<Rightarrow> (lua_key \<times> 'v) list \<Rightarrow> (lua_key \<Rightarrow> 'v option) \<Rightarrow> lua_key \<Rightarrow> 'v option" where
  "store_map g [] f = f"
| "store_map g ((k, v) # ps) f = store_map g ps (\<lambda>l. if luaV_rawequalobj g k l then Some v else f l)"

lemma store_map_cong: "f l = h l \<Longrightarrow> store_map g ps f l = store_map g ps h l"
proof (induction ps arbitrary: f h)
  case (Cons p ps)
  obtain k v where p: "p = (k, v)" by fastforce
  show ?case unfolding p store_map.simps by (rule Cons.IH) (simp add: Cons.prems)
qed simp

lemma store_map_functional:
  "(\<And>k v w m. (k, v) \<in> set ps \<Longrightarrow> (m, w) \<in> set ps \<Longrightarrow> luaV_rawequalobj g k l \<Longrightarrow> luaV_rawequalobj g m l \<Longrightarrow> v = w) \<Longrightarrow>
   store_map g ps f l = Some v \<longleftrightarrow>
     (\<exists>k. (k, v) \<in> set ps \<and> luaV_rawequalobj g k l) \<or> (\<forall>(k, w) \<in> set ps. \<not> luaV_rawequalobj g k l) \<and> f l = Some v"
proof (induction ps arbitrary: f)
  case (Cons p ps)
  obtain k w where p: "p = (k, w)" by fastforce
  have "store_map g ps (\<lambda>l. if luaV_rawequalobj g k l then Some w else f l) l = Some v \<longleftrightarrow>
     (\<exists>k. (k, v) \<in> set ps \<and> luaV_rawequalobj g k l) \<or>
     (\<forall>(k, w) \<in> set ps. \<not> luaV_rawequalobj g k l) \<and> (if luaV_rawequalobj g k l then Some w else f l) = Some v"
    by (rule Cons.IH) (use Cons.prems in auto)
  then show ?case using Cons.prems [of k w] unfolding p by (auto split: if_splits)
qed simp

definition outside :: "'v table \<Rightarrow> (lua_key \<times> 'v) list \<Rightarrow> nat" where
  "outside t ps = length (filter (\<lambda>(k, v). \<not> in_array t k) ps)"

lemma store_all_spec:
  assumes "tab_inv g t" "\<forall>(k, v) \<in> set ps. normal_key g k"
    and "outside t ps = 0 \<or> \<not> tb_dummy t \<and> card (used_nodes (tb_node t)) + outside t ps \<le> sizenode t"
  shows "\<exists>t1. store_all grow g ps t = Inr t1 \<and> tab_inv g t1 \<and> same_shape t t1 \<and>
    card (used_nodes (tb_node t1)) \<le> card (used_nodes (tb_node t)) + outside t ps \<and>
    (\<forall>l. normal_key g l \<longrightarrow> tab_val g t1 l = store_map g ps (tab_val g t) l)"
  using assms
proof (induction ps arbitrary: t)
  case Nil
  then show ?case by (simp add: same_shape_def)
next
  case (Cons p ps)
  obtain k v where p: "p = (k, v)" by fastforce
  have k: "normal_key g k" using Cons.prems(2) by (simp add: p)
  have o: "outside t (p # ps) = (if in_array t k then 0 else 1) + outside t ps" by (simp add: outside_def p)
  have "in_array t k \<or> \<not> tb_dummy t \<and> card (used_nodes (tb_node t)) < sizenode t"
    using Cons.prems(3) o by (auto split: if_splits)
  from raw_store_room [OF Cons.prems(1) k this] obtain t1 where t1: "raw_store grow g t k (Some v) = Inr t1" "stored g t k (Some v) t1"
    by blast
  have s: "tab_inv g t1" "same_shape t t1" "card (used_nodes (tb_node t1)) \<le> card (used_nodes (tb_node t)) + (if in_array t k then 0 else 1)"
    "normal_key g l \<Longrightarrow> tab_val g t1 l = (if luaV_rawequalobj g k l then Some v else tab_val g t l)" for l
    using t1(2) by (simp_all add: stored_def)
  have o1: "outside t1 qs = outside t qs" for qs :: "(lua_key \<times> 'a) list" by (simp add: outside_def shape_in_array [OF s(2)])
  have "outside t1 ps = 0 \<or> \<not> tb_dummy t1 \<and> card (used_nodes (tb_node t1)) + outside t1 ps \<le> sizenode t1"
    using Cons.prems(3) o o1 s(3) shape_sizenode [OF s(2)] s(2) by (auto simp: same_shape_def split: if_splits)
  moreover have "\<forall>(k, v) \<in> set ps. normal_key g k" using Cons.prems(2) by simp
  ultimately have ex: "\<exists>t2. store_all grow g ps t1 = Inr t2 \<and> tab_inv g t2 \<and> same_shape t1 t2 \<and>
    card (used_nodes (tb_node t2)) \<le> card (used_nodes (tb_node t1)) + outside t1 ps \<and>
    (\<forall>l. normal_key g l \<longrightarrow> tab_val g t2 l = store_map g ps (tab_val g t1) l)" using Cons.IH [OF s(1)] by simp
  then obtain t2 where t2: "store_all grow g ps t1 = Inr t2" "tab_inv g t2" "same_shape t1 t2"
    "card (used_nodes (tb_node t2)) \<le> card (used_nodes (tb_node t1)) + outside t1 ps"
    "\<And>l. normal_key g l \<Longrightarrow> tab_val g t2 l = store_map g ps (tab_val g t1) l"
    by (elim exE conjE) simp
  have "store_map g ps (tab_val g t1) l = store_map g ps (\<lambda>l. if luaV_rawequalobj g k l then Some v else tab_val g t l) l"
    if "normal_key g l" for l
    using s(4) [OF that] by (rule store_map_cong)
  then have "\<forall>l. normal_key g l \<longrightarrow> tab_val g t2 l = store_map g (p # ps) (tab_val g t) l"
    using t2(5) by (simp add: p)
  moreover have "store_all grow g (p # ps) t = Inr t2" using t1(1) t2(1) by (simp add: p)
  moreover have "card (used_nodes (tb_node t2)) \<le> card (used_nodes (tb_node t)) + outside t (p # ps)"
    using t2(4) s(3) unfolding o o1 by linarith
  ultimately show ?case using shape_trans [OF s(2) t2(3)] t2(2) by blast
qed

section \<open>Resizing\<close>

definition kept :: "nat \<Rightarrow> lua_key \<Rightarrow> bool" where
  "kept n k \<longleftrightarrow> (\<exists>i. k = KInt i \<and> unat (i - 1) < n)"

lemma in_array_kept: "in_array t = kept (sizearray t)"
  by (simp add: in_array_def kept_def fun_eq_iff)

lemma entries_functional:
  assumes inv: "tab_inv g t" and "(k, v) \<in> entries t" "(m, w) \<in> entries t" "luaV_rawequalobj g k l" "luaV_rawequalobj g m l"
    and l: "normal_key g l"
  shows "v = w"
proof -
  have "tab_val g t l = Some v" "tab_val g t l = Some w" using tab_val_entries [OF inv l] assms by blast+
  then show ?thesis by simp
qed

lemma int_key_normal [simp]: "normal_key g (KInt i)"
  by (simp add: normal_key_def proper_def)

lemma entry_normal: "tab_inv g t \<Longrightarrow> (k, v) \<in> entries t \<Longrightarrow> normal_key g k"
  using live_proper node_normal tab_invD(1) by (fastforce simp: entries_def array_pairs_def in_node_pairs)

lemma fresh_inv:
  assumes "length arr \<le> 2 ^ 31" "ns = replicate (2 ^ l) empty_node" "l \<le> 30" "lf \<le> 2 ^ l" "d \<Longrightarrow> l = 0 \<and> lf = 0" "\<not> d \<Longrightarrow> lf = 2 ^ l"
  shows "tab_inv g \<lparr>tb_array = arr, tb_lsizenode = l, tb_dummy = d, tb_node = ns, tb_lastfree = lf\<rparr>" (is "tab_inv g ?t")
proof -
  have k: "nd_key (ns ! i) = KNil" "nd_val (ns ! i) = None" "nd_next (ns ! i) = 0" if "i < 2 ^ l" for i
    using that assms(2) by (simp_all add: empty_node_def)
  have len: "length ns = 2 ^ l" using assms(2) by simp
  have "link ns = {}" using k len by (auto simp: link_def)
  then have "chains_ok ns" using k len by (simp add: chains_ok_def)
  then have "nodes_ok (luaV_rawequalobj g) (mainposition g ?t) (\<lambda>k. normal_key g k \<and> \<not> in_array ?t k) ns"
    unfolding nodes_ok_def len using k by (simp add: proper_def)
  then show ?thesis using assms unfolding tab_inv_def by (auto simp: sizenode_def sizearray_def)
qed

lemma fresh_entries: "entries \<lparr>tb_array = arr, tb_lsizenode = l, tb_dummy = d, tb_node = replicate n empty_node, tb_lastfree = lf\<rparr> =
    {(KInt (of_nat (i + 1)), v) | i v. i < length arr \<and> arr ! i = Some v}"
  by (auto simp: entries_def array_pairs_def sizearray_def in_node_pairs empty_node_def)

definition moved_pairs :: "'v table \<Rightarrow> nat \<Rightarrow> (lua_key \<times> 'v) list" where
  "moved_pairs t n = (if n < sizearray t then slice_list n (drop n (tb_array t)) else []) @ node_list (rev (tb_node t))"

definition resized_array :: "'v table \<Rightarrow> nat \<Rightarrow> 'v option list" where
  "resized_array t n = take n (tb_array t) @ replicate (n - sizearray t) None"

lemma resized_length: "length (resized_array t n) = n"
  by (simp add: resized_array_def sizearray_def min_def)

lemma resized_nth: "i < n \<Longrightarrow> resized_array t n ! i = (if i < sizearray t then tb_array t ! i else None)"
  by (auto simp: resized_array_def sizearray_def nth_append)

lemma moved_entries:
  "(k, v) \<in> entries t \<longleftrightarrow> (k, v) \<in> set (moved_pairs t n) \<or>
     (\<exists>i < n. k = KInt (of_nat (i + 1)) \<and> resized_array t n ! i = Some v)"
proof -
  have n: "(k, v) \<in> node_pairs (tb_node t) \<longleftrightarrow> (k, v) \<in> set (node_list (rev (tb_node t)))"
    unfolding set_node_list in_node_pairs set_rev by (metis in_set_conv_nth)
  have s: "(k, v) \<in> set (slice_list n (drop n (tb_array t))) \<longleftrightarrow>
      (\<exists>i. n \<le> i \<and> i < sizearray t \<and> k = KInt (of_nat (i + 1)) \<and> tb_array t ! i = Some v)" if "n < sizearray t"
    unfolding set_slice_list
  proof
    assume "\<exists>j < length (drop n (tb_array t)). k = KInt (of_nat (n + j + 1)) \<and> drop n (tb_array t) ! j = Some v"
    then obtain j where "j < length (drop n (tb_array t))" "k = KInt (of_nat (n + j + 1))" "drop n (tb_array t) ! j = Some v" by blast
    then show "\<exists>i. n \<le> i \<and> i < sizearray t \<and> k = KInt (of_nat (i + 1)) \<and> tb_array t ! i = Some v"
      using that by (intro exI [of _ "n + j"]) (auto simp: sizearray_def)
  next
    assume "\<exists>i. n \<le> i \<and> i < sizearray t \<and> k = KInt (of_nat (i + 1)) \<and> tb_array t ! i = Some v"
    then obtain i where "n \<le> i" "i < sizearray t" "k = KInt (of_nat (i + 1))" "tb_array t ! i = Some v" by blast
    then show "\<exists>j < length (drop n (tb_array t)). k = KInt (of_nat (n + j + 1)) \<and> drop n (tb_array t) ! j = Some v"
      by (intro exI [of _ "i - n"]) (auto simp: sizearray_def)
  qed
  have a: "(k, v) \<in> array_pairs t \<longleftrightarrow> (\<exists>i < sizearray t. k = KInt (of_nat (i + 1)) \<and> tb_array t ! i = Some v)"
    unfolding array_pairs_def by blast
  have r: "(\<exists>i < n. k = KInt (of_nat (i + 1)) \<and> resized_array t n ! i = Some v) \<longleftrightarrow>
      (\<exists>i < n. i < sizearray t \<and> k = KInt (of_nat (i + 1)) \<and> tb_array t ! i = Some v)"
    by (metis option.distinct(1) resized_nth)
  show ?thesis
  proof (cases "n < sizearray t")
    case True
    have "(\<exists>i < sizearray t. P i) \<longleftrightarrow> (\<exists>i. n \<le> i \<and> i < sizearray t \<and> P i) \<or> (\<exists>i < n. i < sizearray t \<and> P i)" for P
      by (metis not_le)
    note part = this [of "\<lambda>i. k = KInt (of_nat (i + 1)) \<and> tb_array t ! i = Some v"]
    show ?thesis unfolding entries_def Un_iff a n r moved_pairs_def set_append if_P [OF True] s [OF True] part by blast
  next
    case False
    then show ?thesis unfolding entries_def Un_iff a n r moved_pairs_def set_append by auto
  qed
qed

definition fresh_nodes :: "'v option list \<Rightarrow> nat \<Rightarrow> 'v table" where
  "fresh_nodes arr sz =
     (let l = luaO_ceillog2 (of_nat sz) in
      if sz = 0 then \<lparr>tb_array = arr, tb_lsizenode = 0, tb_dummy = True, tb_node = [empty_node], tb_lastfree = 0\<rparr>
      else \<lparr>tb_array = arr, tb_lsizenode = l, tb_dummy = False, tb_node = replicate (2 ^ l) empty_node, tb_lastfree = 2 ^ l\<rparr>)"

lemma ceillog2_bounds:
  assumes "0 < n" "n \<le> 2 ^ 31"
  shows "n \<le> 2 ^ luaO_ceillog2 (of_nat n)" "luaO_ceillog2 (of_nat n) \<noteq> 0 \<Longrightarrow> 2 ^ (luaO_ceillog2 (of_nat n) - 1) < n"
proof -
  have u: "unat (of_nat n :: u32) = n" using assms by (simp add: unat_of_nat)
  then have "(of_nat n :: u32) \<noteq> 0" using assms by (metis unsigned_0 less_numeral_extra(3))
  from ceillog2_exact [OF this] show "n \<le> 2 ^ luaO_ceillog2 (of_nat n)"
    "luaO_ceillog2 (of_nat n) \<noteq> 0 \<Longrightarrow> 2 ^ (luaO_ceillog2 (of_nat n) - 1) < n" unfolding u by simp_all
qed

lemma ceillog2_le: "0 < n \<Longrightarrow> n \<le> 2 ^ k \<Longrightarrow> k \<le> 31 \<Longrightarrow> luaO_ceillog2 (of_nat n) \<le> k"
proof (rule ccontr)
  assume n: "0 < n" "n \<le> 2 ^ k" "k \<le> 31" and "\<not> luaO_ceillog2 (of_nat n) \<le> k"
  then have l: "k < luaO_ceillog2 (of_nat n)" by simp
  have "n \<le> 2 ^ 31" using n(2) power_increasing [of k 31 "2 :: nat"] n(3) by linarith
  from ceillog2_bounds(2) [OF n(1) this] l have "2 ^ (luaO_ceillog2 (of_nat n) - 1) < n" by simp
  moreover have "(2 :: nat) ^ k \<le> 2 ^ (luaO_ceillog2 (of_nat n) - 1)" using l by (intro power_increasing) auto
  ultimately show False using n(2) by linarith
qed

lemma fresh_nodes_spec:
  assumes "length arr \<le> 2 ^ 31" "sz \<le> 2 ^ 30"
  shows "tab_inv g (fresh_nodes arr sz)" "tb_array (fresh_nodes arr sz) = arr" "used_nodes (tb_node (fresh_nodes arr sz)) = {}"
    "entries (fresh_nodes arr sz) = {(KInt (of_nat (i + 1)), v) | i v. i < length arr \<and> arr ! i = Some v}"
    "tb_dummy (fresh_nodes arr sz) \<longleftrightarrow> sz = 0" "sz \<le> sizenode (fresh_nodes arr sz)"
    "sz \<noteq> 0 \<Longrightarrow> setnodevector sz t = Inr (fresh_nodes (tb_array t) sz)"
    "setnodevector 0 t = Inr (fresh_nodes (tb_array t) 0)"
proof -
  let ?l = "luaO_ceillog2 (of_nat sz)"
  have l: "sz \<noteq> 0 \<Longrightarrow> ?l \<le> 30" using ceillog2_le [of sz 30] assms(2) by simp
  have one: "[empty_node] = replicate (2 ^ 0) empty_node" by simp
  show "tab_inv g (fresh_nodes arr sz)"
    unfolding fresh_nodes_def Let_def using fresh_inv [OF assms(1) one, of 0 True g] fresh_inv [OF assms(1) refl l, of "2 ^ ?l" False g]
    by simp
  show "entries (fresh_nodes arr sz) = {(KInt (of_nat (i + 1)), v) | i v. i < length arr \<and> arr ! i = Some v}"
    unfolding fresh_nodes_def Let_def using fresh_entries [of arr 0 True 1 0] fresh_entries [of arr ?l False "2 ^ ?l" "2 ^ ?l"]
    by simp
  show "tb_array (fresh_nodes arr sz) = arr" "tb_dummy (fresh_nodes arr sz) \<longleftrightarrow> sz = 0" by (simp_all add: fresh_nodes_def Let_def)
  show "used_nodes (tb_node (fresh_nodes arr sz)) = {}"
    by (auto simp: fresh_nodes_def Let_def used_nodes_def empty_node_def)
  show "sz \<le> sizenode (fresh_nodes arr sz)"
    using ceillog2_bounds(1) [of sz] assms(2) by (auto simp: fresh_nodes_def Let_def sizenode_def)
  show "sz \<noteq> 0 \<Longrightarrow> setnodevector sz t = Inr (fresh_nodes (tb_array t) sz)" "setnodevector 0 t = Inr (fresh_nodes (tb_array t) 0)"
    using l by (simp_all add: setnodevector_def fresh_nodes_def Let_def MAXHBITS_def MAXABITS_def)
qed

lemma luaH_resize_eq:
  assumes "sz \<le> 2 ^ 30"
  shows "luaH_resize grow g t n sz = store_all grow g (moved_pairs t n) (fresh_nodes (resized_array t n) sz)"
proof -
  have snv: "setnodevector sz u = Inr (fresh_nodes (tb_array u) sz)" for u :: "'a table"
    using fresh_nodes_spec(7,8) [of "[]" sz u] assms by (cases "sz = 0") simp_all
  have ta: "(fresh_nodes a sz)\<lparr>tb_array := b\<rparr> = fresh_nodes b sz" "tb_array (fresh_nodes a sz) = a" for a b :: "'a option list"
    by (simp_all add: fresh_nodes_def Let_def)
  show ?thesis
  proof (cases "n > sizearray t")
    case True
    then show ?thesis
      by (simp add: luaH_resize_def snv ta Let_def setarrayvector_def moved_pairs_def resized_array_def reinsert_nodes_all)
  next
    case False
    then have r: "resized_array t n = take n (tb_array t)" by (simp add: resized_array_def)
    show ?thesis
    proof (cases "n < sizearray t")
      case True
      then show ?thesis
        by (simp add: luaH_resize_def snv ta Let_def moved_pairs_def r reinsert_nodes_all reinsert_slice_all store_all_append)
    next
      case eq: False
      then have "resized_array t n = tb_array t" "\<not> sizearray t < n" using False r by (simp_all add: sizearray_def)
      then show ?thesis using eq False by (simp add: luaH_resize_def snv ta Let_def moved_pairs_def reinsert_nodes_all)
    qed
  qed
qed

definition displaced :: "'v table \<Rightarrow> nat \<Rightarrow> nat" where
  "displaced t n = length (filter (\<lambda>(k, v). \<not> kept n k) (moved_pairs t n))"

lemma luaH_resize_spec:
  assumes inv: "tab_inv g t" and n: "n \<le> 2 ^ 31" and sz: "sz \<le> 2 ^ 30" and d: "displaced t n \<le> sz"
  obtains t1 where "luaH_resize grow g t n sz = Inr t1" "tab_inv g t1" "sizearray t1 = n"
    "\<And>l. normal_key g l \<Longrightarrow> tab_val g t1 l = tab_val g t l"
    "tb_dummy t1 \<longleftrightarrow> sz = 0" "sz \<le> sizenode t1" "card (used_nodes (tb_node t1)) \<le> displaced t n"
proof -
  let ?f = "fresh_nodes (resized_array t n) sz" and ?ps = "moved_pairs t n"
  have len: "length (resized_array t n) \<le> 2 ^ 31" using n resized_length by metis
  note f = fresh_nodes_spec [OF len sz]
  have size: "sizearray ?f = n" by (simp add: sizearray_def f(2) resized_length)
  have o: "outside ?f ?ps = displaced t n" by (simp add: outside_def displaced_def in_array_kept size)
  have un: "(k, v) \<in> entries t \<longleftrightarrow> (k, v) \<in> set ?ps \<or> (k, v) \<in> entries ?f" for k v
    unfolding f(4) moved_entries [of k v t n] resized_length by blast
  have "\<forall>(k, v) \<in> set ?ps. normal_key g k" using un entry_normal [OF inv] by blast
  moreover have "outside ?f ?ps = 0 \<or> \<not> tb_dummy ?f \<and> card (used_nodes (tb_node ?f)) + outside ?f ?ps \<le> sizenode ?f"
    using d f(5,6) unfolding o f(3) by auto
  ultimately obtain t1 where t1: "store_all grow g ?ps ?f = Inr t1" "tab_inv g t1" "same_shape ?f t1"
    "card (used_nodes (tb_node t1)) \<le> displaced t n"
    "\<And>l. normal_key g l \<Longrightarrow> tab_val g t1 l = store_map g ?ps (tab_val g ?f) l"
    using store_all_spec [OF f(1), of ?ps g grow] unfolding o f(3) by auto
  have "tab_val g t1 l = tab_val g t l" if l: "normal_key g l" for l
  proof -
    have fu: "v = w" if "(k, v) \<in> set ?ps" "(m, w) \<in> set ?ps" "luaV_rawequalobj g k l" "luaV_rawequalobj g m l" for k v m w
      using entries_functional [OF inv _ _ that(3,4) l] that un by blast
    have sm: "tab_val g t1 l = Some v \<longleftrightarrow> (\<exists>k. (k, v) \<in> set ?ps \<and> luaV_rawequalobj g k l) \<or>
        (\<forall>(k, w) \<in> set ?ps. \<not> luaV_rawequalobj g k l) \<and> tab_val g ?f l = Some v" for v
      unfolding t1(5) [OF l] by (rule store_map_functional) (rule fu)
    have "tab_val g t1 l = Some v \<longleftrightarrow> tab_val g t l = Some v" for v
    proof
      assume "tab_val g t1 l = Some v"
      then have "(\<exists>k. (k, v) \<in> set ?ps \<and> luaV_rawequalobj g k l) \<or> tab_val g ?f l = Some v"
        unfolding sm by blast
      then show "tab_val g t l = Some v" unfolding tab_val_entries [OF inv l] tab_val_entries [OF f(1) l] un by blast
    next
      assume "tab_val g t l = Some v"
      then obtain k where k: "luaV_rawequalobj g k l" "(k, v) \<in> entries t" unfolding tab_val_entries [OF inv l] by blast
      have same: "w = v" if "(m, w) \<in> set ?ps" "luaV_rawequalobj g m l" for m w
        using entries_functional [OF inv _ k(2) that(2) k(1) l] that(1) un by blast
      show "tab_val g t1 l = Some v"
      proof (cases "\<exists>(m, w) \<in> set ?ps. luaV_rawequalobj g m l")
        case True
        then obtain m w where m: "(m, w) \<in> set ?ps" "luaV_rawequalobj g m l" by blast
        then have "(m, v) \<in> set ?ps" using same by blast
        then show ?thesis
          unfolding sm using m(2) by blast
      next
        case False
        then have "(k, v) \<in> entries ?f" using k un by blast
        then have "tab_val g ?f l = Some v" using k(1) tab_val_entries [OF f(1) l] by blast
        then show ?thesis
          unfolding sm using False by blast
      qed
    qed
    then show ?thesis by (metis not_Some_eq)
  qed
  moreover have "sizearray t1 = n" "tb_dummy t1 \<longleftrightarrow> sz = 0" "sz \<le> sizenode t1"
    using t1(3) f(5,6) size shape_sizenode [OF t1(3)] by (simp_all add: same_shape_def)
  ultimately show ?thesis using that t1 luaH_resize_eq [OF sz, of grow g t n] by metis
qed

section \<open>Counting\<close>

definition bucket :: "nat \<Rightarrow> nat" where
  "bucket k = luaO_ceillog2 (of_nat k)"

lemma bucket_le: "0 < k \<Longrightarrow> k \<le> 2 ^ 31 \<Longrightarrow> j \<le> 31 \<Longrightarrow> bucket k \<le> j \<longleftrightarrow> k \<le> 2 ^ j"
proof
  assume k: "0 < k" "k \<le> 2 ^ 31" "bucket k \<le> j"
  have "(2 :: nat) ^ bucket k \<le> 2 ^ j" using k(3) by (rule power_increasing) simp
  then show "k \<le> 2 ^ j" using ceillog2_bounds(1) [OF k(1,2)] unfolding bucket_def by linarith
qed (auto simp: bucket_def intro: ceillog2_le)

lemma bucket_eq:
  assumes "k \<le> 2 ^ 31" "j \<le> 31" "(if j = 0 then 0 else 2 ^ (j - 1)) < k" "k \<le> 2 ^ j"
  shows "bucket k = j"
proof -
  have "0 < k" using assms(3) by simp
  then have "bucket k \<le> j" "j \<noteq> 0 \<Longrightarrow> \<not> bucket k \<le> j - 1" using bucket_le [of k j] bucket_le [of k "j - 1"] assms by auto
  then show ?thesis by (cases j) auto
qed

definition candidate :: "lua_key \<Rightarrow> bool" where "candidate k \<longleftrightarrow> arrayindex k \<noteq> 0"

definition tally :: "lua_key list \<Rightarrow> nat \<Rightarrow> nat" where
  "tally ks m = length (filter (\<lambda>k. candidate k \<and> bucket (arrayindex k) = m) ks)"

lemma tally_simps [simp]: "tally [] m = 0" "tally (ks @ ls) m = tally ks m + tally ls m"
  "tally (k # ks) m = (if candidate k \<and> bucket (arrayindex k) = m then 1 else 0) + tally ks m"
  by (simp_all add: tally_def)

lemma arrayindex_le: "arrayindex k \<le> 2 ^ 31"
  by (auto simp: arrayindex_def MAXASIZE_def MAXABITS_def split: lua_key.splits)

lemma candidate_bucket: "candidate k \<Longrightarrow> bucket (arrayindex k) < 32"
  using bucket_le [of "arrayindex k" 31] arrayindex_le [of k] by (simp add: candidate_def)

lemma arrayindex_int: "0 < j \<Longrightarrow> j \<le> 2 ^ 31 \<Longrightarrow> arrayindex (KInt (of_nat j)) = j"
proof -
  assume j: "0 < j" "j \<le> 2 ^ 31"
  have u: "unat (of_nat j :: u64) = j" using j by (simp add: unat_of_nat)
  then have "sint (of_nat j :: u64) = int j" using j by (simp add: sint_uint signed_take_bit_int_eq_self_iff uint_nat)
  then show ?thesis using u j by (simp add: arrayindex_def MAXASIZE_def MAXABITS_def)
qed

lemma kept_index: "m \<le> 31 \<Longrightarrow> kept (2 ^ m) k \<longleftrightarrow> candidate k \<and> bucket (arrayindex k) \<le> m"
proof -
  assume m: "m \<le> 31"
  have p: "(2 :: nat) ^ m \<le> 2 ^ 31" using m by (intro power_increasing) simp_all
  show ?thesis
  proof (cases "\<exists>i. k = KInt i")
    case True
    then obtain i where k: "k = KInt i" by blast
    show ?thesis
    proof (cases "0 < unat i \<and> unat i \<le> 2 ^ 31")
      case True
      define j where "j = unat i"
      have i: "i = of_nat j" by (simp add: j_def)
      have j: "0 < j" "j \<le> 2 ^ 31" using True by (simp_all add: j_def)
      have "unat (i - 1) = j - 1" using array_index [of "j - 1" i] i j by simp
      then have "kept (2 ^ m) k \<longleftrightarrow> j \<le> 2 ^ m" using j(1) by (auto simp: kept_def k)
      then show ?thesis using arrayindex_int [OF j] bucket_le [OF j m] j(1) by (simp add: candidate_def k i)
    next
      case False
      then have "arrayindex k = 0" by (auto simp: arrayindex_def k MAXASIZE_def MAXABITS_def)
      moreover have "\<not> unat (i - 1) < 2 ^ m"
      proof
        assume a: "unat (i - 1) < 2 ^ m"
        then have "of_nat (unat (i - 1) + 1) = i" using array_index [of "unat (i - 1)" i] p by simp
        moreover have "unat (of_nat (unat (i - 1) + 1) :: u64) = unat (i - 1) + 1"
          by (subst unat_of_nat, rule mod_less) (use a p in simp)
        ultimately have "unat i = unat (i - 1) + 1" by metis
        then show False using False a p by simp
      qed
      ultimately show ?thesis by (simp add: kept_def candidate_def k)
    qed
  next
    case False
    then show ?thesis by (auto simp: kept_def candidate_def arrayindex_def split: lua_key.splits)
  qed
qed

definition add_tally :: "nat list \<Rightarrow> lua_key list \<Rightarrow> nat list" where
  "add_tally nums ks = map (\<lambda>m. nums ! m + tally ks m) [0..<32]"

lemma add_tally_Nil: "length nums = 32 \<Longrightarrow> add_tally nums [] = nums"
  using map_nth [of nums] by (simp add: add_tally_def)

lemma add_tally_append: "add_tally (add_tally nums ks) ls = add_tally nums (ks @ ls)"
  by (simp add: add_tally_def)

lemma length_add_tally [simp]: "length (add_tally nums ks) = 32"
  by (simp add: add_tally_def)

lemma countint_tally:
  "length nums = 32 \<Longrightarrow> countint k nums = (if candidate k then 1 else 0, add_tally nums [k])"
proof (cases "candidate k")
  case True
  assume n: "length nums = 32"
  let ?b = "bucket (arrayindex k)"
  have "nums[?b := nums ! ?b + 1] = add_tally nums [k]"
    using n True by (intro nth_equalityI) (auto simp: add_tally_def nth_list_update)
  then show ?thesis using True by (simp add: countint_def candidate_def bucket_def Let_def)
next
  case False
  assume n: "length nums = 32"
  then have "nums = add_tally nums [k]" using False by (intro nth_equalityI) (auto simp: add_tally_def)
  then show ?thesis using False by (simp add: countint_def candidate_def Let_def)
qed

lemma numusehash_loop_tally:
  "length nums = 32 \<Longrightarrow> numusehash_loop ns nums ause tot =
     (tot + length (node_list ns), ause + length (filter candidate (map fst (node_list ns))), add_tally nums (map fst (node_list ns)))"
proof (induction ns arbitrary: nums ause tot)
  case Nil
  then show ?case by (simp add: add_tally_Nil)
next
  case (Cons n ns)
  show ?case
  proof (cases "nd_val n")
    case None
    then show ?thesis using Cons by simp
  next
    case (Some v)
    then show ?thesis
      using Cons.IH [of "add_tally nums [nd_key n]"] countint_tally [OF Cons.prems] by (simp add: add_tally_append)
  qed
qed


section \<open>Counting the array part\<close>

definition array_keys :: "'v option list \<Rightarrow> nat \<Rightarrow> nat \<Rightarrow> lua_key list" where
  "array_keys arr i lim = map (\<lambda>j. KInt (of_nat j)) (filter (\<lambda>j. arr ! (j - 1) \<noteq> None) [i..<Suc lim])"

lemma count_slice_keys: "count_slice arr i lim = length (array_keys arr i lim)"
  by (simp add: count_slice_def array_keys_def)

lemma array_keys_split: "i \<le> Suc lim \<Longrightarrow> lim \<le> n \<Longrightarrow> array_keys arr i n = array_keys arr i lim @ array_keys arr (Suc lim) n"
proof -
  assume "i \<le> Suc lim" "lim \<le> n"
  then have "[i..<Suc n] = [i..<Suc lim] @ [Suc lim..<Suc n]" by (metis Suc_le_mono le_Suc_ex upt_add_eq_append)
  then show ?thesis by (simp add: array_keys_def)
qed

lemma array_keys_candidate: "0 < i \<Longrightarrow> n \<le> 2 ^ 31 \<Longrightarrow> k \<in> set (array_keys arr i n) \<Longrightarrow> candidate k"
  using arrayindex_int by (fastforce simp: array_keys_def candidate_def)

lemma tally_array_keys:
  assumes "lg \<le> 31" "lim \<le> 2 ^ lg" "(if lg = 0 then 0 else 2 ^ (lg - 1)) < i"
  shows "tally (array_keys arr i lim) m = (if m = lg then count_slice arr i lim else 0)"
proof -
  have p: "(2 :: nat) ^ lg \<le> 2 ^ 31" using assms(1) by (intro power_increasing) simp_all
  have "bucket (arrayindex k) = lg \<and> candidate k" if k: "k \<in> set (array_keys arr i lim)" for k
  proof -
    obtain j where j: "k = KInt (of_nat j)" "i \<le> j" "j \<le> lim"
      using k by (auto simp: array_keys_def simp del: upt_Suc)
    have r: "0 < j" "j \<le> 2 ^ 31" "j \<le> 2 ^ lg" "(if lg = 0 then 0 else 2 ^ (lg - 1)) < j" using j assms p by (auto split: if_splits)
    show ?thesis using arrayindex_int [OF r(1,2)] bucket_eq [OF r(2) assms(1) r(4,3)] r(1) by (simp add: j(1) candidate_def)
  qed
  then have "filter (\<lambda>k. candidate k \<and> bucket (arrayindex k) = m) (array_keys arr i lim) = (if m = lg then array_keys arr i lim else [])"
    by (auto simp: filter_id_conv filter_empty_conv)
  then show ?thesis by (simp add: tally_def count_slice_keys)
qed

lemma numusearray_loop_tally:
  "length arr \<le> 2 ^ 31 \<Longrightarrow> length nums = 32 \<Longrightarrow> lg \<le> 32 \<Longrightarrow>
   i = (if lg = 0 then 0 else min (2 ^ (lg - 1)) (length arr)) + 1 \<Longrightarrow>
   numusearray_loop arr lg i nums ause =
     (ause + length (array_keys arr i (length arr)), add_tally nums (array_keys arr i (length arr)))"
proof (induction arr lg i nums ause rule: numusearray_loop.induct)
  case (1 arr lg i nums ause)
  let ?n = "length arr"
  have stop: "array_keys arr i ?n = []" if "?n < i" using that by (simp add: array_keys_def)
  show ?case
  proof (cases "lg > MAXABITS")
    case True
    then have "lg = 32" using "1.prems"(3) by (simp add: MAXABITS_def)
    then have "?n < i" using "1.prems"(1,4) by simp
    then show ?thesis using True stop "1.prems"(2) by (subst numusearray_loop.simps) (simp add: add_tally_Nil)
  next
    case lg: False
    then have l31: "lg \<le> 31" by (simp add: MAXABITS_def)
    show ?thesis
    proof (cases "2 ^ lg > ?n \<and> i > ?n")
      case True
      then show ?thesis using lg stop "1.prems"(2) by (subst numusearray_loop.simps) (simp add: add_tally_Nil)
    next
      case go: False
      let ?lim = "min (2 ^ lg) ?n"
      have dbl: "(if lg = 0 then 0 else 2 ^ (lg - 1)) < (2 :: nat) ^ lg" by (cases lg) simp_all
      have "(if lg = 0 then 0 else min (2 ^ (lg - 1)) ?n) \<le> ?lim"
        using dbl by (intro min.boundedI) (auto split: if_splits intro: min.coboundedI1)
      then have i: "i \<le> Suc ?lim" "max i (?lim + 1) = ?lim + 1" using "1.prems"(4) by linarith+
      have low: "count_slice arr i ?lim = 0 \<or> (if lg = 0 then 0 else 2 ^ (lg - 1)) < i"
      proof (cases "lg = 0 \<or> 2 ^ (lg - 1) \<le> ?n")
        case True
        then show ?thesis using "1.prems"(4) by (auto split: if_splits)
      next
        case False
        then have "i = ?n + 1" using "1.prems"(4) by simp
        then show ?thesis by (simp add: count_slice_def)
      qed
      then have t: "tally (array_keys arr i ?lim) m = (if m = lg then count_slice arr i ?lim else 0)" for m
        using tally_array_keys [OF l31, of ?lim i arr m] by (auto simp: count_slice_keys)
      have nums: "nums[lg := nums ! lg + count_slice arr i ?lim] = add_tally nums (array_keys arr i ?lim)"
        using "1.prems"(2) l31 by (intro nth_equalityI) (auto simp: add_tally_def t nth_list_update)
      have split: "array_keys arr i ?n = array_keys arr i ?lim @ array_keys arr (?lim + 1) ?n"
        using array_keys_split [OF i(1), of ?n arr] by simp
      have eq: "numusearray_loop arr lg i nums ause = numusearray_loop arr (lg + 1) (?lim + 1)
          (add_tally nums (array_keys arr i ?lim)) (ause + count_slice arr i ?lim)"
        by (subst numusearray_loop.simps) (simp only: Let_def if_not_P [OF lg] if_not_P [OF go] i(2) nums)
      have "numusearray_loop arr (lg + 1) (?lim + 1) (add_tally nums (array_keys arr i ?lim)) (ause + count_slice arr i ?lim) =
          (ause + count_slice arr i ?lim + length (array_keys arr (?lim + 1) ?n),
           add_tally (add_tally nums (array_keys arr i ?lim)) (array_keys arr (?lim + 1) ?n))"
        using "1.IH" [OF lg go refl refl] "1.prems" l31 i(2) nums by simp
      then show ?thesis unfolding eq by (simp add: split add_tally_append count_slice_keys)
    qed
  qed
qed

lemma slice_list_keys: "map fst (slice_list i vs) = map (\<lambda>j. KInt (of_nat j)) (filter (\<lambda>j. vs ! (j - Suc i) \<noteq> None) [Suc i..<Suc (i + length vs)])"
proof (induction i vs rule: slice_list.induct)
  case (2 i v vs)
  have u: "[Suc i..<Suc (i + length (v # vs))] = Suc i # [Suc (i + 1)..<Suc (i + 1 + length vs)]"
    using upt_conv_Cons [of "Suc i" "Suc (i + length (v # vs))"] by simp
  have "filter (\<lambda>j. (v # vs) ! (j - Suc i) \<noteq> None) [Suc (i + 1)..<Suc (i + 1 + length vs)] =
      filter (\<lambda>j. vs ! (j - Suc (i + 1)) \<noteq> None) [Suc (i + 1)..<Suc (i + 1 + length vs)]"
    by (rule filter_cong) (auto simp: nth_Cons' Suc_diff_Suc)
  then show ?case using 2 unfolding u by (auto split: option.split simp del: upt_Suc)
qed simp

end
