(* ===== verification/LuaTableRehash.thy ===== *)
theory LuaTableRehash
  imports LuaTableMap
begin

text \<open>
  Rehashing: the counts of \<open>numusearray\<close> and \<open>numusehash\<close>, the optimal size of \<open>computesizes\<close>, the room
  a rehash makes, and with it the law of a store into a table. Traversal and length at the end.
\<close>


section \<open>The size of the array part\<close>

definition upto_slice :: "nat list \<Rightarrow> nat \<Rightarrow> nat" where
  "upto_slice nums i = sum_list (take (i + 1) nums)"

lemma upto_slice_Suc: "Suc i < length nums \<Longrightarrow> upto_slice nums (Suc i) = upto_slice nums i + nums ! Suc i"
  by (simp add: upto_slice_def take_Suc_conv_app_nth)

text \<open>Slice \<open>i\<close> holds at most the keys from \<open>2 ^ (i - 1) + 1\<close> to \<open>2 ^ i\<close>.\<close>

definition slices_fit :: "nat list \<Rightarrow> bool" where
  "slices_fit nums \<longleftrightarrow> nums ! 0 \<le> 1 \<and> (\<forall>i. 1 \<le> i \<and> i < 32 \<longrightarrow> nums ! i \<le> 2 ^ (i - 1))"

definition best_size :: "nat list \<Rightarrow> nat \<Rightarrow> nat \<Rightarrow> nat \<Rightarrow> bool" where
  "best_size nums i asize na \<longleftrightarrow>
     asize = 0 \<and> na = 0 \<and> (slices_fit nums \<longrightarrow> (\<forall>k < i. upto_slice nums k \<le> 2 ^ k div 2)) \<or>
     (\<exists>j < i. asize = 2 ^ j \<and> na = upto_slice nums j \<and> 2 ^ j div 2 < na \<and>
        (slices_fit nums \<longrightarrow> (\<forall>k < i. j < k \<longrightarrow> upto_slice nums k \<le> 2 ^ k div 2)))"

lemma upto_slice_step: "i < length nums \<Longrightarrow> upto_slice nums i = sum_list (take i nums) + nums ! i"
  by (simp add: upto_slice_def take_Suc_conv_app_nth)

lemma slices_sum: "slices_fit nums \<Longrightarrow> length nums = 32 \<Longrightarrow> i < 32 \<Longrightarrow> upto_slice nums i \<le> 2 ^ i"
proof (induction i)
  case 0
  then show ?case by (simp add: slices_fit_def upto_slice_step)
next
  case (Suc i)
  have "nums ! Suc i \<le> 2 ^ i" using Suc.prems unfolding slices_fit_def by (metis diff_Suc_1 le_add1 plus_1_eq_Suc)
  moreover have "upto_slice nums (Suc i) = upto_slice nums i + nums ! Suc i"
    using Suc.prems by (simp add: upto_slice_Suc)
  ultimately show ?case using Suc by simp
qed

lemma best_skip:
  assumes "best_size nums i asize na" "slices_fit nums \<longrightarrow> upto_slice nums i \<le> 2 ^ i div 2"
  shows "best_size nums (Suc i) asize na"
  using assms unfolding best_size_def by (auto simp: less_Suc_eq)

lemma best_take:
  assumes "upto_slice nums i > 2 ^ i div 2"
  shows "best_size nums (Suc i) (2 ^ i) (upto_slice nums i)"
  using assms unfolding best_size_def by auto

lemma computesizes_loop_best:
  assumes "length nums = 32" "sum_list nums = pna" "pna \<le> 2 ^ 30"
  shows "i \<le> 31 \<Longrightarrow> tw = of_nat (2 ^ i) \<Longrightarrow> a = sum_list (take i nums) \<Longrightarrow> best_size nums i optimal na \<Longrightarrow>
    \<exists>asize n. computesizes_loop nums pna i tw a na optimal = Inr (asize, n) \<and> best_size nums 32 asize n"
  using assms
proof (induction nums pna i tw a na optimal rule: computesizes_loop.induct)
  case (1 nums pna i tw a na optimal)
  have p: "(2 :: nat) ^ i \<le> 2 ^ 31" using "1.prems"(1) by (intro power_increasing) simp_all
  then have u: "unat tw = 2 ^ i" unfolding "1.prems"(2) by (subst unat_of_nat, intro mod_less) simp
  then have half: "unat (tw div 2) = 2 ^ i div 2" by (simp add: unat_div)
  show ?case
  proof (cases "pna > unat (tw div 2)")
    case False
    have "best_size nums (i + m) optimal na" if "i + m \<le> 32" for m
      using that
    proof (induction m)
      case 0
      then show ?case using "1.prems"(4) by simp
    next
      case (Suc m)
      have "upto_slice nums (i + m) \<le> pna"
        using "1.prems"(6) sum_list_append [of "take (i + m + 1) nums" "drop (i + m + 1) nums"] by (simp add: upto_slice_def)
      moreover have "(2 :: nat) ^ i div 2 \<le> 2 ^ (i + m) div 2" by (intro div_le_mono power_increasing) simp_all
      ultimately have "upto_slice nums (i + m) \<le> 2 ^ (i + m) div 2" using False half by linarith
      then show ?case using best_skip Suc by simp
    qed
    from this [of "32 - i"] show ?thesis
      using False "1.prems"(1) by (subst computesizes_loop.simps) auto
  next
    case True
    have "i \<noteq> 31" using True half "1.prems"(7) by auto
    then have i: "i + 1 \<le> 31" "i < length nums" using "1.prems"(1,5) by simp_all
    have tw: "tw * 2 = of_nat (2 ^ (i + 1))" using "1.prems"(2) by simp
    have a1: "a + nums ! i = upto_slice nums i" "sum_list (take (i + 1) nums) = upto_slice nums i"
      using "1.prems"(3) upto_slice_step [OF i(2)] by (simp_all add: upto_slice_def)
    have zero: "slices_fit nums \<longrightarrow> upto_slice nums i \<le> 2 ^ i div 2" if "nums ! i = 0"
    proof (intro impI, cases i)
      case 0
      then show "upto_slice nums i \<le> 2 ^ i div 2" using that i(2) by (simp add: upto_slice_step)
    next
      case (Suc k)
      assume "slices_fit nums"
      then have "upto_slice nums k \<le> 2 ^ k" using slices_sum [of nums k] Suc "1.prems"(1,5) by simp
      then show "upto_slice nums i \<le> 2 ^ i div 2" using that i(2) Suc by (simp add: upto_slice_Suc)
    qed
    consider (empty) "nums ! i = 0" | (more) "nums ! i > 0" "upto_slice nums i > unat (tw div 2)"
      | (few) "nums ! i > 0" "\<not> upto_slice nums i > unat (tw div 2)" by blast
    then show ?thesis
    proof cases
      case empty
      then have "a = sum_list (take (i + 1) nums)" using a1 by simp
      moreover have "computesizes_loop nums pna i tw a na optimal = computesizes_loop nums pna (i + 1) (tw * 2) a na optimal"
        using True i empty by (subst computesizes_loop.simps) simp
      ultimately show ?thesis
        using "1.IH"(3) [OF True _ _ i(1) tw] empty i(2) best_skip [OF "1.prems"(4) zero] "1.prems"(5-7) by simp
    next
      case more
      have "computesizes_loop nums pna i tw a na optimal =
          computesizes_loop nums pna (i + 1) (tw * 2) (upto_slice nums i) (upto_slice nums i) (2 ^ i)"
        using True i more a1(1) u by (subst computesizes_loop.simps) (simp add: Let_def)
      then show ?thesis
        using "1.IH"(1) [OF True _ _ refl _ i(1) tw] more i(2) a1 u best_take [of i nums] half "1.prems"(5-7) by simp
    next
      case few
      have "computesizes_loop nums pna i tw a na optimal = computesizes_loop nums pna (i + 1) (tw * 2) (upto_slice nums i) na optimal"
        using True i few a1(1) u by (subst computesizes_loop.simps) (simp add: Let_def)
      then show ?thesis
        using "1.IH"(2) [OF True _ _ refl _ i(1) tw] few i(2) a1 best_skip [OF "1.prems"(4)] half "1.prems"(5-7) by simp
    qed
  qed
qed

lemma computesizes_best:
  assumes "length nums = 32" "sum_list nums = pna" "pna \<le> 2 ^ 30"
  shows "\<exists>asize na. computesizes nums pna = Inr (asize, na) \<and> best_size nums 32 asize na"
  unfolding computesizes_def
  by (rule computesizes_loop_best [OF assms]) (simp_all add: best_size_def)

text \<open>C26: 
  \<open>computesizes\<close> returns the largest power of two such that more than half of the slots up to it would
  be in use, with the number of keys that go there, and 0 if there is none; the keys counted may be up
  to \<open>2 ^ 30\<close> many.
\<close>

theorem computesizes_optimal:
  assumes "length nums = 32" "slices_fit nums" "sum_list nums \<le> 2 ^ 30"
  shows "\<exists>asize na. computesizes nums (sum_list nums) = Inr (asize, na) \<and>
    (asize = 0 \<and> na = 0 \<and> (\<forall>k < 32. upto_slice nums k \<le> 2 ^ k div 2) \<or>
     (\<exists>j < 32. asize = 2 ^ j \<and> na = upto_slice nums j \<and> 2 ^ j div 2 < na \<and> (\<forall>k < 32. j < k \<longrightarrow> upto_slice nums k \<le> 2 ^ k div 2)))"
  using computesizes_best [OF assms(1) refl assms(3)] assms(2) unfolding best_size_def by simp

theorem computesizes_optimal_witness:
  "\<exists>asize na. computesizes ([1, 1, 1, 0, 2] @ replicate 27 0) 5 = Inr (asize, na) \<and> (asize = 0 \<or> (\<exists>j < 32. asize = 2 ^ j))"
proof -
  let ?n = "[1, 1, 1, 0, 2] @ replicate 27 0 :: nat list"
  have n: "length ?n = 32" "sum_list ?n = 5" by simp_all
  have small: "?n ! i \<le> 2 ^ (i - 1)" if i: "1 \<le> i" "i < 32" for i
  proof (cases "i < 5")
    case True
    then consider "i = 1" | "i = 2" | "i = 3" | "i = 4" using i(1) by linarith
    then show ?thesis by cases simp_all
  next
    case False
    then obtain k where k: "i = 5 + k" by (metis le_Suc_ex not_less)
    have "?n ! (length [1, 1, 1, 0, 2 :: nat] + k) = replicate 27 0 ! k" by (rule nth_append_length_plus)
    then show ?thesis using i(2) by (simp add: k)
  qed
  have "?n ! 0 \<le> 1" by simp
  then have "slices_fit ?n" unfolding slices_fit_def using small by blast
  moreover have "sum_list ?n \<le> 2 ^ 30" unfolding n(2) by simp
  ultimately show ?thesis using computesizes_optimal [OF n(1)] unfolding n(2) by blast
qed


lemma overrun_loop:
  "length nums = 32 \<Longrightarrow> 2 ^ 30 < pna \<Longrightarrow> i \<le> 32 \<Longrightarrow> tw = of_nat (2 ^ i) \<Longrightarrow>
   computesizes_loop nums pna i tw a na optimal = Inl OutOfBounds"
proof (induction nums pna i tw a na optimal rule: computesizes_loop.induct)
  case (1 nums pna i tw a na optimal)
  have go: "pna > unat (tw div 2)"
  proof (cases "i = 32")
    case True
    then show ?thesis using "1.prems"(2,4) by simp
  next
    case False
    then have i: "i \<le> 31" using "1.prems"(3) by simp
    then have p: "(2 :: nat) ^ i \<le> 2 ^ 31" by (intro power_increasing) simp_all
    then have "unat tw = 2 ^ i" unfolding "1.prems"(4) by (subst unat_of_nat, intro mod_less) simp
    then have "unat (tw div 2) \<le> 2 ^ 30" using p by (simp add: unat_div)
    then show ?thesis using "1.prems"(2) by linarith
  qed
  show ?case
  proof (cases "i = 32")
    case True
    then show ?thesis using go "1.prems"(1) by (subst computesizes_loop.simps) simp
  next
    case False
    then have i: "\<not> i \<ge> length nums" "i + 1 \<le> 32" "tw * 2 = of_nat (2 ^ (i + 1))" using "1.prems" by simp_all
    show ?thesis
      by (subst computesizes_loop.simps, unfold Let_def if_P [OF go] if_not_P [OF i(1)])
        (use "1.IH" [OF go i(1)] "1.prems"(1,2) i in \<open>auto simp: Let_def\<close>)
  qed
qed

lemma overrun_computesizes: "length nums = 32 \<Longrightarrow> 2 ^ 30 < pna \<Longrightarrow> computesizes nums pna = Inl OutOfBounds"
  unfolding computesizes_def by (rule overrun_loop) simp_all

text \<open>
  With more than \<open>2 ^ 30\<close> integer keys the candidate size wraps to 0 before the loop ends, and
  \<open>computesizes\<close> reads behind \<open>nums\<close>.
\<close>

theorem computesizes_overruns:
  assumes "length nums = 32" "2 ^ 30 < pna"
  shows "computesizes nums pna = Inl OutOfBounds"
  by (rule overrun_computesizes [OF assms])

theorem computesizes_overruns_witness: "computesizes (replicate 31 0 @ [2 ^ 30 + 1]) (2 ^ 30 + 1) = Inl OutOfBounds"
  by (rule computesizes_overruns) simp_all

section \<open>Rehashing makes room\<close>

definition live_keys :: "'v table \<Rightarrow> lua_key list" where
  "live_keys t = map fst (slice_list 0 (tb_array t) @ node_list (rev (tb_node t)))"

lemma slice_list_append: "slice_list i (vs @ ws) = slice_list i vs @ slice_list (i + length vs) ws"
  by (induction i vs rule: slice_list.induct) (simp_all add: add.assoc)

lemma displaced_live:
  assumes "n \<le> 2 ^ 31"
  shows "displaced t n = length (filter (\<lambda>k. \<not> kept n k) (live_keys t))"
proof -
  have low: "kept n k" if k: "k \<in> set (map fst (slice_list 0 (take n (tb_array t))))" for k
  proof -
    obtain v where v: "(k, v) \<in> set (slice_list 0 (take n (tb_array t)))" using k by auto
    then obtain j where j0: "j < length (take n (tb_array t))" "k = KInt (of_nat (0 + j + 1))" unfolding set_slice_list by blast
    have j: "j < n" "k = KInt (of_nat (j + 1))" using j0(1) j0(2) by (simp, simp only: add_0)
    have "unat (of_nat (j + 1) - 1 :: u64) = j" using array_index [of j "of_nat (j + 1)"] j(1) assms by simp
    then have "unat (of_nat (j + 1) - 1 :: u64) < n" using j(1) by metis
    then show ?thesis using j(2) unfolding kept_def by blast
  qed
  have "slice_list 0 (tb_array t) = slice_list 0 (take n (tb_array t)) @ (if n < sizearray t then slice_list n (drop n (tb_array t)) else [])"
    using slice_list_append [of 0 "take n (tb_array t)" "drop n (tb_array t)"] by (auto simp: sizearray_def)
  then have "live_keys t = map fst (slice_list 0 (take n (tb_array t))) @ map fst (moved_pairs t n)"
    by (simp add: live_keys_def moved_pairs_def)
  moreover have "filter (\<lambda>k. \<not> kept n k) (map fst (slice_list 0 (take n (tb_array t)))) = []" using low by (simp add: filter_empty_conv)
  ultimately show ?thesis by (simp add: displaced_def filter_map comp_def case_prod_unfold)
qed

lemma slice_list_length: "length (slice_list i vs) \<le> length vs"
  by (induction i vs rule: slice_list.induct) (auto split: option.split)

lemma node_list_length: "length (node_list ns) \<le> length ns"
  by (induction ns) (auto split: option.split)

lemma array_keys_slice: "array_keys arr 1 (length arr) = map fst (slice_list 0 arr)"
  by (simp add: slice_list_keys array_keys_def del: upt_Suc)

lemma upto_tally: "m < 32 \<Longrightarrow> upto_slice (add_tally (replicate 32 0) ks) m = length (filter (kept (2 ^ m)) ks)"
proof -
  assume m: "m < 32"
  have n: "add_tally (replicate 32 0) ks = map (tally ks) [0..<32]" by (auto simp: add_tally_def)
  have s: "sum_list (map (tally ks) [0..<n]) = length (filter (\<lambda>k. candidate k \<and> bucket (arrayindex k) < n) ks)" for n
  proof (induction ks)
    case (Cons k ks)
    have "sum_list (map (\<lambda>m. (if P \<and> b = m then 1 else 0) + f m) [0..<n]) = (if P \<and> b < n then 1 else 0) + sum_list (map f [0..<n])"
      for P and b :: nat and f :: "nat \<Rightarrow> nat"
      by (induction n) auto
    then show ?case using Cons by simp
  qed (simp add: sum_list_triv)
  have "upto_slice (add_tally (replicate 32 0) ks) m = sum_list (map (tally ks) [0..<Suc m])"
    using m unfolding n upto_slice_def by (simp add: take_map min_def)
  also have "\<dots> = length (filter (kept (2 ^ m)) ks)"
  proof -
    have "kept (2 ^ m) = (\<lambda>k. candidate k \<and> bucket (arrayindex k) < Suc m)"
      using kept_index [of m] m by (simp add: fun_eq_iff less_Suc_eq_le)
    then show ?thesis unfolding s by simp
  qed
  finally show ?thesis .
qed

lemma sum_tally: "sum_list (add_tally (replicate 32 0) ks) = length (filter candidate ks)"
proof -
  have "sum_list (add_tally (replicate 32 0) ks) = upto_slice (add_tally (replicate 32 0) ks) 31"
    by (simp add: upto_slice_def add_tally_def)
  also have "kept (2 ^ 31) = candidate"
    using kept_index [of 31] candidate_bucket by (auto simp: fun_eq_iff less_Suc_eq_le dest: candidate_bucket)
  then have "upto_slice (add_tally (replicate 32 0) ks) 31 = length (filter candidate ks)" using upto_tally [of 31 ks] by simp
  finally show ?thesis .
qed


lemma rehash_eq:
  assumes inv: "tab_inv g t"
  shows "rehash grow g t ek =
    (let ks = live_keys t @ [ek] in
     bindT (computesizes (add_tally (replicate 32 0) ks) (length (filter candidate ks)))
       (\<lambda>(asize, na). luaH_resize grow g t asize (length ks - na)))"
proof -
  let ?A = "map fst (slice_list 0 (tb_array t))" and ?N = "map fst (node_list (rev (tb_node t)))"
  have small: "length (tb_array t) \<le> 2 ^ 31" using tab_invD(4) [OF inv] by (simp add: sizearray_def)
  have "numusearray t (replicate (MAXABITS + 1) 0) = (length ?A, add_tally (replicate 32 0) ?A)"
    using numusearray_loop_tally [OF small, of "replicate 32 0" 0 1 0]
    by (simp add: numusearray_def MAXABITS_def array_keys_slice [symmetric])
  moreover have "numusehash t nums pna = (length ?N, pna + length (filter candidate ?N), add_tally nums ?N)" if "length nums = 32" for nums pna
    using numusehash_loop_tally [OF that, of "rev (tb_node t)" 0 0] by (simp add: numusehash_def)
  moreover have "filter candidate ?A = ?A"
    by (rule filter_True) (use array_keys_candidate [OF zero_less_one small, of _ "tb_array t"] in \<open>unfold array_keys_slice, blast\<close>)
  ultimately show ?thesis
    by (simp add: rehash_def countint_tally add_tally_append live_keys_def Let_def)
qed

lemma live_keys_length: "tab_inv g t \<Longrightarrow> length (live_keys t) \<le> sizearray t + sizenode t"
  using slice_list_length [of 0 "tb_array t"] node_list_length [of "rev (tb_node t)"] tab_invD(1)
  by (fastforce simp: live_keys_def sizearray_def)

lemma resize_overflow:
  assumes "2 ^ 30 < sz" "sz < 2 ^ 32"
  shows "luaH_resize grow g t n sz = Inl TableOverflow"
proof -
  have u: "unat (of_nat sz :: u32) = sz" using assms(2) by (simp add: unat_of_nat)
  then have "(of_nat sz :: u32) \<noteq> 0" using assms(1) by (metis not_less0 unsigned_0)
  from ceillog2_exact [OF this] have "sz \<le> 2 ^ luaO_ceillog2 (of_nat sz)" unfolding u by simp
  moreover have "luaO_ceillog2 (of_nat sz) \<le> 30 \<Longrightarrow> (2 :: nat) ^ luaO_ceillog2 (of_nat sz) \<le> 2 ^ 30" by (intro power_increasing) simp_all
  ultimately have "luaO_ceillog2 (of_nat sz) > MAXHBITS" using assms(1) unfolding MAXHBITS_def MAXABITS_def by linarith
  then have "setnodevector sz u = Inl TableOverflow" for u :: "'a table"
    using assms(1) by (simp add: setnodevector_def Let_def)
  then show ?thesis by (simp add: luaH_resize_def Let_def)
qed

lemma best_size_facts:
  assumes "best_size (add_tally (replicate 32 0) ks) 32 asize na"
  shows "asize \<le> 2 ^ 31" "na = length (filter (kept asize) ks)"
  using assms unfolding best_size_def
proof (atomize (full), elim disjE exE conjE)
  assume "asize = 0" "na = 0"
  then show "asize \<le> 2 ^ 31 \<and> na = length (filter (kept asize) ks)" by (simp add: kept_def)
next
  fix j assume j: "j < 32" "asize = 2 ^ j" "na = upto_slice (add_tally (replicate 32 0) ks) j"
  then have "(2 :: nat) ^ j \<le> 2 ^ 31" by (intro power_increasing) simp_all
  then show "asize \<le> 2 ^ 31 \<and> na = length (filter (kept asize) ks)" using j upto_tally [OF j(1), of ks] by simp
qed

lemma rehash_cases:
  assumes inv: "tab_inv g t"
  obtains (ok) t1 where "rehash grow g t ek = Inr t1" "tab_inv g t1"
      "\<And>l. normal_key g l \<Longrightarrow> tab_val g t1 l = tab_val g t l"
      "in_array t1 ek \<or> \<not> tb_dummy t1 \<and> card (used_nodes (tb_node t1)) < sizenode t1"
  | (huge) e where "rehash grow g t ek = Inl e" "e = TableOverflow \<or> e = OutOfBounds" "2 ^ 30 \<le> sizearray t + sizenode t"
proof -
  let ?ks = "live_keys t @ [ek]" let ?nums = "add_tally (replicate 32 0) ?ks"
  have len: "length ?ks \<le> sizearray t + sizenode t + 1" using live_keys_length [OF inv] by simp
  have sz: "sizearray t \<le> 2 ^ 31" "sizenode t \<le> 2 ^ 30"
    using tab_invD(2,4) [OF inv] power_increasing [of "tb_lsizenode t" 30 "2 :: nat"] by (simp_all add: sizenode_def)
  have cand: "length (filter candidate ?ks) \<le> length ?ks" by (rule length_filter_le)
  have over: "2 ^ 30 \<le> sizearray t + sizenode t" if "2 ^ 30 < length ?ks - m" for m
    using that len by simp
  show ?thesis
  proof (cases "length (filter candidate ?ks) \<le> 2 ^ 30")
    case False
    then have "computesizes ?nums (length (filter candidate ?ks)) = Inl OutOfBounds" by (intro overrun_computesizes) simp_all
    then show ?thesis using huge over [of 0] False cand by (simp add: rehash_eq [OF inv] Let_def)
  next
    case True
    then obtain asize na where c: "computesizes ?nums (length (filter candidate ?ks)) = Inr (asize, na)" "best_size ?nums 32 asize na"
      using computesizes_best [of ?nums "length (filter candidate ?ks)"] sum_tally [of ?ks] by auto
    have re: "rehash grow g t ek = luaH_resize grow g t asize (length ?ks - na)"
      using c(1) by (simp add: rehash_eq [OF inv] Let_def)
    show ?thesis
    proof (cases "length ?ks - na \<le> 2 ^ 30")
      case False
      then have "luaH_resize grow g t asize (length ?ks - na) = Inl TableOverflow"
        by (intro resize_overflow) (use len sz in simp_all)
      then show ?thesis using huge over [of na] False re by simp
    next
      case small: True
      have part: "length (filter (kept asize) xs) + length (filter (\<lambda>k. \<not> kept asize k) xs) = length xs" for xs
        by (rule sum_length_filter_compl)
      have d: "displaced t asize = length (filter (\<lambda>k. \<not> kept asize k) (live_keys t))"
        using displaced_live best_size_facts(1) [OF c(2)] by blast
      have total: "length ?ks - na = displaced t asize + (if kept asize ek then 0 else 1)"
        using part [of "live_keys t"] best_size_facts(2) [OF c(2)] d by auto
      from luaH_resize_spec [OF inv best_size_facts(1) [OF c(2)] small, of grow] total obtain t1 where t1:
        "luaH_resize grow g t asize (length ?ks - na) = Inr t1" "tab_inv g t1" "sizearray t1 = asize"
        "\<And>l. normal_key g l \<Longrightarrow> tab_val g t1 l = tab_val g t l"
        "tb_dummy t1 \<longleftrightarrow> length ?ks - na = 0" "length ?ks - na \<le> sizenode t1" "card (used_nodes (tb_node t1)) \<le> displaced t asize"
        by (metis le_add1)
      have "in_array t1 ek \<or> \<not> tb_dummy t1 \<and> card (used_nodes (tb_node t1)) < sizenode t1"
        using t1(3,5-7) total by (auto simp: in_array_kept split: if_splits)
      then show ?thesis using ok t1(1,2,4) re by metis
    qed
  qed
qed

lemma rehash_spec:
  assumes inv: "tab_inv g t" and small: "sizearray t + sizenode t < 2 ^ 30"
  obtains t1 where "rehash grow g t ek = Inr t1" "tab_inv g t1"
    "\<And>l. normal_key g l \<Longrightarrow> tab_val g t1 l = tab_val g t l"
    "in_array t1 ek \<or> \<not> tb_dummy t1 \<and> card (used_nodes (tb_node t1)) < sizenode t1"
  using inv by (cases rule: rehash_cases [where grow = grow and ek = ek]) (use small that in auto)

section \<open>A store that may grow the table\<close>

definition keeps_map :: "strings \<Rightarrow> 'v table \<Rightarrow> lua_key \<Rightarrow> 'v option \<Rightarrow> 'v table \<Rightarrow> bool" where
  "keeps_map g t k v t1 \<longleftrightarrow> tab_inv g t1 \<and>
     (\<forall>l. normal_key g l \<longrightarrow> tab_val g t1 l = (if luaV_rawequalobj g k l then v else tab_val g t l))"

lemma luaH_set_grow_store:
  "bindT (grow_insert (Suc depth) g t k) (\<lambda>(cell, t1). Inr (set_slot cell v t1)) =
   bindT (rehash (grow_insert depth g) g t k) (\<lambda>t1. raw_store (grow_insert depth g) g t1 k v)"
  by (simp add: bindT_assoc raw_store_def)

text \<open>One rehash is enough: after it there is a slot for the key. Only a huge table can fail to grow.\<close>

lemma raw_store_any:
  assumes inv: "tab_inv g t" and k: "normal_key g k"
  obtains (ok) t1 where "raw_store (grow_insert (Suc depth) g) g t k v = Inr t1" "keeps_map g t k v t1"
  | (huge) e where "raw_store (grow_insert (Suc depth) g) g t k v = Inl e" "e = TableOverflow \<or> e = OutOfBounds"
      "2 ^ 30 \<le> sizearray t + sizenode t" "tab_val g t k = None"
  using inv k
proof (cases rule: raw_store_spec [where grow = "grow_insert (Suc depth) g" and v = v])
  case (ok t1)
  then show ?thesis using that(1) by (simp add: keeps_map_def stored_def)
next
  case full
  let ?t = "t\<lparr>tb_lastfree := 0\<rparr>"
  have same: "entries ?t = entries t" by (simp add: entries_def array_pairs_def sizearray_def)
  then have "tab_val g ?t l = Some w \<longleftrightarrow> tab_val g t l = Some w" if "normal_key g l" for l w
    using tab_val_entries [OF full(4) that] tab_val_entries [OF inv that] by simp
  then have vals: "tab_val g ?t l = tab_val g t l" if "normal_key g l" for l using that by (metis not_Some_eq)
  from full(4) show ?thesis
  proof (cases rule: rehash_cases [where grow = "grow_insert depth g" and ek = k])
    case (ok t1)
    from raw_store_room [OF ok(2) k ok(4)] obtain t2 where t2: "raw_store (grow_insert depth g) g t1 k v = Inr t2" "stored g t1 k v t2"
      by blast
    then have "keeps_map g t k v t2" using ok(3) vals by (simp add: keeps_map_def stored_def)
    moreover have "raw_store (grow_insert (Suc depth) g) g t k v = Inr t2"
      unfolding full(3) luaH_set_grow_store ok(1) bindT.simps by (rule t2(1))
    ultimately show ?thesis using that(1) by blast
  next
    case (huge e)
    have "raw_store (grow_insert (Suc depth) g) g t k v = Inl e"
      unfolding full(3) luaH_set_grow_store huge(1) by simp
    moreover have "2 ^ 30 \<le> sizearray t + sizenode t" using huge(3) by (simp add: sizearray_def sizenode_def)
    moreover have "tab_val g t k = None"
      using inv k full(1,2)
      by (cases rule: luaH_get_spec) (use tab_invD(1) [OF inv] in \<open>auto simp: tab_val_def slot_val_def absent_def in_array_def\<close>)
    ultimately show ?thesis using that(2) huge(2) by blast
  qed
qed

lemma raw_store_grow:
  assumes inv: "tab_inv g t" and k: "normal_key g k" and small: "sizearray t + sizenode t < 2 ^ 30"
  shows "\<exists>t1. raw_store (grow_insert (Suc depth) g) g t k v = Inr t1 \<and> keeps_map g t k v t1"
  using inv k by (cases rule: raw_store_any [where depth = depth and v = v]) (use small in auto)

section \<open>Integral floats\<close>

lemma flt_ext:
  assumes "flt_neg a = flt_neg b" "flt_exp a = flt_exp b" "flt_man a = flt_man b"
  shows "a = b"
proof (rule bit_word_eqI)
  fix n :: nat assume n: "n < LENGTH(64)"
  have man: "x AND 0xFFFFFFFFFFFFF = take_bit 52 x" for x :: u64 by (simp add: take_bit_eq_mask mask_eq_exp_minus_1)
  have ex: "x AND 0x7FF = take_bit 11 x" for x :: u64 by (simp add: take_bit_eq_mask mask_eq_exp_minus_1)
  have m: "take_bit 52 a = take_bit 52 b" using assms(3) unfolding flt_man_def man by (rule unsigned_word_eqI)
  have e: "take_bit 11 (drop_bit 52 a) = take_bit 11 (drop_bit 52 b)" using assms(2) unfolding flt_exp_def ex by (rule unsigned_word_eqI)
  consider "n < 52" | "52 \<le> n" "n < 63" | "n = 63" using n by fastforce
  then show "bit a n = bit b n"
  proof cases
    case 1
    then show ?thesis using arg_cong [OF m, of "\<lambda>x. bit x n"] by (simp add: bit_take_bit_iff)
  next
    case 2
    then show ?thesis using arg_cong [OF e, of "\<lambda>x. bit x (n - 52)"] by (auto simp: bit_take_bit_iff bit_drop_bit_eq)
  next
    case 3
    then show ?thesis using assms(1) by (simp add: flt_neg_def)
  qed
qed

lemma flt_man_less: "flt_man b < 2 ^ 52"
proof -
  have "b AND 0xFFFFFFFFFFFFF = take_bit 52 b" by (simp add: take_bit_eq_mask mask_eq_exp_minus_1)
  then show ?thesis using take_bit_nat_less_exp [of 52 "unat b"] by (simp add: flt_man_def unsigned_take_bit_eq)
qed

text \<open>The magnitude of a finite float in units of \<open>2 ^ -1074\<close>.\<close>

definition flt_mag :: "u64 \<Rightarrow> nat" where
  "flt_mag b = (if flt_exp b = 0 then flt_man b else (2 ^ 52 + flt_man b) * 2 ^ (flt_exp b - 1))"

lemma scaled_inj:
  assumes "p \<le> x" "x < 2 * p" "p \<le> y" "y < 2 * p" "x * 2 ^ i = y * 2 ^ j" "0 < (p :: nat)"
  shows "i = j \<and> x = y"
proof -
  have "\<not> i < j" if "p \<le> x" "x < 2 * p" "p \<le> y" "y < 2 * p" "x * 2 ^ i = y * 2 ^ j" for x y i j :: nat
  proof
    assume "i < j"
    then obtain d where d: "j = i + Suc d" using less_iff_Suc_add by auto
    then have "x = y * 2 ^ Suc d" using that(5) by (simp add: power_add mult.assoc [symmetric]) 
    moreover have "y * 2 \<le> y * 2 ^ Suc d" by simp
    ultimately show False using that(2,3) by linarith
  qed
  then have "i = j" using assms by (metis linorder_neqE_nat)
  then show ?thesis using assms(5) by simp
qed

lemma flt_mag_inj: "flt_mag a = flt_mag b \<Longrightarrow> flt_exp a = flt_exp b \<and> flt_man a = flt_man b"
proof -
  assume e: "flt_mag a = flt_mag b"
  have small: "flt_exp c = 0 \<longleftrightarrow> flt_mag c < 2 ^ 52" for c
  proof -
    have "(2 :: nat) ^ 52 \<le> (2 ^ 52 + flt_man c) * 2 ^ n" for n by (metis le_add1 mult_le_mono nat_mult_1_right one_le_numeral one_le_power)
    then show ?thesis using flt_man_less [of c] by (auto simp: flt_mag_def not_less)
  qed
  show ?thesis
  proof (cases "flt_exp a = 0")
    case True
    then show ?thesis using e small by (metis flt_mag_def)
  next
    case False
    then have b: "flt_exp b \<noteq> 0" using small e by metis
    have "flt_exp a - 1 = flt_exp b - 1 \<and> 2 ^ 52 + flt_man a = 2 ^ 52 + flt_man b"
      by (rule scaled_inj [of "2 ^ 52"]) (use e False b flt_man_less in \<open>simp_all add: flt_mag_def\<close>)
    then show ?thesis using False b by auto
  qed
qed

lemma flt_tointeger_mag:
  assumes "flt_tointeger b = Some i"
  obtains v where "flt_finite b" "v * 2 ^ 1074 = flt_mag b" "i = word_of_int (if flt_neg b then - int v else int v)"
    "- (2 ^ 63) \<le> (if flt_neg b then - int v else int v)" "(if flt_neg b then - int v else int v) < 2 ^ 63"
proof -
  let ?e = "flt_expo b" and ?m = "flt_signif b"
  define v where "v = (if ?e < 0 then ?m div 2 ^ nat (- ?e) else ?m * 2 ^ nat ?e)"
  have fin: "flt_finite b" and dv: "?e < 0 \<Longrightarrow> 2 ^ nat (- ?e) dvd ?m"
    and r: "- (2 ^ 63) \<le> (if flt_neg b then - int v else int v)" "(if flt_neg b then - int v else int v) < 2 ^ 63"
    and i: "i = word_of_int (if flt_neg b then - int v else int v)"
    using assms by (auto simp: flt_tointeger_def Let_def v_def split: if_splits)
  have mag: "flt_mag b = ?m * 2 ^ nat (?e + 1074)"
    by (auto simp: flt_mag_def flt_signif_def flt_expo_def nat_diff_distrib')
  have "v * 2 ^ 1074 = ?m * 2 ^ nat (?e + 1074)"
  proof (cases "?e < 0")
    case True
    have "(1074 :: nat) = nat (- ?e) + nat (?e + 1074)" using True by (auto simp: flt_expo_def)
    then have "v * 2 ^ 1074 = v * 2 ^ nat (- ?e) * 2 ^ nat (?e + 1074)" by (metis mult.assoc power_add)
    then show ?thesis using True dv by (simp add: v_def)
  next
    case False
    then have "nat (?e + 1074) = nat ?e + 1074" by simp
    then show ?thesis using False by (simp add: v_def power_add)
  qed
  then show ?thesis using that fin i r mag by simp
qed

lemma flt_tointeger_inj:
  assumes a: "flt_tointeger a = Some i" and b: "flt_tointeger b = Some i"
  shows "flt_eq a b"
proof -
  obtain v where v: "flt_finite a" "v * 2 ^ 1074 = flt_mag a" "i = word_of_int (if flt_neg a then - int v else int v)"
    "- (2 ^ 63) \<le> (if flt_neg a then - int v else int v)" "(if flt_neg a then - int v else int v) < 2 ^ 63"
    by (rule flt_tointeger_mag [OF a])
  obtain w where w: "flt_finite b" "w * 2 ^ 1074 = flt_mag b" "i = word_of_int (if flt_neg b then - int w else int w)"
    "- (2 ^ 63) \<le> (if flt_neg b then - int w else int w)" "(if flt_neg b then - int w else int w) < 2 ^ 63"
    by (rule flt_tointeger_mag [OF b])
  have sw: "sint (word_of_int x :: u64) = x" if "- (2 ^ 63) \<le> x" "x < 2 ^ 63" for x
    using that by (simp add: signed_of_int signed_take_bit_int_eq_self_iff)
  have eq: "(if flt_neg a then - int v else int v) = (if flt_neg b then - int w else int w)"
    using sw [OF v(4,5)] sw [OF w(4,5)] v(3) w(3) by metis
  then have vw: "v = w" by (auto split: if_splits)
  then have f: "flt_exp a = flt_exp b" "flt_man a = flt_man b" using flt_mag_inj [of a b] v(2) w(2) by simp_all
  have nan: "\<not> flt_isnan a" "\<not> flt_isnan b" using v(1) w(1) by (simp_all add: flt_isnan_def flt_finite_def)
  show ?thesis
  proof (cases "v = 0")
    case True
    then have "flt_iszero a" "flt_iszero b" using v(1,2) w(1,2) vw
      by (auto simp: flt_iszero_def flt_signif_def flt_mag_def split: if_splits)
    then show ?thesis using nan by (simp add: flt_eq_def)
  next
    case False
    then have "flt_neg a = flt_neg b" using eq vw by (auto split: if_splits)
    then have "a = b" using flt_ext f by blast
    then show ?thesis using nan by (simp add: flt_eq_def)
  qed
qed

lemma flt_eq_tointeger: "flt_eq a b \<Longrightarrow> flt_tointeger a = flt_tointeger b"
  using flt_zero_int by (auto simp: flt_eq_def)

section \<open>Keys as the language compares them\<close>

text \<open>A float that is integral stands for that integer.\<close>

definition canonical :: "lua_key \<Rightarrow> lua_key" where
  "canonical k = (case k of KFlt b \<Rightarrow> (case flt_tointeger b of Some i \<Rightarrow> KInt i | None \<Rightarrow> k) | _ \<Rightarrow> k)"

text \<open>The keys a table can hold: neither \<open>nil\<close> nor NaN; a long string keeps no hash or its own.\<close>

definition key_ok :: "strings \<Rightarrow> lua_key \<Rightarrow> bool" where
  "key_ok g k \<longleftrightarrow> proper k \<and> (\<forall>b. k = KFlt b \<longrightarrow> \<not> flt_isnan b) \<and> (\<forall>a. k = KLng a \<longrightarrow> long_hash_ok g a)"

lemma canonical_normal: "key_ok g k \<Longrightarrow> normal_key g (canonical k)"
  by (auto simp: key_ok_def normal_key_def canonical_def proper_def split: lua_key.splits option.splits)

lemma raw_canonical:
  "key_ok g k \<Longrightarrow> key_ok g l \<Longrightarrow> luaV_rawequalobj g (canonical k) (canonical l) = luaV_rawequalobj g k l"
proof (cases "(k, l)" rule: prod.exhaust)
  case (Pair k1 l1)
  have ff: "luaV_rawequalobj g (canonical (KFlt a)) (canonical (KFlt b)) = luaV_rawequalobj g (KFlt a) (KFlt b)" for a b
    using flt_eq_tointeger [of a b] flt_tointeger_inj [of a _ b]
    by (auto simp: canonical_def luaV_rawequalobj_def tointeger_def split: option.splits)
  show ?thesis
    by (cases k; cases l) (auto simp: ff, (auto simp: canonical_def luaV_rawequalobj_def tointeger_def split: option.splits, metis))
qed

lemma get_canonical: "luaH_get g t (canonical k) = luaH_get g t k"
  by (auto simp: canonical_def luaH_get_def split: lua_key.splits option.splits)

lemma newkey_canonical: "luaH_newkey grow g t (canonical k) = luaH_newkey grow g t k"
  by (auto simp: canonical_def luaH_newkey_def split: lua_key.splits option.splits)

lemma raw_store_canonical: "raw_store grow g t (canonical k) v = raw_store grow g t k v"
  unfolding raw_store_def luaH_set_def get_canonical newkey_canonical ..

lemma tab_val_canonical: "tab_val g t (canonical k) = tab_val g t k"
  by (simp add: tab_val_def get_canonical)

lemma luaH_get_returns:
  assumes inv: "tab_inv g t"
  shows "\<exists>s. luaH_get g t k = Inr s"
proof -
  have c: "\<exists>s. in_chain t P (mainposition g t l) = Inr s" for P l
  proof -
    have n: "mainposition g t l < length (tb_node t)" using mainposition_less [OF tab_invD(2) [OF inv]] tab_invD(1) [OF inv] by simp
    from chain_find_total [OF nodes_okD(1) [OF tab_invD(7) [OF inv]] n, of P] show ?thesis by cases (simp_all add: in_chain_def)
  qed
  show ?thesis
    using c [of _ "KInt i" for i] c [of _ "KShr a" for a] c [of _ k]
    by (auto simp: luaH_get_def luaH_getint_def luaH_getstr_def get_generic_def mainposition_def split: lua_key.splits option.splits)
qed

section \<open>Reading and writing a table\<close>

definition lua_rawget :: "strings \<Rightarrow> 'v table \<Rightarrow> lua_key \<Rightarrow> table_error + 'v option" where
  "lua_rawget g t k = bindT (luaH_get g t k) (\<lambda>s. Inr (slot_val t s))"

lemma lua_rawget_val: "tab_inv g t \<Longrightarrow> lua_rawget g t k = Inr (tab_val g t k)"
  using luaH_get_returns [of g t k] by (auto simp: lua_rawget_def tab_val_def)

text \<open>One level of growth is enough for every store.\<close>

definition lua_rawset :: "strings \<Rightarrow> 'v table \<Rightarrow> lua_key \<Rightarrow> 'v option \<Rightarrow> table_error + 'v table" where
  "lua_rawset g t k v = raw_store (grow_insert 1 g) g t k v"

lemma luaH_new_inv: "tab_inv g luaH_new"
  using fresh_inv [of "[]" "[empty_node]" 0 0 True g] by (simp add: luaH_new_def)

text \<open>C25: 
  A store into a table succeeds, keeps the table's invariant (chains end, every key is in the chain of
  its main position, no key twice, the free pointer is above no free node), and afterwards a lookup
  gives the new value at every key that is raw-equal to the stored one, so at \<open>1.0\<close> for \<open>1\<close>, and what
  it gave before at every other key, however the table was rehashed and resized on the way. The table
  has fewer than \<open>2 ^ 30\<close> slots, and the keys are values that can be keys (not \<open>nil\<close>, not NaN),
  long strings with the hash of their text.
\<close>

theorem table_store_law:
  assumes "tab_inv g t" "sizearray t + sizenode t < 2 ^ 30" "key_ok g k"
  shows "\<exists>t1. lua_rawset g t k v = Inr t1 \<and> tab_inv g t1 \<and>
    (\<forall>l. key_ok g l \<longrightarrow> lua_rawget g t1 l = (if luaV_rawequalobj g k l then Inr v else lua_rawget g t l))"
proof -
  obtain t1 where t1: "lua_rawset g t k v = Inr t1" "keeps_map g t (canonical k) v t1"
    using raw_store_grow [OF assms(1) canonical_normal [OF assms(3)] assms(2), of 0 v]
    by (auto simp: lua_rawset_def raw_store_canonical)
  then have inv: "tab_inv g t1" by (simp add: keeps_map_def)
  have "tab_val g t1 l = (if luaV_rawequalobj g k l then v else tab_val g t l)" if l: "key_ok g l" for l
  proof -
    have "tab_val g t1 (canonical l) = (if luaV_rawequalobj g (canonical k) (canonical l) then v else tab_val g t (canonical l))"
      using t1(2) canonical_normal [OF l] by (simp add: keeps_map_def)
    then show ?thesis unfolding tab_val_canonical raw_canonical [OF assms(3) l] .
  qed
  then show ?thesis using t1(1) inv lua_rawget_val [OF inv] lua_rawget_val [OF assms(1)] by simp
qed

theorem table_store_law_witness:
  "\<exists>t1 :: nat table. lua_rawset (strings_start 0) luaH_new (KInt 7) (Some 5) = Inr t1 \<and>
     lua_rawget (strings_start 0) t1 (KInt 7) = Inr (Some 5)"
proof -
  have k: "key_ok (strings_start 0) (KInt 7)" by (simp add: key_ok_def proper_def)
  have s: "sizearray (luaH_new :: nat table) + sizenode (luaH_new :: nat table) < 2 ^ 30"
    by (simp add: luaH_new_def sizearray_def sizenode_def)
  from table_store_law [OF luaH_new_inv s k, of "Some 5"] k show ?thesis by (auto simp: luaV_rawequalobj_def)
qed

text \<open>
  Storing at \<open>nil\<close> or at a NaN is an error and nothing else is; looking such a key up is none.
\<close>

theorem bad_key_errors:
  assumes "tab_inv g t"
  shows "lua_rawset g t KNil v = Inl IndexNil \<and> lua_rawget g t KNil = Inr None \<and>
    (flt_isnan b \<longrightarrow> lua_rawset g t (KFlt b) v = Inl IndexNaN \<and> lua_rawget g t (KFlt b) = Inr None)"
proof -
  have nan: "luaH_get g t (KFlt b) = Inr NilObject \<and> flt_tointeger b = None" if b: "flt_isnan b"
  proof -
    have i: "flt_tointeger b = None" using b by (simp add: flt_tointeger_def flt_isnan_def flt_finite_def)
    have "\<not> luaV_rawequalobj g l (KFlt b)" for l
      using b i by (cases l) (auto simp: luaV_rawequalobj_def flt_eq_def tointeger_def)
    moreover have n: "mainposition g t (KFlt b) < length (tb_node t)"
      using mainposition_less [OF tab_invD(2) [OF assms]] tab_invD(1) [OF assms] by simp
    ultimately have "get_generic g t (KFlt b) = Inr NilObject"
      by (cases rule: chain_find_total [OF nodes_okD(1) [OF tab_invD(7) [OF assms]] n, of "\<lambda>l. luaV_rawequalobj g l (KFlt b)"])
        (simp_all add: get_generic_def in_chain_def)
    then show ?thesis using i by (simp add: luaH_get_def)
  qed
  then show ?thesis
    by (auto simp: lua_rawset_def lua_rawget_def raw_store_def luaH_set_def luaH_get_def luaH_newkey_def slot_val_def)
qed

theorem bad_key_errors_witness:
  "lua_rawset (strings_start 0) (luaH_new :: nat table) (KFlt 0x7FF8000000000000) (Some 1) = Inl IndexNaN"
proof -
  have "flt_isnan 0x7FF8000000000000" by (simp add: flt_isnan_def flt_exp_def flt_man_def)
  then show ?thesis using bad_key_errors [OF luaH_new_inv] by blast
qed

end
