(* ===== verification/LuaTableWalk.thy ===== *)
theory LuaTableWalk
  imports LuaTableRehash
begin

text \<open>
  What is read off a table as a whole: the order \<open>luaH_next\<close> visits the entries in, and the boundary
  \<open>luaH_getn\<close> finds.
\<close>


section \<open>Traversal\<close>

definition slot_at :: "'v table \<Rightarrow> nat \<Rightarrow> (lua_key \<times> 'v) option" where
  "slot_at t p =
     (if p < sizearray t then map_option (Pair (KInt (of_nat (p + 1)))) (tb_array t ! p)
      else map_option (Pair (nd_key (tb_node t ! (p - sizearray t)))) (nd_val (tb_node t ! (p - sizearray t))))"

definition live_slots :: "'v table \<Rightarrow> nat \<Rightarrow> nat list" where
  "live_slots t i = filter (\<lambda>p. slot_at t p \<noteq> None) [i..<sizearray t + sizenode t]"

lemma find_hd_filter: "find P xs = (case filter P xs of [] \<Rightarrow> None | x # _ \<Rightarrow> Some x)"
  by (induction xs) auto

lemma luaH_next_slots:
  assumes "findindex g t key = Inr i"
  shows "luaH_next g t key = Inr (case live_slots t i of [] \<Rightarrow> None | p # _ \<Rightarrow> slot_at t p)"
proof -
  let ?a = "sizearray t" and ?n = "sizenode t" let ?m = "max i ?a"
  have split: "[i..<?a + ?n] = [i..<?a] @ map (\<lambda>j. j + ?a) [?m - ?a..<?n]"
  proof (cases "i \<le> ?a")
    case True
    then show ?thesis using upt_add_eq_append [of i ?a ?n] map_add_upt [of ?a ?n] by (simp add: add.commute)
  next
    case False
    then have "map (\<lambda>j. j + ?a) [?m - ?a..<?n] = [i..<?a + ?n]" by (intro nth_equalityI) auto
    then show ?thesis using False by simp
  qed
  have arr: "filter (\<lambda>p. slot_at t p \<noteq> None) [i..<?a] = filter (\<lambda>j. tb_array t ! j \<noteq> None) [i..<?a]"
    by (rule filter_cong) (auto simp: slot_at_def)
  have node: "filter (\<lambda>p. slot_at t p \<noteq> None) (map (\<lambda>j. j + ?a) xs) = map (\<lambda>j. j + ?a) (filter (\<lambda>j. nd_val (tb_node t ! j) \<noteq> None) xs)" for xs
    by (simp add: filter_map comp_def slot_at_def)
  show ?thesis
  proof (cases "filter (\<lambda>j. tb_array t ! j \<noteq> None) [i..<?a]")
    case Nil
    then show ?thesis
      unfolding luaH_next_def assms bindT.simps find_hd_filter live_slots_def split filter_append arr node
      by (cases "filter (\<lambda>j. nd_val (tb_node t ! j) \<noteq> None) [?m - ?a..<?n]")
        (auto simp: slot_at_def filter_eq_Cons_iff)
  next
    case (Cons p ps)
    then have "p \<in> set (filter (\<lambda>j. tb_array t ! j \<noteq> None) [i..<?a])" by simp
    then have p: "p < ?a" "tb_array t ! p \<noteq> None" by auto
    then show ?thesis
      unfolding luaH_next_def assms bindT.simps find_hd_filter live_slots_def split filter_append arr node Cons
      by (auto simp: slot_at_def)
  qed
qed

text \<open>The address of a dead key is not that of a live one.\<close>

definition dead_apart :: "'v table \<Rightarrow> bool" where
  "dead_apart t \<longleftrightarrow> (\<forall>i < sizenode t. \<forall>j < sizenode t. \<forall>a. nd_key (tb_node t ! i) = KDead a \<longrightarrow>
     iscollectable (nd_key (tb_node t ! j)) \<longrightarrow> gcvalue (nd_key (tb_node t ! j)) \<noteq> a)"

lemma findindex_slot:
  assumes inv: "tab_inv g t" and apart: "dead_apart t" and p: "p < sizearray t + sizenode t" "slot_at t p = Some (k, v)"
  shows "findindex g t k = Inr (p + 1)"
proof (cases "p < sizearray t")
  case True
  then have k: "k = KInt (of_nat (p + 1))" using p(2) by (auto simp: slot_at_def)
  have "arrayindex k = p + 1" unfolding k by (rule arrayindex_int) (use True tab_invD(4) [OF inv] in simp_all)
  then show ?thesis using True k by (simp add: findindex_def)
next
  case False
  let ?j = "p - sizearray t" let ?ns = "tb_node t"
  have j: "?j < sizenode t" "nd_key (?ns ! ?j) = k" "nd_val (?ns ! ?j) = Some v" using False p by (auto simp: slot_at_def)
  note t = tab_invD [OF inv] and d = nodes_okD [OF tab_invD(7) [OF inv]]
  have pr: "proper k" using live_proper [OF inv j(1) j(3)] j(2) by simp
  have nk: "normal_key g k" "\<not> in_array t k" using node_normal [OF inv j(1)] pr j(2) by auto
  have arr: "\<not> (arrayindex k \<noteq> 0 \<and> arrayindex k \<le> sizearray t)"
  proof
    assume a: "arrayindex k \<noteq> 0 \<and> arrayindex k \<le> sizearray t"
    then obtain i where i: "k = KInt i" "unat i = arrayindex k" "0 < unat i" by (auto simp: arrayindex_def split: lua_key.splits if_splits)
    have "unat (i - 1) = arrayindex k - 1"
      using i(2,3) by (subst unat_minus_one) auto
    then show False using nk(2) i(1) a by (auto simp: in_array_def)
  qed
  have len: "?j < length ?ns" using j(1) t(1) by simp
  have main: "mainposition g t k < length ?ns" "(mainposition g t k, ?j) \<in> (link ?ns)\<^sup>*" using d(5,6) [OF len] pr j(2) by auto
  have self: "same_or_dead g k (nd_key (?ns ! ?j))" using raw_refl [OF nk(1)] j(2) by (simp add: same_or_dead_def)
  have only: "q = ?j" if q: "q < length ?ns" "same_or_dead g k (nd_key (?ns ! q))" for q
  proof -
    have "luaV_rawequalobj g (nd_key (?ns ! q)) k"
      using q apart j(1,2) t(1) unfolding dead_apart_def same_or_dead_def by (auto split: lua_key.splits)
    moreover from this have "proper (nd_key (?ns ! q))" using raw_proper nk(1) by blast
    ultimately show ?thesis using d(9) [OF q(1) len] pr j(2) by simp
  qed
  from chain_find_total [OF d(1) main(1), of "same_or_dead g k"]
  have "chain_find (length ?ns) (same_or_dead g k) ?ns (mainposition g t k) = Inr (Some ?j)"
  proof cases
    case (1 q)
    then show ?thesis using only by metis
  next
    case 2
    then show ?thesis using self main(2) by blast
  qed
  then show ?thesis using arr pr False by (simp add: findindex_def Let_def proper_def)
qed

text \<open>A whole traversal: \<open>next\<close> from \<open>nil\<close> on until there is none.\<close>

fun traverse :: "nat \<Rightarrow> strings \<Rightarrow> 'v table \<Rightarrow> lua_key \<Rightarrow> table_error + (lua_key \<times> 'v) list" where
  "traverse 0 g t key = Inl NoReturn"
| "traverse (Suc fuel) g t key =
     bindT (luaH_next g t key)
       (\<lambda>r. case r of None \<Rightarrow> Inr []
          | Some (k, v) \<Rightarrow> bindT (traverse fuel g t k) (\<lambda>ps. Inr ((k, v) # ps)))"

lemma live_slots_Cons:
  assumes "live_slots t i = p # ps"
  shows "i \<le> p" "p < sizearray t + sizenode t" "slot_at t p \<noteq> None" "ps = live_slots t (p + 1)"
proof -
  have p: "p \<in> set (live_slots t i)" using assms by simp
  then show "i \<le> p" "p < sizearray t + sizenode t" "slot_at t p \<noteq> None" by (auto simp: live_slots_def)
  have "sorted_wrt (<) (live_slots t i)" unfolding live_slots_def by (rule sorted_wrt_filter) simp
  then have gt: "q \<in> set ps \<Longrightarrow> p < q" for q using assms by simp
  have d: "distinct (live_slots t i)" "sorted (live_slots t i)" by (simp_all add: live_slots_def sorted_wrt_filter)
  have "set ps = set (live_slots t i) - {p}" using assms d(1) by auto
  also have "\<dots> = set (live_slots t (p + 1))"
  proof (intro equalityI subsetI)
    fix q assume "q \<in> set (live_slots t i) - {p}"
    then have "q \<in> set ps" using assms by auto
    then show "q \<in> set (live_slots t (p + 1))" using gt [of q] assms list.set_intros(2) [of q ps p]
      unfolding assms [symmetric] by (auto simp: live_slots_def)
  next
    fix q assume "q \<in> set (live_slots t (p + 1))"
    then show "q \<in> set (live_slots t i) - {p}" using \<open>i \<le> p\<close> by (auto simp: live_slots_def)
  qed
  finally have "set ps = set (live_slots t (p + 1))" .
  moreover have "sorted ps" "distinct ps" using d assms by auto
  moreover have "sorted (live_slots t (p + 1))" "distinct (live_slots t (p + 1))" by (simp_all add: live_slots_def sorted_wrt_filter)
  ultimately show "ps = live_slots t (p + 1)" using sorted_distinct_set_unique by blast
qed

lemma traverse_slots:
  assumes inv: "tab_inv g t" and apart: "dead_apart t"
  shows "findindex g t key = Inr i \<Longrightarrow> length (live_slots t i) < fuel \<Longrightarrow>
    traverse fuel g t key = Inr (map (\<lambda>p. the (slot_at t p)) (live_slots t i))"
proof (induction fuel arbitrary: key i)
  case (Suc fuel)
  note next_eq = luaH_next_slots [OF Suc.prems(1)]
  show ?case
  proof (cases "live_slots t i")
    case Nil
    then show ?thesis by (simp add: next_eq)
  next
    case (Cons p ps)
    note c = live_slots_Cons [OF Cons]
    obtain k v where kv: "slot_at t p = Some (k, v)" using c(3) by auto
    have "length (live_slots t (p + 1)) < fuel" using Suc.prems(2) unfolding Cons c(4) by simp
    from Suc.IH [OF findindex_slot [OF inv apart c(2) kv] this]
    have "traverse fuel g t k = Inr (map (\<lambda>p. the (slot_at t p)) ps)" unfolding c(4) .
    then show ?thesis by (simp add: next_eq Cons kv)
  qed
qed simp

lemma slot_at_entries: "tab_inv g t \<Longrightarrow> (k, v) \<in> entries t \<longleftrightarrow> (\<exists>p < sizearray t + sizenode t. slot_at t p = Some (k, v))"
proof -
  assume inv: "tab_inv g t"
  have part: "(\<exists>p < a + n. P p) \<longleftrightarrow> (\<exists>p < a. P p) \<or> (\<exists>j < n. P (a + j))" for a n :: nat and P
    by (metis add_less_cancel_left le_Suc_ex not_le trans_less_add1)
  have "(\<exists>p < sizearray t + sizenode t. slot_at t p = Some (k, v)) \<longleftrightarrow>
      (\<exists>p < sizearray t. slot_at t p = Some (k, v)) \<or> (\<exists>j < sizenode t. slot_at t (sizearray t + j) = Some (k, v))"
    by (rule part)
  also have "(\<exists>p < sizearray t. slot_at t p = Some (k, v)) \<longleftrightarrow> (k, v) \<in> array_pairs t"
    unfolding array_pairs_def slot_at_def by auto
  also have "(\<exists>j < sizenode t. slot_at t (sizearray t + j) = Some (k, v)) \<longleftrightarrow> (k, v) \<in> node_pairs (tb_node t)"
    unfolding in_node_pairs slot_at_def using tab_invD(1) [OF inv] by auto
  finally show ?thesis unfolding entries_def by blast
qed

text \<open>C27: 
  A traversal with \<open>next\<close> ends; it yields every entry of the table exactly once and nothing else, whatever
  the order of the chains and however many nodes are empty. No dead key has the address of a live
  one.
\<close>

theorem next_enumerates:
  assumes "tab_inv g t" "dead_apart t"
  shows "\<exists>ps. traverse (sizearray t + sizenode t + 1) g t KNil = Inr ps \<and> distinct (map fst ps) \<and>
    (\<forall>k v. (k, v) \<in> set ps \<longrightarrow> lua_rawget g t k = Inr (Some v)) \<and>
    (\<forall>k v. key_ok g k \<longrightarrow> lua_rawget g t k = Inr (Some v) \<longrightarrow> (\<exists>l. luaV_rawequalobj g l (canonical k) \<and> (l, v) \<in> set ps))"
proof -
  let ?f = "\<lambda>p. the (slot_at t p)" let ?ps = "map ?f (live_slots t 0)"
  have "length (live_slots t 0) \<le> length [0..<sizearray t + sizenode t]" unfolding live_slots_def by (rule length_filter_le)
  then have tr: "traverse (sizearray t + sizenode t + 1) g t KNil = Inr ?ps"
    using traverse_slots [OF assms, of KNil 0 "sizearray t + sizenode t + 1"] by (simp add: findindex_def)
  have st: "set ?ps = entries t"
  proof (rule set_eqI, clarify)
    fix k v
    have "(k, v) \<in> set ?ps \<longleftrightarrow> (\<exists>p \<in> set (live_slots t 0). slot_at t p = Some (k, v))"
      unfolding live_slots_def by (auto simp: image_iff)
    then show "(k, v) \<in> set ?ps \<longleftrightarrow> (k, v) \<in> entries t"
      unfolding slot_at_entries [OF assms(1)] live_slots_def by auto
  qed
  have "inj_on (\<lambda>p. fst (?f p)) (set (live_slots t 0))"
  proof (rule inj_onI)
    fix p q assume p: "p \<in> set (live_slots t 0)" and q: "q \<in> set (live_slots t 0)" and e: "fst (?f p) = fst (?f q)"
    obtain k v l w where "slot_at t p = Some (k, v)" "slot_at t q = Some (l, w)" "p < sizearray t + sizenode t" "q < sizearray t + sizenode t"
      using p q by (auto simp: live_slots_def)
    then show "p = q" using findindex_slot [OF assms] e by (metis add_right_cancel fst_conv option.sel sum.inject(2))
  qed
  moreover have "distinct (live_slots t 0)" by (simp add: live_slots_def)
  ultimately have "distinct (map fst ?ps)" by (simp add: distinct_map comp_def)
  moreover have "lua_rawget g t k = Inr (Some v)" if "(k, v) \<in> set ?ps" for k v
  proof -
    have e: "(k, v) \<in> entries t" using that st by simp
    have n: "normal_key g k" by (rule entry_normal [OF assms(1) e])
    show ?thesis using lua_rawget_val [OF assms(1)] tab_val_entries [OF assms(1) n] raw_refl [OF n] e by metis
  qed
  moreover have "\<exists>l. luaV_rawequalobj g l (canonical k) \<and> (l, v) \<in> set ?ps" if "key_ok g k" "lua_rawget g t k = Inr (Some v)" for k v
    using that lua_rawget_val [OF assms(1)] tab_val_entries [OF assms(1) canonical_normal [OF that(1)]] tab_val_canonical [of g t k] st by auto
  ultimately show ?thesis using tr by blast
qed

text \<open>A table with an array part and a node.\<close>

definition mixed_table :: "nat table" where
  "mixed_table = \<lparr>tb_array = [Some 5, None], tb_lsizenode = 0, tb_dummy = False,
     tb_node = [\<lparr>nd_val = Some 9, nd_key = KInt 7, nd_next = 0\<rparr>], tb_lastfree = 0\<rparr>"

lemma mixed_table_inv: "tab_inv g mixed_table" "dead_apart mixed_table"
proof -
  have one: "i < length (tb_node mixed_table) \<longleftrightarrow> i = 0" for i by (simp add: mixed_table_def)
  have h: "mainposition g mixed_table (KInt 7) = 0" by (simp add: mainposition_def hashint_def sizenode_def mixed_table_def)
  have "chains_ok (tb_node mixed_table)"
    by (simp add: chains_ok_def link_def mixed_table_def)
  then have "nodes_ok (luaV_rawequalobj g) (mainposition g mixed_table) (\<lambda>k. normal_key g k \<and> \<not> in_array mixed_table k) (tb_node mixed_table)"
    unfolding nodes_ok_def one using h
    by (auto simp: mixed_table_def normal_key_def proper_def in_array_def sizearray_def)
  then show "tab_inv g mixed_table" by (simp add: tab_inv_def mixed_table_def sizenode_def sizearray_def)
  show "dead_apart mixed_table" by (simp add: dead_apart_def sizenode_def mixed_table_def)
qed
theorem next_enumerates_witness:
  "\<exists>ps l. traverse 4 (strings_start 0) mixed_table KNil = Inr ps \<and> distinct (map fst ps) \<and>
     luaV_rawequalobj (strings_start 0) l (KInt 7) \<and> (l, 9) \<in> set ps"
proof -
  have n: "sizearray mixed_table + sizenode mixed_table + 1 = 4" by (simp add: mixed_table_def sizearray_def sizenode_def)
  have k: "key_ok (strings_start 0) (KInt 7)" "canonical (KInt 7) = KInt 7"
    by (simp_all add: key_ok_def proper_def canonical_def)
  have g: "lua_rawget (strings_start 0) mixed_table (KInt 7) = Inr (Some 9)" by code_simp
  from next_enumerates [OF mixed_table_inv(1) [of "strings_start 0"] mixed_table_inv(2)] obtain ps where
    "traverse 4 (strings_start 0) mixed_table KNil = Inr ps" "distinct (map fst ps)"
    "\<exists>l. luaV_rawequalobj (strings_start 0) l (KInt 7) \<and> (l, 9) \<in> set ps" using k g unfolding n by metis
  then show ?thesis by blast
qed

section \<open>The length of a table\<close>

lemma getint_val_tab: "tab_inv g t \<Longrightarrow> getint_val t j = Inr (tab_val g t (KInt (of_nat j)))"
  using luaH_get_returns [of g t "KInt (of_nat j)"] by (auto simp: getint_val_def tab_val_def luaH_get_def)

definition boundary :: "(nat \<Rightarrow> 'v option) \<Rightarrow> nat \<Rightarrow> bool" where
  "boundary f n \<longleftrightarrow> (n = 0 \<or> f n \<noteq> None) \<and> f (n + 1) = None"

lemma binary_search_boundary:
  "(\<And>m. i < m \<Longrightarrow> m < j \<Longrightarrow> get m = Inr (f m)) \<Longrightarrow> i < j \<Longrightarrow> i = 0 \<or> f i \<noteq> None \<Longrightarrow> f j = None \<Longrightarrow>
   \<exists>n. binary_search get i j = Inr n \<and> i \<le> n \<and> n < j \<and> boundary f n"
proof (induction get i j rule: binary_search.induct)
  case (1 get i j)
  show ?case
  proof (cases "j - i > 1")
    case False
    then have "j = i + 1" using "1.prems"(2) by simp
    then show ?thesis using "1.prems" by (subst binary_search.simps) (auto simp: boundary_def)
  next
    case True
    let ?m = "(i + j) div 2"
    have m: "i < ?m" "?m < j" using True by auto
    then have g: "get ?m = Inr (f ?m)" by (rule "1.prems"(1))
    show ?thesis
    proof (cases "f ?m = None")
      case None: True
      have "\<exists>n. binary_search get i ?m = Inr n \<and> i \<le> n \<and> n < ?m \<and> boundary f n"
        by (rule "1.IH"(1) [OF True refl None]) (use "1.prems" m None in auto)
      then show ?thesis using True g None m by (subst binary_search.simps) (auto simp: Let_def)
    next
      case some: False
      have "\<exists>n. binary_search get ?m j = Inr n \<and> ?m \<le> n \<and> n < j \<and> boundary f n"
        by (rule "1.IH"(2) [OF True refl some]) (use "1.prems" m some in auto)
      then show ?thesis using True g some m by (subst binary_search.simps) (auto simp: Let_def)
    qed
  qed
qed

lemma linear_search_boundary:
  assumes get: "\<And>m. getint_val t m = Inr (f m)" and none: "f m = None"
  shows "0 < i \<Longrightarrow> i \<le> m \<Longrightarrow> m - i < fuel \<Longrightarrow> i = 1 \<or> f (i - 1) \<noteq> None \<Longrightarrow>
    \<exists>n. linear_search fuel t i = Inr n \<and> n < m \<and> boundary f n"
proof (induction fuel arbitrary: i)
  case (Suc fuel)
  show ?case
  proof (cases "f i = None")
    case True
    then show ?thesis using Suc.prems get by (auto simp: boundary_def)
  next
    case False
    then have "i \<noteq> m" using none by metis
    then show ?thesis using Suc.IH [of "i + 1"] Suc.prems False get by simp
  qed
qed simp

lemma entries_card: "tab_inv g t \<Longrightarrow> finite (entries t) \<and> card (entries t) \<le> sizearray t + sizenode t"
proof -
  assume inv: "tab_inv g t"
  have sub: "entries t \<subseteq> (\<lambda>p. the (slot_at t p)) ` {..<sizearray t + sizenode t}"
  proof
    fix e assume "e \<in> entries t"
    then obtain p where "p < sizearray t + sizenode t" "slot_at t p = Some e"
      using slot_at_entries [OF inv, of "fst e" "snd e"] by auto
    then show "e \<in> (\<lambda>p. the (slot_at t p)) ` {..<sizearray t + sizenode t}" by force
  qed
  have "card (entries t) \<le> card {..<sizearray t + sizenode t}" by (rule surj_card_le [OF _ sub]) simp
  then show ?thesis using finite_subset [OF sub] by simp
qed

text \<open>So one of the first integers has no value, which ends the linear search.\<close>

lemma some_integer_free:
  assumes inv: "tab_inv g t"
  shows "\<exists>m. 0 < m \<and> m \<le> sizearray t + sizenode t + 1 \<and> tab_val g t (KInt (of_nat m)) = None"
proof (rule ccontr)
  let ?M = "{1..sizearray t + sizenode t + 1}"
  assume "\<not> ?thesis"
  then have "\<exists>v. (KInt (of_nat m), v) \<in> entries t" if "m \<in> ?M" for m
    using that tab_val_entries [OF inv int_key_normal] raw_KInt entry_normal [OF inv]
    by (metis atLeastAtMost_iff not_Some_eq not_gr_zero not_one_le_zero)
  then have "(\<lambda>m. KInt (of_nat m)) ` ?M \<subseteq> fst ` entries t" by force
  then have "card ((\<lambda>m. KInt (of_nat m)) ` ?M) \<le> card (entries t)"
    using entries_card [OF inv] by (meson card_image_le card_mono finite_imageI order_trans)
  moreover have "inj_on (\<lambda>m. KInt (of_nat m)) ?M"
  proof (rule inj_onI)
    have sz: "sizearray t \<le> 2 ^ 31" "sizenode t \<le> 2 ^ 30"
      using tab_invD(2,4) [OF inv] power_increasing [of "tb_lsizenode t" 30 "2 :: nat"] by (simp_all add: sizenode_def)
    fix x y assume a: "x \<in> ?M" "y \<in> ?M" "KInt (of_nat x) = KInt (of_nat y)"
    then have "x < 2 ^ 64" "y < 2 ^ 64" using sz by simp_all
    moreover have "unat (of_nat x :: u64) = unat (of_nat y :: u64)" using a(3) by simp
    ultimately show "x = y" by (simp add: unat_of_nat)
  qed
  ultimately show False using entries_card [OF inv] by (simp add: card_image)
qed

lemma unbound_loop_boundary:
  "tab_inv g t \<Longrightarrow> i < j \<Longrightarrow> i = 0 \<or> tab_val g t (KInt (of_nat i)) \<noteq> None \<Longrightarrow> j = sizearray t + 1 \<or> j < 2 ^ 31 \<Longrightarrow>
    \<exists>n. unbound_loop t i j = Inr n \<and> (n \<le> sizearray t + sizenode t \<or> n < 2 ^ 31) \<and>
      boundary (\<lambda>m. tab_val g t (KInt (of_nat m))) n"
proof (induction t i j rule: unbound_loop.induct)
  case (1 t i j)
  let ?f = "\<lambda>m. tab_val g t (KInt (of_nat m))"
  note get = getint_val_tab [OF "1.prems"(1)]
  show ?case
  proof (cases "?f j = None")
    case True
    obtain n where "binary_search (getint_val t) i j = Inr n" "n < j" "boundary ?f n"
      using binary_search_boundary [of i j "getint_val t" ?f] get "1.prems"(2,3) True by auto
    then show ?thesis using True get "1.prems"(4) by (subst unbound_loop.simps) auto
  next
    case some: False
    show ?thesis
    proof (cases "j > MAX_INT div 2")
      case True
      obtain m where m: "0 < m" "m \<le> sizearray t + sizenode t + 1" "?f m = None" using some_integer_free [OF "1.prems"(1)] by blast
      obtain n where "linear_search (sizearray t + sizenode t + 2) t 1 = Inr n" "n < m" "boundary ?f n"
      proof -
        have "m - 1 < sizearray t + sizenode t + 2" using m(2) by linarith
        then show thesis using linear_search_boundary [of t ?f m 1, OF get m(3)] m(1) that by (metis One_nat_def Suc_leI zero_less_one)
      qed
      then show ?thesis using True some get m(2) by (subst unbound_loop.simps) auto
    next
      case False
      have "j \<noteq> 0" "j < j * 2" using "1.prems"(2) by simp_all
      moreover have "j * 2 = sizearray t + 1 \<or> j * 2 < 2 ^ 31" using False by (simp add: MAX_INT_def)
      then obtain n where "unbound_loop t j (j * 2) = Inr n" "n \<le> sizearray t + sizenode t \<or> n < 2 ^ 31" "boundary ?f n"
        using "1.IH" [OF some False \<open>j \<noteq> 0\<close> "1.prems"(1) \<open>j < j * 2\<close>] some by blast
      ultimately show ?thesis using False some get by (subst unbound_loop.simps) simp
    qed
  qed
qed

lemma array_val: "0 < m \<Longrightarrow> m \<le> sizearray t \<Longrightarrow> sizearray t \<le> 2 ^ 31 \<Longrightarrow> tab_val g t (KInt (of_nat m)) = tb_array t ! (m - 1)"
proof -
  assume m: "0 < m" "m \<le> sizearray t" "sizearray t \<le> 2 ^ 31"
  then have "unat (of_nat m - 1 :: u64) = m - 1" using array_index [of "m - 1" "of_nat m"] by simp
  moreover have "m - 1 < sizearray t" using m by linarith
  ultimately show ?thesis by (simp add: tab_val_def luaH_get_def luaH_getint_def slot_val_def)
qed

lemma as_int_value: "n < 2 ^ 32 \<Longrightarrow> as_int n = (if n < 2 ^ 31 then int n else int n - 2 ^ 32)"
proof -
  assume n: "n < 2 ^ 32"
  then have "take_bit 32 n = n" by (intro take_bit_nat_eq_self) simp
  then have "as_int n = signed_take_bit 31 (int n)" by (simp add: as_int_def sint_uint unsigned_of_nat)
  also have "\<dots> = (int n + 2 ^ 31) mod 2 ^ 32 - 2 ^ 31"
    by (simp add: signed_take_bit_eq_take_bit_shift take_bit_eq_mod)
  also have "\<dots> = (if n < 2 ^ 31 then int n else int n - 2 ^ 32)"
  proof (cases "n < 2 ^ 31")
    case False
    then have "(int n + 2 ^ 31) mod 2 ^ 32 = (int n - 2 ^ 31 + 2 ^ 32) mod 2 ^ 32" by (simp add: add.commute)
    also have "\<dots> = int n - 2 ^ 31" using n False by (simp only: mod_add_self2) simp
    finally show ?thesis using False by simp
  qed simp
  finally show ?thesis .
qed

lemma dummy_node_ints:
  assumes inv: "tab_inv g t" and d: "tb_dummy t"
  shows "tab_val g t (KInt (of_nat (sizearray t + 1))) = None"
proof -
  have "entries t = array_pairs t"
    using tab_invD(5) [OF inv d] by (auto simp: entries_def in_node_pairs empty_node_def)
  moreover have "(KInt (of_nat (sizearray t + 1)), v) \<notin> array_pairs t" for v
  proof
    assume "(KInt (of_nat (sizearray t + 1)), v) \<in> array_pairs t"
    then obtain i where i: "i < sizearray t" "of_nat (sizearray t + 1) = (of_nat (i + 1) :: u64)" unfolding array_pairs_def by auto
    have "unat (of_nat (sizearray t + 1) :: u64) = sizearray t + 1" "unat (of_nat (i + 1) :: u64) = i + 1"
      using tab_invD(4) [OF inv] i(1) by (simp_all add: unat_of_nat del: of_nat_Suc of_nat_add)
    then show False using i by (metis add_right_cancel less_irrefl)
  qed
  ultimately show ?thesis
    using tab_val_entries [OF inv int_key_normal] raw_KInt entry_normal [OF inv] by (metis not_Some_eq)
qed

lemma getn_boundary:
  assumes inv: "tab_inv g t"
  shows "\<exists>n. luaH_getn t = Inr (as_int n) \<and> (n \<le> sizearray t + sizenode t \<or> n < 2 ^ 31) \<and>
    boundary (\<lambda>m. tab_val g t (KInt (of_nat m))) n"
proof -
  let ?f = "\<lambda>m. tab_val g t (KInt (of_nat m))" and ?j = "sizearray t"
  have sz: "?j \<le> 2 ^ 31" by (rule tab_invD(4) [OF inv])
  show ?thesis
  proof (cases "?j > 0 \<and> tb_array t ! (?j - 1) = None")
    case True
    have "?f ?j = None" using array_val [of ?j t g] True sz by simp
    then obtain n where "binary_search (\<lambda>m. Inr (tb_array t ! (m - 1))) 0 ?j = Inr n" "n < ?j" "boundary ?f n"
      using binary_search_boundary [of 0 ?j "\<lambda>m. Inr (tb_array t ! (m - 1))" ?f] True array_val [OF _ _ sz] by auto
    then show ?thesis using True by (auto simp: luaH_getn_def Let_def)
  next
    case full: False
    have top: "?j = 0 \<or> ?f ?j \<noteq> None" using array_val [of ?j t g] full sz by auto
    show ?thesis
    proof (cases "tb_dummy t")
      case True
      then show ?thesis using full top dummy_node_ints [OF inv True] by (auto simp: luaH_getn_def Let_def boundary_def)
    next
      case False
      obtain n where "unbound_search t ?j = Inr (as_int n)" "n \<le> ?j + sizenode t \<or> n < 2 ^ 31" "boundary ?f n"
        using unbound_loop_boundary [OF inv, of ?j "?j + 1"] top by (auto simp: unbound_search_def)
      then show ?thesis using False full by (auto simp: luaH_getn_def Let_def)
    qed
  qed
qed

text \<open>C28: the length operator returns on every table, and what it found is a boundary: \<open>t[n]\<close> is not \<open>nil\<close>
  unless \<open>n\<close> is 0, and \<open>t[n + 1]\<close> is \<open>nil\<close>; also when the search leaves the array for the nodes. The
  result is \<open>n\<close> as a 32-bit \<open>int\<close>: \<open>n\<close> itself below 2^31, in particular on every table with fewer than 2^31
  slots, and negative from there on.\<close>

theorem length_is_boundary:
  assumes "tab_inv g t"
  shows "\<exists>n. luaH_getn t = Inr (if n < 2 ^ 31 then int n else int n - 2 ^ 32) \<and>
    (sizearray t + sizenode t < 2 ^ 31 \<longrightarrow> n < 2 ^ 31) \<and>
    (n = 0 \<or> (\<exists>v. lua_rawget g t (KInt (of_nat n)) = Inr (Some v))) \<and>
    lua_rawget g t (KInt (of_nat (n + 1))) = Inr None"
proof -
  obtain n where n: "luaH_getn t = Inr (as_int n)" "n \<le> sizearray t + sizenode t \<or> n < 2 ^ 31"
    "boundary (\<lambda>m. tab_val g t (KInt (of_nat m))) n" using getn_boundary [OF assms] by blast
  have "sizearray t \<le> 2 ^ 31" "sizenode t \<le> 2 ^ 30"
    using tab_invD(2,4) [OF assms] power_increasing [of "tb_lsizenode t" 30 "2 :: nat"] by (simp_all add: sizenode_def)
  then have "n < 2 ^ 32" using n(2) by (elim disjE) simp_all
  then have "luaH_getn t = Inr (if n < 2 ^ 31 then int n else int n - 2 ^ 32)" using n(1) by (simp only: as_int_value)
  then show ?thesis using n(2,3) by (intro exI [of _ n]) (auto simp: lua_rawget_val [OF assms] boundary_def)
qed

text \<open>An array part with holes, without nodes.\<close>

theorem length_is_boundary_witness:
  "\<exists>n. luaH_getn \<lparr>tb_array = [Some (5 :: nat), None, Some 7, None], tb_lsizenode = 0, tb_dummy = True,
     tb_node = [empty_node], tb_lastfree = 0\<rparr> = Inr (int n) \<and> n < 2 ^ 31"
proof -
  let ?t = "\<lparr>tb_array = [Some (5 :: nat), None, Some 7, None], tb_lsizenode = 0, tb_dummy = True,
     tb_node = [empty_node], tb_lastfree = 0\<rparr>"
  have "tab_inv (strings_start 7) ?t" by (rule fresh_inv) simp_all
  from length_is_boundary [OF this] obtain n where "luaH_getn ?t = Inr (if n < 2 ^ 31 then int n else int n - 2 ^ 32)"
    "sizearray ?t + sizenode ?t < 2 ^ 31 \<longrightarrow> n < 2 ^ 31" by blast
  then show ?thesis by (intro exI [of _ n]) (simp add: sizenode_def sizearray_def)
qed

text \<open>A full array part of 2^31 slots has a negative length.\<close>

theorem length_of_full_array:
  assumes "tb_dummy t" "sizearray t = 2 ^ 31" "tb_array t ! (2 ^ 31 - 1) \<noteq> None"
  shows "luaH_getn t = Inr (- (2 ^ 31))"
proof -
  have "as_int (2 ^ 31) = - (2 ^ 31)" using as_int_value [of "2 ^ 31"] by simp
  with assms show ?thesis by (auto simp: luaH_getn_def)
qed

section \<open>Keys that are not there\<close>

text \<open>
  Handing \<open>next\<close> a key the table does not hold is an error, as is an integral float even when the table
  holds its integer: \<open>findindex\<close> looks for the key as it comes, \<open>luaH_get\<close> for the integer.
\<close>

theorem next_rejects_float:
  assumes "t = \<lparr>tb_array = vs, tb_lsizenode = 0, tb_dummy = True, tb_node = [empty_node], tb_lastfree = 0\<rparr>"
    and "flt_tointeger b = Some 1" "vs = Some v # ws"
  shows "luaH_next g t (KFlt b) = Inl InvalidKey \<and> lua_rawget g t (KFlt b) = Inr (Some v)"
proof -
  have "\<not> same_or_dead g (KFlt b) KNil" by (simp add: same_or_dead_def luaV_rawequalobj_def)
  moreover have "mainposition g t (KFlt b) = 0" using mainposition_less [of t g "KFlt b"] assms(1) by (simp add: sizenode_def)
  ultimately have "findindex g t (KFlt b) = Inl InvalidKey"
    using assms(1) by (simp add: findindex_def arrayindex_def empty_node_def Let_def)
  then show ?thesis
    using assms by (simp add: luaH_next_def lua_rawget_def luaH_get_def luaH_getint_def sizearray_def slot_val_def)
qed

theorem next_rejects_float_witness:
  "luaH_next (strings_start 0) \<lparr>tb_array = [Some (5 :: nat)], tb_lsizenode = 0, tb_dummy = True, tb_node = [empty_node], tb_lastfree = 0\<rparr>
     (KFlt 0x3FF0000000000000) = Inl InvalidKey"
proof -
  have b: "flt_exp 0x3FF0000000000000 = 1023" "flt_man 0x3FF0000000000000 = 0" "flt_neg 0x3FF0000000000000 = False"
    by (simp_all add: flt_exp_def flt_man_def flt_neg_def)
  have "flt_tointeger 0x3FF0000000000000 = Some 1"
    unfolding flt_tointeger_def flt_finite_def flt_signif_def flt_expo_def b by simp
  then show ?thesis by (rule conjunct1 [OF next_rejects_float [OF refl _ refl]])
qed

end
