(* ===== verification/LuaTabLib.thy ===== *)
theory LuaTabLib
  imports LuaTableWalk
begin

text \<open>
  The table library of the embedded interpreter (\<open>ltablib.c\<close> under \<open>lua/lua-5.3.1/src\<close>). As in the code,
  its functions reach a table through two access functions (\<open>TabA\<close>); here they are given with the
  laws of an array as an interface, which raw access to a table of \<open>LuaTable\<close> is shown to satisfy.
  Values are of any type, \<open>None\<close> for \<open>nil\<close>. A comparison has its own state, may fail, and need not be
  an order; that it changes the table it sorts is left out. Signed overflow of an \<open>int\<close> is a fault.
\<close>

section \<open>Access functions\<close>

datatype tab_error = BadArg nat string | LibError string | Access table_error | IntOverflow | CStack

record ('s, 'v) TabA =
  ta_geti :: "int \<Rightarrow> 's \<Rightarrow> table_error + 'v option"
  ta_seti :: "int \<Rightarrow> 'v option \<Rightarrow> 's \<Rightarrow> table_error + 's"

text \<open>Computations on the table and the state of the comparison, which they keep when they fail.\<close>

type_synonym ('st, 'a) act = "'st \<Rightarrow> (tab_error + 'a) \<times> 'st"

definition retA :: "'a \<Rightarrow> ('st, 'a) act" where "retA x st = (Inr x, st)"

definition raiseA :: "tab_error \<Rightarrow> ('st, 'a) act" where "raiseA e st = (Inl e, st)"

definition bindA :: "('st, 'a) act \<Rightarrow> ('a \<Rightarrow> ('st, 'b) act) \<Rightarrow> ('st, 'b) act" where
  "bindA m f st = (case m st of (Inl e, st1) \<Rightarrow> (Inl e, st1) | (Inr x, st1) \<Rightarrow> f x st1)"

lemma bindA_cong [fundef_cong]:
  "m = m' \<Longrightarrow> st = st' \<Longrightarrow> (\<And>x st1. m' st' = (Inr x, st1) \<Longrightarrow> f x st1 = f' x st1) \<Longrightarrow> bindA m f st = bindA m' f' st'"
  by (auto simp: bindA_def split: prod.split sum.split)

text \<open>One after the other; the second does not depend on how the first went.\<close>

definition thenA :: "('st, 'a) act \<Rightarrow> ('st, 'b) act \<Rightarrow> ('st, 'b) act" where
  "thenA m f st = bindA m (\<lambda>_. f) st"

lemma thenA_cong [fundef_cong]:
  "m st = m' st \<Longrightarrow> st = st' \<Longrightarrow> (\<And>st1. f st1 = f' st1) \<Longrightarrow> thenA m f st = thenA m' f' st'"
  by (auto simp: thenA_def bindA_def split: prod.split sum.split)

definition geti :: "('s, 'v) TabA \<Rightarrow> int \<Rightarrow> ('s \<times> 'c, 'v option) act" where
  "geti ta i st = (case ta_geti ta i (fst st) of Inl e \<Rightarrow> (Inl (Access e), st) | Inr v \<Rightarrow> (Inr v, st))"

definition seti :: "('s, 'v) TabA \<Rightarrow> int \<Rightarrow> 'v option \<Rightarrow> ('s \<times> 'c, unit) act" where
  "seti ta i v st =
     (case ta_seti ta i v (fst st) of Inl e \<Rightarrow> (Inl (Access e), st) | Inr s1 \<Rightarrow> (Inr (), (s1, snd st)))"

section \<open>Inserting, removing, moving\<close>

function move_up :: "('s, 'v) TabA \<Rightarrow> int \<Rightarrow> int \<Rightarrow> ('s \<times> 'c, unit) act" where
  "move_up ta pos i st =
     (if i > pos then
        bindA (geti ta (i - 1)) (\<lambda>v. bindA (seti ta i v) (\<lambda>_. move_up ta pos (i - 1))) st
      else retA () st)"
  by pat_completeness auto
termination by (relation "measure (\<lambda>(ta, pos, i, st). nat (i - pos))") auto

declare move_up.simps [simp del]

text \<open>\<open>pos\<close> is \<open>None\<close> when the function is called with two arguments; \<open>n\<close> is the length of the table.\<close>

definition tinsert :: "('s, 'v) TabA \<Rightarrow> int \<Rightarrow> int option \<Rightarrow> 'v option \<Rightarrow> ('s \<times> 'c, unit) act" where
  "tinsert ta n pos_arg v =
     (let e = n + 1
      in case pos_arg of
           None \<Rightarrow> seti ta e v
         | Some pos \<Rightarrow>
             if \<not> (1 \<le> pos \<and> pos \<le> e) then raiseA (BadArg 2 ''position out of bounds'')
             else bindA (move_up ta pos e) (\<lambda>_. seti ta pos v))"

function move_down :: "('s, 'v) TabA \<Rightarrow> int \<Rightarrow> int \<Rightarrow> ('s \<times> 'c, int) act" where
  "move_down ta pos sz st =
     (if pos < sz then
        bindA (geti ta (pos + 1)) (\<lambda>v. bindA (seti ta pos v) (\<lambda>_. move_down ta (pos + 1) sz)) st
      else retA pos st)"
  by pat_completeness auto
termination by (relation "measure (\<lambda>(ta, pos, sz, st). nat (sz - pos))") auto

declare move_down.simps [simp del]

definition tremove :: "('s, 'v) TabA \<Rightarrow> int \<Rightarrow> int option \<Rightarrow> ('s \<times> 'c, 'v option) act" where
  "tremove ta sz pos_arg =
     (let pos = (case pos_arg of None \<Rightarrow> sz | Some p \<Rightarrow> p)
      in if pos \<noteq> sz \<and> \<not> (1 \<le> pos \<and> pos \<le> sz + 1) then raiseA (BadArg 1 ''position out of bounds'')
         else bindA (geti ta pos)
                (\<lambda>v. bindA (move_down ta pos sz) (\<lambda>pos1. bindA (seti ta pos1 None) (\<lambda>_. retA v))))"

fun move_back :: "('s, 'v) TabA \<Rightarrow> int \<Rightarrow> int \<Rightarrow> nat \<Rightarrow> ('s \<times> 'c, unit) act" where
  "move_back ta f t 0 = retA ()"
| "move_back ta f t (Suc i) =
     bindA (geti ta (f + int i)) (\<lambda>v. bindA (seti ta (t + int i) v) (\<lambda>_. move_back ta f t i))"

fun move_forth :: "('s, 'v) TabA \<Rightarrow> int \<Rightarrow> int \<Rightarrow> nat \<Rightarrow> nat \<Rightarrow> ('s \<times> 'c, unit) act" where
  "move_forth ta f t i 0 = retA ()"
| "move_forth ta f t i (Suc m) =
     bindA (geti ta (f + int i)) (\<lambda>v. bindA (seti ta (t + int i) v) (\<lambda>_. move_forth ta f t (i + 1) m))"

definition LUA_MAXINTEGER :: int where "LUA_MAXINTEGER = 2 ^ 63 - 1"

text \<open>\<open>ta\<close> reads the first table and writes the destination.\<close>

definition tmove :: "('s, 'v) TabA \<Rightarrow> int \<Rightarrow> int \<Rightarrow> int \<Rightarrow> ('s \<times> 'c, unit) act" where
  "tmove ta f e t =
     (if e \<ge> f then
        (if \<not> (f > 0 \<or> e < LUA_MAXINTEGER + f) then raiseA (BadArg 3 ''too many elements to move'')
         else (let n = e - f + 1
               in if \<not> t \<le> LUA_MAXINTEGER - n + 1 then raiseA (BadArg 4 ''destination wrap around'')
                  else if t > f then move_back ta f t (nat n)
                  else move_forth ta f t 0 (nat n)))
      else retA ())"

section \<open>Concatenation, unpacking\<close>

text \<open>\<open>tostr\<close> is the text of a string or a number, \<open>None\<close> for every other value.\<close>

definition addfield :: "('s, 'v) TabA \<Rightarrow> ('v option \<Rightarrow> u8 list option) \<Rightarrow> u8 list \<Rightarrow> int \<Rightarrow> ('s \<times> 'c, u8 list) act" where
  "addfield ta tostr b i =
     bindA (geti ta i)
       (\<lambda>v. case tostr v of None \<Rightarrow> raiseA (LibError ''invalid value in table for concat'') | Some s \<Rightarrow> retA (b @ s))"

function concat_loop :: "('s, 'v) TabA \<Rightarrow> ('v option \<Rightarrow> u8 list option) \<Rightarrow> u8 list \<Rightarrow> int \<Rightarrow> int \<Rightarrow> u8 list \<Rightarrow>
    ('s \<times> 'c, u8 list) act" where
  "concat_loop ta tostr sep i lst b st =
     (if i < lst then bindA (addfield ta tostr b i) (\<lambda>b1. concat_loop ta tostr sep (i + 1) lst (b1 @ sep)) st
      else if i = lst then addfield ta tostr b i st
      else retA b st)"
  by pat_completeness auto
termination by (relation "measure (\<lambda>(ta, tostr, sep, i, lst, b, st). nat (lst - i))") auto

declare concat_loop.simps [simp del]

definition tconcat :: "('s, 'v) TabA \<Rightarrow> ('v option \<Rightarrow> u8 list option) \<Rightarrow> u8 list \<Rightarrow> int \<Rightarrow> int \<Rightarrow> ('s \<times> 'c, u8 list) act" where
  "tconcat ta tostr sep i lst = concat_loop ta tostr sep i lst []"

fun collect :: "('s, 'v) TabA \<Rightarrow> int \<Rightarrow> nat \<Rightarrow> ('s \<times> 'c, 'v option list) act" where
  "collect ta i 0 = retA []"
| "collect ta i (Suc m) = bindA (geti ta i) (\<lambda>v. bindA (collect ta (i + 1) m) (\<lambda>vs. retA (v # vs)))"

definition unpack :: "('s, 'v) TabA \<Rightarrow> (nat \<Rightarrow> bool) \<Rightarrow> int \<Rightarrow> int \<Rightarrow> ('s \<times> 'c, 'v option list) act" where
  "unpack ta checkstack i e =
     (if i > e then retA []
      else (let n = nat (e - i)
            in if n \<ge> MAX_INT \<or> \<not> checkstack (n + 1) then raiseA (LibError ''too many results to unpack'')
               else collect ta i (n + 1)))"

section \<open>Sorting\<close>

definition set2 :: "('s, 'v) TabA \<Rightarrow> int \<Rightarrow> int \<Rightarrow> 'v option \<Rightarrow> 'v option \<Rightarrow> ('s \<times> 'c, unit) act" where
  "set2 ta i j upper below = bindA (seti ta i upper) (\<lambda>_. seti ta j below)"

type_synonym ('v, 'c) compare = "'v option \<Rightarrow> 'v option \<Rightarrow> 'c \<Rightarrow> (tab_error + bool) \<times> 'c"

definition sort_comp :: "('v, 'c) compare \<Rightarrow> 'v option \<Rightarrow> 'v option \<Rightarrow> ('s \<times> 'c, bool) act" where
  "sort_comp cmp a b st = (case cmp a b (snd st) of (r, c1) \<Rightarrow> (r, (fst st, c1)))"

definition invalid_order :: tab_error where
  "invalid_order = LibError ''invalid order function for sorting''"

text \<open>Repeat \<open>++i\<close> until \<open>a[i] \<ge> P\<close>, and \<open>--j\<close> until \<open>a[j] \<le> P\<close>.\<close>

function scan_up :: "('s, 'v) TabA \<Rightarrow> ('v, 'c) compare \<Rightarrow> 'v option \<Rightarrow> int \<Rightarrow> int \<Rightarrow> ('s \<times> 'c, int \<times> 'v option) act" where
  "scan_up ta cmp P u i st =
     bindA (geti ta (i + 1))
       (\<lambda>ai. bindA (sort_comp cmp ai P)
          (\<lambda>b st1. if \<not> b then retA (i + 1, ai) st1
                   else if i + 1 \<ge> u then raiseA invalid_order st1
                   else scan_up ta cmp P u (i + 1) st1)) st"
  by pat_completeness auto
termination by (relation "measure (\<lambda>(ta, cmp, P, u, i, st). nat (u - i))") auto

declare scan_up.simps [simp del]

function scan_down :: "('s, 'v) TabA \<Rightarrow> ('v, 'c) compare \<Rightarrow> 'v option \<Rightarrow> int \<Rightarrow> int \<Rightarrow> ('s \<times> 'c, int \<times> 'v option) act" where
  "scan_down ta cmp P l j st =
     bindA (geti ta (j - 1))
       (\<lambda>aj. bindA (sort_comp cmp P aj)
          (\<lambda>b st1. if \<not> b then retA (j - 1, aj) st1
                   else if j - 1 \<le> l then raiseA invalid_order st1
                   else scan_down ta cmp P l (j - 1) st1)) st"
  by pat_completeness auto
termination by (relation "measure (\<lambda>(ta, cmp, P, l, j, st). nat (j - l))") auto

declare scan_down.simps [simp del]

lemma bindA_Inr: "bindA m f st = (Inr y, st2) \<longleftrightarrow> (\<exists>x st1. m st = (Inr x, st1) \<and> f x st1 = (Inr y, st2))"
  by (auto simp: bindA_def split: prod.split sum.split)

lemma scan_up_range: "scan_up ta cmp P u i st = (Inr (i1, v), st1) \<Longrightarrow> i < i1 \<and> (i < u \<longrightarrow> i1 \<le> u)"
proof (induction ta cmp P u i st rule: scan_up.induct)
  case (1 ta cmp P u i st)
  from "1.prems" obtain ai sa b sb where r: "geti ta (i + 1) st = (Inr ai, sa)" "sort_comp cmp ai P sa = (Inr b, sb)"
    "(if \<not> b then retA (i + 1, ai) sb else if i + 1 \<ge> u then raiseA invalid_order sb else scan_up ta cmp P u (i + 1) sb) =
       (Inr (i1, v), st1)"
    by (subst (asm) scan_up.simps) (auto simp: bindA_Inr)
  show ?case
  proof (cases "b \<and> i + 1 < u")
    case True
    then show ?thesis using "1.IH" [OF r(1,2)] r(3) by auto
  next
    case False
    then show ?thesis using r(3) by (auto simp: retA_def raiseA_def split: if_splits)
  qed
qed

lemma scan_down_range: "scan_down ta cmp P l j st = (Inr (j1, v), st1) \<Longrightarrow> j1 < j"
proof (induction ta cmp P l j st rule: scan_down.induct)
  case (1 ta cmp P l j st)
  from "1.prems" obtain aj sa b sb where r: "geti ta (j - 1) st = (Inr aj, sa)" "sort_comp cmp P aj sa = (Inr b, sb)"
    "(if \<not> b then retA (j - 1, aj) sb else if j - 1 \<le> l then raiseA invalid_order sb else scan_down ta cmp P l (j - 1) sb) =
       (Inr (j1, v), st1)"
    by (subst (asm) scan_down.simps) (auto simp: bindA_Inr)
  show ?case
  proof (cases "b \<and> \<not> j - 1 \<le> l")
    case True
    then show ?thesis using "1.IH" [OF r(1,2)] r(3) by auto
  next
    case False
    then show ?thesis using r(3) by (auto simp: retA_def raiseA_def split: if_splits)
  qed
qed

function partition_loop :: "('s, 'v) TabA \<Rightarrow> ('v, 'c) compare \<Rightarrow> 'v option \<Rightarrow> int \<Rightarrow> int \<Rightarrow> int \<Rightarrow> int \<Rightarrow> ('s \<times> 'c, int) act" where
  "partition_loop ta cmp P l u i j st =
     bindA (scan_up ta cmp P u i)
       (\<lambda>p st1. case p of (i1, ai) \<Rightarrow>
          bindA (scan_down ta cmp P l j)
            (\<lambda>q st2. case q of (j1, aj) \<Rightarrow>
               if j1 < i1 then retA i1 st2
               else bindA (set2 ta i1 j1 aj ai) (\<lambda>_ st3. partition_loop ta cmp P l u i1 j1 st3) st2) st1) st"
  by pat_completeness auto
termination
proof (relation "measure (\<lambda>(ta, cmp, P, l, u, i, j, st). nat (j - i))", goal_cases)
  case (2 ta cmp P l u i j st p st1 i1 ai q st2 j1 aj x st3)
  then have "i < i1" "j1 < j" using scan_up_range [of ta cmp P u i] scan_down_range [of ta cmp P l j] by blast+
  then show ?case using 2 by simp
qed simp

lemma partition_range:
  "partition_loop ta cmp P l u i j st = (Inr i1, st1) \<Longrightarrow> l \<le> i \<Longrightarrow> i < u \<Longrightarrow> j \<le> u \<Longrightarrow> l < i1 \<and> i1 \<le> u"
proof (induction ta cmp P l u i j st rule: partition_loop.induct)
  case (1 ta cmp P l u i j st)
  from "1.prems"(1) obtain p sa where up: "scan_up ta cmp P u i st = (Inr p, sa)"
    and rest: "(case p of (i1, ai) \<Rightarrow> bindA (scan_down ta cmp P l j) (\<lambda>q st2. case q of (j1, aj) \<Rightarrow>
        if j1 < i1 then retA i1 st2
        else bindA (set2 ta i1 j1 aj ai) (\<lambda>_ st3. partition_loop ta cmp P l u i1 j1 st3) st2) sa) = (Inr i1, st1)"
    unfolding partition_loop.simps [of ta cmp P l u i j st] bindA_Inr by blast
  obtain i2 ai where p: "p = (i2, ai)" by fastforce
  from rest obtain q sb where down: "scan_down ta cmp P l j sa = (Inr q, sb)"
    and rest2: "(case q of (j1, aj) \<Rightarrow> if j1 < i2 then retA i2 sb
        else bindA (set2 ta i2 j1 aj ai) (\<lambda>_ st3. partition_loop ta cmp P l u i2 j1 st3) sb) = (Inr i1, st1)"
    unfolding p prod.case bindA_Inr by blast
  obtain j2 aj where q: "q = (j2, aj)" by fastforce
  note r = up [unfolded p] down [unfolded q] rest2 [unfolded q prod.case]
  have i: "i < i2" "i2 \<le> u" using scan_up_range [OF r(1)] "1.prems"(3) by auto
  have j: "j2 < j" using scan_down_range [OF r(2)] .
  show ?case
  proof (cases "j2 < i2")
    case True
    then show ?thesis using r(3) i "1.prems"(2) by (simp add: retA_def)
  next
    case False
    then obtain y sc where s: "set2 ta i2 j2 aj ai sb = (Inr y, sc)" "partition_loop ta cmp P l u i2 j2 sc = (Inr i1, st1)"
      using r(3) by (auto simp: bindA_Inr)
    show ?thesis
      by (rule "1.IH" [OF r(1) refl r(2) refl False s]) (use i j False "1.prems" in auto)
  qed
qed

text \<open>
  The nested call has a depth that the C stack bounds; the rest of the loop is the tail call.
\<close>

definition median3 :: "('s, 'v) TabA \<Rightarrow> ('v, 'c) compare \<Rightarrow> int \<Rightarrow> int \<Rightarrow> int \<Rightarrow> ('s \<times> 'c, unit) act" where
  "median3 ta cmp l i u =
     bindA (geti ta i) (\<lambda>ai. bindA (geti ta l) (\<lambda>al. bindA (sort_comp cmp ai al) (\<lambda>b.
       if b then set2 ta i l al ai
       else bindA (geti ta u) (\<lambda>au. bindA (sort_comp cmp au ai) (\<lambda>b2.
              if b2 then set2 ta i u au ai else retA ())))))"

definition order_ends :: "('s, 'v) TabA \<Rightarrow> ('v, 'c) compare \<Rightarrow> int \<Rightarrow> int \<Rightarrow> ('s \<times> 'c, unit) act" where
  "order_ends ta cmp l u =
     bindA (geti ta l) (\<lambda>al. bindA (geti ta u) (\<lambda>au. bindA (sort_comp cmp au al) (\<lambda>b.
       if b then set2 ta l u au al else retA ())))"

definition partition :: "('s, 'v) TabA \<Rightarrow> ('v, 'c) compare \<Rightarrow> int \<Rightarrow> int \<Rightarrow> int \<Rightarrow> ('s \<times> 'c, int) act" where
  "partition ta cmp l i u =
     bindA (geti ta i) (\<lambda>P. bindA (geti ta (u - 1)) (\<lambda>a1. bindA (set2 ta i (u - 1) a1 P) (\<lambda>_.
       bindA (partition_loop ta cmp P l u l (u - 1)) (\<lambda>i1.
         bindA (geti ta (u - 1)) (\<lambda>a2. bindA (geti ta i1) (\<lambda>a3. bindA (set2 ta (u - 1) i1 a3 a2) (\<lambda>_. retA i1)))))))"

lemma partition_result: "partition ta cmp l i u st = (Inr i1, st1) \<Longrightarrow> l < u \<Longrightarrow> l < i1 \<and> i1 \<le> u"
  unfolding partition_def bindA_Inr retA_def using partition_range [of ta cmp _ l u l "u - 1"] by fastforce

function auxsort :: "nat \<Rightarrow> ('s, 'v) TabA \<Rightarrow> ('v, 'c) compare \<Rightarrow> int \<Rightarrow> int \<Rightarrow> ('s \<times> 'c, unit) act" where
  "auxsort d ta cmp l u st =
     (if \<not> l < u then retA () st
      else bindA (order_ends ta cmp l u)
        (\<lambda>_ st1. if u - l = 1 then retA () st1
           else if l + u > int MAX_INT then raiseA IntOverflow st1
           else bindA (median3 ta cmp l ((l + u) div 2) u)
             (\<lambda>_ st2. if u - l = 2 then retA () st2
                else bindA (partition ta cmp l ((l + u) div 2) u)
                  (\<lambda>i st3. case d of 0 \<Rightarrow> raiseA CStack st3
                     | Suc d1 \<Rightarrow>
                         if i - l < u - i then thenA (auxsort d1 ta cmp l (i - 1)) (auxsort d ta cmp (i + 1) u) st3
                         else thenA (auxsort d1 ta cmp (i + 1) u) (auxsort d ta cmp l (i - 1)) st3) st2) st1) st)"
  by pat_completeness auto
termination
  by (relation "measure (\<lambda>(d, ta, cmp, l, u, st). nat (u - l))") (auto dest!: partition_result)

declare auxsort.simps [simp del]

text \<open>\<open>n\<close> is the length, cut to an \<open>int\<close>.\<close>

definition sort_table :: "nat \<Rightarrow> ('s, 'v) TabA \<Rightarrow> ('v, 'c) compare \<Rightarrow> int \<Rightarrow> ('s \<times> 'c, unit) act" where
  "sort_table d ta cmp n = auxsort d ta cmp 1 (signed_take_bit 31 n)"

section \<open>The laws of an array\<close>

definition index_ok :: "int \<Rightarrow> bool" where
  "index_ok i \<longleftrightarrow> - (2 ^ 63) \<le> i \<and> i < 2 ^ 63"

text \<open>
  What the functions rely on: \<open>src\<close> is what can be read, \<open>dst\<close> what has been written; the two are the
  same array (\<open>shared\<close>) or different ones. Writing to an index that has a value never fails.
\<close>

locale array_access =
  fixes ta :: "('s, 'v) TabA"
    and ok :: "'s \<Rightarrow> bool"
    and src :: "'s \<Rightarrow> int \<Rightarrow> 'v option"
    and dst :: "'s \<Rightarrow> int \<Rightarrow> 'v option"
    and shared :: bool
  assumes geti_src: "ok s \<Longrightarrow> index_ok i \<Longrightarrow> ta_geti ta i s = Inr (src s i)"
    and seti_ok: "ok s \<Longrightarrow> index_ok i \<Longrightarrow> ta_seti ta i v s = Inr s1 \<Longrightarrow> ok s1"
    and seti_dst: "ok s \<Longrightarrow> index_ok i \<Longrightarrow> ta_seti ta i v s = Inr s1 \<Longrightarrow> index_ok j \<Longrightarrow>
      dst s1 j = (if j = i then v else dst s j)"
    and seti_src: "ok s \<Longrightarrow> index_ok i \<Longrightarrow> ta_seti ta i v s = Inr s1 \<Longrightarrow> index_ok j \<Longrightarrow>
      src s1 j = (if shared \<and> j = i then v else src s j)"
    and seti_present: "ok s \<Longrightarrow> index_ok i \<Longrightarrow> dst s i \<noteq> None \<Longrightarrow> \<exists>s1. ta_seti ta i v s = Inr s1"
    and seti_error: "ok s \<Longrightarrow> index_ok i \<Longrightarrow> ta_seti ta i v s = Inl e \<Longrightarrow> e = TableOverflow \<or> e = OutOfBounds"
    and shared_same: "shared \<Longrightarrow> dst = src"
begin

lemma geti_eval: "ok s \<Longrightarrow> index_ok i \<Longrightarrow> geti ta i (s, c) = (Inr (src s i), (s, c))"
  by (simp add: geti_def geti_src)

end

end
