(* ===== verification/LuaTabSort.thy ===== *)
theory LuaTabSort
  imports LuaTabLib
begin

text \<open>
  Sorting (\<open>auxsort\<close> of \<open>ltablib.c\<close>) over any array: whatever the comparison answers, the part is
  permuted and nothing else is touched; if it is a strict weak order the part is sorted at the end. The
  nested calls go at most as deep as the logarithm of the size.
\<close>

section \<open>Permutations of a part of an array\<close>

definition vals :: "(int \<Rightarrow> 'x) \<Rightarrow> int \<Rightarrow> int \<Rightarrow> 'x multiset" where
  "vals b l u = image_mset b (mset_set {l..u})"

definition perm :: "int \<Rightarrow> int \<Rightarrow> (int \<Rightarrow> 'x) \<Rightarrow> (int \<Rightarrow> 'x) \<Rightarrow> bool" where
  "perm l u a b \<longleftrightarrow> (\<forall>i. index_ok i \<longrightarrow> i < l \<or> u < i \<longrightarrow> b i = a i) \<and> vals b l u = vals a l u"

lemma set_vals [simp]: "set_mset (vals b l u) = b ` {l..u}"
  by (simp add: vals_def)

lemma perm_refl [simp]: "perm l u a a"
  by (simp add: perm_def)

lemma perm_trans: "perm l u a b \<Longrightarrow> perm l u b c \<Longrightarrow> perm l u a c"
  by (simp add: perm_def)

lemma perm_image: "perm l u a b \<Longrightarrow> b ` {l..u} = a ` {l..u}"
  unfolding perm_def by (metis set_vals)

lemma vals_split: "{l1..u1} \<subseteq> {l..u} \<Longrightarrow> vals b l u = vals b l1 u1 + image_mset b (mset_set ({l..u} - {l1..u1}))"
proof -
  assume "{l1..u1} \<subseteq> {l..u}"
  then have "{l..u} = {l1..u1} \<union> ({l..u} - {l1..u1})" by blast
  then have "mset_set {l..u} = mset_set {l1..u1} + mset_set ({l..u} - {l1..u1})"
    using mset_set_Union [of "{l1..u1}" "{l..u} - {l1..u1}"] by auto
  then show ?thesis by (simp add: vals_def)
qed

lemma perm_widen:
  assumes "perm l1 u1 a b" "l \<le> l1" "u1 \<le> u" "index_ok l" "index_ok u"
  shows "perm l u a b"
proof (cases "l1 \<le> u1")
  case True
  then have sub: "{l1..u1} \<subseteq> {l..u}" using assms(2,3) by auto
  have "image_mset b (mset_set ({l..u} - {l1..u1})) = image_mset a (mset_set ({l..u} - {l1..u1}))"
    by (rule image_mset_cong) (use assms in \<open>auto simp: perm_def index_ok_def\<close>)
  then have "vals b l u = vals a l u" using assms(1) by (simp add: vals_split [OF sub] perm_def)
  then show ?thesis using assms by (auto simp: perm_def)
next
  case False
  then have eq: "b i = a i" if "index_ok i" for i using assms(1) that by (auto simp: perm_def)
  then have "vals b l u = vals a l u"
    unfolding vals_def by (intro image_mset_cong) (use assms(4,5) in \<open>auto simp: index_ok_def\<close>)
  then show ?thesis using eq by (simp add: perm_def)
qed

lemma perm_swap:
  assumes i: "l \<le> i" "i \<le> u" and j: "l \<le> j" "j \<le> u" and u: "index_ok l" "index_ok u"
    and b1: "\<And>k. index_ok k \<Longrightarrow> b1 k = (if k = j then b i else if k = i then b j else b k)"
  shows "perm l u b b1"
proof -
  have ok: "index_ok k" if "k \<in> {l..u}" for k using that u by (auto simp: index_ok_def)
  have "vals b1 l u = vals b l u"
  proof (cases "i = j")
    case True
    then show ?thesis unfolding vals_def by (intro image_mset_cong) (use ok b1 in auto)
  next
    case False
    let ?R = "{l..u} - {i, j}"
    have "{l..u} = insert i (insert j ?R)" using i j by auto
    moreover have "mset_set (insert i (insert j ?R)) = add_mset i (add_mset j (mset_set ?R))" using False by simp
    ultimately have m: "mset_set {l..u} = add_mset i (add_mset j (mset_set ?R))" by metis
    have "image_mset b1 (mset_set ?R) = image_mset b (mset_set ?R)"
      by (rule image_mset_cong) (use ok b1 in auto)
    moreover have "b1 i = b j" "b1 j = b i" using ok b1 i j False by auto
    ultimately show ?thesis unfolding vals_def m by simp
  qed
  moreover have "index_ok k \<Longrightarrow> k < l \<or> u < k \<Longrightarrow> b1 k = b k" for k using b1 i j by auto
  ultimately show ?thesis by (simp add: perm_def)
qed

section \<open>Comparisons that are orders\<close>

text \<open>On the values of \<open>A\<close> the comparison never fails and is a strict weak order.\<close>

definition orders :: "('v, 'c) compare \<Rightarrow> ('v option \<Rightarrow> 'v option \<Rightarrow> bool) \<Rightarrow> 'v option set \<Rightarrow> bool" where
  "orders cmp lt A \<longleftrightarrow> (\<forall>x \<in> A. \<forall>y \<in> A. \<forall>c. fst (cmp x y c) = Inr (lt x y)) \<and> (\<forall>x \<in> A. \<not> lt x x) \<and>
     (\<forall>x \<in> A. \<forall>y \<in> A. \<forall>z \<in> A. lt x y \<longrightarrow> lt y z \<longrightarrow> lt x z) \<and>
     (\<forall>x \<in> A. \<forall>y \<in> A. \<forall>z \<in> A. \<not> lt x y \<longrightarrow> \<not> lt y z \<longrightarrow> \<not> lt x z)"

lemma ordersD:
  assumes "orders cmp lt A"
  shows "x \<in> A \<Longrightarrow> y \<in> A \<Longrightarrow> fst (cmp x y c) = Inr (lt x y)" "x \<in> A \<Longrightarrow> \<not> lt x x"
    "x \<in> A \<Longrightarrow> y \<in> A \<Longrightarrow> z \<in> A \<Longrightarrow> lt x y \<Longrightarrow> lt y z \<Longrightarrow> lt x z"
    "x \<in> A \<Longrightarrow> y \<in> A \<Longrightarrow> z \<in> A \<Longrightarrow> \<not> lt x y \<Longrightarrow> \<not> lt y z \<Longrightarrow> \<not> lt x z"
    "x \<in> A \<Longrightarrow> y \<in> A \<Longrightarrow> lt x y \<Longrightarrow> \<not> lt y x"
  using assms unfolding orders_def by blast+

definition order_error :: "('v, 'c) compare \<Rightarrow> tab_error \<Rightarrow> bool" where
  "order_error cmp e \<longleftrightarrow> e = invalid_order \<or> (\<exists>x y c. fst (cmp x y c) = Inl e)"

definition sorted_in :: "('x \<Rightarrow> 'x \<Rightarrow> bool) \<Rightarrow> (int \<Rightarrow> 'x) \<Rightarrow> int \<Rightarrow> int \<Rightarrow> bool" where
  "sorted_in lt b l u \<longleftrightarrow> (\<forall>i j. l \<le> i \<longrightarrow> i < j \<longrightarrow> j \<le> u \<longrightarrow> \<not> lt (b j) (b i))"


section \<open>Sorting an array\<close>

locale plain_array = array_access ta ok src src True
  for ta :: "('s, 'v) TabA" and ok :: "'s \<Rightarrow> bool" and src :: "'s \<Rightarrow> int \<Rightarrow> 'v option"
begin

lemma scan_up_spec:
  assumes s: "ok s" and A: "\<And>k. i < k \<Longrightarrow> k \<le> u \<Longrightarrow> src s k \<in> A" and P: "P \<in> A" and r: "index_ok i" "index_ok u" "i < u"
    and stop: "orders cmp lt A \<Longrightarrow> i < u - 1 \<and> src s (u - 1) = P"
  shows "case scan_up ta cmp P u i (s, c) of
      (Inr (i1, v), st) \<Rightarrow> fst st = s \<and> v = src s i1 \<and> i < i1 \<and> i1 \<le> u \<and>
        (orders cmp lt A \<longrightarrow> i1 \<le> u - 1 \<and> \<not> lt v P \<and> (\<forall>k. i < k \<longrightarrow> k < i1 \<longrightarrow> lt (src s k) P))
    | (Inl e, st) \<Rightarrow> fst st = s \<and> order_error cmp e \<and> \<not> orders cmp lt A"
  using A r stop
proof (induction "nat (u - i)" arbitrary: i c rule: less_induct)
  case less
  have i1: "index_ok (i + 1)" using less.prems(2-4) by (auto simp: index_ok_def)
  have vA: "src s (i + 1) \<in> A" using less.prems(1,4) by simp
  obtain r c1 where cmp: "cmp (src s (i + 1)) P c = (r, c1)" by fastforce
  have step: "scan_up ta cmp P u i (s, c) =
      (case r of Inl e \<Rightarrow> (Inl e, (s, c1))
       | Inr b \<Rightarrow> if \<not> b then (Inr (i + 1, src s (i + 1)), (s, c1))
           else if i + 1 \<ge> u then (Inl invalid_order, (s, c1)) else scan_up ta cmp P u (i + 1) (s, c1))"
    using cmp s i1 by (subst scan_up.simps)
      (simp add: bindA_def geti_def geti_src sort_comp_def retA_def raiseA_def split: sum.split)
  have ord: "r = Inr (lt (src s (i + 1)) P)" if "orders cmp lt A"
    using ordersD(1) [OF that vA P, of c] cmp by simp
  show ?case
  proof (cases r)
    case (Inl e)
    then have "fst (cmp (src s (i + 1)) P c) = Inl e" using cmp by simp
    then have "order_error cmp e" unfolding order_error_def by blast
    then show ?thesis using step Inl ord by auto
  next
    case (Inr b)
    show ?thesis
    proof (cases b)
      case False
      then show ?thesis using step Inr less.prems(4,5) ord by auto
    next
      case True
      show ?thesis
      proof (cases "i + 1 \<ge> u")
        case end_: True
        then have "\<not> orders cmp lt A" using less.prems(5) by auto
        then show ?thesis using step Inr True end_ by (simp add: order_error_def)
      next
        case go: False
        have stop1: "i + 1 < u - 1 \<and> src s (u - 1) = P" if o: "orders cmp lt A"
        proof -
          have "src s (i + 1) = P" if "i + 1 = u - 1" using less.prems(5) [OF o] that by metis
          then have "i + 1 \<noteq> u - 1" using ord [OF o] Inr True ordersD(2) [OF o P] by auto
          then show ?thesis using less.prems(5) [OF o] by auto
        qed
        have IH: "case scan_up ta cmp P u (i + 1) (s, c1) of
            (Inr (i1, v), st) \<Rightarrow> fst st = s \<and> v = src s i1 \<and> i + 1 < i1 \<and> i1 \<le> u \<and>
              (orders cmp lt A \<longrightarrow> i1 \<le> u - 1 \<and> \<not> lt v P \<and> (\<forall>k. i + 1 < k \<longrightarrow> k < i1 \<longrightarrow> lt (src s k) P))
          | (Inl e, st) \<Rightarrow> fst st = s \<and> order_error cmp e \<and> \<not> orders cmp lt A"
          by (rule less.hyps) (use go less.prems(1,3,4) i1 stop1 in auto)
        have lt1: "orders cmp lt A \<Longrightarrow> lt (src s (i + 1)) P" using ord Inr True by simp
        show ?thesis
        proof (cases "fst (scan_up ta cmp P u (i + 1) (s, c1))")
          case (Inl e)
          then show ?thesis using IH step \<open>r = Inr b\<close> True go by (auto split: prod.splits)
        next
          case (Inr p)
          have nxt: "k = i + 1 \<or> i + 1 < k" if "i < k" for k :: int using that by linarith
          show ?thesis using IH step \<open>r = Inr b\<close> True go Inr lt1 nxt by (auto split: prod.splits)
        qed
      qed
    qed
  qed
qed

lemma scan_down_spec:
  assumes s: "ok s" and A: "\<And>k. l \<le> k \<Longrightarrow> k < j \<Longrightarrow> src s k \<in> A" and P: "P \<in> A" and r: "index_ok l" "index_ok j" "l < j"
    and stop: "orders cmp lt A \<Longrightarrow> \<not> lt P (src s l)"
  shows "case scan_down ta cmp P l j (s, c) of
      (Inr (j1, v), st) \<Rightarrow> fst st = s \<and> v = src s j1 \<and> l \<le> j1 \<and> j1 < j \<and>
        (orders cmp lt A \<longrightarrow> \<not> lt P v \<and> (\<forall>k. j1 < k \<longrightarrow> k < j \<longrightarrow> lt P (src s k)))
    | (Inl e, st) \<Rightarrow> fst st = s \<and> order_error cmp e \<and> \<not> orders cmp lt A"
  using A r
proof (induction "nat (j - l)" arbitrary: j c rule: less_induct)
  case less
  have j1: "index_ok (j - 1)" using less.prems(2-4) by (auto simp: index_ok_def)
  have vA: "src s (j - 1) \<in> A" using less.prems(1,4) by simp
  obtain r c1 where cmp: "cmp P (src s (j - 1)) c = (r, c1)" by fastforce
  have step: "scan_down ta cmp P l j (s, c) =
      (case r of Inl e \<Rightarrow> (Inl e, (s, c1))
       | Inr b \<Rightarrow> if \<not> b then (Inr (j - 1, src s (j - 1)), (s, c1))
           else if j - 1 \<le> l then (Inl invalid_order, (s, c1)) else scan_down ta cmp P l (j - 1) (s, c1))"
    using cmp s j1 by (subst scan_down.simps)
      (simp add: bindA_def geti_def geti_src sort_comp_def retA_def raiseA_def split: sum.split)
  have ord: "r = Inr (lt P (src s (j - 1)))" if "orders cmp lt A"
    using ordersD(1) [OF that P vA, of c] cmp by simp
  show ?case
  proof (cases r)
    case (Inl e)
    then have "fst (cmp P (src s (j - 1)) c) = Inl e" using cmp by simp
    then have "order_error cmp e" unfolding order_error_def by blast
    then show ?thesis using step Inl ord by auto
  next
    case (Inr b)
    show ?thesis
    proof (cases b)
      case False
      then show ?thesis using step Inr less.prems(4) ord by auto
    next
      case True
      show ?thesis
      proof (cases "j - 1 \<le> l")
        case end_: True
        then have "j - 1 = l" using less.prems(4) by simp
        then have "\<not> orders cmp lt A" using stop ord Inr True by auto
        then show ?thesis using step Inr True end_ by (simp add: order_error_def)
      next
        case go: False
        have IH: "case scan_down ta cmp P l (j - 1) (s, c1) of
            (Inr (j1, v), st) \<Rightarrow> fst st = s \<and> v = src s j1 \<and> l \<le> j1 \<and> j1 < j - 1 \<and>
              (orders cmp lt A \<longrightarrow> \<not> lt P v \<and> (\<forall>k. j1 < k \<longrightarrow> k < j - 1 \<longrightarrow> lt P (src s k)))
          | (Inl e, st) \<Rightarrow> fst st = s \<and> order_error cmp e \<and> \<not> orders cmp lt A"
          by (rule less.hyps) (use go less.prems(1,2,4) j1 in auto)
        have lt1: "orders cmp lt A \<Longrightarrow> lt P (src s (j - 1))" using ord Inr True by simp
        show ?thesis
        proof (cases "fst (scan_down ta cmp P l (j - 1) (s, c1))")
          case (Inl e)
          then show ?thesis using IH step \<open>r = Inr b\<close> True go by (auto split: prod.splits)
        next
          case (Inr p)
          have nxt: "k = j - 1 \<or> k < j - 1" if "k < j" for k :: int using that by linarith
          show ?thesis using IH step \<open>r = Inr b\<close> True go Inr lt1 nxt by (auto split: prod.splits)
        qed
      qed
    qed
  qed
qed

text \<open>A state in the middle of sorting the part from \<open>l\<close> to \<open>u\<close> of \<open>a\<close>.\<close>

definition sorting :: "int \<Rightarrow> int \<Rightarrow> (int \<Rightarrow> 'v option) \<Rightarrow> 's \<Rightarrow> bool" where
  "sorting l u a s \<longleftrightarrow> ok s \<and> perm l u a (src s)"

lemma sortingD:
  assumes "sorting l u a s"
  shows "ok s" "perm l u a (src s)" "src s ` {l..u} = a ` {l..u}"
  using assms perm_image [of l u a "src s"] by (simp_all add: sorting_def)

lemma sorting_in: "sorting l u a s \<Longrightarrow> a ` {l..u} \<subseteq> A \<Longrightarrow> l \<le> k \<Longrightarrow> k \<le> u \<Longrightarrow> src s k \<in> A"
  using sortingD(3) [of l u a s] by (metis atLeastAtMost_iff image_eqI subsetD)

lemma swap_works:
  assumes st: "sorting l u a s" and none: "None \<notin> a ` {l..u}" and b: "index_ok l" "index_ok u"
    and i: "l \<le> i" "i \<le> u" and j: "l \<le> j" "j \<le> u"
  obtains s1 where "set2 ta i j (src s j) (src s i) (s, c) = (Inr (), (s1, c))" "sorting l u a s1"
    "\<And>k. index_ok k \<Longrightarrow> src s1 k = (if k = j then src s i else if k = i then src s j else src s k)"
proof -
  note d = sortingD [OF st]
  have ix: "index_ok i" "index_ok j" using i j b by (auto simp: index_ok_def)
  have v: "src s i \<noteq> None" "src s j \<noteq> None" using sorting_in [OF st subset_refl] i j none by metis+
  obtain s1 where s1: "ta_seti ta i (src s j) s = Inr s1" using seti_present [OF d(1) ix(1) v(1)] by blast
  have o1: "ok s1" "\<And>k. index_ok k \<Longrightarrow> src s1 k = (if k = i then src s j else src s k)"
    using seti_ok [OF d(1) ix(1) s1] seti_dst [OF d(1) ix(1) s1] by simp_all
  have "src s1 j \<noteq> None" using o1(2) [OF ix(2)] v by auto
  then obtain s2 where s2: "ta_seti ta j (src s i) s1 = Inr s2" using seti_present [OF o1(1) ix(2)] by blast
  have o2: "ok s2" "\<And>k. index_ok k \<Longrightarrow> src s2 k = (if k = j then src s i else src s1 k)"
    using seti_ok [OF o1(1) ix(2) s2] seti_dst [OF o1(1) ix(2) s2] by simp_all
  have ch: "index_ok k \<Longrightarrow> src s2 k = (if k = j then src s i else if k = i then src s j else src s k)" for k
    using o1(2) o2(2) by simp
  have "perm l u (src s) (src s2)" by (rule perm_swap [OF i j b ch])
  then have "sorting l u a s2" using o2(1) perm_trans [OF d(2)] by (simp add: sorting_def)
  moreover have "set2 ta i j (src s j) (src s i) (s, c) = (Inr (), (s2, c))"
    by (simp add: set2_def bindA_def seti_def s1 s2)
  ultimately show ?thesis using that ch by blast
qed

definition split_at :: "('v option \<Rightarrow> 'v option \<Rightarrow> bool) \<Rightarrow> (int \<Rightarrow> 'v option) \<Rightarrow> int \<Rightarrow> int \<Rightarrow> int \<Rightarrow> int \<Rightarrow> 'v option \<Rightarrow> bool" where
  "split_at lt b l i j u P \<longleftrightarrow> (\<forall>k. l \<le> k \<longrightarrow> k \<le> i \<longrightarrow> \<not> lt P (b k)) \<and> (\<forall>k. j \<le> k \<longrightarrow> k \<le> u \<longrightarrow> \<not> lt (b k) P)"

lemma partition_loop_spec:
  assumes st: "sorting l u a s" and sub: "a ` {l..u} \<subseteq> A" and none: "None \<notin> A" and b: "index_ok l" "index_ok u"
    and ij: "l \<le> i" "i < u - 1" "l < j" "j \<le> u - 1" and P: "src s (u - 1) = P"
    and part: "orders cmp lt A \<Longrightarrow> split_at lt (src s) l i j u P"
  shows "case partition_loop ta cmp P l u i j (s, c) of
      (Inr i1, st) \<Rightarrow> sorting l u a (fst st) \<and> src (fst st) (u - 1) = P \<and> l < i1 \<and> i1 \<le> u \<and>
        (orders cmp lt A \<longrightarrow> i1 \<le> u - 1 \<and> split_at lt (src (fst st)) l (i1 - 1) i1 u P)
    | (Inl e, st) \<Rightarrow> sorting l u a (fst st) \<and> order_error cmp e \<and> \<not> orders cmp lt A"
  using st ij P part
proof (induction "nat (j - i)" arbitrary: i j s c rule: less_induct)
  case less
  note d = sortingD [OF less.prems(1)]
  have inA: "src s k \<in> A" if "l \<le> k" "k \<le> u" for k using sorting_in [OF less.prems(1) sub that] .
  have PA: "P \<in> A" using inA [of "u - 1"] less.prems(2-6) by simp
  have ix: "index_ok i" "index_ok j" using less.prems(2-5) b by (auto simp: index_ok_def)
  have up: "case scan_up ta cmp P u i (s, c) of
      (Inr (i1, v), st) \<Rightarrow> fst st = s \<and> v = src s i1 \<and> i < i1 \<and> i1 \<le> u \<and>
        (orders cmp lt A \<longrightarrow> i1 \<le> u - 1 \<and> \<not> lt v P \<and> (\<forall>k. i < k \<longrightarrow> k < i1 \<longrightarrow> lt (src s k) P))
    | (Inl e, st) \<Rightarrow> fst st = s \<and> order_error cmp e \<and> \<not> orders cmp lt A"
    by (rule scan_up_spec) (use d inA PA ix b less.prems(2,3,6) in auto)
  show ?case
  proof -
    obtain r sa where Pair: "scan_up ta cmp P u i (s, c) = (r, sa)" by (rule prod.exhaust)
    show ?thesis
    proof (cases r)
      case (Inl e)
      then have "partition_loop ta cmp P l u i j (s, c) = (Inl e, sa)"
        using Pair by (subst partition_loop.simps) (simp add: bindA_def)
      then show ?thesis using up Pair Inl less.prems(1) by simp
    next
      case (Inr p)
      obtain i1 v where p: "p = (i1, v)" by fastforce
      obtain c1 where sa: "sa = (s, c1)" using up Pair Inr p by (cases sa) auto
      have u1: "v = src s i1" "i < i1" "i1 \<le> u" and u2: "orders cmp lt A \<Longrightarrow>
          i1 \<le> u - 1 \<and> \<not> lt v P \<and> (\<forall>k. i < k \<longrightarrow> k < i1 \<longrightarrow> lt (src s k) P)"
        using up Pair Inr p by auto
      have down: "case scan_down ta cmp P l j (s, c1) of
          (Inr (j1, w), st) \<Rightarrow> fst st = s \<and> w = src s j1 \<and> l \<le> j1 \<and> j1 < j \<and>
            (orders cmp lt A \<longrightarrow> \<not> lt P w \<and> (\<forall>k. j1 < k \<longrightarrow> k < j \<longrightarrow> lt P (src s k)))
        | (Inl e, st) \<Rightarrow> fst st = s \<and> order_error cmp e \<and> \<not> orders cmp lt A"
        by (rule scan_down_spec) (use d inA PA ix b less.prems(2-5,7) in \<open>auto simp: split_at_def\<close>)
      show ?thesis
      proof -
        note upr = Pair
        obtain q sb where Pair: "scan_down ta cmp P l j (s, c1) = (q, sb)" by (rule prod.exhaust)
        show ?thesis
        proof (cases q)
          case (Inl e)
          then have "partition_loop ta cmp P l u i j (s, c) = (Inl e, sb)"
            using Pair upr \<open>r = Inr p\<close> p sa
            by (subst partition_loop.simps) (simp add: bindA_def)
          then show ?thesis using down Pair Inl less.prems(1) by simp
        next
          case (Inr w1)
          obtain j1 w where w1: "w1 = (j1, w)" by fastforce
          obtain c2 where sb: "sb = (s, c2)" using down Pair Inr w1 by (cases sb) auto
          have d1: "w = src s j1" "l \<le> j1" "j1 < j" and d2: "orders cmp lt A \<Longrightarrow>
              \<not> lt P w \<and> (\<forall>k. j1 < k \<longrightarrow> k < j \<longrightarrow> lt P (src s k))"
            using down Pair Inr w1 by auto
          have step: "partition_loop ta cmp P l u i j (s, c) =
              (if j1 < i1 then (Inr i1, (s, c2))
               else bindA (set2 ta i1 j1 w v) (\<lambda>_ st3. partition_loop ta cmp P l u i1 j1 st3) (s, c2))"
            using Pair Inr w1 sb upr \<open>r = Inr p\<close> p sa
            by (subst partition_loop.simps) (simp add: bindA_def retA_def)
          have low: "\<not> lt P (src s k)" if o: "orders cmp lt A" and k: "l \<le> k" "k < i1" for k
          proof (cases "k \<le> i")
            case True
            then show ?thesis using less.prems(7) [OF o] k by (simp add: split_at_def)
          next
            case False
            then show ?thesis using u2 [OF o] ordersD(5) [OF o inA PA] k u1(3) by auto
          qed
          have high: "\<not> lt (src s k) P" if o: "orders cmp lt A" and k: "j1 < k" "k \<le> u" for k
          proof (cases "j \<le> k")
            case True
            then show ?thesis using less.prems(7) [OF o] k by (simp add: split_at_def)
          next
            case False
            then show ?thesis using d2 [OF o] ordersD(5) [OF o PA inA] k d1(2) by auto
          qed
          show ?thesis
          proof (cases "j1 < i1")
            case True
            then have "split_at lt (src s) l (i1 - 1) i1 u P" if "orders cmp lt A"
              using low [OF that] high [OF that] by (simp add: split_at_def)
            then show ?thesis using step True less.prems(1,2,6) u1 u2 by simp
          next
            case False
            have rg: "i1 \<le> u" "l \<le> i1" "l \<le> j1" "j1 \<le> u" using u1 d1 less.prems(2-5) False by auto
            obtain s1 where s1: "set2 ta i1 j1 (src s j1) (src s i1) (s, c2) = (Inr (), (s1, c2))" "sorting l u a s1"
              "\<And>k. index_ok k \<Longrightarrow> src s1 k = (if k = j1 then src s i1 else if k = i1 then src s j1 else src s k)"
              by (rule swap_works [OF less.prems(1) _ b rg(2,1) rg(3,4)]) (use none sub in auto)
            have ok: "index_ok k" if "l \<le> k" "k \<le> u" for k using that b by (auto simp: index_ok_def)
            have "src s1 (u - 1) = P" using s1(3) [OF ok [of "u - 1"]] less.prems(2-6) u1 d1 False by auto
            moreover have "split_at lt (src s1) l i1 j1 u P" if o: "orders cmp lt A"
              unfolding split_at_def
            proof (intro conjI allI impI)
              fix k assume k: "l \<le> k" "k \<le> i1"
              show "\<not> lt P (src s1 k)"
                using s1(3) [OF ok [of k]] k rg low [OF o, of k] d2 [OF o] d1(1) False by (auto split: if_splits)
            next
              fix k assume k: "j1 \<le> k" "k \<le> u"
              show "\<not> lt (src s1 k) P"
                using s1(3) [OF ok [of k]] k rg high [OF o, of k] u2 [OF o] u1(1) False by (auto split: if_splits)
            qed
            ultimately have IH: "case partition_loop ta cmp P l u i1 j1 (s1, c2) of
                (Inr i1, st) \<Rightarrow> sorting l u a (fst st) \<and> src (fst st) (u - 1) = P \<and> l < i1 \<and> i1 \<le> u \<and>
                  (orders cmp lt A \<longrightarrow> i1 \<le> u - 1 \<and> split_at lt (src (fst st)) l (i1 - 1) i1 u P)
              | (Inl e, st) \<Rightarrow> sorting l u a (fst st) \<and> order_error cmp e \<and> \<not> orders cmp lt A"
              by (intro less.hyps) (use s1(2) u1 d1 less.prems(2-5) False in auto)
            have "partition_loop ta cmp P l u i j (s, c) = partition_loop ta cmp P l u i1 j1 (s1, c2)"
              using step False s1(1) u1(1) d1(1) by (simp add: bindA_def)
            then show ?thesis using IH by simp
          qed
        qed
      qed
    qed
  qed
qed

lemma comp_cases:
  assumes "x \<in> A" "y \<in> A"
  obtains (err) e c1 where "sort_comp cmp x y (s, c) = (Inl e, (s, c1))" "order_error cmp e" "\<not> orders cmp lt A"
  | (res) b c1 where "sort_comp cmp x y (s, c) = (Inr b, (s, c1))" "orders cmp lt A \<Longrightarrow> b = lt x y"
proof -
  obtain r c1 where r: "cmp x y c = (r, c1)" by (rule prod.exhaust)
  have o: "r = Inr (lt x y)" if "orders cmp lt A" using ordersD(1) [OF that assms, of c] r by simp
  show ?thesis
  proof (cases r)
    case (Inl e)
    then have "fst (cmp x y c) = Inl e" using r by simp
    then have "order_error cmp e" unfolding order_error_def by blast
    then show ?thesis using err r Inl o by (auto simp: sort_comp_def)
  next
    case (Inr b)
    then show ?thesis using res r o by (auto simp: sort_comp_def)
  qed
qed

lemma order_ends_spec:
  assumes st: "sorting l u a s" and sub: "a ` {l..u} \<subseteq> A" and none: "None \<notin> A" and b: "index_ok l" "index_ok u" "l < u"
  shows "case order_ends ta cmp l u (s, c) of
      (Inr _, st) \<Rightarrow> sorting l u a (fst st) \<and> (orders cmp lt A \<longrightarrow> \<not> lt (src (fst st) u) (src (fst st) l))
    | (Inl e, st) \<Rightarrow> sorting l u a (fst st) \<and> order_error cmp e \<and> \<not> orders cmp lt A"
proof -
  note d = sortingD [OF st]
  have nn: "None \<notin> a ` {l..u}" and r: "l \<le> l" "l \<le> u" "u \<le> u" using none sub b(3) by auto
  have inA: "src s u \<in> A" "src s l \<in> A" using sorting_in [OF st sub] b(3) by simp_all
  from inA show ?thesis
  proof (cases rule: comp_cases [where cmp = cmp and lt = lt and s = s and c = c])
    case (err e c1)
    then show ?thesis using st by (simp add: order_ends_def bindA_def geti_eval d(1) b)
  next
    case (res t c1)
    show ?thesis
    proof (cases t)
      case False
      then show ?thesis using res st by (simp add: order_ends_def bindA_def geti_eval d(1) b retA_def)
    next
      case True
      obtain s1 where s1: "set2 ta l u (src s u) (src s l) (s, c1) = (Inr (), (s1, c1))" "sorting l u a s1"
        "\<And>k. index_ok k \<Longrightarrow> src s1 k = (if k = u then src s l else if k = l then src s u else src s k)"
        by (rule swap_works [where c = c1, OF st nn b(1,2) r(1,2) r(2,3)]) blast
      have "orders cmp lt A \<Longrightarrow> \<not> lt (src s1 u) (src s1 l)"
        using s1(3) b res(2) True ordersD(5) [OF _ inA] by auto
      then show ?thesis using res True s1(1,2) by (simp add: order_ends_def bindA_def geti_eval d(1) b)
    qed
  qed
qed

lemma median3_spec:
  assumes st: "sorting l u a s" and sub: "a ` {l..u} \<subseteq> A" and none: "None \<notin> A" and b: "index_ok l" "index_ok u" "l < i" "i < u"
    and ends: "orders cmp lt A \<Longrightarrow> \<not> lt (src s u) (src s l)"
  shows "case median3 ta cmp l i u (s, c) of
      (Inr _, st) \<Rightarrow> sorting l u a (fst st) \<and> (orders cmp lt A \<longrightarrow>
        \<not> lt (src (fst st) u) (src (fst st) l) \<and> \<not> lt (src (fst st) i) (src (fst st) l) \<and> \<not> lt (src (fst st) u) (src (fst st) i))
    | (Inl e, st) \<Rightarrow> sorting l u a (fst st) \<and> order_error cmp e \<and> \<not> orders cmp lt A"
proof -
  note d = sortingD [OF st]
  have nn: "None \<notin> a ` {l..u}" and r: "l \<le> l" "l \<le> u" "l \<le> i" "i \<le> u" "u \<le> u" using none sub b(3,4) by auto
  have inA: "src s i \<in> A" "src s u \<in> A" "src s l \<in> A" using sorting_in [OF st sub] b by simp_all
  have ix: "index_ok i" using b by (auto simp: index_ok_def)
  note ev = median3_def bindA_def geti_eval d(1) b(1,2) ix
  from inA(1,3) show ?thesis
  proof (cases rule: comp_cases [where cmp = cmp and lt = lt and s = s and c = c])
    case (err e c1)
    then show ?thesis using st by (simp add: ev)
  next
    case (res t c1)
    show ?thesis
    proof (cases t)
      case True
      obtain s1 where s1: "set2 ta i l (src s l) (src s i) (s, c1) = (Inr (), (s1, c1))" "sorting l u a s1"
        "\<And>k. index_ok k \<Longrightarrow> src s1 k = (if k = l then src s i else if k = i then src s l else src s k)"
        by (rule swap_works [where c = c1, OF st nn b(1,2) r(3,4) r(1,2)]) blast
      have "\<not> lt (src s1 u) (src s1 l) \<and> \<not> lt (src s1 i) (src s1 l) \<and> \<not> lt (src s1 u) (src s1 i)" if o: "orders cmp lt A"
      proof -
        have e: "src s1 u = src s u" "src s1 l = src s i" "src s1 i = src s l" using s1(3) b ix by auto
        have "\<not> lt (src s l) (src s i)" using ordersD(5) [OF o inA(1,3)] res(2) [OF o] True by simp
        then show ?thesis unfolding e using ordersD(4) [OF o inA(2,3,1)] ends [OF o] by blast
      qed
      then show ?thesis using res True s1(1,2) by (simp add: ev)
    next
      case False
      from inA(2,1) show ?thesis
      proof (cases rule: comp_cases [where cmp = cmp and lt = lt and s = s and c = c1])
        case (err e c2)
        then show ?thesis using res False st by (simp add: ev)
      next
        case (res t2 c2)
        note first = \<open>sort_comp cmp (src s i) (src s l) (s, c) = (Inr t, (s, c1))\<close> \<open>orders cmp lt A \<Longrightarrow> t = lt (src s i) (src s l)\<close>
        show ?thesis
        proof (cases t2)
          case f2: False
          then show ?thesis using first res False st ends by (simp add: ev retA_def)
        next
          case True
          obtain s1 where s1: "set2 ta i u (src s u) (src s i) (s, c2) = (Inr (), (s1, c2))" "sorting l u a s1"
            "\<And>k. index_ok k \<Longrightarrow> src s1 k = (if k = u then src s i else if k = i then src s u else src s k)"
            by (rule swap_works [where c = c2, OF st nn b(1,2) r(3,4) r(2,5)]) blast
          have "\<not> lt (src s1 u) (src s1 l) \<and> \<not> lt (src s1 i) (src s1 l) \<and> \<not> lt (src s1 u) (src s1 i)" if o: "orders cmp lt A"
          proof -
            have e: "src s1 u = src s i" "src s1 l = src s l" "src s1 i = src s u" using s1(3) b ix by auto
            show ?thesis unfolding e using ordersD(5) [OF o inA(2,1)] res(2) [OF o] True first(2) [OF o] False ends [OF o] by simp
          qed
          then show ?thesis using first res True False s1(1,2) by (simp add: ev)
        qed
      qed
    qed
  qed
qed

lemma partition_spec:
  assumes st: "sorting l u a s" and sub: "a ` {l..u} \<subseteq> A" and none: "None \<notin> A" and b: "index_ok l" "index_ok u" "l < i" "i < u" "l + 2 < u"
    and ends: "orders cmp lt A \<Longrightarrow> \<not> lt (src s i) (src s l) \<and> \<not> lt (src s u) (src s i)"
  shows "case partition ta cmp l i u (s, c) of
      (Inr m, st) \<Rightarrow> sorting l u a (fst st) \<and> l < m \<and> m \<le> u \<and>
        (orders cmp lt A \<longrightarrow> (\<forall>k. l \<le> k \<longrightarrow> k < m \<longrightarrow> \<not> lt (src (fst st) m) (src (fst st) k)) \<and>
          (\<forall>k. m < k \<longrightarrow> k \<le> u \<longrightarrow> \<not> lt (src (fst st) k) (src (fst st) m)))
    | (Inl e, st) \<Rightarrow> sorting l u a (fst st) \<and> order_error cmp e \<and> \<not> orders cmp lt A"
proof -
  note d = sortingD [OF st]
  have ok: "index_ok k" if "l \<le> k" "k \<le> u" for k using that b by (auto simp: index_ok_def)
  have nn: "None \<notin> a ` {l..u}" and r: "l \<le> i" "i \<le> u" "l \<le> u - 1" "u - 1 \<le> u" using none sub b by auto
  define P where "P = src s i"
  have inA: "src s k \<in> A" if "l \<le> k" "k \<le> u" for k using sorting_in [OF st sub that] .
  obtain s1 where s1: "set2 ta i (u - 1) (src s (u - 1)) (src s i) (s, c) = (Inr (), (s1, c))" "sorting l u a s1"
    "\<And>k. index_ok k \<Longrightarrow> src s1 k = (if k = u - 1 then src s i else if k = i then src s (u - 1) else src s k)"
    by (rule swap_works [where c = c, OF st nn b(1,2) r]) blast
  have P1: "src s1 (u - 1) = P" using s1(3) [OF ok [of "u - 1"]] b by (simp add: P_def)
  have part: "split_at lt (src s1) l l (u - 1) u P" if o: "orders cmp lt A"
  proof -
    have e: "src s1 l = src s l" "src s1 u = src s u" using s1(3) [OF ok [of l]] s1(3) [OF ok [of u]] b by auto
    have k: "k = u - 1 \<or> k = u" if "u - 1 \<le> k" "k \<le> u" for k :: int using that by linarith
    have "\<not> lt (src s1 k) P" if "u - 1 \<le> k" "k \<le> u" for k
      using k [OF that] ends [OF o] ordersD(2) [OF o inA [of i]] b P1 e by (auto simp: P_def)
    moreover have "\<not> lt P (src s1 k)" if "l \<le> k" "k \<le> l" for k
      using that ends [OF o] e by (simp add: P_def)
    ultimately show ?thesis by (simp add: split_at_def)
  qed
  have loop: "case partition_loop ta cmp P l u l (u - 1) (s1, c) of
      (Inr i1, st) \<Rightarrow> sorting l u a (fst st) \<and> src (fst st) (u - 1) = P \<and> l < i1 \<and> i1 \<le> u \<and>
        (orders cmp lt A \<longrightarrow> i1 \<le> u - 1 \<and> split_at lt (src (fst st)) l (i1 - 1) i1 u P)
    | (Inl e, st) \<Rightarrow> sorting l u a (fst st) \<and> order_error cmp e \<and> \<not> orders cmp lt A"
    by (rule partition_loop_spec [OF s1(2) sub none b(1,2)]) (use b P1 part in auto)
  obtain r st2 where run: "partition_loop ta cmp P l u l (u - 1) (s1, c) = (r, st2)" by (rule prod.exhaust)
  have ev: "partition ta cmp l i u (s, c) = (case r of Inl e \<Rightarrow> (Inl e, st2) | Inr i1 \<Rightarrow>
      bindA (geti ta (u - 1)) (\<lambda>a2. bindA (geti ta i1) (\<lambda>a3. bindA (set2 ta (u - 1) i1 a3 a2) (\<lambda>_. retA i1))) st2)"
    using run s1(1) ok [of i] ok [of "u - 1"] b by (simp add: partition_def bindA_def geti_eval d(1) P_def split: sum.split)
  show ?thesis
  proof (cases r)
    case (Inl e)
    then show ?thesis using loop run ev by simp
  next
    case (Inr m)
    obtain s2 c2 where st2: "st2 = (s2, c2)" by (rule prod.exhaust)
    have l2: "sorting l u a s2" "src s2 (u - 1) = P" "l < m" "m \<le> u" and l3: "orders cmp lt A \<Longrightarrow>
        m \<le> u - 1 \<and> split_at lt (src s2) l (m - 1) m u P" using loop run Inr st2 by auto
    obtain s3 where s3: "set2 ta (u - 1) m (src s2 m) (src s2 (u - 1)) (s2, c2) = (Inr (), (s3, c2))" "sorting l u a s3"
      "\<And>k. index_ok k \<Longrightarrow> src s3 k = (if k = m then src s2 (u - 1) else if k = u - 1 then src s2 m else src s2 k)"
      by (rule swap_works [where c = c2, OF l2(1) nn b(1,2) r(3,4) less_imp_le [OF l2(3)] l2(4)]) blast
    have "\<not> lt (src s3 m) (src s3 k)" if o: "orders cmp lt A" and k: "l \<le> k" "k < m" for k
      using s3(3) [OF ok [of m]] s3(3) [OF ok [of k]] l2 l3 [OF o] k by (auto simp: split_at_def)
    moreover have "\<not> lt (src s3 k) (src s3 m)" if o: "orders cmp lt A" and k: "m < k" "k \<le> u" for k
      using s3(3) [OF ok [of m]] s3(3) [OF ok [of k]] l2 l3 [OF o] k by (auto simp: split_at_def)
    moreover have "partition ta cmp l i u (s, c) = (Inr m, (s3, c2))"
      using ev Inr st2 s3(1) ok [of m] ok [of "u - 1"] l2(3,4) b sortingD(1) [OF l2(1)]
      by (simp add: bindA_def geti_eval retA_def)
    ultimately show ?thesis using s3(2) l2(3,4) by simp
  qed
qed

lemma sorted_join:
  assumes o: "orders cmp lt A" and A: "\<And>k. l \<le> k \<Longrightarrow> k \<le> u \<Longrightarrow> b k \<in> A" and m: "l \<le> m" "m \<le> u"
    and low: "sorted_in lt b l (m - 1)" "\<And>k. l \<le> k \<Longrightarrow> k < m \<Longrightarrow> \<not> lt (b m) (b k)"
    and high: "sorted_in lt b (m + 1) u" "\<And>k. m < k \<Longrightarrow> k \<le> u \<Longrightarrow> \<not> lt (b k) (b m)"
  shows "sorted_in lt b l u"
  unfolding sorted_in_def
proof (intro allI impI)
  fix i j assume ij: "l \<le> i" "i < j" "j \<le> u"
  consider "j < m" | "j = m" | "i = m" | "m < i" | "i < m" "m < j" using ij by linarith
  then show "\<not> lt (b j) (b i)"
  proof cases
    case 1
    then show ?thesis using low(1) ij by (simp add: sorted_in_def)
  next
    case 2
    then show ?thesis using low(2) ij by simp
  next
    case 3
    then show ?thesis using high(2) ij by simp
  next
    case 4
    then show ?thesis using high(1) ij by (simp add: sorted_in_def)
  next
    case 5
    then show ?thesis using ordersD(4) [OF o A [of j] A [of m] A [of i]] high(2) [of j] low(2) [of i] ij m by simp
  qed
qed

text \<open>Why a sort may fail: no order, an \<open>int\<close> too small for the sum of two indices, too deep a recursion.\<close>

definition sort_fails :: "('v, 'c) compare \<Rightarrow> ('v option \<Rightarrow> 'v option \<Rightarrow> bool) \<Rightarrow> 'v option set \<Rightarrow> nat \<Rightarrow> int \<Rightarrow> int \<Rightarrow> tab_error \<Rightarrow> bool" where
  "sort_fails cmp lt A d l u e \<longleftrightarrow> order_error cmp e \<and> \<not> orders cmp lt A \<or> e = IntOverflow \<and> 2 ^ 30 < u \<or>
     e = CStack \<and> 2 ^ (d + 2) \<le> u - l + 1"

definition sorts :: "('v, 'c) compare \<Rightarrow> ('v option \<Rightarrow> 'v option \<Rightarrow> bool) \<Rightarrow> 'v option set \<Rightarrow> nat \<Rightarrow> int \<Rightarrow> int \<Rightarrow> bool" where
  "sorts cmp lt A d l u \<longleftrightarrow> (\<forall>a s c. a ` {l..u} \<subseteq> A \<longrightarrow> None \<notin> A \<longrightarrow> sorting l u a s \<longrightarrow>
    (case auxsort d ta cmp l u (s, c) of
      (Inr _, st) \<Rightarrow> sorting l u a (fst st) \<and> (orders cmp lt A \<longrightarrow> sorted_in lt (src (fst st)) l u)
    | (Inl e, st) \<Rightarrow> sorting l u a (fst st) \<and> sort_fails cmp lt A d l u e))"

lemma sortsD:
  assumes "sorts cmp lt A d l u" "a ` {l..u} \<subseteq> A" "None \<notin> A" "sorting l u a s"
  obtains (fails) e s1 c1 where "auxsort d ta cmp l u (s, c) = (Inl e, (s1, c1))" "sorting l u a s1" "sort_fails cmp lt A d l u e"
  | (works) s1 c1 where "auxsort d ta cmp l u (s, c) = (Inr (), (s1, c1))" "sorting l u a s1"
      "orders cmp lt A \<Longrightarrow> sorted_in lt (src s1) l u"
proof -
  obtain r st where r: "auxsort d ta cmp l u (s, c) = (r, st)" by (rule prod.exhaust)
  obtain s1 c1 where st: "st = (s1, c1)" by (rule prod.exhaust)
  have "case r of Inr _ \<Rightarrow> sorting l u a s1 \<and> (orders cmp lt A \<longrightarrow> sorted_in lt (src s1) l u)
    | Inl e \<Rightarrow> sorting l u a s1 \<and> sort_fails cmp lt A d l u e"
    using assms(1) [unfolded sorts_def, rule_format, OF assms(2-4), of c] r st by (auto split: sum.splits)
  then show ?thesis using r st fails works by (cases r) auto
qed

text \<open>Sorting two parts that have only an element between them, one after the other.\<close>

lemma two_parts:
  assumes one: "sorts cmp lt A d1 l1 u1" and two: "sorts cmp lt A d2 l2 u2"
    and st: "sorting l u a s" and sub: "a ` {l..u} \<subseteq> A" and none: "None \<notin> A" and b: "index_ok l" "index_ok u"
    and in1: "l \<le> l1" "u1 \<le> u" and in2: "l \<le> l2" "u2 \<le> u" and apart: "u1 < l2 \<or> u2 < l1"
  shows "case thenA (auxsort d1 ta cmp l1 u1) (auxsort d2 ta cmp l2 u2) (s, c) of
      (Inr _, st) \<Rightarrow> sorting l u a (fst st) \<and>
        (\<forall>k. l \<le> k \<longrightarrow> k \<le> u \<longrightarrow> \<not> (l1 \<le> k \<and> k \<le> u1) \<longrightarrow> \<not> (l2 \<le> k \<and> k \<le> u2) \<longrightarrow> src (fst st) k = src s k) \<and>
        src (fst st) ` {l1..u1} = src s ` {l1..u1} \<and> src (fst st) ` {l2..u2} = src s ` {l2..u2} \<and>
        (orders cmp lt A \<longrightarrow> sorted_in lt (src (fst st)) l1 u1 \<and> sorted_in lt (src (fst st)) l2 u2)
    | (Inl e, st) \<Rightarrow> sorting l u a (fst st) \<and> (sort_fails cmp lt A d1 l1 u1 e \<or> sort_fails cmp lt A d2 l2 u2 e)"
proof -
  note d = sortingD [OF st]
  have ok: "index_ok k" if "l \<le> k" "k \<le> u" for k using that b by (auto simp: index_ok_def)
  have sub1: "src s ` {l1..u1} \<subseteq> A" 
  proof -
    have "src s ` {l1..u1} \<subseteq> src s ` {l..u}" by (rule image_mono) (use in1 in auto)
    then show ?thesis using d(3) sub by simp
  qed
  have start1: "sorting l1 u1 (src s) s" using d(1) by (simp add: sorting_def)
  have keep: "sorting l u a t" if "sorting l' u' (src t0) t" "sorting l u a t0" "l \<le> l'" "u' \<le> u" for l' u' t t0
    using perm_widen [OF sortingD(2) [OF that(1)] that(3,4) b] perm_trans [OF sortingD(2) [OF that(2)]] sortingD(1) [OF that(1)]
    by (simp add: sorting_def)
  from one sub1 none start1 show ?thesis
  proof (cases rule: sortsD [where c = c])
    case (fails e s1 c1)
    then show ?thesis using keep [OF fails(2) st in1] by (simp add: thenA_def bindA_def)
  next
    case (works s1 c1)
    have s1: "sorting l u a s1" by (rule keep [OF works(2) st in1])
    have sub2: "src s1 ` {l2..u2} \<subseteq> A" 
    proof -
      have "src s1 ` {l2..u2} \<subseteq> src s1 ` {l..u}" by (rule image_mono) (use in2 in auto)
      then show ?thesis using sortingD(3) [OF s1] sub by simp
    qed
    have start2: "sorting l2 u2 (src s1) s1" using sortingD(1) [OF s1] by (simp add: sorting_def)
    have out1: "src s1 k = src s k" if "l \<le> k" "k \<le> u" "\<not> (l1 \<le> k \<and> k \<le> u1)" for k
      using sortingD(2) [OF works(2)] ok [OF that(1,2)] that(3) by (auto simp: perm_def not_le)
    from two sub2 none start2 show ?thesis
    proof (cases rule: sortsD [where c = c1])
      case (fails e s2 c2)
      then show ?thesis using works keep [OF fails(2) s1 in2] by (simp add: thenA_def bindA_def)
    next
      case (works s2 c2)
      note first = \<open>auxsort d1 ta cmp l1 u1 (s, c) = (Inr (), (s1, c1))\<close> \<open>sorting l1 u1 (src s) s1\<close>
        \<open>orders cmp lt A \<Longrightarrow> sorted_in lt (src s1) l1 u1\<close>
      have out2: "src s2 k = src s1 k" if "l \<le> k" "k \<le> u" "\<not> (l2 \<le> k \<and> k \<le> u2)" for k
        using sortingD(2) [OF works(2)] ok [OF that(1,2)] that(3) by (auto simp: perm_def not_le)
      have r1: "src s2 k = src s1 k" if "l1 \<le> k" "k \<le> u1" for k using out2 [of k] that in1 apart by auto
      have r2: "src s1 k = src s k" if "l2 \<le> k" "k \<le> u2" for k using out1 [of k] that in2 apart by auto
      have "src s2 ` {l1..u1} = src s ` {l1..u1}" using sortingD(3) [OF first(2)] r1 by (auto simp: image_iff)
      moreover have "src s2 ` {l2..u2} = src s ` {l2..u2}" using sortingD(3) [OF works(2)] r2 by (auto simp: image_iff)
      moreover have "sorted_in lt (src s2) l1 u1" if "orders cmp lt A"
        using first(3) [OF that] r1 by (auto simp: sorted_in_def)
      ultimately show ?thesis
        using first(1) works(1,3) keep [OF works(2) s1 in2] out1 out2 by (simp add: thenA_def bindA_def)
    qed
  qed
qed

lemma sort_fails_tail: "sort_fails cmp lt A d l1 u1 e \<Longrightarrow> l \<le> l1 \<Longrightarrow> u1 \<le> u \<Longrightarrow> sort_fails cmp lt A d l u e"
  by (auto simp: sort_fails_def)

lemma sort_fails_nested:
  "sort_fails cmp lt A d1 l1 u1 e \<Longrightarrow> u1 \<le> u \<Longrightarrow> 2 * (u1 - l1 + 1) \<le> u - l + 1 \<Longrightarrow> sort_fails cmp lt A (Suc d1) l u e"
  by (auto simp: sort_fails_def)

lemma auxsort_spec:
  assumes "0 \<le> l" "u < 2 ^ 31"
  shows "sorts cmp lt A d l u"
  using assms
proof (induction "nat (u - l)" arbitrary: d l u rule: less_induct)
  case less
  have one: "case auxsort d ta cmp l u (s, c) of
      (Inr _, st) \<Rightarrow> sorting l u a (fst st) \<and> (orders cmp lt A \<longrightarrow> sorted_in lt (src (fst st)) l u)
    | (Inl e, st) \<Rightarrow> sorting l u a (fst st) \<and> sort_fails cmp lt A d l u e"
    if sub: "a ` {l..u} \<subseteq> A" and none: "None \<notin> A" and st: "sorting l u a s" for a s c
  proof (cases "l < u")
    case False
    then show ?thesis using st by (subst auxsort.simps) (simp add: retA_def sorted_in_def)
  next
    case lu: True
    have b: "index_ok l" "index_ok u" using lu less.prems by (auto simp: index_ok_def)
    let ?i = "(l + u) div 2"
    obtain r1 st1 where run1: "order_ends ta cmp l u (s, c) = (r1, st1)" by (rule prod.exhaust)
    note one = order_ends_spec [OF st sub none b lu, where cmp = cmp and lt = lt and c = c, unfolded run1 prod.case]
    show ?thesis
    proof (cases r1)
      case (Inl e)
      then have "auxsort d ta cmp l u (s, c) = (Inl e, st1)" using run1 lu by (subst auxsort.simps) (simp add: bindA_def)
      then show ?thesis using one Inl by (simp add: sort_fails_def)
    next
      case (Inr x)
      obtain s1 c1 where st1: "st1 = (s1, c1)" by (rule prod.exhaust)
      have s1: "sorting l u a s1" "orders cmp lt A \<Longrightarrow> \<not> lt (src s1 u) (src s1 l)" using one Inr st1 by auto
      show ?thesis
      proof (cases "u - l = 1")
        case True
        then have "auxsort d ta cmp l u (s, c) = (Inr (), (s1, c1))"
          using run1 lu Inr st1 by (subst auxsort.simps) (simp add: bindA_def retA_def)
        moreover have "i = l \<and> j = u" if "l \<le> i" "i < j" "j \<le> u" for i j using that True by linarith
        ultimately show ?thesis using s1 by (fastforce simp: sorted_in_def)
      next
        case n1: False
        show ?thesis
        proof (cases "l + u > int MAX_INT")
          case True
          then have "auxsort d ta cmp l u (s, c) = (Inl IntOverflow, (s1, c1))"
            using run1 lu Inr st1 n1 by (subst auxsort.simps) (simp add: bindA_def raiseA_def)
          moreover have "2 ^ 30 < u" using True lu by (simp add: MAX_INT_def)
          ultimately show ?thesis using s1 by (simp add: sort_fails_def)
        next
          case fits: False
          have i: "l < ?i" "?i < u" using lu n1 by auto
          obtain r2 st2 where run2: "median3 ta cmp l ?i u (s1, c1) = (r2, st2)" by (rule prod.exhaust)
          have two: "case r2 of Inr _ \<Rightarrow> sorting l u a (fst st2) \<and> (orders cmp lt A \<longrightarrow>
                \<not> lt (src (fst st2) u) (src (fst st2) l) \<and> \<not> lt (src (fst st2) ?i) (src (fst st2) l) \<and>
                \<not> lt (src (fst st2) u) (src (fst st2) ?i))
            | Inl e \<Rightarrow> sorting l u a (fst st2) \<and> order_error cmp e \<and> \<not> orders cmp lt A"
            using median3_spec [OF s1(1) sub none b i, where cmp = cmp and lt = lt and c = c1, OF s1(2)] unfolding run2 by simp
          show ?thesis
          proof (cases r2)
            case (Inl e)
            then have "auxsort d ta cmp l u (s, c) = (Inl e, st2)"
              using run1 run2 lu Inr st1 n1 fits by (subst auxsort.simps) (simp add: bindA_def)
            then show ?thesis using two Inl by (simp add: sort_fails_def)
          next
            case r2: (Inr y)
            obtain s2 c2 where st2: "st2 = (s2, c2)" by (rule prod.exhaust)
            have s2: "sorting l u a s2" "orders cmp lt A \<Longrightarrow> \<not> lt (src s2 u) (src s2 l) \<and>
                \<not> lt (src s2 ?i) (src s2 l) \<and> \<not> lt (src s2 u) (src s2 ?i)" using two r2 st2 by auto
            show ?thesis
            proof (cases "u - l = 2")
              case True
              then have "auxsort d ta cmp l u (s, c) = (Inr (), (s2, c2))"
                using run1 run2 lu Inr st1 n1 fits r2 st2 by (subst auxsort.simps) (simp add: bindA_def retA_def)
              moreover have "sorted_in lt (src s2) l u" if o: "orders cmp lt A"
                unfolding sorted_in_def
              proof (intro allI impI)
                fix j k assume jk: "l \<le> j" "j < k" "k \<le> u"
                then have "j = l \<and> k = ?i \<or> j = l \<and> k = u \<or> j = ?i \<and> k = u" using True by auto
                then show "\<not> lt (src s2 k) (src s2 j)" using s2(2) [OF o] by auto
              qed
              ultimately show ?thesis using s2(1) by simp
            next
              case n2: False
              have l2: "l + 2 < u" using n1 n2 lu by linarith
              obtain r3 st3 where run3: "partition ta cmp l ?i u (s2, c2) = (r3, st3)" by (rule prod.exhaust)
              have three: "case r3 of Inr m \<Rightarrow> sorting l u a (fst st3) \<and> l < m \<and> m \<le> u \<and>
                    (orders cmp lt A \<longrightarrow> (\<forall>k. l \<le> k \<longrightarrow> k < m \<longrightarrow> \<not> lt (src (fst st3) m) (src (fst st3) k)) \<and>
                      (\<forall>k. m < k \<longrightarrow> k \<le> u \<longrightarrow> \<not> lt (src (fst st3) k) (src (fst st3) m)))
                | Inl e \<Rightarrow> sorting l u a (fst st3) \<and> order_error cmp e \<and> \<not> orders cmp lt A"
                using partition_spec [OF s2(1) sub none b i l2, where cmp = cmp and lt = lt and c = c2] s2(2) unfolding run3 by simp
              have eq: "auxsort d ta cmp l u (s, c) = (case r3 of Inl e \<Rightarrow> (Inl e, st3)
                  | Inr m \<Rightarrow> (case d of 0 \<Rightarrow> raiseA CStack st3
                     | Suc d1 \<Rightarrow> if m - l < u - m then thenA (auxsort d1 ta cmp l (m - 1)) (auxsort d ta cmp (m + 1) u) st3
                         else thenA (auxsort d1 ta cmp (m + 1) u) (auxsort d ta cmp l (m - 1)) st3))"
                using run1 run2 run3 lu Inr st1 n1 fits r2 st2 n2
                by (subst auxsort.simps) (simp add: bindA_def split: sum.split)
              show ?thesis
              proof (cases r3)
                case (Inl e)
                then show ?thesis using eq three by (simp add: sort_fails_def)
              next
                case r3: (Inr m)
                obtain s3 c3 where st3: "st3 = (s3, c3)" by (rule prod.exhaust)
                have s3: "sorting l u a s3" "l < m" "m \<le> u" and s3o: "orders cmp lt A \<Longrightarrow>
                    (\<forall>k. l \<le> k \<longrightarrow> k < m \<longrightarrow> \<not> lt (src s3 m) (src s3 k)) \<and> (\<forall>k. m < k \<longrightarrow> k \<le> u \<longrightarrow> \<not> lt (src s3 k) (src s3 m))"
                  using three r3 st3 by auto
                show ?thesis
                proof (cases d)
                  case 0
                  then show ?thesis using eq r3 st3 s3 l2 by (simp add: raiseA_def sort_fails_def)
                next
                  case (Suc d1)
                  have left: "sorts cmp lt A e l (m - 1)" and right: "sorts cmp lt A e (m + 1) u" for e
                    by (rule less.hyps; use s3 less.prems lu in simp)+
                  have fin: "sorted_in lt (src s5) l u" if o: "orders cmp lt A" and "sorting l u a s5"
                    and same: "\<forall>k. l \<le> k \<longrightarrow> k \<le> u \<longrightarrow> \<not> (l \<le> k \<and> k \<le> m - 1) \<longrightarrow> \<not> (m + 1 \<le> k \<and> k \<le> u) \<longrightarrow> src s5 k = src s3 k"
                    and im: "src s5 ` {l..m - 1} = src s3 ` {l..m - 1}" "src s5 ` {m + 1..u} = src s3 ` {m + 1..u}"
                    and so: "sorted_in lt (src s5) l (m - 1)" "sorted_in lt (src s5) (m + 1) u" for s5
                  proof (rule sorted_join [OF o _ less_imp_le [OF s3(2)] s3(3) so(1) _ so(2)])
                    show "src s5 k \<in> A" if "l \<le> k" "k \<le> u" for k using sorting_in [OF \<open>sorting l u a s5\<close> sub that] .
                    have m: "src s5 m = src s3 m" using same s3(2,3) by simp
                    show "\<not> lt (src s5 m) (src s5 k)" if k: "l \<le> k" "k < m" for k
                    proof -
                      have "src s5 k \<in> src s3 ` {l..m - 1}" using im(1) k by auto
                      then show ?thesis using s3o [OF o] m by auto
                    qed
                    show "\<not> lt (src s5 k) (src s5 m)" if k: "m < k" "k \<le> u" for k
                    proof -
                      have "src s5 k \<in> src s3 ` {m + 1..u}" using im(2) k by auto
                      then show ?thesis using s3o [OF o] m by auto
                    qed
                  qed
                  show ?thesis
                  proof (cases "m - l < u - m")
                    case True
                    note tp = two_parts [OF left [of d1] right [of d] s3(1) sub none b, where c = c3]
                    show ?thesis using tp eq r3 st3 Suc True s3(2,3) fin sort_fails_nested [of cmp lt A d1 l "m - 1" _ u l]
                        sort_fails_tail [of cmp lt A d "m + 1" u _ l u]
                      by (auto split: prod.splits sum.splits)
                  next
                    case False
                    note tp = two_parts [OF right [of d1] left [of d] s3(1) sub none b, where c = c3]
                    show ?thesis using tp eq r3 st3 Suc False s3(2,3) fin sort_fails_nested [of cmp lt A d1 "m + 1" u _ u l]
                        sort_fails_tail [of cmp lt A d l "m - 1" _ l u]
                      by (auto split: prod.splits sum.splits)
                  qed
                qed
              qed
            qed
          qed
        qed
      qed
    qed
  qed
  then show ?case unfolding sorts_def by blast
qed

end

end
