(* ===== verification/LuaTabOps.thy ===== *)
theory LuaTabOps
  imports LuaTabSort
begin

text \<open>
  The table library on tables: raw access satisfies the laws of an array, within one table and from one
  table to another. What sorting, inserting, removing, moving, joining, packing and unpacking do to the
  integer keys of a table.
\<close>


section \<open>Raw access to a table\<close>

definition lua_rawgeti :: "int \<Rightarrow> 'v table \<Rightarrow> table_error + 'v option" where
  "lua_rawgeti i t = bindT (luaH_getint t (word_of_int i)) (\<lambda>p. Inr (slot_val t p))"

definition lua_rawseti :: "strings \<Rightarrow> int \<Rightarrow> 'v option \<Rightarrow> 'v table \<Rightarrow> table_error + 'v table" where
  "lua_rawseti g i v t = luaH_setint (grow_insert 1 g) g t (word_of_int i) v"

definition raw_access :: "strings \<Rightarrow> ('v table, 'v) TabA" where
  "raw_access g = \<lparr>ta_geti = lua_rawgeti, ta_seti = lua_rawseti g\<rparr>"

text \<open>Reading one table and writing another.\<close>

definition cross_access :: "strings \<Rightarrow> ('v table \<times> 'v table, 'v) TabA" where
  "cross_access g = \<lparr>ta_geti = (\<lambda>i ts. lua_rawgeti i (fst ts)),
     ta_seti = (\<lambda>i v ts. bindT (lua_rawseti g i v (snd ts)) (\<lambda>t1. Inr (fst ts, t1)))\<rparr>"

definition at_int :: "strings \<Rightarrow> 'v table \<Rightarrow> int \<Rightarrow> 'v option" where
  "at_int g t i = tab_val g t (KInt (word_of_int i))"

lemma word_of_int_index: "index_ok i \<Longrightarrow> index_ok j \<Longrightarrow> (word_of_int i :: u64) = word_of_int j \<longleftrightarrow> i = j"
proof -
  have sw: "sint (word_of_int x :: u64) = x" if "index_ok x" for x
    using that by (simp add: index_ok_def signed_of_int signed_take_bit_int_eq_self_iff)
  show "index_ok i \<Longrightarrow> index_ok j \<Longrightarrow> ?thesis" using sw by metis
qed

lemma rawgeti_val: "tab_inv g t \<Longrightarrow> lua_rawgeti i t = Inr (at_int g t i)"
  using luaH_get_returns [of g t "KInt (word_of_int i)"] by (auto simp: lua_rawgeti_def at_int_def tab_val_def luaH_get_def)

lemma rawseti_cases:
  assumes inv: "tab_inv g t" and i: "index_ok i"
  obtains (ok) t1 where "lua_rawseti g i v t = Inr t1" "tab_inv g t1"
      "\<And>j. index_ok j \<Longrightarrow> at_int g t1 j = (if j = i then v else at_int g t j)"
  | (huge) e where "lua_rawseti g i v t = Inl e" "e = TableOverflow \<or> e = OutOfBounds" "at_int g t i = None"
      "2 ^ 30 \<le> sizearray t + sizenode t"
proof -
  have eq: "lua_rawseti g i v t = raw_store (grow_insert (Suc 0) g) g t (KInt (word_of_int i)) v"
    by (simp add: lua_rawseti_def luaH_setint_store)
  from inv int_key_normal show ?thesis
  proof (cases rule: raw_store_any [where depth = 0 and v = v and k = "KInt (word_of_int i)"])
    case (ok t1)
    have "at_int g t1 j = (if j = i then v else at_int g t j)" if "index_ok j" for j
      using ok(2) word_of_int_index [OF i that] by (auto simp: keeps_map_def at_int_def raw_KInt)
    then show ?thesis using that(1) ok eq by (simp add: keeps_map_def)
  next
    case (huge e)
    then show ?thesis using that(2) eq by (simp add: at_int_def)
  qed
qed

interpretation raw: plain_array "raw_access g" "tab_inv g" "at_int g" for g :: strings
proof
  fix s :: "'a table" and s1 i j v e
  assume ok: "tab_inv g s" and i: "index_ok i"
  show "ta_geti (raw_access g) i s = Inr (at_int g s i)" by (simp add: raw_access_def rawgeti_val [OF ok])
  note c = rawseti_cases [OF ok i, of v]
  show "ta_seti (raw_access g) i v s = Inr s1 \<Longrightarrow> tab_inv g s1" by (cases rule: c) (simp_all add: raw_access_def)
  show "ta_seti (raw_access g) i v s = Inr s1 \<Longrightarrow> index_ok j \<Longrightarrow> at_int g s1 j = (if j = i then v else at_int g s j)"
    by (cases rule: c) (simp_all add: raw_access_def)
  show "ta_seti (raw_access g) i v s = Inr s1 \<Longrightarrow> index_ok j \<Longrightarrow>
      at_int g s1 j = (if True \<and> j = i then v else at_int g s j)"
    by (cases rule: c) (simp_all add: raw_access_def)
  show "at_int g s i \<noteq> None \<Longrightarrow> \<exists>s1. ta_seti (raw_access g) i v s = Inr s1"
    by (cases rule: c) (simp_all add: raw_access_def)
  show "ta_seti (raw_access g) i v s = Inl e \<Longrightarrow> e = TableOverflow \<or> e = OutOfBounds"
    by (cases rule: c) (simp_all add: raw_access_def)
qed simp

interpretation cross: array_access "cross_access g" "\<lambda>ts. tab_inv g (fst ts) \<and> tab_inv g (snd ts)"
  "\<lambda>ts. at_int g (fst ts)" "\<lambda>ts. at_int g (snd ts)" False for g :: strings
proof
  fix s :: "'a table \<times> 'a table" and s1 i j v e
  assume ok: "tab_inv g (fst s) \<and> tab_inv g (snd s)" and i: "index_ok i"
  show "ta_geti (cross_access g) i s = Inr (at_int g (fst s) i)" using ok by (simp add: cross_access_def rawgeti_val)
  note c = rawseti_cases [OF conjunct2 [OF ok] i, of v]
  show "ta_seti (cross_access g) i v s = Inr s1 \<Longrightarrow> tab_inv g (fst s1) \<and> tab_inv g (snd s1)"
    by (cases rule: c) (use ok in \<open>auto simp: cross_access_def\<close>)
  show "ta_seti (cross_access g) i v s = Inr s1 \<Longrightarrow> index_ok j \<Longrightarrow>
      at_int g (snd s1) j = (if j = i then v else at_int g (snd s) j)"
    by (cases rule: c) (auto simp: cross_access_def)
  show "ta_seti (cross_access g) i v s = Inr s1 \<Longrightarrow> index_ok j \<Longrightarrow>
      at_int g (fst s1) j = (if False \<and> j = i then v else at_int g (fst s) j)"
    by (cases rule: c) (auto simp: cross_access_def)
  show "at_int g (snd s) i \<noteq> None \<Longrightarrow> \<exists>s1. ta_seti (cross_access g) i v s = Inr s1"
    by (cases rule: c) (auto simp: cross_access_def)
  show "ta_seti (cross_access g) i v s = Inl e \<Longrightarrow> e = TableOverflow \<or> e = OutOfBounds"
    by (cases rule: c) (auto simp: cross_access_def)
qed simp

section \<open>Sorting a table\<close>

lemma sort_table_spec:
  assumes inv: "tab_inv g t" and n: "0 \<le> n" "n \<le> 2 ^ 30" and nn: "\<And>i. 1 \<le> i \<Longrightarrow> i \<le> n \<Longrightarrow> at_int g t i \<noteq> None"
  shows "case sort_table 29 (raw_access g) cmp n (t, c) of
      (Inr _, st) \<Rightarrow> raw.sorting g 1 n (at_int g t) (fst st) \<and>
        (orders cmp lt (at_int g t ` {1..n}) \<longrightarrow> sorted_in lt (at_int g (fst st)) 1 n)
    | (Inl e, st) \<Rightarrow> raw.sorting g 1 n (at_int g t) (fst st) \<and> order_error cmp e \<and> \<not> orders cmp lt (at_int g t ` {1..n})"
proof -
  have sn: "signed_take_bit 31 n = n" using n by (simp add: signed_take_bit_int_eq_self_iff)
  have "raw.sorts g cmp lt (at_int g t ` {1..n}) 29 1 n" by (rule raw.auxsort_spec) (use n in simp_all)
  moreover have "None \<notin> at_int g t ` {1..n}" using nn by fastforce
  moreover have "raw.sorting g 1 n (at_int g t) t" using inv by (simp add: raw.sorting_def)
  ultimately show ?thesis
    by (cases rule: raw.sortsD [OF _ subset_refl, where c = c and s = t])
      (use n sn in \<open>auto simp: sort_table_def raw.sort_fails_def\<close>)
qed

lemma vals_mset: "vals b l u = mset (map b [l..u])"
proof -
  have "mset_set (set [l..u]) = mset [l..u]" by (rule mset_set_set) simp
  then show ?thesis by (simp add: vals_def)
qed

lemma sorting_reads:
  assumes st: "raw.sorting g 1 n (at_int g t) t1" and inv: "tab_inv g t"
  shows "tab_inv g t1" "mset (map (\<lambda>i. lua_rawgeti i t1) [1..n]) = mset (map (\<lambda>i. lua_rawgeti i t) [1..n])"
    "index_ok i \<Longrightarrow> i < 1 \<or> n < i \<Longrightarrow> lua_rawgeti i t1 = lua_rawgeti i t"
proof -
  show t1: "tab_inv g t1" using st by (simp add: raw.sorting_def)
  have r: "lua_rawgeti i t2 = Inr (at_int g t2 i)" if "tab_inv g t2" for i t2 using rawgeti_val [OF that] .
  have p: "perm 1 n (at_int g t) (at_int g t1)" using st by (simp add: raw.sorting_def)
  have "image_mset Inr (mset (map (at_int g t1) [1..n])) = image_mset Inr (mset (map (at_int g t) [1..n]))"
    using p by (simp add: perm_def vals_mset)
  then show "mset (map (\<lambda>i. lua_rawgeti i t1) [1..n]) = mset (map (\<lambda>i. lua_rawgeti i t) [1..n])"
    unfolding r [OF t1] r [OF inv] by (simp add: multiset.map_comp comp_def)
  show "index_ok i \<Longrightarrow> i < 1 \<or> n < i \<Longrightarrow> lua_rawgeti i t1 = lua_rawgeti i t"
    unfolding r [OF t1] r [OF inv] using p unfolding perm_def by blast
qed

text \<open>C30: 
  \<open>table.sort\<close> with a comparison that is a strict weak order on the values sorts the elements from 1 to
  \<open>n\<close> of any table of up to \<open>2 ^ 30\<close> elements: it returns, the result is a permutation of them in order,
  no other integer key changes, the invariant of the table is kept, and 29 is a bound on the depth
  of the recursion.
\<close>

theorem sort_sorts:
  assumes "tab_inv g t" "0 \<le> n" "n \<le> 2 ^ 30"
    and "\<forall>i. 1 \<le> i \<and> i \<le> n \<longrightarrow> (\<exists>v. lua_rawgeti i t = Inr (Some v))"
    and "orders cmp lt {v. \<exists>i. 1 \<le> i \<and> i \<le> n \<and> lua_rawgeti i t = Inr v}"
  shows "\<exists>t1 c1. sort_table 29 (raw_access g) cmp n (t, c) = (Inr (), (t1, c1)) \<and> tab_inv g t1 \<and>
    mset (map (\<lambda>i. lua_rawgeti i t1) [1..n]) = mset (map (\<lambda>i. lua_rawgeti i t) [1..n]) \<and>
    (\<forall>i j v w. 1 \<le> i \<and> i < j \<and> j \<le> n \<and> lua_rawgeti i t1 = Inr v \<and> lua_rawgeti j t1 = Inr w \<longrightarrow> \<not> lt w v) \<and>
    (\<forall>i. index_ok i \<and> (i < 1 \<or> n < i) \<longrightarrow> lua_rawgeti i t1 = lua_rawgeti i t)"
proof -
  have get: "lua_rawgeti i t = Inr (at_int g t i)" for i using rawgeti_val [OF assms(1)] .
  have "at_int g t i \<noteq> None" if "1 \<le> i" "i \<le> n" for i using assms(4) that by (auto simp: get)
  note spec = sort_table_spec [OF assms(1-3) this, where cmp = cmp and lt = lt and c = c]
  have "{v. \<exists>i. 1 \<le> i \<and> i \<le> n \<and> lua_rawgeti i t = Inr v} = at_int g t ` {1..n}" by (auto simp: get)
  then have o: "orders cmp lt (at_int g t ` {1..n})" using assms(5) by simp
  obtain r st where run: "sort_table 29 (raw_access g) cmp n (t, c) = (r, st)" by (rule prod.exhaust)
  obtain t1 c1 where st: "st = (t1, c1)" by (rule prod.exhaust)
  have res: "r = Inr ()" "raw.sorting g 1 n (at_int g t) t1" "sorted_in lt (at_int g t1) 1 n"
    using spec o run st by (auto split: sum.splits)
  note reads = sorting_reads [OF res(2) assms(1)]
  have "\<not> lt w v" if "1 \<le> i" "i < j" "j \<le> n" "lua_rawgeti i t1 = Inr v" "lua_rawgeti j t1 = Inr w" for i j v w
    using that res(3) by (auto simp: rawgeti_val [OF reads(1)] sorted_in_def)
  then show ?thesis using run st res(1) reads by auto
qed

text \<open>A table of two numbers, for the examples.\<close>

definition two_numbers :: "nat table" where
  "two_numbers = \<lparr>tb_array = [Some 7, Some 5], tb_lsizenode = 0, tb_dummy = True, tb_node = [empty_node], tb_lastfree = 0\<rparr>"

lemma two_numbers_facts:
  "tab_inv g two_numbers" "lua_rawgeti 1 two_numbers = Inr (Some 7)" "lua_rawgeti 2 two_numbers = Inr (Some 5)"
  "1 \<le> i \<Longrightarrow> i \<le> 2 \<Longrightarrow> i = 1 \<or> i = (2 :: int)"
  using fresh_inv [of "[Some 7, Some 5]" "[empty_node]" 0 0 True g]
  by (auto simp: two_numbers_def lua_rawgeti_def luaH_getint_def sizearray_def slot_val_def)

theorem sort_sorts_witness:
  "\<exists>t1 c1. sort_table 29 (raw_access (strings_start 0)) (\<lambda>x y c. (Inr (the x < the y), c)) 2 (two_numbers, ()) = (Inr (), (t1, c1)) \<and>
    (\<forall>v w. lua_rawgeti 1 t1 = Inr v \<and> lua_rawgeti 2 t1 = Inr w \<longrightarrow> \<not> the w < the v)"
proof -
  have pres: "\<forall>i. 1 \<le> i \<and> i \<le> 2 \<longrightarrow> (\<exists>v. lua_rawgeti i two_numbers = Inr (Some v))"
    using two_numbers_facts(2-4) by blast
  have ord: "orders (\<lambda>x y c. (Inr (the x < the y), c)) (\<lambda>x y. the x < the y) A" for A :: "nat option set"
    by (auto simp: orders_def)
  have "0 \<le> (2 :: int)" "(2 :: int) \<le> 2 ^ 30" "(1 :: int) \<le> 1" "(1 :: int) < 2" "(2 :: int) \<le> 2" by simp_all
  then show ?thesis
    using sort_sorts [OF two_numbers_facts(1) _ _ pres ord, of "strings_start 0" "()"] by metis
qed

text \<open>C31: 
  Whatever the comparison answers, also if it contradicts itself, changes its mind or fails, a sort of up to
  \<open>2 ^ 30\<close> elements, none of them \<open>nil\<close>, ends; the elements are then a permutation of what they were, nothing else has changed, and the only errors
  are those of the comparison and "invalid order function".
\<close>

theorem sort_any_comparison:
  assumes "tab_inv g t" "0 \<le> n" "n \<le> 2 ^ 30"
    and "\<forall>i. 1 \<le> i \<and> i \<le> n \<longrightarrow> (\<exists>v. lua_rawgeti i t = Inr (Some v))"
  shows "\<exists>r t1 c1. sort_table 29 (raw_access g) cmp n (t, c) = (r, (t1, c1)) \<and> tab_inv g t1 \<and>
    mset (map (\<lambda>i. lua_rawgeti i t1) [1..n]) = mset (map (\<lambda>i. lua_rawgeti i t) [1..n]) \<and>
    (\<forall>i. index_ok i \<and> (i < 1 \<or> n < i) \<longrightarrow> lua_rawgeti i t1 = lua_rawgeti i t) \<and>
    (\<forall>e. r = Inl e \<longrightarrow> e = invalid_order \<or> (\<exists>x y c. fst (cmp x y c) = Inl e))"
proof -
  have get: "lua_rawgeti i t = Inr (at_int g t i)" for i using rawgeti_val [OF assms(1)] .
  have "at_int g t i \<noteq> None" if "1 \<le> i" "i \<le> n" for i using assms(4) that by (auto simp: get)
  note spec = sort_table_spec [OF assms(1-3) this, where cmp = cmp and c = c and lt = "\<lambda>_ _. False"]
  obtain r st where run: "sort_table 29 (raw_access g) cmp n (t, c) = (r, st)" by (rule prod.exhaust)
  obtain t1 c1 where st: "st = (t1, c1)" by (rule prod.exhaust)
  have res: "raw.sorting g 1 n (at_int g t) t1" "\<And>e. r = Inl e \<Longrightarrow> order_error cmp e"
    using spec run st by (auto split: sum.splits)
  note reads = sorting_reads [OF res(1) assms(1)]
  show ?thesis using run st res(2) reads by (auto simp: order_error_def)
qed

theorem sort_any_comparison_witness:
  "\<exists>r t1 c1. sort_table 29 (raw_access (strings_start 0)) (\<lambda>x y c. (Inr True, c)) 2 (two_numbers, ()) = (r, (t1, c1)) \<and>
    mset (map (\<lambda>i. lua_rawgeti i t1) [1..2]) = mset (map (\<lambda>i. lua_rawgeti i two_numbers) [1..2])"
proof -
  have pres: "\<forall>i. 1 \<le> i \<and> i \<le> 2 \<longrightarrow> (\<exists>v. lua_rawgeti i two_numbers = Inr (Some v))"
    using two_numbers_facts(2-4) by blast
  have "0 \<le> (2 :: int)" "(2 :: int) \<le> 2 ^ 30" by simp_all
  then show ?thesis
    using sort_any_comparison [OF two_numbers_facts(1) _ _ pres, of "strings_start 0" "\<lambda>x y c. (Inr True, c)" "()"] by metis
qed

section \<open>Moving a range\<close>

text \<open>The only errors: the table cannot be made larger.\<close>

definition no_space :: "tab_error \<Rightarrow> bool" where
  "no_space e \<longleftrightarrow> e = Access TableOverflow \<or> e = Access OutOfBounds"

definition in_range :: "int \<Rightarrow> int \<Rightarrow> bool" where
  "in_range i m \<longleftrightarrow> 0 \<le> m \<and> (0 < m \<longrightarrow> index_ok i \<and> index_ok (i + m - 1))"

context array_access
begin

lemma seti_cases:
  assumes "ok s" "index_ok i"
  obtains (stored) s1 where "seti ta i v (s, c) = (Inr (), (s1, c))" "ok s1"
      "\<And>j. index_ok j \<Longrightarrow> dst s1 j = (if j = i then v else dst s j)"
      "\<And>j. index_ok j \<Longrightarrow> src s1 j = (if shared \<and> j = i then v else src s j)"
  | (fails) e where "seti ta i v (s, c) = (Inl (Access e), (s, c))" "e = TableOverflow \<or> e = OutOfBounds" "dst s i = None"
proof (cases "ta_seti ta i v s")
  case (Inl e)
  then show ?thesis using fails seti_error [OF assms Inl] seti_present [OF assms, of v] by (auto simp: seti_def)
next
  case (Inr s1)
  then show ?thesis
    using that(1) seti_ok [OF assms Inr] seti_dst [OF assms Inr] seti_src [OF assms Inr] by (simp add: seti_def)
qed

definition moved :: "int \<Rightarrow> int \<Rightarrow> nat \<Rightarrow> nat \<Rightarrow> 's \<Rightarrow> 's \<Rightarrow> bool" where
  "moved f t a b s s1 \<longleftrightarrow> ok s1 \<and>
     (\<forall>j. index_ok j \<longrightarrow> dst s1 j = (if t + int a \<le> j \<and> j < t + int b then src s (f + (j - t)) else dst s j)) \<and>
     (\<forall>j. index_ok j \<longrightarrow> src s1 j = (if shared then dst s1 j else src s j))"

lemma in_range_index: "in_range i (int m) \<Longrightarrow> k < m \<Longrightarrow> index_ok (i + int k)"
  by (auto simp: in_range_def index_ok_def)

lemma move_back_spec:
  assumes "ok s" "in_range f (int m)" "in_range t (int m)" "shared \<longrightarrow> f \<le> t"
  obtains (moved) s1 where "move_back ta f t m (s, c) = (Inr (), (s1, c))" "moved f t 0 m s s1"
  | (fails) e s1 where "move_back ta f t m (s, c) = (Inl e, (s1, c))" "no_space e" "ok s1" "\<exists>k < m. dst s (t + int k) = None"
proof -
  have "(\<exists>s1. move_back ta f t m (s, c) = (Inr (), (s1, c)) \<and> moved f t 0 m s s1) \<or>
    (\<exists>e s1. move_back ta f t m (s, c) = (Inl e, (s1, c)) \<and> no_space e \<and> ok s1 \<and> (\<exists>k < m. dst s (t + int k) = None))"
    using assms
  proof (induction m arbitrary: s)
    case 0
    then show ?case using shared_same by (auto simp: moved_def retA_def)
  next
    case (Suc m)
    have fi: "index_ok (f + int m)" and ti: "index_ok (t + int m)"
      using in_range_index [OF Suc.prems(2)] in_range_index [OF Suc.prems(3)] by simp_all
    have r: "in_range f (int m)" "in_range t (int m)" using Suc.prems by (auto simp: in_range_def index_ok_def)
    note get = geti_eval [OF Suc.prems(1) fi, of c]
    from Suc.prems(1) ti show ?case
    proof (cases rule: seti_cases [where v = "src s (f + int m)" and c = c])
      case (stored s1)
      have run: "move_back ta f t (Suc m) (s, c) = move_back ta f t m (s1, c)"
        by (simp add: bindA_def get stored(1))
      show ?thesis
      proof (cases "\<exists>s2. move_back ta f t m (s1, c) = (Inr (), (s2, c)) \<and> moved f t 0 m s1 s2")
        case True
        then obtain s2 where s2: "move_back ta f t m (s1, c) = (Inr (), (s2, c))" "moved f t 0 m s1 s2" by blast
        have "dst s2 j = (if t \<le> j \<and> j < t + int (Suc m) then src s (f + (j - t)) else dst s j)" if j: "index_ok j" for j
        proof (cases "t \<le> j \<and> j < t + int m")
          case True
          then have k: "index_ok (f + (j - t))" using r(1) by (auto simp: in_range_def index_ok_def)
          have "shared \<longrightarrow> f + (j - t) \<noteq> t + int m" using True Suc.prems(4) by auto
          then show ?thesis using True s2(2) j stored(4) [OF k] by (auto simp: moved_def)
        next
          case False
          then have "dst s2 j = dst s1 j" using s2(2) j by (auto simp: moved_def)
          also have "\<dots> = (if j = t + int m then src s (f + int m) else dst s j)" using stored(3) j by simp
          finally show ?thesis using False by auto
        qed
        moreover have "src s2 j = (if shared then dst s2 j else src s j)" if "index_ok j" for j
          using s2(2) stored(4) that by (auto simp: moved_def)
        ultimately have "moved f t 0 (Suc m) s s2" using s2(2) by (auto simp: moved_def)
        then show ?thesis using run s2(1) by auto
      next
        case False
        then obtain e s2 k where e: "move_back ta f t m (s1, c) = (Inl e, (s2, c))" "no_space e" "ok s2"
          "k < m" "dst s1 (t + int k) = None"
          using Suc.IH [OF stored(2) r Suc.prems(4)] by blast
        then have "dst s (t + int k) = None" using stored(3) [OF in_range_index [OF r(2) e(4)]] by simp
        then have "\<exists>k < Suc m. dst s (t + int k) = None" using less_SucI [OF e(4)] by blast
        then show ?thesis unfolding run using e(1-3) by blast
      qed
    next
      case (fails e)
      then show ?thesis using Suc.prems(1) by (auto simp: bindA_def get no_space_def)
    qed
  qed
  then show ?thesis using that by blast
qed

lemma move_forth_spec:
  assumes "ok s" "in_range f (int (i + m))" "in_range t (int (i + m))" "shared \<longrightarrow> t \<le> f"
  obtains (moved) s1 where "move_forth ta f t i m (s, c) = (Inr (), (s1, c))" "moved f t i (i + m) s s1"
  | (fails) e s1 where "move_forth ta f t i m (s, c) = (Inl e, (s1, c))" "no_space e" "ok s1"
      "\<exists>k \<ge> i. k < i + m \<and> dst s (t + int k) = None"
proof -
  have "(\<exists>s1. move_forth ta f t i m (s, c) = (Inr (), (s1, c)) \<and> moved f t i (i + m) s s1) \<or>
    (\<exists>e s1. move_forth ta f t i m (s, c) = (Inl e, (s1, c)) \<and> no_space e \<and> ok s1 \<and>
      (\<exists>k \<ge> i. k < i + m \<and> dst s (t + int k) = None))"
    using assms
  proof (induction m arbitrary: s i)
    case 0
    then show ?case using shared_same by (auto simp: moved_def retA_def)
  next
    case (Suc m)
    have fi: "index_ok (f + int i)" and ti: "index_ok (t + int i)"
      using in_range_index [OF Suc.prems(2)] in_range_index [OF Suc.prems(3)] by simp_all
    have r: "in_range f (int (Suc i + m))" "in_range t (int (Suc i + m))" using Suc.prems by simp_all
    note get = geti_eval [OF Suc.prems(1) fi, of c]
    from Suc.prems(1) ti show ?case
    proof (cases rule: seti_cases [where v = "src s (f + int i)" and c = c])
      case (stored s1)
      have run: "move_forth ta f t i (Suc m) (s, c) = move_forth ta f t (Suc i) m (s1, c)"
        by (simp add: bindA_def get stored(1))
      show ?thesis
      proof (cases "\<exists>s2. move_forth ta f t (Suc i) m (s1, c) = (Inr (), (s2, c)) \<and> moved f t (Suc i) (Suc i + m) s1 s2")
        case True
        then obtain s2 where s2: "move_forth ta f t (Suc i) m (s1, c) = (Inr (), (s2, c))"
          "moved f t (Suc i) (Suc i + m) s1 s2" by blast
        have "dst s2 j = (if t + int i \<le> j \<and> j < t + int (i + Suc m) then src s (f + (j - t)) else dst s j)"
          if j: "index_ok j" for j
        proof (cases "t + int (Suc i) \<le> j \<and> j < t + int (Suc i + m)")
          case True
          then have k: "index_ok (f + (j - t))" using r(1) by (auto simp: in_range_def index_ok_def)
          have "shared \<longrightarrow> f + (j - t) \<noteq> t + int i" using True Suc.prems(4) by auto
          then show ?thesis using True s2(2) j stored(4) [OF k] by (auto simp: moved_def)
        next
          case False
          then have "dst s2 j = dst s1 j" using s2(2) j by (auto simp: moved_def)
          also have "\<dots> = (if j = t + int i then src s (f + int i) else dst s j)" using stored(3) j by simp
          finally show ?thesis using False by auto
        qed
        moreover have "src s2 j = (if shared then dst s2 j else src s j)" if "index_ok j" for j
          using s2(2) stored(4) that by (auto simp: moved_def)
        ultimately have "moved f t i (i + Suc m) s s2" using s2(2) by (auto simp: moved_def)
        then show ?thesis using run s2(1) by auto
      next
        case False
        then obtain e s2 k where e: "move_forth ta f t (Suc i) m (s1, c) = (Inl e, (s2, c))" "no_space e" "ok s2"
          "Suc i \<le> k" "k < Suc i + m" "dst s1 (t + int k) = None"
          using Suc.IH [OF stored(2) r Suc.prems(4)] by blast
        then have "dst s (t + int k) = None" using stored(3) [OF in_range_index [OF r(2) e(5)]] by simp
        then have "i \<le> k \<and> k < i + Suc m \<and> dst s (t + int k) = None" using e(4,5) by simp
        then show ?thesis unfolding run using e(1-3) by blast
      qed
    next
      case (fails e)
      then show ?thesis using Suc.prems(1) by (auto simp: bindA_def get no_space_def)
    qed
  qed
  then show ?thesis using that by blast
qed

lemma tmove_spec:
  assumes "ok s" "index_ok f" "index_ok e" "index_ok t" "f \<le> e" "f > 0 \<or> e < LUA_MAXINTEGER + f"
    "t \<le> LUA_MAXINTEGER - (e - f)"
  obtains (moved) s1 where "tmove ta f e t (s, c) = (Inr (), (s1, c))" "moved f t 0 (nat (e - f + 1)) s s1"
  | (fails) x s1 where "tmove ta f e t (s, c) = (Inl x, (s1, c))" "no_space x" "ok s1"
      "\<exists>j. t \<le> j \<and> j \<le> t + (e - f) \<and> dst s j = None"
proof -
  define m where "m = nat (e - f + 1)"
  have m: "int m = e - f + 1" using assms(5) by (simp add: m_def)
  have r: "in_range f (int m)" "in_range t (int m)"
    using assms m by (auto simp: in_range_def index_ok_def LUA_MAXINTEGER_def)
  have run: "tmove ta f e t = (if t > f then move_back ta f t m else move_forth ta f t 0 m)"
    using assms(5-7) by (simp add: tmove_def m_def Let_def)
  show ?thesis
  proof (cases "t > f")
    case True
    then have "shared \<longrightarrow> f \<le> t" by simp
    with assms(1) r show ?thesis
    proof (cases rule: move_back_spec [where c = c])
      case (fails x s1)
      then obtain k where "k < m" "dst s (t + int k) = None" by blast
      then have "\<exists>j. t \<le> j \<and> j \<le> t + (e - f) \<and> dst s j = None" using m by (intro exI [of _ "t + int k"]) simp
      then show ?thesis using that(2) [of x s1] fails(1-3) True by (simp add: run)
    qed (use that(1) True in \<open>simp add: run m_def\<close>)
  next
    case False
    have sh: "shared \<longrightarrow> t \<le> f" using False by simp
    have "in_range f (int (0 + m))" "in_range t (int (0 + m))" using r by simp_all
    with assms(1) show ?thesis using sh
    proof (cases rule: move_forth_spec [where c = c])
      case (fails x s1)
      then obtain k where "k < m" "dst s (t + int k) = None" by auto
      then have "\<exists>j. t \<le> j \<and> j \<le> t + (e - f) \<and> dst s j = None" using m by (intro exI [of _ "t + int k"]) simp
      then show ?thesis using that(2) [of x s1] fails(1-3) False by (simp add: run)
    qed (use that(1) False in \<open>simp add: run m_def\<close>)
  qed
qed

end

lemma raw_moved:
  assumes "raw.moved g f t 0 (nat (e - f + 1)) t0 t1" "tab_inv g t0" "f \<le> e" "index_ok j"
  shows "tab_inv g t1" "lua_rawgeti j t1 = lua_rawgeti (if t \<le> j \<and> j \<le> t + (e - f) then f + (j - t) else j) t0"
proof -
  show t1: "tab_inv g t1" using assms(1) by (simp add: raw.moved_def)
  have "at_int g t1 j = at_int g t0 (if t \<le> j \<and> j \<le> t + (e - f) then f + (j - t) else j)"
    using assms(1,3,4) by (auto simp: raw.moved_def)
  then show "lua_rawgeti j t1 = lua_rawgeti (if t \<le> j \<and> j \<le> t + (e - f) then f + (j - t) else j) t0"
    by (simp add: rawgeti_val [OF t1] rawgeti_val [OF assms(2)])
qed

text \<open>C36: 
  \<open>table.move\<close> within one table, whatever the overlap: the elements \<open>f..e\<close> as they were before the call are
  afterwards at \<open>t, t + 1, ...\<close> and every other integer key is as before. It fails only if a new key makes
  the table too large, never when every destination has a value already.
\<close>

theorem move_moves:
  assumes "tab_inv g t0" "index_ok f" "index_ok e" "index_ok t" "f \<le> e" "f > 0 \<or> e < LUA_MAXINTEGER + f"
    "t \<le> LUA_MAXINTEGER - (e - f)"
  shows "case tmove (raw_access g) f e t (t0, c) of
      (Inr _, (t1, c1)) \<Rightarrow> tab_inv g t1 \<and> (\<forall>j. index_ok j \<longrightarrow>
        lua_rawgeti j t1 = lua_rawgeti (if t \<le> j \<and> j \<le> t + (e - f) then f + (j - t) else j) t0)
    | (Inl x, (t1, c1)) \<Rightarrow> no_space x \<and> tab_inv g t1 \<and> (\<exists>j. t \<le> j \<and> j \<le> t + (e - f) \<and> lua_rawgeti j t0 = Inr None)"
  using assms
proof (cases rule: raw.tmove_spec [where c = c])
  case (moved t1)
  then show ?thesis using raw_moved [OF moved(2) assms(1,5)] assms(2) by auto
next
  case (fails x t1)
  then show ?thesis using rawgeti_val [OF assms(1)] by simp
qed

text \<open>An overlap: \<open>table.move({7, 5, 3}, 1, 2, 2)\<close> gives \<open>{7, 7, 5}\<close>.\<close>

definition three_numbers :: "nat table" where
  "three_numbers = \<lparr>tb_array = [Some 7, Some 5, Some 3], tb_lsizenode = 0, tb_dummy = True, tb_node = [empty_node], tb_lastfree = 0\<rparr>"

lemma three_numbers_facts:
  "tab_inv g three_numbers" "lua_rawgeti 1 three_numbers = Inr (Some 7)" "lua_rawgeti 2 three_numbers = Inr (Some 5)"
  "lua_rawgeti 3 three_numbers = Inr (Some 3)" "2 \<le> i \<Longrightarrow> i \<le> 3 \<Longrightarrow> i = 2 \<or> i = (3 :: int)"
  using fresh_inv [of "[Some 7, Some 5, Some 3]" "[empty_node]" 0 0 True g]
  by (auto simp: three_numbers_def lua_rawgeti_def luaH_getint_def sizearray_def slot_val_def)

theorem move_moves_witness:
  "\<exists>r t1 c1. tmove (raw_access (strings_start 0)) 1 2 2 (three_numbers, ()) = (Inr r, (t1, c1)) \<and>
     lua_rawgeti 1 t1 = Inr (Some 7) \<and> lua_rawgeti 2 t1 = Inr (Some 7) \<and> lua_rawgeti 3 t1 = Inr (Some 5)"
proof -
  obtain r t1 c1 where run: "tmove (raw_access (strings_start 0)) 1 2 2 (three_numbers, ()) = (r, (t1, c1))"
    by (metis prod.exhaust)
  have ix: "index_ok 1" "index_ok 2" "index_ok 3" by (simp_all add: index_ok_def)
  have lim: "(1 :: int) \<le> 2" "(1 :: int) > 0 \<or> 2 < LUA_MAXINTEGER + 1" "(2 :: int) \<le> LUA_MAXINTEGER - (2 - 1)"
    by (simp_all add: LUA_MAXINTEGER_def)
  have law: "case r of
      Inr _ \<Rightarrow> \<forall>j. index_ok j \<longrightarrow> lua_rawgeti j t1 = lua_rawgeti (if 2 \<le> j \<and> j \<le> 3 then j - 1 else j) three_numbers
    | Inl x \<Rightarrow> \<exists>j. 2 \<le> j \<and> j \<le> 3 \<and> lua_rawgeti j three_numbers = Inr None"
    using move_moves [of "strings_start 0" three_numbers 1 2 2 "()", OF three_numbers_facts(1) ix(1,2,2) lim]
    by (auto simp: run split: sum.splits)
  have "\<exists>x. r = Inr x"
  proof (cases r)
    case (Inl x)
    with law obtain j where "2 \<le> j" "j \<le> 3" "lua_rawgeti j three_numbers = Inr None" by auto
    with three_numbers_facts(5) [of j] three_numbers_facts(3,4) show ?thesis by auto
  qed simp
  then obtain x where "r = Inr x" by blast
  with law run ix three_numbers_facts(2-4) show ?thesis by auto
qed

section \<open>Inserting and removing\<close>

context plain_array
begin

text \<open>What a sequence of moves may end in: the elements shifted as \<open>g\<close> says, or no space.\<close>

definition shifted :: "(int \<Rightarrow> int) \<Rightarrow> 's \<Rightarrow> 's \<Rightarrow> bool" where
  "shifted h s s1 \<longleftrightarrow> ok s1 \<and> (\<forall>j. index_ok j \<longrightarrow> src s1 j = src s (h j))"

lemma move_up_spec:
  assumes "ok s" "index_ok pos" "index_ok i" "pos \<le> i"
  obtains (moved) s1 where "move_up ta pos i (s, c) = (Inr (), (s1, c))"
      "shifted (\<lambda>j. if pos < j \<and> j \<le> i then j - 1 else j) s s1"
  | (fails) x s1 where "move_up ta pos i (s, c) = (Inl x, (s1, c))" "no_space x" "ok s1"
      "\<exists>j. pos < j \<and> j \<le> i \<and> src s j = None"
proof -
  have "(\<exists>s1. move_up ta pos i (s, c) = (Inr (), (s1, c)) \<and> shifted (\<lambda>j. if pos < j \<and> j \<le> i then j - 1 else j) s s1) \<or>
    (\<exists>x s1. move_up ta pos i (s, c) = (Inl x, (s1, c)) \<and> no_space x \<and> ok s1 \<and> (\<exists>j. pos < j \<and> j \<le> i \<and> src s j = None))"
    using assms
  proof (induction "nat (i - pos)" arbitrary: i s)
    case 0
    then have "move_up ta pos i (s, c) = (Inr (), (s, c))" by (subst move_up.simps) (simp add: retA_def)
    then show ?case using 0 by (auto simp: shifted_def)
  next
    case (Suc k)
    have k: "k = nat (i - 1 - pos)" "pos \<le> i - 1" "index_ok (i - 1)"
      using Suc.hyps(2) Suc.prems by (auto simp: index_ok_def)
    note get = geti_eval [OF Suc.prems(1) k(3), of c]
    have un: "move_up ta pos i (s, c) = bindA (seti ta i (src s (i - 1))) (\<lambda>_. move_up ta pos (i - 1)) (s, c)"
      using k(2) by (subst move_up.simps) (simp add: bindA_def get)
    from Suc.prems(1,3) show ?case
    proof (cases rule: seti_cases [where v = "src s (i - 1)" and c = c])
      case (stored s1)
      have run: "move_up ta pos i (s, c) = move_up ta pos (i - 1) (s1, c)" by (simp add: un bindA_def stored(1))
      note ih = Suc.hyps(1) [OF k(1) stored(2) Suc.prems(2) k(3,2)]
      show ?thesis
      proof (cases "\<exists>s2. move_up ta pos (i - 1) (s1, c) = (Inr (), (s2, c)) \<and>
          shifted (\<lambda>j. if pos < j \<and> j \<le> i - 1 then j - 1 else j) s1 s2")
        case True
        then obtain s2 where s2: "move_up ta pos (i - 1) (s1, c) = (Inr (), (s2, c))"
          "shifted (\<lambda>j. if pos < j \<and> j \<le> i - 1 then j - 1 else j) s1 s2" by blast
        have "src s2 j = src s (if pos < j \<and> j \<le> i then j - 1 else j)" if j: "index_ok j" for j
        proof -
          have "index_ok (if pos < j \<and> j \<le> i - 1 then j - 1 else j)" using j Suc.prems(2) by (auto simp: index_ok_def)
          note st = stored(3) [OF this]
          show ?thesis using s2(2) j st k(2) unfolding shifted_def by (auto split: if_splits)
        qed
        then show ?thesis using s2 run by (auto simp: shifted_def)
      next
        case False
        then obtain x s2 j where x: "move_up ta pos (i - 1) (s1, c) = (Inl x, (s2, c))" "no_space x" "ok s2"
          "pos < j" "j \<le> i - 1" "src s1 j = None" using ih by blast
        have "index_ok j" using x(4,5) Suc.prems(2,3) by (auto simp: index_ok_def)
        then have "src s j = None" using stored(3) [of j] x(5,6) by simp
        then have "\<exists>j. pos < j \<and> j \<le> i \<and> src s j = None" using x(4,5) by (intro exI [of _ j]) simp
        then show ?thesis unfolding run using x(1-3) by blast
      qed
    next
      case (fails x)
      then show ?thesis using Suc.prems k by (auto simp: un bindA_def no_space_def intro!: exI [of _ i])
    qed
  qed
  then show ?thesis using that by blast
qed

lemma move_down_spec:
  assumes "ok s" "index_ok pos" "index_ok sz" "pos \<le> sz"
  obtains (moved) s1 where "move_down ta pos sz (s, c) = (Inr sz, (s1, c))"
      "shifted (\<lambda>j. if pos \<le> j \<and> j < sz then j + 1 else j) s s1"
  | (fails) x s1 where "move_down ta pos sz (s, c) = (Inl x, (s1, c))" "no_space x" "ok s1"
      "\<exists>j. pos \<le> j \<and> j < sz \<and> src s j = None"
proof -
  have "(\<exists>s1. move_down ta pos sz (s, c) = (Inr sz, (s1, c)) \<and> shifted (\<lambda>j. if pos \<le> j \<and> j < sz then j + 1 else j) s s1) \<or>
    (\<exists>x s1. move_down ta pos sz (s, c) = (Inl x, (s1, c)) \<and> no_space x \<and> ok s1 \<and> (\<exists>j. pos \<le> j \<and> j < sz \<and> src s j = None))"
    using assms
  proof (induction "nat (sz - pos)" arbitrary: pos s)
    case 0
    then have "move_down ta pos sz (s, c) = (Inr pos, (s, c))" by (subst move_down.simps) (simp add: retA_def)
    then show ?case using 0 by (auto simp: shifted_def)
  next
    case (Suc k)
    have k: "k = nat (sz - (pos + 1))" "pos + 1 \<le> sz" "index_ok (pos + 1)"
      using Suc.hyps(2) Suc.prems by (auto simp: index_ok_def)
    note get = geti_eval [OF Suc.prems(1) k(3), of c]
    have un: "move_down ta pos sz (s, c) = bindA (seti ta pos (src s (pos + 1))) (\<lambda>_. move_down ta (pos + 1) sz) (s, c)"
      using k(2) by (subst move_down.simps) (simp add: bindA_def get)
    from Suc.prems(1,2) show ?case
    proof (cases rule: seti_cases [where v = "src s (pos + 1)" and c = c])
      case (stored s1)
      have run: "move_down ta pos sz (s, c) = move_down ta (pos + 1) sz (s1, c)" by (simp add: un bindA_def stored(1))
      note ih = Suc.hyps(1) [OF k(1) stored(2) k(3) Suc.prems(3) k(2)]
      show ?thesis
      proof (cases "\<exists>s2. move_down ta (pos + 1) sz (s1, c) = (Inr sz, (s2, c)) \<and>
          shifted (\<lambda>j. if pos + 1 \<le> j \<and> j < sz then j + 1 else j) s1 s2")
        case True
        then obtain s2 where s2: "move_down ta (pos + 1) sz (s1, c) = (Inr sz, (s2, c))"
          "shifted (\<lambda>j. if pos + 1 \<le> j \<and> j < sz then j + 1 else j) s1 s2" by blast
        have "src s2 j = src s (if pos \<le> j \<and> j < sz then j + 1 else j)" if j: "index_ok j" for j
        proof -
          have "index_ok (if pos + 1 \<le> j \<and> j < sz then j + 1 else j)" using j Suc.prems(3) by (auto simp: index_ok_def)
          note st = stored(3) [OF this]
          show ?thesis using s2(2) j st k(2) unfolding shifted_def by (auto split: if_splits)
        qed
        then show ?thesis using s2 run by (auto simp: shifted_def)
      next
        case False
        then obtain x s2 j where x: "move_down ta (pos + 1) sz (s1, c) = (Inl x, (s2, c))" "no_space x" "ok s2"
          "pos + 1 \<le> j" "j < sz" "src s1 j = None" using ih by blast
        have "index_ok j" using x(4,5) Suc.prems(2,3) by (auto simp: index_ok_def)
        then have "src s j = None" using stored(3) [of j] x(4,6) by simp
        then have "\<exists>j. pos \<le> j \<and> j < sz \<and> src s j = None" using x(4,5) by (intro exI [of _ j]) simp
        then show ?thesis unfolding run using x(1-3) by blast
      qed
    next
      case (fails x)
      then show ?thesis using Suc.prems k by (auto simp: un bindA_def no_space_def intro!: exI [of _ pos])
    qed
  qed
  then show ?thesis using that by blast
qed

definition filled :: "'s \<Rightarrow> int \<Rightarrow> bool" where
  "filled s n \<longleftrightarrow> (\<forall>i. 1 \<le> i \<and> i \<le> n \<longrightarrow> src s i \<noteq> None)"

lemma filledD: "filled s n \<Longrightarrow> 1 \<le> i \<Longrightarrow> i \<le> n \<Longrightarrow> src s i \<noteq> None"
  by (simp add: filled_def)

lemma tinsert_spec:
  assumes "ok s" "filled s n" "index_ok n" "index_ok (n + 1)" "1 \<le> pos" "pos \<le> n + 1"
  obtains (inserted) s1 where "tinsert ta n (Some pos) v (s, c) = (Inr (), (s1, c))" "ok s1"
      "\<And>j. index_ok j \<Longrightarrow> src s1 j = (if j = pos then v else if pos < j \<and> j \<le> n + 1 then src s (j - 1) else src s j)"
  | (fails) x s1 where "tinsert ta n (Some pos) v (s, c) = (Inl x, (s1, c))" "no_space x" "ok s1" "src s (n + 1) = None"
proof -
  have p: "index_ok pos" using assms by (auto simp: index_ok_def)
  have un: "tinsert ta n (Some pos) v = bindA (move_up ta pos (n + 1)) (\<lambda>_. seti ta pos v)"
    using assms(5,6) by (simp add: tinsert_def)
  from assms(1) p assms(4,6) show ?thesis
  proof (cases rule: move_up_spec [where c = c])
    case (moved s1)
    have ok1: "ok s1" using moved(2) by (simp add: shifted_def)
    from ok1 p show ?thesis
    proof (cases rule: seti_cases [where v = v and c = c])
      case (stored s2)
      have "src s2 j = (if j = pos then v else if pos < j \<and> j \<le> n + 1 then src s (j - 1) else src s j)" if "index_ok j" for j
        using stored(4) [OF that] moved(2) that unfolding shifted_def by auto
      then show ?thesis using that(1) [of s2] stored(1,2) moved(1) by (simp add: un bindA_def)
    next
      case (fails x)
      then have "src s pos = None" using moved(2) p unfolding shifted_def by auto
      moreover from this have "pos = n + 1" using filledD [OF assms(2,5)] assms(6) by (cases "pos \<le> n") simp_all
      ultimately have "src s pos = None" "pos = n + 1" by simp_all
      moreover have "tinsert ta n (Some pos) v (s, c) = (Inl (Access x), (s1, c))"
        using fails(1) moved(1) by (simp add: un bindA_def)
      moreover have "no_space (Access x)" using fails(2) by (auto simp: no_space_def)
      ultimately show ?thesis using that(2) [of "Access x" s1] ok1 by simp
    qed
  next
    case (fails x s1)
    then obtain j where j: "pos < j" "j \<le> n + 1" "src s j = None" by blast
    then have "j = n + 1" using filledD [OF assms(2), of j] assms(5) by (cases "j \<le> n") simp_all
    then show ?thesis using that(2) [of x s1] fails(1-3) j(3) by (simp add: un bindA_def)
  qed
qed

lemma tremove_spec:
  assumes "ok s" "filled s n" "index_ok n" "1 \<le> pos" "pos \<le> n"
  obtains s1 where "tremove ta n (Some pos) (s, c) = (Inr (src s pos), (s1, c))" "ok s1"
      "\<And>j. index_ok j \<Longrightarrow> src s1 j = (if j = n then None else if pos \<le> j \<and> j < n then src s (j + 1) else src s j)"
proof -
  have p: "index_ok pos" using assms by (auto simp: index_ok_def)
  note get = geti_eval [OF assms(1) p, of c]
  from assms(1) p assms(3,5) show ?thesis
  proof (cases rule: move_down_spec [where c = c])
    case (moved s1)
    have ok1: "ok s1" using moved(2) by (simp add: shifted_def)
    have "src s1 n = src s n" using moved(2) assms(3) by (simp add: shifted_def)
    moreover have "src s n \<noteq> None" using assms by (auto simp: filled_def)
    ultimately have pres: "src s1 n \<noteq> None" by simp
    from ok1 assms(3) show ?thesis
    proof (cases rule: seti_cases [where v = None and c = c])
      case (stored s2)
      have "src s2 j = (if j = n then None else if pos \<le> j \<and> j < n then src s (j + 1) else src s j)" if "index_ok j" for j
        using stored(4) [OF that] moved(2) that unfolding shifted_def by auto
      then show ?thesis
        using that [of s2] stored(1,2) moved(1) assms(4,5) by (simp add: tremove_def bindA_def retA_def get)
    qed (use pres in simp)
  next
    case (fails x s1)
    then obtain j where j: "pos \<le> j" "j < n" "src s j = None" by blast
    then show ?thesis using filledD [OF assms(2), of j] assms(4) by simp
  qed
qed

end

text \<open>
  \<open>table.insert\<close> at a position and \<open>table.remove\<close> at the same position are inverse: after both, every
  integer key of the table reads as before and the value inserted is returned; the removal cannot fail.
  The insertion fails only if the table cannot take one more element.
\<close>

theorem insert_then_remove:
  assumes "tab_inv g t" "0 \<le> n" "index_ok (n + 1)" "\<forall>i. 1 \<le> i \<and> i \<le> n \<longrightarrow> lua_rawgeti i t \<noteq> Inr None"
    "lua_rawgeti (n + 1) t = Inr None" "1 \<le> pos" "pos \<le> n + 1" "v \<noteq> None"
  shows "case tinsert (raw_access g) n (Some pos) v (t, c) of
      (Inl x, (t1, c1)) \<Rightarrow> no_space x \<and> tab_inv g t1
    | (Inr _, (t1, c1)) \<Rightarrow> c1 = c \<and> tab_inv g t1 \<and> lua_rawgeti pos t1 = Inr v \<and>
        (\<exists>t2. tremove (raw_access g) (n + 1) (Some pos) (t1, c) = (Inr v, (t2, c)) \<and> tab_inv g t2 \<and>
           (\<forall>j. index_ok j \<longrightarrow> lua_rawgeti j t2 = lua_rawgeti j t))"
proof -
  note get = rawgeti_val [OF assms(1)]
  have fill: "raw.filled g t n" using assms(4) by (simp add: raw.filled_def get)
  have n: "index_ok n" using assms(2,3) by (auto simp: index_ok_def)
  have p: "index_ok pos" using assms(2,3,6,7) by (auto simp: index_ok_def)
  from assms(1) fill n assms(3,6,7) show ?thesis
  proof (cases rule: raw.tinsert_spec [where v = v and c = c])
    case (inserted t1)
    have f1: "raw.filled g t1 (n + 1)"
      unfolding raw.filled_def
    proof (intro allI impI)
      fix i assume i: "1 \<le> i \<and> i \<le> n + 1"
      have "index_ok i" using i assms(3) by (auto simp: index_ok_def)
      note r = inserted(3) [OF this]
      consider "i = pos" | "pos < i" | "i < pos" by linarith
      then show "at_int g t1 i \<noteq> None"
        using r i assms(6-8) raw.filledD [OF fill, of i] raw.filledD [OF fill, of "i - 1"] by cases simp_all
    qed
    obtain t2 where t2: "tremove (raw_access g) (n + 1) (Some pos) (t1, c) = (Inr (at_int g t1 pos), (t2, c))" "tab_inv g t2"
      "\<And>j. index_ok j \<Longrightarrow> at_int g t2 j =
         (if j = n + 1 then None else if pos \<le> j \<and> j < n + 1 then at_int g t1 (j + 1) else at_int g t1 j)"
      using raw.tremove_spec [OF inserted(2) f1 assms(3,6,7), where c = c] by blast
    have "lua_rawgeti j t2 = lua_rawgeti j t" if j: "index_ok j" for j
    proof -
      have j1: "index_ok (j + 1)" if "j < n + 1" using j assms(3) that by (auto simp: index_ok_def)
      have "at_int g t2 j = at_int g t j"
        using t2(3) [OF j] inserted(3) [OF j] inserted(3) [OF j1] assms(5,7) by (auto simp: get)
      then show ?thesis by (simp add: rawgeti_val [OF t2(2)] get)
    qed
    then show ?thesis using inserted(1,2) inserted(3) [OF p] t2(1,2) by (simp add: rawgeti_val)
  next
    case (fails x t1)
    then show ?thesis by simp
  qed
qed

theorem insert_then_remove_witness:
  "case tinsert (raw_access (strings_start 0)) 2 (Some 1) (Some 9) (two_numbers, ()) of
      (Inl x, _) \<Rightarrow> no_space x | (Inr _, (t1, c1)) \<Rightarrow> lua_rawgeti 1 t1 = Inr (Some 9)"
proof -
  have "lua_rawgeti i two_numbers \<noteq> Inr None" if "1 \<le> i \<and> i \<le> 2" for i
    using two_numbers_facts(2-4) that by fastforce
  moreover have "lua_rawgeti 3 two_numbers = Inr None"
    by code_simp
  ultimately show ?thesis
    using insert_then_remove [OF two_numbers_facts(1), of 2 1 "Some 9" "strings_start 0" "()"]
    by (auto simp: index_ok_def split: prod.splits sum.splits)
qed

section \<open>Joining and unpacking\<close>

fun join :: "'a list \<Rightarrow> 'a list list \<Rightarrow> 'a list" where
  "join sep [] = []"
| "join sep [x] = x"
| "join sep (x # y # xs) = x @ sep @ join sep (y # xs)"

definition join_fields :: "u8 list \<Rightarrow> u8 list option list \<Rightarrow> tab_error + u8 list" where
  "join_fields sep fs =
     (if None \<in> set fs then Inl (LibError ''invalid value in table for concat'') else Inr (join sep (map the fs)))"

context array_access
begin

lemma concat_loop_spec:
  assumes "ok s" "index_ok i" "index_ok lst"
  shows "concat_loop ta tostr sep i lst b (s, c) =
    (case join_fields sep (map (\<lambda>k. tostr (src s k)) [i..lst]) of Inl e \<Rightarrow> (Inl e, (s, c)) | Inr x \<Rightarrow> (Inr (b @ x), (s, c)))"
  using assms(2)
proof (induction "nat (lst - i)" arbitrary: i b)
  case 0
  then show ?case
    using geti_eval [OF assms(1) 0(2), of c]
    by (subst concat_loop.simps) (auto simp: addfield_def bindA_def retA_def raiseA_def join_fields_def split: option.split)
next
  case (Suc k)
  have k: "k = nat (lst - (i + 1))" "index_ok (i + 1)" "i < lst"
    using Suc.hyps(2) Suc.prems assms(3) by (auto simp: index_ok_def)
  have l: "[i..lst] = i # [i + 1..lst]" "[i + 1..lst] = (i + 1) # [i + 1 + 1..lst]"
    using k(3) by (simp_all add: upto_rec1)
  show ?case
    using geti_eval [OF assms(1) Suc.prems, of c] k(3)
    by (subst concat_loop.simps)
      (auto simp: addfield_def bindA_def retA_def raiseA_def Suc.hyps(1) [OF k(1,2)] join_fields_def l split: option.split)
qed

lemma collect_spec:
  "ok s \<Longrightarrow> (\<forall>k < m. index_ok (i + int k)) \<Longrightarrow> collect ta i m (s, c) = (Inr (map (src s) [i..i + int m - 1]), (s, c))"
proof (induction m arbitrary: i)
  case (Suc m)
  have "index_ok i" "\<forall>k < m. index_ok (i + 1 + int k)"
    using Suc.prems(2) by (auto simp: add.assoc dest: spec [of _ "0 :: nat"] spec [of _ "Suc _"])
  then show ?case
    using Suc.IH [of "i + 1"] Suc.prems(1) geti_eval [OF Suc.prems(1), of i c]
    by (simp add: bindA_def retA_def upto_rec1 add.assoc)
qed (simp add: retA_def)

end

text \<open>
  \<open>table.concat\<close> joins the texts of the elements from \<open>i\<close> to \<open>lst\<close> with the separator between them, and
  fails exactly if one of them is neither a string nor a number; the table is not changed.
\<close>

theorem concat_joins:
  assumes "tab_inv g t" "index_ok i" "index_ok lst"
  shows "tconcat (raw_access g) tostr sep i lst (t, c) =
    (join_fields sep (map (\<lambda>k. case lua_rawgeti k t of Inr v \<Rightarrow> tostr v) [i..lst]), (t, c))"
  using raw.concat_loop_spec [OF assms, of tostr sep "[]" c]
  by (simp add: tconcat_def rawgeti_val [OF assms(1)] split: sum.split)

theorem concat_joins_witness:
  "tconcat (raw_access (strings_start 0)) (map_option (\<lambda>n. [of_nat n])) [44] 1 2 (two_numbers, ()) = (Inr [7, 44, 5], (two_numbers, ()))"
  using concat_joins [OF two_numbers_facts(1), of 1 2 "strings_start 0" "map_option (\<lambda>n. [of_nat n])" "[44]" "()"]
  by (simp add: index_ok_def join_fields_def upto_rec1 two_numbers_facts)

text \<open>\<open>table.unpack\<close> returns the elements from \<open>i\<close> to \<open>e\<close>, for as many as fit on the stack.\<close>

lemma unpack_spec:
  assumes "tab_inv g t" "index_ok i" "index_ok e" "nat (e - i) < MAX_INT" "checkstack (nat (e - i) + 1)"
  shows "unpack (raw_access g) checkstack i e (t, c) = (Inr (map (at_int g t) [i..e]), (t, c))"
proof (cases "i > e")
  case False
  have "\<forall>k < nat (e - i) + 1. index_ok (i + int k)" using assms(2,3) by (auto simp: index_ok_def)
  from raw.collect_spec [OF assms(1) this, of c] show ?thesis
    using False assms(4,5) by (simp add: unpack_def Let_def)
qed (simp add: unpack_def retA_def)

end
