(* ===== verification/LuaMatch.thy ===== *)
theory LuaMatch
  imports Prelude
begin

text \<open>
  Pattern matching of the embedded interpreter (\<open>lstrlib.c\<close> under \<open>lua/lua-5.3.1/src\<close>): the backtracking
  matcher and the searches over it. The subject and the pattern are lists of bytes, pointers into them are
  positions. Reading at the end gives the terminating zero, reading behind it is the error \<open>BadRead\<close>, so
  that its absence is memory safety. The depth that bounds the recursion of \<open>match\<close> is its first argument;
  the \<open>goto init\<close> of its tail calls is a jump that a step of the matcher returns. Character
  classes are those of the C locale.
\<close>

section \<open>Bytes and errors\<close>

datatype str_error = BadRead | TooComplex | Malformed string | CaptureError string | StrError string

definition bindS :: "str_error + 'a \<Rightarrow> ('a \<Rightarrow> str_error + 'b) \<Rightarrow> str_error + 'b" where
  "bindS m f = (case m of Inl e \<Rightarrow> Inl e | Inr x \<Rightarrow> f x)"

lemma bindS_simps [simp]: "bindS (Inl e) f = Inl e" "bindS (Inr x) f = f x"
  by (simp_all add: bindS_def)

lemma bindS_cong [fundef_cong]: "m = m' \<Longrightarrow> (\<And>x. m' = Inr x \<Longrightarrow> f x = f' x) \<Longrightarrow> bindS m f = bindS m' f'"
  by (auto simp: bindS_def split: sum.split)

lemma bindS_Inr: "bindS m f = Inr y \<longleftrightarrow> (\<exists>x. m = Inr x \<and> f x = Inr y)"
  by (simp add: bindS_def split: sum.split)

text \<open>\<open>*p\<close> in a string of the interpreter, which ends with a zero byte.\<close>

definition rd :: "u8 list \<Rightarrow> nat \<Rightarrow> str_error + u8" where
  "rd xs i = (if i < length xs then Inr (xs ! i) else if i = length xs then Inr 0 else Inl BadRead)"

abbreviation L_ESC :: u8 where "L_ESC \<equiv> 37"
abbreviation c_dollar :: u8 where "c_dollar \<equiv> 36"
abbreviation c_open :: u8 where "c_open \<equiv> 40"
abbreviation c_close :: u8 where "c_close \<equiv> 41"
abbreviation c_star :: u8 where "c_star \<equiv> 42"
abbreviation c_plus :: u8 where "c_plus \<equiv> 43"
abbreviation c_minus :: u8 where "c_minus \<equiv> 45"
abbreviation c_dot :: u8 where "c_dot \<equiv> 46"
abbreviation c_opt :: u8 where "c_opt \<equiv> 63"
abbreviation c_lbracket :: u8 where "c_lbracket \<equiv> 91"
abbreviation c_rbracket :: u8 where "c_rbracket \<equiv> 93"
abbreviation c_caret :: u8 where "c_caret \<equiv> 94"

definition SPECIALS :: "u8 list" where
  "SPECIALS = [c_caret, c_dollar, c_star, c_plus, c_opt, c_dot, c_open, c_lbracket, L_ESC, c_minus]"

section \<open>Character classes\<close>

definition isdigit :: "u8 \<Rightarrow> bool" where "isdigit c \<longleftrightarrow> 48 \<le> c \<and> c \<le> 57"
definition islower :: "u8 \<Rightarrow> bool" where "islower c \<longleftrightarrow> 97 \<le> c \<and> c \<le> 122"
definition isupper :: "u8 \<Rightarrow> bool" where "isupper c \<longleftrightarrow> 65 \<le> c \<and> c \<le> 90"
definition isalpha :: "u8 \<Rightarrow> bool" where "isalpha c \<longleftrightarrow> islower c \<or> isupper c"
definition isalnum :: "u8 \<Rightarrow> bool" where "isalnum c \<longleftrightarrow> isalpha c \<or> isdigit c"
definition isgraph :: "u8 \<Rightarrow> bool" where "isgraph c \<longleftrightarrow> 33 \<le> c \<and> c \<le> 126"
definition iscntrl :: "u8 \<Rightarrow> bool" where "iscntrl c \<longleftrightarrow> c < 32 \<or> c = 127"
definition ispunct :: "u8 \<Rightarrow> bool" where "ispunct c \<longleftrightarrow> isgraph c \<and> \<not> isalnum c"
definition isspace :: "u8 \<Rightarrow> bool" where "isspace c \<longleftrightarrow> c = 32 \<or> (9 \<le> c \<and> c \<le> 13)"
definition isxdigit :: "u8 \<Rightarrow> bool" where
  "isxdigit c \<longleftrightarrow> isdigit c \<or> (65 \<le> c \<and> c \<le> 70) \<or> (97 \<le> c \<and> c \<le> 102)"

definition tolower_c :: "u8 \<Rightarrow> u8" where "tolower_c c = (if isupper c then c + 32 else c)"
definition toupper_c :: "u8 \<Rightarrow> u8" where "toupper_c c = (if islower c then c - 32 else c)"

definition match_class :: "u8 \<Rightarrow> u8 \<Rightarrow> bool" where
  "match_class c cl =
     (let k = tolower_c cl; answer = (\<lambda>res. if islower cl then res else \<not> res)
      in if k = 97 then answer (isalpha c)
         else if k = 99 then answer (iscntrl c)
         else if k = 100 then answer (isdigit c)
         else if k = 103 then answer (isgraph c)
         else if k = 108 then answer (islower c)
         else if k = 112 then answer (ispunct c)
         else if k = 115 then answer (isspace c)
         else if k = 117 then answer (isupper c)
         else if k = 119 then answer (isalnum c)
         else if k = 120 then answer (isxdigit c)
         else if k = 122 then answer (c = 0)
         else cl = c)"

text \<open>The end of a class that starts at \<open>p\<close>; the loop looks for the closing bracket.\<close>

function class_loop :: "u8 list \<Rightarrow> nat \<Rightarrow> str_error + nat" where
  "class_loop pat p =
     (if p = length pat then Inl (Malformed ''malformed pattern (missing ']')'')
      else bindS (rd pat p)
        (\<lambda>c. let p1 = (if c = L_ESC \<and> p + 1 < length pat then p + 2 else p + 1)
             in bindS (rd pat p1) (\<lambda>d. if d \<noteq> c_rbracket then class_loop pat p1 else Inr (p1 + 1))))"
  by pat_completeness auto
termination
  by (relation "measure (\<lambda>(pat, p). length pat + 1 - p)") (auto simp: rd_def Let_def split: if_splits)

declare class_loop.simps [simp del]

definition classend :: "u8 list \<Rightarrow> nat \<Rightarrow> str_error + nat" where
  "classend pat p = bindS (rd pat p)
     (\<lambda>c. if c = L_ESC then
            (if p + 1 = length pat then Inl (Malformed ''malformed pattern (ends with '%')'') else Inr (p + 2))
          else if c = c_lbracket then
            bindS (rd pat (p + 1)) (\<lambda>d. class_loop pat (if d = c_caret then p + 2 else p + 1))
          else Inr (p + 1))"

text \<open>\<open>sig\<close> is the answer for a character in the set; \<open>p\<close> stands before the next element.\<close>

function bracket_loop :: "u8 list \<Rightarrow> u8 \<Rightarrow> bool \<Rightarrow> nat \<Rightarrow> nat \<Rightarrow> str_error + bool" where
  "bracket_loop pat c sig p ec =
     (let q = p + 1
      in if q < ec then
           bindS (rd pat q) (\<lambda>x.
             if x = L_ESC then
               bindS (rd pat (q + 1)) (\<lambda>cl. if match_class c cl then Inr sig else bracket_loop pat c sig (q + 1) ec)
             else bindS (rd pat (q + 1)) (\<lambda>d.
               if d = c_minus \<and> q + 2 < ec then
                 bindS (rd pat (q + 2)) (\<lambda>y. if x \<le> c \<and> c \<le> y then Inr sig else bracket_loop pat c sig (q + 2) ec)
               else if x = c then Inr sig
               else bracket_loop pat c sig q ec))
         else Inr (\<not> sig))"
  by pat_completeness auto
termination by (relation "measure (\<lambda>(pat, c, sig, p, ec). ec - p)") auto

declare bracket_loop.simps [simp del]

definition matchbracketclass :: "u8 list \<Rightarrow> u8 \<Rightarrow> nat \<Rightarrow> nat \<Rightarrow> str_error + bool" where
  "matchbracketclass pat c p ec =
     bindS (rd pat (p + 1)) (\<lambda>d. if d = c_caret then bracket_loop pat c False (p + 1) ec else bracket_loop pat c True p ec)"

definition single_char :: "u8 list \<Rightarrow> u8 \<Rightarrow> nat \<Rightarrow> nat \<Rightarrow> str_error + bool" where
  "single_char pat c p ep =
     bindS (rd pat p)
       (\<lambda>x. if x = c_dot then Inr True
            else if x = L_ESC then bindS (rd pat (p + 1)) (\<lambda>cl. Inr (match_class c cl))
            else if x = c_lbracket then matchbracketclass pat c p (ep - 1)
            else Inr (x = c))"

definition singlematch :: "u8 list \<Rightarrow> u8 list \<Rightarrow> nat \<Rightarrow> nat \<Rightarrow> nat \<Rightarrow> str_error + bool" where
  "singlematch src pat s p ep =
     (if s \<ge> length src then Inr False else bindS (rd src s) (\<lambda>c. single_char pat c p ep))"

section \<open>Balanced strings\<close>

text \<open>\<open>s\<close> stands on the last character read.\<close>

function balance_loop :: "u8 list \<Rightarrow> u8 \<Rightarrow> u8 \<Rightarrow> int \<Rightarrow> nat \<Rightarrow> str_error + nat option" where
  "balance_loop src b e cont s =
     (if s + 1 < length src then
        bindS (rd src (s + 1)) (\<lambda>x.
          if x = e then (if cont - 1 = 0 then Inr (Some (s + 2)) else balance_loop src b e (cont - 1) (s + 1))
          else if x = b then balance_loop src b e (cont + 1) (s + 1)
          else balance_loop src b e cont (s + 1))
      else Inr None)"
  by pat_completeness auto
termination by (relation "measure (\<lambda>(src, b, e, cont, s). length src - s)") auto

declare balance_loop.simps [simp del]

definition matchbalance :: "u8 list \<Rightarrow> u8 list \<Rightarrow> nat \<Rightarrow> nat \<Rightarrow> str_error + nat option" where
  "matchbalance src pat s p =
     (if p + 1 \<ge> length pat then Inl (Malformed ''malformed pattern (missing arguments to '%b')'')
      else bindS (rd src s) (\<lambda>x. bindS (rd pat p) (\<lambda>b.
        if x \<noteq> b then Inr None else bindS (rd pat (p + 1)) (\<lambda>e. balance_loop src b e 1 s))))"

section \<open>Captures\<close>

definition LUA_MAXCAPTURES :: nat where "LUA_MAXCAPTURES = 32"
definition MAXCCALLS :: nat where "MAXCCALLS = 200"
definition CAP_UNFINISHED :: int where "CAP_UNFINISHED = - 1"
definition CAP_POSITION :: int where "CAP_POSITION = - 2"

text \<open>The part of \<open>MatchState\<close> that changes; entries of \<open>capture\<close> at \<open>level\<close> and above are stale.\<close>

record captures =
  level :: nat
  capture :: "(nat \<times> int) list"

definition check_capture :: "captures \<Rightarrow> u8 \<Rightarrow> str_error + nat" where
  "check_capture cs ch =
     (let l = uint ch - 49
      in if l < 0 \<or> l \<ge> int (level cs) \<or> snd (capture cs ! nat l) = CAP_UNFINISHED
         then Inl (CaptureError ''invalid capture index'') else Inr (nat l))"

fun find_unfinished :: "(nat \<times> int) list \<Rightarrow> nat \<Rightarrow> nat option" where
  "find_unfinished ca 0 = None"
| "find_unfinished ca (Suc l) = (if snd (ca ! l) = CAP_UNFINISHED then Some l else find_unfinished ca l)"

definition capture_to_close :: "captures \<Rightarrow> str_error + nat" where
  "capture_to_close cs = (case find_unfinished (capture cs) (level cs) of
     Some l \<Rightarrow> Inr l | None \<Rightarrow> Inl (CaptureError ''invalid pattern capture''))"

definition match_capture :: "u8 list \<Rightarrow> nat \<Rightarrow> u8 \<Rightarrow> captures \<Rightarrow> str_error + nat option" where
  "match_capture src s ch cs =
     bindS (check_capture cs ch)
       (\<lambda>l. let len = unat (word_of_int (snd (capture cs ! l)) :: u64); i = fst (capture cs ! l)
            in if length src - s \<ge> len then
                 (if i + len > length src then Inl BadRead
                  else if take len (drop i src) = take len (drop s src) then Inr (Some (s + len)) else Inr None)
               else Inr None)"

text \<open>The calls to \<open>match\<close> one level deeper: subject position, pattern position, captures.\<close>

type_synonym matcher = "nat \<Rightarrow> nat \<Rightarrow> captures \<Rightarrow> str_error + nat option \<times> captures"

definition start_capture :: "matcher \<Rightarrow> nat \<Rightarrow> nat \<Rightarrow> int \<Rightarrow> captures \<Rightarrow> str_error + nat option \<times> captures" where
  "start_capture rec s p what cs =
     (if level cs \<ge> LUA_MAXCAPTURES then Inl (CaptureError ''too many captures'')
      else bindS (rec s p (cs\<lparr>capture := (capture cs)[level cs := (s, what)], level := level cs + 1\<rparr>))
        (\<lambda>(r, cs1). Inr (r, if r = None then cs1\<lparr>level := level cs1 - 1\<rparr> else cs1)))"

definition set_len :: "nat \<Rightarrow> int \<Rightarrow> captures \<Rightarrow> captures" where
  "set_len l n cs = cs\<lparr>capture := (capture cs)[l := (fst (capture cs ! l), n)]\<rparr>"

definition end_capture :: "matcher \<Rightarrow> nat \<Rightarrow> nat \<Rightarrow> captures \<Rightarrow> str_error + nat option \<times> captures" where
  "end_capture rec s p cs =
     bindS (capture_to_close cs)
       (\<lambda>l. bindS (rec s p (set_len l (int s - int (fst (capture cs ! l))) cs))
          (\<lambda>(r, cs1). Inr (r, if r = None then set_len l CAP_UNFINISHED cs1 else cs1)))"

section \<open>Repetitions\<close>

function count_matches :: "u8 list \<Rightarrow> u8 list \<Rightarrow> nat \<Rightarrow> nat \<Rightarrow> nat \<Rightarrow> nat \<Rightarrow> str_error + nat" where
  "count_matches src pat s p ep i =
     bindS (singlematch src pat (s + i) p ep)
       (\<lambda>b. if b then count_matches src pat s p ep (i + 1) else Inr i)"
  by pat_completeness auto
termination
  by (relation "measure (\<lambda>(src, pat, s, p, ep, i). length src - (s + i))") (auto simp: singlematch_def split: if_splits)

declare count_matches.simps [simp del]

fun expand_back :: "matcher \<Rightarrow> nat \<Rightarrow> nat \<Rightarrow> nat \<Rightarrow> captures \<Rightarrow> str_error + nat option \<times> captures" where
  "expand_back rec s ep i cs =
     bindS (rec (s + i) (ep + 1) cs)
       (\<lambda>(r, cs1). case r of Some e \<Rightarrow> Inr (Some e, cs1)
          | None \<Rightarrow> (case i of 0 \<Rightarrow> Inr (None, cs1) | Suc i1 \<Rightarrow> expand_back rec s ep i1 cs1))"

declare expand_back.simps [simp del]

definition max_expand :: "matcher \<Rightarrow> u8 list \<Rightarrow> u8 list \<Rightarrow> nat \<Rightarrow> nat \<Rightarrow> nat \<Rightarrow> captures \<Rightarrow> str_error + nat option \<times> captures" where
  "max_expand rec src pat s p ep cs =
     bindS (count_matches src pat s p ep 0) (\<lambda>i. expand_back rec s ep i cs)"

function min_expand :: "matcher \<Rightarrow> u8 list \<Rightarrow> u8 list \<Rightarrow> nat \<Rightarrow> nat \<Rightarrow> nat \<Rightarrow> captures \<Rightarrow> str_error + nat option \<times> captures" where
  "min_expand rec src pat s p ep cs =
     bindS (rec s (ep + 1) cs)
       (\<lambda>(r, cs1). case r of Some e \<Rightarrow> Inr (Some e, cs1)
          | None \<Rightarrow> bindS (singlematch src pat s p ep)
              (\<lambda>b. if b then min_expand rec src pat (s + 1) p ep cs1 else Inr (None, cs1)))"
  by pat_completeness auto
termination
  by (relation "measure (\<lambda>(rec, src, pat, s, p, ep, cs). length src - s)") (auto simp: singlematch_def split: if_splits)

declare min_expand.simps [simp del]

section \<open>The matcher\<close>

datatype jump = Return "nat option" | Goto nat nat

definition returning :: "str_error + nat option \<times> captures \<Rightarrow> str_error + jump \<times> captures" where
  "returning m = bindS m (\<lambda>(r, cs1). Inr (Return r, cs1))"

text \<open>A pattern class with an optional suffix.\<close>

definition match_default :: "matcher \<Rightarrow> u8 list \<Rightarrow> u8 list \<Rightarrow> nat \<Rightarrow> nat \<Rightarrow> captures \<Rightarrow> str_error + jump \<times> captures" where
  "match_default rec src pat s p cs =
     bindS (classend pat p) (\<lambda>ep. bindS (singlematch src pat s p ep) (\<lambda>m. bindS (rd pat ep) (\<lambda>x.
       if \<not> m then
         (if x = c_star \<or> x = c_opt \<or> x = c_minus then Inr (Goto s (ep + 1), cs) else Inr (Return None, cs))
       else if x = c_opt then
         bindS (rec (s + 1) (ep + 1) cs)
           (\<lambda>(r, cs1). case r of Some e \<Rightarrow> Inr (Return (Some e), cs1) | None \<Rightarrow> Inr (Goto s (ep + 1), cs1))
       else if x = c_plus then returning (max_expand rec src pat (s + 1) p ep cs)
       else if x = c_star then returning (max_expand rec src pat s p ep cs)
       else if x = c_minus then returning (min_expand rec src pat s p ep cs)
       else Inr (Goto (s + 1) ep, cs))))"

definition match_frontier :: "u8 list \<Rightarrow> u8 list \<Rightarrow> nat \<Rightarrow> nat \<Rightarrow> captures \<Rightarrow> str_error + jump \<times> captures" where
  "match_frontier src pat s p cs =
     bindS (rd pat p) (\<lambda>x.
       if x \<noteq> c_lbracket then Inl (Malformed ''missing '[' after '%f' in pattern'')
       else bindS (classend pat p) (\<lambda>ep.
         bindS (if s = 0 then Inr 0 else rd src (s - 1)) (\<lambda>previous.
         bindS (matchbracketclass pat previous p (ep - 1)) (\<lambda>b.
           if b then Inr (Return None, cs)
           else bindS (rd src s) (\<lambda>c. bindS (matchbracketclass pat c p (ep - 1)) (\<lambda>b2.
             if b2 then Inr (Goto s ep, cs) else Inr (Return None, cs)))))))"

definition match_escape :: "matcher \<Rightarrow> u8 list \<Rightarrow> u8 list \<Rightarrow> nat \<Rightarrow> nat \<Rightarrow> captures \<Rightarrow> str_error + jump \<times> captures" where
  "match_escape rec src pat s p cs =
     bindS (rd pat (p + 1)) (\<lambda>d.
       if d = 98 then
         bindS (matchbalance src pat s (p + 2))
           (\<lambda>r. case r of Some s1 \<Rightarrow> Inr (Goto s1 (p + 4), cs) | None \<Rightarrow> Inr (Return None, cs))
       else if d = 102 then match_frontier src pat s (p + 2) cs
       else if isdigit d then
         bindS (match_capture src s d cs)
           (\<lambda>r. case r of Some s1 \<Rightarrow> Inr (Goto s1 (p + 2), cs) | None \<Rightarrow> Inr (Return None, cs))
       else match_default rec src pat s p cs)"

definition match_open :: "matcher \<Rightarrow> u8 list \<Rightarrow> nat \<Rightarrow> nat \<Rightarrow> captures \<Rightarrow> str_error + nat option \<times> captures" where
  "match_open rec pat s p cs =
     bindS (rd pat (p + 1)) (\<lambda>d.
       if d = c_close then start_capture rec s (p + 2) CAP_POSITION cs
       else start_capture rec s (p + 1) CAP_UNFINISHED cs)"

text \<open>One pass from \<open>init\<close> to the next \<open>goto init\<close> or to the end.\<close>

definition match_step :: "matcher \<Rightarrow> u8 list \<Rightarrow> u8 list \<Rightarrow> nat \<Rightarrow> nat \<Rightarrow> captures \<Rightarrow> str_error + jump \<times> captures" where
  "match_step rec src pat s p cs =
     (if p = length pat then Inr (Return (Some s), cs)
      else bindS (rd pat p) (\<lambda>c.
        if c = c_open then returning (match_open rec pat s p cs)
        else if c = c_close then returning (end_capture rec s (p + 1) cs)
        else if c = c_dollar \<and> p + 1 = length pat then
          Inr (Return (if s = length src then Some s else None), cs)
        else if c = L_ESC then match_escape rec src pat s p cs
        else match_default rec src pat s p cs))"

lemma class_loop_gt: "class_loop pat p = Inr ep \<Longrightarrow> p < ep \<and> ep \<le> length pat"
proof (induction pat p rule: class_loop.induct)
  case (1 pat p)
  define p1 where "p1 = (if pat ! p = L_ESC \<and> p + 1 < length pat then p + 2 else p + 1)"
  from "1.prems" obtain d where d: "p \<noteq> length pat" "rd pat p = Inr (pat ! p)" "rd pat p1 = Inr d"
    "(if d \<noteq> c_rbracket then class_loop pat p1 else Inr (p1 + 1)) = Inr ep"
    by (subst (asm) class_loop.simps) (auto simp: bindS_Inr p1_def Let_def rd_def split: if_splits)
  have p: "p < p1" by (simp add: p1_def)
  show ?case
  proof (cases "d = c_rbracket")
    case True
    then have "p1 < length pat" using d(3) by (auto simp: rd_def split: if_splits)
    then show ?thesis using True d(4) p by simp
  next
    case False
    then have "class_loop pat p1 = Inr ep" using d(4) by simp
    from "1.IH" [OF d(1,2) p1_def d(3) False this] show ?thesis using p by simp
  qed
qed

lemma classend_gt: "classend pat p = Inr ep \<Longrightarrow> p < ep"
  by (auto simp: classend_def bindS_Inr split: if_splits dest: class_loop_gt)

text \<open>Every jump goes forward in the pattern.\<close>

definition forward :: "nat \<Rightarrow> str_error + jump \<times> captures \<Rightarrow> bool" where
  "forward p m \<longleftrightarrow> (\<forall>s1 p1 cs1. m = Inr (Goto s1 p1, cs1) \<longrightarrow> p < p1)"

lemma forward_simps [simp]:
  "forward p (Inl e)" "forward p (Inr (Return r, cs))" "forward p (Inr (Goto s1 p1, cs)) \<longleftrightarrow> p < p1" "forward p (returning m)"
  by (auto simp: forward_def returning_def bindS_Inr)

lemma forward_bind: "(\<And>x. m = Inr x \<Longrightarrow> forward p (f x)) \<Longrightarrow> forward p (bindS m f)"
  by (cases m) auto

lemma frontier_forward: "forward p (match_frontier src pat s p cs)"
  unfolding match_frontier_def
  by (intro forward_bind) (auto intro!: forward_bind dest!: classend_gt)

lemma default_forward: "forward p (match_default rec src pat s p cs)"
  unfolding match_default_def
  by (intro forward_bind) (auto intro!: forward_bind split: option.split dest!: classend_gt)

lemma forward_less: "forward q m \<Longrightarrow> p \<le> q \<Longrightarrow> forward p m"
  by (auto simp: forward_def dest: le_less_trans)

lemma escape_forward: "forward p (match_escape rec src pat s p cs)"
  unfolding match_escape_def
  by (intro forward_bind)
    (auto intro!: forward_bind default_forward forward_less [OF frontier_forward] split: option.split)

lemma match_step_forward:
  assumes "match_step rec src pat s p cs = Inr (Goto s1 p1, cs1)"
  shows "p < length pat \<and> p < p1"
proof -
  have "p < length pat"
  proof (rule ccontr)
    assume "\<not> p < length pat"
    then have "p = length pat \<or> rd pat p = Inl BadRead \<and> p \<noteq> length pat" by (auto simp: rd_def)
    then show False using assms by (auto simp: match_step_def)
  qed
  moreover have "forward p (match_step rec src pat s p cs)"
    unfolding match_step_def by (auto intro!: forward_bind default_forward escape_forward)
  ultimately show ?thesis using assms by (simp add: forward_def)
qed

function match_loop :: "matcher \<Rightarrow> u8 list \<Rightarrow> u8 list \<Rightarrow> nat \<Rightarrow> nat \<Rightarrow> captures \<Rightarrow> str_error + nat option \<times> captures" where
  "match_loop rec src pat s p cs =
     (case match_step rec src pat s p cs of
        Inl e \<Rightarrow> Inl e
      | Inr (Return r, cs1) \<Rightarrow> Inr (r, cs1)
      | Inr (Goto s1 p1, cs1) \<Rightarrow> match_loop rec src pat s1 p1 cs1)"
  by pat_completeness auto
termination
  by (relation "measure (\<lambda>(rec, src, pat, s, p, cs). length pat - p)") (auto dest: match_step_forward)

declare match_loop.simps [simp del]

text \<open>\<open>matchdepth\<close> is the first argument; it is back at its value when a call returns.\<close>

fun match_at :: "nat \<Rightarrow> u8 list \<Rightarrow> u8 list \<Rightarrow> matcher" where
  "match_at 0 src pat s p cs = Inl TooComplex"
| "match_at (Suc d) src pat s p cs = match_loop (match_at d src pat) src pat s p cs"

end
