(* ===== verification/LuaMatchSpec.thy ===== *)
theory LuaMatchSpec
  imports LuaMatch
begin

text \<open>
  What a pattern means. A pattern is read once into its items; the meaning of a list of items at a position
  of the subject is the list of all its matches, with their captures, in the order of preference: the longest
  repetition first for \<open>*\<close> and \<open>+\<close>, the shortest for \<open>-\<close>, one before none for \<open>?\<close>. The matcher is shown to find
  the first of them, to read nothing outside its strings, and to need no more depth than the pattern has
  items that call it again.
\<close>

section \<open>Patterns as items\<close>

datatype repetition = One | Opt | Star | Plus | Minus

datatype item = Chars "u8 \<Rightarrow> bool" repetition | Open int | Close | AtEnd | Balance u8 u8 | Frontier "u8 \<Rightarrow> bool" | Backref u8

definition byte :: "u8 list \<Rightarrow> nat \<Rightarrow> u8" where
  "byte xs i = (if i < length xs then xs ! i else 0)"

definition repetition_of :: "u8 \<Rightarrow> repetition" where
  "repetition_of x = (if x = c_opt then Opt else if x = c_star then Star else if x = c_plus then Plus
     else if x = c_minus then Minus else One)"

definition char_set :: "u8 list \<Rightarrow> nat \<Rightarrow> nat \<Rightarrow> u8 \<Rightarrow> bool" where
  "char_set pat p ep c \<longleftrightarrow> single_char pat c p ep = Inr True"

function parse :: "u8 list \<Rightarrow> nat \<Rightarrow> item list option" where
  "parse pat p =
     (if p \<ge> length pat then Some []
      else let c = pat ! p; d = byte pat (p + 1)
        in if c = c_open then
             (if d = c_close then map_option (Cons (Open CAP_POSITION)) (parse pat (p + 2))
              else map_option (Cons (Open CAP_UNFINISHED)) (parse pat (p + 1)))
           else if c = c_close then map_option (Cons Close) (parse pat (p + 1))
           else if c = c_dollar \<and> p + 1 = length pat then Some [AtEnd]
           else if c = L_ESC \<and> d = 98 then
             (if p + 3 < length pat then map_option (Cons (Balance (pat ! (p + 2)) (pat ! (p + 3)))) (parse pat (p + 4))
              else None)
           else if c = L_ESC \<and> d = 102 then
             (if byte pat (p + 2) \<noteq> c_lbracket then None
              else case classend pat (p + 2) of Inl e \<Rightarrow> None
                | Inr ep \<Rightarrow> map_option (Cons (Frontier (char_set pat (p + 2) ep))) (parse pat ep))
           else if c = L_ESC \<and> isdigit d then map_option (Cons (Backref d)) (parse pat (p + 2))
           else case classend pat p of Inl e \<Rightarrow> None
             | Inr ep \<Rightarrow> map_option (Cons (Chars (char_set pat p ep) (repetition_of (byte pat ep))))
                 (parse pat (if repetition_of (byte pat ep) = One then ep else ep + 1)))"
  by pat_completeness auto
termination
  by (relation "measure (\<lambda>(pat, p). length pat - p)") (auto dest: classend_gt)

declare parse.simps [simp del]

section \<open>All matches, in order\<close>

definition hits :: "(u8 \<Rightarrow> bool) \<Rightarrow> u8 list \<Rightarrow> nat \<Rightarrow> bool" where
  "hits P src s \<longleftrightarrow> s < length src \<and> P (src ! s)"

definition run_length :: "(u8 \<Rightarrow> bool) \<Rightarrow> u8 list \<Rightarrow> nat \<Rightarrow> nat" where
  "run_length P src s = length (takeWhile P (drop s src))"

text \<open>How many characters there are up to the one that closes \<open>n\<close> open ones.\<close>

fun closes :: "u8 \<Rightarrow> u8 \<Rightarrow> nat \<Rightarrow> u8 list \<Rightarrow> nat option" where
  "closes b e n [] = None"
| "closes b e n (x # xs) = map_option Suc
     (if x = e then (if n = 1 then Some 0 else closes b e (n - 1) xs)
      else closes b e (if x = b then n + 1 else n) xs)"

definition balanced :: "u8 \<Rightarrow> u8 \<Rightarrow> u8 list \<Rightarrow> nat \<Rightarrow> nat option" where
  "balanced b e src s =
     (if byte src s = b then map_option ((+) (s + 1)) (closes b e 1 (drop (s + 1) src)) else None)"

definition captured :: "u8 list \<Rightarrow> nat \<times> int \<Rightarrow> u8 list" where
  "captured src ca = take (nat (snd ca)) (drop (fst ca) src)"

definition repeated :: "u8 list \<Rightarrow> nat \<Rightarrow> u8 \<Rightarrow> (nat \<times> int) list \<Rightarrow> nat option" where
  "repeated src s ch c =
     (let l = nat (uint ch - 49)
      in if 49 \<le> uint ch \<and> l < length c \<and> 0 \<le> snd (c ! l) then
           (let t = captured src (c ! l) in if take (length t) (drop s src) = t then Some (s + length t) else None)
         else None)"

fun results :: "u8 list \<Rightarrow> item list \<Rightarrow> nat \<Rightarrow> (nat \<times> int) list \<Rightarrow> (nat \<times> (nat \<times> int) list) list" where
  "results src [] s c = [(s, c)]"
| "results src (Chars P One # its) s c = (if hits P src s then results src its (s + 1) c else [])"
| "results src (Chars P Opt # its) s c = (if hits P src s then results src its (s + 1) c else []) @ results src its s c"
| "results src (Chars P Star # its) s c =
     concat (map (\<lambda>k. results src its (s + k) c) (rev [0..<Suc (run_length P src s)]))"
| "results src (Chars P Plus # its) s c =
     (if hits P src s then concat (map (\<lambda>k. results src its (s + 1 + k) c) (rev [0..<Suc (run_length P src (s + 1))]))
      else [])"
| "results src (Chars P Minus # its) s c =
     concat (map (\<lambda>k. results src its (s + k) c) [0..<Suc (run_length P src s)])"
| "results src (Open what # its) s c = results src its s (c @ [(s, what)])"
| "results src (Close # its) s c =
     (case find_unfinished c (length c) of None \<Rightarrow> []
      | Some l \<Rightarrow> results src its s (c[l := (fst (c ! l), int s - int (fst (c ! l)))]))"
| "results src (AtEnd # its) s c = (if s = length src then results src its s c else [])"
| "results src (Balance b e # its) s c =
     (case balanced b e src s of None \<Rightarrow> [] | Some s1 \<Rightarrow> results src its s1 c)"
| "results src (Frontier P # its) s c =
     (if \<not> P (if s = 0 then 0 else byte src (s - 1)) \<and> P (byte src s) then results src its s c else [])"
| "results src (Backref ch # its) s c =
     (case repeated src s ch c of None \<Rightarrow> [] | Some s1 \<Rightarrow> results src its s1 c)"

text \<open>The items at which the matcher calls itself.\<close>

fun nests :: "item \<Rightarrow> bool" where
  "nests (Chars P q) \<longleftrightarrow> q \<noteq> One"
| "nests (Open what) \<longleftrightarrow> True"
| "nests Close \<longleftrightarrow> True"
| "nests it \<longleftrightarrow> False"

definition cost :: "item list \<Rightarrow> nat" where
  "cost its = length (filter nests its)"

lemma cost_simps [simp]: "cost [] = 0" "cost (it # its) = (if nests it then Suc (cost its) else cost its)"
  by (simp_all add: cost_def)

section \<open>Reads stay inside\<close>

lemma rd_byte: "p \<le> length xs \<Longrightarrow> rd xs p = Inr (byte xs p)"
  by (simp add: rd_def byte_def)

definition malformed :: "str_error \<Rightarrow> bool" where
  "malformed e \<longleftrightarrow> (\<exists>msg. e = Malformed msg)"

lemma byte_caret: "byte xs i = c_caret \<Longrightarrow> i < length xs"
  by (auto simp: byte_def split: if_splits)

lemma class_loop_step:
  assumes "p < length pat"
  obtains p1 where "p < p1" "p1 \<le> length pat" "class_loop pat p = (if byte pat p1 = c_rbracket then Inr (p1 + 1) else class_loop pat p1)"
proof -
  define p1 where "p1 = (if pat ! p = L_ESC \<and> p + 1 < length pat then p + 2 else p + 1)"
  have p1: "p1 \<le> length pat" using assms by (auto simp: p1_def)
  have "rd pat p = Inr (pat ! p)" "p \<noteq> length pat" using assms by (simp_all add: rd_def)
  then have "class_loop pat p = (if byte pat p1 = c_rbracket then Inr (p1 + 1) else class_loop pat p1)"
    unfolding class_loop.simps [of pat p] Let_def by (simp only: bindS_simps if_False p1_def [symmetric] rd_byte [OF p1]) simp
  then show ?thesis using that [of p1] p1 by (simp add: p1_def)
qed

lemma class_loop_error: "class_loop pat p = Inl e \<Longrightarrow> p \<le> length pat \<Longrightarrow> malformed e"
proof (induction "length pat - p" arbitrary: p rule: less_induct)
  case less
  show ?case
  proof (cases "p = length pat")
    case True
    then show ?thesis using less.prems by (subst (asm) class_loop.simps) (auto simp: malformed_def)
  next
    case False
    then have "p < length pat" using less.prems by simp
    then obtain p1 where "p < p1" "p1 \<le> length pat"
      "class_loop pat p = (if byte pat p1 = c_rbracket then Inr (p1 + 1) else class_loop pat p1)"
      by (rule class_loop_step)
    then show ?thesis using less.hyps [of p1] less.prems False by (auto split: if_splits)
  qed
qed

lemma classend_error: "classend pat p = Inl e \<Longrightarrow> p < length pat \<Longrightarrow> malformed e"
  by (auto simp: classend_def rd_byte Suc_le_eq split: if_splits dest!: class_loop_error byte_caret)
    (simp_all add: malformed_def)

lemma classend_range:
  assumes "classend pat p = Inr ep" "p < length pat"
  shows "p < ep \<and> ep \<le> length pat"
  using assms by (auto simp: classend_def rd_byte split: if_splits dest!: class_loop_gt)

lemma bracket_loop_safe: "ec < length pat \<Longrightarrow> \<exists>b. bracket_loop pat c sg p ec = Inr b"
proof (induction "ec - p" arbitrary: p rule: less_induct)
  case less
  have ih: "\<exists>b. bracket_loop pat c sg q ec = Inr b" if "p < q" "p < ec" for q using less that by simp
  show ?case
  proof (cases "p + 1 < ec")
    case True
    then have r: "rd pat (p + 1) = Inr (byte pat (p + 1))" "rd pat (p + 1 + 1) = Inr (byte pat (p + 1 + 1))"
      using less.prems by (simp_all add: rd_byte)
    have r2: "rd pat (p + 1 + 2) = Inr (byte pat (p + 1 + 2))" if "p + 1 + 2 < ec"
      using that less.prems by (simp add: rd_byte)
    show ?thesis
      unfolding bracket_loop.simps [of pat c sg p ec] Let_def if_P [OF True] r bindS_simps
      using ih [of "p + 1"] ih [of "p + 2"] ih [of "p + 3"] r2 True by (auto simp: numeral_3_eq_3)
  qed (subst bracket_loop.simps, simp)
qed

lemma bracketclass_safe: "ec < length pat \<Longrightarrow> p < length pat \<Longrightarrow> \<exists>b. matchbracketclass pat c p ec = Inr b"
  by (simp add: matchbracketclass_def rd_byte Suc_le_eq bracket_loop_safe)

lemma single_char_set:
  assumes "classend pat p = Inr ep" "p < length pat"
  shows "single_char pat c p ep = Inr (char_set pat p ep c)"
proof -
  have ep: "p < ep" "ep \<le> length pat" using classend_range [OF assms] by simp_all
  have "ep - 1 < length pat" using ep by simp
  from bracketclass_safe [OF this assms(2)] have "\<exists>b. single_char pat c p ep = Inr b"
    using assms by (auto simp: single_char_def rd_byte Suc_le_eq)
  then show ?thesis by (auto simp: char_set_def)
qed

lemma singlematch_hits:
  assumes "classend pat p = Inr ep" "p < length pat"
  shows "singlematch src pat s p ep = Inr (hits (char_set pat p ep) src s)"
  by (simp add: singlematch_def hits_def rd_def single_char_set [OF assms])

lemma frontier_set:
  assumes "classend pat p = Inr ep" "p < length pat" "byte pat p = c_lbracket"
  shows "matchbracketclass pat c p (ep - 1) = Inr (char_set pat p ep c)"
  using single_char_set [OF assms(1,2), of c] assms(2,3) by (simp add: single_char_def rd_byte)

lemma balance_loop_closes:
  "0 < n \<Longrightarrow> balance_loop src b e (int n) s = Inr (map_option ((+) (s + 1)) (closes b e n (drop (s + 1) src)))"
proof (induction "length src - s" arbitrary: s n)
  case 0
  then show ?case by (subst balance_loop.simps) simp
next
  case (Suc m)
  show ?case
  proof (cases "s + 1 < length src")
    case True
    then have d: "drop (s + 1) src = src ! (s + 1) # drop (s + 1 + 1) src" by (simp add: Cons_nth_drop_Suc)
    have m: "m = length src - (s + 1)" using Suc.hyps(2) by simp
    have r: "rd src (s + 1) = Inr (src ! (s + 1))" using True by (simp add: rd_def)
    have i: "int n - 1 = int (n - 1)" "int n + 1 = int (n + 1)" "(int n - 1 = 0) = (n = 1)" using Suc.prems by simp_all
    have c: "(+) (Suc s) \<circ> Suc = (+) (Suc (Suc s))" by (simp add: fun_eq_iff)
    show ?thesis
      unfolding balance_loop.simps [of src b e "int n" s] if_P [OF True] r bindS_simps d closes.simps i
      using Suc.hyps(1) [OF m, of "n - 1"] Suc.hyps(1) [OF m, of "n + 1"] Suc.hyps(1) [OF m, of n] Suc.prems
      by (cases "n = 1") (simp_all add: option.map_comp c)
  next
    case False
    then show ?thesis by (subst balance_loop.simps) simp
  qed
qed

lemma matchbalance_balanced:
  assumes "s \<le> length src" "p + 1 < length pat"
  shows "matchbalance src pat s p = Inr (balanced (pat ! p) (pat ! (p + 1)) src s)"
  using assms balance_loop_closes [of 1 src "pat ! p" "pat ! (p + 1)" s]
  by (simp add: matchbalance_def rd_byte balanced_def) (simp add: byte_def)

lemma closes_length: "closes b e n xs = Some k \<Longrightarrow> k \<le> length xs"
  by (induction xs arbitrary: n k) (auto split: if_splits)

lemma balanced_range: "balanced b e src s = Some s1 \<Longrightarrow> s \<le> length src \<Longrightarrow> s < s1 \<and> s1 \<le> length src"
  by (cases "s = length src") (auto simp: balanced_def split: if_splits dest!: closes_length)

end
