(* ===== verification/LuaMatchCorrect.thy ===== *)
theory LuaMatchCorrect
  imports LuaMatchSpec
begin

text \<open>
  The matcher against the meaning of patterns. \<open>answer\<close> is what a call promises, \<open>step_ok\<close> what a step
  promises, \<open>contract\<close> the promise of the calls one level deeper.
\<close>

section \<open>Captures\<close>

definition vis :: "captures \<Rightarrow> (nat \<times> int) list" where
  "vis cs = take (level cs) (capture cs)"

definition cap_ok :: "nat \<Rightarrow> nat \<times> int \<Rightarrow> bool" where
  "cap_ok s ca \<longleftrightarrow> fst ca \<le> s \<and> (snd ca = CAP_UNFINISHED \<or> snd ca = CAP_POSITION \<or>
     0 \<le> snd ca \<and> int (fst ca) + snd ca \<le> int s)"

definition caps_ok :: "nat \<Rightarrow> captures \<Rightarrow> bool" where
  "caps_ok s cs \<longleftrightarrow> length (capture cs) = LUA_MAXCAPTURES \<and> level cs \<le> LUA_MAXCAPTURES \<and> list_all (cap_ok s) (vis cs)"

lemma caps_ok_mono: "caps_ok s cs \<Longrightarrow> s \<le> s1 \<Longrightarrow> caps_ok s1 cs"
  by (auto simp: caps_ok_def cap_ok_def list_all_iff)

lemma length_vis: "caps_ok s cs \<Longrightarrow> length (vis cs) = level cs"
  by (simp add: caps_ok_def vis_def)

text \<open>A call that does not match leaves the captures as they were, apart from stale entries.\<close>

definition same_caps :: "captures \<Rightarrow> captures \<Rightarrow> bool" where
  "same_caps cs cs1 \<longleftrightarrow> length (capture cs1) = length (capture cs) \<and> level cs1 = level cs \<and> vis cs1 = vis cs"

lemma same_caps_refl [simp]: "same_caps cs cs"
  by (simp add: same_caps_def)

lemma same_caps_trans: "same_caps cs cs1 \<Longrightarrow> same_caps cs1 cs2 \<Longrightarrow> same_caps cs cs2"
  by (simp add: same_caps_def)

lemma same_caps_ok: "same_caps cs cs1 \<Longrightarrow> caps_ok s cs \<Longrightarrow> caps_ok s cs1"
  by (simp add: same_caps_def caps_ok_def)

section \<open>Promises\<close>

text \<open>\<open>L\<close> is the list of the matches, \<open>None\<close> if the pattern is malformed; \<open>deep\<close> that the depth is enough.\<close>

definition good_error :: "(nat \<times> (nat \<times> int) list) list option \<Rightarrow> bool \<Rightarrow> str_error \<Rightarrow> bool" where
  "good_error L deep e \<longleftrightarrow> (case e of TooComplex \<Rightarrow> \<not> deep | CaptureError _ \<Rightarrow> True | Malformed _ \<Rightarrow> L = None | _ \<Rightarrow> False)"

definition answer :: "u8 list \<Rightarrow> nat \<Rightarrow> captures \<Rightarrow> (nat \<times> (nat \<times> int) list) list option \<Rightarrow> bool \<Rightarrow>
    str_error + nat option \<times> captures \<Rightarrow> bool" where
  "answer src s cs L deep res \<longleftrightarrow> (case res of
     Inl e \<Rightarrow> good_error L deep e
   | Inr (None, cs1) \<Rightarrow> same_caps cs cs1 \<and> (\<forall>l. L = Some l \<longrightarrow> l = [])
   | Inr (Some e, cs1) \<Rightarrow> s \<le> e \<and> e \<le> length src \<and> caps_ok e cs1 \<and> (\<forall>l. L = Some l \<longrightarrow> (\<exists>r. l = (e, vis cs1) # r)))"

definition meaning :: "u8 list \<Rightarrow> u8 list \<Rightarrow> nat \<Rightarrow> nat \<Rightarrow> captures \<Rightarrow> (nat \<times> (nat \<times> int) list) list option" where
  "meaning src pat s p cs = map_option (\<lambda>its. results src its s (vis cs)) (parse pat p)"

definition shallow :: "u8 list \<Rightarrow> nat \<Rightarrow> nat \<Rightarrow> bool" where
  "shallow pat p d \<longleftrightarrow> (\<exists>its. parse pat p = Some its \<and> cost its < d)"

definition contract :: "nat \<Rightarrow> u8 list \<Rightarrow> u8 list \<Rightarrow> matcher \<Rightarrow> bool" where
  "contract d src pat rec \<longleftrightarrow> (\<forall>s p cs. s \<le> length src \<and> p \<le> length pat \<and> caps_ok s cs \<longrightarrow>
     answer src s cs (meaning src pat s p cs) (shallow pat p d) (rec s p cs))"

lemma contractD:
  "contract d src pat rec \<Longrightarrow> s \<le> length src \<Longrightarrow> p \<le> length pat \<Longrightarrow> caps_ok s cs \<Longrightarrow>
    answer src s cs (meaning src pat s p cs) (shallow pat p d) (rec s p cs)"
  by (simp add: contract_def)

lemma answer_cases:
  assumes "answer src s cs L deep res"
  obtains (error) e where "res = Inl e" "good_error L deep e"
  | (no_match) cs1 where "res = Inr (None, cs1)" "same_caps cs cs1" "\<forall>l. L = Some l \<longrightarrow> l = []"
  | (found) e1 cs1 where "res = Inr (Some e1, cs1)" "s \<le> e1" "e1 \<le> length src" "caps_ok e1 cs1"
      "\<forall>l. L = Some l \<longrightarrow> (\<exists>r. l = (e1, vis cs1) # r)"
proof (cases res)
  case (Inl e)
  then show ?thesis using assms error by (simp add: answer_def)
next
  case (Inr x)
  obtain r cs1 where "x = (r, cs1)" by (rule prod.exhaust)
  then show ?thesis using assms no_match found Inr by (cases r) (simp_all add: answer_def)
qed

lemma answer_simps [simp]:
  "answer src s cs L deep (Inl e) \<longleftrightarrow> good_error L deep e"
  "answer src s cs L deep (Inr (None, cs1)) \<longleftrightarrow> same_caps cs cs1 \<and> (\<forall>l. L = Some l \<longrightarrow> l = [])"
  "answer src s cs L deep (Inr (Some e1, cs1)) \<longleftrightarrow> s \<le> e1 \<and> e1 \<le> length src \<and> caps_ok e1 cs1 \<and>
     (\<forall>l. L = Some l \<longrightarrow> (\<exists>r. l = (e1, vis cs1) # r))"
  by (simp_all add: answer_def)

lemma good_error_mono:
  "good_error L deep e \<Longrightarrow> (L1 \<noteq> None \<longrightarrow> L \<noteq> None) \<Longrightarrow> (deep1 \<longrightarrow> deep) \<Longrightarrow> good_error L1 deep1 e"
  by (auto simp: good_error_def split: str_error.splits)

lemma answer_mono:
  assumes "answer src s cs L deep res" "s1 \<le> s" "same_caps cs1 cs" "L1 \<noteq> None \<longrightarrow> L1 = L" "deep1 \<longrightarrow> deep"
  shows "answer src s1 cs1 L1 deep1 res"
  using assms(1)
proof (cases rule: answer_cases)
  case (error e)
  then show ?thesis using good_error_mono [of L deep e L1 deep1] assms(4,5) by auto
qed (use assms same_caps_trans in auto)

text \<open>First one alternative, then another.\<close>

definition or_else :: "str_error + nat option \<times> captures \<Rightarrow> (captures \<Rightarrow> str_error + nat option \<times> captures) \<Rightarrow>
    str_error + nat option \<times> captures" where
  "or_else m f = bindS m (\<lambda>(r, cs1). case r of Some e \<Rightarrow> Inr (Some e, cs1) | None \<Rightarrow> f cs1)"

lemma answer_or_else:
  assumes "answer src s1 cs (map_option f its) deep m" "s \<le> s1"
    and "\<And>cs1. same_caps cs cs1 \<Longrightarrow> answer src s cs1 (map_option g its) deep (h cs1)"
  shows "answer src s cs (map_option (\<lambda>i. f i @ g i) its) deep (or_else m h)"
  using assms(1)
proof (cases rule: answer_cases)
  case (error e)
  then show ?thesis using good_error_mono [OF error(2), of "map_option (\<lambda>i. f i @ g i) its" deep] by (auto simp: or_else_def)
next
  case (no_match cs1)
  from assms(3) [OF no_match(2)] show ?thesis
  proof (cases rule: answer_cases)
    case (error e)
    then show ?thesis
      using good_error_mono [OF error(2), of "map_option (\<lambda>i. f i @ g i) its" deep] no_match by (auto simp: or_else_def)
  qed (use no_match same_caps_trans in \<open>auto simp: or_else_def\<close>)
next
  case (found e cs1)
  then show ?thesis using assms(2) by (auto simp: or_else_def)
qed

section \<open>Repetitions\<close>

lemma run_step: "run_length P src s = (if hits P src s then Suc (run_length P src (s + 1)) else 0)"
proof (cases "s < length src")
  case True
  then have "drop s src = src ! s # drop (s + 1) src" by (simp add: Cons_nth_drop_Suc)
  then show ?thesis using True by (simp add: run_length_def hits_def)
qed (simp add: run_length_def hits_def)

lemma run_range: "s \<le> length src \<Longrightarrow> s + run_length P src s \<le> length src"
  using length_takeWhile_le [of P "drop s src"] by (simp add: run_length_def)

lemma run_hits: "k < run_length P src s \<Longrightarrow> hits P src (s + k)"
proof (induction k arbitrary: s)
  case 0
  then show ?case by (subst (asm) run_step) (simp split: if_splits)
next
  case (Suc k)
  then have "k < run_length P src (s + 1)" by (subst (asm) run_step) (simp split: if_splits)
  from Suc.IH [OF this] show ?case by simp
qed

lemma count_matches_run:
  assumes "classend pat p = Inr ep" "p < length pat"
  shows "count_matches src pat s p ep i = Inr (i + run_length (char_set pat p ep) src (s + i))"
proof (induction "length src - (s + i)" arbitrary: i rule: less_induct)
  case less
  note st = singlematch_hits [OF assms, of src "s + i"]
  show ?case
  proof (cases "hits (char_set pat p ep) src (s + i)")
    case True
    then have "length src - (s + (i + 1)) < length src - (s + i)" by (auto simp: hits_def)
    from less [OF this] show ?thesis
      using True by (subst count_matches.simps, subst run_step) (simp add: st)
  next
    case False
    then show ?thesis by (subst count_matches.simps, subst run_step) (simp add: st)
  qed
qed

lemma expand_back_or_else:
  "expand_back rec s ep i cs = or_else (rec (s + i) (ep + 1) cs)
     (\<lambda>cs1. case i of 0 \<Rightarrow> Inr (None, cs1) | Suc i1 \<Rightarrow> expand_back rec s ep i1 cs1)"
  by (subst expand_back.simps) (simp add: or_else_def)

lemma same_meaning: "same_caps cs cs1 \<Longrightarrow> meaning src pat s p cs1 = meaning src pat s p cs"
  by (simp add: meaning_def same_caps_def)

lemma expand_back_answer:
  assumes c: "contract d src pat rec" and "ep + 1 \<le> length pat"
  shows "s + i \<le> length src \<Longrightarrow> caps_ok s cs \<Longrightarrow>
    answer src s cs (map_option (\<lambda>its. concat (map (\<lambda>k. results src its (s + k) (vis cs)) (rev [0..<Suc i]))) (parse pat (ep + 1)))
      (shallow pat (ep + 1) d) (expand_back rec s ep i cs)"
proof (induction i arbitrary: cs)
  case 0
  have "answer src s cs (meaning src pat s (ep + 1) cs) (shallow pat (ep + 1) d) (rec s (ep + 1) cs)"
    using contractD [OF c _ assms(2) 0(2)] 0(1) by simp
  from answer_or_else [OF this [unfolded meaning_def], of s "\<lambda>_. []" "\<lambda>cs1. Inr (None, cs1)"] show ?case
    by (subst expand_back_or_else) simp
next
  case (Suc i)
  have a: "answer src (s + Suc i) cs (meaning src pat (s + Suc i) (ep + 1) cs) (shallow pat (ep + 1) d) (rec (s + Suc i) (ep + 1) cs)"
    using contractD [OF c _ assms(2)] Suc.prems caps_ok_mono by (metis le_add1)
  have b: "answer src s cs1 (map_option (\<lambda>its. concat (map (\<lambda>k. results src its (s + k) (vis cs)) (rev [0..<Suc i])))
      (parse pat (ep + 1))) (shallow pat (ep + 1) d) (expand_back rec s ep i cs1)" if "same_caps cs cs1" for cs1
    using Suc.IH [of cs1] Suc.prems same_caps_ok [OF that] that by (simp add: same_caps_def)
  have "answer src s cs (map_option (\<lambda>its. results src its (s + Suc i) (vis cs) @
      concat (map (\<lambda>k. results src its (s + k) (vis cs)) (rev [0..<Suc i]))) (parse pat (ep + 1)))
      (shallow pat (ep + 1) d) (or_else (rec (s + Suc i) (ep + 1) cs) (expand_back rec s ep i))"
    by (rule answer_or_else [OF a [unfolded meaning_def] _ b]) simp_all
  then show ?case by (subst expand_back_or_else) simp
qed

text \<open>\<open>*\<close> and \<open>+\<close>: the longest repetition first; \<open>-\<close>: the shortest first.\<close>

lemma max_expand_answer:
  assumes c: "contract d src pat rec" and ce: "classend pat p = Inr ep" "p < length pat" and ep: "ep + 1 \<le> length pat"
    and s: "s \<le> length src" "caps_ok s cs"
  shows "answer src s cs (map_option (\<lambda>its. results src (Chars (char_set pat p ep) Star # its) s (vis cs)) (parse pat (ep + 1)))
      (shallow pat (ep + 1) d) (max_expand rec src pat s p ep cs)"
  using expand_back_answer [OF c ep run_range [OF s(1)] s(2)]
  by (simp add: max_expand_def count_matches_run [OF ce] del: upt_Suc)

lemma minus_step:
  "results src (Chars P Minus # its) s c =
     results src its s c @ (if hits P src s then results src (Chars P Minus # its) (s + 1) c else [])"
proof -
  have u: "[0..<Suc (Suc n)] = 0 # map Suc [0..<Suc n]" for n by (simp add: map_Suc_upt upt_conv_Cons del: upt_Suc)
  have z: "[0..<Suc 0] = [0]" by simp
  show ?thesis by (subst (1) results.simps, subst run_step) (simp add: u z comp_def del: upt_Suc)
qed

lemma min_expand_answer:
  assumes c: "contract d src pat rec" and ce: "classend pat p = Inr ep" "p < length pat" and ep: "ep + 1 \<le> length pat"
  shows "s \<le> length src \<Longrightarrow> caps_ok s cs \<Longrightarrow>
    answer src s cs (map_option (\<lambda>its. results src (Chars (char_set pat p ep) Minus # its) s (vis cs)) (parse pat (ep + 1)))
      (shallow pat (ep + 1) d) (min_expand rec src pat s p ep cs)"
proof (induction "length src - s" arbitrary: s cs rule: less_induct)
  case less
  note a = contractD [OF c less.prems(1) ep less.prems(2)]
  let ?P = "char_set pat p ep"
  let ?h = "\<lambda>cs1. if hits ?P src s then min_expand rec src pat (s + 1) p ep cs1 else Inr (None, cs1)"
  have h: "answer src s cs1 (map_option (\<lambda>its. if hits ?P src s then results src (Chars ?P Minus # its) (s + 1) (vis cs) else [])
      (parse pat (ep + 1))) (shallow pat (ep + 1) d) (?h cs1)" if "same_caps cs cs1" for cs1
  proof (cases "hits ?P src s")
    case True
    then have "length src - (s + 1) < length src - s" "s + 1 \<le> length src" by (auto simp: hits_def)
    then have "answer src (s + 1) cs1 (map_option (\<lambda>its. results src (Chars ?P Minus # its) (s + 1) (vis cs1)) (parse pat (ep + 1)))
        (shallow pat (ep + 1) d) (min_expand rec src pat (s + 1) p ep cs1)"
      by (rule less.hyps) (rule caps_ok_mono [OF same_caps_ok [OF that less.prems(2)]], simp)
    moreover have "vis cs1 = vis cs" using that by (simp add: same_caps_def)
    ultimately show ?thesis using True by (auto intro: answer_mono)
  qed simp
  have un: "min_expand rec src pat s p ep cs = or_else (rec s (ep + 1) cs) ?h"
    by (subst min_expand.simps) (simp only: or_else_def singlematch_hits [OF ce] bindS_simps)
  show ?case
    unfolding un minus_step [of src ?P _ s] by (rule answer_or_else [OF a [unfolded meaning_def] _ h]) simp_all
qed

section \<open>Captures and references\<close>

lemma find_unfinished_take: "n \<le> m \<Longrightarrow> find_unfinished (take m ca) n = find_unfinished ca n"
  by (induction n) auto

lemma find_unfinished_vis: "caps_ok s cs \<Longrightarrow> find_unfinished (capture cs) (level cs) = find_unfinished (vis cs) (length (vis cs))"
  by (simp add: length_vis) (simp add: vis_def find_unfinished_take)

lemma find_unfinished_Some: "find_unfinished ca n = Some l \<Longrightarrow> l < n \<and> snd (ca ! l) = CAP_UNFINISHED"
  by (induction n) (auto split: if_splits)

lemma vis_nth: "l < level cs \<Longrightarrow> vis cs ! l = capture cs ! l"
  by (simp add: vis_def)

lemma vis_set_len: "vis (set_len l n cs) = (vis cs)[l := (fst (capture cs ! l), n)]"
  by (simp add: vis_def set_len_def take_update_swap)

lemma start_capture_answer:
  assumes c: "contract d src pat rec" and s: "s \<le> length src" "p \<le> length pat" "caps_ok s cs"
    and what: "what = CAP_POSITION \<or> what = CAP_UNFINISHED"
  shows "answer src s cs (map_option (\<lambda>its. results src (Open what # its) s (vis cs)) (parse pat p)) (shallow pat p d)
      (start_capture rec s p what cs)"
proof (cases "level cs \<ge> LUA_MAXCAPTURES")
  case True
  then show ?thesis by (simp add: start_capture_def good_error_def)
next
  case False
  define cs0 where "cs0 = cs\<lparr>capture := (capture cs)[level cs := (s, what)], level := level cs + 1\<rparr>"
  have len: "level cs < length (capture cs)" "length (capture cs) = LUA_MAXCAPTURES" using False s(3) by (simp_all add: caps_ok_def)
  have v: "vis cs0 = vis cs @ [(s, what)]"
    using len(1) by (simp add: vis_def cs0_def take_Suc_conv_app_nth take_update_swap list_update_append)
  have ok: "caps_ok s cs0"
    using s(3) False what len by (auto simp: caps_ok_def v cap_ok_def) (simp_all add: cs0_def)
  have m: "meaning src pat s p cs0 = map_option (\<lambda>its. results src (Open what # its) s (vis cs)) (parse pat p)"
    by (simp add: meaning_def v)
  have run: "start_capture rec s p what cs =
      bindS (rec s p cs0) (\<lambda>(r, cs1). Inr (r, if r = None then cs1\<lparr>level := level cs1 - 1\<rparr> else cs1))"
    using False by (simp add: start_capture_def cs0_def)
  from contractD [OF c s(1,2) ok, unfolded m] show ?thesis
  proof (cases rule: answer_cases)
    case (no_match cs1)
    have "vis (cs1\<lparr>level := level cs1 - 1\<rparr>) = butlast (vis cs1)"
      using no_match(2) len(1) by (simp add: vis_def same_caps_def cs0_def butlast_take)
    then have "same_caps cs (cs1\<lparr>level := level cs1 - 1\<rparr>)"
      using no_match(2) v by (simp add: same_caps_def) (simp add: cs0_def)
    then show ?thesis using no_match by (simp add: run)
  qed (simp_all add: run)
qed

lemma cap_close:
  assumes "caps_ok s cs" "l < level cs"
  shows "caps_ok s (set_len l (int s - int (fst (capture cs ! l))) cs)"
proof -
  let ?c = "(fst (capture cs ! l), int s - int (fst (capture cs ! l)))"
  have "vis cs ! l \<in> set (vis cs)" using assms length_vis [OF assms(1)] by simp
  then have "cap_ok s (capture cs ! l)" using assms by (auto simp: caps_ok_def list_all_iff vis_nth)
  then have "cap_ok s ?c" by (simp add: cap_ok_def)
  then have "list_all (cap_ok s) ((vis cs)[l := ?c])"
    using assms(1) by (auto simp: caps_ok_def list_all_iff dest!: subsetD [OF set_update_subset_insert])
  then show ?thesis using assms(1) by (simp add: caps_ok_def vis_set_len) (simp add: set_len_def)
qed

lemma end_capture_answer:
  assumes c: "contract d src pat rec" and s: "s \<le> length src" "p \<le> length pat" "caps_ok s cs"
  shows "answer src s cs (map_option (\<lambda>its. results src (Close # its) s (vis cs)) (parse pat p)) (shallow pat p d)
      (end_capture rec s p cs)"
proof (cases "find_unfinished (capture cs) (level cs)")
  case None
  then show ?thesis by (simp add: end_capture_def capture_to_close_def good_error_def)
next
  case (Some l)
  note l = find_unfinished_Some [OF Some]
  define n where "n = int s - int (fst (capture cs ! l))"
  have u: "find_unfinished (vis cs) (length (vis cs)) = Some l" using Some find_unfinished_vis [OF s(3)] by simp
  have m: "meaning src pat s p (set_len l n cs) = map_option (\<lambda>its. results src (Close # its) s (vis cs)) (parse pat p)"
    using l by (simp add: meaning_def u vis_set_len n_def vis_nth)
  have run: "end_capture rec s p cs = bindS (rec s p (set_len l n cs))
      (\<lambda>(r, cs1). Inr (r, if r = None then set_len l CAP_UNFINISHED cs1 else cs1))"
    using Some by (simp add: end_capture_def capture_to_close_def n_def)
  from contractD [OF c s(1,2) cap_close [OF s(3) conjunct1 [OF l]], folded n_def, unfolded m] show ?thesis
  proof (cases rule: answer_cases)
    case (no_match cs1)
    have "capture cs1 ! l = vis (set_len l n cs) ! l"
      using no_match(2) l vis_nth [of l cs1] by (simp add: same_caps_def) (simp add: set_len_def)
    then have "fst (capture cs1 ! l) = fst (capture cs ! l)" using l length_vis [OF s(3)] by (simp add: vis_set_len)
    then have "vis (set_len l CAP_UNFINISHED cs1) = (vis cs)[l := capture cs ! l]"
      using no_match(2) prod.collapse [of "capture cs ! l"] l by (simp add: same_caps_def vis_set_len)
    also have "\<dots> = vis cs" using l vis_nth [of l cs] by (metis list_update_id)
    finally have "same_caps cs (set_len l CAP_UNFINISHED cs1)"
      using no_match(2) by (simp add: same_caps_def) (simp add: set_len_def)
    then show ?thesis using no_match by (simp add: run)
  qed (simp_all add: run)
qed

lemma match_capture_repeated:
  assumes ok: "caps_ok s cs" and s: "s \<le> length src" and small: "length src < 2 ^ 63"
  shows "match_capture src s ch cs = Inl (CaptureError ''invalid capture index'') \<or>
    match_capture src s ch cs = Inr (repeated src s ch (vis cs))"
proof (cases "check_capture cs ch")
  case (Inl e)
  then show ?thesis by (auto simp: match_capture_def check_capture_def Let_def split: if_splits)
next
  case (Inr l)
  then have l: "49 \<le> uint ch" "l = nat (uint ch - 49)" "l < level cs" "snd (capture cs ! l) \<noteq> CAP_UNFINISHED"
    by (auto simp: check_capture_def Let_def nat_less_iff split: if_splits)
  have "vis cs ! l \<in> set (vis cs)" using l(3) length_vis [OF ok] by simp
  then have c: "cap_ok s (capture cs ! l)" using ok l(3) by (auto simp: caps_ok_def list_all_iff vis_nth)
  have rep: "repeated src s ch (vis cs) = (if 0 \<le> snd (capture cs ! l) then
      (let t = captured src (capture cs ! l) in if take (length t) (drop s src) = t then Some (s + length t) else None) else None)"
    using l length_vis [OF ok] by (simp add: repeated_def Let_def vis_nth)
  show ?thesis
  proof (cases "0 \<le> snd (capture cs ! l)")
    case True
    obtain i n where ca: "capture cs ! l = (i, int n)" using True by (metis nat_0_le prod.collapse)
    have r: "i + n \<le> s" using c True l(4) by (auto simp: cap_ok_def ca CAP_POSITION_def CAP_UNFINISHED_def)
    have "n < 2 ^ 64" using r s small by simp
    then have u: "unat (word_of_int (int n) :: u64) = n" by (simp add: unat_of_nat take_bit_nat_eq_self_iff)
    have len: "length (captured src (i, int n)) = n" using r s by (simp add: captured_def)
    have e: "take n (drop s src) \<noteq> captured src (i, int n)" if "length src - s < n"
    proof
      assume "take n (drop s src) = captured src (i, int n)"
      then have "length (take n (drop s src)) = n" using len by simp
      then show False using that by simp
    qed
    have t: "take n (drop i src) = captured src (i, int n)" by (simp add: captured_def)
    have "match_capture src s ch cs = Inr (if take n (drop s src) = captured src (i, int n) then Some (s + n) else None)"
      using r s e unfolding match_capture_def Inr bindS_simps Let_def ca fst_conv snd_conv u t by (cases "length src - s \<ge> n") auto
    then show ?thesis by (simp add: rep ca len)
  next
    case False
    then have n: "snd (capture cs ! l) = CAP_POSITION" using c l(4) by (auto simp: cap_ok_def)
    have "unat (word_of_int CAP_POSITION :: u64) = 2 ^ 64 - 2" by (simp add: CAP_POSITION_def)
    then show ?thesis using Inr False small by (simp add: match_capture_def n rep Let_def)
  qed
qed

lemma repeated_range: "repeated src s ch c = Some s1 \<Longrightarrow> s \<le> length src \<Longrightarrow> s \<le> s1 \<and> s1 \<le> length src"
proof -
  assume r: "repeated src s ch c = Some s1" and s: "s \<le> length src"
  then obtain t where t: "take (length t) (drop s src) = t" "s1 = s + length t"
    by (auto simp: repeated_def Let_def split: if_splits)
  have "length (take (length t) (drop s src)) \<le> length src - s" by simp
  then show ?thesis using t s by simp
qed

section \<open>One step\<close>

definition step_ok :: "u8 list \<Rightarrow> u8 list \<Rightarrow> nat \<Rightarrow> nat \<Rightarrow> nat \<Rightarrow> captures \<Rightarrow> str_error + jump \<times> captures \<Rightarrow> bool" where
  "step_ok src pat d s p cs res \<longleftrightarrow> (case res of
     Inl e \<Rightarrow> good_error (meaning src pat s p cs) (shallow pat p d) e
   | Inr (Return r, cs1) \<Rightarrow> answer src s cs (meaning src pat s p cs) (shallow pat p d) (Inr (r, cs1))
   | Inr (Goto s1 p1, cs1) \<Rightarrow> s \<le> s1 \<and> s1 \<le> length src \<and> p1 \<le> length pat \<and> same_caps cs cs1 \<and>
       (\<forall>its. parse pat p = Some its \<longrightarrow> (\<exists>its1. parse pat p1 = Some its1 \<and> cost its1 \<le> cost its \<and>
          results src its1 s1 (vis cs) = results src its s (vis cs))))"

lemma step_ok_simps [simp]:
  "step_ok src pat d s p cs (Inl e) \<longleftrightarrow> good_error (meaning src pat s p cs) (shallow pat p d) e"
  "step_ok src pat d s p cs (Inr (Return r, cs1)) \<longleftrightarrow>
     answer src s cs (meaning src pat s p cs) (shallow pat p d) (Inr (r, cs1))"
  by (simp_all add: step_ok_def)

lemma step_ok_returning:
  "answer src s cs (meaning src pat s p cs) (shallow pat p d) res \<Longrightarrow> step_ok src pat d s p cs (returning res)"
  by (cases res) (auto simp: returning_def)

lemma step_capture_error [simp]: "step_ok src pat d s p cs (Inl (CaptureError msg))"
  by (simp add: good_error_def)

lemma step_malformed: "malformed e \<Longrightarrow> parse pat p = None \<Longrightarrow> step_ok src pat d s p cs (Inl e)"
  by (auto simp: good_error_def malformed_def meaning_def)

lemma step_goto:
  assumes "parse pat p = map_option (Cons it) (parse pat p1)" "s \<le> s1" "s1 \<le> length src" "p1 \<le> length pat" "same_caps cs cs1"
    and "\<And>its. results src (it # its) s (vis cs) = results src its s1 (vis cs)"
  shows "step_ok src pat d s p cs (Inr (Goto s1 p1, cs1))"
  using assms by (auto simp: step_ok_def)

lemma step_fails:
  assumes "parse pat p = map_option (Cons it) (parse pat p1)" "\<And>its. results src (it # its) s (vis cs) = []"
  shows "step_ok src pat d s p cs (Inr (Return None, cs))"
  using assms by (auto simp: meaning_def)

lemma answer_nested:
  assumes "parse pat p = map_option (Cons it) (parse pat p1)" "nests it"
    and "answer src s cs (map_option (\<lambda>its. results src (it # its) s (vis cs)) (parse pat p1)) (shallow pat p1 d) res"
  shows "answer src s cs (meaning src pat s p cs) (shallow pat p (Suc d)) res"
  using assms(3)
proof (rule answer_mono)
  show "meaning src pat s p cs \<noteq> None \<longrightarrow>
      meaning src pat s p cs = map_option (\<lambda>its. results src (it # its) s (vis cs)) (parse pat p1)"
    using assms(1) by (simp add: meaning_def option.map_comp comp_def)
  show "shallow pat p (Suc d) \<longrightarrow> shallow pat p1 d" using assms(1,2) by (auto simp: shallow_def)
qed simp_all

lemmas nested_step = step_ok_returning [OF answer_nested]

lemma star_first: "results src (Chars P Plus # its) s c = (if hits P src s then results src (Chars P Star # its) (s + 1) c else [])"
  by simp

lemma no_hit:
  "\<not> hits P src s \<Longrightarrow> q \<noteq> One \<Longrightarrow> q \<noteq> Plus \<Longrightarrow> results src (Chars P q # its) s c = results src its s c"
  by (cases q) (simp_all add: run_step [of P src s])

lemma byte_suffix: "repetition_of (byte pat ep) \<noteq> One \<Longrightarrow> ep < length pat"
  by (cases "ep < length pat") (auto simp: byte_def repetition_of_def)

lemma default_step:
  assumes c: "contract d src pat rec" and p: "p < length pat" and s: "s \<le> length src" "caps_ok s cs"
    and parse: "parse pat p = (case classend pat p of Inl e \<Rightarrow> None
             | Inr ep \<Rightarrow> map_option (Cons (Chars (char_set pat p ep) (repetition_of (byte pat ep))))
                 (parse pat (if repetition_of (byte pat ep) = One then ep else ep + 1)))"
  shows "step_ok src pat (Suc d) s p cs (match_default rec src pat s p cs)"
proof (cases "classend pat p")
  case (Inl e)
  then show ?thesis using step_malformed [OF classend_error [OF Inl p]] parse by (simp add: match_default_def)
next
  case (Inr ep)
  define P where "P = char_set pat p ep"
  define x where "x = byte pat ep"
  have ep: "p < ep" "ep \<le> length pat" using classend_range [OF Inr p] by simp_all
  have pa: "parse pat p = map_option (Cons (Chars P (repetition_of x))) (parse pat (if repetition_of x = One then ep else ep + 1))"
    using parse Inr by (simp add: P_def x_def)
  have ep1: "ep + 1 \<le> length pat" if "repetition_of x \<noteq> One" using byte_suffix [of pat ep] that by (simp add: x_def)
  have run: "match_default rec src pat s p cs =
      (if \<not> hits P src s then
         (if x = c_star \<or> x = c_opt \<or> x = c_minus then Inr (Goto s (ep + 1), cs) else Inr (Return None, cs))
       else if x = c_opt then
         bindS (rec (s + 1) (ep + 1) cs)
           (\<lambda>(r, cs1). case r of Some e \<Rightarrow> Inr (Return (Some e), cs1) | None \<Rightarrow> Inr (Goto s (ep + 1), cs1))
       else if x = c_plus then returning (max_expand rec src pat (s + 1) p ep cs)
       else if x = c_star then returning (max_expand rec src pat s p ep cs)
       else if x = c_minus then returning (min_expand rec src pat s p ep cs)
       else Inr (Goto (s + 1) ep, cs))"
    using ep unfolding match_default_def Inr bindS_simps singlematch_hits [OF Inr p] rd_byte [OF ep(2)] P_def x_def by simp
  have s1: "s + 1 \<le> length src" "caps_ok (s + 1) cs" if "hits P src s"
    using that caps_ok_mono [OF s(2), of "s + 1"] by (simp_all add: hits_def)
  consider (one) "repetition_of x = One" "x \<noteq> c_star" "x \<noteq> c_opt" "x \<noteq> c_minus" "x \<noteq> c_plus"
    | (opt) "x = c_opt" | (star) "x = c_star" | (plus) "x = c_plus" | (minus) "x = c_minus"
    by (auto simp: repetition_of_def)
  then show ?thesis
  proof cases
    case one
    have pa1: "parse pat p = map_option (Cons (Chars P One)) (parse pat ep)" using pa one(1) by simp
    show ?thesis
      using step_fails [OF pa1, of src s cs] step_goto [OF pa1, of s "s + 1" src cs cs] one ep s1 by (simp add: run)
  next
    case star
    then have q: "repetition_of x = Star" by (simp add: repetition_of_def)
    have pa1: "parse pat p = map_option (Cons (Chars P Star)) (parse pat (ep + 1))" and e: "ep + 1 \<le> length pat"
      using pa ep1 q by simp_all
    show ?thesis
    proof (cases "hits P src s")
      case True
      then show ?thesis
        using nested_step [OF pa1 _ max_expand_answer [OF c Inr p e s, folded P_def]] star by (simp add: run)
    next
      case False
      show ?thesis
        using step_goto [OF pa1 order_refl s(1) e same_caps_refl no_hit [OF False]] False star by (simp add: run)
    qed
  next
    case minus
    then have q: "repetition_of x = Minus" by (simp add: repetition_of_def)
    have pa1: "parse pat p = map_option (Cons (Chars P Minus)) (parse pat (ep + 1))" and e: "ep + 1 \<le> length pat"
      using pa ep1 q by simp_all
    show ?thesis
    proof (cases "hits P src s")
      case True
      then show ?thesis
        using nested_step [OF pa1 _ min_expand_answer [OF c Inr p e s, folded P_def]] minus by (simp add: run)
    next
      case False
      show ?thesis
        using step_goto [OF pa1 order_refl s(1) e same_caps_refl no_hit [OF False]] False minus by (simp add: run)
    qed
  next
    case plus
    then have q: "repetition_of x = Plus" by (simp add: repetition_of_def)
    have pa1: "parse pat p = map_option (Cons (Chars P Plus)) (parse pat (ep + 1))" and e: "ep + 1 \<le> length pat"
      using pa ep1 q by simp_all
    show ?thesis
    proof (cases "hits P src s")
      case True
      note a = max_expand_answer [OF c Inr p e s1 [OF True], folded P_def]
      have "answer src s cs (map_option (\<lambda>its. results src (Chars P Plus # its) s (vis cs)) (parse pat (ep + 1)))
          (shallow pat (ep + 1) d) (max_expand rec src pat (s + 1) p ep cs)"
        using True by (intro answer_mono [OF a]) (simp_all only: star_first if_True le_add1 same_caps_refl simp_thms)
      from nested_step [OF pa1 _ this] show ?thesis using True plus by (simp add: run)
    next
      case False
      then show ?thesis using step_fails [OF pa1, of src s cs] plus by (simp add: run)
    qed
  next
    case opt
    then have q: "repetition_of x = Opt" by (simp add: repetition_of_def)
    have pa1: "parse pat p = map_option (Cons (Chars P Opt)) (parse pat (ep + 1))" and e: "ep + 1 \<le> length pat"
      using pa ep1 q by simp_all
    show ?thesis
    proof (cases "hits P src s")
      case True
      have sh: "shallow pat p (Suc d) \<longrightarrow> shallow pat (ep + 1) d" using pa1 by (auto simp: shallow_def)
      from contractD [OF c s1(1) [OF True] e s1(2) [OF True]] show ?thesis
      proof (cases rule: answer_cases)
        case (error y)
        then show ?thesis
          using True opt sh good_error_mono [OF error(2), of "meaning src pat s p cs" "shallow pat p (Suc d)"]
          by (simp add: run meaning_def pa1)
      next
        case (no_match cs1)
        have "step_ok src pat (Suc d) s p cs (Inr (Goto s (ep + 1), cs1))"
          using no_match(2,3) True e s(1) pa1 by (auto simp: step_ok_def meaning_def)
        then show ?thesis using True opt no_match(1) by (simp add: run)
      next
        case (found y cs1)
        then show ?thesis using True opt pa1 by (auto simp: run meaning_def)
      qed
    next
      case False
      show ?thesis
        using step_goto [OF pa1 order_refl s(1) e same_caps_refl no_hit [OF False]] False opt by (simp add: run)
    qed
  qed
qed

lemma frontier_step:
  assumes p: "p + 2 \<le> length pat" and s: "s \<le> length src"
    and parse: "parse pat p = (if byte pat (p + 2) \<noteq> c_lbracket then None
              else case classend pat (p + 2) of Inl e \<Rightarrow> None
                | Inr ep \<Rightarrow> map_option (Cons (Frontier (char_set pat (p + 2) ep))) (parse pat ep))"
  shows "step_ok src pat (Suc d) s p cs (match_frontier src pat s (p + 2) cs)"
proof (cases "byte pat (p + 2) = c_lbracket")
  case False
  then show ?thesis using parse step_malformed [of "Malformed ''missing '[' after '%f' in pattern''"] rd_byte [OF p]
    by (simp add: match_frontier_def malformed_def)
next
  case True
  then have q: "p + 2 < length pat" by (auto simp: byte_def split: if_splits)
  have r: "rd pat (p + 2) = Inr c_lbracket" using rd_byte [OF p] True by simp
  show ?thesis
  proof (cases "classend pat (p + 2)")
    case (Inl e)
    then show ?thesis
      using step_malformed [OF classend_error [OF Inl q]] parse True unfolding match_frontier_def r bindS_simps by simp
  next
    case (Inr ep)
    let ?P = "char_set pat (p + 2) ep"
    have pa: "parse pat p = map_option (Cons (Frontier ?P)) (parse pat ep)" using parse True Inr by simp
    have ep: "ep \<le> length pat" using classend_range [OF Inr q] by simp
    have prev: "(if s = 0 then Inr 0 else rd src (s - 1)) = Inr (if s = 0 then 0 else byte src (s - 1))"
      using s by (simp add: rd_byte)
    have run: "match_frontier src pat s (p + 2) cs =
        (if ?P (if s = 0 then 0 else byte src (s - 1)) then Inr (Return None, cs)
         else if ?P (byte src s) then Inr (Goto s ep, cs) else Inr (Return None, cs))"
      unfolding match_frontier_def r bindS_simps Inr prev frontier_set [OF Inr q True] rd_byte [OF s] by simp
    show ?thesis
      using step_fails [OF pa, of src s cs] step_goto [OF pa order_refl s ep same_caps_refl, of cs] unfolding run by auto
  qed
qed

lemma parse_at:
  assumes "p < length pat"
  shows "pat ! p = c_open \<Longrightarrow> byte pat (p + 1) = c_close \<Longrightarrow> parse pat p = map_option (Cons (Open CAP_POSITION)) (parse pat (p + 2))"
    and "pat ! p = c_open \<Longrightarrow> byte pat (p + 1) \<noteq> c_close \<Longrightarrow> parse pat p = map_option (Cons (Open CAP_UNFINISHED)) (parse pat (p + 1))"
    and "pat ! p = c_close \<Longrightarrow> parse pat p = map_option (Cons Close) (parse pat (p + 1))"
    and "pat ! p = c_dollar \<Longrightarrow> p + 1 = length pat \<Longrightarrow> parse pat p = Some [AtEnd]"
    and "pat ! p = L_ESC \<Longrightarrow> byte pat (p + 1) = 98 \<Longrightarrow> parse pat p = (if p + 3 < length pat
       then map_option (Cons (Balance (pat ! (p + 2)) (pat ! (p + 3)))) (parse pat (p + 4)) else None)"
    and "pat ! p = L_ESC \<Longrightarrow> byte pat (p + 1) = 102 \<Longrightarrow> parse pat p = (if byte pat (p + 2) \<noteq> c_lbracket then None
              else case classend pat (p + 2) of Inl e \<Rightarrow> None
                | Inr ep \<Rightarrow> map_option (Cons (Frontier (char_set pat (p + 2) ep))) (parse pat ep))"
    and "pat ! p = L_ESC \<Longrightarrow> isdigit (byte pat (p + 1)) \<Longrightarrow> parse pat p = map_option (Cons (Backref (byte pat (p + 1)))) (parse pat (p + 2))"
    and "pat ! p \<noteq> c_open \<Longrightarrow> pat ! p \<noteq> c_close \<Longrightarrow> \<not> (pat ! p = c_dollar \<and> p + 1 = length pat) \<Longrightarrow>
      pat ! p = L_ESC \<longrightarrow> byte pat (p + 1) \<noteq> 98 \<and> byte pat (p + 1) \<noteq> 102 \<and> \<not> isdigit (byte pat (p + 1)) \<Longrightarrow>
      parse pat p = (case classend pat p of Inl e \<Rightarrow> None
             | Inr ep \<Rightarrow> map_option (Cons (Chars (char_set pat p ep) (repetition_of (byte pat ep))))
                 (parse pat (if repetition_of (byte pat ep) = One then ep else ep + 1)))"
  using assms by (subst parse.simps, force simp: Let_def isdigit_def cong: sum.case_cong)+

lemma escape_step:
  assumes c: "contract d src pat rec" and p: "p < length pat" "pat ! p = L_ESC"
    and s: "s \<le> length src" "caps_ok s cs" and small: "length src < 2 ^ 63"
  shows "step_ok src pat (Suc d) s p cs (match_escape rec src pat s p cs)"
proof -
  have r: "rd pat (p + 1) = Inr (byte pat (p + 1))" using p by (simp add: rd_byte)
  have nz: "byte pat (p + 1) \<noteq> 0 \<Longrightarrow> p + 2 \<le> length pat" by (auto simp: byte_def split: if_splits)
  consider (balance) "byte pat (p + 1) = 98" | (frontier) "byte pat (p + 1) = 102" | (ref) "isdigit (byte pat (p + 1))"
    | (plain) "byte pat (p + 1) \<noteq> 98 \<and> byte pat (p + 1) \<noteq> 102 \<and> \<not> isdigit (byte pat (p + 1))" by blast
  then show ?thesis
  proof cases
    case balance
    show ?thesis
    proof (cases "p + 3 < length pat")
      case True
      have pa: "parse pat p = map_option (Cons (Balance (pat ! (p + 2)) (pat ! (p + 3)))) (parse pat (p + 4))"
        using parse_at(5) [OF p balance] True by simp
      have "matchbalance src pat s (p + 2) = Inr (balanced (pat ! (p + 2)) (pat ! (p + 3)) src s)"
        using matchbalance_balanced [OF s(1), of "p + 2" pat] True by (simp add: numeral_3_eq_3)
      then have run: "match_escape rec src pat s p cs = (case balanced (pat ! (p + 2)) (pat ! (p + 3)) src s of
          Some s1 \<Rightarrow> Inr (Goto s1 (p + 4), cs) | None \<Rightarrow> Inr (Return None, cs))"
        unfolding match_escape_def r bindS_simps balance by simp
      show ?thesis
      proof (cases "balanced (pat ! (p + 2)) (pat ! (p + 3)) src s")
        case None
        then show ?thesis using step_fails [OF pa, of src s cs] by (simp add: run)
      next
        case (Some s1)
        then show ?thesis
          using step_goto [OF pa, of s s1 src cs cs] balanced_range [OF Some s(1)] True by (simp add: run)
      qed
    next
      case False
      then have "match_escape rec src pat s p cs = Inl (Malformed ''malformed pattern (missing arguments to '%b')'')"
        unfolding match_escape_def r bindS_simps balance by (simp add: matchbalance_def)
      then show ?thesis using step_malformed parse_at(5) [OF p balance] False by (simp add: malformed_def)
    qed
  next
    case frontier
    have "match_escape rec src pat s p cs = match_frontier src pat s (p + 2) cs"
      unfolding match_escape_def r bindS_simps frontier by simp
    moreover have "p + 2 \<le> length pat" using nz frontier by simp
    ultimately show ?thesis using frontier_step [OF _ s(1) parse_at(6) [OF p frontier]] by simp
  next
    case ref
    have "\<not> isdigit 0" "\<not> isdigit 98" "\<not> isdigit 102" by (simp_all add: isdigit_def)
    then have n: "byte pat (p + 1) \<noteq> 98" "byte pat (p + 1) \<noteq> 102" "p + 2 \<le> length pat" using nz ref by metis+
    note pa = parse_at(7) [OF p ref]
    have run: "match_escape rec src pat s p cs = bindS (match_capture src s (byte pat (p + 1)) cs)
           (\<lambda>r. case r of Some s1 \<Rightarrow> Inr (Goto s1 (p + 2), cs) | None \<Rightarrow> Inr (Return None, cs))"
      unfolding match_escape_def r bindS_simps by (simp only: n(1,2) ref if_False if_True)
    from match_capture_repeated [OF s(2,1) small] show ?thesis
    proof
      assume "match_capture src s (byte pat (p + 1)) cs = Inr (repeated src s (byte pat (p + 1)) (vis cs))"
      note run = run [unfolded this bindS_simps]
      show ?thesis
      proof (cases "repeated src s (byte pat (p + 1)) (vis cs)")
        case None
        then show ?thesis using step_fails [OF pa, of src s cs] by (simp add: run)
      next
        case (Some s1)
        then have "s \<le> s1" "s1 \<le> length src" using repeated_range [OF Some s(1)] by simp_all
        then show ?thesis using step_goto [OF pa _ _ n(3) same_caps_refl, of s s1 src cs] Some by (simp add: run)
      qed
    qed (simp add: run good_error_def)
  next
    case plain
    have "match_escape rec src pat s p cs = match_default rec src pat s p cs"
      unfolding match_escape_def r bindS_simps using plain by simp
    then show ?thesis using default_step [OF c p(1) s parse_at(8) [OF p(1)]] p(2) plain by simp
  qed
qed

lemma match_step_ok:
  assumes c: "contract d src pat rec" and p: "p \<le> length pat"
    and s: "s \<le> length src" "caps_ok s cs" and small: "length src < 2 ^ 63"
  shows "step_ok src pat (Suc d) s p cs (match_step rec src pat s p cs)"
proof (cases "p = length pat")
  case True
  then show ?thesis using s by (simp add: match_step_def meaning_def) (simp add: parse.simps)
next
  case False
  then have p1: "p < length pat" using p by simp
  have r: "rd pat p = Inr (pat ! p)" "rd pat (p + 1) = Inr (byte pat (p + 1))" using p1 by (simp_all add: rd_byte) (simp add: byte_def)
  note run = match_step_def [of rec src pat s p cs, unfolded if_not_P [OF False] r bindS_simps]
  consider (lparen) "pat ! p = c_open" | (rparen) "pat ! p = c_close" | (at_end) "pat ! p = c_dollar" "p + 1 = length pat"
    | (esc) "pat ! p = L_ESC"
    | (plain) "pat ! p \<noteq> c_open" "pat ! p \<noteq> c_close" "\<not> (pat ! p = c_dollar \<and> p + 1 = length pat)" "pat ! p \<noteq> L_ESC" by blast
  then show ?thesis
  proof cases
    case lparen
    note run = run [unfolded lparen match_open_def r bindS_simps]
    show ?thesis
    proof (cases "byte pat (p + 1) = c_close")
      case True
      have "p + 2 \<le> length pat" using True by (auto simp: byte_def split: if_splits)
      from nested_step [OF parse_at(1) [OF p1 lparen True] _ start_capture_answer [OF c s(1) this s(2)]]
      show ?thesis unfolding run True by simp
    next
      case False
      have "p + 1 \<le> length pat" using p1 by simp
      from nested_step [OF parse_at(2) [OF p1 lparen False] _ start_capture_answer [OF c s(1) this s(2)]]
      show ?thesis unfolding run if_not_P [OF False] by simp
    qed
  next
    case rparen
    have "p + 1 \<le> length pat" using p1 by simp
    from nested_step [OF parse_at(3) [OF p1 rparen] _ end_capture_answer [OF c s(1) this s(2)]]
    show ?thesis unfolding run rparen by simp
  next
    case at_end
    then show ?thesis
      using s unfolding run at_end by (cases "s = length src") (simp_all add: meaning_def parse_at(4) [OF p1 at_end])
  next
    case esc
    then show ?thesis using escape_step [OF c p1 esc s small] unfolding run esc by simp
  next
    case plain
    then have "match_step rec src pat s p cs = match_default rec src pat s p cs"
      unfolding run by (simp only: plain if_False)
    then show ?thesis using default_step [OF c p1 s parse_at(8) [OF p1 plain(1-3)]] plain(4) by simp
  qed
qed

section \<open>The matcher\<close>

lemma match_loop_answer:
  assumes c: "contract d src pat rec" and small: "length src < 2 ^ 63"
  shows "p \<le> length pat \<Longrightarrow> s \<le> length src \<Longrightarrow> caps_ok s cs \<Longrightarrow>
    answer src s cs (meaning src pat s p cs) (shallow pat p (Suc d)) (match_loop rec src pat s p cs)"
proof (induction "length pat - p" arbitrary: p s cs rule: less_induct)
  case less
  note ok = match_step_ok [OF c less.prems small]
  show ?case
  proof (cases "match_step rec src pat s p cs")
    case (Inl e)
    then show ?thesis using ok by (subst match_loop.simps) simp
  next
    case (Inr x)
    obtain j cs1 where x: "x = (j, cs1)" by (rule prod.exhaust)
    show ?thesis
    proof (cases j)
      case (Return r)
      then show ?thesis using ok Inr x by (subst match_loop.simps) simp
    next
      case (Goto s1 p1)
      have fw: "p < length pat" "p < p1" using match_step_forward [of rec src pat s p cs s1 p1 cs1] Inr x Goto by simp_all
      have st: "s \<le> s1" "s1 \<le> length src" "p1 \<le> length pat" "same_caps cs cs1"
        "\<And>its. parse pat p = Some its \<Longrightarrow> \<exists>its1. parse pat p1 = Some its1 \<and> cost its1 \<le> cost its \<and>
           results src its1 s1 (vis cs) = results src its s (vis cs)"
        using ok Inr x Goto by (simp_all add: step_ok_def)
      have "caps_ok s1 cs1" using caps_ok_mono [OF same_caps_ok [OF st(4) less.prems(3)] st(1)] .
      with less.hyps [OF _ st(3,2)] fw
      have a: "answer src s1 cs1 (meaning src pat s1 p1 cs1) (shallow pat p1 (Suc d)) (match_loop rec src pat s1 p1 cs1)" by simp
      have v: "vis cs1 = vis cs" using st(4) by (simp add: same_caps_def)
      have "answer src s cs (meaning src pat s p cs) (shallow pat p (Suc d)) (match_loop rec src pat s1 p1 cs1)"
        using a st(1,4)
      proof (rule answer_mono)
        show "meaning src pat s p cs \<noteq> None \<longrightarrow> meaning src pat s p cs = meaning src pat s1 p1 cs1"
          using st(5) by (auto simp: meaning_def v)
        show "shallow pat p (Suc d) \<longrightarrow> shallow pat p1 (Suc d)" using st(5) unfolding shallow_def by (meson le_less_trans)
      qed
      then show ?thesis using Inr x Goto by (subst match_loop.simps) simp
    qed
  qed
qed

lemma match_at_contract: "length src < 2 ^ 63 \<Longrightarrow> contract d src pat (match_at d src pat)"
proof (induction d)
  case 0
  then show ?case by (simp add: contract_def good_error_def shallow_def)
next
  case (Suc d)
  then show ?case using match_loop_answer [OF Suc.IH [OF Suc.prems] Suc.prems] by (simp add: contract_def)
qed

end
