(* ===== verification/LuaFind.thy ===== *)
theory LuaFind
  imports LuaMatchCorrect LuaArith
begin

text \<open>
  Searching and replacing (\<open>lstrlib.c\<close>): plain search, \<open>string.find\<close>, \<open>string.match\<close>, one call of the iterator
  of \<open>string.gmatch\<close>, and \<open>string.gsub\<close>. What a function pushes is a list of values. Whether the stack has
  room for the captures is the parameter \<open>room\<close>; the function or table that \<open>gsub\<close> may be given is a
  parameter too.
\<close>

section \<open>Plain search\<close>

fun memchr :: "u8 list \<Rightarrow> nat \<Rightarrow> u8 \<Rightarrow> nat \<Rightarrow> str_error + nat option" where
  "memchr s i c 0 = Inr None"
| "memchr s i c (Suc n) =
     (if i < length s then (if s ! i = c then Inr (Some i) else memchr s (i + 1) c n) else Inl BadRead)"

definition memcmp_eq :: "u8 list \<Rightarrow> nat \<Rightarrow> u8 list \<Rightarrow> nat \<Rightarrow> nat \<Rightarrow> str_error + bool" where
  "memcmp_eq s i t j n =
     (if i + n \<le> length s \<and> j + n \<le> length t then Inr (take n (drop i s) = take n (drop j t)) else Inl BadRead)"

lemma memchr_Some: "memchr s i c n = Inr (Some k) \<Longrightarrow> i \<le> k \<and> k < i + n \<and> k < length s \<and> s ! k = c \<and> (\<forall>j. i \<le> j \<and> j < k \<longrightarrow> s ! j \<noteq> c)"
proof (induction n arbitrary: i)
  case (Suc n)
  show ?case
  proof (cases "i < length s \<and> s ! i \<noteq> c")
    case True
    then have "memchr s (i + 1) c n = Inr (Some k)" using Suc.prems by simp
    note ih = Suc.IH [OF this]
    have "s ! j \<noteq> c" if "i \<le> j" "j < k" for j using ih True that by (cases "j = i") auto
    then show ?thesis using ih by auto
  next
    case False
    then show ?thesis using Suc.prems by (auto split: if_splits)
  qed
qed simp

lemma memchr_None: "memchr s i c n = Inr None \<Longrightarrow> i \<le> j \<Longrightarrow> j < i + n \<Longrightarrow> s ! j \<noteq> c"
proof (induction n arbitrary: i)
  case (Suc n)
  then show ?case using Suc.IH [of "i + 1"] by (cases "i = j") (auto split: if_splits)
qed simp

lemma memchr_safe: "i + n \<le> length s \<Longrightarrow> \<exists>r. memchr s i c n = Inr r"
  by (induction n arbitrary: i) auto

text \<open>\<open>s1\<close> is where the search goes on, \<open>l1\<close> how many places are left; \<open>l2\<close> was decremented.\<close>

function find_loop :: "u8 list \<Rightarrow> u8 list \<Rightarrow> nat \<Rightarrow> nat \<Rightarrow> nat \<Rightarrow> str_error + nat option" where
  "find_loop s p l2 s1 l1 =
     (if l1 > 0 then
        bindS (rd p 0) (\<lambda>c. bindS (memchr s s1 c l1) (\<lambda>m. case m of
            None \<Rightarrow> Inr None
          | Some i \<Rightarrow> let init = i + 1
              in bindS (memcmp_eq s init p 1 l2)
                   (\<lambda>b. if b then Inr (Some (init - 1)) else find_loop s p l2 init (l1 - (init - s1)))))
      else Inr None)"
  by pat_completeness auto
termination
  by (relation "measure (\<lambda>(s, p, l2, s1, l1). l1)") (auto dest: memchr_Some)

declare find_loop.simps [simp del]

definition lmemfind :: "u8 list \<Rightarrow> nat \<Rightarrow> nat \<Rightarrow> u8 list \<Rightarrow> str_error + nat option" where
  "lmemfind s s1 l1 p =
     (if length p = 0 then Inr (Some s1)
      else if length p > l1 then Inr None
      else let l2 = length p - 1 in find_loop s p l2 s1 (l1 - l2))"

function nospecials_from :: "u8 list \<Rightarrow> nat \<Rightarrow> bool" where
  "nospecials_from p start =
     (let seg = takeWhile (\<lambda>c. c \<noteq> 0) (drop start p)
      in if list_ex (\<lambda>c. c \<in> set SPECIALS) seg then False
         else let next1 = start + length seg + 1 in if next1 \<le> length p then nospecials_from p next1 else True)"
  by pat_completeness auto
termination by (relation "measure (\<lambda>(p, start). length p + 1 - start)") auto

declare nospecials_from.simps [simp del]

definition nospecials :: "u8 list \<Rightarrow> bool" where
  "nospecials p = nospecials_from p 0"

section \<open>Captures as values\<close>

datatype pushed = PNil | PInt int | PStr "u8 list"

definition substring :: "u8 list \<Rightarrow> nat \<Rightarrow> nat \<Rightarrow> str_error + u8 list" where
  "substring s i n = (if i + n \<le> length s then Inr (take n (drop i s)) else Inl BadRead)"

text \<open>\<open>span\<close> is where the match starts and ends.\<close>

definition push_onecapture :: "u8 list \<Rightarrow> captures \<Rightarrow> nat \<Rightarrow> (nat \<times> nat) option \<Rightarrow> str_error + pushed" where
  "push_onecapture src cs i span =
     (if i \<ge> level cs then
        (if i = 0 then
           (case span of Some (s, e) \<Rightarrow> bindS (substring src s (e - s)) (\<lambda>t. Inr (PStr t)) | None \<Rightarrow> Inr (PStr []))
         else Inl (CaptureError ''invalid capture index''))
      else let (init, l) = capture cs ! i
        in if l = CAP_UNFINISHED then Inl (CaptureError ''unfinished capture'')
           else if l = CAP_POSITION then Inr (PInt (int init + 1))
           else bindS (substring src init (nat l)) (\<lambda>t. Inr (PStr t)))"

fun push_all :: "u8 list \<Rightarrow> captures \<Rightarrow> (nat \<times> nat) option \<Rightarrow> nat list \<Rightarrow> str_error + pushed list" where
  "push_all src cs span [] = Inr []"
| "push_all src cs span (i # is) =
     bindS (push_onecapture src cs i span) (\<lambda>v. bindS (push_all src cs span is) (\<lambda>vs. Inr (v # vs)))"

definition push_captures :: "(nat \<Rightarrow> bool) \<Rightarrow> u8 list \<Rightarrow> captures \<Rightarrow> (nat \<times> nat) option \<Rightarrow> str_error + pushed list" where
  "push_captures room src cs span =
     (let nlevels = (if level cs = 0 \<and> span \<noteq> None then 1 else level cs)
      in if \<not> room nlevels then Inl (StrError ''stack overflow (too many captures)'')
         else push_all src cs span [0..<nlevels])"

section \<open>Searching\<close>

definition posrelat :: "int \<Rightarrow> nat \<Rightarrow> int" where
  "posrelat pos len =
     (if pos \<ge> 0 then pos
      else if unat (0 - word_of_int pos :: u64) > len then 0
      else int len + pos + 1)"

definition fresh_captures :: captures where
  "fresh_captures = \<lparr>level = 0, capture = replicate LUA_MAXCAPTURES (0, 0)\<rparr>"

text \<open>The search for the first start at which the pattern matches.\<close>

function search_loop :: "u8 list \<Rightarrow> u8 list \<Rightarrow> nat \<Rightarrow> bool \<Rightarrow> nat \<Rightarrow> captures \<Rightarrow> str_error + (nat \<times> nat) option \<times> captures" where
  "search_loop src pat p anchor s1 cs =
     bindS (match_at MAXCCALLS src pat s1 p (cs\<lparr>level := 0\<rparr>))
       (\<lambda>(r, cs1). case r of
            Some e \<Rightarrow> Inr (Some (s1, e), cs1)
          | None \<Rightarrow> if s1 < length src \<and> \<not> anchor then search_loop src pat p anchor (s1 + 1) cs1 else Inr (None, cs1))"
  by pat_completeness auto
termination by (relation "measure (\<lambda>(src, pat, p, anchor, s1, cs). length src - s1)") auto

declare search_loop.simps [simp del]

definition str_find_aux :: "(nat \<Rightarrow> bool) \<Rightarrow> bool \<Rightarrow> u8 list \<Rightarrow> u8 list \<Rightarrow> int \<Rightarrow> bool \<Rightarrow> str_error + pushed list" where
  "str_find_aux room is_find s p init_arg plain =
     (let ls = length s; i0 = posrelat init_arg ls; init = (if i0 < 1 then 1 else i0)
      in if init > int ls + 1 then Inr [PNil]
         else if is_find \<and> (plain \<or> nospecials p) then
           bindS (lmemfind s (nat init - 1) (nat (int ls - init + 1)) p)
             (\<lambda>r. case r of Some s2 \<Rightarrow> Inr [PInt (int s2 + 1), PInt (int s2 + int (length p))] | None \<Rightarrow> Inr [PNil])
         else
           bindS (rd p 0) (\<lambda>c.
             bindS (search_loop s p (if c = c_caret then 1 else 0) (c = c_caret) (nat init - 1) fresh_captures)
               (\<lambda>(r, cs). case r of
                    None \<Rightarrow> Inr [PNil]
                  | Some (s1, e) \<Rightarrow>
                      if is_find then bindS (push_captures room s cs None) (\<lambda>vs. Inr (PInt (int s1 + 1) # PInt (int e) # vs))
                      else push_captures room s cs (Some (s1, e)))))"

definition str_find where "str_find room s p init_arg plain = str_find_aux room True s p init_arg plain"

definition str_match where "str_match room s p init_arg = str_find_aux room False s p init_arg False"

text \<open>One call of the iterator; the third upvalue is the position where it goes on.\<close>

definition gmatch_aux :: "(nat \<Rightarrow> bool) \<Rightarrow> u8 list \<Rightarrow> u8 list \<Rightarrow> nat \<Rightarrow> str_error + (pushed list \<times> nat) option" where
  "gmatch_aux room s p pos =
     (if pos \<le> length s then
        bindS (search_loop s p 0 False pos fresh_captures)
          (\<lambda>(r, cs). case r of
               None \<Rightarrow> Inr None
             | Some (src, e) \<Rightarrow> let newstart = (if e = src then e + 1 else e)
                 in bindS (push_captures room s cs (Some (src, e))) (\<lambda>vs. Inr (Some (vs, newstart))))
      else Inr None)"

section \<open>Replacing\<close>

text \<open>The replacement string; \<open>news ! i\<close> is read up to its terminating zero.\<close>

definition capture_text :: "pushed \<Rightarrow> u8 list" where
  "capture_text v = (case v of PStr t \<Rightarrow> t | PInt n \<Rightarrow> map of_char (lua_integer2str (word_of_int n)) | PNil \<Rightarrow> [])"

function add_s :: "u8 list \<Rightarrow> u8 list \<Rightarrow> captures \<Rightarrow> nat \<Rightarrow> nat \<Rightarrow> nat \<Rightarrow> u8 list \<Rightarrow> str_error + u8 list" where
  "add_s news src cs s e i b =
     (if i < length news then
        bindS (rd news i) (\<lambda>c.
          if c \<noteq> L_ESC then add_s news src cs s e (i + 1) (b @ [c])
          else bindS (rd news (i + 1)) (\<lambda>d.
            if \<not> isdigit d then
              (if d \<noteq> L_ESC then Inl (StrError ''invalid use of '%' in replacement string'')
               else add_s news src cs s e (i + 2) (b @ [d]))
            else if d = 48 then bindS (substring src s (e - s)) (\<lambda>t. add_s news src cs s e (i + 2) (b @ t))
            else bindS (push_onecapture src cs (unat (d - 49)) (Some (s, e)))
                   (\<lambda>v. add_s news src cs s e (i + 2) (b @ capture_text v))))
      else Inr b)"
  by pat_completeness auto
termination by (relation "measure (\<lambda>(news, src, cs, s, e, i, b). length news - i)") auto

declare add_s.simps [simp del]

text \<open>The third argument of \<open>gsub\<close>: a string (or number), or a function or table with what it answers.\<close>

datatype replaced = Falsy | Text "u8 list" | Other

datatype replacement = By_String "u8 list" | By_Function "pushed list \<Rightarrow> str_error + replaced"
  | By_Table "pushed \<Rightarrow> str_error + replaced"

definition keep_or_add :: "u8 list \<Rightarrow> nat \<Rightarrow> nat \<Rightarrow> u8 list \<Rightarrow> replaced \<Rightarrow> str_error + u8 list" where
  "keep_or_add src s e b v = (case v of
       Falsy \<Rightarrow> bindS (substring src s (e - s)) (\<lambda>t. Inr (b @ t))
     | Text t \<Rightarrow> Inr (b @ t)
     | Other \<Rightarrow> Inl (StrError ''invalid replacement value''))"

definition add_value :: "(nat \<Rightarrow> bool) \<Rightarrow> replacement \<Rightarrow> u8 list \<Rightarrow> captures \<Rightarrow> nat \<Rightarrow> nat \<Rightarrow> u8 list \<Rightarrow> str_error + u8 list" where
  "add_value room tr src cs s e b = (case tr of
       By_Function f \<Rightarrow> bindS (push_captures room src cs (Some (s, e))) (\<lambda>vs. bindS (f vs) (keep_or_add src s e b))
     | By_Table f \<Rightarrow> bindS (push_onecapture src cs 0 (Some (s, e))) (\<lambda>v. bindS (f v) (keep_or_add src s e b))
     | By_String news \<Rightarrow> add_s news src cs s e 0 b)"

text \<open>A match never ends behind the subject, so that the loop over the subject ends.\<close>

definition ends_inside :: "u8 list \<Rightarrow> nat \<Rightarrow> str_error + nat option \<times> captures \<Rightarrow> bool" where
  "ends_inside src s m \<longleftrightarrow> (\<forall>e cs1. m = Inr (Some e, cs1) \<longrightarrow> e \<le> max s (length src))"

lemma ends_simps [simp]:
  "ends_inside src s (Inl x)" "ends_inside src s (Inr (None, cs))" "ends_inside src s (Inr (Some e, cs)) \<longleftrightarrow> e \<le> max s (length src)"
  by (auto simp: ends_inside_def)

lemma ends_bind: "(\<And>x. m = Inr x \<Longrightarrow> ends_inside src s (f x)) \<Longrightarrow> ends_inside src s (bindS m f)"
  by (cases m) auto

lemma ends_mono: "ends_inside src s m \<Longrightarrow> s \<le> max s1 (length src) \<Longrightarrow> ends_inside src s1 m"
  by (auto simp: ends_inside_def)

lemma ends_or_else:
  assumes "ends_inside src s m" "\<And>cs1. ends_inside src s (f cs1)"
  shows "ends_inside src s (bindS m (\<lambda>(r, cs1). case r of Some e \<Rightarrow> Inr (Some e, cs1) | None \<Rightarrow> f cs1))"
proof (cases m)
  case (Inr x)
  obtain r cs1 where "x = (r, cs1)" by (rule prod.exhaust)
  then show ?thesis using assms Inr by (cases r) auto
qed simp

lemma singlematch_inside: "singlematch src pat s p ep = Inr True \<Longrightarrow> s < length src"
  by (auto simp: singlematch_def split: if_splits)

lemma count_inside: "count_matches src pat s p ep i = Inr k \<Longrightarrow> s + i \<le> max s (length src) \<Longrightarrow> s + k \<le> max s (length src)"
proof (induction src pat s p ep i rule: count_matches.induct)
  case (1 src pat s p ep i)
  from "1.prems"(1) obtain b where b: "singlematch src pat (s + i) p ep = Inr b"
    "(if b then count_matches src pat s p ep (i + 1) else Inr i) = Inr k"
    by (subst (asm) count_matches.simps) (auto simp: bindS_Inr)
  then show ?case using "1.IH" [OF b(1)] singlematch_inside [of src pat "s + i" p ep] "1.prems"(2) by (cases b) auto
qed

definition all_inside :: "u8 list \<Rightarrow> matcher \<Rightarrow> bool" where
  "all_inside src rec \<longleftrightarrow> (\<forall>s p cs. ends_inside src s (rec s p cs))"

lemma expand_inside:
  assumes "all_inside src rec"
  shows "s + i \<le> max s (length src) \<Longrightarrow> ends_inside src s (expand_back rec s ep i cs)"
proof (induction i arbitrary: cs)
  case 0
  have "ends_inside src s (rec (s + 0) (ep + 1) cs)" using assms by (simp add: all_inside_def)
  then show ?case unfolding expand_back.simps [of rec s ep 0 cs] by (rule ends_or_else) simp
next
  case (Suc i)
  have "ends_inside src s (rec (s + Suc i) (ep + 1) cs)"
    by (rule ends_mono [of src "s + Suc i"]) (use assms Suc.prems in \<open>simp_all add: all_inside_def\<close>)
  then show ?case unfolding expand_back.simps [of rec s ep "Suc i" cs] by (rule ends_or_else) (use Suc in simp)
qed

lemma max_expand_inside: "all_inside src rec \<Longrightarrow> ends_inside src s (max_expand rec src pat s p ep cs)"
  unfolding max_expand_def by (rule ends_bind, rule expand_inside) (use count_inside in force)+

lemma min_expand_inside:
  assumes "all_inside src rec"
  shows "ends_inside src s (min_expand rec src pat s p ep cs)"
proof (induction "length src - s" arbitrary: s cs rule: less_induct)
  case less
  have "ends_inside src s (min_expand rec src pat (s + 1) p ep cs1)" if "singlematch src pat s p ep = Inr True" for cs1
    by (rule ends_mono [OF less.hyps]) (use singlematch_inside [OF that] in auto)
  then have "ends_inside src s (bindS (singlematch src pat s p ep)
      (\<lambda>b. if b then min_expand rec src pat (s + 1) p ep cs1 else Inr (None, cs1)))" for cs1
    by (cases "singlematch src pat s p ep") auto
  then show ?case
    unfolding min_expand.simps [of rec src pat s p ep cs]
    by (intro ends_or_else) (use assms in \<open>simp_all add: all_inside_def\<close>)
qed

text \<open>The same for a step: where it jumps to, or what it returns.\<close>

definition jump_inside :: "u8 list \<Rightarrow> nat \<Rightarrow> str_error + jump \<times> captures \<Rightarrow> bool" where
  "jump_inside src s m \<longleftrightarrow> (\<forall>j cs1. m = Inr (j, cs1) \<longrightarrow>
     (case j of Return r \<Rightarrow> \<forall>e. r = Some e \<longrightarrow> e \<le> max s (length src) | Goto s1 p1 \<Rightarrow> s1 \<le> max s (length src)))"

lemma jump_simps [simp]:
  "jump_inside src s (Inl x)" "jump_inside src s (Inr (Return None, cs))"
  "jump_inside src s (Inr (Return (Some e), cs)) \<longleftrightarrow> e \<le> max s (length src)"
  "jump_inside src s (Inr (Goto s1 p1, cs)) \<longleftrightarrow> s1 \<le> max s (length src)"
  by (auto simp: jump_inside_def)

lemma jump_bind: "(\<And>x. m = Inr x \<Longrightarrow> jump_inside src s (f x)) \<Longrightarrow> jump_inside src s (bindS m f)"
  by (cases m) auto

lemma jump_if:
  "(b \<Longrightarrow> jump_inside src s x) \<Longrightarrow> (\<not> b \<Longrightarrow> jump_inside src s y) \<Longrightarrow> jump_inside src s (if b then x else y)"
  by simp

lemma jump_option:
  "(\<And>s1. r = Some s1 \<Longrightarrow> jump_inside src s (f s1)) \<Longrightarrow> jump_inside src s g \<Longrightarrow>
    jump_inside src s (case r of Some s1 \<Rightarrow> f s1 | None \<Rightarrow> g)"
  by (cases r) auto

lemma jump_returning: "ends_inside src s m \<Longrightarrow> jump_inside src s (returning m)"
proof (cases m)
  case (Inr x)
  obtain r cs1 where "x = (r, cs1)" by (rule prod.exhaust)
  then show "ends_inside src s m \<Longrightarrow> ?thesis" using Inr by (cases r) (auto simp: returning_def)
qed (simp add: returning_def)

lemma jump_default:
  assumes "all_inside src rec"
  shows "jump_inside src s (match_default rec src pat s p cs)"
  unfolding match_default_def
proof (intro jump_bind)
  fix ep m x
  assume m: "singlematch src pat s p ep = Inr m"
  have hit: "m \<Longrightarrow> s < length src" using singlematch_inside m by simp
  have opt: "jump_inside src s (bindS (rec (s + 1) (ep + 1) cs)
      (\<lambda>(r, cs1). case r of Some e \<Rightarrow> Inr (Return (Some e), cs1) | None \<Rightarrow> Inr (Goto s (ep + 1), cs1)))" if m
  proof (cases "rec (s + 1) (ep + 1) cs")
    case (Inr x)
    obtain r cs1 where x: "x = (r, cs1)" by (rule prod.exhaust)
    have "ends_inside src (s + 1) (rec (s + 1) (ep + 1) cs)" using assms by (simp add: all_inside_def)
    then show ?thesis using Inr x hit [OF that] by (cases r) auto
  qed simp
  have plus: "ends_inside src s (max_expand rec src pat (s + 1) p ep cs)" if m
    by (rule ends_mono [OF max_expand_inside [OF assms]]) (use hit [OF that] in simp)
  show "jump_inside src s (if \<not> m then
         (if x = c_star \<or> x = c_opt \<or> x = c_minus then Inr (Goto s (ep + 1), cs) else Inr (Return None, cs))
       else if x = c_opt then
         bindS (rec (s + 1) (ep + 1) cs)
           (\<lambda>(r, cs1). case r of Some e \<Rightarrow> Inr (Return (Some e), cs1) | None \<Rightarrow> Inr (Goto s (ep + 1), cs1))
       else if x = c_plus then returning (max_expand rec src pat (s + 1) p ep cs)
       else if x = c_star then returning (max_expand rec src pat s p ep cs)
       else if x = c_minus then returning (min_expand rec src pat s p ep cs)
       else Inr (Goto (s + 1) ep, cs))"
    using opt plus hit max_expand_inside [OF assms] min_expand_inside [OF assms] by (auto intro!: jump_returning)
qed

lemma balance_inside: "balance_loop src b e n s = Inr (Some s1) \<Longrightarrow> s1 \<le> max s (length src)"
proof (induction "length src - s" arbitrary: s n rule: less_induct)
  case less
  show ?case
  proof (cases "s + 1 < length src")
    case True
    have ih: "balance_loop src b e m (s + 1) = Inr (Some s1) \<Longrightarrow> s1 \<le> length src" for m
      using less.hyps [of "s + 1" m] True by simp
    have "rd src (s + 1) = Inr (src ! (s + 1))" using True by (simp add: rd_def)
    from less.prems [unfolded balance_loop.simps [of src b e n s] if_P [OF True] this bindS_simps]
    show ?thesis using ih True by (auto split: if_splits)
  next
    case False
    then show ?thesis using less.prems by (subst (asm) balance_loop.simps) simp
  qed
qed

lemma jump_escape:
  assumes "all_inside src rec"
  shows "jump_inside src s (match_escape rec src pat s p cs)"
proof -
  have b: "s1 \<le> max s (length src)" if "matchbalance src pat s q = Inr (Some s1)" for q s1
    using that by (auto simp: matchbalance_def bindS_Inr split: if_splits dest!: balance_inside)
  have c: "s1 \<le> max s (length src)" if "match_capture src s d cs = Inr (Some s1)" for d s1
    using that by (auto simp: match_capture_def bindS_Inr Let_def split: if_splits)
  have f: "jump_inside src s (match_frontier src pat s q cs)" for q
    unfolding match_frontier_def by (auto intro!: jump_bind)
  show ?thesis
    unfolding match_escape_def
    by (intro jump_if jump_bind jump_option f jump_default [OF assms]) (auto intro: b c)
qed

lemma step_inside:
  assumes r: "all_inside src rec"
  shows "jump_inside src s (match_step rec src pat s p cs)"
proof -
  have cap: "ends_inside src s (bindS (rec s q cs0) (\<lambda>(r, cs1). Inr (r, f r cs1)))" for q cs0 f
  proof (cases "rec s q cs0")
    case (Inr x)
    obtain o1 cs1 where x: "x = (o1, cs1)" by (rule prod.exhaust)
    have "ends_inside src s (rec s q cs0)" using r by (simp add: all_inside_def)
    then show ?thesis using Inr x by (cases o1) auto
  qed simp
  have st: "ends_inside src s (start_capture rec s q w cs)" for q w
    unfolding start_capture_def by (simp add: cap)
  have o: "ends_inside src s (match_open rec pat s p cs)"
    unfolding match_open_def by (auto intro!: ends_bind st)
  have e: "ends_inside src s (end_capture rec s q cs)" for q
    unfolding end_capture_def by (intro ends_bind cap)
  have en: "jump_inside src s (Inr (Return (if s = length src then Some s else None), cs))" by simp
  show ?thesis
    unfolding match_step_def
    by (intro jump_if jump_bind jump_returning o e en jump_escape [OF r] jump_default [OF r]) simp
qed

lemma match_loop_inside:
  assumes r: "all_inside src rec"
  shows "ends_inside src s (match_loop rec src pat s p cs)"
proof (induction "length pat - p" arbitrary: s p cs rule: less_induct)
  case less
  note st = step_inside [OF r, of s pat p cs]
  show ?case
  proof (cases "match_step rec src pat s p cs")
    case (Inr x)
    obtain j cs1 where x: "x = (j, cs1)" by (rule prod.exhaust)
    show ?thesis
    proof (cases j)
      case (Return o1)
      then show ?thesis using st Inr x by (subst match_loop.simps, cases o1) auto
    next
      case (Goto s1 p1)
      have "p < length pat \<and> p < p1" using match_step_forward Inr x Goto by blast
      then have "ends_inside src s1 (match_loop rec src pat s1 p1 cs1)" by (intro less.hyps) linarith
      moreover have "s1 \<le> max s (length src)" using st Inr x Goto by simp
      ultimately have "ends_inside src s (match_loop rec src pat s1 p1 cs1)" by (rule ends_mono)
      then show ?thesis using Inr x Goto by (subst match_loop.simps) simp
    qed
  qed (subst match_loop.simps, simp)
qed

lemma match_at_inside: "ends_inside src s (match_at d src pat s p cs)"
proof (induction d arbitrary: s p cs)
  case (Suc d)
  then show ?case by (simp add: match_loop_inside all_inside_def)
qed simp

text \<open>\<open>Some (s1, b1)\<close> to go on at \<open>s1\<close> with the result \<open>b1\<close>, \<open>None\<close> at the end of the subject.\<close>

definition gsub_advance :: "u8 list \<Rightarrow> nat \<Rightarrow> nat option \<Rightarrow> u8 list \<Rightarrow> (nat \<times> u8 list) option" where
  "gsub_advance src s r b =
     (case r of
        Some e \<Rightarrow> if e > s then Some (e, b) else if s < length src then Some (s + 1, b @ [src ! s]) else None
      | None \<Rightarrow> if s < length src then Some (s + 1, b @ [src ! s]) else None)"

function gsub_loop :: "(nat \<Rightarrow> bool) \<Rightarrow> replacement \<Rightarrow> u8 list \<Rightarrow> u8 list \<Rightarrow> nat \<Rightarrow> bool \<Rightarrow> int \<Rightarrow> nat \<Rightarrow> int \<Rightarrow> u8 list \<Rightarrow> captures \<Rightarrow>
    str_error + nat \<times> int \<times> u8 list" where
  "gsub_loop room tr src pat p anchor max_s s n b cs =
     (if n < max_s then
        bindS (match_at MAXCCALLS src pat s p (cs\<lparr>level := 0\<rparr>)) (\<lambda>(r, cs1).
          bindS (case r of Some e \<Rightarrow> bindS (add_value room tr src cs1 s e b) (\<lambda>b1. Inr (n + 1, b1)) | None \<Rightarrow> Inr (n, b))
            (\<lambda>(n1, b1). case gsub_advance src s r b1 of
                 None \<Rightarrow> Inr (s, n1, b1)
               | Some (s1, b2) \<Rightarrow> if anchor then Inr (s1, n1, b2)
                   else gsub_loop room tr src pat p anchor max_s s1 n1 b2 cs1))
      else Inr (s, n, b))"
  by pat_completeness auto
termination
proof (relation "measure (\<lambda>(room, tr, src, pat, p, anchor, max_s, s, n, b, cs). length src - s)", goal_cases)
  case (2 room tr src pat p anchor max_s s n b cs x r cs1 y n1 b1 z s1 b2)
  have "e \<le> max s (length src)" if "r = Some e" for e
    using match_at_inside [of src s MAXCCALLS pat p "cs\<lparr>level := 0\<rparr>"] 2(2) 2(3) [symmetric] that by simp
  then have "s < s1 \<and> s < length src" using 2(6,7) by (auto simp: gsub_advance_def split: option.splits if_splits)
  then show ?case by auto
qed simp

declare gsub_loop.simps [simp del]

definition str_gsub :: "(nat \<Rightarrow> bool) \<Rightarrow> u8 list \<Rightarrow> u8 list \<Rightarrow> replacement \<Rightarrow> int option \<Rightarrow> str_error + u8 list \<times> int" where
  "str_gsub room src p tr max_arg =
     (let max_s = (case max_arg of Some m \<Rightarrow> m | None \<Rightarrow> int (length src) + 1)
      in bindS (rd p 0) (\<lambda>c.
           bindS (gsub_loop room tr src p (if c = c_caret then 1 else 0) (c = c_caret) max_s 0 0 [] fresh_captures)
             (\<lambda>(s, n, b). bindS (substring src s (length src - s)) (\<lambda>t. Inr (b @ t, n)))))"

end
