(* ===== verification/LuaFindCorrect.thy ===== *)
theory LuaFindCorrect
  imports LuaFind
begin

text \<open>
  What the searches find, and that they read nothing outside the subject and the pattern.
\<close>

section \<open>Plain search\<close>

definition occurs :: "u8 list \<Rightarrow> u8 list \<Rightarrow> nat \<Rightarrow> bool" where
  "occurs p s k \<longleftrightarrow> k + length p \<le> length s \<and> take (length p) (drop k s) = p"

lemma occurs_first:
  assumes "p \<noteq> []"
  shows "occurs p s k \<longleftrightarrow> k + length p \<le> length s \<and> s ! k = p ! 0 \<and>
    take (length p - 1) (drop (k + 1) s) = take (length p - 1) (drop 1 p)"
proof (cases "k + length p \<le> length s")
  case True
  obtain c cs where p: "p = c # cs" using assms by (cases p) auto
  have "drop k s = s ! k # drop (k + 1) s" using True p by (simp add: Cons_nth_drop_Suc)
  then show ?thesis using True p by (auto simp: occurs_def)
qed (simp add: occurs_def)

lemma find_upt_Suc: "a < b \<Longrightarrow> find P [a..<b] = (if P a then Some a else find P [a + 1..<b])"
  by (simp add: upt_conv_Cons)

lemma find_upt_skip: "a \<le> m \<Longrightarrow> m \<le> b \<Longrightarrow> (\<And>j. a \<le> j \<Longrightarrow> j < m \<Longrightarrow> \<not> P j) \<Longrightarrow> find P [a..<b] = find P [m..<b]"
proof (induction "m - a" arbitrary: a)
  case (Suc n)
  then have "find P [a..<b] = find P [a + 1..<b]" using find_upt_Suc [of a b P] by simp
  then show ?case using Suc by simp
qed simp

lemma find_upt_None: "find P [a..<b] = None \<longleftrightarrow> (\<forall>j. a \<le> j \<and> j < b \<longrightarrow> \<not> P j)"
  by (auto simp: find_None_iff)

lemma find_loop_first:
  assumes "p \<noteq> []"
  shows "s1 + l1 + (length p - 1) = length s \<Longrightarrow> find_loop s p (length p - 1) s1 l1 = Inr (find (occurs p s) [s1..<s1 + l1])"
proof (induction l1 arbitrary: s1 rule: less_induct)
  case (less l1)
  show ?case
  proof (cases "l1 = 0")
    case True
    then show ?thesis by (subst find_loop.simps) simp
  next
    case False
    have p0: "rd p 0 = Inr (p ! 0)" using assms by (simp add: rd_def)
    obtain m where m: "memchr s s1 (p ! 0) l1 = Inr m" using memchr_safe [of s1 l1 s] less.prems by fastforce
    show ?thesis
    proof (cases m)
      case None
      then have "\<not> occurs p s j" if "s1 \<le> j" "j < s1 + l1" for j
        using memchr_None [OF m [unfolded None] that] occurs_first [OF assms] by simp
      then have "find (occurs p s) [s1..<s1 + l1] = None" by (simp add: find_upt_None)
      then show ?thesis using False m None p0 by (subst find_loop.simps) simp
    next
      case (Some k)
      note k = memchr_Some [OF m [unfolded Some]]
      have cmp: "memcmp_eq s (k + 1) p 1 (length p - 1) = Inr (occurs p s k)"
        using k less.prems assms occurs_first [OF assms, of s k] by (cases p) (auto simp: memcmp_eq_def)
      have skip: "find (occurs p s) [s1..<s1 + l1] = find (occurs p s) [k..<s1 + l1]"
        by (rule find_upt_skip) (use k occurs_first [OF assms] in auto)
      have run: "find_loop s p (length p - 1) s1 l1 =
          (if occurs p s k then Inr (Some k) else find_loop s p (length p - 1) (k + 1) (l1 - (k + 1 - s1)))"
        unfolding find_loop.simps [of s p "length p - 1" s1 l1] p0 bindS_simps m Some option.case Let_def cmp
        using False by simp
      have "find_loop s p (length p - 1) (k + 1) (l1 - (k + 1 - s1)) = Inr (find (occurs p s) [k + 1..<k + 1 + (l1 - (k + 1 - s1))])"
        by (rule less.IH) (use k less.prems False in auto)
      moreover have "k + 1 + (l1 - (k + 1 - s1)) = s1 + l1" using k by simp
      moreover have "find (occurs p s) [k..<s1 + l1] = (if occurs p s k then Some k else find (occurs p s) [k + 1..<s1 + l1])"
        using k by (intro find_upt_Suc) simp
      ultimately show ?thesis unfolding run skip by (cases "occurs p s k") (simp_all only: if_True if_False)
    qed
  qed
qed

lemma lmemfind_first:
  assumes "s1 \<le> length s"
  shows "lmemfind s s1 (length s - s1) p = Inr (find (occurs p s) [s1..<Suc (length s)])"
proof -
  have beyond: "\<not> occurs p s j" if "length s < j + length p" for j using that by (simp add: occurs_def)
  consider (empty) "p = []" | (large) "length p > length s - s1" | (search) "p \<noteq> []" "length p \<le> length s - s1" by linarith
  then show ?thesis
  proof cases
    case empty
    have "occurs [] s s1" using assms by (simp add: occurs_def)
    then show ?thesis using empty assms find_upt_Suc [of s1 "Suc (length s)" "occurs [] s"] by (simp add: lmemfind_def del: upt_Suc)
  next
    case large
    then have "find (occurs p s) [s1..<Suc (length s)] = None" unfolding find_upt_None using beyond by auto
    then show ?thesis using large by (auto simp: lmemfind_def simp del: upt_Suc)
  next
    case search
    define n where "n = length s - s1 - (length p - 1)"
    have n: "s1 + n + (length p - 1) = length s" using search assms by (cases p) (auto simp: n_def)
    have "find (occurs p s) [s1..<Suc (length s)] = find (occurs p s) [s1..<s1 + n]"
    proof (cases "find (occurs p s) [s1..<s1 + n]")
      case None
      have "\<not> occurs p s j" if "s1 \<le> j" for j
      proof (cases "j < s1 + n")
        case True
        then show ?thesis using None that by (simp add: find_upt_None)
      next
        case False
        then show ?thesis using beyond [of j] n search(1) by (cases p) auto
      qed
      then have "find (occurs p s) [s1..<Suc (length s)] = None" unfolding find_upt_None by blast
      then show ?thesis using None by simp
    next
      case (Some k)
      have "[s1..<Suc (length s)] = [s1..<s1 + n] @ [s1 + n..<Suc (length s)]"
        using n by (metis add.assoc le_add1 le_SucI upt_add_eq_append le_add_diff_inverse)
      moreover have "find P (xs @ ys) = (case find P xs of None \<Rightarrow> find P ys | Some x \<Rightarrow> Some x)" for P and xs ys :: "nat list"
        by (induction xs) auto
      ultimately show ?thesis using Some by simp
    qed
    then show ?thesis using search find_loop_first [OF search(1) n] by (simp add: lmemfind_def n_def)
  qed
qed

lemma nospecials_from_iff:
  "i \<le> length p \<Longrightarrow> nospecials_from p i \<longleftrightarrow> (\<forall>c \<in> set (drop i p). c \<notin> set SPECIALS)"
proof (induction "length p - i" arbitrary: i rule: less_induct)
  case less
  define seg where "seg = takeWhile (\<lambda>c. c \<noteq> 0) (drop i p)"
  define j where "j = i + length seg + 1"
  have z: "(0 :: u8) \<notin> set SPECIALS" by (simp add: SPECIALS_def)
  have st: "nospecials_from p i = (if list_ex (\<lambda>c. c \<in> set SPECIALS) seg then False
         else if j \<le> length p then nospecials_from p j else True)"
    by (subst nospecials_from.simps) (simp add: Let_def seg_def [symmetric] j_def)
  show ?case
  proof (cases "length seg < length (drop i p)")
    case True
    have "drop i p = seg @ drop (length seg) (drop i p)" unfolding seg_def by (metis append_take_drop_id takeWhile_eq_take)
    moreover have "drop (length seg) (drop i p) = drop i p ! length seg # drop (Suc (length seg)) (drop i p)"
      using Cons_nth_drop_Suc [OF True] by simp
    moreover have "drop i p ! length seg = 0" using nth_length_takeWhile [of "\<lambda>c. c \<noteq> 0" "drop i p"] True by (simp add: seg_def)
    ultimately have d: "drop i p = seg @ 0 # drop j p" by (simp add: j_def add.commute)
    have "j \<le> length p" using True by (simp add: j_def)
    then have "nospecials_from p j \<longleftrightarrow> (\<forall>c \<in> set (drop j p). c \<notin> set SPECIALS)" by (intro less.hyps) (auto simp: j_def)
    then show ?thesis using \<open>j \<le> length p\<close> z unfolding st d by (auto simp: list_ex_iff)
  next
    case False
    then have "seg = drop i p" unfolding seg_def by (metis length_takeWhile_le takeWhile_eq_take take_all not_less)
    then show ?thesis using less.prems by (auto simp: st list_ex_iff j_def)
  qed
qed

lemma nospecials_iff: "nospecials p \<longleftrightarrow> (\<forall>c \<in> set p. c \<notin> set SPECIALS)"
  by (simp add: nospecials_def nospecials_from_iff)

section \<open>Searching with a pattern\<close>

lemma caps_ok_level0: "length (capture cs) = LUA_MAXCAPTURES \<Longrightarrow> caps_ok s (cs\<lparr>level := 0\<rparr>)"
  by (simp add: caps_ok_def vis_def)

lemma vis_level0: "vis (cs\<lparr>level := 0\<rparr>) = []"
  by (simp add: vis_def)

text \<open>What a search may answer; \<open>starts\<close> are the starts it has to try, in their order.\<close>

definition found_first :: "u8 list \<Rightarrow> u8 list \<Rightarrow> nat \<Rightarrow> nat list \<Rightarrow> str_error + (nat \<times> nat) option \<times> captures \<Rightarrow> bool" where
  "found_first src pat p starts res \<longleftrightarrow> (case res of
     Inl e \<Rightarrow> e \<noteq> BadRead \<and> (\<forall>its. parse pat p = Some its \<longrightarrow> \<not> malformed e \<and> (cost its < MAXCCALLS \<longrightarrow> e \<noteq> TooComplex))
   | Inr (None, cs) \<Rightarrow> length (capture cs) = LUA_MAXCAPTURES \<and> (\<forall>its. parse pat p = Some its \<longrightarrow> (\<forall>k \<in> set starts. results src its k [] = []))
   | Inr (Some (k, e), cs) \<Rightarrow> k \<in> set starts \<and> k \<le> e \<and> e \<le> length src \<and> caps_ok e cs \<and> (\<forall>its. parse pat p = Some its \<longrightarrow>
       find (\<lambda>k. results src its k [] \<noteq> []) starts = Some k \<and> (\<exists>r. results src its k [] = (e, vis cs) # r)))"

lemma good_error_search:
  "good_error (meaning src pat s p cs) (shallow pat p d) e \<Longrightarrow>
    e \<noteq> BadRead \<and> (\<forall>its. parse pat p = Some its \<longrightarrow> \<not> malformed e \<and> (cost its < d \<longrightarrow> e \<noteq> TooComplex))"
  by (cases e) (auto simp: good_error_def meaning_def shallow_def malformed_def)

lemma match_at_first:
  assumes "length src < 2 ^ 63" "p \<le> length pat" "s \<le> length src" "length (capture cs) = LUA_MAXCAPTURES"
  shows "answer src s (cs\<lparr>level := 0\<rparr>) (map_option (\<lambda>its. results src its s []) (parse pat p)) (shallow pat p MAXCCALLS)
    (match_at MAXCCALLS src pat s p (cs\<lparr>level := 0\<rparr>))"
  using contractD [OF match_at_contract [OF assms(1)] assms(3,2) caps_ok_level0 [OF assms(4)]]
  by (simp add: meaning_def vis_level0)

lemma search_first:
  assumes small: "length src < 2 ^ 63" and p: "p \<le> length pat"
  shows "s \<le> length src \<Longrightarrow> length (capture cs) = LUA_MAXCAPTURES \<Longrightarrow>
    found_first src pat p (if anchor then [s] else [s..<Suc (length src)]) (search_loop src pat p anchor s cs)"
proof (induction "length src - s" arbitrary: s cs rule: less_induct)
  case less
  let ?starts = "\<lambda>s. if anchor then [s] else [s..<Suc (length src)]"
  have starts: "set (?starts s) \<supseteq> {s}" "find P (?starts s) = (if P s then Some s else if anchor then None else find P [s + 1..<Suc (length src)])" for P
    using less.prems(1) find_upt_Suc [of s "Suc (length src)" P] by auto
  have s_in: "s \<in> set (?starts s)" using starts(1) by simp
  from match_at_first [OF small p less.prems] show ?case
  proof (cases rule: answer_cases)
    case (error e)
    then have "e \<noteq> BadRead \<and> (\<forall>its. parse pat p = Some its \<longrightarrow> \<not> malformed e \<and> (cost its < MAXCCALLS \<longrightarrow> e \<noteq> TooComplex))"
      using good_error_search [of src pat s p "cs\<lparr>level := 0\<rparr>" MAXCCALLS e] by (simp add: meaning_def vis_level0)
    then show ?thesis using error(1) by (subst search_loop.simps) (simp add: found_first_def)
  next
    case (found e cs1)
    have "find (\<lambda>k. results src its k [] \<noteq> []) (?starts s) = Some s" if "parse pat p = Some its" for its
      using found(5) that unfolding starts(2) by auto
    then show ?thesis using found s_in by (subst search_loop.simps) (auto simp: found_first_def)
  next
    case (no_match cs1)
    have len: "length (capture cs1) = LUA_MAXCAPTURES" using no_match(2) less.prems(2) by (simp add: same_caps_def)
    show ?thesis
    proof (cases "s < length src \<and> \<not> anchor")
      case True
      then have ih: "found_first src pat p [s + 1..<Suc (length src)] (search_loop src pat p anchor (s + 1) cs1)"
        using less.hyps [OF _ _ len, of "s + 1"] by (simp add: diff_less_mono2 del: upt_Suc)
      have none: "parse pat p = Some its \<Longrightarrow> results src its s [] = []" for its using no_match(3) by simp
      have st: "?starts s = s # [s + 1..<Suc (length src)]" using True by (simp add: upt_conv_Cons del: upt_Suc)
      have run: "search_loop src pat p anchor s cs = search_loop src pat p anchor (s + 1) cs1"
        using True no_match(1) by (subst search_loop.simps) simp
      show ?thesis unfolding run st
        using ih none by (auto simp: found_first_def simp del: upt_Suc split: sum.splits prod.splits option.splits)
    next
      case False
      then have "?starts s = [s]" using less.prems(1) by auto
      moreover have "search_loop src pat p anchor s cs = Inr (None, cs1)"
        using False no_match(1) by (subst search_loop.simps) auto
      ultimately show ?thesis using no_match(3) len by (simp add: found_first_def)
    qed
  qed
qed

section \<open>Captures as values\<close>

definition value_of :: "u8 list \<Rightarrow> nat \<times> int \<Rightarrow> pushed" where
  "value_of src ca = (if snd ca = CAP_POSITION then PInt (int (fst ca) + 1) else PStr (captured src ca))"

lemma push_one_value:
  assumes ok: "caps_ok e cs" and e: "e \<le> length src" and i: "i < level cs"
  shows "push_onecapture src cs i span =
    (if snd (vis cs ! i) = CAP_UNFINISHED then Inl (CaptureError ''unfinished capture'') else Inr (value_of src (vis cs ! i)))"
proof -
  obtain k n where ca: "capture cs ! i = (k, n)" by (rule prod.exhaust)
  then have v: "vis cs ! i = (k, n)" using vis_nth [OF i] by simp
  have "vis cs ! i \<in> set (vis cs)" using i length_vis [OF ok] by simp
  then have "cap_ok e (k, n)" using ok v by (auto simp: caps_ok_def list_all_iff)
  moreover have "substring src k (nat n) = Inr (captured src (k, n))" if "0 \<le> n" "int k + n \<le> int e"
    using that e by (simp add: substring_def captured_def)
  ultimately show ?thesis
    using i by (auto simp: push_onecapture_def ca v value_of_def cap_ok_def CAP_POSITION_def CAP_UNFINISHED_def)
qed

lemma push_all_values:
  assumes ok: "caps_ok e cs" and e: "e \<le> length src"
  shows "\<forall>i \<in> set is. i < level cs \<Longrightarrow> push_all src cs span is =
    (if \<exists>i \<in> set is. snd (vis cs ! i) = CAP_UNFINISHED then Inl (CaptureError ''unfinished capture'')
     else Inr (map (\<lambda>i. value_of src (vis cs ! i)) is))"
  by (induction "is") (auto simp: push_one_value [OF ok e])

definition values_of :: "u8 list \<Rightarrow> (nat \<times> int) list \<Rightarrow> pushed list" where
  "values_of src c = map (value_of src) c"

text \<open>The values of a match: its captures, or all of it when there are none and a range is given.\<close>

definition match_values :: "u8 list \<Rightarrow> (nat \<times> nat) option \<Rightarrow> (nat \<times> int) list \<Rightarrow> pushed list" where
  "match_values src span c = (case span of
     Some (s, e) \<Rightarrow> if c = [] then [PStr (take (e - s) (drop s src))] else values_of src c
   | None \<Rightarrow> values_of src c)"

lemma push_captures_values:
  assumes ok: "caps_ok e cs" and e: "e \<le> length src" and span: "\<forall>a b. span = Some (a, b) \<longrightarrow> a \<le> b \<and> b = e"
  shows "push_captures room src cs span = Inl (StrError ''stack overflow (too many captures)'') \<or>
    push_captures room src cs span =
      (if \<exists>ca \<in> set (vis cs). snd ca = CAP_UNFINISHED then Inl (CaptureError ''unfinished capture'')
       else Inr (match_values src span (vis cs)))"
proof (cases "level cs = 0 \<and> span \<noteq> None")
  case True
  then obtain a b where ab: "span = Some (a, b)" by auto
  have b: "a \<le> b \<and> b = e" using span ab by blast
  have a: "span = Some (a, e)" "a \<le> e" using ab b by simp_all
  have "vis cs = []" using True by (simp add: vis_def)
  moreover have "push_captures room src cs span =
      (if \<not> room 1 then Inl (StrError ''stack overflow (too many captures)'') else push_all src cs span [0])"
    using conjunct1 [OF True] by (simp add: push_captures_def a Let_def)
  moreover have "push_all src cs span [0] = Inr [PStr (take (e - a) (drop a src))]"
    using conjunct1 [OF True] a(2) e by (simp add: push_onecapture_def substring_def a(1))
  ultimately show ?thesis by (simp add: match_values_def a(1))
next
  case False
  have len: "length (vis cs) = level cs" using length_vis [OF ok] .
  have "push_all src cs span [0..<level cs] =
      (if \<exists>ca \<in> set (vis cs). snd ca = CAP_UNFINISHED then Inl (CaptureError ''unfinished capture'')
       else Inr (values_of src (vis cs)))"
  proof -
    have ex: "(\<exists>i \<in> set [0..<level cs]. snd (vis cs ! i) = CAP_UNFINISHED) \<longleftrightarrow> (\<exists>ca \<in> set (vis cs). snd ca = CAP_UNFINISHED)"
    proof -
      have "set (vis cs) = (\<lambda>i. vis cs ! i) ` set [0..<level cs]" by (metis len list.set_map map_nth)
      then show ?thesis by simp
    qed
    have vals: "map (\<lambda>i. value_of src (vis cs ! i)) [0..<level cs] = map (value_of src) (vis cs)"
      using len by (intro nth_equalityI) simp_all
    have "\<forall>i \<in> set [0..<level cs]. i < level cs" by simp
    from push_all_values [OF ok e this, of span] show ?thesis unfolding ex vals values_of_def .
  qed
  moreover have "values_of src (vis cs) = match_values src span (vis cs)"
    using False len by (auto simp: match_values_def split: option.splits)
  moreover have "push_captures room src cs span =
      (if \<not> room (level cs) then Inl (StrError ''stack overflow (too many captures)'') else push_all src cs span [0..<level cs])"
    unfolding push_captures_def Let_def if_not_P [OF False] ..
  ultimately show ?thesis by simp
qed

section \<open>Find and match\<close>

text \<open>Where a search starts, as an index; and the starts it tries.\<close>

definition start_index :: "int \<Rightarrow> nat \<Rightarrow> nat" where
  "start_index init_arg len = nat (max 1 (posrelat init_arg len)) - 1"

definition start_list :: "u8 list \<Rightarrow> u8 list \<Rightarrow> int \<Rightarrow> nat list" where
  "start_list s p init_arg = (let i = start_index init_arg (length s)
     in if i > length s then [] else if byte p 0 = c_caret then [i] else [i..<Suc (length s)])"

definition pattern_start :: "u8 list \<Rightarrow> nat" where
  "pattern_start p = (if byte p 0 = c_caret then 1 else 0)"

lemma pattern_start_le: "pattern_start p \<le> length p"
  by (cases p) (simp_all add: pattern_start_def byte_def)

lemma rd_0: "rd p 0 = Inr (byte p 0)"
  by (simp add: rd_byte)

lemma plain_find_result:
  "str_find room s p init_arg True = Inr
     (case find (occurs p s) [start_index init_arg (length s)..<Suc (length s)] of
        None \<Rightarrow> [PNil] | Some k \<Rightarrow> [PInt (int k + 1), PInt (int k + int (length p))])"
proof -
  define i where "i = start_index init_arg (length s)"
  have i: "(if posrelat init_arg (length s) < 1 then 1 else posrelat init_arg (length s)) = int i + 1"
    by (auto simp: i_def start_index_def)
  show ?thesis
  proof (cases "i \<le> length s")
    case True
    then have "nat (int (length s) - (int i + 1) + 1) = length s - i" "nat (int i + 1) - 1 = i" "\<not> int i + 1 > int (length s) + 1" by simp_all
    then have "str_find room s p init_arg True = bindS (lmemfind s i (length s - i) p)
        (\<lambda>r. case r of Some s2 \<Rightarrow> Inr [PInt (int s2 + 1), PInt (int s2 + int (length p))] | None \<Rightarrow> Inr [PNil])"
      unfolding str_find_def str_find_aux_def Let_def i by simp
    then show ?thesis by (simp add: lmemfind_first [OF True] i_def [symmetric] del: upt_Suc split: option.split)
  next
    case False
    then show ?thesis by (simp add: str_find_def str_find_aux_def Let_def i i_def [symmetric])
  qed
qed

lemma start_found:
  assumes "length s < 2 ^ 63" "start_index init_arg (length s) \<le> length s"
  shows "found_first s p (pattern_start p) (start_list s p init_arg)
     (search_loop s p (pattern_start p) (byte p 0 = c_caret) (start_index init_arg (length s)) fresh_captures)"
  using search_first [OF assms(1) pattern_start_le assms(2), of fresh_captures p "byte p 0 = c_caret"] assms(2)
  by (simp add: start_list_def fresh_captures_def Let_def del: upt_Suc)

lemma str_match_unfold:
  "str_match room s p init_arg =
     (let i = start_index init_arg (length s)
      in if i > length s then Inr [PNil]
         else bindS (search_loop s p (pattern_start p) (byte p 0 = c_caret) i fresh_captures)
           (\<lambda>(r, cs). case r of None \<Rightarrow> Inr [PNil] | Some (s1, e) \<Rightarrow> push_captures room s cs (Some (s1, e))))"
proof -
  define i where "i = start_index init_arg (length s)"
  have i: "(if posrelat init_arg (length s) < 1 then 1 else posrelat init_arg (length s)) = int i + 1"
    by (auto simp: i_def start_index_def)
  have "int i + 1 > int (length s) + 1 \<longleftrightarrow> i > length s" "nat (int i + 1) - 1 = i" by auto
  then show ?thesis
    unfolding str_match_def str_find_aux_def Let_def i i_def [symmetric] rd_0 bindS_simps pattern_start_def if_False by simp
qed

text \<open>C29: 
  \<open>string.match\<close> on a well-formed pattern: it tries the starts from left to right (only the first when the
  pattern is anchored) and returns the captures of the first of all matches at the first start that has one:
  the leftmost match, and at that place the one that greedy and lazy repetitions prefer. Every backtrack
  is explored before it gives up. An error is never a read outside the arguments or a complaint about the
  pattern, and "too complex" only for patterns of 200 or more items at which the matcher calls itself; the
  theorem does not say when the other errors, of captures and of the stack, occur.
\<close>

theorem match_leftmost_preferred:
  assumes "length s < 2 ^ 63" "parse p (pattern_start p) = Some its"
  shows "case str_match room s p init_arg of
      Inl e \<Rightarrow> e \<noteq> BadRead \<and> \<not> malformed e \<and> (cost its < 200 \<longrightarrow> e \<noteq> TooComplex)
    | Inr vs \<Rightarrow> (case find (\<lambda>k. results s its k [] \<noteq> []) (start_list s p init_arg) of
          None \<Rightarrow> vs = [PNil]
        | Some k \<Rightarrow> (case hd (results s its k []) of (e, c) \<Rightarrow> vs = match_values s (Some (k, e)) c))"
proof (cases "start_index init_arg (length s) > length s")
  case True
  then show ?thesis by (simp add: str_match_unfold Let_def start_list_def)
next
  case False
  let ?r = "search_loop s p (pattern_start p) (byte p 0 = c_caret) (start_index init_arg (length s)) fresh_captures"
  have ff: "found_first s p (pattern_start p) (start_list s p init_arg) ?r" using start_found [OF assms(1)] False by simp
  have un: "str_match room s p init_arg =
      bindS ?r (\<lambda>(r, cs). case r of None \<Rightarrow> Inr [PNil] | Some (s1, e) \<Rightarrow> push_captures room s cs (Some (s1, e)))"
    using False by (simp add: str_match_unfold)
  show ?thesis
  proof (cases ?r)
    case (Inl e)
    then show ?thesis using ff assms(2) by (simp add: un found_first_def MAXCCALLS_def)
  next
    case (Inr x)
    obtain r cs where x: "x = (r, cs)" by (rule prod.exhaust)
    show ?thesis
    proof (cases r)
      case None
      then have "find (\<lambda>k. results s its k [] \<noteq> []) (start_list s p init_arg) = None"
        using ff Inr x assms(2) by (simp add: found_first_def find_None_iff)
      then show ?thesis using Inr x None by (simp add: un)
    next
      case (Some m)
      obtain k e where m: "m = (k, e)" by (rule prod.exhaust)
      have f: "k \<le> e" "e \<le> length s" "caps_ok e cs"
        "find (\<lambda>k. results s its k [] \<noteq> []) (start_list s p init_arg) = Some k" "hd (results s its k []) = (e, vis cs)"
        using ff Inr x Some m assms(2) by (auto simp: found_first_def)
      have "\<forall>a b. Some (k, e) = Some (a, b) \<longrightarrow> a \<le> b \<and> b = e" using f(1) by simp
      from push_captures_values [OF f(3,2) this, of room] show ?thesis
        using Inr x Some m f(4,5) by (auto simp: un malformed_def split: if_splits)
    qed
  qed
qed

text \<open>\<open>("hello"):match("l+")\<close> is \<open>"ll"\<close>, in bytes.\<close>

theorem match_leftmost_preferred_witness:
  "case str_match (\<lambda>_. True) [104, 101, 108, 108, 111] [108, c_plus] 1 of Inl e \<Rightarrow> e \<noteq> TooComplex | Inr vs \<Rightarrow> vs = [PStr [108, 108]]"
proof -
  have parse: "parse [108, c_plus] (pattern_start [108, c_plus]) = Some [Chars (char_set [108, c_plus] 0 1) Plus]"
    by (subst parse.simps, subst parse.simps)
      (simp add: pattern_start_def byte_def classend_def rd_def repetition_of_def isdigit_def)
  have "char_set [108, c_plus] 0 1 = (\<lambda>c. c = 108)"
    by (auto simp: char_set_def single_char_def rd_def)
  note parse = parse [unfolded this]
  have starts: "start_list [104, 101, 108, 108, 111] [108, c_plus] 1 = [0, 1, 2, 3, 4, 5]"
    by (simp add: start_list_def start_index_def posrelat_def byte_def upt_conv_Cons)
  have first: "find (\<lambda>k. results [104, 101, 108, 108, 111] [Chars (\<lambda>c. c = 108) Plus] k [] \<noteq> []) [0, 1, 2, 3, 4, 5] = Some 2"
    by code_simp
  have best: "hd (results [104, 101, 108, 108, 111] [Chars (\<lambda>c. c = 108) Plus] 2 []) = (4, [])"
    by code_simp
  show ?thesis
    using match_leftmost_preferred [OF _ parse, where s = "[104, 101, 108, 108, 111]" and room = "\<lambda>_. True" and init_arg = 1]
    unfolding starts first option.case best prod.case by (simp add: match_values_def split: sum.splits)
qed

section \<open>Memory safety\<close>

lemma one_capture_safe:
  assumes "caps_ok e cs" "e \<le> length src" "k \<le> e"
  shows "push_onecapture src cs i (Some (k, e)) \<noteq> Inl BadRead"
proof (cases "i < level cs")
  case True
  then show ?thesis using push_one_value [OF assms(1,2)] by simp
next
  case False
  then show ?thesis using assms(2,3) by (simp add: push_onecapture_def substring_def)
qed

lemma push_captures_safe:
  assumes "caps_ok e cs" "e \<le> length src" "\<forall>a b. span = Some (a, b) \<longrightarrow> a \<le> b \<and> b = e"
  shows "push_captures room src cs span \<noteq> Inl BadRead"
  using push_captures_values [OF assms, of room] by (auto split: if_splits)

lemma bindS_safe: "m \<noteq> Inl BadRead \<Longrightarrow> (\<And>x. m = Inr x \<Longrightarrow> f x \<noteq> Inl BadRead) \<Longrightarrow> bindS m f \<noteq> Inl BadRead"
  by (cases m) auto

lemma safe_if: "(c \<Longrightarrow> x \<noteq> Inl BadRead) \<Longrightarrow> (\<not> c \<Longrightarrow> y \<noteq> Inl BadRead) \<Longrightarrow> (if c then x else y) \<noteq> Inl BadRead"
  by simp

lemma add_s_safe:
  assumes "caps_ok e cs" "e \<le> length src" "k \<le> e"
  shows "add_s news src cs k e i b \<noteq> Inl BadRead"
proof (induction "length news - i" arbitrary: i b rule: less_induct)
  case less
  note one = one_capture_safe [OF assms]
  have sub: "substring src k (e - k) \<noteq> Inl BadRead" using assms(2,3) by (simp add: substring_def)
  show ?case
  proof (cases "i < length news")
    case True
    then have rd: "rd news i = Inr (byte news i)" "rd news (i + 1) = Inr (byte news (i + 1))" by (simp_all add: rd_byte)
    have ih: "add_s news src cs k e (i + 1) b1 \<noteq> Inl BadRead" "add_s news src cs k e (i + 2) b1 \<noteq> Inl BadRead" for b1
      using less.hyps True by simp_all
    show ?thesis
      unfolding add_s.simps [of news src cs k e i b] if_P [OF True] rd bindS_simps
      by (intro safe_if bindS_safe sub one ih) simp
  next
    case False
    then show ?thesis by (subst add_s.simps) simp
  qed
qed

lemma gsub_safe:
  assumes small: "length src < 2 ^ 63" and p: "p \<le> length pat"
  shows "s \<le> length src \<Longrightarrow> length (capture cs) = LUA_MAXCAPTURES \<Longrightarrow>
    gsub_loop room (By_String news) src pat p anchor max_s s n b cs \<noteq> Inl BadRead \<and>
    (\<forall>s1 n1 b1. gsub_loop room (By_String news) src pat p anchor max_s s n b cs = Inr (s1, n1, b1) \<longrightarrow> s1 \<le> length src)"
proof (induction "length src - s" arbitrary: s n b cs rule: less_induct)
  case less
  let ?loop = "gsub_loop room (By_String news) src pat p anchor max_s"
  let ?good = "\<lambda>m. m \<noteq> Inl BadRead \<and> (\<forall>s1 n1 b1. m = Inr (s1, n1, b1) \<longrightarrow> s1 \<le> length src)"
  show ?case
  proof (cases "n < max_s")
    case False
    then show ?thesis using less.prems by (subst (1 2) gsub_loop.simps) auto
  next
    case True
    let ?next = "\<lambda>r n1 b1 cs1. case gsub_advance src s r b1 of None \<Rightarrow> Inr (s, n1, b1)
               | Some (s1, b2) \<Rightarrow> if anchor then Inr (s1, n1, b2) else ?loop s1 n1 b2 cs1"
    have "next": "?good (?next r n1 b1 cs1)"
      if "length (capture cs1) = LUA_MAXCAPTURES" "\<forall>e. r = Some e \<longrightarrow> e \<le> length src" for r n1 b1 cs1
    proof (cases "gsub_advance src s r b1")
      case (Some x)
      obtain s1 b2 where x: "x = (s1, b2)" by (rule prod.exhaust)
      have s1: "s < s1" "s1 \<le> length src"
        using Some x that(2) by (auto simp: gsub_advance_def split: option.splits if_splits)
      have "?good (?loop s1 n1 b2 cs1)" by (rule less.hyps) (use s1 that(1) in auto)
      then show ?thesis using Some x s1 by auto
    qed (use less.prems in simp)
    have un: "?loop s n b cs = bindS (match_at MAXCCALLS src pat s p (cs\<lparr>level := 0\<rparr>)) (\<lambda>(r, cs1).
          bindS (case r of Some e \<Rightarrow> bindS (add_s news src cs1 s e 0 b) (\<lambda>b1. Inr (n + 1, b1)) | None \<Rightarrow> Inr (n, b))
            (\<lambda>(n1, b1). ?next r n1 b1 cs1))"
      by (subst gsub_loop.simps) (simp only: True if_True add_value_def replacement.case)
    from match_at_first [OF small p less.prems] show ?thesis
    proof (cases rule: answer_cases)
      case (error e)
      then show ?thesis by (auto simp: un good_error_def)
    next
      case (no_match cs1)
      then have "length (capture cs1) = LUA_MAXCAPTURES" using less.prems(2) by (simp add: same_caps_def)
      then show ?thesis using "next" [of cs1 None n b] no_match(1) by (simp add: un)
    next
      case (found e cs1)
      then have "length (capture cs1) = LUA_MAXCAPTURES" by (simp add: caps_ok_def)
      note nx = "next" [OF this, of "Some e" "n + 1"]
      show ?thesis
      proof (cases "add_s news src cs1 s e 0 b")
        case (Inl y)
        then show ?thesis using add_s_safe [OF found(4,3,2), of news 0 b] found(1) by (simp add: un)
      next
        case (Inr b1)
        then show ?thesis using nx [of b1] found(1,3) by (simp add: un)
      qed
    qed
  qed
qed

lemma search_safe:
  assumes "length s < 2 ^ 63" "q \<le> length p" "i \<le> length s"
  shows "search_loop s p q anchor i fresh_captures \<noteq> Inl BadRead"
    and "search_loop s p q anchor i fresh_captures = Inr (Some (k, e), cs) \<Longrightarrow> i \<le> k \<and> k \<le> e \<and> e \<le> length s \<and> caps_ok e cs"
  using search_first [OF assms, of fresh_captures anchor]
  by (auto simp: fresh_captures_def found_first_def simp del: upt_Suc split: if_splits)

text \<open>C34: 
  No search reads outside the subject or the pattern, whatever the pattern is, also a malformed one, and
  whatever start, limit or replacement is given; the replacement of \<open>gsub\<close> is a string here.
\<close>

theorem searches_read_inside:
  assumes small: "length s < 2 ^ 63"
  shows "str_find_aux room is_find s p init_arg plain \<noteq> Inl BadRead \<and> gmatch_aux room s p pos \<noteq> Inl BadRead \<and>
    str_gsub room s p (By_String news) max_arg \<noteq> Inl BadRead"
proof (intro conjI)
  have caret: "(if byte p 0 = c_caret then 1 else 0) \<le> length p" using pattern_start_le [of p] by (simp add: pattern_start_def)
  define i where "i = start_index init_arg (length s)"
  have i: "(if posrelat init_arg (length s) < 1 then 1 else posrelat init_arg (length s)) = int i + 1"
    by (auto simp: i_def start_index_def)
  show "str_find_aux room is_find s p init_arg plain \<noteq> Inl BadRead"
    unfolding str_find_aux_def Let_def i rd_0 bindS_simps
  proof (intro safe_if bindS_safe)
    assume "\<not> int i + 1 > int (length s) + 1"
    then have le: "i \<le> length s" "nat (int i + 1) - 1 = i" "nat (int (length s) - (int i + 1) + 1) = length s - i" by auto
    show "lmemfind s (nat (int i + 1) - 1) (nat (int (length s) - (int i + 1) + 1)) p \<noteq> Inl BadRead"
      unfolding le(2,3) lmemfind_first [OF le(1)] by simp
    show "search_loop s p (if byte p 0 = c_caret then 1 else 0) (byte p 0 = c_caret) (nat (int i + 1) - 1) fresh_captures \<noteq> Inl BadRead"
      unfolding le(2) by (rule search_safe(1) [OF small caret le(1)])
    fix x assume x: "search_loop s p (if byte p 0 = c_caret then 1 else 0) (byte p 0 = c_caret) (nat (int i + 1) - 1) fresh_captures = Inr x"
    obtain r cs where rc: "x = (r, cs)" by (rule prod.exhaust)
    show "(case x of (None, cs) \<Rightarrow> Inr [PNil] | (Some (s1, e), cs) \<Rightarrow>
        if is_find then bindS (push_captures room s cs None) (\<lambda>vs. Inr (PInt (int s1 + 1) # PInt (int e) # vs))
        else push_captures room s cs (Some (s1, e))) \<noteq> Inl BadRead"
    proof (cases r)
      case (Some m)
      obtain k e where m: "m = (k, e)" by (rule prod.exhaust)
      have f: "k \<le> e" "e \<le> length s" "caps_ok e cs"
        using search_safe(2) [OF small caret le(1) x [unfolded le(2) rc Some m]] by simp_all
      have "push_captures room s cs None \<noteq> Inl BadRead" "push_captures room s cs (Some (k, e)) \<noteq> Inl BadRead"
        by (rule push_captures_safe [OF f(3,2)], use f(1) in simp)+
      then show ?thesis unfolding rc Some m prod.case option.case by (intro safe_if bindS_safe) auto
    qed (simp add: rc)
  qed (auto split: option.split)
  show "gmatch_aux room s p pos \<noteq> Inl BadRead"
    unfolding gmatch_aux_def
  proof (intro safe_if bindS_safe)
    assume le: "pos \<le> length s"
    show "search_loop s p 0 False pos fresh_captures \<noteq> Inl BadRead" using search_safe(1) [OF small _ le] by simp
    fix x assume x: "search_loop s p 0 False pos fresh_captures = Inr x"
    obtain r cs where rc: "x = (r, cs)" by (rule prod.exhaust)
    show "(case x of (None, cs) \<Rightarrow> Inr None | (Some (src, e), cs) \<Rightarrow>
        let newstart = if e = src then e + 1 else e
        in bindS (push_captures room s cs (Some (src, e))) (\<lambda>vs. Inr (Some (vs, newstart)))) \<noteq> Inl BadRead"
    proof (cases r)
      case (Some m)
      obtain k e where m: "m = (k, e)" by (rule prod.exhaust)
      have f: "k \<le> e" "e \<le> length s" "caps_ok e cs"
        using search_safe(2) [OF small _ le x [unfolded rc Some m]] by simp_all
      have "push_captures room s cs (Some (k, e)) \<noteq> Inl BadRead"
        by (rule push_captures_safe [OF f(3,2)]) (use f(1) in simp)
      then show ?thesis unfolding rc Some m prod.case option.case Let_def by (intro bindS_safe) auto
    qed (simp add: rc)
  qed simp
  show "str_gsub room s p (By_String news) max_arg \<noteq> Inl BadRead"
    unfolding str_gsub_def Let_def rd_0 bindS_simps
  proof (intro bindS_safe)
    let ?run = "gsub_loop room (By_String news) s p (if byte p 0 = c_caret then 1 else 0) (byte p 0 = c_caret)
        (case max_arg of None \<Rightarrow> int (length s) + 1 | Some m \<Rightarrow> m) 0 0 [] fresh_captures"
    have g: "?run \<noteq> Inl BadRead \<and> (\<forall>s1 n1 b1. ?run = Inr (s1, n1, b1) \<longrightarrow> s1 \<le> length s)"
      by (rule gsub_safe [OF small caret]) (simp_all add: fresh_captures_def)
    then show "?run \<noteq> Inl BadRead" ..
    fix x assume "?run = Inr x"
    moreover obtain s1 n1 b1 where "x = (s1, n1, b1)" by (metis prod.exhaust)
    ultimately show "(case x of (s1, n, b) \<Rightarrow> bindS (substring s s1 (length s - s1)) (\<lambda>t. Inr (b @ t, n))) \<noteq> Inl BadRead"
      using g by (simp add: substring_def)
  qed
qed

theorem searches_read_inside_witness:
  "str_match (\<lambda>_. True) [97] [c_lbracket, L_ESC] 1 \<noteq> Inl BadRead"
  using searches_read_inside [of "[97]" "\<lambda>_. True" False "[c_lbracket, L_ESC]" 1 False] by (simp add: str_match_def)

section \<open>The shortcut for plain patterns\<close>

text \<open>A character that stands for itself.\<close>

definition literal :: "u8 \<Rightarrow> bool" where
  "literal c \<longleftrightarrow> c \<notin> set SPECIALS \<and> c \<noteq> c_close"

lemma literal_step:
  assumes p: "p < length pat" and lit: "\<forall>c \<in> set pat. literal c" and s: "s \<le> length src"
  shows "match_step rec src pat s p cs =
    (if s < length src \<and> src ! s = pat ! p then Inr (Goto (s + 1) (p + 1), cs) else Inr (Return None, cs))"
proof -
  have c: "pat ! p \<noteq> c_open" "pat ! p \<noteq> c_close" "pat ! p \<noteq> c_dollar" "pat ! p \<noteq> L_ESC" "pat ! p \<noteq> c_lbracket" "pat ! p \<noteq> c_dot"
    using lit nth_mem [OF p] by (auto simp: literal_def SPECIALS_def)
  have r: "rd pat p = Inr (pat ! p)" using p by (simp add: rd_def)
  have ce: "classend pat p = Inr (p + 1)" using c r by (simp add: classend_def)
  have sm: "singlematch src pat s p (p + 1) = Inr (s < length src \<and> src ! s = pat ! p)"
    using c r by (auto simp: singlematch_def single_char_def rd_def)
  have x: "rd pat (p + 1) = Inr (byte pat (p + 1))" using p by (simp add: rd_byte)
  have nx: "byte pat (p + 1) \<noteq> c_star" "byte pat (p + 1) \<noteq> c_opt" "byte pat (p + 1) \<noteq> c_minus" "byte pat (p + 1) \<noteq> c_plus"
    using lit by (cases "p + 1 < length pat", auto simp: byte_def literal_def SPECIALS_def)+
  have "match_step rec src pat s p cs = match_default rec src pat s p cs"
    unfolding match_step_def r bindS_simps using p by (simp only: c if_False simp_thms) simp
  then show ?thesis unfolding match_default_def ce bindS_simps sm x by (simp only: nx if_False simp_thms) auto
qed

lemma literal_loop:
  assumes lit: "\<forall>c \<in> set pat. literal c"
  shows "p \<le> length pat \<Longrightarrow> s \<le> length src \<Longrightarrow> match_loop rec src pat s p cs =
    Inr (if occurs (drop p pat) src s then Some (s + (length pat - p)) else None, cs)"
proof (induction "length pat - p" arbitrary: p s)
  case 0
  then show ?case by (subst match_loop.simps) (simp add: match_step_def occurs_def)
next
  case (Suc n)
  then have p: "p < length pat" by simp
  have d: "drop p pat = pat ! p # drop (p + 1) pat" using p by (simp add: Cons_nth_drop_Suc)
  note st = literal_step [OF p lit Suc.prems(2), of rec cs]
  show ?case
  proof (cases "s < length src \<and> src ! s = pat ! p")
    case True
    then have ds: "drop s src = pat ! p # drop (s + 1) src" by (metis Cons_nth_drop_Suc Suc_eq_plus1)
    have "occurs (drop p pat) src s \<longleftrightarrow> occurs (drop (p + 1) pat) src (s + 1)"
      unfolding occurs_def d ds using True by auto
    moreover have "match_loop rec src pat s p cs = match_loop rec src pat (s + 1) (p + 1) cs"
      using True by (subst match_loop.simps) (simp add: st)
    ultimately show ?thesis using Suc.hyps(1) [of "p + 1" "s + 1"] Suc.hyps(2) True p by auto
  next
    case False
    have "\<not> occurs (drop p pat) src s"
    proof
      assume o: "occurs (drop p pat) src s"
      then have "s < length src" using d by (auto simp: occurs_def)
      moreover from this have "drop s src = src ! s # drop (s + 1) src" by (simp add: Cons_nth_drop_Suc)
      ultimately show False using o False d by (auto simp: occurs_def)
    qed
    then show ?thesis using False by (subst match_loop.simps) (auto simp: st)
  qed
qed

text \<open>C13: 
  Searching a pattern without special characters by plain search is sound: the matcher would succeed at
  the same place, with a match of the length of the pattern, and fail exactly when plain search does.
  (\<open>)\<close> counts as special for the matcher, but not for the test \<open>nospecials\<close>.)
\<close>

theorem plain_shortcut_sound:
  assumes "nospecials p" "c_close \<notin> set p" "i \<le> length s"
  shows "\<exists>r cs. lmemfind s i (length s - i) p = Inr r \<and>
    search_loop s p (pattern_start p) (byte p 0 = c_caret) i fresh_captures = Inr (map_option (\<lambda>k. (k, k + length p)) r, cs)"
proof -
  have lit: "\<forall>c \<in> set p. literal c" using assms(1,2) by (auto simp: nospecials_iff literal_def)
  have no: "byte p 0 \<noteq> c_caret" using lit by (cases p) (auto simp: byte_def literal_def SPECIALS_def)
  have "search_loop s p 0 False i cs = Inr (map_option (\<lambda>k. (k, k + length p)) (find (occurs p s) [i..<Suc (length s)]), cs\<lparr>level := 0\<rparr>)" for cs
    using assms(3)
  proof (induction "length s - i" arbitrary: i cs rule: less_induct)
    case less
    have m: "match_at MAXCCALLS s p i 0 (cs\<lparr>level := 0\<rparr>) = Inr (if occurs p s i then Some (i + length p) else None, cs\<lparr>level := 0\<rparr>)"
      using literal_loop [OF lit, of 0 i s] less.prems by (simp add: MAXCCALLS_def numeral_eq_Suc)
    have f: "find (occurs p s) [i..<Suc (length s)] = (if occurs p s i then Some i else find (occurs p s) [i + 1..<Suc (length s)])"
      using less.prems by (intro find_upt_Suc) simp
    show ?case
    proof (cases "\<not> occurs p s i \<and> i < length s")
      case True
      then have "search_loop s p 0 False i cs = search_loop s p 0 False (i + 1) (cs\<lparr>level := 0\<rparr>)"
        by (subst search_loop.simps) (simp add: m)
      then show ?thesis using True less.hyps [of "i + 1" "cs\<lparr>level := 0\<rparr>"] f by (simp add: diff_less_mono2 del: upt_Suc)
    next
      case False
      have "find (occurs p s) [i + 1..<Suc (length s)] = None" if "\<not> i < length s" using that less.prems by simp
      then show ?thesis using False f by (subst search_loop.simps) (auto simp: m simp del: upt_Suc)
    qed
  qed
  then show ?thesis using lmemfind_first [OF assms(3), of p] no by (auto simp: pattern_start_def)
qed

theorem plain_shortcut_sound_witness:
  "\<exists>r cs. lmemfind [1, 2, 3] 0 (length [1 :: u8, 2, 3]) [2, 3] = Inr r \<and>
    search_loop [1, 2, 3] [2, 3] 0 False 0 fresh_captures = Inr (map_option (\<lambda>k. (k, k + length [2 :: u8, 3])) r, cs)"
  using plain_shortcut_sound [of "[2, 3]" 0 "[1, 2, 3]"]
  by (simp add: nospecials_iff SPECIALS_def pattern_start_def byte_def)

section \<open>Replacing and iterating\<close>

lemma add_whole: "add_s [L_ESC, 48] src cs s e 0 b = bindS (substring src s (e - s)) (\<lambda>t. Inr (b @ t))"
proof -
  have e: "add_s [L_ESC, 48] src cs s e (0 + 2) b1 = Inr b1" for b1 by (subst add_s.simps) simp
  have r: "rd [L_ESC, 48] 0 = Inr L_ESC" "rd [L_ESC, 48] (0 + 1) = Inr 48" "isdigit 48" "0 < length [L_ESC, 48]"
    by (simp_all add: rd_def isdigit_def)
  show ?thesis unfolding add_s.simps [of "[L_ESC, 48]" src cs s e 0 b] if_P [OF r(4)] r(1,2) bindS_simps e using r(3) by simp
qed

lemma advance_keeps:
  assumes "gsub_advance src s r b1 = Some (s1, b2)" "s \<le> length src" "\<forall>e. r = Some e \<longrightarrow> e \<le> max s (length src)"
    and "b @ drop s src = src" "b1 = (case r of None \<Rightarrow> b | Some e \<Rightarrow> b @ take (e - s) (drop s src))"
  shows "b2 @ drop s1 src = src \<and> s < s1 \<and> s1 \<le> length src"
proof -
  have step: "b @ [src ! s] @ drop (s + 1) src = src" if "s < length src"
    using that assms(4) by (simp add: Cons_nth_drop_Suc)
  show ?thesis
  proof (cases "\<exists>e. r = Some e \<and> e > s")
    case True
    then obtain e where e: "r = Some e" "e > s" by blast
    have "take (e - s) (drop s src) @ drop e src = drop s src"
      using e(2) by (metis append_take_drop_id drop_drop le_add_diff_inverse2 less_imp_le)
    then have "b1 @ drop e src = src" using assms(4,5) e(1) by simp
    then show ?thesis using assms(1-3) e by (auto simp: gsub_advance_def)
  next
    case False
    then have "b1 = b" using assms(5) by (auto split: option.split)
    then show ?thesis using assms(1) False step by (auto simp: gsub_advance_def split: option.splits if_splits)
  qed
qed

lemma gsub_whole:
  "gsub_loop room (By_String [L_ESC, 48]) src pat p anchor max_s s n b cs = Inr (s1, n1, b1) \<Longrightarrow>
    s \<le> length src \<Longrightarrow> b @ drop s src = src \<Longrightarrow> s1 \<le> length src \<and> b1 @ drop s1 src = src \<and> n \<le> n1 \<and> n1 \<le> max n max_s"
proof (induction "length src - s" arbitrary: s n b cs rule: less_induct)
  case less
  let ?loop = "gsub_loop room (By_String [L_ESC, 48]) src pat p anchor max_s"
  show ?case
  proof (cases "n < max_s")
    case False
    then show ?thesis using less.prems by (subst (asm) gsub_loop.simps) auto
  next
    case True
    have un: "?loop s n b cs = bindS (match_at MAXCCALLS src pat s p (cs\<lparr>level := 0\<rparr>)) (\<lambda>(r, cs1).
          bindS (case r of Some e \<Rightarrow> bindS (add_s [L_ESC, 48] src cs1 s e 0 b) (\<lambda>b1. Inr (n + 1, b1)) | None \<Rightarrow> Inr (n, b))
            (\<lambda>(n1, b1). case gsub_advance src s r b1 of None \<Rightarrow> Inr (s, n1, b1)
               | Some (s1, b2) \<Rightarrow> if anchor then Inr (s1, n1, b2) else ?loop s1 n1 b2 cs1))"
      by (subst gsub_loop.simps) (simp only: True if_True add_value_def replacement.case)
    obtain r cs1 where m: "match_at MAXCCALLS src pat s p (cs\<lparr>level := 0\<rparr>) = Inr (r, cs1)"
      using less.prems(1) un by (auto simp: bindS_Inr)
    define b2 where "b2 = (case r of None \<Rightarrow> b | Some e \<Rightarrow> b @ take (e - s) (drop s src))"
    define n2 where "n2 = (if r = None then n else n + 1)"
    have e: "\<forall>e. r = Some e \<longrightarrow> e \<le> max s (length src)"
      using match_at_inside [of src s MAXCCALLS pat p "cs\<lparr>level := 0\<rparr>"] by (auto simp: m)
    have run: "(case gsub_advance src s r b2 of None \<Rightarrow> Inr (s, n2, b2)
               | Some (s1, b3) \<Rightarrow> if anchor then Inr (s1, n2, b3) else ?loop s1 n2 b3 cs1) = Inr (s1, n1, b1)"
    proof (cases r)
      case None
      then have v: "b2 = b" "n2 = n" by (simp_all add: b2_def n2_def)
      show ?thesis using less.prems(1) unfolding un m bindS_simps prod.case None option.case v .
    next
      case (Some y)
      then have v: "b2 = b @ take (y - s) (drop s src)" "n2 = n + 1" by (simp_all add: b2_def n2_def)
      obtain t where t: "substring src s (y - s) = Inr t"
        using less.prems(1) unfolding un m bindS_simps prod.case Some option.case add_whole by (cases "substring src s (y - s)") auto
      then have t1: "t = take (y - s) (drop s src)" by (auto simp: substring_def split: if_splits)
      show ?thesis
        using less.prems(1) unfolding un m bindS_simps prod.case Some option.case add_whole t t1 v .
    qed
    have n2: "n \<le> n2" "n2 \<le> max_s" using True by (auto simp: n2_def)
    show ?thesis
    proof (cases "gsub_advance src s r b2")
      case None
      then have "b2 = b" using e less.prems(2) by (auto simp: gsub_advance_def b2_def split: option.splits if_splits)
      then show ?thesis using run None less.prems n2 by simp
    next
      case (Some x)
      obtain s3 b3 where x: "x = (s3, b3)" by (rule prod.exhaust)
      note k = advance_keeps [OF Some [unfolded x] less.prems(2) e less.prems(3) b2_def]
      show ?thesis
      proof (cases anchor)
        case True
        then show ?thesis using run Some x k n2 by simp
      next
        case False
        then have "?loop s3 n2 b3 cs1 = Inr (s1, n1, b1)" using run Some x by simp
        with less.hyps [of s3 n2 b3 cs1] k have "s1 \<le> length src \<and> b1 @ drop s1 src = src \<and> n2 \<le> n1 \<and> n1 \<le> max n2 max_s"
          by auto
        then show ?thesis using n2 by auto
      qed
    qed
  qed
qed

text \<open>
  \<open>gsub\<close> with the replacement \<open>%0\<close> gives the subject back, whatever the pattern, empty matches included; and it
  replaces at most as often as it was told to.
\<close>

theorem gsub_identity:
  assumes "str_gsub room s p (By_String [L_ESC, 48]) max_arg = Inr (t, n)"
  shows "t = s \<and> 0 \<le> n \<and> n \<le> max 0 (case max_arg of Some m \<Rightarrow> m | None \<Rightarrow> int (length s) + 1)"
proof -
  define m where "m = (case max_arg of None \<Rightarrow> int (length s) + 1 | Some m \<Rightarrow> m)"
  define run where "run = gsub_loop room (By_String [L_ESC, 48]) s p (if byte p 0 = c_caret then 1 else 0) (byte p 0 = c_caret)
      m 0 0 [] fresh_captures"
  have "bindS run (\<lambda>(s1, n, b). bindS (substring s s1 (length s - s1)) (\<lambda>t. Inr (b @ t, n))) = Inr (t, n)"
    using assms unfolding str_gsub_def Let_def rd_0 bindS_simps run_def m_def .
  then obtain x where x: "run = Inr x" "(\<lambda>(s1, n, b). bindS (substring s s1 (length s - s1)) (\<lambda>t. Inr (b @ t, n))) x = Inr (t, n)"
    unfolding bindS_Inr by blast
  obtain s1 n1 b where p: "x = (s1, n1, b)" by (metis prod.exhaust)
  have r: "n1 = n" "t = b @ drop s1 s" using x(2) by (auto simp: p bindS_Inr substring_def split: if_splits)
  have "s1 \<le> length s \<and> b @ drop s1 s = s \<and> 0 \<le> n \<and> n \<le> max 0 m"
    using x(1) unfolding run_def p r(1) by (rule gsub_whole) simp_all
  then show ?thesis using r(2) unfolding m_def by simp
qed

theorem gsub_identity_witness:
  "\<exists>t n. str_gsub (\<lambda>_. True) [97, 98] [98] (By_String [L_ESC, 48]) None = Inr (t, n) \<and> t = [97, 98]"
proof -
  have run: "str_gsub (\<lambda>_. True) [97, 98] [98] (By_String [L_ESC, 48]) None = Inr ([97, 98], 1)" by code_simp
  from gsub_identity [OF run] show ?thesis using run by blast
qed

text \<open>C38: 
  Every call of the iterator of \<open>gmatch\<close> that finds a match goes on behind the place where it started, also
  after an empty match, so an iteration over a subject of \<open>n\<close> bytes ends after at most \<open>n + 1\<close> matches.
\<close>

theorem gmatch_progress:
  assumes "length s < 2 ^ 63" "gmatch_aux room s p pos = Inr (Some (vs, pos1))"
  shows "pos < pos1 \<and> pos1 \<le> length s + 1"
proof -
  have le: "pos \<le> length s" using assms(2) by (auto simp: gmatch_aux_def split: if_splits)
  have run: "gmatch_aux room s p pos = bindS (search_loop s p 0 False pos fresh_captures) (\<lambda>(r, cs). case r of None \<Rightarrow> Inr None
      | Some (src, e) \<Rightarrow> let newstart = (if e = src then e + 1 else e)
        in bindS (push_captures room s cs (Some (src, e))) (\<lambda>vs. Inr (Some (vs, newstart))))"
    using le by (simp add: gmatch_aux_def)
  from assms(2) [unfolded run bindS_Inr] obtain x where x: "search_loop s p 0 False pos fresh_captures = Inr x" "(\<lambda>(r, cs). case r of None \<Rightarrow> Inr None
      | Some (src, e) \<Rightarrow> let newstart = (if e = src then e + 1 else e)
        in bindS (push_captures room s cs (Some (src, e))) (\<lambda>vs. Inr (Some (vs, newstart)))) x = Inr (Some (vs, pos1))"
    by blast
  obtain r cs where rc: "x = (r, cs)" by (rule prod.exhaust)
  note r = x [unfolded rc prod.case]
  obtain k e where m: "r = Some (k, e)" using r(2) by (cases r) auto
  have pos1: "pos1 = (if e = k then e + 1 else e)"
    using r(2) unfolding m option.case prod.case Let_def bindS_Inr by blast
  have "pos \<le> k \<and> k \<le> e \<and> e \<le> length s" using search_safe(2) [OF assms(1) _ le r(1) [unfolded m]] by simp
  then show ?thesis using pos1 by auto
qed

theorem gmatch_progress_witness:
  "\<exists>vs pos1. gmatch_aux (\<lambda>_. True) [97, 98] [120, c_star] 0 = Inr (Some (vs, pos1)) \<and> 0 < pos1"
proof -
  have "gmatch_aux (\<lambda>_. True) [97, 98] [120, c_star] 0 = Inr (Some ([PStr []], 1))" by code_simp
  then show ?thesis using gmatch_progress [of "[97, 98]" "\<lambda>_. True" "[120, c_star]" 0 "[PStr []]" 1] by simp
qed

end
