(* ===== verification/LuaPack.thy ===== *)
theory LuaPack
  imports LuaFind
begin

unbundle bit_operations_syntax

text \<open>
  \<open>string.pack\<close>, \<open>string.packsize\<close> and \<open>string.unpack\<close> (\<open>lstrlib.c\<close>). A format is the list of its bytes; it ends
  at a zero byte or at its end. Sizes of the C types are those of a 64-bit little-endian build. The bytes of
  floating-point values in memory, and the values of such bytes, are parameters (\<open>fb\<close>, \<open>fv\<close>). Positions are
  natural numbers; where the code relies on the width of \<open>size_t\<close> the reduction is written out. Arguments
  have been converted to integers, numbers and strings.
\<close>

section \<open>Options\<close>

datatype koption = Kint | Kuint | Kfloat | Kchar | Kstring | Kzstr | Kpadding | Kpaddalign | Knop

record header =
  islittle :: bool
  maxalign :: nat

definition MAXINTSIZE :: int where "MAXINTSIZE = 16"
definition MAXALIGN :: int where "MAXALIGN = 8"
definition SZINT :: nat where "SZINT = 8"
definition MAXSIZE :: int where "MAXSIZE = 2 ^ 31 - 1"

definition digit :: "u8 \<Rightarrow> bool" where "digit c \<longleftrightarrow> 48 \<le> c \<and> c \<le> 57"

fun num_loop :: "int \<Rightarrow> u8 list \<Rightarrow> int \<times> u8 list" where
  "num_loop a [] = (a, [])"
| "num_loop a (c # fmt) =
     (if digit c \<and> a \<le> (MAXSIZE - 9) div 10 then num_loop (a * 10 + (uint c - 48)) fmt else (a, c # fmt))"

definition getnum :: "u8 list \<Rightarrow> int \<Rightarrow> int \<times> u8 list" where
  "getnum fmt df = (if fmt = [] \<or> \<not> digit (hd fmt) then (df, fmt) else num_loop 0 fmt)"

definition getnumlimit :: "u8 list \<Rightarrow> int \<Rightarrow> str_error + int \<times> u8 list" where
  "getnumlimit fmt df =
     (let (sz, fmt1) = getnum fmt df
      in if sz > MAXINTSIZE \<or> sz \<le> 0 then Inl (StrError ''integral size out of limits [1,16]'') else Inr (sz, fmt1))"

definition initheader :: header where
  "initheader = \<lparr>islittle = True, maxalign = 1\<rparr>"

definition with_limit :: "koption \<Rightarrow> header \<Rightarrow> u8 list \<Rightarrow> int \<Rightarrow> str_error + koption \<times> nat \<times> header \<times> u8 list" where
  "with_limit k h fmt df = bindS (getnumlimit fmt df) (\<lambda>(sz, fmt1). Inr (k, nat sz, h, fmt1))"

text \<open>The option, its width, and what the header and the format are after it.\<close>

definition getoption :: "header \<Rightarrow> u8 list \<Rightarrow> str_error + koption \<times> nat \<times> header \<times> u8 list" where
  "getoption h fmt = (case fmt of [] \<Rightarrow> Inl BadRead | opt # rest \<Rightarrow>
     (if opt = 98 then Inr (Kint, 1, h, rest)
      else if opt = 66 then Inr (Kuint, 1, h, rest)
      else if opt = 104 then Inr (Kint, 2, h, rest)
      else if opt = 72 then Inr (Kuint, 2, h, rest)
      else if opt = 108 then Inr (Kint, 8, h, rest)
      else if opt = 76 then Inr (Kuint, 8, h, rest)
      else if opt = 106 then Inr (Kint, 8, h, rest)
      else if opt = 74 then Inr (Kuint, 8, h, rest)
      else if opt = 84 then Inr (Kuint, 8, h, rest)
      else if opt = 102 then Inr (Kfloat, 4, h, rest)
      else if opt = 100 then Inr (Kfloat, 8, h, rest)
      else if opt = 110 then Inr (Kfloat, 8, h, rest)
      else if opt = 105 then with_limit Kint h rest 4
      else if opt = 73 then with_limit Kuint h rest 4
      else if opt = 115 then with_limit Kstring h rest 8
      else if opt = 99 then
        (let (sz, rest1) = getnum rest (- 1)
         in if sz = - 1 then Inl (StrError ''missing width for format option c'') else Inr (Kchar, nat sz, h, rest1))
      else if opt = 122 then Inr (Kzstr, 0, h, rest)
      else if opt = 120 then Inr (Kpadding, 1, h, rest)
      else if opt = 88 then Inr (Kpaddalign, 0, h, rest)
      else if opt = 32 then Inr (Knop, 0, h, rest)
      else if opt = 60 then Inr (Knop, 0, h\<lparr>islittle := True\<rparr>, rest)
      else if opt = 62 then Inr (Knop, 0, h\<lparr>islittle := False\<rparr>, rest)
      else if opt = 61 then Inr (Knop, 0, h\<lparr>islittle := True\<rparr>, rest)
      else if opt = 33 then
        bindS (getnumlimit rest MAXALIGN) (\<lambda>(sz, rest1). Inr (Knop, 0, h\<lparr>maxalign := nat sz\<rparr>, rest1))
      else Inl (StrError ''invalid format option'')))"

definition format_end :: "u8 list \<Rightarrow> bool" where
  "format_end fmt \<longleftrightarrow> fmt = [] \<or> hd fmt = 0"

definition alignment :: "header \<Rightarrow> nat \<Rightarrow> koption \<Rightarrow> nat \<Rightarrow> str_error + nat" where
  "alignment h totalsize opt align0 =
     (if align0 \<le> 1 \<or> opt = Kchar then Inr 0
      else let align = (if align0 > maxalign h then maxalign h else align0)
           in if align AND (align - 1) \<noteq> 0 then Inl (StrError ''format asks for alignment not power of 2'')
              else Inr ((align - (totalsize AND (align - 1))) AND (align - 1)))"

text \<open>The option, its width, how many bytes to skip before it, and what is left.\<close>

definition getdetails :: "header \<Rightarrow> nat \<Rightarrow> u8 list \<Rightarrow> str_error + koption \<times> nat \<times> nat \<times> header \<times> u8 list" where
  "getdetails h totalsize fmt =
     bindS (getoption h fmt) (\<lambda>(opt, width, h1, fmt1).
       if opt = Kpaddalign then
         (if format_end fmt1 then Inl (StrError ''invalid next option for option X'')
          else bindS (getoption h1 fmt1) (\<lambda>(opt2, align, h2, fmt2).
            if opt2 = Kchar \<or> align = 0 then Inl (StrError ''invalid next option for option X'')
            else bindS (alignment h2 totalsize opt align) (\<lambda>ntoalign. Inr (opt, width, ntoalign, h2, fmt2))))
       else bindS (alignment h1 totalsize opt width) (\<lambda>ntoalign. Inr (opt, width, ntoalign, h1, fmt1)))"

section \<open>Integers as bytes\<close>

fun shifted_bytes :: "u64 \<Rightarrow> nat \<Rightarrow> u8 list" where
  "shifted_bytes n 0 = []"
| "shifted_bytes n (Suc k) = ucast (n AND 0xFF) # shifted_bytes (drop_bit 8 n) k"

definition in_order :: "bool \<Rightarrow> u8 list \<Rightarrow> u8 list" where
  "in_order little bs = (if little then bs else rev bs)"

definition packint :: "u64 \<Rightarrow> bool \<Rightarrow> nat \<Rightarrow> bool \<Rightarrow> u8 list" where
  "packint n little width neg =
     (let bs = shifted_bytes n width
      in in_order little (if neg \<and> width > SZINT then take SZINT bs @ replicate (width - SZINT) 0xFF else bs))"

definition unpackint :: "u8 list \<Rightarrow> bool \<Rightarrow> nat \<Rightarrow> bool \<Rightarrow> str_error + u64" where
  "unpackint str little width issigned =
     (let bs = in_order little str;
          limit = (if width \<le> SZINT then width else SZINT);
          res = foldr (\<lambda>b r. push_bit 8 r OR ucast b) (take limit bs) 0
      in if width < SZINT then
           (if issigned then let mask = push_bit (width * 8 - 1) 1 in Inr ((res XOR mask) - mask) else Inr res)
         else if width > SZINT then
           let mask = (if \<not> issigned \<or> sint res \<ge> 0 then 0 else 0xFF)
           in if list_ex (\<lambda>b. b \<noteq> mask) (drop limit bs) then Inl (StrError ''integer does not fit into Lua Integer'')
              else Inr res
         else Inr res)"

section \<open>Packing\<close>

datatype 'f pval = VInt u64 | VStr "u8 list" | VNum 'f

definition arg_error :: "string \<Rightarrow> str_error + 'a" where
  "arg_error msg = Inl (StrError msg)"

definition pack_item :: "(nat \<Rightarrow> 'f \<Rightarrow> u8 list) \<Rightarrow> koption \<Rightarrow> nat \<Rightarrow> bool \<Rightarrow> 'f pval list \<Rightarrow>
    str_error + u8 list \<times> nat \<times> 'f pval list" where
  "pack_item fb opt width little args =
     (if opt = Kpadding then Inr ([0], 0, args)
      else if opt = Kpaddalign \<or> opt = Knop then Inr ([], 0, args)
      else case args of [] \<Rightarrow> arg_error ''no value'' | v # rest \<Rightarrow>
       (case v of
          VInt n \<Rightarrow>
            if opt = Kint then
              (let lim = 2 ^ (width * 8 - 1)
               in if width < SZINT \<and> \<not> (- lim \<le> sint n \<and> sint n < lim) then arg_error ''integer overflow''
                  else Inr (packint n little width (sint n < 0), 0, rest))
            else if opt = Kuint then
              (if width < SZINT \<and> \<not> (n < push_bit (width * 8) 1) then arg_error ''unsigned overflow''
               else Inr (packint n little width False, 0, rest))
            else arg_error ''value expected''
        | VNum x \<Rightarrow> if opt = Kfloat then Inr (in_order little (fb width x), 0, rest) else arg_error ''value expected''
        | VStr s \<Rightarrow>
            if opt = Kchar then (if length s \<noteq> width then arg_error ''wrong length'' else Inr (s, 0, rest))
            else if opt = Kstring then
              (if \<not> (width \<ge> 8 \<or> length s < 2 ^ (width * 8)) then arg_error ''string length does not fit in given size''
               else Inr (packint (of_nat (length s)) little width False @ s, length s, rest))
            else if opt = Kzstr then
              (if 0 \<in> set s then arg_error ''string contains zeros'' else Inr (s @ [0], length s + 1, rest))
            else arg_error ''value expected''))"

lemma num_loop_length: "length (snd (num_loop a fmt)) \<le> length fmt"
  by (induction a fmt rule: num_loop.induct) auto

lemma getnum_length: "getnum fmt df = (sz, fmt1) \<Longrightarrow> length fmt1 \<le> length fmt"
  using num_loop_length [of 0 fmt] by (auto simp: getnum_def split: if_splits)

lemma getnumlimit_length: "getnumlimit fmt df = Inr (sz, fmt1) \<Longrightarrow> length fmt1 \<le> length fmt \<and> 0 < sz \<and> sz \<le> 16"
  using getnum_length [of fmt df] by (auto simp: getnumlimit_def Let_def MAXINTSIZE_def split: prod.splits if_splits)

lemma with_limit_length: "with_limit k h fmt df = Inr (opt, width, h1, fmt1) \<Longrightarrow> length fmt1 \<le> length fmt"
  using getnumlimit_length [of fmt df] by (auto simp: with_limit_def bindS_Inr)

lemma getoption_length: "getoption h fmt = Inr (opt, width, h1, fmt1) \<Longrightarrow> length fmt1 < length fmt"
  by (auto simp: getoption_def bindS_Inr Let_def split: list.splits if_splits prod.splits
      dest!: with_limit_length getnum_length getnumlimit_length)

lemma getdetails_length: "getdetails h t fmt = Inr (opt, width, nt, h1, fmt1) \<Longrightarrow> length fmt1 < length fmt"
  by (auto simp: getdetails_def bindS_Inr split: if_splits dest!: getoption_length)

function pack_loop :: "(nat \<Rightarrow> 'f \<Rightarrow> u8 list) \<Rightarrow> header \<Rightarrow> nat \<Rightarrow> u8 list \<Rightarrow> 'f pval list \<Rightarrow> u8 list \<Rightarrow> str_error + u8 list" where
  "pack_loop fb h totalsize fmt args b =
     (if format_end fmt then Inr b
      else bindS (getdetails h totalsize fmt) (\<lambda>(opt, width, ntoalign, h1, fmt1).
             bindS (pack_item fb opt width (islittle h1) args) (\<lambda>(bs, extra, args1).
               pack_loop fb h1 (totalsize + (ntoalign + width) + extra) fmt1 args1 (b @ replicate ntoalign 0 @ bs))))"
  by pat_completeness auto
termination
  by (relation "measure (\<lambda>(fb, h, t, fmt, args, b). length fmt)") (auto dest: getdetails_length)

declare pack_loop.simps [simp del]

definition str_pack :: "(nat \<Rightarrow> 'f \<Rightarrow> u8 list) \<Rightarrow> u8 list \<Rightarrow> 'f pval list \<Rightarrow> str_error + u8 list" where
  "str_pack fb fmt args = pack_loop fb initheader 0 fmt args []"

function packsize_loop :: "header \<Rightarrow> nat \<Rightarrow> u8 list \<Rightarrow> str_error + nat" where
  "packsize_loop h totalsize fmt =
     (if format_end fmt then Inr totalsize
      else bindS (getdetails h totalsize fmt) (\<lambda>(opt, width, ntoalign, h1, fmt1).
             if \<not> int totalsize \<le> MAXSIZE - int (width + ntoalign) then arg_error ''format result too large''
             else if opt = Kstring \<or> opt = Kzstr then arg_error ''variable-length format''
             else packsize_loop h1 (totalsize + (width + ntoalign)) fmt1))"
  by pat_completeness auto
termination
  by (relation "measure (\<lambda>(h, t, fmt). length fmt)") (auto dest: getdetails_length)

declare packsize_loop.simps [simp del]

definition str_packsize :: "u8 list \<Rightarrow> str_error + nat" where
  "str_packsize fmt = packsize_loop initheader 0 fmt"

section \<open>Unpacking\<close>

text \<open>The value of an option, and by how much it moves the position beyond its width.\<close>

definition unpack_item :: "(nat \<Rightarrow> u8 list \<Rightarrow> 'f) \<Rightarrow> koption \<Rightarrow> nat \<Rightarrow> bool \<Rightarrow> u8 list \<Rightarrow> nat \<Rightarrow>
    str_error + 'f pval list \<times> nat" where
  "unpack_item fv opt width little data pos =
     (if opt = Kint \<or> opt = Kuint then
        bindS (substring data pos width) (\<lambda>str. bindS (unpackint str little width (opt = Kint)) (\<lambda>n. Inr ([VInt n], 0)))
      else if opt = Kfloat then bindS (substring data pos width) (\<lambda>str. Inr ([VNum (fv width (in_order little str))], 0))
      else if opt = Kchar then bindS (substring data pos width) (\<lambda>str. Inr ([VStr str], 0))
      else if opt = Kstring then
        bindS (substring data pos width) (\<lambda>str. bindS (unpackint str little width False) (\<lambda>n.
          let len = unat n
          in if (pos + len + width) mod 2 ^ 64 > length data then arg_error ''data string too short''
             else bindS (substring data (pos + width) len) (\<lambda>s. Inr ([VStr s], len))))
      else if opt = Kzstr then
        (let len = nat (take_bit 64 (signed_take_bit 31 (int (length (takeWhile (\<lambda>c. c \<noteq> 0) (drop pos data))))))
         in bindS (substring data pos len) (\<lambda>s. Inr ([VStr s], len + 1)))
      else Inr ([], 0))"

function unpack_loop :: "(nat \<Rightarrow> u8 list \<Rightarrow> 'f) \<Rightarrow> (nat \<Rightarrow> bool) \<Rightarrow> header \<Rightarrow> u8 list \<Rightarrow> u8 list \<Rightarrow> nat \<Rightarrow> 'f pval list \<Rightarrow>
    str_error + 'f pval list \<times> nat" where
  "unpack_loop fv room h fmt data pos vs =
     (if format_end fmt then Inr (vs, (pos + 1) mod 2 ^ 64)
      else bindS (getdetails h pos fmt) (\<lambda>(opt, width, ntoalign, h1, fmt1).
             if ntoalign + width > 2 ^ 64 - 1 - pos \<or> pos + ntoalign + width > length data then arg_error ''data string too short''
             else if \<not> room (length vs + 2) then arg_error ''stack overflow (too many results)''
             else bindS (unpack_item fv opt width (islittle h1) data (pos + ntoalign)) (\<lambda>(v, extra).
                    unpack_loop fv room h1 fmt1 data ((pos + ntoalign + extra + width) mod 2 ^ 64) (vs @ v))))"
  by pat_completeness auto
termination
  by (relation "measure (\<lambda>(fv, room, h, fmt, data, pos, vs). length fmt)") (auto dest: getdetails_length)

declare unpack_loop.simps [simp del]

definition str_unpack :: "(nat \<Rightarrow> u8 list \<Rightarrow> 'f) \<Rightarrow> (nat \<Rightarrow> bool) \<Rightarrow> u8 list \<Rightarrow> u8 list \<Rightarrow> int \<Rightarrow> str_error + 'f pval list \<times> nat" where
  "str_unpack fv room fmt data init =
     (let pos = nat ((posrelat init (length data) - 1) mod 2 ^ 64)
      in if pos > length data then arg_error ''initial position out of string''
         else unpack_loop fv room initheader fmt data pos [])"

end
