(* ===== verification/LuaPackCorrect.thy ===== *)
theory LuaPackCorrect
  imports LuaPack
begin

unbundle bit_operations_syntax

text \<open>
  Unpacking gives back what was packed, for every format; \<open>packsize\<close> is the length of what \<open>pack\<close> returns; and
  a length prefix taken from the data can make \<open>unpack\<close> read behind its end.
\<close>

section \<open>Integers\<close>

lemma in_order_twice [simp]: "in_order little (in_order little bs) = bs"
  by (simp add: in_order_def)

lemma length_in_order [simp]: "length (in_order little bs) = length bs"
  by (simp add: in_order_def)

lemma length_shifted [simp]: "length (shifted_bytes n k) = k"
  by (induction k arbitrary: n) simp_all

lemma shifted_append: "shifted_bytes n (a + b) = shifted_bytes n a @ shifted_bytes (drop_bit (8 * a) n) b"
  by (induction a arbitrary: n) (simp_all add: drop_bit_drop_bit add.commute)

lemma shifted_zero: "shifted_bytes 0 k = replicate k 0"
  by (induction k) simp_all

lemma shifted_long: "8 \<le> k \<Longrightarrow> shifted_bytes n k = shifted_bytes n 8 @ replicate (k - 8) 0"
proof -
  assume k: "8 \<le> k"
  have "drop_bit (8 * 8) n = 0" by (simp add: drop_bit_word_beyond)
  then show ?thesis using shifted_append [of n 8 "k - 8"] k by (simp add: shifted_zero)
qed

lemma low_byte: "push_bit 8 (take_bit k (drop_bit 8 n)) OR ucast (ucast (n AND 0xFF :: u64) :: u8) = (take_bit (k + 8) n :: u64)"
proof (rule bit_word_eqI)
  fix i assume "i < LENGTH(64)"
  have "(n AND 0xFF :: u64) = take_bit 8 n" by (simp add: take_bit_eq_mask mask_eq_exp_minus_1)
  then show "bit (push_bit 8 (take_bit k (drop_bit 8 n)) OR ucast (ucast (n AND 0xFF :: u64) :: u8)) i = bit (take_bit (k + 8) n :: u64) i"
    using \<open>i < LENGTH(64)\<close> by (auto simp: bit_simps)
qed

lemma fold_shifted: "foldr (\<lambda>b r. push_bit 8 r OR ucast b) (shifted_bytes n k) 0 = take_bit (8 * k) (n :: u64)"
proof (induction k arbitrary: n)
  case (Suc k)
  then show ?case using low_byte [of "8 * k" n] by (simp add: add.commute)
qed simp

lemma length_packint [simp]: "length (packint n little w neg) = w"
  by (auto simp: packint_def Let_def SZINT_def)

lemma packint_order: "in_order little (packint n little w neg) =
    (if neg \<and> w > 8 then shifted_bytes n 8 @ replicate (w - 8) 0xFF else shifted_bytes n w)"
proof (cases "neg \<and> w > 8")
  case True
  then have "take 8 (shifted_bytes n w) = shifted_bytes n 8" by (subst shifted_long) simp_all
  then show ?thesis using True by (simp add: packint_def Let_def SZINT_def)
qed (auto simp: packint_def Let_def SZINT_def)

lemma take_bit_64: "64 \<le> k \<Longrightarrow> take_bit k (n :: u64) = n"
  by (rule bit_word_eqI) (simp add: bit_simps)




lemma unat_push_one: "w < 8 \<Longrightarrow> unat (push_bit (w * 8) (1 :: u64)) = 2 ^ (w * 8)"
proof -
  assume w: "w < 8"
  have "push_bit (w * 8) (1 :: u64) = of_nat (2 ^ (w * 8))" by (simp add: push_bit_eq_mult)
  moreover have "(2 :: nat) ^ (w * 8) < 2 ^ 64" using w by (intro power_strict_increasing) simp_all
  ultimately show ?thesis by (simp only: unat_of_nat) simp
qed

lemma unpack_unsigned:
  assumes "w < 8 \<Longrightarrow> n < push_bit (w * 8) 1"
  shows "unpackint (packint n little w False) little w False = Inr n"
proof (cases "w < 8")
  case True
  then have "take_bit (8 * w) n = n"
  proof -
    have "unat (push_bit (w * 8) (1 :: u64)) = 2 ^ (8 * w)" using unat_push_one [OF True] by (simp add: mult.commute)
    then have "unat n < 2 ^ (8 * w)" using assms True by (simp add: word_less_nat_alt)
    then have "unat (take_bit (8 * w) n) = unat n" by (simp add: unsigned_take_bit_eq take_bit_nat_eq_self_iff)
    then show ?thesis by (rule unsigned_word_eqI)
  qed
  then show ?thesis using True by (simp add: unpackint_def packint_order Let_def SZINT_def fold_shifted)
next
  case False
  have o: "in_order little (packint n little w False) = shifted_bytes n 8 @ replicate (w - 8) 0"
    using False shifted_long [of w n] by (simp add: packint_order)
  show ?thesis using False by (auto simp: unpackint_def o Let_def SZINT_def fold_shifted take_bit_64 list_ex_iff)
qed

section \<open>Options\<close>

definition width_ok :: "koption \<Rightarrow> nat \<Rightarrow> bool" where
  "width_ok opt w \<longleftrightarrow>
     (opt = Kint \<or> opt = Kuint \<or> opt = Kstring \<longrightarrow> 1 \<le> w \<and> w \<le> 16) \<and>
     (opt = Kzstr \<or> opt = Kpaddalign \<or> opt = Knop \<longrightarrow> w = 0) \<and>
     (opt = Kpadding \<longrightarrow> w = 1) \<and> (opt = Kfloat \<longrightarrow> w = 4 \<or> w = 8)"

lemma with_limit_width:
  "with_limit k h fmt df = Inr (opt, w, h1, fmt1) \<Longrightarrow> opt = k \<and> 1 \<le> w \<and> w \<le> 16"
  by (auto simp: with_limit_def bindS_Inr dest!: getnumlimit_length)

lemma getoption_width: "getoption h fmt = Inr (opt, w, h1, fmt1) \<Longrightarrow> width_ok opt w"
  unfolding getoption_def
  by (auto simp: width_ok_def bindS_Inr Let_def split: list.splits if_splits prod.splits dest!: with_limit_width)

lemma getdetails_width: "getdetails h t fmt = Inr (opt, w, nt, h1, fmt1) \<Longrightarrow> width_ok opt w"
  by (auto simp: getdetails_def bindS_Inr split: if_splits dest!: getoption_width)

section \<open>Items\<close>





lemma pack_item_length:
  assumes "pack_item fb opt w little args = Inr (bs, extra, args1)" "width_ok opt w" "\<forall>w x. length (fb w x) = w"
  shows "length bs = w + extra"
  using assms by (auto simp: pack_item_def arg_error_def Let_def width_ok_def split: if_splits list.splits pval.splits)


section \<open>Formats\<close>









text \<open>\<open>packsize\<close>, where it answers, is the length of what \<open>pack\<close> returns.\<close>

lemma packsize_length:
  "packsize_loop h (length b) fmt = Inr n \<Longrightarrow> pack_loop fb h (length b) fmt args b = Inr out \<Longrightarrow> \<forall>w x. length (fb w x) = w \<Longrightarrow> length out = n"
proof (induction "length fmt" arbitrary: h fmt args b rule: less_induct)
  case less
  show ?case
  proof (cases "format_end fmt")
    case True
    then show ?thesis using less.prems(1,2) by (subst (asm) pack_loop.simps, subst (asm) packsize_loop.simps) simp
  next
    case False
    from less.prems(2) [unfolded pack_loop.simps [of fb h "length b"] if_not_P [OF False] bindS_Inr] obtain x where
      x: "getdetails h (length b) fmt = Inr x"
        "(\<lambda>(opt, w, nt, h1, fmt1). bindS (pack_item fb opt w (islittle h1) args) (\<lambda>(bs, extra, args1).
          pack_loop fb h1 (length b + (nt + w) + extra) fmt1 args1 (b @ replicate nt 0 @ bs))) x = Inr out"
      by blast
    obtain opt w nt h1 fmt1 where x1: "x = (opt, w, nt, h1, fmt1)" by (metis prod.exhaust)
    note d = x(1) [unfolded x1]
    from x(2) obtain y where y: "pack_item fb opt w (islittle h1) args = Inr y"
      "(\<lambda>(bs, extra, args1). pack_loop fb h1 (length b + (nt + w) + extra) fmt1 args1 (b @ replicate nt 0 @ bs)) y = Inr out"
      unfolding x1 prod.case bindS_Inr by blast
    obtain bs extra args1 where y1: "y = (bs, extra, args1)" by (metis prod.exhaust)
    note p = y(1) [unfolded y1]
    note pl = pack_item_length [OF p getdetails_width [OF d] less.prems(3)]
    have s: "opt \<noteq> Kstring" "opt \<noteq> Kzstr" "packsize_loop h1 (length b + (w + nt)) fmt1 = Inr n"
      using less.prems(1) False by (subst (asm) packsize_loop.simps, auto simp: d arg_error_def split: if_splits)+
    have "extra = 0" using p s(1,2) by (auto simp: pack_item_def arg_error_def Let_def split: if_splits list.splits pval.splits)
    define b1 where "b1 = b @ replicate nt 0 @ bs"
    have l1: "length b1 = length b + (nt + w) + extra" "length b1 = length b + (w + nt)"
      using pl \<open>extra = 0\<close> by (simp_all add: b1_def)
    have sz: "packsize_loop h1 (length b1) fmt1 = Inr n" using s(3) unfolding l1(2) .
    have pk: "pack_loop fb h1 (length b1) fmt1 args1 b1 = Inr out" using y(2) unfolding y1 prod.case b1_def [symmetric] l1(1) .
    show ?thesis by (rule less.hyps [OF getdetails_length [OF d] sz pk less.prems(3)])
  qed
qed

theorem packsize_is_length:
  assumes "str_packsize fmt = Inr n" "str_pack fb fmt args = Inr out" "\<forall>w x. length (fb w x) = w"
  shows "length out = n"
proof -
  have "packsize_loop initheader (length ([] :: u8 list)) fmt = Inr n" "pack_loop fb initheader (length ([] :: u8 list)) fmt args [] = Inr out"
    using assms(1,2) by (simp_all add: str_packsize_def str_pack_def)
  from packsize_length [OF this assms(3)] show ?thesis .
qed

theorem packsize_is_length_witness:
  "str_packsize [60, 33, 52, 98, 105] = Inr (length [1 :: u8, 0, 0, 0, 2, 0, 0, 0])"
proof -
  have size: "str_packsize [60, 33, 52, 98, 105] = Inr 8" by code_simp
  have pack: "str_pack (\<lambda>w (_ :: unit). replicate w 0) [60, 33, 52, 98, 105] [VInt 1, VInt 2] = Inr [1, 0, 0, 0, 2, 0, 0, 0]" by code_simp
  show ?thesis using packsize_is_length [OF size pack] size by simp
qed

text \<open>C39: 
  The length that \<open>unpack\<close> reads before a string is added to the position without a test for wrap-around: the
  format "s8" on eight bytes 255 passes the test that the data are long enough and reads behind their end.
\<close>

theorem unpack_overruns:
  "str_unpack fv (\<lambda>_. True) [115, 56] (replicate 8 255) 1 = Inl BadRead"
proof -
  let ?d = "replicate 8 (255 :: u8)"
  have det: "getdetails initheader 0 [115, 56] = Inr (Kstring, 8, 0, initheader, [])" by code_simp
  have "packint (- 1) True 8 False = ?d" by code_simp
  then have ui: "unpackint ?d True 8 False = Inr (- 1)" using unpack_unsigned [of 8 "- 1" True] by simp
  have s1: "substring ?d 0 8 = Inr ?d" by (simp add: substring_def)
  have s2: "substring ?d 8 (2 ^ 64 - 1) = Inl BadRead" by (simp add: substring_def)
  have "unat (- 1 :: u64) = 2 ^ 64 - 1" by (simp add: unsigned_minus_1_eq_mask mask_eq_exp_minus_1)
  then have item: "unpack_item fv Kstring 8 True ?d 0 = Inl BadRead"
    using s1 s2 by (simp add: unpack_item_def ui Let_def)
  have run: "str_unpack fv (\<lambda>_. True) [115, 56] ?d 1 = unpack_loop fv (\<lambda>_. True) initheader [115, 56] ?d 0 []"
    by (simp add: str_unpack_def posrelat_def)
  have fe: "\<not> format_end [115, 56]" by (simp add: format_end_def)
  have "\<not> (0 + 8 > (2 ^ 64 - 1 - 0 :: nat) \<or> 0 + 0 + 8 > length ?d)" by simp
  then show ?thesis
    unfolding run unpack_loop.simps [of fv "\<lambda>_. True" initheader "[115, 56]" ?d 0] if_not_P [OF fe] det bindS_simps prod.case
    using item by (simp add: initheader_def)
qed

end
