(* ===== verification/LuaLex.thy ===== *)
theory LuaLex
  imports LuaArith LuaUtf8
begin

text \<open>
  The lexical analyzer of the embedded interpreter (\<open>llex.c\<close>, \<open>llex.h\<close> under \<open>lua/lua-5.3.1/src\<close>). \<open>input\<close> is
  the current character and what the stream still holds, empty at its end (\<open>LuaZio\<close> shows that the pieces
  in which a reader delivers the stream do not matter). A token is its number and its semantic information;
  a string is its text. The buffer always finds memory to grow. The reading of floating-point numerals
  (\<open>str2d\<close>) and the decimal point of the locale (\<open>point\<close>) are parameters.
\<close>

section \<open>Tokens and state\<close>

definition luaX_tokens :: "string list" where
  "luaX_tokens = [''and'', ''break'', ''do'', ''else'', ''elseif'', ''end'', ''false'', ''for'', ''function'', ''goto'', ''if'',
     ''in'', ''local'', ''nil'', ''not'', ''or'', ''repeat'', ''return'', ''then'', ''true'', ''until'', ''while'',
     ''//'', ''..'', ''...'', ''=='', ''>='', ''<='', ''~='', ''<<'', ''>>'', ''::'', ''<eof>'',
     ''<number>'', ''<integer>'', ''<name>'', ''<string>'']"

definition FIRST_RESERVED :: nat where "FIRST_RESERVED = 257"
definition NUM_RESERVED :: nat where "NUM_RESERVED = 22"

definition TK_IDIV :: nat where "TK_IDIV = 279"
definition TK_CONCAT :: nat where "TK_CONCAT = 280"
definition TK_DOTS :: nat where "TK_DOTS = 281"
definition TK_EQ :: nat where "TK_EQ = 282"
definition TK_GE :: nat where "TK_GE = 283"
definition TK_LE :: nat where "TK_LE = 284"
definition TK_NE :: nat where "TK_NE = 285"
definition TK_SHL :: nat where "TK_SHL = 286"
definition TK_SHR :: nat where "TK_SHR = 287"
definition TK_DBCOLON :: nat where "TK_DBCOLON = 288"
definition TK_EOS :: nat where "TK_EOS = 289"
definition TK_FLT :: nat where "TK_FLT = 290"
definition TK_INT :: nat where "TK_INT = 291"
definition TK_NAME :: nat where "TK_NAME = 292"
definition TK_STRING :: nat where "TK_STRING = 293"

datatype 'r seminfo = NoInfo | SemR 'r | SemI u64 | SemS string

record lexstate =
  input :: string
  linenumber :: nat
  buff :: string
  decpoint :: char

definition current :: "lexstate \<Rightarrow> char option" where
  "current s = (case input s of [] \<Rightarrow> None | c # _ \<Rightarrow> Some c)"

definition nextc :: "lexstate \<Rightarrow> lexstate" where
  "nextc s = s\<lparr>input := tl (input s)\<rparr>"

definition save :: "char \<Rightarrow> lexstate \<Rightarrow> lexstate" where
  "save c s = s\<lparr>buff := buff s @ [c]\<rparr>"

definition save_and_next :: "lexstate \<Rightarrow> lexstate" where
  "save_and_next s = nextc (case current s of Some c \<Rightarrow> save c s | None \<Rightarrow> s)"

definition resetbuffer :: "lexstate \<Rightarrow> lexstate" where
  "resetbuffer s = s\<lparr>buff := []\<rparr>"

definition buffremove :: "nat \<Rightarrow> lexstate \<Rightarrow> lexstate" where
  "buffremove n s = s\<lparr>buff := take (length (buff s) - n) (buff s)\<rparr>"

definition cur_is :: "lexstate \<Rightarrow> (char \<Rightarrow> bool) \<Rightarrow> bool" where
  "cur_is s P = (case current s of None \<Rightarrow> False | Some c \<Rightarrow> P c)"

definition newline_char :: "char \<Rightarrow> bool" where
  "newline_char c \<longleftrightarrow> c = CHR 0x0A \<or> c = CHR 0x0D"

definition currIsNewline :: "lexstate \<Rightarrow> bool" where
  "currIsNewline s = cur_is s newline_char"

text \<open>An error: its message, the text it names if any, and the line.\<close>

datatype lex_error = LexError string "string option" nat

definition token2str :: "nat \<Rightarrow> string" where
  "token2str token =
     (if token < FIRST_RESERVED then [CHR 0x27, char_of token, CHR 0x27]
      else let s = luaX_tokens ! (token - FIRST_RESERVED)
           in if token < TK_EOS then CHR 0x27 # s @ [CHR 0x27] else s)"

text \<open>What a C function sees of a buffer: up to its first zero.\<close>

definition cstring :: "string \<Rightarrow> string" where
  "cstring s = takeWhile (\<lambda>c. c \<noteq> CHR 0x00) s"

definition txtToken :: "lexstate \<Rightarrow> nat \<Rightarrow> string" where
  "txtToken s token =
     (if token = TK_NAME \<or> token = TK_STRING \<or> token = TK_FLT \<or> token = TK_INT
      then CHR 0x27 # cstring (buff s) @ [CHR 0x27] else token2str token)"

definition lexerror :: "lexstate \<Rightarrow> string \<Rightarrow> nat \<Rightarrow> lex_error + 'a" where
  "lexerror s msg token =
     Inl (LexError msg (if token \<noteq> 0 then Some (txtToken s token) else None) (linenumber s))"

definition bindX :: "lex_error + 'a \<Rightarrow> ('a \<Rightarrow> lex_error + 'b) \<Rightarrow> lex_error + 'b" where
  "bindX m f = (case m of Inl e \<Rightarrow> Inl e | Inr x \<Rightarrow> f x)"

lemma bindX_simps [simp]: "bindX (Inl e) f = Inl e" "bindX (Inr x) f = f x"
  by (simp_all add: bindX_def)

lemma bindX_cong [fundef_cong]: "m = m' \<Longrightarrow> (\<And>x. m' = Inr x \<Longrightarrow> f x = f' x) \<Longrightarrow> bindX m f = bindX m' f'"
  by (auto simp: bindX_def split: sum.split)

lemma bindX_Inr: "bindX m f = Inr y \<longleftrightarrow> (\<exists>x. m = Inr x \<and> f x = Inr y)"
  by (simp add: bindX_def split: sum.split)

definition LEX_MAX_INT :: nat where "LEX_MAX_INT = 2 ^ 31 - 1"

definition inclinenumber :: "lexstate \<Rightarrow> lex_error + lexstate" where
  "inclinenumber s =
     (let old = current s;
          s1 = nextc s;
          s2 = (if currIsNewline s1 \<and> current s1 \<noteq> old then nextc s1 else s1);
          s3 = s2\<lparr>linenumber := linenumber s2 + 1\<rparr>
      in if linenumber s3 \<ge> LEX_MAX_INT then lexerror s3 ''chunk has too many lines'' 0 else Inr s3)"

definition luaX_setinput :: "string \<Rightarrow> lexstate" where
  "luaX_setinput z = \<lparr>input = z, linenumber = 1, buff = [], decpoint = CHR ''.''\<rparr>"

section \<open>Numerals\<close>

definition check_next1 :: "char \<Rightarrow> lexstate \<Rightarrow> bool \<times> lexstate" where
  "check_next1 c s = (if current s = Some c then (True, nextc s) else (False, s))"

definition check_next2 :: "char \<times> char \<Rightarrow> lexstate \<Rightarrow> bool \<times> lexstate" where
  "check_next2 pair s = (if current s = Some (fst pair) \<or> current s = Some (snd pair) then (True, save_and_next s) else (False, s))"

definition buffreplace :: "char \<Rightarrow> char \<Rightarrow> lexstate \<Rightarrow> lexstate" where
  "buffreplace old new s = s\<lparr>buff := map (\<lambda>c. if c = old then new else c) (buff s)\<rparr>"

definition luaO_str2num :: "(string \<Rightarrow> 'r option) \<Rightarrow> string \<Rightarrow> 'r seminfo option" where
  "luaO_str2num str2d s =
     (case l_str2int s of Some (i, _) \<Rightarrow> Some (SemI i)
      | None \<Rightarrow> (case str2d s of Some r \<Rightarrow> Some (SemR r) | None \<Rightarrow> None))"

definition trydecpoint :: "(string \<Rightarrow> 'r option) \<Rightarrow> char \<Rightarrow> lexstate \<Rightarrow> lex_error + 'r seminfo \<times> lexstate" where
  "trydecpoint str2d point s =
     (let s1 = buffreplace (decpoint s) point (s\<lparr>decpoint := point\<rparr>)
      in case luaO_str2num str2d (cstring (buff s1)) of
           Some v \<Rightarrow> Inr (v, s1)
         | None \<Rightarrow> lexerror (buffreplace point (CHR ''.'') s1) ''malformed number'' TK_FLT)"

lemma input_simps [simp]:
  "input (nextc s) = tl (input s)" "input (save c s) = input s" "input (save_and_next s) = tl (input s)"
  "input (resetbuffer s) = input s" "input (buffremove n s) = input s" "input (buffreplace a b s) = input s"
  by (simp_all add: nextc_def save_def save_and_next_def resetbuffer_def buffremove_def buffreplace_def split: option.split)

lemma cur_is_less: "cur_is s P \<Longrightarrow> 0 < length (input s)"
  by (auto simp: cur_is_def current_def split: list.splits)

lemma check_next2_input: "check_next2 pair s = (b, s1) \<Longrightarrow> length (input s1) \<le> length (input s)"
  by (auto simp: check_next2_def split: if_splits)

function numeral_loop :: "char \<times> char \<Rightarrow> lexstate \<Rightarrow> lexstate" where
  "numeral_loop expo s =
     (let s1 = (case check_next2 expo s of (b, s0) \<Rightarrow> if b then snd (check_next2 (CHR ''-'', CHR ''+'') s0) else s0)
      in if cur_is s1 lisxdigit then numeral_loop expo (save_and_next s1)
         else if cur_is s1 (\<lambda>c. c = CHR ''.'') then numeral_loop expo (save_and_next s1)
         else s1)"
  by pat_completeness auto
termination
proof (relation "measure (\<lambda>(expo, s). length (input s))", goal_cases)
  case (2 expo s x)
  have "length (input x) \<le> length (input s)"
    using 2(1) by (auto split: prod.splits if_splits dest!: check_next2_input)
      (metis check_next2_input le_trans prod.collapse)
  then show ?case using cur_is_less [OF 2(2)] by (cases "input x") auto
next
  case (3 expo s x)
  have "length (input x) \<le> length (input s)"
    using 3(1) by (auto split: prod.splits if_splits dest!: check_next2_input)
      (metis check_next2_input le_trans prod.collapse)
  then show ?case using cur_is_less [OF 3(3)] by (cases "input x") auto
qed simp

declare numeral_loop.simps [simp del]

definition numeral_token :: "'r seminfo \<Rightarrow> nat \<times> 'r seminfo" where
  "numeral_token v = (case v of SemI i \<Rightarrow> (TK_INT, v) | _ \<Rightarrow> (TK_FLT, v))"

definition read_numeral :: "(string \<Rightarrow> 'r option) \<Rightarrow> char \<Rightarrow> lexstate \<Rightarrow> lex_error + (nat \<times> 'r seminfo) \<times> lexstate" where
  "read_numeral str2d point s =
     (let first = current s; s1 = save_and_next s;
          (hex, s2) = (if first = Some (CHR ''0'') then check_next2 (CHR ''x'', CHR ''X'') s1 else (False, s1));
          s3 = numeral_loop (if hex then (CHR ''P'', CHR ''p'') else (CHR ''E'', CHR ''e'')) s2;
          s4 = buffreplace (CHR ''.'') (decpoint s3) (save (CHR 0x00) s3)
      in case luaO_str2num str2d (cstring (buff s4)) of
           Some v \<Rightarrow> Inr (numeral_token v, s4)
         | None \<Rightarrow> bindX (trydecpoint str2d point s4) (\<lambda>(v, s5). Inr (numeral_token v, s5)))"

section \<open>Long strings and comments\<close>

text \<open>The number of \<open>=\<close> of a well-formed \<open>[=*[\<close> or \<open>]=*]\<close>, a negative number otherwise.\<close>

function count_equals :: "lexstate \<Rightarrow> nat \<Rightarrow> nat \<times> lexstate" where
  "count_equals s n = (if current s = Some (CHR ''='') then count_equals (save_and_next s) (n + 1) else (n, s))"
  by pat_completeness auto
termination
  by (relation "measure (\<lambda>(s, n). length (input s))") (auto simp: current_def split: list.splits)

declare count_equals.simps [simp del]

definition skip_sep :: "lexstate \<Rightarrow> int \<times> lexstate" where
  "skip_sep s =
     (let (n, s1) = count_equals (save_and_next s) 0
      in (if current s1 = current s then int n else - int n - 1, s1))"

lemma count_equals_input: "count_equals s n = (k, s1) \<Longrightarrow> length (input s1) \<le> length (input s)"
proof (induction s n rule: count_equals.induct)
  case (1 s n)
  then show ?case
    by (subst (asm) (2) count_equals.simps) (fastforce split: if_splits)
qed

lemma skip_sep_input: "skip_sep s = (k, s1) \<Longrightarrow> input s \<noteq> [] \<Longrightarrow> length (input s1) < length (input s)"
  by (cases "input s") (auto simp: skip_sep_def split: prod.splits dest!: count_equals_input)

lemma inclinenumber_input: "inclinenumber s = Inr s1 \<Longrightarrow> input s \<noteq> [] \<Longrightarrow> length (input s1) < length (input s)"
  by (cases "input s") (auto simp: inclinenumber_def Let_def lexerror_def split: if_splits)

text \<open>\<open>str\<close>: a string is read, not a comment skipped.\<close>

function long_loop :: "bool \<Rightarrow> int \<Rightarrow> nat \<Rightarrow> lexstate \<Rightarrow> lex_error + lexstate" where
  "long_loop str sep line s =
     (case current s of
        None \<Rightarrow> lexerror s ((if str then ''unfinished long string'' else ''unfinished long comment'') @ '' (starting at line '' @ show_nat line @ '')'') TK_EOS
      | Some c \<Rightarrow>
          if c = CHR '']'' then
            (case skip_sep s of (n, s1) \<Rightarrow> if n = sep then Inr (save_and_next s1) else long_loop str sep line s1)
          else if newline_char c then
            bindX (inclinenumber (save (CHR 0x0A) s)) (\<lambda>s1. long_loop str sep line (if str then s1 else resetbuffer s1))
          else long_loop str sep line (if str then save_and_next s else nextc s))"
  by pat_completeness auto
termination
  by (relation "measure (\<lambda>(str, sep, line, s). length (input s))")
    (auto simp: current_def split: list.splits dest!: skip_sep_input [OF sym] inclinenumber_input)

declare long_loop.simps [simp del]

definition read_long_string :: "bool \<Rightarrow> int \<Rightarrow> lexstate \<Rightarrow> lex_error + string \<times> lexstate" where
  "read_long_string str sep s =
     (let line = linenumber s; s1 = save_and_next s
      in bindX (if currIsNewline s1 then inclinenumber s1 else Inr s1) (\<lambda>s2.
           bindX (long_loop str sep line s2) (\<lambda>s3.
             let k = 2 + nat sep
             in Inr (if str then take (length (buff s3) - 2 * k) (drop k (buff s3)) else [], s3))))"

section \<open>Short strings\<close>

definition esccheck :: "lexstate \<Rightarrow> bool \<Rightarrow> string \<Rightarrow> lex_error + unit" where
  "esccheck s c msg =
     (if \<not> c then lexerror (if current s \<noteq> None then save_and_next s else s) msg TK_STRING else Inr ())"

definition hexavalue :: "lexstate \<Rightarrow> int" where
  "hexavalue s = (case current s of Some c \<Rightarrow> luaO_hexavalue c | None \<Rightarrow> 0)"

definition gethexa :: "lexstate \<Rightarrow> lex_error + int \<times> lexstate" where
  "gethexa s =
     (let s1 = save_and_next s
      in bindX (esccheck s1 (cur_is s1 lisxdigit) ''hexadecimal digit expected'') (\<lambda>_. Inr (hexavalue s1, s1)))"

definition readhexaesc :: "lexstate \<Rightarrow> lex_error + int \<times> lexstate" where
  "readhexaesc s =
     bindX (gethexa s) (\<lambda>(r, s1). bindX (gethexa s1) (\<lambda>(h, s2). Inr (r * 16 + h, buffremove 2 s2)))"

function utf8_digits :: "lexstate \<Rightarrow> int \<Rightarrow> nat \<Rightarrow> lex_error + int \<times> nat \<times> lexstate" where
  "utf8_digits s r i =
     (let s1 = save_and_next s
      in if cur_is s1 lisxdigit then
           (let r1 = r * 16 + hexavalue s1
            in bindX (esccheck s1 (r1 \<le> 0x10FFFF) ''UTF-8 value too large'') (\<lambda>_. utf8_digits s1 r1 (i + 1)))
         else Inr (r, i, s1))"
  by pat_completeness auto
termination
proof (relation "measure (\<lambda>(s, r, i). length (input s))", goal_cases)
  case (2 s r i x xa xb)
  then show ?case using cur_is_less [OF 2(2)] by (cases "input s") auto
qed simp

declare utf8_digits.simps [simp del]

definition readutf8esc :: "lexstate \<Rightarrow> lex_error + int \<times> lexstate" where
  "readutf8esc s =
     (let s1 = save_and_next s
      in bindX (esccheck s1 (cur_is s1 (\<lambda>c. c = CHR ''{'')) ''missing {'') (\<lambda>_.
           bindX (gethexa s1) (\<lambda>(r, s2). bindX (utf8_digits s2 r 4) (\<lambda>(r1, i, s3).
             bindX (esccheck s3 (cur_is s3 (\<lambda>c. c = CHR ''}'')) ''missing }'') (\<lambda>_.
               Inr (r1, buffremove i (nextc s3)))))))"

definition save_all :: "string \<Rightarrow> lexstate \<Rightarrow> lexstate" where
  "save_all cs s = s\<lparr>buff := buff s @ cs\<rparr>"

definition utf8esc :: "lexstate \<Rightarrow> lex_error + lexstate" where
  "utf8esc s = bindX (readutf8esc s) (\<lambda>(r, s1).
     Inr (save_all (map (\<lambda>b. char_of (unat b)) (luaO_utf8esc (word_of_int r))) s1))"

fun dec_loop :: "nat \<Rightarrow> lexstate \<Rightarrow> int \<Rightarrow> int \<times> nat \<times> lexstate" where
  "dec_loop 0 s r = (r, 0, s)"
| "dec_loop (Suc k) s r =
     (if cur_is s lisdigit then
        (case dec_loop k (save_and_next s) (10 * r + (case current s of Some c \<Rightarrow> int (of_char c) | None \<Rightarrow> 0) - 48) of
           (r1, i, s1) \<Rightarrow> (r1, i + 1, s1))
      else (r, 0, s))"

definition readdecesc :: "lexstate \<Rightarrow> lex_error + int \<times> lexstate" where
  "readdecesc s =
     (case dec_loop 3 s 0 of (r, i, s1) \<Rightarrow>
        bindX (esccheck s1 (r \<le> 255) ''decimal escape too large'') (\<lambda>_. Inr (r, buffremove i s1)))"

function zap_loop :: "lexstate \<Rightarrow> lex_error + lexstate" where
  "zap_loop s =
     (if cur_is s lisspace then
        (if currIsNewline s then bindX (inclinenumber s) zap_loop else zap_loop (nextc s))
      else Inr s)"
  by pat_completeness auto
termination
proof (relation "measure (\<lambda>s. length (input s))", goal_cases)
  case (2 s s1)
  then show ?case using inclinenumber_input [of s s1] cur_is_less [of s lisspace] by auto
next
  case (3 s)
  then show ?case using cur_is_less [of s lisspace] by auto
qed simp

declare zap_loop.simps [simp del]

definition read_save :: "char \<Rightarrow> lexstate \<Rightarrow> lexstate" where
  "read_save c s = save c (buffremove 1 (nextc s))"

definition only_save :: "char \<Rightarrow> lexstate \<Rightarrow> lexstate" where
  "only_save c s = save c (buffremove 1 s)"

text \<open>What follows a backslash; the backslash has been saved.\<close>

definition escape :: "lexstate \<Rightarrow> lex_error + lexstate" where
  "escape s =
     (case current s of
        None \<Rightarrow> Inr s
      | Some c \<Rightarrow>
          if c = CHR ''a'' then Inr (read_save (CHR 0x07) s)
          else if c = CHR ''b'' then Inr (read_save (CHR 0x08) s)
          else if c = CHR ''f'' then Inr (read_save (CHR 0x0C) s)
          else if c = CHR ''n'' then Inr (read_save (CHR 0x0A) s)
          else if c = CHR ''r'' then Inr (read_save (CHR 0x0D) s)
          else if c = CHR ''t'' then Inr (read_save (CHR 0x09) s)
          else if c = CHR ''v'' then Inr (read_save (CHR 0x0B) s)
          else if c = CHR ''x'' then bindX (readhexaesc s) (\<lambda>(r, s1). Inr (read_save (char_of r) s1))
          else if c = CHR ''u'' then utf8esc s
          else if newline_char c then bindX (inclinenumber s) (\<lambda>s1. Inr (only_save (CHR 0x0A) s1))
          else if c = CHR 0x5C \<or> c = CHR 0x22 \<or> c = CHR 0x27 then Inr (read_save c s)
          else if c = CHR ''z'' then zap_loop (nextc (buffremove 1 s))
          else bindX (esccheck s (lisdigit c) ''invalid escape sequence'') (\<lambda>_.
                 bindX (readdecesc s) (\<lambda>(r, s1). Inr (only_save (char_of r) s1))))"

section \<open>Progress of the short-string functions\<close>

lemma gethexa_input: "gethexa s = Inr (r, s1) \<Longrightarrow> length (input s1) \<le> length (input s)"
  by (auto simp: gethexa_def bindX_Inr Let_def)

lemma readhexaesc_input: "readhexaesc s = Inr (r, s1) \<Longrightarrow> length (input s1) \<le> length (input s)"
  by (auto simp: readhexaesc_def bindX_Inr dest!: gethexa_input)

lemma utf8_digits_input: "utf8_digits s r i = Inr (r1, i1, s1) \<Longrightarrow> length (input s1) \<le> length (input s)"
proof (induction s r i rule: utf8_digits.induct)
  case (1 s r i)
  show ?case
  proof (cases "cur_is (save_and_next s) lisxdigit")
    case True
    then have "utf8_digits (save_and_next s) (r * 16 + hexavalue (save_and_next s)) (i + 1) = Inr (r1, i1, s1)"
      "esccheck (save_and_next s) (r * 16 + hexavalue (save_and_next s) \<le> 0x10FFFF) ''UTF-8 value too large'' = Inr ()"
      using "1.prems" by (subst (asm) utf8_digits.simps, auto simp: Let_def bindX_Inr)+
    from "1.IH" [OF refl True refl this(2,1)] show ?thesis by simp
  next
    case False
    then show ?thesis using "1.prems" by (subst (asm) utf8_digits.simps) (auto simp: Let_def)
  qed
qed

lemma readutf8esc_input: "readutf8esc s = Inr (r, s1) \<Longrightarrow> length (input s1) \<le> length (input s)"
  by (auto simp: readutf8esc_def bindX_Inr Let_def dest!: gethexa_input utf8_digits_input)

lemma utf8esc_input: "utf8esc s = Inr s1 \<Longrightarrow> length (input s1) \<le> length (input s)"
  by (auto simp: utf8esc_def save_all_def bindX_Inr dest!: readutf8esc_input)

lemma dec_loop_input: "dec_loop k s r = (r1, i, s1) \<Longrightarrow> length (input s1) \<le> length (input s)"
  by (induction k s r arbitrary: i rule: dec_loop.induct) (fastforce split: if_splits prod.splits)+

lemma readdecesc_input: "readdecesc s = Inr (r, s1) \<Longrightarrow> length (input s1) \<le> length (input s)"
  by (auto simp: readdecesc_def bindX_Inr split: prod.splits dest!: dec_loop_input)

lemma inclinenumber_le: "inclinenumber s = Inr s1 \<Longrightarrow> length (input s1) \<le> length (input s)"
  by (auto simp: inclinenumber_def Let_def lexerror_def split: if_splits)

lemma zap_loop_input: "zap_loop s = Inr s1 \<Longrightarrow> length (input s1) \<le> length (input s)"
proof (induction s rule: zap_loop.induct)
  case (1 s)
  note z = "1.prems" [unfolded zap_loop.simps [of s]]
  show ?case
  proof (cases "cur_is s lisspace")
    case space: True
    show ?thesis
    proof (cases "currIsNewline s")
      case True
      with z space obtain s2 where i: "inclinenumber s = Inr s2" "zap_loop s2 = Inr s1" by (auto simp: bindX_Inr)
      from "1.IH"(1) [OF space True i] inclinenumber_le [OF i(1)] show ?thesis by simp
    next
      case False
      with z space have "zap_loop (nextc s) = Inr s1" by simp
      from "1.IH"(2) [OF space False this] show ?thesis by simp
    qed
  qed (use z in simp)
qed

lemma if_elim: "(if b then x else y) = z \<Longrightarrow> (x = z \<Longrightarrow> P) \<Longrightarrow> (y = z \<Longrightarrow> P) \<Longrightarrow> P"
  by (auto split: if_splits)

lemma escape_input: "escape s = Inr s1 \<Longrightarrow> length (input s1) \<le> length (input s)"
proof -
  assume e: "escape s = Inr s1"
  show ?thesis
  proof (cases "current s")
    case None
    then show ?thesis using e by (simp add: escape_def)
  next
    case (Some c)
    from e [unfolded escape_def Some option.case] show ?thesis
      by (elim if_elim)
        (auto simp: bindX_Inr read_save_def only_save_def
          dest!: readhexaesc_input utf8esc_input inclinenumber_le zap_loop_input readdecesc_input)
  qed
qed

text \<open>The body of a short string, up to its closing delimiter.\<close>

function string_loop :: "char \<Rightarrow> lexstate \<Rightarrow> lex_error + lexstate" where
  "string_loop del s =
     (if current s = Some del then Inr s
      else case current s of
        None \<Rightarrow> lexerror s ''unfinished string'' TK_EOS
      | Some c \<Rightarrow>
          if newline_char c then lexerror s ''unfinished string'' TK_STRING
          else if c = CHR 0x5C then bindX (escape (save_and_next s)) (string_loop del)
          else string_loop del (save_and_next s))"
  by pat_completeness auto
termination
  by (relation "measure (\<lambda>(del, s). length (input s))")
    (auto simp: current_def split: list.splits dest!: escape_input)

declare string_loop.simps [simp del]

definition read_string :: "char \<Rightarrow> lexstate \<Rightarrow> lex_error + string \<times> lexstate" where
  "read_string del s =
     bindX (string_loop del (save_and_next s)) (\<lambda>s1.
       let s2 = save_and_next s1 in Inr (take (length (buff s2) - 2) (drop 1 (buff s2)), s2))"

section \<open>The scanner\<close>

function skip_line :: "lexstate \<Rightarrow> lexstate" where
  "skip_line s = (if \<not> currIsNewline s \<and> current s \<noteq> None then skip_line (nextc s) else s)"
  by pat_completeness auto
termination
  by (relation "measure (\<lambda>s. length (input s))") (auto simp: current_def split: list.splits)

declare skip_line.simps [simp del]

function name_loop :: "lexstate \<Rightarrow> lexstate" where
  "name_loop s = (let s1 = save_and_next s in if cur_is s1 lislalnum then name_loop s1 else s1)"
  by pat_completeness auto
termination
proof (relation "measure (\<lambda>s. length (input s))", goal_cases)
  case (2 s x)
  then show ?case using cur_is_less [OF 2(2)] by (cases "input s") auto
qed simp

declare name_loop.simps [simp del]

fun position :: "string \<Rightarrow> string list \<Rightarrow> nat option" where
  "position w [] = None"
| "position w (x # xs) = (if x = w then Some 0 else map_option Suc (position w xs))"

text \<open>The mark that \<open>luaX_init\<close> sets in the reserved words (\<open>extra\<close>, less one).\<close>

definition reserved :: "string \<Rightarrow> nat option" where
  "reserved w = position w (take NUM_RESERVED luaX_tokens)"

definition one_char :: "lexstate \<Rightarrow> char \<Rightarrow> lex_error + (nat \<times> 'r seminfo) \<times> lexstate" where
  "one_char s c = Inr ((of_char c, NoInfo), s)"

definition token :: "lexstate \<Rightarrow> nat \<Rightarrow> lex_error + (nat \<times> 'r seminfo) \<times> lexstate" where
  "token s tk = Inr ((tk, NoInfo), s)"

definition comment :: "lexstate \<Rightarrow> lex_error + lexstate" where
  "comment s =
     (if current s = Some (CHR ''['') then
        (let (sep, s1) = skip_sep s; s2 = resetbuffer s1
         in if sep \<ge> 0 then bindX (read_long_string False sep s2) (\<lambda>(_, s3). Inr (resetbuffer s3)) else Inr (skip_line s2))
      else Inr (skip_line s))"

definition read_name :: "lexstate \<Rightarrow> lex_error + (nat \<times> 'r seminfo) \<times> lexstate" where
  "read_name s =
     (let s1 = name_loop s
      in case reserved (buff s1) of
           Some k \<Rightarrow> Inr ((k + FIRST_RESERVED, SemS (buff s1)), s1)
         | None \<Rightarrow> Inr ((TK_NAME, SemS (buff s1)), s1))"

lemma long_loop_input: "long_loop str sep line s = Inr s1 \<Longrightarrow> length (input s1) \<le> length (input s)"
proof (induction str sep line s rule: long_loop.induct)
  case (1 str sep line s)
  show ?case
  proof (cases "current s")
    case None
    then show ?thesis using "1.prems" by (subst (asm) long_loop.simps) (simp add: lexerror_def)
  next
    case (Some c)
    have ne: "input s \<noteq> []" using Some by (auto simp: current_def)
    consider (bracket) "c = CHR '']''" | (line) "c \<noteq> CHR '']''" "newline_char c" | (other) "c \<noteq> CHR '']''" "\<not> newline_char c" by blast
    then show ?thesis
    proof cases
      case bracket
      obtain n s2 where sk: "skip_sep s = (n, s2)" by (rule prod.exhaust)
      note l = skip_sep_input [OF sk ne]
      show ?thesis
      proof (cases "n = sep")
        case True
        then show ?thesis using "1.prems" [unfolded long_loop.simps [of str sep line s]] Some bracket sk l by auto
      next
        case False
        then have "long_loop str sep line s2 = Inr s1"
          using "1.prems" [unfolded long_loop.simps [of str sep line s]] Some bracket sk by simp
        from "1.IH"(1) [OF Some bracket sk [symmetric] False this] l show ?thesis by simp
      qed
    next
      case line
      then obtain s2 where i: "inclinenumber (save (CHR 0x0A) s) = Inr s2"
        "long_loop str sep line (if str then s2 else resetbuffer s2) = Inr s1"
        using "1.prems" Some by (subst (asm) long_loop.simps) (auto simp: bindX_Inr)
      from "1.IH"(2) [OF Some line i] inclinenumber_le [OF i(1)] show ?thesis by (auto split: if_splits)
    next
      case other
      then have "long_loop str sep line (if str then save_and_next s else nextc s) = Inr s1"
        using "1.prems" Some by (subst (asm) long_loop.simps) auto
      from "1.IH"(3) [OF Some other this] show ?thesis by (auto split: if_splits)
    qed
  qed
qed

lemma read_long_input: "read_long_string str sep s = Inr (t, s1) \<Longrightarrow> length (input s1) \<le> length (input s)"
  by (auto simp: read_long_string_def Let_def bindX_Inr split: if_splits dest!: long_loop_input inclinenumber_le)

lemma skip_line_input: "length (input (skip_line s)) \<le> length (input s)"
proof (induction s rule: skip_line.induct)
  case (1 s)
  show ?case
  proof (cases "\<not> currIsNewline s \<and> current s \<noteq> None")
    case True
    then show ?thesis using "1.IH" [OF True] by (simp add: skip_line.simps [of s])
  next
    case False
    then show ?thesis by (simp only: skip_line.simps [of s] if_False)
  qed
qed

lemma comment_input: "comment s = Inr s1 \<Longrightarrow> length (input s1) \<le> length (input s)"
proof -
  assume c: "comment s = Inr s1"
  show ?thesis
  proof (cases "current s = Some (CHR ''['')")
    case True
    then have ne: "input s \<noteq> []" by (auto simp: current_def)
    obtain sep s2 where sk: "skip_sep s = (sep, s2)" by (rule prod.exhaust)
    then show ?thesis
      using c True skip_sep_input [OF sk ne] skip_line_input [of "resetbuffer s2"]
      by (auto simp: comment_def Let_def bindX_Inr split: if_splits dest!: read_long_input)
  next
    case False
    then show ?thesis using c skip_line_input [of s] by (simp add: comment_def)
  qed
qed


text \<open>A token that begins with \<open>c\<close>, the current character, which is neither blank nor a minus.\<close>

definition bracket_token :: "lexstate \<Rightarrow> lex_error + (nat \<times> 'r seminfo) \<times> lexstate" where
  "bracket_token s =
     (case skip_sep s of (sep, s1) \<Rightarrow>
        if sep \<ge> 0 then bindX (read_long_string True sep s1) (\<lambda>(t, s2). Inr ((TK_STRING, SemS t), s2))
        else if sep \<noteq> - 1 then lexerror s1 ''invalid long string delimiter'' TK_STRING
        else one_char s1 (CHR ''[''))"

definition pair_token :: "lexstate \<Rightarrow> char \<Rightarrow> (char \<times> nat) list \<Rightarrow> lex_error + (nat \<times> 'r seminfo) \<times> lexstate" where
  "pair_token s c options =
     (let s1 = nextc s
      in case find (\<lambda>(d, tk). current s1 = Some d) options of
           Some (d, tk) \<Rightarrow> token (snd (check_next1 d s1)) tk
         | None \<Rightarrow> one_char s1 c)"

definition dot_token :: "(string \<Rightarrow> 'r option) \<Rightarrow> char \<Rightarrow> lexstate \<Rightarrow> lex_error + (nat \<times> 'r seminfo) \<times> lexstate" where
  "dot_token str2d point s =
     (case check_next1 (CHR ''.'') (save_and_next s) of (two, s2) \<Rightarrow>
        if two then
          (case check_next1 (CHR ''.'') s2 of (three, s3) \<Rightarrow> if three then token s3 TK_DOTS else token s3 TK_CONCAT)
        else if \<not> cur_is s2 lisdigit then one_char s2 (CHR ''.'')
        else read_numeral str2d point s2)"

definition lex_token :: "(string \<Rightarrow> 'r option) \<Rightarrow> char \<Rightarrow> char \<Rightarrow> lexstate \<Rightarrow> lex_error + (nat \<times> 'r seminfo) \<times> lexstate" where
  "lex_token str2d point c s =
     (if c = CHR ''['' then bracket_token s
      else if c = CHR ''='' then pair_token s c [(CHR ''='', TK_EQ)]
      else if c = CHR ''<'' then pair_token s c [(CHR ''='', TK_LE), (CHR ''<'', TK_SHL)]
      else if c = CHR ''>'' then pair_token s c [(CHR ''='', TK_GE), (CHR ''>'', TK_SHR)]
      else if c = CHR ''/'' then pair_token s c [(CHR ''/'', TK_IDIV)]
      else if c = CHR ''~'' then pair_token s c [(CHR ''='', TK_NE)]
      else if c = CHR '':'' then pair_token s c [(CHR '':'', TK_DBCOLON)]
      else if c = CHR 0x22 \<or> c = CHR 0x27 then bindX (read_string c s) (\<lambda>(t, s1). Inr ((TK_STRING, SemS t), s1))
      else if c = CHR ''.'' then dot_token str2d point s
      else if (48::nat) \<le> of_char c \<and> (of_char c::nat) \<le> 57 then read_numeral str2d point s
      else if lislalpha c then read_name s
      else one_char (nextc s) c)"

definition blank_char :: "char \<Rightarrow> bool" where
  "blank_char c \<longleftrightarrow> c = CHR '' '' \<or> c = CHR 0x0C \<or> c = CHR 0x09 \<or> c = CHR 0x0B"

function scan :: "(string \<Rightarrow> 'r option) \<Rightarrow> char \<Rightarrow> lexstate \<Rightarrow> lex_error + (nat \<times> 'r seminfo) \<times> lexstate" where
  "scan str2d point s =
     (case current s of
        None \<Rightarrow> token s TK_EOS
      | Some c \<Rightarrow>
          if newline_char c then bindX (inclinenumber s) (scan str2d point)
          else if blank_char c then scan str2d point (nextc s)
          else if c = CHR ''-'' then
            (if current (nextc s) \<noteq> Some (CHR ''-'') then one_char (nextc s) c
             else bindX (comment (nextc (nextc s))) (scan str2d point))
          else lex_token str2d point c s)"
  by pat_completeness auto
termination
proof (relation "measure (\<lambda>(str2d, point, s). length (input s))", goal_cases)
  case (2 str2d point s c s1)
  then show ?case using inclinenumber_input [of s s1] by (auto simp: current_def split: list.splits)
next
  case (3 str2d point s c)
  then show ?case by (auto simp: current_def split: list.splits)
next
  case (4 str2d point s c s1)
  then show ?case using comment_input [OF 4(6)] by (auto simp: current_def split: list.splits)
qed simp

declare scan.simps [simp del]

definition llex :: "(string \<Rightarrow> 'r option) \<Rightarrow> char \<Rightarrow> lexstate \<Rightarrow> lex_error + (nat \<times> 'r seminfo) \<times> lexstate" where
  "llex str2d point s = scan str2d point (resetbuffer s)"

end
