(* ===== verification/LuaStrLib.thy ===== *)
theory LuaStrLib
  imports LuaPack
begin

text \<open>
  The functions of the string library that use no patterns (\<open>lstrlib.c\<close> under \<open>lua/lua-5.3.1/src\<close>): lengths,
  substrings, case, repetition, codes, and the quoting of \<open>string.format("%q")\<close>. Arguments have been checked
  and converted (\<open>lauxlib.c\<close>); an optional one is \<open>None\<close> when absent. The C functions that depend on
  the locale (\<open>toupper\<close>, \<open>tolower\<close>) are parameters; \<open>iscntrl\<close> and \<open>isdigit\<close> are those of the C locale.
\<close>

section \<open>Substrings\<close>

definition str_len :: "'a list \<Rightarrow> int" where
  "str_len s = int (length s)"

definition str_sub :: "'a list \<Rightarrow> int \<Rightarrow> int option \<Rightarrow> 'a list" where
  "str_sub s i j =
     (let l = length s;
          start = posrelat i l;
          stop = posrelat (case j of None \<Rightarrow> - 1 | Some k \<Rightarrow> k) l;
          first = (if start < 1 then 1 else start);
          final = (if stop > int l then int l else stop)
      in if first \<le> final then take (nat (final - first + 1)) (drop (nat (first - 1)) s) else [])"

definition str_reverse :: "'a list \<Rightarrow> 'a list" where
  "str_reverse s = map (\<lambda>i. s ! (length s - i - 1)) [0..<length s]"

definition str_lower :: "(u8 \<Rightarrow> u8) \<Rightarrow> u8 list \<Rightarrow> u8 list" where
  "str_lower tolower s = map (\<lambda>i. tolower (s ! i)) [0..<length s]"

definition str_upper :: "(u8 \<Rightarrow> u8) \<Rightarrow> u8 list \<Rightarrow> u8 list" where
  "str_upper toupper s = map (\<lambda>i. toupper (s ! i)) [0..<length s]"

section \<open>Repetition\<close>

fun rep_loop :: "'a list \<Rightarrow> 'a list \<Rightarrow> nat \<Rightarrow> 'a list" where
  "rep_loop s sep n = (if n > 1 then s @ (if length sep > 0 then sep else []) @ rep_loop s sep (n - 1) else s)"

declare rep_loop.simps [simp del]

text \<open>The size of the buffer, and what is written into it.\<close>

definition str_rep :: "'a list \<Rightarrow> int \<Rightarrow> 'a list \<Rightarrow> str_error + nat \<times> 'a list" where
  "str_rep s n sep =
     (let l = of_nat (length s) :: u64; lsep = of_nat (length sep) :: u64
      in if n \<le> 0 then Inr (0, [])
         else if l + lsep < l \<or> l + lsep > word_of_int MAXSIZE div word_of_int n then Inl (StrError ''resulting string too large'')
         else (let totallen = word_of_int n * l + word_of_int (n - 1) * lsep
               in Inr (unat totallen, rep_loop s sep (nat n))))"

section \<open>Codes\<close>

text \<open>\<open>room n\<close>: the stack takes \<open>n\<close> more values.\<close>

definition str_byte :: "(nat \<Rightarrow> bool) \<Rightarrow> u8 list \<Rightarrow> int option \<Rightarrow> int option \<Rightarrow> str_error + int list" where
  "str_byte room s i j =
     (let l = length s;
          posi = posrelat (case i of None \<Rightarrow> 1 | Some k \<Rightarrow> k) l;
          pose = posrelat (case j of None \<Rightarrow> posi | Some k \<Rightarrow> k) l;
          first = (if posi < 1 then 1 else posi);
          final = (if pose > int l then int l else pose)
      in if first > final then Inr []
         else if final - first \<ge> 2 ^ 31 - 1 then Inl (StrError ''string slice too long'')
         else (let n = nat (final - first) + 1
               in if \<not> room n then Inl (StrError ''stack overflow (string slice too long)'')
                  else Inr (map (\<lambda>k. uint (s ! nat (first + int k - 1))) [0..<n])))"

text \<open>The codes are the arguments from number \<open>i\<close> on; an error names the argument.\<close>

fun char_loop :: "nat \<Rightarrow> int list \<Rightarrow> (nat \<times> string) + u8 list" where
  "char_loop i [] = Inr []"
| "char_loop i (c # cs) =
     (if uint (word_of_int c :: u8) \<noteq> c then Inl (i, ''value out of range'')
      else case char_loop (i + 1) cs of Inl e \<Rightarrow> Inl e | Inr p \<Rightarrow> Inr (word_of_int c # p))"

definition str_char :: "int list \<Rightarrow> (nat \<times> string) + u8 list" where
  "str_char cs = char_loop 1 cs"

section \<open>Quoting\<close>

definition c_iscntrl :: "char \<Rightarrow> bool" where
  "c_iscntrl c \<longleftrightarrow> (of_char c :: nat) < 32 \<or> (of_char c :: nat) = 127"

definition c_isdigit :: "char \<Rightarrow> bool" where
  "c_isdigit c \<longleftrightarrow> 48 \<le> (of_char c :: nat) \<and> (of_char c :: nat) \<le> 57"

text \<open>\<open>%03d\<close> of a number below 1000.\<close>

definition three_digits :: "nat \<Rightarrow> string" where
  "three_digits n = [char_of (48 + n div 100), char_of (48 + n div 10 mod 10), char_of (48 + n mod 10)]"

definition quoted_char :: "char \<Rightarrow> bool \<Rightarrow> string" where
  "quoted_char c digit_follows =
     (if c = CHR 0x22 \<or> c = CHR 0x5C \<or> c = CHR 0x0A then [CHR 0x5C, c]
      else if c = CHR 0x00 \<or> c_iscntrl c then
        (if \<not> digit_follows then CHR 0x5C # show_nat (of_char c) else CHR 0x5C # three_digits (of_char c))
      else [c])"

text \<open>The character after the last one is the zero that ends the buffer of a string.\<close>

fun quote_loop :: "string \<Rightarrow> string" where
  "quote_loop [] = []"
| "quote_loop (c # cs) = quoted_char c (case cs of [] \<Rightarrow> c_isdigit (CHR 0x00) | d # _ \<Rightarrow> c_isdigit d) @ quote_loop cs"

definition addquoted :: "string \<Rightarrow> string" where
  "addquoted s = CHR 0x22 # quote_loop s @ [CHR 0x22]"

section \<open>Substrings as positions\<close>

text \<open>The position a Lua argument names: a negative one counts from the end.\<close>

definition position_of :: "int \<Rightarrow> nat \<Rightarrow> int" where
  "position_of i len = (if i \<ge> 0 then i else int len + i + 1)"

lemma posrelat_position:
  assumes "- (2 ^ 63) \<le> i" "i < 2 ^ 63"
  shows "posrelat i len = (if i < - int len then 0 else position_of i len)"
proof (cases "i \<ge> 0")
  case False
  have "0 - word_of_int i = (word_of_int (- i) :: u64)" by (metis diff_0 wi_hom_neg)
  moreover have "unat (word_of_int (- i) :: u64) = nat (- i)"
    using assms False by (simp only: unat_eq_nat_uint uint_word_of_int) simp
  ultimately have "unat (0 - word_of_int i :: u64) = nat (- i)" by (simp only:)
  then show ?thesis using False by (auto simp: posrelat_def position_of_def)
qed (simp add: posrelat_def position_of_def)

lemma slice_nth: "k + m \<le> length s \<Longrightarrow> take m (drop k s) = map ((!) s) [k..<k + m]"
  by (rule nth_equalityI) auto

lemma slice_int:
  assumes "1 \<le> a" "b \<le> int (length s)"
  shows "(if a \<le> b then take (nat (b - a + 1)) (drop (nat (a - 1)) s) else []) = map ((!) s) [nat (a - 1)..<nat b]"
proof (cases "a \<le> b")
  case True
  have "nat (a - 1) + nat (b - a + 1) = nat b" using assms True by auto
  then show ?thesis using assms True slice_nth [of "nat (a - 1)" "nat (b - a + 1)" s] by auto
qed (use assms in auto)

lemma filter_interval: "b \<le> n \<Longrightarrow> filter (\<lambda>k. a \<le> k \<and> k < b) [0..<n] = [a..<b]"
  by (rule sorted_distinct_set_unique) (auto intro: sorted_filter [of id, simplified])

text \<open>
  C0: \<open>string.sub\<close> returns exactly the elements whose position is between the two positions named, whatever
  the arguments: the clamping of the code loses and adds nothing.
\<close>

theorem sub_positions:
  assumes "length s < 2 ^ 63" "- (2 ^ 63) \<le> i" "i < 2 ^ 63" "\<And>k. j = Some k \<Longrightarrow> - (2 ^ 63) \<le> k \<and> k < 2 ^ 63"
  shows "str_sub s i j = map ((!) s) (filter
      (\<lambda>k. position_of i (length s) \<le> int k + 1 \<and>
           int k + 1 \<le> position_of (case j of None \<Rightarrow> - 1 | Some m \<Rightarrow> m) (length s)) [0..<length s])"
proof -
  let ?l = "int (length s)" and ?m = "case j of None \<Rightarrow> - 1 | Some m \<Rightarrow> m"
  have m: "- (2 ^ 63) \<le> ?m" "?m < 2 ^ 63" using assms(4) by (auto split: option.split)
  define first where "first = (if posrelat i (length s) < 1 then 1 else posrelat i (length s))"
  define final where "final = (if posrelat ?m (length s) > ?l then ?l else posrelat ?m (length s))"
  have f1: "first = max 1 (position_of i (length s))" and f2: "max 0 final = max 0 (min ?l (position_of ?m (length s)))"
    by (auto simp: first_def final_def posrelat_position [OF assms(2,3)] posrelat_position [OF m] position_of_def)
  have sub: "str_sub s i j = (if first \<le> final then take (nat (final - first + 1)) (drop (nat (first - 1)) s) else [])"
    by (simp add: str_sub_def Let_def first_def final_def)
  have "map ((!) s) (filter (\<lambda>k. position_of i (length s) \<le> int k + 1 \<and> int k + 1 \<le> position_of ?m (length s)) [0..<length s])
      = map ((!) s) (filter (\<lambda>k. nat (first - 1) \<le> k \<and> k < nat (min ?l (position_of ?m (length s)))) [0..<length s])"
    by (rule arg_cong [of _ _ "map ((!) s)"], rule filter_cong) (auto simp: f1)
  also have "\<dots> = map ((!) s) [nat (first - 1)..<nat (min ?l (position_of ?m (length s)))]" by (subst filter_interval) auto
  also have "\<dots> = map ((!) s) [nat (first - 1)..<nat final]" using f2 by (auto simp: max_def split: if_splits)
  also have "\<dots> = str_sub s i j"
    unfolding sub by (rule slice_int [symmetric]) (auto simp: f1 final_def)
  finally show ?thesis by simp
qed

theorem sub_positions_witness: "str_sub [1::nat, 2, 3, 4] (- 3) (Some 3) = [2, 3]"
proof -
  have "[0..<4] = [0, 1, 2, 3::nat]" by code_simp
  then show ?thesis by (subst sub_positions) (auto simp: position_of_def)
qed

section \<open>Repetition within the buffer\<close>

lemma rep_loop_concat: "0 < n \<Longrightarrow> rep_loop s sep n = concat (replicate (n - 1) (s @ sep)) @ s"
proof (induction n)
  case (Suc n)
  then show ?case by (cases n) (subst rep_loop.simps, simp)+
qed simp

lemma rep_length: "0 < n \<Longrightarrow> length (rep_loop s sep n) = n * length s + (n - 1) * length sep"
  by (cases n) (simp_all add: rep_loop_concat length_concat sum_list_replicate algebra_simps)

text \<open>C37: 
  C0: \<open>string.rep\<close>: the buffer it allocates has exactly the size of what it writes, that is the \<open>n\<close> copies with
  the separator between them, and it refuses exactly the results longer than \<open>MAXSIZE\<close> would allow, \<open>n\<close>
  separators counted; no product or sum wraps.
\<close>

theorem rep_fills_buffer:
  assumes "length s < 2 ^ 63" "length sep < 2 ^ 63" "n < 2 ^ 63"
  shows "str_rep s n sep =
    (if n \<le> 0 then Inr (0, [])
     else if n * int (length s + length sep) > MAXSIZE then Inl (StrError ''resulting string too large'')
     else (let r = concat (replicate (nat n - 1) (s @ sep)) @ s in Inr (length r, r)))"
proof (cases "n \<le> 0")
  case True
  then show ?thesis by (simp add: str_rep_def)
next
  case False
  define N where "N = nat n"
  have N: "0 < N" "N < 2 ^ 63" "n = int N" using False assms(3) by (auto simp: N_def)
  let ?l = "of_nat (length s) :: u64" and ?lsep = "of_nat (length sep) :: u64"
  have u: "unat (?l + ?lsep) = length s + length sep" using assms(1,2) by (simp add: unat_word_ariths unat_of_nat)
  have no_wrap: "\<not> ?l + ?lsep < ?l" using assms(1,2) by (simp add: word_less_nat_alt u unat_of_nat)
  have d: "unat (word_of_int MAXSIZE div word_of_int n :: u64) = (2 ^ 31 - 1) div N"
    using N(2) by (simp add: N(3) MAXSIZE_def unat_div_distrib unat_of_nat)
  have "(2 ^ 31 - 1) div N < length s + length sep \<longleftrightarrow> 2 ^ 31 - 1 < (length s + length sep) * N"
    by (rule div_less_iff_less_mult [OF N(1)])
  also have "\<dots> \<longleftrightarrow> int (2 ^ 31 - 1) < int ((length s + length sep) * N)" by (simp only: of_nat_less_iff)
  also have "\<dots> \<longleftrightarrow> n * int (length s + length sep) > MAXSIZE" by (simp add: N(3) MAXSIZE_def mult.commute)
  finally have cond: "?l + ?lsep > word_of_int MAXSIZE div word_of_int n \<longleftrightarrow> n * int (length s + length sep) > MAXSIZE"
    by (simp only: word_less_nat_alt u d)
  show ?thesis
  proof (cases "n * int (length s + length sep) > MAXSIZE")
    case True
    then show ?thesis using False cond by (simp add: str_rep_def Let_def)
  next
    case fits: False
    let ?t = "N * length s + (N - 1) * length sep"
    have "?t \<le> N * (length s + length sep)" by (simp add: algebra_simps)
    then have "int ?t \<le> n * int (length s + length sep)" unfolding N(3) by (simp only: of_nat_mult [symmetric] of_nat_le_iff)
    then have "int ?t \<le> MAXSIZE" using fits by simp
    then have "int ?t \<le> int (2 ^ 31 - 1)" unfolding MAXSIZE_def by simp
    then have "?t \<le> 2 ^ 31 - 1" by (simp only: of_nat_le_iff)
    then have t: "?t < 2 ^ 64" by (rule le_less_trans) simp
    have "word_of_int n * ?l + word_of_int (n - 1) * ?lsep = (of_nat ?t :: u64)"
      using N by (simp add: of_nat_diff)
    then have "unat (word_of_int n * ?l + word_of_int (n - 1) * ?lsep) = length (rep_loop s sep N)"
      using t by (simp only: rep_length [OF N(1)] unat_of_nat) simp
    moreover have r: "rep_loop s sep N = concat (replicate (N - Suc 0) (s @ sep)) @ s" using rep_loop_concat [OF N(1)] by simp
    ultimately show ?thesis
      using False fits cond no_wrap by (simp add: str_rep_def Let_def N_def [symmetric] r)
  qed
qed

theorem rep_fills_buffer_witness: "str_rep [1::nat, 2] 3 [0] = Inr (8, [1, 2, 0, 1, 2, 0, 1, 2])"
proof -
  have "concat (replicate 2 ([1::nat, 2] @ [0])) @ [1, 2] = [1, 2, 0, 1, 2, 0, 1, 2]" by code_simp
  then show ?thesis by (subst rep_fills_buffer) (simp_all add: MAXSIZE_def)
qed

section \<open>Codes and characters\<close>

lemma char_loop_codes: "char_loop i (map uint s) = Inr s"
  by (induction s arbitrary: i) simp_all

text \<open>
  C0: \<open>string.char\<close> of the codes that \<open>string.byte\<close> returns for a whole string is that string, and a string of
  codes is refused exactly when one is not a byte, naming the first such argument.
\<close>

theorem char_of_bytes:
  assumes "length s < 2 ^ 31" "room (length s)"
  shows "\<exists>codes. str_byte room s (Some 1) (Some (- 1)) = Inr codes \<and> str_char codes = Inr s"
proof -
  have "str_byte room s (Some 1) (Some (- 1)) = Inr (map uint s)"
  proof (cases "s = []")
    case False
    then have l: "int (length s) \<ge> 1" by (cases s) auto
    then have "posrelat (- 1) (length s) = int (length s)" "posrelat 1 (length s) = 1"
      by (simp_all add: posrelat_position position_of_def)
    moreover have "map (\<lambda>k. uint (s ! k)) [0..<length s] = map uint s" by (rule nth_equalityI) auto
    ultimately show ?thesis
      using assms l by (simp only: str_byte_def Let_def option.case) (simp add: nat_diff_distrib del: upt_Suc)
  qed (simp add: str_byte_def posrelat_position position_of_def)
  then show ?thesis by (simp add: str_char_def char_loop_codes)
qed

theorem char_of_bytes_witness: "\<exists>codes. str_byte (\<lambda>n. n < 5) [65, 0, 255] (Some 1) (Some (- 1)) = Inr codes \<and> str_char codes = Inr [65, 0, 255]"
  by (rule char_of_bytes) simp_all

end
