(* ===== verification/LuaLexCorrect.thy ===== *)
theory LuaLexCorrect
  imports LuaLex LuaStrLib "HOL-Library.Sublist"
begin

text \<open>
  What the scanner guarantees: every token consumes input, line numbers count the line breaks passed, and
  what \<open>string.format("%q")\<close> writes is read back as the string it was given.
\<close>

section \<open>Lines\<close>

text \<open>The line breaks of a text: \<open>\r\n\<close> and \<open>\n\r\<close> are one.\<close>

fun newlines :: "string \<Rightarrow> nat" where
  "newlines [] = 0"
| "newlines [c] = (if newline_char c then 1 else 0)"
| "newlines (c # d # z) =
     (if newline_char c then (if newline_char d \<and> d \<noteq> c then 1 + newlines z else 1 + newlines (d # z)) else newlines (d # z))"

text \<open>From \<open>s\<close> the scanner has moved forward to the input \<open>z\<close>, on line \<open>n\<close>.\<close>

definition at_line :: "lexstate \<Rightarrow> string \<Rightarrow> nat \<Rightarrow> bool" where
  "at_line s z n \<longleftrightarrow> suffix z (input s) \<and> n + newlines z = linenumber s + newlines (input s)"

definition tracks :: "lexstate \<Rightarrow> ('a \<Rightarrow> lexstate) \<Rightarrow> lex_error + 'a \<Rightarrow> bool" where
  "tracks s st r = (case r of Inl (LexError _ _ n) \<Rightarrow> \<exists>z. at_line s z n | Inr x \<Rightarrow> at_line s (input (st x)) (linenumber (st x)))"

abbreviation advances :: "lexstate \<Rightarrow> lexstate \<Rightarrow> bool" where
  "advances s s1 \<equiv> at_line s (input s1) (linenumber s1)"

lemma linenumber_simps [simp]:
  "linenumber (nextc s) = linenumber s" "linenumber (save c s) = linenumber s" "linenumber (save_and_next s) = linenumber s"
  "linenumber (resetbuffer s) = linenumber s" "linenumber (buffremove n s) = linenumber s"
  "linenumber (buffreplace a b s) = linenumber s" "linenumber (save_all cs s) = linenumber s" "input (save_all cs s) = input s"
  by (simp_all add: nextc_def save_def save_and_next_def resetbuffer_def buffremove_def buffreplace_def save_all_def split: option.split)

lemma newlines_plain: "\<not> newline_char c \<Longrightarrow> newlines (c # z) = newlines z"
  by (cases z) simp_all

lemma advances_refl: "input s1 = input s \<Longrightarrow> linenumber s1 = linenumber s \<Longrightarrow> advances s s1"
  by (simp add: at_line_def)

lemma at_line_trans: "advances s s1 \<Longrightarrow> at_line s1 z n \<Longrightarrow> at_line s z n"
  using suffix_order.order_trans by (auto simp: at_line_def)

lemma advances_tl:
  assumes "advances s s1" "\<not> currIsNewline s1"
  shows "at_line s (tl (input s1)) (linenumber s1)"
proof -
  have "at_line s1 (tl (input s1)) (linenumber s1)"
    using assms(2) by (cases "input s1") (auto simp: at_line_def currIsNewline_def cur_is_def current_def newlines_plain suffix_ConsI)
  then show ?thesis by (rule at_line_trans [OF assms(1)])
qed

lemma tracks_error: "advances s s1 \<Longrightarrow> tracks s st (lexerror s1 msg tk)"
  by (auto simp: tracks_def lexerror_def)

lemma tracks_Inr: "advances s (st x) \<Longrightarrow> tracks s st (Inr x)"
  by (simp add: tracks_def)

lemma tracks_bind:
  assumes "tracks s st m" "\<And>x. m = Inr x \<Longrightarrow> advances s (st x) \<Longrightarrow> tracks s st' (f x)"
  shows "tracks s st' (bindX m f)"
  using assms by (cases m) (auto simp: tracks_def split: lex_error.splits)

lemma tracks_trans: "advances s s1 \<Longrightarrow> tracks s1 st m \<Longrightarrow> tracks s st m"
  by (auto simp: tracks_def split: sum.splits lex_error.splits intro: at_line_trans)

lemma cur_plain: "cur_is s P \<Longrightarrow> (\<And>c. P c \<Longrightarrow> \<not> newline_char c) \<Longrightarrow> \<not> currIsNewline s"
  by (auto simp: currIsNewline_def cur_is_def split: option.splits)

lemma current_plain: "current s = Some c \<Longrightarrow> \<not> newline_char c \<Longrightarrow> \<not> currIsNewline s"
  by (simp add: currIsNewline_def cur_is_def)

lemma inclinenumber_tracks: 
  assumes "currIsNewline s0" "advances s s0"
  shows "tracks s (\<lambda>x. x) (inclinenumber s0)"
proof -
  from assms(1) obtain c z where i: "input s0 = c # z" "newline_char c"
    by (auto simp: currIsNewline_def cur_is_def current_def split: list.splits)
  have "tracks s0 (\<lambda>x. x) (inclinenumber s0)"
    using i by (cases z) (auto simp: inclinenumber_def Let_def lexerror_def tracks_def at_line_def currIsNewline_def cur_is_def current_def suffix_Cons)
  then show ?thesis by (rule tracks_trans [OF assms(2)])
qed

lemma check_next1_tracks: "check_next1 c s1 = (b, s2) \<Longrightarrow> \<not> newline_char c \<Longrightarrow> advances s s1 \<Longrightarrow> advances s s2"
  by (auto simp: check_next1_def advances_tl current_plain split: if_splits)

lemma check_next2_tracks:
  "check_next2 pair s1 = (b, s2) \<Longrightarrow> \<not> newline_char (fst pair) \<Longrightarrow> \<not> newline_char (snd pair) \<Longrightarrow> advances s s1 \<Longrightarrow> advances s s2"
  by (auto simp: check_next2_def advances_tl current_plain split: if_splits)

lemma xdigit_plain: "lisxdigit c \<Longrightarrow> \<not> newline_char c"
  by (auto simp: newline_char_def lisxdigit_def testprop_def luai_ctype_def nth_append)

lemma digit_plain: "lisdigit c \<Longrightarrow> \<not> newline_char c"
  by (auto simp: newline_char_def ctype_digit)

lemma alnum_plain: "lislalnum c \<Longrightarrow> \<not> newline_char c"
  by (auto simp: newline_char_def lislalnum_def testprop_def luai_ctype_def nth_append)

lemma alpha_plain: "lislalpha c \<Longrightarrow> \<not> newline_char c"
  by (auto simp: newline_char_def lislalpha_def testprop_def luai_ctype_def nth_append)

lemma numeral_loop_tracks:
  "\<not> newline_char (fst expo) \<Longrightarrow> \<not> newline_char (snd expo) \<Longrightarrow> advances s0 s \<Longrightarrow> advances s0 (numeral_loop expo s)"
proof (induction expo s rule: numeral_loop.induct)
  case (1 expo s)
  define s1 where "s1 = (case check_next2 expo s of (b, s0) \<Rightarrow> if b then snd (check_next2 (CHR ''-'', CHR ''+'') s0) else s0)"
  obtain b s2 where c: "check_next2 expo s = (b, s2)" by (rule prod.exhaust)
  obtain b3 s3 where c3: "check_next2 (CHR ''-'', CHR ''+'') s2 = (b3, s3)" by (rule prod.exhaust)
  have a2: "advances s0 s2" by (rule check_next2_tracks [OF c "1.prems"])
  have a3: "advances s0 s3" by (rule check_next2_tracks [OF c3 _ _ a2]) (simp_all add: newline_char_def)
  have a1: "advances s0 s1" using a2 a3 by (simp add: s1_def c c3)
  consider (hex) "cur_is s1 lisxdigit" | (dot) "\<not> cur_is s1 lisxdigit" "cur_is s1 (\<lambda>c. c = CHR ''.'')"
    | (stop) "\<not> cur_is s1 lisxdigit" "\<not> cur_is s1 (\<lambda>c. c = CHR ''.'')" by blast
  then show ?case
  proof cases
    case hex
    have "\<not> currIsNewline s1" by (rule cur_plain [OF hex xdigit_plain])
    then have "advances s0 (save_and_next s1)" by (simp add: advances_tl [OF a1])
    from "1.IH"(1) [OF s1_def hex "1.prems"(1,2) this] show ?thesis
      by (simp add: numeral_loop.simps [of expo s] s1_def [symmetric] hex)
  next
    case dot
    have "\<not> currIsNewline s1" by (rule cur_plain [OF dot(2)]) (simp add: newline_char_def)
    then have "advances s0 (save_and_next s1)" by (simp add: advances_tl [OF a1])
    from "1.IH"(2) [OF s1_def dot "1.prems"(1,2) this] show ?thesis
      by (simp add: numeral_loop.simps [of expo s] s1_def [symmetric] dot)
  next
    case stop
    then show ?thesis using a1 by (simp add: numeral_loop.simps [of expo s] s1_def [symmetric])
  qed
qed

lemma trydecpoint_tracks: "advances s s1 \<Longrightarrow> tracks s snd (trydecpoint str2d point s1)"
  by (auto simp: trydecpoint_def Let_def tracks_def lexerror_def split: option.split)

lemma read_numeral_tracks:
  assumes "\<not> currIsNewline s1" "advances s s1"
  shows "tracks s snd (read_numeral str2d point s1)"
proof -
  let ?s1 = "save_and_next s1"
  obtain hex s2 where h: "(if current s1 = Some (CHR ''0'') then check_next2 (CHR ''x'', CHR ''X'') ?s1 else (False, ?s1)) = (hex, s2)"
    by (rule prod.exhaust)
  have a1: "advances s ?s1" using assms by (simp add: advances_tl)
  then have a2: "advances s s2"
    using h by (auto simp: newline_char_def split: if_splits dest!: check_next2_tracks [where s = s])
  have a3: "advances s (numeral_loop (if hex then (CHR ''P'', CHR ''p'') else (CHR ''E'', CHR ''e'')) s2)"
    by (rule numeral_loop_tracks [OF _ _ a2]) (simp_all add: newline_char_def)
  show ?thesis
    unfolding read_numeral_def Let_def h prod.case
    using a3 by (auto simp: tracks_def [where r = "Inr _"] split: option.split intro!: tracks_bind [OF trydecpoint_tracks])
qed

lemma count_equals_tracks: "count_equals s1 n = (k, s2) \<Longrightarrow> advances s s1 \<Longrightarrow> advances s s2"
proof (induction s1 n rule: count_equals.induct)
  case (1 s1 n)
  show ?case
  proof (cases "current s1 = Some (CHR ''='')")
    case True
    then have "advances s (save_and_next s1)"
      using advances_tl [OF "1.prems"(2)] current_plain [OF True] by (simp add: newline_char_def)
    then show ?thesis using "1.IH" [OF True] "1.prems"(1) True by (simp add: count_equals.simps [of s1 n])
  next
    case False
    then show ?thesis using "1.prems" by (simp add: count_equals.simps [of s1 n])
  qed
qed

lemma skip_sep_tracks:
  assumes "skip_sep s1 = (k, s2)" "\<not> currIsNewline s1" "advances s s1"
  shows "advances s s2"
proof -
  have "advances s (save_and_next s1)" using assms(2,3) by (simp add: advances_tl)
  then show ?thesis using assms(1) by (auto simp: skip_sep_def split: prod.splits dest: count_equals_tracks)
qed

lemma skip_sep_current: "skip_sep s = (k, s1) \<Longrightarrow> 0 \<le> k \<Longrightarrow> current s1 = current s"
  by (auto simp: skip_sep_def split: prod.splits if_splits)

lemma long_loop_tracks: "0 \<le> sep \<Longrightarrow> advances s s1 \<Longrightarrow> tracks s (\<lambda>x. x) (long_loop str sep line s1)"
proof (induction str sep line s1 rule: long_loop.induct)
  case (1 str sep line s1)
  show ?case
  proof (cases "current s1")
    case None
    then show ?thesis by (simp only: long_loop.simps [of str sep line s1] option.case tracks_error [OF "1.prems"(2)])
  next
    case (Some c)
    consider (bracket) "c = CHR '']''" | (line) "c \<noteq> CHR '']''" "newline_char c" | (other) "c \<noteq> CHR '']''" "\<not> newline_char c" by blast
    then show ?thesis
    proof cases
      case bracket
      obtain n s2 where sk: "skip_sep s1 = (n, s2)" by (rule prod.exhaust)
      have a: "advances s s2"
        by (rule skip_sep_tracks [OF sk current_plain [OF Some] "1.prems"(2)]) (simp add: bracket newline_char_def)
      show ?thesis
      proof (cases "n = sep")
        case True
        then have "current s2 = Some c" using skip_sep_current [OF sk] "1.prems"(1) Some by simp
        then have "advances s (save_and_next s2)"
          using advances_tl [OF a current_plain] bracket by (simp add: newline_char_def)
        then show ?thesis using Some bracket sk True by (simp add: long_loop.simps [of str sep line s1] tracks_Inr)
      next
        case False
        then show ?thesis
          using Some bracket sk "1.IH"(1) [OF Some bracket sk [symmetric] False "1.prems"(1) a]
          by (simp add: long_loop.simps [of str sep line s1])
      qed
    next
      case line
      have "tracks s (\<lambda>x. x) (inclinenumber (save (CHR 0x0A) s1))"
        using "1.prems"(2) line Some by (intro inclinenumber_tracks) (simp_all add: currIsNewline_def cur_is_def current_def)
      then show ?thesis
        using Some line "1.IH"(2) [OF Some line _ "1.prems"(1)]
        by (auto simp: long_loop.simps [of str sep line s1] intro!: tracks_bind)
    next
      case other
      have "advances s (if str then save_and_next s1 else nextc s1)"
        using advances_tl [OF "1.prems"(2) current_plain [OF Some other(2)]] by simp
      then show ?thesis using "1.IH"(3) [OF Some other "1.prems"(1)] Some other by (simp add: long_loop.simps [of str sep line s1])
    qed
  qed
qed

lemma read_long_tracks:
  assumes "0 \<le> sep" "\<not> currIsNewline s1" "advances s s1"
  shows "tracks s snd (read_long_string str sep s1)"
proof -
  have a: "advances s (save_and_next s1)" using assms(2,3) by (simp add: advances_tl)
  have "tracks s (\<lambda>x. x) (if currIsNewline (save_and_next s1) then inclinenumber (save_and_next s1) else Inr (save_and_next s1))"
    using a by (auto intro: inclinenumber_tracks tracks_Inr)
  then show ?thesis
    unfolding read_long_string_def Let_def
    by (rule tracks_bind, intro tracks_bind [OF long_loop_tracks [OF assms(1)]] tracks_Inr) simp_all
qed

lemma esccheck_tracks: "advances s s1 \<Longrightarrow> tracks s (\<lambda>_. s1) (esccheck s1 c msg)"
  by (auto simp: esccheck_def tracks_def lexerror_def)

lemma esccheck_Inr: "esccheck s c msg = Inr u \<longleftrightarrow> c"
  by (simp add: esccheck_def lexerror_def)

lemma gethexa_tracks:
  assumes "\<not> currIsNewline s1" "advances s s1"
  shows "tracks s snd (gethexa s1)"
  unfolding gethexa_def Let_def
  by (rule tracks_bind, rule esccheck_tracks) (use assms in \<open>simp_all add: advances_tl tracks_Inr\<close>)

lemma gethexa_plain: "gethexa s1 = Inr (r, s2) \<Longrightarrow> \<not> currIsNewline s2"
  by (auto simp: gethexa_def Let_def bindX_Inr esccheck_Inr dest: cur_plain [OF _ xdigit_plain])

lemma readhexaesc_tracks:
  assumes "\<not> currIsNewline s1" "advances s s1"
  shows "tracks s snd (readhexaesc s1)"
  unfolding readhexaesc_def
proof (rule tracks_bind [OF gethexa_tracks [OF assms]], clarify)
  fix r s2
  assume r: "gethexa s1 = Inr (r, s2)" "advances s (snd (r, s2))"
  show "tracks s snd (bindX (gethexa s2) (\<lambda>(h, s3). Inr (r * 16 + h, buffremove 2 s3)))"
    using r by (intro tracks_bind [OF gethexa_tracks]) (auto simp: gethexa_plain intro: tracks_Inr)
qed

lemma readhexaesc_plain: "readhexaesc s1 = Inr (r, s2) \<Longrightarrow> \<not> currIsNewline s2"
  by (auto simp: readhexaesc_def bindX_Inr currIsNewline_def cur_is_def current_def dest!: gethexa_plain)

lemma utf8_digits_tracks:
  "\<not> currIsNewline s1 \<Longrightarrow> advances s s1 \<Longrightarrow> tracks s (\<lambda>x. snd (snd x)) (utf8_digits s1 r i)"
proof (induction s1 r i rule: utf8_digits.induct)
  case (1 s1 r i)
  let ?s1 = "save_and_next s1"
  have a: "advances s ?s1" using "1.prems" by (simp add: advances_tl)
  show ?case
  proof (cases "cur_is ?s1 lisxdigit")
    case True
    have "tracks s (\<lambda>x. snd (snd x)) (bindX (esccheck ?s1 (r * 16 + hexavalue ?s1 \<le> 0x10FFFF) ''UTF-8 value too large'')
        (\<lambda>_. utf8_digits ?s1 (r * 16 + hexavalue ?s1) (i + 1)))"
      by (rule tracks_bind [OF esccheck_tracks [OF a]])
        (rule "1.IH" [OF refl True refl _ cur_plain [OF True xdigit_plain] a])
    then show ?thesis using True by (simp only: utf8_digits.simps [of s1 r i] Let_def if_True)
  next
    case False
    then show ?thesis using a by (simp only: utf8_digits.simps [of s1 r i] Let_def if_False) (simp add: tracks_Inr)
  qed
qed

lemma readutf8esc_tracks:
  assumes "\<not> currIsNewline s1" "advances s s1"
  shows "tracks s snd (readutf8esc s1)"
proof -
  let ?s1 = "save_and_next s1"
  have a: "advances s ?s1" using assms by (simp add: advances_tl)
  show ?thesis
    unfolding readutf8esc_def Let_def
  proof (rule tracks_bind [OF esccheck_tracks [OF a]])
    fix u
    assume "esccheck ?s1 (cur_is ?s1 (\<lambda>c. c = CHR ''{'')) ''missing {'' = Inr u"
    then have "cur_is ?s1 (\<lambda>c. c = CHR ''{'')" by (simp add: esccheck_Inr)
    then have p1: "\<not> currIsNewline ?s1" by (rule cur_plain) (simp add: newline_char_def)
    show "tracks s snd (bindX (gethexa ?s1) (\<lambda>(r, s2). bindX (utf8_digits s2 r 4) (\<lambda>(r1, i, s3).
        bindX (esccheck s3 (cur_is s3 (\<lambda>c. c = CHR ''}'')) ''missing }'') (\<lambda>_. Inr (r1, buffremove i (nextc s3))))))"
    proof (rule tracks_bind [OF gethexa_tracks [OF p1 a]], clarify)
      fix r s2
      assume g: "gethexa ?s1 = Inr (r, s2)" and a2: "advances s (snd (r, s2))"
      show "tracks s snd (bindX (utf8_digits s2 r 4) (\<lambda>(r1, i, s3).
          bindX (esccheck s3 (cur_is s3 (\<lambda>c. c = CHR ''}'')) ''missing }'') (\<lambda>_. Inr (r1, buffremove i (nextc s3)))))"
      proof (rule tracks_bind [OF utf8_digits_tracks [OF gethexa_plain [OF g] a2 [unfolded snd_conv]]], clarify)
  fix r1 :: int and i :: nat and s3
        assume a3: "advances s (snd (snd (r1, i, s3)))"
        have "advances s (nextc s3)" if "cur_is s3 (\<lambda>c. c = CHR ''}'')"
          using a3 cur_plain [OF that] by (simp add: advances_tl newline_char_def)
        then show "tracks s snd (bindX (esccheck s3 (cur_is s3 (\<lambda>c. c = CHR ''}'')) ''missing }'') (\<lambda>_. Inr (r1, buffremove i (nextc s3))))"
          using a3 by (intro tracks_bind [OF esccheck_tracks]) (auto simp: esccheck_Inr intro: tracks_Inr)
      qed
    qed
  qed
qed

lemma utf8esc_tracks: "\<not> currIsNewline s1 \<Longrightarrow> advances s s1 \<Longrightarrow> tracks s (\<lambda>x. x) (utf8esc s1)"
  unfolding utf8esc_def by (rule tracks_bind [OF readutf8esc_tracks]) (auto intro: tracks_Inr)

lemma dec_loop_tracks: "dec_loop k s1 r = (r1, i, s2) \<Longrightarrow> advances s s1 \<Longrightarrow> advances s s2"
proof (induction k s1 r arbitrary: i rule: dec_loop.induct)
  case (2 k s1 r)
  show ?case
  proof (cases "cur_is s1 lisdigit")
    case True
    have "advances s (save_and_next s1)" using "2.prems"(2) cur_plain [OF True digit_plain] by (simp add: advances_tl)
    then show ?thesis using "2.IH" [OF True] "2.prems"(1) True by (auto split: prod.splits)
  qed (use 2 in simp)
qed simp

lemma readdecesc_tracks: "advances s s1 \<Longrightarrow> tracks s snd (readdecesc s1)"
  by (auto simp: readdecesc_def split: prod.split intro!: tracks_bind [OF esccheck_tracks] tracks_Inr dest: dec_loop_tracks)

lemma zap_loop_tracks: "advances s s1 \<Longrightarrow> tracks s (\<lambda>x. x) (zap_loop s1)"
proof (induction s1 rule: zap_loop.induct)
  case (1 s1)
  show ?case
  proof (cases "cur_is s1 lisspace")
    case space: True
    show ?thesis
    proof (cases "currIsNewline s1")
      case True
      have "tracks s (\<lambda>x. x) (bindX (inclinenumber s1) zap_loop)"
        by (rule tracks_bind [OF inclinenumber_tracks [OF True "1.prems"]]) (rule "1.IH"(1) [OF space True])
      then show ?thesis using space True by (simp add: zap_loop.simps [of s1])
    next
      case False
      then show ?thesis using space "1.IH"(2) [OF space False] advances_tl [OF "1.prems" False] by (simp add: zap_loop.simps [of s1])
    qed
  next
    case False
    then show ?thesis using "1.prems" by (simp add: zap_loop.simps [of s1] tracks_Inr)
  qed
qed

lemma if_tracks: "(b \<Longrightarrow> tracks s st x) \<Longrightarrow> (\<not> b \<Longrightarrow> tracks s st y) \<Longrightarrow> tracks s st (if b then x else y)"
  by simp

lemma read_save_advances: "advances s s1 \<Longrightarrow> \<not> currIsNewline s1 \<Longrightarrow> advances s (read_save c s1)"
  by (simp add: read_save_def advances_tl)

lemma only_save_advances: "advances s s1 \<Longrightarrow> advances s (only_save c s1)"
  by (simp add: only_save_def)

lemma escape_tracks:
  assumes a: "advances s s1"
  shows "tracks s (\<lambda>x. x) (escape s1)"
proof (cases "current s1")
  case None
  then show ?thesis using a by (simp add: escape_def tracks_Inr)
next
  case (Some c)
  have p: "\<not> currIsNewline s1" if "\<not> newline_char c" using current_plain [OF Some that] .
  have l: "currIsNewline s1" if "newline_char c" using Some that by (simp add: currIsNewline_def cur_is_def)
  have pu: "\<not> currIsNewline (buffremove 1 s1)" if "\<not> newline_char c" using p [OF that] by (simp add: currIsNewline_def cur_is_def current_def)
  show ?thesis
    unfolding escape_def Some option.case
  proof (intro if_tracks, goal_cases)
    case 8
    then have "\<not> newline_char c" by (simp add: newline_char_def)
    then show ?case
      using a p by (intro tracks_bind [OF readhexaesc_tracks]) (auto intro!: tracks_Inr read_save_advances dest: readhexaesc_plain)
  next
    case 9
    then have "\<not> newline_char c" by (simp add: newline_char_def)
    then show ?case using a p by (intro utf8esc_tracks)
  next
    case 10
    then show ?case
      by (intro tracks_bind [OF inclinenumber_tracks [OF l a]]) (simp_all add: tracks_Inr only_save_advances)
  next
    case 12
    then have "\<not> currIsNewline s1" by (intro p)
    then have "advances s (nextc (buffremove 1 s1))" using a by (simp add: advances_tl)
    then show ?case by (rule zap_loop_tracks)
  next
    case 13
    show ?case
      by (intro tracks_bind [OF esccheck_tracks [OF a]] tracks_bind [OF readdecesc_tracks])
        (auto intro!: tracks_Inr only_save_advances)
  qed ((rule tracks_Inr, rule read_save_advances [OF a], rule p, simp add: newline_char_def)+)
qed

lemma string_loop_tracks: "\<not> newline_char del \<Longrightarrow> advances s s1 \<Longrightarrow> tracks s (\<lambda>x. x) (string_loop del s1)"
proof (induction del s1 rule: string_loop.induct)
  case (1 del s1)
  note unfold = string_loop.simps [of del s1]
  show ?case
  proof (cases "current s1")
    case None
    then show ?thesis by (simp only: unfold option.case tracks_error [OF "1.prems"(2)] option.distinct if_False)
  next
    case (Some c)
    consider (closed) "current s1 = Some del" | (newline) "current s1 \<noteq> Some del" "newline_char c"
      | (backslash) "current s1 \<noteq> Some del" "\<not> newline_char c" "c = CHR 0x5C"
      | (plain) "current s1 \<noteq> Some del" "\<not> newline_char c" "c \<noteq> CHR 0x5C" by blast
    then show ?thesis
    proof cases
      case closed
      then show ?thesis using "1.prems" by (simp add: unfold tracks_Inr)
    next
      case newline
      then have "string_loop del s1 = lexerror s1 ''unfinished string'' TK_STRING" using Some by (simp add: unfold)
      then show ?thesis by (simp only: tracks_error [OF "1.prems"(2)])
    next
      case backslash
      have "advances s (save_and_next s1)" using advances_tl [OF "1.prems"(2) current_plain [OF Some backslash(2)]] by simp
      then have "tracks s (\<lambda>x. x) (bindX (escape (save_and_next s1)) (string_loop del))"
        by (rule tracks_bind [OF escape_tracks]) (rule "1.IH"(1) [OF backslash(1) Some backslash(2,3) _ "1.prems"(1)])
      then show ?thesis using Some backslash by (simp add: unfold)
    next
      case plain
      have "advances s (save_and_next s1)" using advances_tl [OF "1.prems"(2) current_plain [OF Some plain(2)]] by simp
      from "1.IH"(2) [OF plain(1) Some plain(2,3) "1.prems"(1) this] show ?thesis using Some plain by (simp add: unfold)
    qed
  qed
qed

lemma string_loop_closes: "string_loop del s1 = Inr s2 \<Longrightarrow> current s2 = Some del"
proof (induction del s1 rule: string_loop.induct)
  case (1 del s1)
  note e = "1.prems" [unfolded string_loop.simps [of del s1]]
  show ?case
  proof (cases "current s1")
    case None
    then show ?thesis using e by (simp add: lexerror_def)
  next
    case (Some c)
    then show ?thesis
      using e "1.IH"(1) [OF _ Some] "1.IH"(2) [OF _ Some] by (auto simp: bindX_Inr lexerror_def split: if_splits)
  qed
qed

lemma read_string_tracks:
  assumes "current s1 = Some del" "\<not> newline_char del" "advances s s1"
  shows "tracks s snd (read_string del s1)"
proof -
  have "advances s (save_and_next s1)" using advances_tl [OF assms(3) current_plain [OF assms(1,2)]] by simp
  from string_loop_tracks [OF assms(2) this] show ?thesis
    unfolding read_string_def Let_def
    by (rule tracks_bind) (auto intro!: tracks_Inr advances_tl dest!: string_loop_closes dest: current_plain [OF _ assms(2)])
qed

lemma skip_line_tracks: "advances s s1 \<Longrightarrow> advances s (skip_line s1)"
proof (induction s1 rule: skip_line.induct)
  case (1 s1)
  show ?case
  proof (cases "\<not> currIsNewline s1 \<and> current s1 \<noteq> None")
    case True
    then have "advances s (nextc s1)" using advances_tl [OF "1.prems"] by simp
    from "1.IH" [OF True this] show ?thesis using True by (simp add: skip_line.simps [of s1])
  next
    case False
    then show ?thesis using "1.prems" by (simp only: skip_line.simps [of s1] if_False)
  qed
qed

lemma comment_tracks:
  assumes "advances s s1"
  shows "tracks s (\<lambda>x. x) (comment s1)"
proof (cases "current s1 = Some (CHR ''['')")
  case True
  obtain sep s2 where sk: "skip_sep s1 = (sep, s2)" by (rule prod.exhaust)
  have "\<not> currIsNewline s1" by (rule current_plain [OF True]) (simp add: newline_char_def)
  from skip_sep_tracks [OF sk this assms] have a: "advances s (resetbuffer s2)" by simp
  show ?thesis
  proof (cases "sep \<ge> 0")
    case sep: True
    have "\<not> currIsNewline (resetbuffer s2)"
      using skip_sep_current [OF sk sep] True by (simp add: currIsNewline_def cur_is_def current_def newline_char_def split: list.splits)
    from read_long_tracks [OF sep this a] show ?thesis
      using True sk sep by (auto simp: comment_def intro!: tracks_bind tracks_Inr)
  next
    case False
    then show ?thesis using True sk skip_line_tracks [OF a] by (simp add: comment_def tracks_Inr)
  qed
next
  case False
  then show ?thesis using skip_line_tracks [OF assms] by (simp add: comment_def tracks_Inr)
qed

lemma name_loop_tracks: "\<not> currIsNewline s1 \<Longrightarrow> advances s s1 \<Longrightarrow> advances s (name_loop s1)"
proof (induction s1 rule: name_loop.induct)
  case (1 s1)
  have a: "advances s (save_and_next s1)" using advances_tl [OF "1.prems"(2,1)] by simp
  show ?case
  proof (cases "cur_is (save_and_next s1) lislalnum")
    case True
    from "1.IH" [OF refl True cur_plain [OF True alnum_plain] a] show ?thesis
      using True by (simp add: name_loop.simps [of s1])
  next
    case False
    then show ?thesis using a by (simp add: name_loop.simps [of s1])
  qed
qed

section \<open>The tokens\<close>

lemma bracket_token_tracks:
  assumes "current s1 = Some (CHR ''['')" "advances s s1"
  shows "tracks s snd (bracket_token s1 :: lex_error + (nat \<times> 'r seminfo) \<times> lexstate)"
proof -
  obtain sep s2 where sk: "skip_sep s1 = (sep, s2)" by (rule prod.exhaust)
  have "\<not> currIsNewline s1" by (rule current_plain [OF assms(1)]) (simp add: newline_char_def)
  from skip_sep_tracks [OF sk this assms(2)] have a: "advances s s2" .
  show ?thesis
  proof (cases "sep \<ge> 0")
    case True
    have "\<not> currIsNewline s2"
      using skip_sep_current [OF sk True] assms(1) by (simp add: currIsNewline_def cur_is_def newline_char_def)
    from read_long_tracks [OF True this a] show ?thesis
      using True sk by (auto simp: bracket_token_def intro!: tracks_bind tracks_Inr)
  next
    case False
    then show ?thesis using sk a by (auto simp: bracket_token_def one_char_def intro: tracks_Inr tracks_error [OF a])
  qed
qed

lemma pair_token_tracks:
  assumes "\<not> currIsNewline s1" "advances s s1" "\<forall>(d, tk) \<in> set options. \<not> newline_char d"
  shows "tracks s snd (pair_token s1 c options)"
proof -
  have a: "advances s (nextc s1)" using advances_tl [OF assms(2,1)] by simp
  show ?thesis
  proof (cases "find (\<lambda>(d, tk). current (nextc s1) = Some d) options")
    case None
    then show ?thesis using a by (simp add: pair_token_def one_char_def tracks_Inr)
  next
    case (Some x)
    obtain d tk where x: "x = (d, tk)" by (rule prod.exhaust)
    then have d: "(d, tk) \<in> set options" "current (nextc s1) = Some d"
      using Some unfolding find_Some_iff by (auto simp: set_conv_nth)
    have "advances s (nextc (nextc s1))"
      using advances_tl [OF a current_plain [OF d(2)]] assms(3) d(1) by auto
    then show ?thesis using Some x d(2) by (simp add: pair_token_def token_def check_next1_def tracks_Inr)
  qed
qed

lemma dot_token_tracks:
  assumes "\<not> currIsNewline s1" "advances s s1"
  shows "tracks s snd (dot_token str2d point s1)"
proof -
  obtain two s2 where c2: "check_next1 (CHR ''.'') (save_and_next s1) = (two, s2)" by (rule prod.exhaust)
  obtain three s3 where c3: "check_next1 (CHR ''.'') s2 = (three, s3)" by (rule prod.exhaust)
  have "advances s (save_and_next s1)" using advances_tl [OF assms(2,1)] by simp
  from check_next1_tracks [OF c2 _ this] have a2: "advances s s2" by (simp add: newline_char_def)
  from check_next1_tracks [OF c3 _ this] have a3: "advances s s3" by (simp add: newline_char_def)
  show ?thesis
  proof (cases "\<not> two \<and> cur_is s2 lisdigit")
    case True
    then show ?thesis
      using read_numeral_tracks [OF cur_plain [OF _ digit_plain, of s2 lisdigit] a2] by (simp add: dot_token_def c2)
  next
    case False
    then show ?thesis using a2 a3 by (auto simp: dot_token_def c2 c3 one_char_def token_def tracks_Inr)
  qed
qed

lemma read_name_tracks: "\<not> currIsNewline s1 \<Longrightarrow> advances s s1 \<Longrightarrow> tracks s snd (read_name s1)"
  using name_loop_tracks [of s1 s] by (simp add: read_name_def Let_def tracks_Inr split: option.split)

lemma lex_token_tracks:
  assumes "current s1 = Some c" "\<not> newline_char c" "advances s s1"
  shows "tracks s snd (lex_token str2d point c s1)"
proof -
  have p: "\<not> currIsNewline s1" using current_plain [OF assms(1,2)] .
  have a: "advances s (nextc s1)" using advances_tl [OF assms(3) p] by simp
  note q = pair_token_tracks [OF p assms(3)]
  show ?thesis
    unfolding lex_token_def
  proof (intro if_tracks, goal_cases)
    case 1 then show ?case using bracket_token_tracks assms(1,3) by simp
  next
    case 8
    show ?case by (intro tracks_bind [OF read_string_tracks [OF assms]]) (auto intro: tracks_Inr)
  next
    case 9 show ?case by (rule dot_token_tracks [OF p assms(3)])
  next
    case 10 show ?case by (rule read_numeral_tracks [OF p assms(3)])
  next
    case 11 show ?case by (rule read_name_tracks [OF p assms(3)])
  next
    case 12 show ?case using a by (simp add: one_char_def tracks_Inr)
  qed (rule q, simp add: newline_char_def)+
qed

lemma scan_tracks: "advances s s1 \<Longrightarrow> tracks s snd (scan str2d point s1)"
proof (induction str2d point s1 rule: scan.induct)
  case (1 str2d point s1)
  note unfold = scan.simps [of str2d point s1]
  show ?case
  proof (cases "current s1")
    case None
    then show ?thesis using "1.prems" by (simp add: unfold token_def tracks_Inr)
  next
    case (Some c)
    show ?thesis
    proof (cases "newline_char c")
      case True
      then have "currIsNewline s1" using Some by (simp add: currIsNewline_def cur_is_def)
      from inclinenumber_tracks [OF this "1.prems"] show ?thesis
        using Some True "1.IH"(1) [OF Some True] by (auto simp: unfold intro!: tracks_bind)
    next
      case nl: False
      have a: "advances s (nextc s1)" using advances_tl [OF "1.prems" current_plain [OF Some nl]] by simp
      show ?thesis
      proof (cases "blank_char c")
        case True
        then show ?thesis using "1.IH"(2) [OF Some nl True a] Some nl by (simp add: unfold)
      next
        case bl: False
        show ?thesis
        proof (cases "c = CHR ''-'' \<and> current (nextc s1) = Some (CHR ''-'')")
          case True
          have "advances s (nextc (nextc s1))"
            using advances_tl [OF a current_plain [of "nextc s1" "CHR ''-''"]] True by (simp add: newline_char_def)
          from comment_tracks [OF this] show ?thesis
            using Some nl bl True "1.IH"(3) [OF Some nl bl] by (auto simp: unfold intro!: tracks_bind)
        next
          case False
          then show ?thesis
            using Some nl bl a lex_token_tracks [OF Some nl "1.prems"] by (auto simp: unfold one_char_def tracks_Inr)
        qed
      qed
    qed
  qed
qed

section \<open>Progress\<close>

lemma numeral_loop_shorter: "length (input (numeral_loop expo s)) \<le> length (input s)"
proof (induction expo s rule: numeral_loop.induct)
  case (1 expo s)
  define s1 where "s1 = (case check_next2 expo s of (b, s0) \<Rightarrow> if b then snd (check_next2 (CHR ''-'', CHR ''+'') s0) else s0)"
  obtain b s2 where c: "check_next2 expo s = (b, s2)" by (rule prod.exhaust)
  obtain b3 s3 where c3: "check_next2 (CHR ''-'', CHR ''+'') s2 = (b3, s3)" by (rule prod.exhaust)
  have l: "length (input s1) \<le> length (input s)"
    using check_next2_input [OF c] check_next2_input [OF c3] by (simp add: s1_def c c3)
  have eq: "numeral_loop expo s = (if cur_is s1 lisxdigit \<or> cur_is s1 (\<lambda>c. c = CHR ''.'') then numeral_loop expo (save_and_next s1) else s1)"
    by (subst numeral_loop.simps) (simp add: s1_def [symmetric])
  have "length (input (numeral_loop expo (save_and_next s1))) \<le> length (input s1)"
    if "cur_is s1 lisxdigit \<or> cur_is s1 (\<lambda>c. c = CHR ''.'')"
    using "1.IH"(1) [OF s1_def] "1.IH"(2) [OF s1_def] that by (cases "cur_is s1 lisxdigit") auto
  then show ?case using l eq by (auto split: if_splits)
qed

lemma read_numeral_shorter:
  assumes "read_numeral str2d point s = Inr (t, s1)" "input s \<noteq> []"
  shows "length (input s1) < length (input s)"
proof -
  obtain hex s2 where h: "(if current s = Some (CHR ''0'') then check_next2 (CHR ''x'', CHR ''X'') (save_and_next s)
      else (False, save_and_next s)) = (hex, s2)" by (rule prod.exhaust)
  have "length (input s2) \<le> length (input (save_and_next s))"
    using h by (auto split: if_splits dest: check_next2_input)
  then have "length (input s2) < length (input s)" using assms(2) by (cases "input s") auto
  moreover have "length (input s1) \<le> length (input s2)"
    using assms(1) numeral_loop_shorter [of "if hex then (CHR ''P'', CHR ''p'') else (CHR ''E'', CHR ''e'')" s2]
    unfolding read_numeral_def Let_def h prod.case trydecpoint_def
    by (auto simp: bindX_Inr lexerror_def split: option.splits)
  ultimately show ?thesis by simp
qed

lemma string_loop_shorter: "string_loop del s = Inr s1 \<Longrightarrow> length (input s1) \<le> length (input s)"
proof (induction del s rule: string_loop.induct)
  case (1 del s)
  note e = "1.prems" [unfolded string_loop.simps [of del s]]
  show ?case
  proof (cases "current s = Some del \<or> current s = None")
    case True
    then show ?thesis using e by (auto simp: lexerror_def)
  next
    case False
    then obtain c where c: "current s = Some c" "c \<noteq> del" "current s \<noteq> Some del" by auto
    then have nl: "\<not> newline_char c" using e by (auto simp: lexerror_def)
    show ?thesis
    proof (cases "c = CHR 0x5C")
      case True
      then obtain s2 where s2: "escape (save_and_next s) = Inr s2" "string_loop del s2 = Inr s1"
        using e c nl by (auto simp: bindX_Inr)
      from "1.IH"(1) [OF c(3,1) nl True s2] escape_input [OF s2(1)] show ?thesis by simp
    next
      case nb: False
      then have "string_loop del (save_and_next s) = Inr s1" using e c nl by simp
      from "1.IH"(2) [OF c(3,1) nl nb this] show ?thesis by simp
    qed
  qed
qed

lemma name_loop_shorter: "length (input (name_loop s)) \<le> length (input s) - 1"
proof (induction s rule: name_loop.induct)
  case (1 s)
  then show ?case
    by (cases "cur_is (save_and_next s) lislalnum") (simp_all add: name_loop.simps [of s])
qed

lemma reserved_small: "reserved w = Some k \<Longrightarrow> k < NUM_RESERVED"
proof -
  have "position w xs = Some k \<Longrightarrow> k < length xs" for xs k
    by (induction xs arbitrary: k) (auto split: if_splits)
  from this [of "take NUM_RESERVED luaX_tokens" k] show "reserved w = Some k \<Longrightarrow> k < NUM_RESERVED"
    by (simp add: reserved_def luaX_tokens_def NUM_RESERVED_def)
qed

definition progress :: "lexstate \<Rightarrow> lex_error + (nat \<times> 'r seminfo) \<times> lexstate \<Rightarrow> bool" where
  "progress s r \<longleftrightarrow> (\<forall>t v s1. r = Inr ((t, v), s1) \<longrightarrow> t \<noteq> TK_EOS \<and> length (input s1) < length (input s))"

lemma progress_Inr: "t \<noteq> TK_EOS \<Longrightarrow> length (input s1) < length (input s) \<Longrightarrow> progress s (Inr ((t, v), s1))"
  by (simp add: progress_def)

lemma progress_error: "progress s (lexerror s1 msg tk)"
  by (simp add: progress_def lexerror_def)

lemma progress_bind: "(\<And>x. m = Inr x \<Longrightarrow> progress s (f x)) \<Longrightarrow> progress s (bindX m f)"
  by (cases m) (auto simp: progress_def)

lemma one_char_progress: "length (input s1) < length (input s) \<Longrightarrow> progress s (one_char s1 c)"
proof -
  have "(of_char c :: nat) \<noteq> 289" using of_char_small [of c] by linarith
  then show "length (input s1) < length (input s) \<Longrightarrow> progress s (one_char s1 c)"
    by (simp add: progress_def one_char_def TK_EOS_def)
qed

lemma numeral_token_tag: "fst (numeral_token v) = TK_FLT \<or> fst (numeral_token v) = TK_INT"
  by (simp add: numeral_token_def split: seminfo.split)

lemma numeral_tag: "read_numeral str2d point s = Inr (t, s1) \<Longrightarrow> fst t = TK_FLT \<or> fst t = TK_INT"
  by (simp add: read_numeral_def Let_def split: prod.splits option.splits)
    (insert numeral_token_tag, auto simp: bindX_Inr)

lemma numeral_progress: "input s0 \<noteq> [] \<Longrightarrow> length (input s0) \<le> length (input s) \<Longrightarrow> progress s (read_numeral str2d point s0)"
  using read_numeral_shorter [of str2d point s0] numeral_tag [of str2d point s0]
  by (fastforce simp: progress_def TK_FLT_def TK_INT_def TK_EOS_def)

lemma if_progress: "(b \<Longrightarrow> progress s x) \<Longrightarrow> (\<not> b \<Longrightarrow> progress s y) \<Longrightarrow> progress s (if b then x else y)"
  by simp

lemma bracket_progress:
  assumes "input s \<noteq> []"
  shows "progress s (bracket_token s)"
proof -
  obtain sep s1 where sk: "skip_sep s = (sep, s1)" by (rule prod.exhaust)
  have l: "length (input s1) < length (input s)" by (rule skip_sep_input [OF sk assms])
  show ?thesis
    unfolding bracket_token_def sk prod.case
  proof (intro if_progress)
    show "progress s (bindX (read_long_string True sep s1) (\<lambda>(t, s2). Inr ((TK_STRING, SemS t), s2)))"
      by (rule progress_bind) (auto intro!: progress_Inr dest!: read_long_input simp: TK_STRING_def TK_EOS_def intro: le_less_trans [OF _ l])
  qed (rule progress_error one_char_progress [OF l])+
qed

lemma tl_shorter: "xs \<noteq> [] \<Longrightarrow> length (tl xs) < length xs" "xs \<noteq> [] \<Longrightarrow> length (tl (tl xs)) < length xs"
  by (cases xs; simp)+

lemma pair_progress:
  assumes "input s \<noteq> []" "TK_EOS \<notin> snd ` set options"
  shows "progress s (pair_token s c options)"
proof -
  have "(d, TK_EOS) \<notin> set options" for d using assms(2) by force
  then show ?thesis
    using assms(1)
    by (auto simp: pair_token_def Let_def token_def check_next1_def tl_shorter find_Some_iff set_conv_nth
        split: option.split intro!: one_char_progress progress_Inr)
qed

lemma dot_progress:
  assumes "input s \<noteq> []"
  shows "progress s (dot_token str2d point s)"
  unfolding dot_token_def check_next1_def token_def
  using assms by (cases "input s")
    (auto intro!: one_char_progress progress_Inr numeral_progress simp: TK_DOTS_def TK_CONCAT_def TK_EOS_def current_def cur_is_def split: list.splits)

lemma lex_token_progress:
  assumes "current s = Some c"
  shows "progress s (lex_token str2d point c s)"
proof -
  have ne: "input s \<noteq> []" using assms by (auto simp: current_def)
  have short: "length (input (nextc s)) < length (input s)" using tl_shorter(1) [OF ne] by simp
  have str: "progress s (bindX (read_string c s) (\<lambda>(t, s1). Inr ((TK_STRING, SemS t), s1)))"
  proof (rule progress_bind)
    fix x
    assume "read_string c s = Inr x"
    then obtain s1 where "string_loop c (save_and_next s) = Inr s1" "snd x = save_and_next s1"
      by (auto simp: read_string_def bindX_Inr Let_def)
    then have "length (input (snd x)) < length (input s)"
      using string_loop_shorter [of c "save_and_next s" s1] short by simp
    then show "progress s (case x of (t, s1) \<Rightarrow> Inr ((TK_STRING, SemS t), s1))"
      by (cases x) (simp add: progress_Inr TK_STRING_def TK_EOS_def)
  qed
  have name: "progress s (read_name s)"
    unfolding read_name_def Let_def
    using name_loop_shorter [of s] ne reserved_small
    by (cases "input s") (fastforce intro!: progress_Inr simp: TK_NAME_def TK_EOS_def FIRST_RESERVED_def NUM_RESERVED_def split: option.split)+
  show ?thesis
    unfolding lex_token_def
    by (intro if_progress bracket_progress pair_progress str dot_progress numeral_progress name ne
        one_char_progress short order_refl)
      (simp_all add: TK_EOS_def TK_EQ_def TK_LE_def TK_SHL_def TK_GE_def TK_SHR_def TK_IDIV_def TK_NE_def TK_DBCOLON_def)
qed

lemma scan_progress:
  "scan str2d point s = Inr ((t, v), s1) \<Longrightarrow>
    (t = TK_EOS \<and> v = NoInfo \<and> input s1 = []) \<or> (t \<noteq> TK_EOS \<and> length (input s1) < length (input s))"
proof (induction str2d point s rule: scan.induct)
  case (1 str2d point s)
  note e = "1.prems" [unfolded scan.simps [of str2d point s]]
  show ?case
  proof (cases "current s")
    case None
    then have "input s = []" by (auto simp: current_def split: list.splits)
    then show ?thesis using e None by (auto simp: token_def)
  next
    case (Some c)
    then have ne: "input s \<noteq> []" by (auto simp: current_def)
    have goal: ?thesis if "scan str2d point s2 = Inr ((t, v), s1)" "length (input s2) \<le> length (input s)"
      "scan str2d point s2 = Inr ((t, v), s1) \<Longrightarrow>
        (t = TK_EOS \<and> v = NoInfo \<and> input s1 = []) \<or> (t \<noteq> TK_EOS \<and> length (input s1) < length (input s2))" for s2
      using that by auto
    show ?thesis
    proof (cases "newline_char c")
      case True
      then obtain s2 where s2: "inclinenumber s = Inr s2" "scan str2d point s2 = Inr ((t, v), s1)"
        using e Some by (auto simp: bindX_Inr)
      show ?thesis by (rule goal [OF s2(2) inclinenumber_le [OF s2(1)] "1.IH"(1) [OF Some True s2(1)]])
    next
      case nl: False
      show ?thesis
      proof (cases "blank_char c")
        case True
        then have s2: "scan str2d point (nextc s) = Inr ((t, v), s1)" using e Some nl by simp
        show ?thesis by (rule goal [OF s2 _ "1.IH"(2) [OF Some nl True]]) simp
      next
        case bl: False
        consider (minus) "c = CHR ''-''" "current (nextc s) \<noteq> Some (CHR ''-'')"
          | (comment) "c = CHR ''-''" "\<not> current (nextc s) \<noteq> Some (CHR ''-'')" | (other) "c \<noteq> CHR ''-''" by blast
        then show ?thesis
        proof cases
          case minus
          then have "t = of_char c" "s1 = nextc s" using e Some nl bl by (simp_all add: one_char_def)
          then show ?thesis using minus tl_shorter(1) [OF ne] by (simp add: TK_EOS_def)
        next
          case comment
          then obtain s2 where s2: "comment (nextc (nextc s)) = Inr s2" "scan str2d point s2 = Inr ((t, v), s1)"
            using e Some nl bl by (auto simp: bindX_Inr)
          show ?thesis
            by (rule goal [OF s2(2) _ "1.IH"(3) [OF Some nl bl comment s2(1)]]) (use comment_input [OF s2(1)] in simp)
        next
          case other
          then have "lex_token str2d point c s = Inr ((t, v), s1)" using e Some nl bl by simp
          then show ?thesis using lex_token_progress [OF Some, of str2d point] by (auto simp: progress_def)
        qed
      qed
    qed
  qed
qed

text \<open>
  C0: Every token but the end of the stream consumes input, so a chunk has finitely many tokens; the end of
  the stream is only returned when no input is left.
\<close>

theorem tokens_consume:
  assumes "llex str2d point s = Inr ((t, v), s1)"
  shows "(t = TK_EOS \<and> input s1 = []) \<or> (t \<noteq> TK_EOS \<and> length (input s1) < length (input s))"
  using scan_progress [of str2d point "resetbuffer s" t v s1] assms by (auto simp: llex_def)

theorem tokens_consume_witness:
  "\<exists>s1. llex (\<lambda>_. None :: int option) (CHR ''.'') (luaX_setinput '' ..x'') = Inr ((TK_CONCAT, NoInfo), s1) \<and>
    ((TK_CONCAT = TK_EOS \<and> input s1 = []) \<or> (TK_CONCAT \<noteq> TK_EOS \<and> length (input s1) < length (input (luaX_setinput '' ..x''))))"
proof -
  have "\<exists>s1. llex (\<lambda>_. None :: int option) (CHR ''.'') (luaX_setinput '' ..x'') = Inr ((TK_CONCAT, NoInfo), s1)"
    by (simp add: llex_def luaX_setinput_def resetbuffer_def scan.simps current_def newline_char_def blank_char_def nextc_def
        lex_token_def dot_token_def check_next1_def save_and_next_def save_def token_def)
  then obtain s1 where "llex (\<lambda>_. None :: int option) (CHR ''.'') (luaX_setinput '' ..x'') = Inr ((TK_CONCAT, NoInfo), s1)" ..
  from tokens_consume [OF this] this show ?thesis by blast
qed

text \<open>C35: 
  C0: The line of a token, or of an error, is one more for each line break of the text passed, \<open>\r\n\<close> and \<open>\n\r\<close>
  counted once, wherever the breaks are: between tokens, in comments, in long strings, after a backslash.
\<close>

theorem lines_counted:
  "case llex str2d point s of
     Inl (LexError msg near n) \<Rightarrow> \<exists>z. suffix z (input s) \<and> n + newlines z = linenumber s + newlines (input s)
   | Inr (tok, s1) \<Rightarrow> suffix (input s1) (input s) \<and> linenumber s1 + newlines (input s1) = linenumber s + newlines (input s)"
proof -
  have "tracks s snd (llex str2d point s)" unfolding llex_def by (rule scan_tracks) (simp add: at_line_def)
  then show ?thesis by (auto simp: tracks_def at_line_def split: sum.splits lex_error.splits)
qed

section \<open>What is quoted is read back\<close>

abbreviation lex_at :: "string \<Rightarrow> nat \<Rightarrow> string \<Rightarrow> char \<Rightarrow> lexstate" where
  "lex_at z n b d \<equiv> \<lparr>input = z, linenumber = n, buff = b, decpoint = d\<rparr>"

lemmas lex_steps = current_def nextc_def save_def save_and_next_def buffremove_def resetbuffer_def cur_is_def
  read_save_def only_save_def currIsNewline_def

text \<open>The value of a list of digits, as the lexer sums it up.\<close>

definition decimal :: "string \<Rightarrow> int \<Rightarrow> int" where
  "decimal ds r = foldl (\<lambda>a c. 10 * a + int (of_char c) - 48) r ds"

definition digit_next :: "string \<Rightarrow> bool" where
  "digit_next z = (case z of [] \<Rightarrow> False | c # _ \<Rightarrow> lisdigit c)"

lemma dec_loop_digits:
  "list_all lisdigit ds \<Longrightarrow> length ds \<le> k \<Longrightarrow> length ds = k \<or> \<not> digit_next z \<Longrightarrow>
    dec_loop k (lex_at (ds @ z) n b p) r = (decimal ds r, length ds, lex_at z n (b @ ds) p)"
proof (induction ds arbitrary: k b r)
  case Nil
  then show ?case by (cases k) (auto simp: decimal_def digit_next_def lex_steps split: list.splits)
next
  case (Cons d ds)
  then obtain k' where "k = Suc k'" by (cases k) auto
  then show ?case using Cons by (simp add: lex_steps decimal_def)
qed

lemma digit_code: "d < 10 \<Longrightarrow> (of_char (char_of (48 + d :: nat)) :: nat) = 48 + d"
  by simp

lemma decimal_show: "decimal (show_nat n) 0 = int n"
proof (induction n rule: show_nat.induct)
  case (1 n)
  then show ?case
    by (subst show_nat.simps) (auto simp: decimal_def zdiv_int zmod_int)
qed

lemma show_length: "n < 1000 \<Longrightarrow> length (show_nat n) \<le> 3"
  by (subst show_nat.simps, simp, subst show_nat.simps, simp, subst show_nat.simps, simp) 

lemma decimal_three:
  assumes "n < 1000"
  shows "decimal (three_digits n) 0 = int n" "list_all lisdigit (three_digits n)" "length (three_digits n) = 3"
proof -
  have n: "n div 100 < 10" "n div 10 mod 10 < 10" "n mod 10 < 10" using assms by auto
  have "100 * (n div 100) + 10 * (n div 10 mod 10) + n mod 10 = n"
  proof -
    have "n div 10 div 10 = n div 100" by (simp add: div_mult2_eq [symmetric])
    then show ?thesis using div_mult_mod_eq [of n 10] div_mult_mod_eq [of "n div 10" 10] by linarith
  qed
  then have "100 * int (n div 100) + 10 * int (n div 10 mod 10) + int (n mod 10) = int n" by linarith
  then show "decimal (three_digits n) 0 = int n"
    by (simp only: decimal_def three_digits_def foldl.simps digit_code [OF n(1)] digit_code [OF n(2)] digit_code [OF n(3)]) simp
qed (use assms in \<open>simp_all add: three_digits_def digit_char\<close>)

lemma digit_not_letter: "lisdigit c \<Longrightarrow> c \<noteq> CHR ''a'' \<and> c \<noteq> CHR ''b'' \<and> c \<noteq> CHR ''f'' \<and> c \<noteq> CHR ''n'' \<and> c \<noteq> CHR ''r'' \<and>
    c \<noteq> CHR ''t'' \<and> c \<noteq> CHR ''v'' \<and> c \<noteq> CHR ''x'' \<and> c \<noteq> CHR ''u'' \<and> c \<noteq> CHR ''z'' \<and> c \<noteq> CHR 0x5C \<and> c \<noteq> CHR 0x22 \<and> c \<noteq> CHR 0x27"
  by (auto simp: ctype_digit)

lemma escape_self:
  "c = CHR 0x22 \<or> c = CHR 0x5C \<Longrightarrow> escape (lex_at (c # z) n (b @ [CHR 0x5C]) d) = Inr (lex_at z n (b @ [c]) d)"
  by (auto simp: escape_def lex_steps newline_char_def)

lemma escape_newline:
  "\<not> currIsNewline (lex_at z n b d) \<Longrightarrow> n + 1 < LEX_MAX_INT \<Longrightarrow>
    escape (lex_at (CHR 0x0A # z) n (b @ [CHR 0x5C]) d) = Inr (lex_at z (n + 1) (b @ [CHR 0x0A]) d)"
  by (simp add: escape_def lex_steps newline_char_def inclinenumber_def Let_def)

lemma escape_code:
  assumes "list_all lisdigit ds" "ds \<noteq> []" "length ds = 3 \<or> length ds \<le> 3 \<and> \<not> digit_next z" "decimal ds 0 = int k" "k < 256"
  shows "escape (lex_at (ds @ z) n (b @ [CHR 0x5C]) d) = Inr (lex_at z n (b @ [char_of k]) d)"
proof -
  obtain c cs where ds: "ds = c # cs" using assms(2) by (cases ds) auto
  have c: "lisdigit c" using assms(1) ds by simp
  note l = digit_not_letter [OF c] digit_plain [OF c]
  have "dec_loop 3 (lex_at (ds @ z) n (b @ [CHR 0x5C]) d) 0 = (decimal ds 0, length ds, lex_at z n ((b @ [CHR 0x5C]) @ ds) d)"
    by (rule dec_loop_digits) (use assms in auto)
  then have r: "readdecesc (lex_at (ds @ z) n (b @ [CHR 0x5C]) d) = Inr (int k, lex_at z n (b @ [CHR 0x5C]) d)"
    using assms(4,5) by (simp add: readdecesc_def esccheck_def buffremove_def)
  have cur: "current (lex_at (ds @ z) n (b @ [CHR 0x5C]) d) = Some c" by (simp add: ds current_def)
  show ?thesis
    unfolding escape_def cur option.case using l c
    by (simp add: esccheck_def r only_save_def buffremove_def save_def)
qed

lemma quoted_hd:
  "\<exists>x xs. quoted_char c f = x # xs \<and> \<not> newline_char x \<and> (lisdigit x \<longrightarrow> c_isdigit c)"
  by (auto simp: quoted_char_def c_iscntrl_def newline_char_def ctype_digit c_isdigit_def)

lemma quote_next:
  "\<not> currIsNewline (lex_at (quote_loop cs @ CHR 0x22 # z) n b d)"
  "\<not> (case cs of [] \<Rightarrow> False | c # _ \<Rightarrow> c_isdigit c) \<Longrightarrow> \<not> digit_next (quote_loop cs @ CHR 0x22 # z)"
proof -
  show "\<not> currIsNewline (lex_at (quote_loop cs @ CHR 0x22 # z) n b d)"
  proof (cases cs)
    case (Cons c cs')
    show ?thesis
      using quoted_hd [of c "case cs' of [] \<Rightarrow> c_isdigit (CHR 0x00) | d # _ \<Rightarrow> c_isdigit d"] Cons
      by (auto simp: lex_steps)
  qed (simp add: lex_steps newline_char_def)
  show "\<not> digit_next (quote_loop cs @ CHR 0x22 # z)" if "\<not> (case cs of [] \<Rightarrow> False | c # _ \<Rightarrow> c_isdigit c)"
  proof (cases cs)
    case (Cons c cs')
    then show ?thesis
      using quoted_hd [of c "case cs' of [] \<Rightarrow> c_isdigit (CHR 0x00) | d # _ \<Rightarrow> c_isdigit d"] that
      by (auto simp: digit_next_def)
  qed (simp add: digit_next_def ctype_digit)
qed

lemma string_step_escape:
  "escape (lex_at z n (b @ [CHR 0x5C]) d) = Inr s1 \<Longrightarrow>
    string_loop (CHR 0x22) (lex_at (CHR 0x5C # z) n b d) = string_loop (CHR 0x22) s1"
  by (subst string_loop.simps) (simp add: lex_steps newline_char_def)

lemma string_step_plain:
  "c \<noteq> CHR 0x22 \<Longrightarrow> c \<noteq> CHR 0x5C \<Longrightarrow> \<not> newline_char c \<Longrightarrow>
    string_loop (CHR 0x22) (lex_at (c # z) n b d) = string_loop (CHR 0x22) (lex_at z n (b @ [c]) d)"
  by (subst string_loop.simps) (simp add: lex_steps)

lemma string_end: "string_loop (CHR 0x22) (lex_at (CHR 0x22 # z) n b d) = Inr (lex_at (CHR 0x22 # z) n b d)"
  by (subst string_loop.simps) (simp add: lex_steps)

lemma code_read:
  assumes "c_iscntrl c" "\<not> f \<Longrightarrow> \<not> digit_next z"
  shows "escape (lex_at ((if \<not> f then show_nat (of_char c) else three_digits (of_char c)) @ z) n (b @ [CHR 0x5C]) d)
    = Inr (lex_at z n (b @ [c]) d)"
proof -
  have k: "(of_char c :: nat) < 1000" "(of_char c :: nat) < 256" using of_char_small [of c] by linarith+
  have ne: "show_nat (of_char c) \<noteq> []" using show_nonempty by (metis list.distinct(1))
  show ?thesis
    using escape_code [of "if \<not> f then show_nat (of_char c) else three_digits (of_char c)" z "of_char c" n b d]
      digits_show [of "of_char c"] ne show_length [OF k(1)] decimal_show [of "of_char c"] decimal_three [OF k(1)] k(2) assms(2)
    by (auto simp: three_digits_def split: if_splits)
qed

lemma quoted_read:
  "n + count_list t (CHR 0x0A) < LEX_MAX_INT \<Longrightarrow>
    string_loop (CHR 0x22) (lex_at (quote_loop t @ CHR 0x22 # z) n b d)
    = Inr (lex_at (CHR 0x22 # z) (n + count_list t (CHR 0x0A)) (b @ t) d)"
proof (induction t arbitrary: n b)
  case Nil
  then show ?case by (simp add: string_end)
next
  case (Cons c cs)
  define f where "f = (case cs of [] \<Rightarrow> c_isdigit (CHR 0x00) | d # _ \<Rightarrow> c_isdigit d)"
  let ?z = "quote_loop cs @ CHR 0x22 # z"
  have q: "quote_loop (c # cs) @ CHR 0x22 # z = quoted_char c f @ ?z" by (simp add: f_def)
  consider (self) "c = CHR 0x22 \<or> c = CHR 0x5C" | (newline) "c = CHR 0x0A"
    | (control) "c \<noteq> CHR 0x22" "c \<noteq> CHR 0x5C" "c \<noteq> CHR 0x0A" "c_iscntrl c"
    | (plain) "c \<noteq> CHR 0x22" "c \<noteq> CHR 0x5C" "c \<noteq> CHR 0x0A" "\<not> c_iscntrl c" by blast
  then show ?case
  proof cases
    case self
    then have "quoted_char c f = [CHR 0x5C, c]" "c \<noteq> CHR 0x0A" by (auto simp: quoted_char_def)
    then show ?thesis
      using Cons.IH [of n "b @ [c]"] Cons.prems string_step_escape [OF escape_self [OF self, of ?z n b d]]
      by (simp add: q del: quote_loop.simps)
  next
    case newline
    then have qc: "quoted_char c f = [CHR 0x5C, c]" by (simp add: quoted_char_def)
    have "n + 1 + count_list cs (CHR 0x0A) < LEX_MAX_INT" using Cons.prems newline by simp
    moreover from this have "string_loop (CHR 0x22) (lex_at (quoted_char c f @ ?z) n b d) = string_loop (CHR 0x22) (lex_at ?z (n + 1) (b @ [c]) d)"
      using string_step_escape [OF escape_newline [OF quote_next(1) [of cs z n b d]]] newline by (simp add: qc [unfolded newline])
    ultimately show ?thesis using Cons.IH [of "n + 1" "b @ [c]"] newline unfolding q by simp
  next
    case control
    have "\<not> f \<Longrightarrow> \<not> digit_next ?z"
      by (rule quote_next(2)) (auto simp: f_def split: list.splits)
    note r = code_read [where f = f and z = ?z and n = n and b = b and d = d, OF control(4) this]
    have "quoted_char c f = CHR 0x5C # (if \<not> f then show_nat (of_char c) else three_digits (of_char c))"
      using control by (simp add: quoted_char_def)
    then show ?thesis
      using Cons.IH [of n "b @ [c]"] Cons.prems control(3) string_step_escape [OF r]
      by (simp add: q del: quote_loop.simps if_split)
  next
    case plain
    then have "quoted_char c f = [c]" "\<not> newline_char c" by (auto simp: quoted_char_def c_iscntrl_def newline_char_def)
    then show ?thesis
      using Cons.IH [of n "b @ [c]"] Cons.prems plain string_step_plain [of c ?z n b d]
      by (simp add: q del: quote_loop.simps)
  qed
qed

text \<open>C32: 
  C0: What \<open>string.format("%q")\<close> writes for a string is, to the scanner, one string token with exactly that text,
  whatever bytes it has and whatever follows it; the scanner stops right after it, on the line its newlines
  lead to. (The chunk must not run into the limit on line numbers.)
\<close>

theorem quoted_reads_back:
  assumes "input s = addquoted t @ z" "linenumber s + count_list t (CHR 0x0A) < LEX_MAX_INT"
  shows "\<exists>s1. llex str2d point s = Inr ((TK_STRING, SemS t), s1) \<and> input s1 = z \<and>
    linenumber s1 = linenumber s + count_list t (CHR 0x0A)"
proof -
  obtain n b d where s: "s = lex_at (CHR 0x22 # quote_loop t @ CHR 0x22 # z) n b d"
    using assms(1) by (cases s) (simp add: addquoted_def)
  have n: "n + count_list t (CHR 0x0A) < LEX_MAX_INT" using assms(2) s by simp
  have loop: "string_loop (CHR 0x22) (save_and_next (resetbuffer s))
      = Inr (lex_at (CHR 0x22 # z) (n + count_list t (CHR 0x0A)) (CHR 0x22 # t) d)"
    using quoted_read [OF n, of z "[CHR 0x22]" d] by (simp add: s lex_steps)
  have "llex str2d point s = lex_token str2d point (CHR 0x22) (resetbuffer s)"
    unfolding llex_def by (subst scan.simps) (simp add: s lex_steps newline_char_def blank_char_def)
  also have "\<dots> = Inr ((TK_STRING, SemS t), lex_at z (n + count_list t (CHR 0x0A)) (CHR 0x22 # t @ [CHR 0x22]) d)"
    unfolding lex_token_def read_string_def loop bindX_simps by (simp add: Let_def lex_steps)
  finally show ?thesis using s by simp
qed

theorem quoted_reads_back_witness:
  "\<exists>s1. llex (\<lambda>_. None :: int option) (CHR ''.'') (luaX_setinput (addquoted [CHR 0x00, CHR ''1'', CHR 0x0A, CHR 0x0D, CHR 0x22] @ '' or x''))
      = Inr ((TK_STRING, SemS [CHR 0x00, CHR ''1'', CHR 0x0A, CHR 0x0D, CHR 0x22]), s1) \<and> input s1 = '' or x'' \<and> linenumber s1 = 2"
proof -
  let ?s = "luaX_setinput (addquoted [CHR 0x00, CHR ''1'', CHR 0x0A, CHR 0x0D, CHR 0x22] @ '' or x'')"
  have "input ?s = addquoted [CHR 0x00, CHR ''1'', CHR 0x0A, CHR 0x0D, CHR 0x22] @ '' or x''"
    "linenumber ?s + count_list [CHR 0x00, CHR ''1'', CHR 0x0A, CHR 0x0D, CHR 0x22] (CHR 0x0A) < LEX_MAX_INT"
    by (simp_all add: luaX_setinput_def LEX_MAX_INT_def)
  from quoted_reads_back [OF this, of "\<lambda>_. None :: int option" "CHR ''.''"] show ?thesis
    by (simp add: luaX_setinput_def numeral_2_eq_2)
qed

section \<open>Names\<close>

definition alnum_next :: "string \<Rightarrow> bool" where
  "alnum_next z = (case z of [] \<Rightarrow> False | c # _ \<Rightarrow> lislalnum c)"

lemma name_loop_word:
  "list_all lislalnum w \<Longrightarrow> \<not> alnum_next z \<Longrightarrow>
    name_loop \<lparr>input = c # w @ z, linenumber = n, buff = b, decpoint = d\<rparr>
    = \<lparr>input = z, linenumber = n, buff = b @ c # w, decpoint = d\<rparr>"
proof (induction w arbitrary: c b)
  case Nil
  then show ?case
    by (subst name_loop.simps)
      (auto simp: Let_def current_def nextc_def save_def save_and_next_def cur_is_def alnum_next_def split: list.splits)
next
  case (Cons x w)
  then show ?case
    by (subst name_loop.simps) (simp add: Let_def current_def nextc_def save_def save_and_next_def cur_is_def)
qed

lemma position_Some: "position w xs = Some k \<Longrightarrow> k < length xs \<and> xs ! k = w"
  by (induction xs arbitrary: k) (auto split: if_splits)

lemma position_None: "position w xs = None \<Longrightarrow> w \<notin> set xs"
  by (induction xs) (auto split: if_splits)

lemma alpha_code: "lislalpha c \<longleftrightarrow> 65 \<le> (of_char c :: nat) \<and> (of_char c :: nat) \<le> 90 \<or> (of_char c :: nat) = 95 \<or>
    97 \<le> (of_char c :: nat) \<and> (of_char c :: nat) \<le> 122"
  unfolding lislalpha_def testprop_def ctype_nth [OF of_char_small] by (auto simp: numeral_eq_Suc)

lemma alpha_token: "lislalpha c \<Longrightarrow> lex_token str2d point c s = read_name s"
proof -
  assume a: "lislalpha c"
  have "c \<noteq> CHR ''['' \<and> c \<noteq> CHR ''='' \<and> c \<noteq> CHR ''<'' \<and> c \<noteq> CHR ''>'' \<and> c \<noteq> CHR ''/'' \<and> c \<noteq> CHR ''~'' \<and> c \<noteq> CHR '':'' \<and>
      c \<noteq> CHR 0x22 \<and> c \<noteq> CHR 0x27 \<and> c \<noteq> CHR ''.''"
    using a by (auto simp: alpha_code)
  moreover have "\<not> ((48::nat) \<le> of_char c \<and> (of_char c::nat) \<le> 57)" using a unfolding alpha_code by linarith
  ultimately show ?thesis unfolding lex_token_def using a by (simp only: if_False if_True simp_thms)
qed

text \<open>C40: 
  C0: A letter or underscore and the letters, digits and underscores after it are one token: the reserved word
  of that text, with the number of its place in the list of tokens, and otherwise a name with that text.
\<close>

theorem words_scanned:
  assumes "input s = c # w @ z" "lislalpha c" "list_all lislalnum w" "\<not> (\<exists>x y. z = x # y \<and> lislalnum x)"
  shows "\<exists>tk s1. llex str2d point s = Inr ((tk, SemS (c # w)), s1) \<and> input s1 = z \<and>
    (tk = TK_NAME \<and> c # w \<notin> set (take NUM_RESERVED luaX_tokens) \<or>
     (\<exists>k < NUM_RESERVED. luaX_tokens ! k = c # w \<and> tk = FIRST_RESERVED + k))"
proof -
  obtain n b d where s: "s = \<lparr>input = c # w @ z, linenumber = n, buff = b, decpoint = d\<rparr>"
    using assms(1) by (cases s) simp
  have z: "\<not> alnum_next z" using assms(4) by (auto simp: alnum_next_def split: list.splits)
  have nl: "name_loop (resetbuffer s) = \<lparr>input = z, linenumber = n, buff = c # w, decpoint = d\<rparr>"
    using name_loop_word [OF assms(3) z, of c n "[]" d] by (simp add: s resetbuffer_def)
  have cur: "current (resetbuffer s) = Some c" by (simp add: s resetbuffer_def current_def)
  have "\<not> newline_char c" "\<not> blank_char c" "c \<noteq> CHR ''-''"
    using assms(2) by (auto simp: newline_char_def blank_char_def alpha_code)
  then have "llex str2d point s = read_name (resetbuffer s)"
    unfolding llex_def by (subst scan.simps) (simp add: cur alpha_token [OF assms(2)])
  then have l: "llex str2d point s = (case position (c # w) (take NUM_RESERVED luaX_tokens) of
      Some k \<Rightarrow> Inr ((k + FIRST_RESERVED, SemS (c # w)), lex_at z n (c # w) d)
    | None \<Rightarrow> Inr ((TK_NAME, SemS (c # w)), lex_at z n (c # w) d))"
    by (simp add: read_name_def nl reserved_def Let_def split: option.split)
  show ?thesis
  proof (cases "position (c # w) (take NUM_RESERVED luaX_tokens)")
    case None
    then show ?thesis using l position_None [OF None] by auto
  next
    case (Some k)
    then show ?thesis using l position_Some [OF Some] by auto
  qed
qed

theorem words_scanned_witness:
  "\<exists>tk s1. llex (\<lambda>_. None :: int option) (CHR ''.'') (luaX_setinput ''ending=1'') = Inr ((tk, SemS ''ending''), s1) \<and> input s1 = ''=1'' \<and>
    (tk = TK_NAME \<and> ''ending'' \<notin> set (take NUM_RESERVED luaX_tokens) \<or>
     (\<exists>k < NUM_RESERVED. luaX_tokens ! k = ''ending'' \<and> tk = FIRST_RESERVED + k))"
  by (rule words_scanned [where z = "''=1''"])
    (simp_all add: luaX_setinput_def alpha_code lislalnum_def testprop_def luai_ctype_def nth_append)

section \<open>One token ahead\<close>

text \<open>The part of the state that belongs to the parser; a lookahead token \<open>TK_EOS\<close> is none.\<close>

record 'r parse_state =
  lexs :: lexstate
  lastline :: nat
  tok :: "nat \<times> 'r seminfo"
  lookahead :: "nat \<times> 'r seminfo"

text \<open>A token without semantic information leaves the old one.\<close>

definition set_token :: "nat \<times> 'r seminfo \<Rightarrow> nat \<times> 'r seminfo \<Rightarrow> nat \<times> 'r seminfo" where
  "set_token old new = (fst new, case snd new of NoInfo \<Rightarrow> snd old | v \<Rightarrow> v)"

definition luaX_next :: "(string \<Rightarrow> 'r option) \<Rightarrow> char \<Rightarrow> 'r parse_state \<Rightarrow> lex_error + 'r parse_state" where
  "luaX_next str2d point p =
     (let p1 = p\<lparr>lastline := linenumber (lexs p)\<rparr>
      in if fst (lookahead p1) \<noteq> TK_EOS
         then Inr (p1\<lparr>tok := lookahead p1, lookahead := (TK_EOS, snd (lookahead p1))\<rparr>)
         else bindX (llex str2d point (lexs p1)) (\<lambda>(t, s). Inr (p1\<lparr>tok := set_token (tok p1) t, lexs := s\<rparr>)))"

definition luaX_lookahead :: "(string \<Rightarrow> 'r option) \<Rightarrow> char \<Rightarrow> 'r parse_state \<Rightarrow> lex_error + nat \<times> 'r parse_state" where
  "luaX_lookahead str2d point p =
     bindX (llex str2d point (lexs p)) (\<lambda>(t, s).
       let p1 = p\<lparr>lookahead := set_token (lookahead p) t, lexs := s\<rparr> in Inr (fst (lookahead p1), p1))"

lemma llex_at_end:
  assumes "input s = []"
  shows "llex str2d point s = Inr ((TK_EOS, NoInfo), resetbuffer s)"
  unfolding llex_def by (subst scan.simps) (simp add: assms current_def token_def)

text \<open>
  C0: Looking one token ahead does not change what is read: the next token after a look ahead is the token
  that would have been read without it, with its semantic information, and the input and the line after it
  are the same, also when that token is the end of the stream, which is then read twice.
\<close>

theorem lookahead_transparent:
  assumes "fst (lookahead p) = TK_EOS" "llex str2d point (lexs p) = Inr ((tk, v), s)"
  shows "\<exists>p1 p2 p3. luaX_lookahead str2d point p = Inr (tk, p1) \<and>
    luaX_next str2d point p1 = Inr p2 \<and> luaX_next str2d point p = Inr p3 \<and>
    fst (tok p2) = tk \<and> fst (tok p3) = tk \<and> (v \<noteq> NoInfo \<longrightarrow> snd (tok p2) = v \<and> snd (tok p3) = v) \<and>
    fst (lookahead p2) = TK_EOS \<and> fst (lookahead p3) = TK_EOS \<and>
    input (lexs p2) = input (lexs p3) \<and> linenumber (lexs p2) = linenumber (lexs p3)"
proof (cases "tk = TK_EOS")
  case True
  then have "v = NoInfo \<and> input s = []" using scan_progress [of str2d point "resetbuffer (lexs p)" tk v s] assms(2) by (auto simp: llex_def)
  then show ?thesis
    using assms True llex_at_end [of s str2d point]
    by (simp add: luaX_lookahead_def luaX_next_def set_token_def Let_def)
next
  case False
  then show ?thesis
    using assms by (cases v) (simp_all add: luaX_lookahead_def luaX_next_def set_token_def Let_def)
qed

definition sample_state :: "int parse_state" where
  "sample_state = \<lparr>lexs = luaX_setinput ''('', lastline = 1, tok = (0, NoInfo), lookahead = (TK_EOS, NoInfo)\<rparr>"

theorem lookahead_transparent_witness:
  "\<exists>p1 p2 p3. luaX_lookahead (\<lambda>_. None) (CHR ''.'') sample_state = Inr (40, p1) \<and>
    luaX_next (\<lambda>_. None) (CHR ''.'') p1 = Inr p2 \<and> luaX_next (\<lambda>_. None) (CHR ''.'') sample_state = Inr p3 \<and>
    fst (tok p2) = 40 \<and> fst (tok p3) = 40"
proof -
  have e: "fst (lookahead sample_state) = TK_EOS" by (simp add: sample_state_def)
  have "llex (\<lambda>_. None :: int option) (CHR ''.'') (lexs sample_state)
      = Inr ((40, NoInfo), lex_at [] 1 [] (CHR ''.''))"
    by (simp add: llex_def sample_state_def luaX_setinput_def resetbuffer_def scan.simps current_def newline_char_def blank_char_def
        nextc_def lex_token_def one_char_def lislalpha_def testprop_def luai_ctype_def nth_append)
  from lookahead_transparent [OF e this] show ?thesis by blast
qed

end
