(* ===== verification/Spec2Isabelle.thy ===== *)
theory Spec2Isabelle
  imports Prelude Sha1 Sha1Spec Sha1Correct XpioUtil XpioProc XpioQueue XpioQueueCorrect
    XpioSocket Xpfs LuaZio LuaChunk LuaOpcodes LuaCode LuaArith LuaBit LuaUtf8
    LuaString LuaTable LuaTableInv LuaTableMap LuaTableRehash LuaTableWalk
    LuaTabLib LuaTabSort LuaTabOps LuaMatchCorrect LuaFindCorrect LuaPackCorrect LuaLexCorrect
begin

text \<open>
  Flake is a build system that ships as one executable: an embedded Lua interpreter, three C modules
  written for it, and Lua code. This development covers the C code: what decides whether something is
  to be built again (SHA-1), how build steps run in parallel (processes, sockets and the task queue),
  how files are looked at, and the parts of the interpreter all of it runs on. The Lua scripts
  (\<open>flake/\<close>, \<open>cfromlua/\<close>, \<open>snowflakes/\<close>, \<open>luau/*.lua\<close>) are in another language and not part of it.

  How the parts interact. \<open>sha1/sha1_lua.c\<close> hands Lua strings to the SHA-1 of \<open>sha1/sha1.c\<close>. A build
  starts child processes and waits in a task queue (\<open>luau/xpio_c.c\<close>): tasks register for a socket, a
  child or a time, \<open>wait\<close> polls, reaps children through the signal handler's list of process objects and
  returns the tasks that can go on. Sockets use the same queue for their \<open>when_\<close> functions.
  \<open>luau/xpfs.c\<close> is independent of both. In the interpreter, a chunk is read through a buffered stream
  (\<open>lzio.c\<close>), precompiled (\<open>lundump.c\<close>) or cut into tokens by the scanner (\<open>llex.c\<close>), whose numerals are those of
  \<open>lobject.c\<close>, and compiled by the code generator (\<open>lcode.c\<close>) into the instructions of \<open>lopcodes.h\<close>; strings are interned (\<open>lstring.c\<close>), their addresses are keys of tables
  (\<open>ltable.c\<close>), and table sizes rest on the logarithms of \<open>lobject.c\<close>. The table library (\<open>ltablib.c\<close>) works on tables
  through raw access (\<open>lapi.c\<close>); the string library (\<open>lstrlib.c\<close>) quotes strings so that the scanner reads
  them back, a property of the two together.
\<close>

section \<open>Theories and sources\<close>

text \<open>
  Paths of the interpreter are relative to \<open>lua/lua-5.3.1/src\<close>.

  \<^item> \<open>Prelude\<close>: words, byte order, list surgery, and interfaces the components share: a step machine with an
    invariant and a guarantee (\<open>machine\<close>), a table of entries by key (\<open>keyed_table\<close>), an object fed in
    pieces (\<open>stream_object\<close>), a code of fixed width (\<open>fixed_width_code\<close>).
  \<^item> \<open>Sha1\<close> is \<open>sha1/sha1.c\<close> and \<open>sha1/sha1_lua.c\<close>: the context, the 80 rounds as macros on a rotating
    set of five registers and sixteen words, update in pieces, padding. \<open>Sha1Spec\<close> is the standard's
    function; \<open>Sha1Correct\<close> relates the two, including what the C code does to the caller's buffer and to
    messages of \<open>2 ^ 29\<close> bytes and more.
  \<^item> \<open>XpioUtil\<close>, \<open>XpioProc\<close>, \<open>XpioQueue\<close>, \<open>XpioSocket\<close> are \<open>luau/xpio_c.c\<close>: argument conversion, names
    and addresses; process objects, fork and reaping; the three tables of a queue and \<open>wait\<close>; sockets,
    options, environment and descriptors. \<open>XpioQueueCorrect\<close> holds the invariant of the queue and what
    \<open>wait\<close> returns.
  \<^item> \<open>Xpfs\<close> is \<open>luau/xpfs.c\<close>: \<open>chmod\<close>, \<open>stat\<close> and the small file functions.
  \<^item> \<open>LuaZio\<close>, \<open>LuaChunk\<close>: \<open>lzio.c\<close>, \<open>luaM_growaux_\<close> of \<open>lmem.c\<close>, \<open>ldump.c\<close>, \<open>lundump.c\<close>, \<open>f_parser\<close>.
  \<^item> \<open>LuaOpcodes\<close>, \<open>LuaCode\<close>: \<open>lopcodes.h\<close>, \<open>lopcodes.c\<close>, and \<open>lcode.c\<close> up to register allocation.
  \<^item> \<open>LuaArith\<close>, \<open>LuaBit\<close>, \<open>LuaUtf8\<close>: integers of \<open>lobject.c\<close> and \<open>lvm.c\<close> with \<open>lctype.c\<close>; \<open>lbitlib.c\<close>;
    \<open>lutf8lib.c\<close>.
  \<^item> \<open>LuaString\<close>: \<open>lstring.c\<close> and what the collector (\<open>lgc.c\<close>) does to strings.
  \<^item> \<open>LuaTable\<close>: the definitions of \<open>ltable.c\<close> and raw equality of \<open>lvm.c\<close>. \<open>LuaTableInv\<close>: the invariant of the
    chains, search and insertion. \<open>LuaTableMap\<close>: tables as maps, reinsertion and resizing, counting.
    \<open>LuaTableRehash\<close>: the optimal array size, the law of stores, floats as keys. \<open>LuaTableWalk\<close>: traversal
    and length.
  \<^item> \<open>LuaTabLib\<close> is \<open>ltablib.c\<close> over access functions with the laws of an array (\<open>array_access\<close>);
    \<open>LuaTabSort\<close> proves its sort inside that interface; \<open>LuaTabOps\<close> gives raw access to a table of \<open>LuaTable\<close>,
    and to two different ones, as interpretations and proves the other operations.
  \<^item> \<open>LuaMatch\<close> is the pattern matcher of \<open>lstrlib.c\<close>, \<open>LuaMatchSpec\<close> what a pattern means: the list of all its
    matches at a place, in the order of preference; \<open>LuaMatchCorrect\<close> relates the two. \<open>LuaFind\<close> and
    \<open>LuaFindCorrect\<close> are the functions that search with it.
  \<^item> \<open>LuaPack\<close>, \<open>LuaPackCorrect\<close>: packing of binary data in \<open>lstrlib.c\<close>. \<open>LuaStrLib\<close>: its functions on substrings,
    repetition and codes, and the quoting of \<open>%q\<close>.
  \<^item> \<open>LuaLex\<close>, \<open>LuaLexCorrect\<close>: \<open>llex.c\<close>.
\<close>

section \<open>State and effects\<close>

text \<open>
  Structures of the C code are records with the fields the code uses, under the code's names with a
  prefix; unions are datatypes. Integers keep their width, as words or with the wrap-around written
  out. Objects that are shared live in a store from addresses to records (\<open>proc_heap\<close>, the tasks and
  queues of \<open>xpio_state\<close>, the objects of \<open>strings\<close>); addresses are natural numbers the allocator gives as
  an argument. What the operating system answers (\<open>poll\<close>, \<open>fork\<close>, \<open>stat\<close>, descriptors, time) is an
  argument of the definition that asks. Errors are values: a Lua error, a \<open>nil\<close> with a message, or a
  C-level fault such as reading behind an array, each with its own constructor.

  Bounds. The queue's \<open>wait\<close> takes a list of poll answers; \<open>wait_returns\<close> shows that a ready one ends
  it. Jump lists are followed for at most as many steps as there are instructions, chains of a table for
  as many as there are nodes; the invariants show that this is enough, so \<open>Loops\<close> and \<open>NoReturn\<close> never
  come out. Growing a table takes a depth: one rehash always makes room, so depth 1 is enough below
  \<open>2 ^ 30\<close> slots. Nested functions of a chunk are loaded under a bound on the C stack, which the code
  checks as well. The sort takes the depth the C stack allows; 29 is enough for the \<open>2 ^ 30\<close> elements above
  which its indices overflow. The matcher's depth is the code's own limit \<open>MAXCCALLS\<close> of 200 nested calls.
\<close>

section \<open>What is shown\<close>

text \<open>
  \<^item> SHA-1: the digest is the standard's for messages shorter than \<open>2 ^ 29\<close> bytes, however they are cut
    into pieces; the two deviations (the overwritten input and the lost carry) are exact theorems.
  \<^item> Processes and the queue: an invariant of all tables in every reachable state; \<open>wait\<close> returns exactly
    the tasks that are ready, unscheduled, in order, with the right error behaviour and timeouts; only own
    children are killed, every exit is delivered.
  \<^item> Sockets, files: every descriptor is closed by its owner and once, options, permission strings.
  \<^item> Chunks and code: loading inverts saving, truncated chunks are rejected; emission keeps a function's
    code well formed, lists of jumps are refined to lists of positions.
  \<^item> Numbers and text: integer division, numerals and compact sizes; all functions of \<open>bit32\<close> on words; UTF-8 decoding is
    exactly inverse to encoding.
  \<^item> Strings: interning refines a map from texts to objects, operation by operation, in every state that
    creating, collecting and resizing lead to.
  \<^item> Tables: a table refines a map modulo raw equality, under every insertion, move, rehash and resize;
    searches return; traversal visits each entry once; the length is a boundary (below 2^31); array sizes are optimal.
    \<open>table.sort\<close> sorts, and with any comparison at all ends with a permutation; \<open>move\<close> is right for every
    overlap, \<open>remove\<close> undoes \<open>insert\<close>.
  \<^item> Patterns: the match found is the leftmost and there the first in the order of preference; no pattern
    makes a search read outside its strings; iteration goes on; plain searches find what patterns would.
  \<^item> Packing: \<open>unpack\<close> gives back exactly the values of every format; one format lets \<open>unpack\<close> read behind its data.
  \<^item> Scanning: every token consumes input, words and quoted strings are read as what they are, line
    numbers count the line breaks, looking ahead is not noticed.
\<close>

section \<open>Not modelled\<close>

text \<open>
  Allocation succeeds, except where a component's theory takes it as a parameter. The branches for Windows
  are not compiled. Registration tables and the conversion of arguments by the interpreter's C interface
  (\<open>lapi.c\<close>, \<open>lauxlib.c\<close>) are left out; values arrive converted. Of \<open>lstrlib.c\<close> the conversions of \<open>string.format\<close> other than \<open>%q\<close>, which
  call \<open>sprintf\<close>, and \<open>dump\<close> are left out, of \<open>ltablib.c\<close> \<open>pack\<close>, \<open>maxn\<close> and the choice of access functions,
  which needs metatables. Not modelled because they act on the interpreter's stack, calls and object graph,
  of which the development has no model: the parser (\<open>lparser.c\<close>) and expressions in the code generator, the
  interpreter loop (\<open>lvm.c\<close>), calls and coroutines (\<open>ldo.c\<close>, \<open>lcorolib.c\<close>), states and closures (\<open>lstate.c\<close>,
  \<open>lfunc.c\<close>, \<open>ltm.c\<close>), the collector as a whole (\<open>lgc.c\<close>), debug information (\<open>ldebug.c\<close>, \<open>ldblib.c\<close>) and
  \<open>lbaselib.c\<close>. Left out for good: \<open>liolib.c\<close>, \<open>loslib.c\<close>, \<open>loadlib.c\<close>, \<open>lua.c\<close> and \<open>luac.c\<close>, which mostly
  pass calls on to the C library, \<open>lmathlib.c\<close>, which does so for floats, and the test drivers
  \<open>luau/sigtest.c\<close> and \<open>luau/xpio_c_q.c\<close>.
\<close>

end
